(* ===== verification/Prelude.thy ===== *)
theory Prelude
  imports Main "HOL-Library.Word" "HOL-Library.List_Lexorder" "HOL-Library.Char_ord"
    "HOL-Library.Sublist"
begin

text \<open>
  Shared ground of the development: the names of the model's basic types, the
  collections of simplification rules the component theories extend, results of
  fallible code (\<open>anyhow::Result\<close> and \<open>Result<_, ApiError>\<close> as sums), and the sorted
  association list that stands for Rust's \<open>BTreeMap\<close>.
\<close>

section \<open>Names of the basic types\<close>

type_synonym byte = "8 word"
type_synonym bytes = "byte list"
type_synonym key = string
type_synonym u32 = "32 word"
type_synonym u64 = "64 word"

text \<open>\<open>anyhow::Result<T>\<close>: the left side carries the rendered error message.\<close>

type_synonym 'a result = "string + 'a"

named_theorems io_simps \<open>sequential execution of store programs\<close>
named_theorems key_simps \<open>names of blobs and their parsers\<close>
named_theorems wire_simps \<open>byte formats\<close>

section \<open>Results\<close>

text \<open>Code that can panic returns one of these: a panic is not an error value.\<close>

datatype 'a rust = Panic | Ret 'a

fun rust_bind :: "'a rust \<Rightarrow> ('a \<Rightarrow> 'b rust) \<Rightarrow> 'b rust" where
  "rust_bind Panic f = Panic"
| "rust_bind (Ret x) f = f x"

lemma rust_bind_eq_Ret [simp]: "rust_bind m f = Ret y \<longleftrightarrow> (\<exists>x. m = Ret x \<and> f x = Ret y)"
  by (cases m) auto

text \<open>The \<open>?\<close> operator on \<open>Result\<close>.\<close>

fun res_bind :: "'e + 'a \<Rightarrow> ('a \<Rightarrow> 'e + 'b) \<Rightarrow> 'e + 'b" where
  "res_bind (Inl e) f = Inl e"
| "res_bind (Inr x) f = f x"

lemma res_bind_eq_Inr [simp]: "res_bind m f = Inr y \<longleftrightarrow> (\<exists>x. m = Inr x \<and> f x = Inr y)"
  by (cases m) auto

lemma Inr_eq_res_bind [simp]: "Inr y = res_bind m f \<longleftrightarrow> (\<exists>x. m = Inr x \<and> f x = Inr y)"
  by (cases m) auto

definition is_ok :: "'e + 'a \<Rightarrow> bool" where
  "is_ok r = (case r of Inl _ \<Rightarrow> False | Inr _ \<Rightarrow> True)"

lemma is_ok_simps [simp]: "is_ok (Inr x)" "\<not> is_ok (Inl e)"
  by (simp_all add: is_ok_def)

section \<open>Lists\<close>

lemma map_filter_eq_concat:
  "List.map_filter f xs = concat (map (\<lambda>x. case f x of None \<Rightarrow> [] | Some y \<Rightarrow> [y]) xs)"
  by (induction xs) (auto simp: List.map_filter_simps split: option.splits)

lemma set_map_filter: "set (List.map_filter f xs) = {y. \<exists>x \<in> set xs. f x = Some y}"
  by (induction xs) (auto simp: List.map_filter_simps split: option.splits)

lemma sum_list_filter_split:
  "sum_list (map f xs) = sum_list (map f (filter P xs)) + sum_list (map f (filter (\<lambda>x. \<not> P x) xs))"
  for f :: "'a \<Rightarrow> 'b::comm_monoid_add"
  by (induction xs) (auto simp: ac_simps)

lemma takeWhile_sorted_filter:
  "sorted xs \<Longrightarrow> (\<And>x y. x \<le> y \<Longrightarrow> P y \<Longrightarrow> P x) \<Longrightarrow> takeWhile P xs = filter P xs"
proof (induction xs)
  case (Cons a xs)
  show ?case
  proof (cases "P a")
    case True
    then show ?thesis using Cons by simp
  next
    case False
    then have "\<forall>x \<in> set xs. \<not> P x" using Cons.prems by auto
    then show ?thesis using False by (simp add: filter_empty_conv)
  qed
qed simp

lemma dropWhile_sorted_filter:
  "sorted xs \<Longrightarrow> dropWhile (\<lambda>x. x < a) xs = filter (\<lambda>x. a \<le> x) xs"
  for a :: "'a::linorder"
proof (induction xs)
  case (Cons b xs)
  show ?case
  proof (cases "b < a")
    case True
    then show ?thesis using Cons by simp
  next
    case False
    then have "\<forall>x \<in> set xs. a \<le> x" using Cons.prems by auto
    then show ?thesis using False by simp
  qed
qed simp

text \<open>\<open>slice::get(i)\<close>.\<close>

definition nth_opt :: "'a list \<Rightarrow> nat \<Rightarrow> 'a option" where
  "nth_opt xs i = (if i < length xs then Some (xs ! i) else None)"

text \<open>\<open>slice::chunks(n)\<close>; the call panics for \<open>n = 0\<close>, which callers of the model rule out.\<close>

function chunks :: "nat \<Rightarrow> 'a list \<Rightarrow> 'a list list" where
  "chunks n xs = (if n = 0 \<or> xs = [] then [] else take n xs # chunks n (drop n xs))"
  by auto
termination by (relation "measure (length \<circ> snd)") auto

declare chunks.simps [simp del]

lemma chunks_Nil [simp]: "chunks n [] = []"
  by (simp add: chunks.simps)

lemma chunks_step: "0 < n \<Longrightarrow> xs \<noteq> [] \<Longrightarrow> chunks n xs = take n xs # chunks n (drop n xs)"
  by (subst chunks.simps) simp

lemma chunks_length_iff: "0 < n \<Longrightarrow> i < length (chunks n xs) \<longleftrightarrow> i * n < length xs"
proof (induction n xs arbitrary: i rule: chunks.induct)
  case (1 n xs)
  show ?case
  proof (cases "xs = []")
    case False
    then show ?thesis using 1(2) 1(1)[of "i - 1"] chunks_step[of n xs] by (cases i) auto
  qed simp
qed

lemma chunks_nth: "0 < n \<Longrightarrow> i * n < length xs \<Longrightarrow> chunks n xs ! i = take n (drop (i * n) xs)"
proof (induction n xs arbitrary: i rule: chunks.induct)
  case (1 n xs)
  then have ne: "xs \<noteq> []" by auto
  show ?case
  proof (cases i)
    case 0
    then show ?thesis using 1(2) chunks_step[of n xs] ne by simp
  next
    case (Suc j)
    then have "j * n < length (drop n xs)" using 1 by simp
    then show ?thesis using 1(1)[of j] 1(2) chunks_step[of n xs] ne Suc by (simp add: add.commute)
  qed
qed

section \<open>Sorted association lists: \<open>BTreeMap\<close>\<close>

text \<open>
  Insertion keeps the keys in order and replaces an existing binding; removal drops every
  binding of the key. Lookup is \<open>map_of\<close>, whose laws hold without any invariant; the
  order of the keys is the invariant \<open>bt_wf\<close>.
\<close>

fun bt_insert :: "'k::linorder \<Rightarrow> 'v \<Rightarrow> ('k \<times> 'v) list \<Rightarrow> ('k \<times> 'v) list" where
  "bt_insert k v [] = [(k, v)]"
| "bt_insert k v ((k', v') # m) =
     (if k < k' then (k, v) # (k', v') # m
      else if k = k' then (k, v) # m
      else (k', v') # bt_insert k v m)"

definition bt_remove :: "'k \<Rightarrow> ('k \<times> 'v) list \<Rightarrow> ('k \<times> 'v) list" where
  "bt_remove k m = filter (\<lambda>(k', _). k' \<noteq> k) m"

definition bt_wf :: "('k::linorder \<times> 'v) list \<Rightarrow> bool" where
  "bt_wf m \<longleftrightarrow> sorted_wrt (<) (map fst m)"

lemma map_of_bt_insert [simp]: "map_of (bt_insert k v m) = (map_of m)(k \<mapsto> v)"
  by (induction m rule: bt_insert.induct) (auto simp: fun_eq_iff)

lemma map_of_bt_remove [simp]: "map_of (bt_remove k m) = (map_of m)(k := None)"
  by (induction m) (auto simp: bt_remove_def fun_eq_iff)

lemma set_bt_insert: "fst ` set (bt_insert k v m) = insert k (fst ` set m)"
  by (induction m rule: bt_insert.induct) auto

lemma bt_wf_Nil [simp]: "bt_wf []"
  by (simp add: bt_wf_def)

lemma bt_wf_insert [simp]: "bt_wf m \<Longrightarrow> bt_wf (bt_insert k v m)"
proof (induction m rule: bt_insert.induct)
  case (2 k v k' v' m)
  then show ?case
    using set_bt_insert[of k v m]
    by (auto simp: bt_wf_def ball_Un image_iff)
qed (simp add: bt_wf_def)

lemma bt_wf_remove [simp]: "bt_wf m \<Longrightarrow> bt_wf (bt_remove k m)"
  by (induction m) (auto simp: bt_wf_def bt_remove_def)

lemma bt_wf_sorted: "bt_wf m \<Longrightarrow> sorted (map fst m)"
  by (simp add: bt_wf_def strict_sorted_iff)

lemma bt_wf_distinct: "bt_wf m \<Longrightarrow> distinct (map fst m)"
  by (simp add: bt_wf_def strict_sorted_iff)

lemma dom_bt_keys: "set (map fst m) = dom (map_of m)"
  by (simp add: dom_map_of_conv_image_fst)

text \<open>Two well-formed maps with the same bindings are the same list.\<close>

lemma bt_wf_ext:
  assumes "bt_wf m" "bt_wf m'" "map_of m = map_of m'"
  shows "m = m'"
proof -
  have s: "set m = set m'"
    using assms by (metis bt_wf_distinct map_of_inject_set)
  have "inj_on fst (set m \<union> set m')"
    using bt_wf_distinct[OF assms(1)] by (simp add: s[symmetric] distinct_map)
  then show ?thesis
    using assms(1,2) s by (blast intro: map_sorted_distinct_set_unique bt_wf_sorted bt_wf_distinct)
qed

end
