(* ===== verification/Text.thy ===== *)
theory Text
  imports Prelude
begin

text \<open>
  The parts of Rust's standard library on strings, integers and bytes that the sources use:
  prefix and suffix stripping, splitting, decimal formatting (\<open>{n}\<close>, \<open>{n:020}\<close>) and parsing
  (\<open>parse::<u64>()\<close>, which accepts a leading plus sign), hexadecimal text, big and little
  endian bytes, UTF-8 validity. A Rust \<open>String\<close> is its list of UTF-8 bytes, one \<open>char\<close> per
  byte, so \<open>length\<close> is \<open>str::len\<close> and the order of strings is the byte order.
\<close>

section \<open>Prefixes, suffixes, splitting\<close>

definition starts_with :: "string \<Rightarrow> string \<Rightarrow> bool" where
  "starts_with s p = (take (length p) s = p)"

definition strip_prefix :: "string \<Rightarrow> string \<Rightarrow> string option" where
  "strip_prefix p s = (if starts_with s p then Some (drop (length p) s) else None)"

definition strip_suffix :: "string \<Rightarrow> string \<Rightarrow> string option" where
  "strip_suffix q s =
     (if length q \<le> length s \<and> drop (length s - length q) s = q
      then Some (take (length s - length q) s) else None)"

fun split_once :: "char \<Rightarrow> string \<Rightarrow> (string \<times> string) option" where
  "split_once c [] = None"
| "split_once c (x # xs) =
     (if x = c then Some ([], xs)
      else map_option (\<lambda>(a, b). (x # a, b)) (split_once c xs))"

definition blank :: "char \<Rightarrow> bool" where
  "blank c = (let n = of_char c :: nat in 9 \<le> n \<and> n \<le> 13 \<or> n = 32)"

definition trim_text :: "string \<Rightarrow> string" where
  "trim_text s = rev (dropWhile blank (rev (dropWhile blank s)))"

lemma starts_with_prefix: "starts_with s p \<longleftrightarrow> prefix p s"
  by (auto simp: starts_with_def prefix_def) (metis append_take_drop_id)

lemma starts_with_append [simp]: "starts_with (p @ s) p"
  by (simp add: starts_with_def)

lemma strip_prefix_append [simp]: "strip_prefix p (p @ s) = Some s"
  by (simp add: strip_prefix_def)

lemma strip_prefix_eq_Some: "strip_prefix p s = Some r \<longleftrightarrow> s = p @ r"
  by (auto simp: strip_prefix_def starts_with_def) (metis append_take_drop_id)

lemma strip_suffix_append [simp]: "strip_suffix q (s @ q) = Some s"
  by (simp add: strip_suffix_def)

lemma strip_suffix_eq_Some: "strip_suffix q s = Some r \<longleftrightarrow> s = r @ q"
  by (auto simp: strip_suffix_def) (metis append_take_drop_id)

lemma split_once_eq_Some:
  "split_once c s = Some (a, b) \<longleftrightarrow> s = a @ c # b \<and> c \<notin> set a"
proof (induction s arbitrary: a)
  case (Cons x xs)
  then show ?case by (cases a) auto
qed simp

lemma split_once_None: "split_once c s = None \<longleftrightarrow> c \<notin> set s"
  by (induction s) auto

text \<open>\<open>str::split\<close> at a character.\<close>

function split_on :: "char \<Rightarrow> string \<Rightarrow> string list" where
  "split_on c s = (case split_once c s of None \<Rightarrow> [s] | Some (a, b) \<Rightarrow> a # split_on c b)"
  by auto
termination by (relation "measure (length \<circ> snd)") (auto simp: split_once_eq_Some)

declare split_on.simps [simp del]

text \<open>What follows the last separator is unique.\<close>

lemma last_dot_unique:
  assumes "xs @ c # ds = ys @ c # es" "c \<notin> set ds" "c \<notin> set es"
  shows "xs = ys \<and> ds = (es :: string)"
proof -
  have r: "rev ds @ c # rev xs = rev es @ c # rev ys"
    using arg_cong[OF assms(1), of rev] by simp
  have "split_once c (rev ds @ c # rev xs) = Some (rev ds, rev xs)"
    unfolding split_once_eq_Some using assms(2) by simp
  moreover have "split_once c (rev es @ c # rev ys) = Some (rev es, rev ys)"
    unfolding split_once_eq_Some using assms(3) by simp
  ultimately have "rev ds = rev es \<and> rev xs = rev ys" by (metis r option.inject prod.inject)
  then show ?thesis by simp
qed

section \<open>Decimal numbers\<close>

definition digit_char :: "nat \<Rightarrow> char" where
  "digit_char d = char_of (48 + d)"

definition digit_val :: "char \<Rightarrow> nat option" where
  "digit_val c = (let n = of_char c :: nat in if 48 \<le> n \<and> n \<le> 57 then Some (n - 48) else None)"

fun show_nat :: "nat \<Rightarrow> string" where
  "show_nat n = (if n < 10 then [digit_char n] else show_nat (n div 10) @ [digit_char (n mod 10)])"

declare show_nat.simps [simp del]

definition pad0 :: "nat \<Rightarrow> string \<Rightarrow> string" where
  "pad0 w s = replicate (w - length s) (CHR ''0'') @ s"

fun parse_acc :: "nat \<Rightarrow> string \<Rightarrow> nat option" where
  "parse_acc acc [] = Some acc"
| "parse_acc acc (c # cs) =
     (case digit_val c of None \<Rightarrow> None | Some d \<Rightarrow> parse_acc (acc * 10 + d) cs)"

text \<open>\<open>str::parse\<close> for an unsigned integer of \<open>w\<close> bits.\<close>

definition parse_uint :: "nat \<Rightarrow> string \<Rightarrow> nat option" where
  "parse_uint w s =
     (let ds = (case s of c # r \<Rightarrow> (if c = CHR ''+'' then r else s) | [] \<Rightarrow> [])
      in if ds = [] then None
         else case parse_acc 0 ds of
                None \<Rightarrow> None
              | Some n \<Rightarrow> if n < 2 ^ w then Some n else None)"

lemma digit_val_char [simp]: "d < 10 \<Longrightarrow> digit_val (digit_char d) = Some d"
  by (simp add: digit_val_def digit_char_def of_char_of)

lemma digit_val_0 [simp]: "digit_val (CHR ''0'') = Some 0"
  by (simp add: digit_val_def)

lemma digit_val_plus [simp]: "digit_val (CHR ''+'') = None"
  by (simp add: digit_val_def)

lemma digit_val_bound: "digit_val c = Some d \<Longrightarrow> d < 10"
  by (auto simp: digit_val_def Let_def split: if_splits)

lemma digit_char_neq_plus: "d < 10 \<Longrightarrow> digit_char d \<noteq> CHR ''+''"
  by (metis digit_val_char digit_val_plus option.distinct(1))

lemma parse_acc_append:
  "parse_acc a (xs @ ys) = Option.bind (parse_acc a xs) (\<lambda>b. parse_acc b ys)"
  by (induction xs arbitrary: a) (auto split: option.splits)

lemma parse_acc_zeros: "parse_acc 0 (replicate k (CHR ''0'') @ s) = parse_acc 0 s"
  by (induction k) auto

lemma parse_acc_show [simp]: "parse_acc 0 (show_nat n) = Some n"
proof (induction n rule: show_nat.induct)
  case (1 n)
  then show ?case
    by (cases "n < 10") (simp_all add: show_nat.simps[of n] parse_acc_append)
qed

lemma show_nat_nonempty [simp]: "show_nat n \<noteq> []"
  by (subst show_nat.simps) simp

lemma show_nat_digits: "c \<in> set (show_nat n) \<Longrightarrow> \<exists>d < 10. c = digit_char d"
proof (induction n rule: show_nat.induct)
  case (1 n)
  then show ?case
    by (cases "n < 10") (auto simp: show_nat.simps[of n] intro: exI[of _ "n mod 10"])
qed

lemma show_nat_length: "0 < k \<Longrightarrow> n < 10 ^ k \<Longrightarrow> length (show_nat n) \<le> k"
proof (induction n arbitrary: k rule: show_nat.induct)
  case (1 n)
  show ?case
  proof (cases "n < 10")
    case True
    then show ?thesis using 1 by (simp add: show_nat.simps[of n])
  next
    case False
    then have "1 < k" using 1 by (cases "k = 1") auto
    then obtain j where k: "k = Suc j" "0 < j" by (cases k) auto
    then have "n div 10 < 10 ^ j" using 1 by (simp add: less_mult_imp_div_less mult.commute)
    then show ?thesis using 1 False k by (simp add: show_nat.simps[of n])
  qed
qed


lemma length_pad0: "0 < k \<Longrightarrow> n < 10 ^ k \<Longrightarrow> length (pad0 k (show_nat n)) = k"
  using show_nat_length by (simp add: pad0_def)

lemma parse_uint_digits:
  assumes "s \<noteq> []" "hd s \<noteq> CHR ''+''" "parse_acc 0 s = Some n" "n < 2 ^ w"
  shows "parse_uint w s = Some n"
  using assms by (cases s) (auto simp: parse_uint_def)

lemma hd_show_nat: "hd (show_nat n) \<noteq> CHR ''+''"
  by (metis digit_char_neq_plus hd_in_set show_nat_digits show_nat_nonempty)

lemma parse_uint_show [simp]: "n < 2 ^ w \<Longrightarrow> parse_uint w (show_nat n) = Some n"
  by (rule parse_uint_digits) (simp_all add: hd_show_nat)

lemma parse_uint_pad0 [simp]: "n < 2 ^ w \<Longrightarrow> parse_uint w (pad0 k (show_nat n)) = Some n"
proof (rule parse_uint_digits)
  show "hd (pad0 k (show_nat n)) \<noteq> CHR ''+''"
    by (cases "k - length (show_nat n)") (simp_all add: pad0_def hd_show_nat)
qed (simp_all add: pad0_def parse_acc_zeros)

lemma parse_uint_bound: "parse_uint w s = Some n \<Longrightarrow> n < 2 ^ w"
  by (auto simp: parse_uint_def Let_def split: if_splits option.splits list.splits)

lemma parse_acc_digits: "parse_acc a s = Some n \<Longrightarrow> c \<in> set s \<Longrightarrow> digit_val c \<noteq> None"
  by (induction s arbitrary: a) (auto split: option.splits)

lemma digit_val_slash [simp]: "digit_val (CHR ''/'') = None"
  by (simp add: digit_val_def)

lemma digit_val_e [simp]: "digit_val (CHR ''e'') = None"
  by (simp add: digit_val_def)

lemma digit_val_dot [simp]: "digit_val (CHR ''.'') = None"
  by (simp add: digit_val_def)

lemma parse_acc_no_dot: "parse_acc a s = Some n \<Longrightarrow> CHR ''.'' \<notin> set s"
  by (induction s arbitrary: a) (auto split: option.splits)

lemma parse_uint_no_dot: "parse_uint w s = Some n \<Longrightarrow> CHR ''.'' \<notin> set s"
  by (cases s) (auto simp: parse_uint_def Let_def dest: parse_acc_no_dot split: if_splits option.splits)

lemma pad0_no_dot: "CHR ''.'' \<notin> set (pad0 k (show_nat n))"
  using parse_acc_no_dot[of 0 "show_nat n"] by (auto simp: pad0_def)

text \<open>
  Zero-padded numbers of one width compare, as strings, like the numbers they write: this is
  what lets a lexical listing of keys be read as a numeric one.
\<close>

lemma parse_acc_mono: "parse_acc a s = Some m \<Longrightarrow> a * 10 ^ length s \<le> m \<and> m < (a + 1) * 10 ^ length s"
proof (induction s arbitrary: a)
  case (Cons c s)
  then obtain d where d: "digit_val c = Some d" "parse_acc (a * 10 + d) s = Some m"
    by (auto split: option.splits)
  let ?P = "10 ^ length s :: nat"
  have "d < 10" using d digit_val_bound by blast
  then have hi: "(a * 10 + d + 1) * ?P \<le> (a + 1) * 10 * ?P"
    by (intro mult_right_mono) auto
  have lo: "a * 10 * ?P \<le> (a * 10 + d) * ?P"
    by (intro mult_right_mono) auto
  from Cons.IH[OF d(2)] lo hi have "a * 10 * ?P \<le> m \<and> m < (a + 1) * 10 * ?P"
    by linarith
  then show ?case by (simp add: algebra_simps)
qed simp

lemma digit_val_less: "digit_val c = Some d \<Longrightarrow> digit_val c' = Some d' \<Longrightarrow> c < c' \<longleftrightarrow> d < d'"
  by (auto simp: digit_val_def Let_def less_char_def split: if_splits)

lemma digit_val_inj: "digit_val c = Some d \<Longrightarrow> digit_val c' = Some d \<Longrightarrow> c = c'"
  by (metis digit_val_less linorder_neqE less_irrefl)

lemma parse_acc_less:
  assumes "length xs = length ys" "parse_acc a xs = Some m" "parse_acc a ys = Some n"
  shows "xs < ys \<longleftrightarrow> m < n"
  using assms
proof (induction xs ys arbitrary: a rule: list_induct2)
  case (Cons x xs y ys)
  obtain d where d: "digit_val x = Some d" "parse_acc (a * 10 + d) xs = Some m"
    using Cons.prems by (auto split: option.splits)
  obtain e where e: "digit_val y = Some e" "parse_acc (a * 10 + e) ys = Some n"
    using Cons.prems by (auto split: option.splits)
  have xy: "x < y \<longleftrightarrow> d < e" "y < x \<longleftrightarrow> e < d" "x = y \<longleftrightarrow> d = e"
    using d(1) e(1) digit_val_less digit_val_inj by auto
  have m: "(a * 10 + d) * 10 ^ length xs \<le> m" "m < (a * 10 + d + 1) * 10 ^ length xs"
    using parse_acc_mono[OF d(2)] by simp_all
  have n: "(a * 10 + e) * 10 ^ length xs \<le> n" "n < (a * 10 + e + 1) * 10 ^ length xs"
    using parse_acc_mono[OF e(2)] Cons.hyps by simp_all
  consider "d < e" | "e < d" | "d = e" by linarith
  then show ?case
  proof cases
    case 1
    then have "(a * 10 + d + 1) * 10 ^ length xs \<le> (a * 10 + e) * 10 ^ length xs"
      by (intro mult_right_mono) auto
    then show ?thesis using m n 1 xy by auto
  next
    case 2
    then have "(a * 10 + e + 1) * 10 ^ length xs \<le> (a * 10 + d) * 10 ^ length xs"
      by (intro mult_right_mono) auto
    then show ?thesis using m n 2 xy by auto
  next
    case 3
    then show ?thesis using Cons.IH d e xy by auto
  qed
qed simp

lemma pad0_less:
  assumes "0 < k" "m < 10 ^ k" "n < 10 ^ k"
  shows "pad0 k (show_nat m) < pad0 k (show_nat n) \<longleftrightarrow> m < n"
  using assms
  by (intro parse_acc_less[where a = 0]) (simp_all add: length_pad0, simp_all add: pad0_def parse_acc_zeros)

lemma pad0_inject:
  assumes "0 < k" "m < 10 ^ k" "n < 10 ^ k"
  shows "pad0 k (show_nat m) = pad0 k (show_nat n) \<longleftrightarrow> m = n"
  using pad0_less[OF assms] pad0_less[OF assms(1,3,2)] by (metis less_irrefl linorder_neqE)

lemma append_less_append [simp]: "p @ xs < p @ ys \<longleftrightarrow> xs < (ys :: 'a::linorder list)"
  by (induction p) auto

section \<open>Hexadecimal text\<close>

definition hex_char :: "nat \<Rightarrow> char" where
  "hex_char n = (if n < 10 then char_of (48 + n) else char_of (87 + n))"

definition hex_byte :: "byte \<Rightarrow> string" where
  "hex_byte b = [hex_char (unat b div 16), hex_char (unat b mod 16)]"

definition hex_val :: "char \<Rightarrow> nat option" where
  "hex_val c = (let n = of_char c :: nat in
     if 48 \<le> n \<and> n \<le> 57 then Some (n - 48)
     else if 97 \<le> n \<and> n \<le> 102 then Some (n - 87)
     else if 65 \<le> n \<and> n \<le> 70 then Some (n - 55)
     else None)"

text \<open>\<open>u8::from_str_radix(s, 16)\<close> on a slice of two bytes; a leading plus sign is accepted.\<close>

definition radix16_pair :: "char \<Rightarrow> char \<Rightarrow> byte option" where
  "radix16_pair c d =
     (if c = CHR ''+'' then map_option word_of_nat (hex_val d)
      else case (hex_val c, hex_val d) of
             (Some a, Some b) \<Rightarrow> Some (word_of_nat (16 * a + b))
           | _ \<Rightarrow> None)"

text \<open>Slicing a string at a byte that continues a UTF-8 sequence panics.\<close>

definition utf8_cont :: "char \<Rightarrow> bool" where
  "utf8_cont c = (let n = of_char c :: nat in 128 \<le> n \<and> n < 192)"

lemma hex_val_plus [simp]: "hex_val (CHR ''+'') = None"
  by (simp add: hex_val_def)

lemma hex_val_char [simp]: "n < 16 \<Longrightarrow> hex_val (hex_char n) = Some n"
  by (auto simp: hex_val_def hex_char_def of_char_of Let_def)

lemma hex_char_neq_plus: "n < 16 \<Longrightarrow> hex_char n \<noteq> CHR ''+''"
  by (metis hex_val_char hex_val_plus option.distinct(1))

end
