(* ===== verification/Codec.thy ===== *)
theory Codec
  imports Text
begin

text \<open>
  Byte-level formats shared by the components: fixed-width big and little endian integers
  (\<open>to_be_bytes\<close>, \<open>from_le_bytes\<close>), the two hexadecimal codecs of the sources (grant tokens and
  inline commit records use the same one), and the UTF-8 check of \<open>String::from_utf8\<close>.
\<close>

section \<open>Fixed-width integers\<close>

fun be_bytes :: "nat \<Rightarrow> nat \<Rightarrow> bytes" where
  "be_bytes 0 n = []"
| "be_bytes (Suc k) n = be_bytes k (n div 256) @ [word_of_nat n]"

definition le_bytes :: "nat \<Rightarrow> nat \<Rightarrow> bytes" where
  "le_bytes k n = rev (be_bytes k n)"

definition of_be :: "bytes \<Rightarrow> nat" where
  "of_be bs = foldl (\<lambda>a b. a * 256 + unat b) 0 bs"

definition of_le :: "bytes \<Rightarrow> nat" where
  "of_le bs = of_be (rev bs)"

lemma length_be_bytes [simp]: "length (be_bytes k n) = k"
  by (induction k arbitrary: n) auto

lemma length_le_bytes [simp]: "length (le_bytes k n) = k"
  by (simp add: le_bytes_def)

lemma of_be_snoc [simp]: "of_be (bs @ [b]) = of_be bs * 256 + unat b"
  by (simp add: of_be_def)

lemma of_be_Nil [simp]: "of_be [] = 0"
  by (simp add: of_be_def)

lemma of_be_be [simp]: "n < 256 ^ k \<Longrightarrow> of_be (be_bytes k n) = n"
proof (induction k arbitrary: n)
  case (Suc k)
  then have "n div 256 < 256 ^ k" by (simp add: less_mult_imp_div_less mult.commute)
  then show ?case using Suc.IH by (simp add: unat_of_nat)
qed simp

lemma of_le_le [simp]: "n < 256 ^ k \<Longrightarrow> of_le (le_bytes k n) = n"
  by (simp add: of_le_def le_bytes_def)

lemma unat_lt2: "unat (w :: 'a::len word) < 2 ^ LENGTH('a)"
  by (rule unsigned_less)

lemma word_of_unat: "word_of_nat (unat w) = w"
  by simp

lemma of_be_bound: "of_be bs < 256 ^ length bs"
proof (induction bs rule: rev_induct)
  case (snoc b bs)
  have "unat b < 256" using unat_lt2[of b] by simp
  then show ?case using snoc by simp
qed simp

lemma of_le_bound: "of_le bs < 256 ^ length bs"
  using of_be_bound[of "rev bs"] by (simp add: of_le_def)

lemma unat_u32_bound: "unat (w :: u32) < 256 ^ 4"
  using unat_lt2[of w] by simp

lemma unat_u64_bound: "unat (w :: u64) < 256 ^ 8"
  using unat_lt2[of w] by simp

lemma word_of_of_le_32 [simp]: "word_of_nat (of_le (le_bytes 4 (unat w))) = (w :: u32)"
  using unat_u32_bound[of w] by simp

lemma word_of_of_le_64 [simp]: "word_of_nat (of_le (le_bytes 8 (unat w))) = (w :: u64)"
  using unat_u64_bound[of w] by simp

lemma word_less_succ:
  assumes "q < (x :: 'a::len word)"
  shows "q < q + 1"
proof -
  have "Suc (unat q) \<le> unat x" using assms by (simp add: word_less_nat_alt)
  then have "Suc (unat q) < 2 ^ LENGTH('a)" using unat_lt2[of x] by (rule le_less_trans)
  then have "unat q + unat (1 :: 'a word) < 2 ^ LENGTH('a)" by simp
  then have "unat (q + 1) = unat q + 1" using unat_add_lem[of q 1] by simp
  then show ?thesis by (simp add: word_less_nat_alt)
qed

section \<open>Strings as bytes\<close>

definition string_bytes :: "string \<Rightarrow> bytes" where
  "string_bytes s = map (\<lambda>c. word_of_nat (of_char c)) s"

definition bytes_string :: "bytes \<Rightarrow> string" where
  "bytes_string bs = map (\<lambda>b. char_of (unat b)) bs"

lemma length_string_bytes [simp]: "length (string_bytes s) = length s"
  by (simp add: string_bytes_def)

lemma length_bytes_string [simp]: "length (bytes_string bs) = length bs"
  by (simp add: bytes_string_def)

lemma of_char_bound: "(of_char c :: nat) < 256"
  using of_char_of[of "of_char c :: nat"] by (metis char_of_char mod_less_divisor zero_less_numeral)

lemma bytes_string_bytes [simp]: "bytes_string (string_bytes s) = s"
proof -
  have "char_of (unat (word_of_nat (of_char c) :: byte)) = c" for c
    using of_char_bound[of c] by (simp add: unat_of_nat)
  then show ?thesis by (simp add: bytes_string_def string_bytes_def comp_def)
qed

lemma string_bytes_string [simp]: "string_bytes (bytes_string bs) = bs"
proof -
  have "word_of_nat (of_char (char_of (unat b) :: char)) = b" for b :: byte
    using unat_lt2[of b] by (simp add: of_char_of)
  then show ?thesis by (simp add: bytes_string_def string_bytes_def comp_def)
qed

text \<open>UTF-8 validity, by the leading byte and the ranges of its continuation bytes.\<close>

fun utf8_ok :: "nat list \<Rightarrow> bool" where
  "utf8_ok [] = True"
| "utf8_ok (a # r) =
     (if a < 128 then utf8_ok r
      else case r of
        b # r2 \<Rightarrow>
          if 194 \<le> a \<and> a \<le> 223 then 128 \<le> b \<and> b < 192 \<and> utf8_ok r2
          else (case r2 of
            c # r3 \<Rightarrow>
              if 224 \<le> a \<and> a \<le> 239 then
                (if a = 224 then 160 \<le> b else 128 \<le> b) \<and> (if a = 237 then b < 160 else b < 192)
                \<and> 128 \<le> c \<and> c < 192 \<and> utf8_ok r3
              else (case r3 of
                d # r4 \<Rightarrow>
                  240 \<le> a \<and> a \<le> 244
                  \<and> (if a = 240 then 144 \<le> b else 128 \<le> b) \<and> (if a = 244 then b < 144 else b < 192)
                  \<and> 128 \<le> c \<and> c < 192 \<and> 128 \<le> d \<and> d < 192 \<and> utf8_ok r4
              | [] \<Rightarrow> False)
          | [] \<Rightarrow> False)
      | [] \<Rightarrow> False)"

definition is_utf8 :: "bytes \<Rightarrow> bool" where
  "is_utf8 bs = utf8_ok (map unat bs)"

definition is_ascii :: "string \<Rightarrow> bool" where
  "is_ascii s = list_all (\<lambda>c. (of_char c :: nat) < 128) s"

lemma ascii_utf8: "is_ascii s \<Longrightarrow> is_utf8 (string_bytes s)"
proof (induction s)
  case (Cons c s)
  then show ?case using of_char_bound[of c]
    by (simp add: is_ascii_def is_utf8_def string_bytes_def unat_of_nat)
qed (simp add: is_utf8_def string_bytes_def)

section \<open>Hexadecimal\<close>

definition hex :: "bytes \<Rightarrow> string" where
  "hex bs = concat (map hex_byte bs)"

text \<open>
  Pairs are read from the left and the reading stops at the first pair that is no hexadecimal
  number; the slice \<open>&s[i..i + 2]\<close> panics when byte \<open>i + 2\<close> continues a UTF-8 character.
\<close>

fun unhex_pairs :: "string \<Rightarrow> bytes option rust" where
  "unhex_pairs (c # d # r) =
     (if r \<noteq> [] \<and> utf8_cont (hd r) then Panic
      else case radix16_pair c d of
             None \<Rightarrow> Ret None
           | Some b \<Rightarrow> rust_bind (unhex_pairs r) (\<lambda>m. Ret (map_option ((#) b) m)))"
| "unhex_pairs _ = Ret (Some [])"

definition unhex :: "string \<Rightarrow> bytes option rust" where
  "unhex s = (if odd (length s) then Ret None else unhex_pairs s)"

lemma radix16_hex_byte: "radix16_pair (hex_char (unat b div 16)) (hex_char (unat b mod 16)) = Some b"
proof -
  have "unat b div 16 < 16" using unat_lt2[of b] by simp
  then show ?thesis by (simp add: radix16_pair_def hex_char_neq_plus)
qed

lemma hex_char_ascii: "n < 16 \<Longrightarrow> (of_char (hex_char n) :: nat) < 128"
  by (simp add: hex_char_def of_char_of)

lemma hex_byte_ascii: "c \<in> set (hex_byte b) \<Longrightarrow> (of_char c :: nat) < 128"
  using hex_char_ascii[of "unat b div 16"] hex_char_ascii[of "unat b mod 16"] unat_lt2[of b]
  by (auto simp: hex_byte_def)

lemma hex_ascii: "is_ascii (hex bs)"
  using hex_byte_ascii by (auto simp: is_ascii_def hex_def list_all_iff)

lemma ascii_no_cont: "is_ascii s \<Longrightarrow> c \<in> set s \<Longrightarrow> \<not> utf8_cont c"
  by (auto simp: is_ascii_def list_all_iff utf8_cont_def Let_def)

lemma even_length_hex: "length (hex bs) = 2 * length bs"
  by (induction bs) (auto simp: hex_def hex_byte_def)

lemma unhex_hex [simp]: "unhex (hex bs) = Ret (Some bs)"
proof -
  have "unhex_pairs (hex bs) = Ret (Some bs)"
  proof (induction bs)
    case (Cons b bs)
    have "hex bs \<noteq> [] \<Longrightarrow> \<not> utf8_cont (hd (hex bs))"
      by (rule ascii_no_cont[OF hex_ascii hd_in_set])
    then show ?case using Cons radix16_hex_byte[of b] by (auto simp: hex_def hex_byte_def)
  qed (simp add: hex_def)
  then show ?thesis by (simp add: unhex_def even_length_hex)
qed

lemma unhex_ascii_no_panic: "is_ascii s \<Longrightarrow> unhex s \<noteq> Panic"
proof -
  have "is_ascii s \<Longrightarrow> unhex_pairs s \<noteq> Panic"
  proof (induction s rule: unhex_pairs.induct)
    case (1 c d r)
    have "r \<noteq> [] \<Longrightarrow> \<not> utf8_cont (hd r)"
      using 1(2) ascii_no_cont[OF 1(2)] by simp
    then show ?case using 1
      by (cases "radix16_pair c d"; cases "unhex_pairs r") (auto simp: is_ascii_def)
  qed simp_all
  then show "is_ascii s \<Longrightarrow> unhex s \<noteq> Panic" by (simp add: unhex_def)
qed

lemma unhex_even: "unhex s = Ret (Some bs) \<Longrightarrow> length s = 2 * length bs"
proof -
  have "unhex_pairs s = Ret (Some bs) \<Longrightarrow> even (length s) \<Longrightarrow> length s = 2 * length bs" for bs
    by (induction s arbitrary: bs rule: unhex_pairs.induct)
       (auto split: if_splits option.splits)
  then show "unhex s = Ret (Some bs) \<Longrightarrow> length s = 2 * length bs"
    by (auto simp: unhex_def split: if_splits)
qed

end
