(* ===== verification/Blob_Store.thy ===== *)
theory Blob_Store
  imports Codec
begin

text \<open>
  \<open>src/src/store.rs\<close>: the blob store that is the only durable truth. The interface is a pair of
  locales (the key-value part with create-if-absent, and the full trait with listing, versions
  and compare-and-swap); \<open>MemBlobStore\<close> is modelled with its two ordered maps and interprets
  both. The trait's default methods and the file-system store's key check, listing and ranged
  read are modelled and compared with it.
\<close>

section \<open>The interface\<close>

text \<open>
  What the commit protocol needs of a store: reads see the last write, and \<open>create\<close> is
  an atomic test-and-set. \<open>'v\<close> is the type of the values (bytes here, cells in the protocol
  simulator).
\<close>

locale kv_store =
  fixes get :: "'s \<Rightarrow> 'k \<Rightarrow> 'v option"
    and put :: "'k \<Rightarrow> 'v \<Rightarrow> 's \<Rightarrow> 's"
    and delete :: "'k \<Rightarrow> 's \<Rightarrow> 's"
    and create :: "'k \<Rightarrow> 'v \<Rightarrow> 's \<Rightarrow> bool \<times> 's"
  assumes get_put: "get (put k v s) k' = (if k' = k then Some v else get s k')"
    and get_delete: "get (delete k s) k' = (if k' = k then None else get s k')"
    and create_fresh: "get s k = None \<Longrightarrow> create k v s = (True, put k v s)"
    and create_taken: "get s k = Some w \<Longrightarrow> create k v s = (False, s)"
begin

lemma create_cases:
  "create k v s = (if get s k = None then (True, put k v s) else (False, s))"
  by (cases "get s k") (simp_all add: create_fresh create_taken)

lemma fst_create [simp]: "fst (create k v s) \<longleftrightarrow> get s k = None"
  by (simp add: create_cases)

lemma get_create:
  "get (snd (create k v s)) k' =
     (if k' = k then Some (case get s k of None \<Rightarrow> v | Some w \<Rightarrow> w) else get s k')"
  by (auto simp: create_cases get_put)

text \<open>Of two racing creates of one key, the second loses and changes nothing.\<close>

lemma create_once:
  "create k v s = (b, s') \<Longrightarrow> create k w s' = (False, s')"
  by (auto simp: create_cases get_put split: if_splits)

text \<open>Nothing but a put or a delete of the key itself changes a value once it is there.\<close>

lemma decided_stays:
  assumes "get s k = Some w"
  shows "get (snd (create k' v s)) k = Some w"
    and "k' \<noteq> k \<Longrightarrow> get (put k' v s) k = Some w"
    and "k' \<noteq> k \<Longrightarrow> get (delete k' s) k = Some w"
  using assms by (auto simp: get_create get_put get_delete)

end

text \<open>
  The whole trait: \<open>list\<close> is the sorted list of the keys with a prefix, \<open>version\<close> is zero
  exactly for absent keys and grows with every mutation, and \<open>put_cas\<close> writes exactly on a
  version match.
\<close>

locale blob_store = kv_store get put delete create
  for get :: "'s \<Rightarrow> key \<Rightarrow> bytes option" and put delete create +
  fixes lst :: "'s \<Rightarrow> string \<Rightarrow> key list"
    and version :: "'s \<Rightarrow> key \<Rightarrow> nat"
    and put_cas :: "key \<Rightarrow> nat \<Rightarrow> bytes \<Rightarrow> 's \<Rightarrow> nat option \<times> 's"
    and invar :: "'s \<Rightarrow> bool"
  assumes invar_put: "invar s \<Longrightarrow> invar (put k v s)"
    and invar_delete: "invar s \<Longrightarrow> invar (delete k s)"
    and list_set: "invar s \<Longrightarrow> set (lst s p) = {k. get s k \<noteq> None \<and> starts_with k p}"
    and list_sorted: "invar s \<Longrightarrow> sorted_wrt (<) (lst s p)"
    and version_absent: "invar s \<Longrightarrow> version s k = 0 \<longleftrightarrow> get s k = None"
    and cas_hit: "version s k = e \<Longrightarrow> put_cas k e v s = (Some (version (put k v s) k), put k v s)"
    and cas_miss: "version s k \<noteq> e \<Longrightarrow> put_cas k e v s = (None, s)"
    and version_grows: "invar s \<Longrightarrow> version s k < version (put k v s) k"
begin

lemma invar_create: "invar s \<Longrightarrow> invar (snd (create k v s))"
  by (simp add: create_cases invar_put)

lemma invar_cas: "invar s \<Longrightarrow> invar (snd (put_cas k e v s))"
  by (cases "version s k = e") (simp_all add: cas_hit cas_miss invar_put)

text \<open>Two writers that read the same version: at most one of their swaps succeeds.\<close>

lemma cas_once:
  assumes "invar s" "put_cas k e v s = (Some n, s')"
  shows "put_cas k e w s' = (None, s') \<and> e < n \<and> get s' k = Some v"
proof -
  have hit: "version s k = e" using assms(2) cas_miss by fastforce
  then have s': "s' = put k v s" "n = version (put k v s) k" using assms(2) cas_hit by auto
  then have "e < n" using assms(1) hit version_grows by auto
  then show ?thesis using s' by (simp add: cas_miss get_put)
qed

text \<open>Expecting version zero is create-if-absent.\<close>

lemma cas_zero_is_create:
  assumes "invar s"
  shows "(fst (put_cas k 0 v s) \<noteq> None \<longleftrightarrow> fst (create k v s))
         \<and> snd (put_cas k 0 v s) = snd (create k v s)"
proof (cases "get s k")
  case None
  then show ?thesis using assms version_absent cas_hit by (simp add: create_cases)
next
  case (Some w)
  then have "version s k \<noteq> 0" using assms version_absent by auto
  then show ?thesis using Some by (simp add: create_cases cas_miss)
qed

lemma list_distinct: "invar s \<Longrightarrow> distinct (lst s p)"
  using list_sorted strict_sorted_iff by blast

end

section \<open>\<open>MemBlobStore\<close>\<close>

record mem =
  blobs :: "(key \<times> bytes) list"
  versions :: "(key \<times> nat) list"

definition mem_empty :: mem where
  "mem_empty = \<lparr>blobs = [], versions = []\<rparr>"

definition high_water :: "mem \<Rightarrow> key \<Rightarrow> nat" where
  "high_water s k = (case map_of (versions s) k of None \<Rightarrow> 0 | Some v \<Rightarrow> v)"

definition mem_bump :: "key \<Rightarrow> mem \<Rightarrow> nat \<times> mem" where
  "mem_bump k s =
     (let v = high_water s k + 1 in (v, s\<lparr>versions := bt_insert k v (versions s)\<rparr>))"

definition mem_get :: "mem \<Rightarrow> key \<Rightarrow> bytes option" where
  "mem_get s k = map_of (blobs s) k"

definition mem_put :: "key \<Rightarrow> bytes \<Rightarrow> mem \<Rightarrow> mem" where
  "mem_put k v s = (let s = snd (mem_bump k s) in s\<lparr>blobs := bt_insert k v (blobs s)\<rparr>)"

definition mem_delete :: "key \<Rightarrow> mem \<Rightarrow> mem" where
  "mem_delete k s = s\<lparr>blobs := bt_remove k (blobs s)\<rparr>"

text \<open>\<open>range(prefix..).take_while(starts_with)\<close> over the ordered map.\<close>

definition mem_list :: "mem \<Rightarrow> string \<Rightarrow> key list" where
  "mem_list s p =
     takeWhile (\<lambda>k. starts_with k p) (dropWhile (\<lambda>k. k < p) (map fst (blobs s)))"

definition mem_create :: "key \<Rightarrow> bytes \<Rightarrow> mem \<Rightarrow> bool \<times> mem" where
  "mem_create k v s =
     (if map_of (blobs s) k \<noteq> None then (False, s)
      else (True, let s = snd (mem_bump k s) in s\<lparr>blobs := bt_insert k v (blobs s)\<rparr>))"

definition mem_version :: "mem \<Rightarrow> key \<Rightarrow> nat" where
  "mem_version s k = (if map_of (blobs s) k \<noteq> None then high_water s k else 0)"

definition mem_put_cas :: "key \<Rightarrow> nat \<Rightarrow> bytes \<Rightarrow> mem \<Rightarrow> nat option \<times> mem" where
  "mem_put_cas k e v s =
     (let current = (if map_of (blobs s) k \<noteq> None then high_water s k else 0)
      in if current \<noteq> e then (None, s)
         else let (n, s) = mem_bump k s in (Some n, s\<lparr>blobs := bt_insert k v (blobs s)\<rparr>))"

text \<open>
  The ranged read of the in-memory store and of the trait's default. The end of the range
  is computed in 64 bits and wraps; a slice whose start lies past its end panics.
\<close>

definition slice_range :: "u64 \<Rightarrow> u64 \<Rightarrow> bytes \<Rightarrow> bytes rust" where
  "slice_range offset len bs =
     (let start = min (unat offset) (length bs);
          stop = min (unat (offset + len)) (length bs)
      in if stop < start then Panic else Ret (take (stop - start) (drop start bs)))"

definition mem_get_range :: "mem \<Rightarrow> key \<Rightarrow> u64 \<Rightarrow> u64 \<Rightarrow> bytes option rust" where
  "mem_get_range s k offset len =
     (case map_of (blobs s) k of
        None \<Rightarrow> Ret None
      | Some bs \<Rightarrow> rust_bind (slice_range offset len bs) (\<lambda>r. Ret (Some r)))"

definition mem_wf :: "mem \<Rightarrow> bool" where
  "mem_wf s \<longleftrightarrow> bt_wf (blobs s) \<and> bt_wf (versions s)
     \<and> (\<forall>k. map_of (blobs s) k \<noteq> None \<longrightarrow> 0 < high_water s k)"

lemma mem_get_put [simp]: "mem_get (mem_put k v s) k' = (if k' = k then Some v else mem_get s k')"
  by (simp add: mem_get_def mem_put_def mem_bump_def Let_def)

lemma mem_get_delete [simp]: "mem_get (mem_delete k s) k' = (if k' = k then None else mem_get s k')"
  by (simp add: mem_get_def mem_delete_def)

lemma high_water_put [simp]:
  "high_water (mem_put k v s) k' = (if k' = k then high_water s k + 1 else high_water s k')"
  by (simp add: high_water_def mem_put_def mem_bump_def Let_def)

lemma high_water_delete [simp]: "high_water (mem_delete k s) k' = high_water s k'"
  by (simp add: high_water_def mem_delete_def)

lemma mem_create_put:
  "mem_create k v s = (if mem_get s k = None then (True, mem_put k v s) else (False, s))"
  by (simp add: mem_create_def mem_get_def mem_put_def)

lemma mem_version_eq: "mem_version s k = (if mem_get s k = None then 0 else high_water s k)"
  by (simp add: mem_version_def mem_get_def)

lemma mem_put_cas_put:
  "mem_put_cas k e v s =
     (if mem_version s k = e then (Some (high_water s k + 1), mem_put k v s) else (None, s))"
  by (auto simp: mem_put_cas_def mem_version_def mem_put_def mem_bump_def Let_def)

lemma mem_wf_empty [simp]: "mem_wf mem_empty"
  by (simp add: mem_wf_def mem_empty_def)

lemma mem_wf_put [simp]: "mem_wf s \<Longrightarrow> mem_wf (mem_put k v s)"
proof -
  assume wf: "mem_wf s"
  have "\<forall>k'. mem_get (mem_put k v s) k' \<noteq> None \<longrightarrow> 0 < high_water (mem_put k v s) k'"
    using wf by (simp add: mem_wf_def mem_get_def[symmetric])
  then show ?thesis using wf by (simp add: mem_wf_def mem_get_def mem_put_def mem_bump_def Let_def)
qed

lemma mem_wf_delete [simp]: "mem_wf s \<Longrightarrow> mem_wf (mem_delete k s)"
  by (simp add: mem_wf_def high_water_def mem_delete_def)

section \<open>Prefix listing\<close>

text \<open>
  The keys with a prefix form one interval of the key order that starts at the prefix itself,
  which is why a range scan that stops at the first other key finds exactly them.
\<close>

lemma starts_with_ge: "starts_with k p \<Longrightarrow> p \<le> k"
proof -
  have "p \<le> p @ r" for r :: string by (induction p) auto
  then show "starts_with k p \<Longrightarrow> p \<le> k" by (auto simp: starts_with_prefix prefix_def)
qed

lemma starts_with_convex: "p \<le> x \<Longrightarrow> x \<le> y \<Longrightarrow> starts_with y p \<Longrightarrow> starts_with x p"
proof (induction p arbitrary: x y)
  case (Cons a p)
  then obtain y' where y: "y = a # y'" "starts_with y' p"
    by (cases y) (auto simp: starts_with_def)
  obtain b x' where x: "x = b # x'" using Cons.prems(1) by (cases x) auto
  have "a = b" "p \<le> x'" "x' \<le> y'"
    using Cons.prems x y by auto
  then show ?case using Cons.IH[of x' y'] x y by (simp add: starts_with_def)
qed (simp add: starts_with_def)

lemma range_scan_filter:
  assumes "sorted ks"
  shows "takeWhile (\<lambda>k. starts_with k p) (dropWhile (\<lambda>k. k < p) ks) = filter (\<lambda>k. starts_with k p) ks"
proof -
  let ?above = "filter (\<lambda>k. p \<le> k) ks"
  have "takeWhile (\<lambda>k. starts_with k p) ?above = filter (\<lambda>k. starts_with k p) ?above"
    using assms
  proof (induction ks)
    case (Cons a ks)
    show ?case
    proof (cases "p \<le> a \<and> \<not> starts_with a p")
      case True
      then have "\<forall>k \<in> set ks. \<not> starts_with k p"
        using Cons.prems starts_with_convex by auto
      then show ?thesis using True by (auto simp: filter_empty_conv)
    next
      case False
      then show ?thesis using Cons by auto
    qed
  qed simp
  also have "\<dots> = filter (\<lambda>k. starts_with k p) ks"
    by (auto intro: filter_cong dest: starts_with_ge)
  finally show ?thesis using dropWhile_sorted_filter[OF assms] by metis
qed

lemma mem_list_filter: "mem_wf s \<Longrightarrow> mem_list s p = filter (\<lambda>k. starts_with k p) (map fst (blobs s))"
  by (simp add: mem_list_def range_scan_filter bt_wf_sorted mem_wf_def)

lemma set_mem_list: "mem_wf s \<Longrightarrow> set (mem_list s p) = {k. mem_get s k \<noteq> None \<and> starts_with k p}"
  using dom_bt_keys[of "blobs s"] by (auto simp: mem_list_filter mem_get_def)

lemma mem_list_sorted: "mem_wf s \<Longrightarrow> sorted_wrt (<) (mem_list s p)"
  by (simp add: mem_list_filter mem_wf_def bt_wf_def sorted_wrt_filter)

interpretation memkv: kv_store mem_get mem_put mem_delete mem_create
  by unfold_locales (simp_all add: mem_create_put)

interpretation memst: blob_store mem_get mem_put mem_delete mem_create mem_list mem_version
    mem_put_cas mem_wf
  by unfold_locales
     (simp_all add: set_mem_list mem_list_sorted mem_version_eq mem_put_cas_put,
      auto simp: mem_wf_def mem_get_def)

section \<open>Ranged reads agree\<close>

text \<open>The trait's default read of a range, over the default full read.\<close>

definition default_get_range :: "bytes option \<Rightarrow> u64 \<Rightarrow> u64 \<Rightarrow> bytes option rust" where
  "default_get_range blob offset len =
     (case blob of None \<Rightarrow> Ret None
      | Some bs \<Rightarrow> rust_bind (slice_range offset len bs) (\<lambda>r. Ret (Some r)))"

text \<open>The trait's default version and its non-atomic compare-and-swap.\<close>

definition default_version :: "bytes option \<Rightarrow> nat" where
  "default_version blob = (if blob = None then 0 else 1)"

definition default_put_cas ::
  "('s \<Rightarrow> key \<Rightarrow> nat) \<Rightarrow> (key \<Rightarrow> bytes \<Rightarrow> 's \<Rightarrow> 's) \<Rightarrow> key \<Rightarrow> nat \<Rightarrow> bytes \<Rightarrow> 's \<Rightarrow> nat option \<times> 's" where
  "default_put_cas vers putf k e v s =
     (if vers s k \<noteq> e then (None, s) else let s' = putf k v s in (Some (vers s' k), s'))"

text \<open>\<open>FsBlobStore::get_range\<close>: seek, then read until the buffer is full or the file ends.\<close>

fun fs_read_loop :: "nat \<Rightarrow> bytes \<Rightarrow> bytes \<Rightarrow> bytes" where
  "fs_read_loop 0 file buf = buf"
| "fs_read_loop (Suc n) [] buf = buf"
| "fs_read_loop (Suc n) (b # file) buf = fs_read_loop n file (buf @ [b])"

definition fs_get_range :: "bytes option \<Rightarrow> u64 \<Rightarrow> u64 \<Rightarrow> bytes option" where
  "fs_get_range file offset len =
     map_option (\<lambda>bs. fs_read_loop (unat len) (drop (unat offset) bs) []) file"

lemma fs_read_loop_take: "fs_read_loop n file buf = buf @ take n file"
  by (induction n "file" buf rule: fs_read_loop.induct) auto

lemma slice_range_take:
  assumes "unat offset + unat len < 2 ^ 64"
  shows "slice_range offset len bs = Ret (take (unat len) (drop (unat offset) bs))"
proof -
  have e: "unat (offset + len) = unat offset + unat len"
    using assms unat_add_lem[of offset len] by simp
  show ?thesis
    by (cases "unat offset \<le> length bs"; cases "unat offset + unat len \<le> length bs")
       (auto simp: slice_range_def e min_def Let_def)
qed

lemma get_ranges_agree:
  assumes "unat offset + unat len < 2 ^ 64"
  shows "mem_get_range s k offset len = default_get_range (mem_get s k) offset len"
    and "default_get_range blob offset len = Ret (fs_get_range blob offset len)"
  using assms
  by (auto simp: mem_get_range_def mem_get_def default_get_range_def fs_get_range_def
      slice_range_take fs_read_loop_take split: option.splits)

section \<open>The file-system store's keys and listing\<close>

fun split_slash :: "string \<Rightarrow> string list" where
  "split_slash [] = [[]]"
| "split_slash (c # s) =
     (if c = CHR ''/'' then [] # split_slash s
      else case split_slash s of p # ps \<Rightarrow> (c # p) # ps | [] \<Rightarrow> [[c]])"

text \<open>\<open>path_for\<close>: a key with an empty, dot or dot-dot part is refused.\<close>

definition fs_path_for :: "key \<Rightarrow> key result" where
  "fs_path_for k =
     (if list_ex (\<lambda>p. p = [] \<or> p = ''.'' \<or> p = ''..'') (split_slash k)
      then Inl ''invalid blob key'' else Inr k)"

definition rsplit_slash :: "string \<Rightarrow> (string \<times> string) option" where
  "rsplit_slash s = map_option (\<lambda>(a, b). (rev b, rev a)) (split_once (CHR ''/'') (rev s))"

text \<open>
  The listing walks only the directory the prefix names (everything when it names none), keeps
  the paths with the prefix and sorts them. \<open>files\<close> are the paths under the root.
\<close>

definition fs_walk :: "string list \<Rightarrow> string \<Rightarrow> string list" where
  "fs_walk files dir = (if dir = [] then files else filter (\<lambda>f. starts_with f (dir @ ''/'')) files)"

definition fs_list :: "string list \<Rightarrow> string \<Rightarrow> string list" where
  "fs_list files p =
     (let dir = (case rsplit_slash p of None \<Rightarrow> [] | Some (d, _) \<Rightarrow> d)
      in sort (filter (\<lambda>k. starts_with k p) (fs_walk files dir)))"

lemma rsplit_slash_Some: "rsplit_slash p = Some (d, r) \<Longrightarrow> p = d @ ''/'' @ r"
proof -
  assume "rsplit_slash p = Some (d, r)"
  then have "split_once (CHR ''/'') (rev p) = Some (rev r, rev d)"
    by (auto simp: rsplit_slash_def)
  then have "rev p = rev r @ CHR ''/'' # rev d" by (simp add: split_once_eq_Some)
  then show ?thesis by (metis append.assoc append_Cons append_Nil rev.simps(2) rev_append rev_rev_ident)
qed

lemma starts_with_trans: "starts_with k (a @ b) \<Longrightarrow> starts_with k a"
  by (auto simp: starts_with_prefix prefix_def)

text \<open>Walking only the prefix's directory loses no key.\<close>

lemma fs_list_complete: "fs_list files p = sort (filter (\<lambda>k. starts_with k p) files)"
proof (cases "rsplit_slash p")
  case (Some dr)
  obtain d r where dr: "dr = (d, r)" by force
  then have "p = (d @ ''/'') @ r" using rsplit_slash_Some Some by auto
  then have "starts_with k p \<Longrightarrow> starts_with k (d @ ''/'')" for k
    using starts_with_trans by blast
  then have "filter (\<lambda>k. starts_with k p) (fs_walk files d) = filter (\<lambda>k. starts_with k p) files"
    by (auto simp: fs_walk_def intro!: filter_cong)
  then show ?thesis using Some dr by (simp add: fs_list_def)
qed (simp add: fs_list_def fs_walk_def)

end
