(* ===== verification/Store_IO.thy ===== *)
theory Store_IO
  imports Blob_Store
begin

text \<open>
  Asynchronous code over the blob store. An \<open>async fn\<close> that talks to \<open>&dyn BlobStore\<close> is a
  program: either finished with a value, or one request together with what it does on each
  answer. The same program is run in two ways: alone against \<open>MemBlobStore\<close> (\<open>run_io\<close>, executable),
  and as one of several tasks whose requests interleave in any order, may fail, and may take
  effect although the answer is lost (\<open>sys_step\<close>). The second is what the simulator's store and
  the retrying R2 client can do to the code.
\<close>

section \<open>Requests and answers\<close>

datatype req =
    GetReq key
  | PutReq key bytes
  | DeleteReq key
  | ListReq string
  | CreateReq key bytes
  | VersionReq key
  | CasReq key nat bytes
  | RangeReq key nat nat

datatype resp =
    ErrResp string
  | BlobResp "bytes option"
  | UnitResp
  | KeysResp "key list"
  | BoolResp bool
  | VersionResp nat
  | CasResp "nat option"

primrec serve :: "req \<Rightarrow> mem \<Rightarrow> resp \<times> mem" where
  "serve (GetReq k) s = (BlobResp (mem_get s k), s)"
| "serve (PutReq k v) s = (UnitResp, mem_put k v s)"
| "serve (DeleteReq k) s = (UnitResp, mem_delete k s)"
| "serve (ListReq p) s = (KeysResp (mem_list s p), s)"
| "serve (CreateReq k v) s = (let (b, s') = mem_create k v s in (BoolResp b, s'))"
| "serve (VersionReq k) s = (VersionResp (mem_version s k), s)"
| "serve (CasReq k e v) s = (let (n, s') = mem_put_cas k e v s in (CasResp n, s'))"
| "serve (RangeReq k off len) s =
     (BlobResp (map_option (\<lambda>bs. take len (drop off bs)) (mem_get s k)), s)"

lemma serve_wf [simp]: "mem_wf s \<Longrightarrow> mem_wf (snd (serve q s))"
  by (cases q) (auto simp: mem_create_put mem_put_cas_put)

text \<open>
  \<open>SimStore\<close>: while the fault window is open (\<open>failing\<close>) a mutating request fails with
  probability \<open>fail_pct\<close> before it reaches the inner store (\<open>chance\<close> is the draw); reads are
  slow but reliable.
\<close>

fun mutating :: "req \<Rightarrow> bool" where
  "mutating (PutReq _ _) = True"
| "mutating (DeleteReq _) = True"
| "mutating (CreateReq _ _) = True"
| "mutating (CasReq _ _ _) = True"
| "mutating _ = False"

definition sim_serve :: "bool \<Rightarrow> bool \<Rightarrow> req \<Rightarrow> mem \<Rightarrow> resp \<times> mem" where
  "sim_serve failing chance q s =
     (if mutating q \<and> failing \<and> chance then (ErrResp ''simulated store fault'', s) else serve q s)"

section \<open>Programs\<close>

datatype 'a io = Done 'a | Do req "resp \<Rightarrow> 'a io"

primrec io_bind :: "'a io \<Rightarrow> ('a \<Rightarrow> 'b io) \<Rightarrow> 'b io" where
  "io_bind (Done x) f = f x"
| "io_bind (Do q c) f = Do q (\<lambda>r. io_bind (c r) f)"

text \<open>\<open>expr.await?\<close>: go on with the value, return the error as it is.\<close>

definition io_try :: "'a result io \<Rightarrow> ('a \<Rightarrow> 'b result io) \<Rightarrow> 'b result io" where
  "io_try p f = io_bind p (\<lambda>r. case r of Inl e \<Rightarrow> Done (Inl e) | Inr x \<Rightarrow> f x)"

abbreviation ok :: "'a \<Rightarrow> 'a result io" where "ok x \<equiv> Done (Inr x)"
abbreviation fail :: "string \<Rightarrow> 'a result io" where "fail e \<equiv> Done (Inl e)"

definition as_blob :: "resp \<Rightarrow> bytes option result" where
  "as_blob r = (case r of BlobResp b \<Rightarrow> Inr b | ErrResp e \<Rightarrow> Inl e | _ \<Rightarrow> Inl ''bad answer'')"
definition as_unit :: "resp \<Rightarrow> unit result" where
  "as_unit r = (case r of UnitResp \<Rightarrow> Inr () | ErrResp e \<Rightarrow> Inl e | _ \<Rightarrow> Inl ''bad answer'')"
definition as_keys :: "resp \<Rightarrow> key list result" where
  "as_keys r = (case r of KeysResp b \<Rightarrow> Inr b | ErrResp e \<Rightarrow> Inl e | _ \<Rightarrow> Inl ''bad answer'')"
definition as_bool :: "resp \<Rightarrow> bool result" where
  "as_bool r = (case r of BoolResp b \<Rightarrow> Inr b | ErrResp e \<Rightarrow> Inl e | _ \<Rightarrow> Inl ''bad answer'')"
definition as_version :: "resp \<Rightarrow> nat result" where
  "as_version r = (case r of VersionResp b \<Rightarrow> Inr b | ErrResp e \<Rightarrow> Inl e | _ \<Rightarrow> Inl ''bad answer'')"
definition as_cas :: "resp \<Rightarrow> nat option result" where
  "as_cas r = (case r of CasResp b \<Rightarrow> Inr b | ErrResp e \<Rightarrow> Inl e | _ \<Rightarrow> Inl ''bad answer'')"

lemmas as_resp_defs = as_blob_def as_unit_def as_keys_def as_bool_def as_version_def as_cas_def

definition io_get :: "key \<Rightarrow> bytes option result io" where
  "io_get k = Do (GetReq k) (\<lambda>r. Done (as_blob r))"
definition io_put :: "key \<Rightarrow> bytes \<Rightarrow> unit result io" where
  "io_put k v = Do (PutReq k v) (\<lambda>r. Done (as_unit r))"
definition io_delete :: "key \<Rightarrow> unit result io" where
  "io_delete k = Do (DeleteReq k) (\<lambda>r. Done (as_unit r))"
definition io_list :: "string \<Rightarrow> key list result io" where
  "io_list p = Do (ListReq p) (\<lambda>r. Done (as_keys r))"
definition io_create :: "key \<Rightarrow> bytes \<Rightarrow> bool result io" where
  "io_create k v = Do (CreateReq k v) (\<lambda>r. Done (as_bool r))"
definition io_version :: "key \<Rightarrow> nat result io" where
  "io_version k = Do (VersionReq k) (\<lambda>r. Done (as_version r))"
definition io_put_cas :: "key \<Rightarrow> nat \<Rightarrow> bytes \<Rightarrow> nat option result io" where
  "io_put_cas k e v = Do (CasReq k e v) (\<lambda>r. Done (as_cas r))"
definition io_get_range :: "key \<Rightarrow> nat \<Rightarrow> nat \<Rightarrow> bytes option result io" where
  "io_get_range k off len = Do (RangeReq k off len) (\<lambda>r. Done (as_blob r))"

lemmas io_op_defs = io_get_def io_put_def io_delete_def io_list_def io_create_def io_version_def
  io_put_cas_def io_get_range_def

lemma io_bind_assoc: "io_bind (io_bind p f) g = io_bind p (\<lambda>x. io_bind (f x) g)"
  by (induction p) auto

lemma io_bind_Done [simp]: "io_bind p Done = p"
  by (induction p) auto

section \<open>Running one program alone\<close>

primrec run_io :: "'a io \<Rightarrow> mem \<Rightarrow> 'a \<times> mem" where
  "run_io (Done x) = (\<lambda>s. (x, s))"
| "run_io (Do q c) = (\<lambda>s. run_io (c (fst (serve q s))) (snd (serve q s)))"

lemma run_io_bind [io_simps]:
  "run_io (io_bind p f) s = run_io (f (fst (run_io p s))) (snd (run_io p s))"
  by (induction p arbitrary: s) auto

lemma run_io_try [io_simps]:
  "run_io (io_try p f) s =
     (case run_io p s of (Inl e, s') \<Rightarrow> (Inl e, s') | (Inr x, s') \<Rightarrow> run_io (f x) s')"
  by (auto simp: io_try_def run_io_bind split: sum.splits prod.splits)

lemma run_io_ops [io_simps]:
  "run_io (io_get k) s = (Inr (mem_get s k), s)"
  "run_io (io_put k v) s = (Inr (), mem_put k v s)"
  "run_io (io_delete k) s = (Inr (), mem_delete k s)"
  "run_io (io_list p) s = (Inr (mem_list s p), s)"
  "run_io (io_create k v) s = (Inr (fst (mem_create k v s)), snd (mem_create k v s))"
  "run_io (io_version k) s = (Inr (mem_version s k), s)"
  "run_io (io_put_cas k e v) s = (Inr (fst (mem_put_cas k e v s)), snd (mem_put_cas k e v s))"
  "run_io (io_get_range k off len) s =
     (Inr (map_option (\<lambda>bs. take len (drop off bs)) (mem_get s k)), s)"
  by (simp_all add: io_op_defs as_resp_defs split_beta)

lemmas [io_simps] = run_io.simps

lemma run_io_wf: "mem_wf s \<Longrightarrow> mem_wf (snd (run_io p s))"
  by (induction p arbitrary: s) auto

section \<open>Which requests a program can make\<close>

primrec asks :: "(req \<Rightarrow> bool) \<Rightarrow> 'a io \<Rightarrow> bool" where
  "asks Q (Done x) = True"
| "asks Q (Do q c) = (Q q \<and> (\<forall>r. asks Q (c r)))"

lemma asks_bind: "asks Q p \<Longrightarrow> (\<And>x. asks Q (f x)) \<Longrightarrow> asks Q (io_bind p f)"
  by (induction p) auto

lemma asks_try: "asks Q p \<Longrightarrow> (\<And>x. asks Q (f x)) \<Longrightarrow> asks Q (io_try p f)"
  unfolding io_try_def by (rule asks_bind) (auto split: sum.split)

lemma asks_ops:
  "asks Q (io_get k) \<longleftrightarrow> Q (GetReq k)"
  "asks Q (io_put k v) \<longleftrightarrow> Q (PutReq k v)"
  "asks Q (io_delete k) \<longleftrightarrow> Q (DeleteReq k)"
  "asks Q (io_list p) \<longleftrightarrow> Q (ListReq p)"
  "asks Q (io_create k v) \<longleftrightarrow> Q (CreateReq k v)"
  "asks Q (io_version k) \<longleftrightarrow> Q (VersionReq k)"
  "asks Q (io_put_cas k e v) \<longleftrightarrow> Q (CasReq k e v)"
  "asks Q (io_get_range k off len) \<longleftrightarrow> Q (RangeReq k off len)"
  by (simp_all add: io_op_defs)

lemma asks_mono: "asks P p \<Longrightarrow> (\<And>q. P q \<Longrightarrow> Q q) \<Longrightarrow> asks Q p"
  by (induction p) auto

text \<open>A program that only reads leaves the store alone.\<close>

lemma serve_read: "\<not> mutating q \<Longrightarrow> snd (serve q s) = s"
  by (cases q) auto

lemma run_io_reads: "asks (\<lambda>q. \<not> mutating q) p \<Longrightarrow> snd (run_io p s) = s"
  by (induction p arbitrary: s) (auto simp: serve_read)

section \<open>Many tasks, failures and lost answers\<close>

text \<open>
  \<open>F\<close> says which requests may fail: \<open>mutating\<close> for the simulator's store, everything for
  a remote one. What a caller may see after a request took effect with answer \<open>r\<close>: the answer, an error (the
  answer was lost), or, for \<open>create\<close>, \<open>false\<close> (the lost answer was retried below the trait and
  the retry found the blob the first attempt had made).
\<close>

definition seen :: "(req \<Rightarrow> bool) \<Rightarrow> req \<Rightarrow> resp \<Rightarrow> resp \<Rightarrow> bool" where
  "seen F q r r' \<longleftrightarrow>
     r' = r \<or> F q \<and> ((\<exists>e. r' = ErrResp e) \<or> (\<exists>k v. q = CreateReq k v \<and> r' = BoolResp False))"

inductive sys_step :: "(req \<Rightarrow> bool) \<Rightarrow> mem \<times> 'a io list \<Rightarrow> mem \<times> 'a io list \<Rightarrow> bool" where
  served: "i < length ps \<Longrightarrow> ps ! i = Do q c \<Longrightarrow> seen F q (fst (serve q s)) r \<Longrightarrow>
    sys_step F (s, ps) (snd (serve q s), ps[i := c r])"
| failed: "i < length ps \<Longrightarrow> ps ! i = Do q c \<Longrightarrow> F q \<Longrightarrow> sys_step F (s, ps) (s, ps[i := c (ErrResp e)])"

inductive_cases sys_stepE: "sys_step F (s, ps) (s', ps')"

abbreviation sys_steps :: "(req \<Rightarrow> bool) \<Rightarrow> mem \<times> 'a io list \<Rightarrow> mem \<times> 'a io list \<Rightarrow> bool" where
  "sys_steps F \<equiv> (sys_step F)\<^sup>*\<^sup>*"

text \<open>The simulator's store takes only such steps.\<close>

lemma sim_serve_step:
  assumes "i < length ps" "ps ! i = Do q c" "sim_serve failing chance q s = (r, s')"
  shows "sys_step mutating (s, ps) (s', ps[i := c r])"
proof (cases "mutating q \<and> failing \<and> chance")
  case True
  then show ?thesis using assms sys_step.failed by (auto simp: sim_serve_def)
next
  case False
  then have "serve q s = (r, s')" using assms(3) by (auto simp: sim_serve_def split: if_splits)
  moreover have "seen mutating q r r" by (simp add: seen_def)
  ultimately show ?thesis using sys_step.served[OF assms(1,2), of mutating s r] by simp
qed

text \<open>Serving the tasks one after the other is one of the interleavings.\<close>

lemma run_io_steps:
  assumes "i < length ps" "run_io (ps ! i) s = (x, s')"
  shows "sys_steps F (s, ps) (s', ps[i := Done x])"
proof -
  have "\<And>ps. i < length ps \<Longrightarrow> ps ! i = p \<Longrightarrow> run_io p s = (x, s') \<Longrightarrow>
      sys_steps F (s, ps) (s', ps[i := Done x])" for p
  proof (induction p arbitrary: s)
    case (Done y)
    then show ?case by (metis Pair_inject list_update_id rtranclp.rtrancl_refl run_io.simps(1))
  next
    case (Do q c)
    let ?r = "fst (serve q s)" and ?s = "snd (serve q s)"
    have step: "sys_step F (s, ps) (?s, ps[i := c ?r])"
      by (rule sys_step.served[OF Do.prems(1,2)]) (simp add: seen_def)
    have "sys_steps F (?s, ps[i := c ?r]) (s', (ps[i := c ?r])[i := Done x])"
      by (rule Do.IH[OF rangeI]) (use Do.prems in auto)
    then show ?case using step by (simp add: converse_rtranclp_into_rtranclp)
  qed
  then show ?thesis using assms by blast
qed

section \<open>Invariants over all interleavings\<close>

text \<open>
  \<open>safe F R post p s\<close>: started in \<open>s\<close>, with other tasks changing the store only along the
  preorder \<open>R\<close>, whatever fails, the program satisfies \<open>post\<close> for its value from the moment it
  finishes.
\<close>

primrec safe :: "(req \<Rightarrow> bool) \<Rightarrow> (mem \<Rightarrow> mem \<Rightarrow> bool) \<Rightarrow> ('a \<Rightarrow> mem \<Rightarrow> bool) \<Rightarrow> 'a io \<Rightarrow> mem \<Rightarrow> bool" where
  "safe F R post (Done x) = (\<lambda>s. \<forall>s'. R s s' \<longrightarrow> post x s')"
| "safe F R post (Do q c) = (\<lambda>s. \<forall>s'. R s s' \<longrightarrow>
     (F q \<longrightarrow> (\<forall>e. safe F R post (c (ErrResp e)) s'))
     \<and> (\<forall>r. seen F q (fst (serve q s')) r \<longrightarrow> safe F R post (c r) (snd (serve q s'))))"

lemma safe_stable: "transp R \<Longrightarrow> safe F R post p s \<Longrightarrow> R s s' \<Longrightarrow> safe F R post p s'"
  by (cases p) (auto dest: transpD)

lemma safe_conseq:
  assumes "safe F R P p s" "\<And>x t. P x t \<Longrightarrow> Q x t"
  shows "safe F R Q p s"
  using assms(1)
proof (induction p arbitrary: s)
  case (Do q c)
  then show ?case using Do.IH[OF rangeI] by simp
qed (use assms(2) in simp)

lemma safe_bind:
  assumes "reflp R"
  shows "safe F R (\<lambda>x t. safe F R Q (f x) t) p s \<Longrightarrow> safe F R Q (io_bind p f) s"
proof (induction p arbitrary: s)
  case (Done x)
  then show ?case using assms by (auto dest: reflpD)
next
  case (Do q c)
  then show ?case using Do.IH[OF rangeI] by simp
qed

text \<open>
  A system of tasks that are each safe, and whose requests all move the store along \<open>R\<close>,
  stays so along every run: whatever has finished satisfies its postcondition.
\<close>

lemma sys_step_safe:
  assumes "reflp R" "transp R" "\<And>q s. Q q \<Longrightarrow> I s \<Longrightarrow> R s (snd (serve q s)) \<and> I (snd (serve q s))"
    and "sys_step F (s, ps) (s', ps')"
    and "I s" "\<forall>i < length ps. asks Q (ps ! i) \<and> safe F R (post i) (ps ! i) s"
  shows "I s' \<and> length ps' = length ps \<and> R s s' \<and>
    (\<forall>i < length ps. asks Q (ps' ! i) \<and> safe F R (post i) (ps' ! i) s')"
proof -
  have upd: "I s' \<and> length ps' = length ps \<and> R s s' \<and>
      (\<forall>i < length ps. asks Q (ps' ! i) \<and> safe F R (post i) (ps' ! i) s')"
    if "i < length ps" "R s s'" "I s'" "ps' = ps[i := p']" "asks Q p'" "safe F R (post i) p' s'" for i p'
    using that assms(6) safe_stable[OF assms(2) _ that(2)] by (auto simp: nth_list_update)
  from assms(4) show ?thesis
  proof (rule sys_stepE)
    fix i q c r
    assume served: "s' = snd (serve q s)" "ps' = ps[i := c r]" "i < length ps" "ps ! i = Do q c"
      "seen F q (fst (serve q s)) r"
    have i: "asks Q (Do q c)" "safe F R (post i) (Do q c) s" using assms(6) served by auto
    then have "R s s'" "I s'" using assms(3)[of q s] assms(5) served by auto
    moreover have "safe F R (post i) (c r) s'" "asks Q (c r)"
      using i served reflpD[OF assms(1), of s] by auto
    ultimately show ?thesis using upd[of i "c r"] served by simp
  next
    fix i q c e
    assume failed: "s' = s" "ps' = ps[i := c (ErrResp e)]" "i < length ps" "ps ! i = Do q c" "F q"
    have i: "asks Q (Do q c)" "safe F R (post i) (Do q c) s" using assms(6) failed by auto
    then have "safe F R (post i) (c (ErrResp e)) s" "asks Q (c (ErrResp e))"
      using reflpD[OF assms(1), of s] failed(5) by auto
    then show ?thesis using upd[of i "c (ErrResp e)"] failed assms(5) reflpD[OF assms(1)] by simp
  qed
qed

lemma sys_steps_safe:
  assumes "reflp R" "transp R" "\<And>q s. Q q \<Longrightarrow> I s \<Longrightarrow> R s (snd (serve q s)) \<and> I (snd (serve q s))"
    and "sys_steps F (s, ps) (s', ps')"
    and "I s" "\<forall>i < length ps. asks Q (ps ! i) \<and> safe F R (post i) (ps ! i) s"
  shows "I s' \<and> length ps' = length ps \<and> R s s' \<and>
    (\<forall>i < length ps. asks Q (ps' ! i) \<and> safe F R (post i) (ps' ! i) s')"
  using assms(4)
proof (induction "(s', ps')" arbitrary: s' ps' rule: rtranclp_induct)
  case base
  then show ?case using assms(1,5,6) by (auto dest: reflpD)
next
  case (step y)
  obtain t qs where y: "y = (t, qs)" by force
  have IH: "I t" "length qs = length ps" "R s t"
    "\<forall>i < length qs. asks Q (qs ! i) \<and> safe F R (post i) (qs ! i) t"
    using step.hyps(3)[OF y] by auto
  from sys_step_safe[OF assms(1,2,3) step.hyps(2)[unfolded y] IH(1,4)] IH show ?case
    using transpD[OF assms(2)] by auto
qed

lemma safe_finished:
  assumes "reflp R" "safe F R post (Done x) s"
  shows "post x s"
  using assms by (auto dest: reflpD)

lemma safe_True: "safe F R (\<lambda>_ _. True) p s"
  by (induction p arbitrary: s) auto

text \<open>The same for one task of interest among others that only make requests of the kind \<open>Q\<close>.\<close>

lemma sys_steps_task:
  assumes "reflp R" "transp R" "\<And>q s. Q q \<Longrightarrow> R s (snd (serve q s))"
    and "sys_steps F (s, ps) (s', ps')" "\<forall>p \<in> set ps. asks Q p"
    and "i < length ps" "safe F R post (ps ! i) s" "ps' ! i = Done x"
  shows "post x s'"
proof -
  let ?post = "\<lambda>j r u. j = i \<longrightarrow> post r u"
  have "safe F R (?post j) (ps ! j) s" for j
    using assms(7) safe_conseq[OF safe_True, of "?post j"] by (cases "j = i") auto
  moreover have "R u (snd (serve q u)) \<and> True" if "Q q" for q u using assms(3)[OF that] by simp
  ultimately have "safe F R (?post i) (ps' ! i) s'"
    using sys_steps_safe[OF assms(1,2), where Q = Q and F = F and I = "\<lambda>_. True"
        and s = s and ps = ps and s' = s' and ps' = ps' and post = ?post] assms(4,5,6) by auto
  then show ?thesis
    using safe_finished[OF assms(1), of F "?post i" x s'] assms(8) by simp
qed

end
