(* ===== verification/Delta.thy ===== *)
theory Delta
  imports Codec
begin

text \<open>
  \<open>src/src/delta.rs\<close>: shipping the changed pages of a database image. The hash of a page
  (\<open>DefaultHasher\<close>) is a parameter \<open>hash\<close>; what the diff relies on is stated where it is used:
  no two different contents of the same page collide. Images are lists of bytes, lengths
  are kept at the width of the field that carries them.
\<close>

section \<open>The SQLite header\<close>

definition page_size :: "bytes \<Rightarrow> nat" where
  "page_size img =
     (if length img < 100 then 4096
      else let raw = of_be [img ! 16, img ! 17]
           in if raw = 1 then 65536 else if raw = 0 then 4096 else raw)"

definition change_counter :: "bytes \<Rightarrow> u32" where
  "change_counter img =
     (if length img < 100 then 0
      else word_of_nat (of_be [img ! 24, img ! 25, img ! 26, img ! 27]))"

lemma page_size_pos [simp]: "0 < page_size img"
  by (simp add: page_size_def Let_def)

lemma page_size_le: "page_size img \<le> 65536"
proof -
  have "of_be [a, b] < 65536" for a b
    using of_be_bound[of "[a, b]"] by simp
  then show ?thesis by (auto simp: page_size_def Let_def less_imp_le)
qed

section \<open>Manifest, diff and apply\<close>

record manifest =
  m_page_size :: nat
  m_hashes :: "u64 list"
  m_chain_len :: u32

record delta =
  d_counter :: u32
  d_file_len :: u64
  d_page_size :: u32
  d_pages :: "(u32 \<times> bytes) list"

definition manifest_of :: "(bytes \<Rightarrow> u64) \<Rightarrow> bytes \<Rightarrow> u32 \<Rightarrow> manifest" where
  "manifest_of hash img chain =
     (let ps = page_size img
      in \<lparr>m_page_size = ps, m_hashes = map hash (chunks ps img), m_chain_len = chain\<rparr>)"

text \<open>
  \<open>diff\<close> reads the file in the manifest's page size (the slice method panics on zero), lists the
  pages whose hash the manifest does not have at that index, and leaves the manifest
  describing the new file.
\<close>

definition diff_file :: "(bytes \<Rightarrow> u64) \<Rightarrow> manifest \<Rightarrow> bytes \<Rightarrow> (delta \<times> manifest) rust" where
  "diff_file hash m img =
     (if m_page_size m = 0 then Panic
      else let cs = chunks (m_page_size m) img;
               changed = filter (\<lambda>(i, c). nth_opt (m_hashes m) i \<noteq> Some (hash c)) (enumerate 0 cs)
           in Ret (\<lparr>d_counter = change_counter img,
                    d_file_len = word_of_nat (length img),
                    d_page_size = word_of_nat (m_page_size m),
                    d_pages = map (\<lambda>(i, c). (word_of_nat i, c)) changed\<rparr>,
                   m\<lparr>m_hashes := map hash cs\<rparr>))"

definition resize :: "bytes \<Rightarrow> nat \<Rightarrow> bytes" where
  "resize img n = take n img @ replicate (n - length img) 0"

definition write_page :: "nat \<Rightarrow> bytes \<Rightarrow> u32 \<times> bytes \<Rightarrow> bytes" where
  "write_page ps img = (\<lambda>(page_no, bs).
     let start = unat page_no * ps;
         stop = min (start + length bs) (length img)
     in if start < length img
        then take start img @ take (stop - start) bs @ drop stop img
        else img)"

definition apply_delta :: "bytes \<Rightarrow> delta \<Rightarrow> bytes" where
  "apply_delta img d =
     foldl (write_page (unat (d_page_size d))) (resize img (unat (d_file_len d))) (d_pages d)"

lemma length_resize [simp]: "length (resize img n) = n"
  by (simp add: resize_def)

lemma length_write_page [simp]: "length (write_page ps img p) = length img"
  by (cases p) (auto simp: write_page_def Let_def)

lemma length_foldl_write [simp]: "length (foldl (write_page ps) img l) = length img"
  by (induction l arbitrary: img) auto

lemma length_apply_delta [simp]: "length (apply_delta img d) = unat (d_file_len d)"
  by (simp add: apply_delta_def)

lemma div_eq_iff: "0 < d \<Longrightarrow> k div d = m \<longleftrightarrow> m * d \<le> k \<and> k < m * d + d" for k d m :: nat
proof
  assume d: "0 < d" and "k div d = m"
  then have "m * d + k mod d = k" by auto
  with mod_less_divisor[OF d, of k] show "m * d \<le> k \<and> k < m * d + d"
    by (metis add_less_cancel_left le_add1)
qed (auto intro: div_nat_eqI simp: mult.commute)

text \<open>A page that carries the target's bytes makes exactly its stretch equal to the target.\<close>

lemma write_page_nth:
  assumes "0 < ps" "length img = length new" "k < length new" "unat n * ps < length new"
  shows "write_page ps img (n, take ps (drop (unat n * ps) new)) ! k =
         (if k div ps = unat n then new ! k else img ! k)"
proof -
  define a where "a = unat n * ps"
  define e where "e = min ps (length new - a)"
  have stop: "min (a + length (take ps (drop a new))) (length img) = a + e"
    using assms(2,4) by (simp add: e_def a_def)
  have "write_page ps img (n, take ps (drop a new)) = take a img @ take e (drop a new) @ drop (a + e) img"
    using assms(2,4) stop by (simp add: write_page_def Let_def a_def[symmetric] e_def)
  moreover have "k div ps = unat n \<longleftrightarrow> a \<le> k \<and> k < a + ps"
    unfolding a_def by (rule div_eq_iff[OF assms(1)])
  moreover have "a < length new" using assms(4) by (simp add: a_def)
  ultimately show ?thesis
    using assms(2,3) unfolding a_def[symmetric] by (auto simp: nth_append e_def)
qed

lemma foldl_write_nth:
  assumes "0 < ps" "length img = length new" "k < length new"
    and "\<forall>(n, bs) \<in> set l. unat n * ps < length new \<and> bs = take ps (drop (unat n * ps) new)"
  shows "foldl (write_page ps) img l ! k = (if k div ps \<in> (unat \<circ> fst) ` set l then new ! k else img ! k)"
  using assms
proof (induction l arbitrary: img)
  case (Cons p l)
  obtain n bs where p: "p = (n, bs)" by force
  have "write_page ps img p ! k = (if k div ps = unat n then new ! k else img ! k)"
    using Cons.prems p write_page_nth[of ps img new k n] by simp
  then show ?case using Cons p by simp
qed simp

section \<open>Applying a diff reproduces the file\<close>

text \<open>The manifest describes an image when it holds the hashes of its pages.\<close>

definition describes :: "(bytes \<Rightarrow> u64) \<Rightarrow> manifest \<Rightarrow> bytes \<Rightarrow> bool" where
  "describes hash m img \<longleftrightarrow>
     0 < m_page_size m \<and> m_page_size m < 2 ^ 32 \<and> m_hashes m = map hash (chunks (m_page_size m) img)"

text \<open>No page of the new file collides with a different page of the old one at its index.\<close>

definition no_collision :: "(bytes \<Rightarrow> u64) \<Rightarrow> nat \<Rightarrow> bytes \<Rightarrow> bytes \<Rightarrow> bool" where
  "no_collision hash ps old new \<longleftrightarrow>
     list_all2 (\<lambda>a b. hash a = hash b \<longrightarrow> a = b)
       (take (min (length (chunks ps old)) (length (chunks ps new))) (chunks ps old))
       (take (min (length (chunks ps old)) (length (chunks ps new))) (chunks ps new))"

lemma describes_manifest_of [simp]: "describes hash (manifest_of hash img c) img"
  using page_size_le[of img] by (simp add: describes_def manifest_of_def Let_def)

lemma no_collision_nth:
  assumes "no_collision hash ps old new" "0 < ps" "i * ps < length old" "i * ps < length new"
    and "hash (take ps (drop (i * ps) old)) = hash (take ps (drop (i * ps) new))"
  shows "take ps (drop (i * ps) old) = take ps (drop (i * ps) new)"
proof -
  have "i < length (chunks ps old)" "i < length (chunks ps new)"
    using assms(2-4) by (simp_all add: chunks_length_iff)
  then show ?thesis
    using assms by (auto simp: no_collision_def list_all2_conv_all_nth chunks_nth)
qed

text \<open>The pages of a diff: each carries the new file's bytes, and a page left out is unchanged.\<close>

lemma diff_pages:
  assumes "diff_file hash m new = Ret (d, m')" "length new < 2 ^ 32 * m_page_size m"
  shows "(n, bs) \<in> set (d_pages d) \<longleftrightarrow>
    (let ps = m_page_size m; i = unat n in
     i * ps < length new \<and> bs = take ps (drop (i * ps) new) \<and> nth_opt (m_hashes m) i \<noteq> Some (hash bs))"
proof -
  let ?ps = "m_page_size m"
  let ?cs = "chunks ?ps new"
  have ps: "0 < ?ps" using assms(1) by (auto simp: diff_file_def split: if_splits)
  have small: "i < 2 ^ 32" if "i < length ?cs" for i
  proof -
    have "i * ?ps < length new" using that ps by (simp add: chunks_length_iff)
    then have "i * ?ps < 2 ^ 32 * ?ps" using assms(2) by (rule order_less_trans)
    then show ?thesis using mult_less_cancel2[of i ?ps "2 ^ 32"] by blast
  qed
  have iff: "(n, bs) \<in> set (d_pages d) \<longleftrightarrow>
    (\<exists>i < length ?cs. n = word_of_nat i \<and> bs = ?cs ! i \<and> nth_opt (m_hashes m) i \<noteq> Some (hash bs))"
    using assms(1) ps by (auto simp: diff_file_def Let_def in_set_enumerate_eq image_iff)
  have un: "unat (word_of_nat i :: u32) = i" if "i < length ?cs" for i
    using small[OF that] by (simp add: unat_of_nat)
  show ?thesis
    unfolding iff Let_def using ps chunks_length_iff[OF ps] chunks_nth[OF ps] un
    by (metis word_of_unat)
qed

lemma apply_diff_nth:
  assumes "describes hash m old" "diff_file hash m new = Ret (d, m')"
    and "no_collision hash (m_page_size m) old new"
    and "length new < 2 ^ 64" "length new < 2 ^ 32 * m_page_size m" "k < length new"
  shows "apply_delta old d ! k = new ! k"
proof -
  let ?ps = "m_page_size m"
  let ?i = "k div ?ps"
  have ps: "0 < ?ps" "unat (d_page_size d) = ?ps" "unat (d_file_len d) = length new"
    using assms(1,2,4) by (auto simp: describes_def diff_file_def Let_def unat_of_nat)
  have le: "?i * ?ps \<le> k" by simp
  then have lt: "?i * ?ps < length new" using assms(6) by linarith
  have i32: "?i < 2 ^ 32" using lt assms(5) ps(1)
    by (metis (no_types, lifting) less_mult_imp_div_less assms(6) order_less_trans)
  have pages: "\<forall>(n, bs) \<in> set (d_pages d). unat n * ?ps < length new \<and> bs = take ?ps (drop (unat n * ?ps) new)"
    using diff_pages[OF assms(2,5)] by (auto simp: Let_def)
  have fold: "apply_delta old d ! k =
      (if ?i \<in> (unat \<circ> fst) ` set (d_pages d) then new ! k else resize old (length new) ! k)"
    unfolding apply_delta_def ps by (rule foldl_write_nth[OF ps(1) _ assms(6) pages]) simp
  show ?thesis
  proof (cases "?i \<in> (unat \<circ> fst) ` set (d_pages d)")
    case True
    then show ?thesis using fold by simp
  next
    case False
    let ?n = "word_of_nat ?i :: u32"
    have un: "unat ?n = ?i" using i32 by (simp add: unat_of_nat)
    have "(?n, take ?ps (drop (?i * ?ps) new)) \<notin> set (d_pages d)"
      using False un by force
    then have "nth_opt (m_hashes m) ?i = Some (hash (take ?ps (drop (?i * ?ps) new)))"
      using diff_pages[OF assms(2,5), of ?n] un lt by (simp add: Let_def)
    then have old: "?i < length (chunks ?ps old)"
      "hash (chunks ?ps old ! ?i) = hash (take ?ps (drop (?i * ?ps) new))"
      using assms(1) by (auto simp: nth_opt_def describes_def split: if_splits)
    have olt: "?i * ?ps < length old" using old(1) ps(1) by (simp add: chunks_length_iff)
    have same: "take ?ps (drop (?i * ?ps) old) = take ?ps (drop (?i * ?ps) new)"
      using no_collision_nth[OF assms(3) ps(1) olt lt] old(2) olt ps(1) by (simp add: chunks_nth)
    let ?r = "k - ?i * ?ps"
    have r: "?r < ?ps" "k = ?i * ?ps + ?r"
      using ps(1) by (simp_all add: minus_div_mult_eq_mod)
    have rn: "?r < length (take ?ps (drop (?i * ?ps) new))" using r assms(6) lt by simp
    then have ro: "k < length old" using same r(2) by (metis length_take length_drop less_diff_conv min_less_iff_conj add.commute)
    have "old ! k = take ?ps (drop (?i * ?ps) old) ! ?r"
      using r ro olt by (metis nth_drop nth_take less_imp_le)
    also have "\<dots> = new ! k" unfolding same using r lt by (metis nth_drop nth_take less_imp_le)
    finally show ?thesis using fold False ro assms(6) by (simp add: resize_def nth_append)
  qed
qed

lemma apply_diff:
  assumes "describes hash m old" "diff_file hash m new = Ret (d, m')"
    and "no_collision hash (m_page_size m) old new"
    and "length new < 2 ^ 64" "length new < 2 ^ 32 * m_page_size m"
  shows "apply_delta old d = new \<and> describes hash m' new"
proof
  have "unat (d_file_len d) = length new"
    using assms(1,2,4) by (auto simp: describes_def diff_file_def Let_def unat_of_nat)
  then show "apply_delta old d = new"
    using apply_diff_nth[OF assms] by (intro nth_equalityI) simp_all
  show "describes hash m' new"
    using assms(1,2) by (auto simp: describes_def diff_file_def Let_def)
qed

section \<open>The wire format\<close>

definition encode_page :: "u32 \<times> bytes \<Rightarrow> bytes" where
  "encode_page = (\<lambda>(page_no, bs). le_bytes 4 (unat page_no) @ le_bytes 4 (length bs) @ bs)"

definition encode_delta :: "delta \<Rightarrow> bytes" where
  "encode_delta d =
     le_bytes 4 (unat (d_counter d)) @ le_bytes 8 (unat (d_file_len d))
     @ le_bytes 4 (unat (d_page_size d)) @ le_bytes 4 (length (d_pages d))
     @ concat (map encode_page (d_pages d))"

text \<open>\<open>&bytes[a..b]\<close>, where the code has checked that \<open>b\<close> is in range.\<close>

definition slice :: "nat \<Rightarrow> nat \<Rightarrow> bytes \<Rightarrow> bytes" where
  "slice a b bs = take (b - a) (drop a bs)"

fun decode_pages :: "nat \<Rightarrow> bytes \<Rightarrow> nat \<Rightarrow> (u32 \<times> bytes) list result" where
  "decode_pages 0 bs at = Inr []"
| "decode_pages (Suc n) bs at =
     (if \<not> at + 8 \<le> length bs then Inl ''truncated delta page header''
      else let page_no = word_of_nat (of_le (slice at (at + 4) bs));
               len = of_le (slice (at + 4) (at + 8) bs);
               at = at + 8
           in if \<not> at + len \<le> length bs then Inl ''truncated delta page''
              else res_bind (decode_pages n bs (at + len))
                     (\<lambda>r. Inr ((page_no, slice at (at + len) bs) # r)))"

definition decode_delta :: "bytes \<Rightarrow> delta result" where
  "decode_delta bs =
     (if \<not> 20 \<le> length bs then Inl ''delta too short''
      else let n = of_le (slice 16 20 bs)
           in if \<not> n \<le> (length bs - 20) div 8 then Inl ''delta page count exceeds payload''
              else res_bind (decode_pages n bs 20) (\<lambda>pages. Inr
                \<lparr>d_counter = word_of_nat (of_le (slice 0 4 bs)),
                 d_file_len = word_of_nat (of_le (slice 4 12 bs)),
                 d_page_size = word_of_nat (of_le (slice 12 16 bs)),
                 d_pages = pages\<rparr>))"

lemma length_encode_page: "length (encode_page p) = 8 + length (snd p)"
  by (simp add: encode_page_def split_beta)

lemma slice_append [simp]: "slice (length p + a) (length p + b) (p @ xs) = slice a b xs"
  by (simp add: slice_def)

lemma slice_skip: "length p \<le> a \<Longrightarrow> slice a b (p @ xs) = slice (a - length p) (b - length p) xs"
  by (auto simp: slice_def)

lemma slice_prefix: "length p = n \<Longrightarrow> slice 0 n (p @ xs) = p"
  by (simp add: slice_def)

lemma slice_skip_prefix: "length p = a \<Longrightarrow> a + length x = b \<Longrightarrow> slice a b (p @ x @ xs) = x"
  by (auto simp: slice_def)

lemma pages_min_length: "8 * length ps \<le> length (concat (map encode_page ps))"
  by (induction ps) (auto simp: length_encode_page)

lemma decode_pages_encode:
  assumes "\<forall>(n, b) \<in> set ps. length b < 2 ^ 32"
  shows "decode_pages (length ps) (pre @ concat (map encode_page ps) @ rest) (length pre) = Inr ps"
  using assms
proof (induction ps arbitrary: pre)
  case (Cons p ps)
  obtain n b where p: "p = (n, b)" by force
  have b: "length b < 256 ^ 4" using Cons.prems p by simp
  let ?tail = "concat (map encode_page ps) @ rest"
  let ?all = "pre @ le_bytes 4 (unat n) @ le_bytes 4 (length b) @ b @ ?tail"
  have "slice (length pre) (length pre + 4) ?all = le_bytes 4 (unat n)"
    by (rule slice_skip_prefix) simp_all
  moreover have "slice (length pre + 4) (length pre + 8) ?all = le_bytes 4 (length b)"
    using slice_skip_prefix[of "pre @ le_bytes 4 (unat n)" "length pre + 4" "le_bytes 4 (length b)"
        "length pre + 8" "b @ ?tail"]
    by simp
  moreover have "slice (length pre + 8) (length pre + 8 + length b) ?all = b"
    using slice_skip_prefix[of "pre @ le_bytes 4 (unat n) @ le_bytes 4 (length b)" "length pre + 8" b]
    by simp
  moreover have "decode_pages (length ps) ?all (length pre + 8 + length b) = Inr ps"
    using Cons.IH[of "pre @ le_bytes 4 (unat n) @ le_bytes 4 (length b) @ b"] Cons.prems
    by (simp add: add.assoc)
  ultimately show ?case using b by (simp add: p encode_page_def Let_def)
qed simp

lemma encode_decode_delta:
  assumes "length (d_pages d) < 2 ^ 32" "\<forall>(n, b) \<in> set (d_pages d). length b < 2 ^ 32"
  shows "decode_delta (encode_delta d @ rest) = Inr d"
proof -
  let ?c = "le_bytes 4 (unat (d_counter d))"
  let ?f = "le_bytes 8 (unat (d_file_len d))"
  let ?p = "le_bytes 4 (unat (d_page_size d))"
  let ?n = "le_bytes 4 (length (d_pages d))"
  let ?body = "concat (map encode_page (d_pages d)) @ rest"
  let ?all = "?c @ ?f @ ?p @ ?n @ ?body"
  have sl: "slice 0 4 ?all = ?c" "slice 4 12 ?all = ?f" "slice 12 16 ?all = ?p" "slice 16 20 ?all = ?n"
    using slice_skip_prefix[of "[]" 0 ?c 4] slice_skip_prefix[of ?c 4 ?f 12]
      slice_skip_prefix[of "?c @ ?f" 12 ?p 16] slice_skip_prefix[of "?c @ ?f @ ?p" 16 ?n 20]
    by simp_all
  have n: "of_le ?n = length (d_pages d)" using assms(1) by simp
  have cnt: "length (d_pages d) \<le> (length ?all - 20) div 8"
    using pages_min_length[of "d_pages d"] by simp
  have "decode_pages (length (d_pages d)) ?all 20 = Inr (d_pages d)"
    using decode_pages_encode[OF assms(2), of "?c @ ?f @ ?p @ ?n" rest] by simp
  then have "decode_delta ?all = Inr d"
    using cnt by (simp add: decode_delta_def sl n Let_def)
  then show ?thesis by (simp add: encode_delta_def)
qed

text \<open>What decodes is an encoding: the input starts with the bytes of the decoded delta.\<close>

lemma le_bytes_of_le: "length bs = k \<Longrightarrow> le_bytes k (of_le bs) = bs"
proof -
  have "be_bytes (length bs) (of_be bs) = bs" for bs
  proof (induction bs rule: rev_induct)
    case (snoc b bs)
    have "unat b < 256" using unat_lt2[of b] by simp
    moreover have "(word_of_nat (of_be bs * 256 + unat b) :: byte) = b"
      using \<open>unat b < 256\<close> by (intro word_unat_eq_iff[THEN iffD2]) (simp only: unat_of_nat, simp)
    ultimately show ?case using snoc by simp
  qed simp
  then show "length bs = k \<Longrightarrow> le_bytes k (of_le bs) = bs"
    by (metis le_bytes_def of_le_def length_rev rev_rev_ident)
qed

lemma le_bytes_slice: "b \<le> length bs \<Longrightarrow> a \<le> b \<Longrightarrow> le_bytes (b - a) (of_le (slice a b bs)) = slice a b bs"
  by (rule le_bytes_of_le) (simp add: slice_def)

lemma slice_bound: "of_le (slice a b bs) < 256 ^ (b - a)"
proof -
  have "length (slice a b bs) \<le> b - a" by (simp add: slice_def)
  then have "256 ^ length (slice a b bs) \<le> (256 ^ (b - a) :: nat)" by (rule power_increasing) simp
  then show ?thesis using of_le_bound[of "slice a b bs"] by linarith
qed

lemma drop_slice: "a \<le> b \<Longrightarrow> drop a bs = slice a b bs @ drop b bs"
  by (simp add: slice_def) (metis append_take_drop_id drop_drop le_add_diff_inverse2)

lemma le_bytes_word32: "b \<le> length bs \<Longrightarrow> a + 4 = b \<Longrightarrow>
    le_bytes 4 (unat (word_of_nat (of_le (slice a b bs)) :: u32)) = slice a b bs"
  using le_bytes_slice[of b bs a] slice_bound[of a b bs] by (auto simp: unat_of_nat)

lemma le_bytes_word64: "b \<le> length bs \<Longrightarrow> a + 8 = b \<Longrightarrow>
    le_bytes 8 (unat (word_of_nat (of_le (slice a b bs)) :: u64)) = slice a b bs"
  using le_bytes_slice[of b bs a] slice_bound[of a b bs] by (auto simp: unat_of_nat)

lemma decode_pages_sound:
  assumes "decode_pages n bs at = Inr ps"
  shows "length ps = n \<and> (\<forall>(p, b) \<in> set ps. length b < 2 ^ 32)
         \<and> (\<exists>rest. drop at bs = concat (map encode_page ps) @ rest)"
  using assms
proof (induction n bs at arbitrary: ps rule: decode_pages.induct)
  case (2 n bs at)
  let ?h = "slice at (at + 4) bs" and ?l = "slice (at + 4) (at + 8) bs"
  let ?len = "of_le ?l"
  obtain r where fit: "at + 8 \<le> length bs" "at + 8 + ?len \<le> length bs"
    and r: "decode_pages n bs (at + 8 + ?len) = Inr r"
    and ps: "ps = (word_of_nat (of_le ?h), slice (at + 8) (at + 8 + ?len) bs) # r"
    using "2.prems" by (auto simp: Let_def split: if_splits)
  from "2.IH"[OF _ refl refl refl _ r] fit obtain rest where IH:
    "length r = n" "\<forall>(p, b) \<in> set r. length b < 2 ^ 32"
    "drop (at + 8 + ?len) bs = concat (map encode_page r) @ rest" by auto
  have len: "length (slice (at + 8) (at + 8 + ?len) bs) = ?len"
    using fit by (simp add: slice_def)
  have "le_bytes 4 ?len = ?l"
    using le_bytes_slice[of "at + 8" bs "at + 4"] fit by simp
  moreover have "le_bytes 4 (unat (word_of_nat (of_le ?h) :: u32)) = ?h"
    by (rule le_bytes_word32) (use fit in simp_all)
  moreover have "drop at bs = ?h @ ?l @ slice (at + 8) (at + 8 + ?len) bs @ drop (at + 8 + ?len) bs"
    using drop_slice[of at "at + 4" bs] drop_slice[of "at + 4" "at + 8" bs]
      drop_slice[of "at + 8" "at + 8 + ?len" bs] by simp
  moreover have "?len < 2 ^ 32" using slice_bound[of "at + 4" "at + 8" bs] by simp
  ultimately show ?case using IH len by (auto simp: ps encode_page_def)
qed simp

lemma decode_delta_sound:
  assumes "decode_delta bs = Inr d"
  shows "\<exists>rest. bs = encode_delta d @ rest \<and> length (d_pages d) < 2 ^ 32
         \<and> (\<forall>(n, b) \<in> set (d_pages d). length b < 2 ^ 32)"
proof -
  let ?n = "of_le (slice 16 20 bs)"
  obtain pages where len: "20 \<le> length bs" and p: "decode_pages ?n bs 20 = Inr pages"
    and d: "d = \<lparr>d_counter = word_of_nat (of_le (slice 0 4 bs)),
                 d_file_len = word_of_nat (of_le (slice 4 12 bs)),
                 d_page_size = word_of_nat (of_le (slice 12 16 bs)), d_pages = pages\<rparr>"
    using assms by (auto simp: decode_delta_def Let_def split: if_splits)
  obtain rest where pg: "length pages = ?n" "\<forall>(p, b) \<in> set pages. length b < 2 ^ 32"
    "drop 20 bs = concat (map encode_page pages) @ rest"
    using decode_pages_sound[OF p] by auto
  have "?n < 2 ^ 32" using slice_bound[of 16 20 bs] by simp
  moreover have "le_bytes 4 ?n = slice 16 20 bs"
    using le_bytes_slice[of 20 bs 16] len by simp
  moreover have "bs = slice 0 4 bs @ slice 4 12 bs @ slice 12 16 bs @ slice 16 20 bs @ drop 20 bs"
    using drop_slice[of 0 4 bs] drop_slice[of 4 12 bs] drop_slice[of 12 16 bs]
      drop_slice[of 16 20 bs] by simp
  ultimately have "bs = encode_delta d @ rest" "length (d_pages d) < 2 ^ 32"
    using pg len by (simp_all add: d encode_delta_def le_bytes_word32 le_bytes_word64)
  then show ?thesis using pg(2) by (auto simp: d)
qed

section \<open>Keys\<close>

definition delta_prefix :: "string \<Rightarrow> string" where
  "delta_prefix obj = ''objects/'' @ obj @ ''.d.''"

definition delta_key :: "string \<Rightarrow> u32 \<Rightarrow> key" where
  "delta_key obj counter = ''objects/'' @ obj @ ''.d.'' @ pad0 10 (show_nat (unat counter))"

definition parse_delta_counter :: "key \<Rightarrow> string \<Rightarrow> u32 option" where
  "parse_delta_counter k obj =
     (case strip_prefix (delta_prefix obj) k of
        None \<Rightarrow> None
      | Some r \<Rightarrow> map_option word_of_nat (parse_uint 32 r))"

lemma u32_fits_10: "unat (c :: u32) < 10 ^ 10"
  using unat_lt2[of c] by simp

lemma delta_key_prefix [key_simps]: "delta_key obj c = delta_prefix obj @ pad0 10 (show_nat (unat c))"
  by (simp add: delta_key_def delta_prefix_def)

lemma parse_delta_key [key_simps]: "parse_delta_counter (delta_key obj c) obj = Some c"
  using unat_lt2[of c] by (simp add: parse_delta_counter_def delta_key_prefix)

lemma delta_key_less [key_simps]: "delta_key obj c < delta_key obj c' \<longleftrightarrow> c < c'"
  using pad0_less[OF _ u32_fits_10 u32_fits_10, of c c']
  by (simp add: delta_key_prefix word_less_nat_alt)

section \<open>Properties\<close>

text \<open>C27: \<open>diff\<close> then \<open>apply\<close> reproduces the file. When the manifest describes the last shipped
  image, and no changed page has the hash of the page it replaces, applying the diff to that image
  gives the new file byte for byte (growing, shrinking or neither), and the updated manifest
  describes the new file, so the next diff starts right.\<close>

theorem diff_apply_reproduces:
  assumes "describes hash m old" "diff_file hash m new = Ret (d, m')"
    and "no_collision hash (m_page_size m) old new"
    and "length new < 2 ^ 64" "length new < 2 ^ 32 * m_page_size m"
  shows "apply_delta old d = new \<and> describes hash m' new"
  by (rule apply_diff[OF assms])

theorem diff_apply_reproduces_witness:
  "let hash = (\<lambda>p. word_of_nat (of_be p)); m = \<lparr>m_page_size = 2, m_hashes = [258, 3], m_chain_len = 0\<rparr>;
       (d, m') = (case diff_file hash m [1, 2, 9, 4, 5] of Ret r \<Rightarrow> r)
   in d_pages d = [(1, [9, 4]), (2, [5])] \<and> apply_delta [1, 2, 3] d = [1, 2, 9, 4, 5]"
proof -
  let ?hash = "\<lambda>p. word_of_nat (of_be p) :: u64" and ?m = "\<lparr>m_page_size = 2, m_hashes = [258, 3], m_chain_len = 0\<rparr>"
  let ?d = "\<lparr>d_counter = 0, d_file_len = 5, d_page_size = 2, d_pages = [(1, [9, 4]), (2, [5])]\<rparr>"
  let ?m' = "?m\<lparr>m_hashes := [258, 2308, 5]\<rparr>"
  have d: "diff_file ?hash ?m [1, 2, 9, 4, 5] = Ret (?d, ?m')"
    by (simp add: diff_file_def chunks.simps nth_opt_def of_be_def change_counter_def)
  have "apply_delta [1, 2, 3] ?d = [1, 2, 9, 4, 5] \<and> describes ?hash ?m' [1, 2, 9, 4, 5]"
    by (rule diff_apply_reproduces[OF _ d])
       (simp_all add: describes_def no_collision_def chunks.simps of_be_def)
  then show ?thesis by (simp add: d)
qed

text \<open>The wire format determines the delta and is determined by it: a byte string decodes to \<open>d\<close> exactly
  when it starts with the encoding of \<open>d\<close> and \<open>d\<close> fits the format's 32-bit counts. In particular
  decoding inverts encoding, and no truncated or over-counted input is accepted.\<close>

theorem decode_delta_iff:
  "decode_delta bs = Inr d \<longleftrightarrow>
     prefix (encode_delta d) bs \<and> length (d_pages d) < 2 ^ 32 \<and> list_all (\<lambda>(n, b). length b < 2 ^ 32) (d_pages d)"
proof
  assume "decode_delta bs = Inr d"
  then show "prefix (encode_delta d) bs \<and> length (d_pages d) < 2 ^ 32
      \<and> list_all (\<lambda>(n, b). length b < 2 ^ 32) (d_pages d)"
    using decode_delta_sound by (auto simp: prefix_def list_all_iff)
next
  assume "prefix (encode_delta d) bs \<and> length (d_pages d) < 2 ^ 32
      \<and> list_all (\<lambda>(n, b). length b < 2 ^ 32) (d_pages d)"
  then show "decode_delta bs = Inr d"
    using encode_decode_delta by (auto simp: prefix_def list_all_iff)
qed

text \<open>Deltas list in apply order: the key of a counter parses back to it, and keys of one object compare,
  as the store's listing compares them, like their counters.\<close>

theorem delta_keys_ordered:
  "parse_delta_counter (delta_key obj c) obj = Some c
   \<and> (delta_key obj c < delta_key obj c' \<longleftrightarrow> c < c')"
  by (simp add: parse_delta_key delta_key_less)

end
