(* ===== verification/Objlog.thy ===== *)
theory Objlog
  imports Store_IO Delta
begin

text \<open>
  \<open>src/src/objlog.rs\<close>: an object's durable history as a base plus a log of entries, and the
  single outcome key per transaction that decides commit or abort. Every \<open>async fn\<close> is a store
  program (\<open>io\<close>); the retry bounds (16 reads, 64 attempts) are the code's own.
\<close>

section \<open>Keys\<close>

definition log_prefix :: "string \<Rightarrow> string" where
  "log_prefix oid = ''objects/'' @ oid @ ''.L.''"

definition base_prefix :: "string \<Rightarrow> string" where
  "base_prefix oid = ''objects/'' @ oid @ ''.B.''"

definition log_key :: "string \<Rightarrow> u64 \<Rightarrow> key" where
  "log_key oid seq = ''objects/'' @ oid @ ''.L.'' @ pad0 20 (show_nat (unat seq))"

definition seq_key :: "string \<Rightarrow> key" where
  "seq_key oid = ''objects/'' @ oid @ ''.SEQ''"

definition parse_log_seq :: "key \<Rightarrow> string \<Rightarrow> u64 option" where
  "parse_log_seq k oid =
     (case strip_prefix (log_prefix oid) k of
        None \<Rightarrow> None
      | Some r \<Rightarrow> map_option word_of_nat (parse_uint 64 r))"

definition base_seq_key :: "string \<Rightarrow> u64 \<Rightarrow> key" where
  "base_seq_key oid seq = ''objects/'' @ oid @ ''.B.'' @ pad0 20 (show_nat (unat seq))"

definition parse_base_seq :: "key \<Rightarrow> string \<Rightarrow> u64 option" where
  "parse_base_seq k oid =
     (case strip_prefix (base_prefix oid) k of
        None \<Rightarrow> None
      | Some r \<Rightarrow> map_option word_of_nat (parse_uint 64 r))"

definition outcome_key :: "string \<Rightarrow> key" where
  "outcome_key txn = ''txns/'' @ txn @ ''.O''"

lemma u64_fits_20: "unat (c :: u64) < 10 ^ 20"
  using unat_lt2[of c] by simp

lemma log_key_prefix: "log_key oid q = log_prefix oid @ pad0 20 (show_nat (unat q))"
  by (simp add: log_key_def log_prefix_def)

lemma base_key_prefix: "base_seq_key oid q = base_prefix oid @ pad0 20 (show_nat (unat q))"
  by (simp add: base_seq_key_def base_prefix_def)

lemma parse_log_key [key_simps]: "parse_log_seq (log_key oid q) oid = Some q"
  using unat_lt2[of q] unfolding parse_log_seq_def log_key_prefix strip_prefix_append by simp

lemma parse_base_key [key_simps]: "parse_base_seq (base_seq_key oid q) oid = Some q"
  using unat_lt2[of q] unfolding parse_base_seq_def base_key_prefix strip_prefix_append by simp

lemma log_key_less [key_simps]: "log_key oid q < log_key oid q' \<longleftrightarrow> q < q'"
  using pad0_less[OF _ u64_fits_20 u64_fits_20, of q q']
  by (simp add: log_key_def word_less_nat_alt)

text \<open>The number takes the last twenty characters, so a key determines its object and number.\<close>

lemma seq_suffix_inject:
  "p @ pad0 20 (show_nat (unat (q :: u64))) = p' @ pad0 20 (show_nat (unat (q' :: u64))) \<longleftrightarrow> p = p' \<and> q = q'"
  using pad0_inject[OF _ u64_fits_20 u64_fits_20, of q q']
    length_pad0[OF _ u64_fits_20, of q] length_pad0[OF _ u64_fits_20, of q']
  by (auto simp: append_eq_append_conv word_unat_eq_iff)

lemma log_key_inject [key_simps]: "log_key oid q = log_key oid' q' \<longleftrightarrow> oid = oid' \<and> q = q'"
  unfolding log_key_prefix seq_suffix_inject by (simp add: log_prefix_def)

lemma base_key_inject [key_simps]: "base_seq_key oid q = base_seq_key oid' q' \<longleftrightarrow> oid = oid' \<and> q = q'"
  unfolding base_key_prefix seq_suffix_inject by (simp add: base_prefix_def)

lemma outcome_key_inject [key_simps]: "outcome_key t = outcome_key t' \<longleftrightarrow> t = t'"
  by (simp add: outcome_key_def)

lemma key_kinds [key_simps]:
  "log_key oid q \<noteq> outcome_key t" "base_seq_key oid q \<noteq> outcome_key t"
  "outcome_key t \<noteq> log_key oid q" "outcome_key t \<noteq> base_seq_key oid q"
  by (simp_all add: log_key_def base_seq_key_def outcome_key_def)

lemma base_log_distinct [key_simps]: "base_seq_key oid q \<noteq> log_key oid' q'" "log_key oid' q' \<noteq> base_seq_key oid q"
proof -
  show "base_seq_key oid q \<noteq> log_key oid' q'"
  proof
    assume "base_seq_key oid q = log_key oid' q'"
    then have "rev (base_prefix oid) = rev (log_prefix oid')"
      unfolding base_key_prefix log_key_prefix seq_suffix_inject by simp
    then show False by (simp add: base_prefix_def log_prefix_def)
  qed
  then show "log_key oid' q' \<noteq> base_seq_key oid q" by metis
qed

text \<open>No key of one kind is read as a key of another, whatever the object names contain.\<close>

lemma parse_kinds [key_simps]:
  "parse_base_seq (log_key oid q) oid' = None" "parse_log_seq (base_seq_key oid q) oid' = None"
  "parse_log_seq (outcome_key t) oid' = None" "parse_base_seq (outcome_key t) oid' = None"
proof -
  have no: False
    if "''objects/'' @ a @ x # ''.'' @ pad0 20 (show_nat n) = ''objects/'' @ b @ y # ''.'' @ r"
      "parse_uint 64 r \<noteq> None" "x \<noteq> y" for a b x y n r
  proof -
    have "CHR ''.'' \<notin> set r" using that(2) parse_uint_no_dot by blast
    then have "''objects/'' @ a @ [x] = ''objects/'' @ b @ [y]"
      using last_dot_unique[of "''objects/'' @ a @ [x]" "CHR ''.''" "pad0 20 (show_nat n)"
          "''objects/'' @ b @ [y]" r] that(1) pad0_no_dot by simp
    then show False using that(3) by simp
  qed
  show "parse_base_seq (log_key oid q) oid' = None"
  proof (rule ccontr)
    assume "parse_base_seq (log_key oid q) oid' \<noteq> None"
    then obtain r where "log_key oid q = base_prefix oid' @ r" "parse_uint 64 r \<noteq> None"
      by (auto simp: parse_base_seq_def strip_prefix_eq_Some split: option.splits)
    then show False using no[of "oid @ ''.''" "CHR ''L''" "unat q" "oid' @ ''.''" "CHR ''B''" r]
      by (simp add: log_key_def base_prefix_def)
  qed
  show "parse_log_seq (base_seq_key oid q) oid' = None"
  proof (rule ccontr)
    assume "parse_log_seq (base_seq_key oid q) oid' \<noteq> None"
    then obtain r where "base_seq_key oid q = log_prefix oid' @ r" "parse_uint 64 r \<noteq> None"
      by (auto simp: parse_log_seq_def strip_prefix_eq_Some split: option.splits)
    then show False using no[of "oid @ ''.''" "CHR ''B''" "unat q" "oid' @ ''.''" "CHR ''L''" r]
      by (simp add: base_seq_key_def log_prefix_def)
  qed
  show "parse_log_seq (outcome_key t) oid' = None" "parse_base_seq (outcome_key t) oid' = None"
    by (simp_all add: parse_log_seq_def parse_base_seq_def strip_prefix_def starts_with_def
        outcome_key_def log_prefix_def base_prefix_def)
qed

text \<open>A log key of any object that parses for \<open>oid'\<close> is that object's key of the number.\<close>

lemma parse_log_other:
  assumes "parse_log_seq (log_key oid q) oid' = Some r"
  shows "log_key oid q = log_key oid' r"
proof -
  obtain ds where d: "log_key oid q = log_prefix oid' @ ds" "parse_uint 64 ds \<noteq> None"
    using assms by (auto simp: parse_log_seq_def strip_prefix_eq_Some split: option.splits)
  have "CHR ''.'' \<notin> set ds" using d(2) parse_uint_no_dot by blast
  then have "''objects/'' @ oid @ ''.L'' = ''objects/'' @ oid' @ ''.L''"
    using last_dot_unique[of "''objects/'' @ oid @ ''.L''" "CHR ''.''" "pad0 20 (show_nat (unat q))"
        "''objects/'' @ oid' @ ''.L''" ds] d(1) pad0_no_dot by (simp add: log_key_def log_prefix_def)
  then have "oid = oid'" by simp
  then show ?thesis using assms parse_log_key by auto
qed

lemma parse_base_other:
  assumes "parse_base_seq (base_seq_key oid q) oid' = Some r"
  shows "base_seq_key oid q = base_seq_key oid' r"
proof -
  obtain ds where d: "base_seq_key oid q = base_prefix oid' @ ds" "parse_uint 64 ds \<noteq> None"
    using assms by (auto simp: parse_base_seq_def strip_prefix_eq_Some split: option.splits)
  have "CHR ''.'' \<notin> set ds" using d(2) parse_uint_no_dot by blast
  then have "''objects/'' @ oid @ ''.B'' = ''objects/'' @ oid' @ ''.B''"
    using last_dot_unique[of "''objects/'' @ oid @ ''.B''" "CHR ''.''" "pad0 20 (show_nat (unat q))"
        "''objects/'' @ oid' @ ''.B''" ds] d(1) pad0_no_dot by (simp add: base_seq_key_def base_prefix_def)
  then have "oid = oid'" by simp
  then show ?thesis using assms parse_base_key by auto
qed

section \<open>Entries\<close>

datatype log_payload = Snapshot bytes | DeltaPayload bytes

record log_entry =
  e_txn :: string
  e_born :: u64
  e_payload :: log_payload

definition encode_entry :: "string \<Rightarrow> u64 \<Rightarrow> log_payload \<Rightarrow> bytes" where
  "encode_entry txn born p =
     (let (tag, body) = (case p of Snapshot b \<Rightarrow> (0, b) | DeltaPayload b \<Rightarrow> (1, b))
      in tag # be_bytes 8 (unat born) @ be_bytes 2 (length txn) @ string_bytes txn @ body)"

text \<open>\<open>slice.get(..n)\<close> and \<open>slice.get(n..)\<close>.\<close>

definition get_to :: "nat \<Rightarrow> 'a list \<Rightarrow> 'a list option" where
  "get_to n xs = (if n \<le> length xs then Some (take n xs) else None)"

definition get_from :: "nat \<Rightarrow> 'a list \<Rightarrow> 'a list option" where
  "get_from n xs = (if n \<le> length xs then Some (drop n xs) else None)"

definition string_from_utf8 :: "bytes \<Rightarrow> string option" where
  "string_from_utf8 bs = (if is_utf8 bs then Some (bytes_string bs) else None)"

definition decode_entry :: "bytes \<Rightarrow> log_entry option" where
  "decode_entry bs =
     (case bs of [] \<Rightarrow> None | tag # rest \<Rightarrow>
      Option.bind (map_option (\<lambda>b. word_of_nat (of_be b)) (get_to 8 rest)) (\<lambda>born.
      Option.bind (get_from 8 rest) (\<lambda>rest.
      Option.bind (nth_opt rest 0) (\<lambda>h. Option.bind (nth_opt rest 1) (\<lambda>l.
      let tlen = of_be [h, l] in
      Option.bind (get_from 2 rest) (\<lambda>rest.
      Option.bind (Option.bind (get_to tlen rest) string_from_utf8) (\<lambda>txn.
      Option.bind (get_from tlen rest) (\<lambda>body.
      Option.bind (if tag = 0 then Some (Snapshot body)
                   else if tag = 1 then Some (DeltaPayload body) else None) (\<lambda>payload.
      Some \<lparr>e_txn = txn, e_born = born, e_payload = payload\<rparr>)))))))))"

definition entry_from_ship :: "string \<Rightarrow> u64 \<Rightarrow> bool \<Rightarrow> bytes \<Rightarrow> bytes" where
  "entry_from_ship txn born is_snapshot bs =
     encode_entry txn born (if is_snapshot then Snapshot bs else DeltaPayload bs)"

lemma be_bytes_2: "be_bytes 2 n = [word_of_nat (n div 256), word_of_nat n]"
  by (simp add: numeral_2_eq_2)

lemma decode_encode_entry [wire_simps]:
  assumes "length txn < 2 ^ 16" "is_utf8 (string_bytes txn)"
  shows "decode_entry (encode_entry txn born p) = Some \<lparr>e_txn = txn, e_born = born, e_payload = p\<rparr>"
proof -
  let ?body = "case p of Snapshot b \<Rightarrow> b | DeltaPayload b \<Rightarrow> b"
  let ?tag = "case p of Snapshot b \<Rightarrow> 0 | DeltaPayload b \<Rightarrow> (1 :: byte)"
  have enc: "encode_entry txn born p =
      ?tag # be_bytes 8 (unat born) @ be_bytes 2 (length txn) @ string_bytes txn @ ?body"
    by (cases p) (simp_all add: encode_entry_def)
  have born: "word_of_nat (of_be (be_bytes 8 (unat born))) = born"
    using unat_u64_bound[of born] by simp
  have tlen: "of_be [word_of_nat (length txn div 256), word_of_nat (length txn)] = length txn"
    using of_be_be[of "length txn" 2] assms(1) by (simp add: be_bytes_2)
  show ?thesis
    unfolding enc decode_entry_def
    by (cases p) (simp_all add: get_to_def get_from_def nth_opt_def born be_bytes_2 tlen
        string_from_utf8_def assms(2) Let_def)
qed

text \<open>Anything that decodes with a known tag carries the bytes it was read from.\<close>

lemma decode_entry_txn_utf8: "decode_entry bs = Some e \<Longrightarrow> is_utf8 (string_bytes (e_txn e)) \<and> length (e_txn e) < 2 ^ 16"
proof -
  assume "decode_entry bs = Some e"
  then obtain rest h l where t: "e_txn e = bytes_string (take (of_be [h, l]) rest)"
    "is_utf8 (take (of_be [h, l]) rest)" "of_be [h, l] \<le> length rest"
    by (auto simp: decode_entry_def bind_eq_Some_conv get_to_def get_from_def string_from_utf8_def
        Let_def split: list.splits if_splits)
  have "of_be [h, l] < 2 ^ 16" using of_be_bound[of "[h, l]"] by simp
  then show ?thesis using t by simp
qed

section \<open>Folding\<close>

fun fold_log :: "bytes \<Rightarrow> log_payload list \<Rightarrow> bytes result" where
  "fold_log img [] = Inr img"
| "fold_log img (Snapshot b # es) = fold_log b es"
| "fold_log img (DeltaPayload b # es) =
     res_bind (decode_delta b) (\<lambda>d. fold_log (apply_delta img d) es)"

lemma fold_log_append:
  "fold_log base (es @ fs) = res_bind (fold_log base es) (\<lambda>img. fold_log img fs)"
proof (induction base es rule: fold_log.induct)
  case (3 img b es)
  then show ?case by (cases "decode_delta b") auto
qed auto

section \<open>The commit decision\<close>

definition outcome :: "string \<Rightarrow> bool option result io" where
  "outcome txn = io_try (io_get (outcome_key txn)) (\<lambda>b. ok (map_option (\<lambda>v. nth_opt v 0 = Some 1) b))"

definition committed :: "string \<Rightarrow> bool io" where
  "committed txn = io_bind (outcome txn) (\<lambda>r. Done (r = Inr (Some True)))"

definition commit_txn :: "string \<Rightarrow> bool result io" where
  "commit_txn txn = io_try (io_create (outcome_key txn) [1]) (\<lambda>won.
     if won then ok True else io_bind (committed txn) (\<lambda>c. ok c))"

definition abort_txn :: "string \<Rightarrow> bool result io" where
  "abort_txn txn = io_try (io_create (outcome_key txn) [0]) (\<lambda>won.
     if won then ok True else io_try (outcome txn) (\<lambda>o'. ok (o' = Some False)))"

section \<open>Reading the log\<close>

definition read_base :: "string \<Rightarrow> (bytes \<times> u64) result io" where
  "read_base oid = io_try (io_list (base_prefix oid)) (\<lambda>ks.
     let best = foldl (\<lambda>best k. case parse_base_seq k oid of
                         None \<Rightarrow> best
                       | Some s \<Rightarrow> Some (case best of None \<Rightarrow> s | Some b \<Rightarrow> max b s)) None ks
     in case best of
          Some seq \<Rightarrow> io_try (io_get (base_seq_key oid seq)) (\<lambda>img.
            ok (case img of None \<Rightarrow> [] | Some b \<Rightarrow> b, seq))
        | None \<Rightarrow> ok ([], 0))"

text \<open>The scan of \<open>committed_seq\<close> over the listed keys.\<close>

fun seq_scan :: "string \<Rightarrow> u64 \<Rightarrow> key list \<Rightarrow> u64 \<Rightarrow> u64 result io" where
  "seq_scan oid base_seq [] seq = ok seq"
| "seq_scan oid base_seq (k # ks) seq =
     (case parse_log_seq k oid of
        None \<Rightarrow> seq_scan oid base_seq ks seq
      | Some this_seq \<Rightarrow>
          if this_seq \<le> base_seq then seq_scan oid base_seq ks seq
          else if this_seq \<noteq> seq + 1 then ok seq
          else io_try (io_get k) (\<lambda>b. case b of
            None \<Rightarrow> ok seq
          | Some b \<Rightarrow> (case decode_entry b of
              None \<Rightarrow> ok seq
            | Some entry \<Rightarrow> io_bind (committed (e_txn entry)) (\<lambda>c.
                if \<not> c then ok seq else seq_scan oid base_seq ks this_seq))))"

primrec committed_seq_tries :: "nat \<Rightarrow> string \<Rightarrow> u64 result io" where
  "committed_seq_tries 0 oid = fail ''committed_seq kept racing compaction''"
| "committed_seq_tries (Suc n) oid =
     io_try (read_base oid) (\<lambda>(_, base_seq).
     io_try (io_list (log_prefix oid)) (\<lambda>keys.
     io_try (seq_scan oid base_seq (sort keys) base_seq) (\<lambda>seq.
     io_try (read_base oid) (\<lambda>(_, base_seq_now).
     if seq < base_seq_now then committed_seq_tries n oid else ok seq))))"

definition committed_seq :: "string \<Rightarrow> u64 result io" where
  "committed_seq oid = committed_seq_tries 16 oid"

text \<open>The scan of \<open>fold_committed\<close>, which also collects the payloads.\<close>

fun fold_scan :: "string \<Rightarrow> u64 \<Rightarrow> key list \<Rightarrow> log_payload list \<Rightarrow> u64
    \<Rightarrow> (log_payload list \<times> u64) result io" where
  "fold_scan oid base_seq [] payloads seq = ok (payloads, seq)"
| "fold_scan oid base_seq (k # ks) payloads seq =
     (case parse_log_seq k oid of
        None \<Rightarrow> fold_scan oid base_seq ks payloads seq
      | Some this_seq \<Rightarrow>
          if this_seq \<le> base_seq then fold_scan oid base_seq ks payloads seq
          else if this_seq \<noteq> seq + 1 then ok (payloads, seq)
          else io_try (io_get k) (\<lambda>b. case b of
            None \<Rightarrow> ok (payloads, seq)
          | Some b \<Rightarrow> (case decode_entry b of
              None \<Rightarrow> ok (payloads, seq)
            | Some entry \<Rightarrow> io_bind (committed (e_txn entry)) (\<lambda>c.
                if \<not> c then ok (payloads, seq)
                else fold_scan oid base_seq ks (payloads @ [e_payload entry]) this_seq))))"

primrec fold_committed_tries :: "nat \<Rightarrow> string \<Rightarrow> (bytes \<times> u64) result io" where
  "fold_committed_tries 0 oid = fail ''fold_committed kept racing compaction''"
| "fold_committed_tries (Suc n) oid =
     io_try (read_base oid) (\<lambda>(base, base_seq).
     io_try (io_list (log_prefix oid)) (\<lambda>keys.
     io_try (fold_scan oid base_seq (sort keys) [] base_seq) (\<lambda>(payloads, seq).
     io_try (read_base oid) (\<lambda>(_, base_seq_now).
     if seq < base_seq_now then fold_committed_tries n oid
     else Done (res_bind (fold_log base payloads) (\<lambda>img. Inr (img, seq)))))))"

definition fold_committed :: "string \<Rightarrow> (bytes \<times> u64) result io" where
  "fold_committed oid = fold_committed_tries 16 oid"

section \<open>Writing the log\<close>

definition delete_if_txn :: "key \<Rightarrow> string \<Rightarrow> unit result io" where
  "delete_if_txn k txn = io_try (io_get k) (\<lambda>b. case b of
       None \<Rightarrow> ok ()
     | Some b \<Rightarrow> (case decode_entry b of
         Some e \<Rightarrow> if e_txn e = txn then io_delete k else ok ()
       | None \<Rightarrow> ok ()))"

definition clear_entry :: "string \<Rightarrow> u64 \<Rightarrow> string \<Rightarrow> unit result io" where
  "clear_entry oid seq txn = io_bind (committed txn) (\<lambda>c.
     if c then ok () else delete_if_txn (log_key oid seq) txn)"

definition saturating_sub :: "u64 \<Rightarrow> u64 \<Rightarrow> u64" where
  "saturating_sub a b = (if a \<le> b then 0 else a - b)"

primrec prewrite_tries :: "nat \<Rightarrow> string \<Rightarrow> string \<Rightarrow> bytes \<Rightarrow> u64 \<Rightarrow> u64 \<Rightarrow> u64 \<Rightarrow> u64 option result io" where
  "prewrite_tries 0 oid txn entry seq now_ms ttl_ms = ok None"
| "prewrite_tries (Suc n) oid txn entry seq now_ms ttl_ms =
     (let k = log_key oid seq; again = prewrite_tries n oid txn entry seq now_ms ttl_ms in
      io_try (io_create k entry) (\<lambda>won.
      if won then ok (Some seq)
      else io_try (io_get k) (\<lambda>existing. case existing of
        None \<Rightarrow> again
      | Some existing \<Rightarrow> (case decode_entry existing of
          None \<Rightarrow> ok None
        | Some held \<Rightarrow>
            if e_txn held = txn then ok (Some seq)
            else io_try (outcome (e_txn held)) (\<lambda>o'. case o' of
              Some True \<Rightarrow> ok None
            | Some False \<Rightarrow> io_try (delete_if_txn k (e_txn held)) (\<lambda>_. again)
            | None \<Rightarrow>
                if saturating_sub now_ms (e_born held) \<le> ttl_ms then ok None
                else io_try (abort_txn (e_txn held)) (\<lambda>aborted.
                  if aborted then io_try (delete_if_txn k (e_txn held)) (\<lambda>_. again)
                  else ok None))))))"

definition prewrite :: "string \<Rightarrow> string \<Rightarrow> bytes \<Rightarrow> u64 \<Rightarrow> u64 \<Rightarrow> u64 \<Rightarrow> u64 option result io" where
  "prewrite oid txn entry expected now_ms ttl_ms =
     io_try (committed_seq oid) (\<lambda>seq.
       if seq \<noteq> expected then ok None
       else prewrite_tries 64 oid txn entry (expected + 1) now_ms ttl_ms)"

definition read_seq :: "string \<Rightarrow> u64 io" where
  "read_seq oid = io_bind (io_get (seq_key oid)) (\<lambda>r. Done (case r of
       Inr (Some b) \<Rightarrow> if length b = 8 then word_of_nat (of_be b) else 0
     | _ \<Rightarrow> 0))"

definition compact_log :: "string \<Rightarrow> u64 \<Rightarrow> unit result io" where
  "compact_log oid keep =
     io_try (fold_committed oid) (\<lambda>(img, seq).
     io_try (read_base oid) (\<lambda>(_, base_seq).
     if seq < base_seq + keep then ok ()
     else io_try (io_create (base_seq_key oid seq) img) (\<lambda>_. ok ())))"

end
