(* ===== verification/Log_Spec.thy ===== *)
theory Log_Spec
  imports Objlog
begin

text \<open>
  What \<open>objlog.rs\<close> computes when nothing else touches the store. The abstract log of an object is
  the function from sequence numbers to committed entries; reading returns the fold of its longest
  contiguous run above the base, the two scans of the code agree, a prewrite takes the next
  free sequence number, and a compaction does not change what is read.
\<close>

section \<open>The abstract log\<close>

definition txn_outcome :: "mem \<Rightarrow> string \<Rightarrow> bool option" where
  "txn_outcome s t = map_option (\<lambda>v. nth_opt v 0 = Some 1) (mem_get s (outcome_key t))"

definition entry_at :: "mem \<Rightarrow> string \<Rightarrow> u64 \<Rightarrow> log_entry option" where
  "entry_at s oid q = Option.bind (mem_get s (log_key oid q)) decode_entry"

definition committed_at :: "mem \<Rightarrow> string \<Rightarrow> u64 \<Rightarrow> log_entry option" where
  "committed_at s oid q = (case entry_at s oid q of
     None \<Rightarrow> None
   | Some e \<Rightarrow> if txn_outcome s (e_txn e) = Some True then Some e else None)"

text \<open>
  \<open>run f a es q\<close>: the entries \<open>es\<close> are those at \<open>a + 1\<close>, \<open>a + 2\<close>, ..., \<open>q\<close>, none of these
  numbers having wrapped around.
\<close>

inductive run :: "(u64 \<Rightarrow> log_entry option) \<Rightarrow> u64 \<Rightarrow> log_entry list \<Rightarrow> u64 \<Rightarrow> bool" where
  run_Nil: "run f a [] a"
| run_Cons: "f (a + 1) = Some e \<Longrightarrow> a < a + 1 \<Longrightarrow> run f (a + 1) es q \<Longrightarrow> run f a (e # es) q"

text \<open>A run is maximal when the next number holds no committed entry.\<close>

definition ends_at :: "(u64 \<Rightarrow> log_entry option) \<Rightarrow> u64 \<Rightarrow> bool" where
  "ends_at f q \<longleftrightarrow> (q < q + 1 \<longrightarrow> f (q + 1) = None)"

inductive_cases run_NilE: "run f a [] q"
inductive_cases run_ConsE: "run f a (e # es) q"

lemma run_le: "run f a es q \<Longrightarrow> a \<le> q"
  by (induction rule: run.induct) auto

lemma run_mono: "run f a es q \<Longrightarrow> (\<And>x e. f x = Some e \<Longrightarrow> g x = Some e) \<Longrightarrow> run g a es q"
  by (induction rule: run.induct) (auto intro: run.intros)

lemma run_append: "run f a es m \<Longrightarrow> run f m fs q \<Longrightarrow> run f a (es @ fs) q"
  by (induction rule: run.induct) (auto intro: run.intros)

lemma run_snoc: "run f a es m \<Longrightarrow> f (m + 1) = Some e \<Longrightarrow> m < m + 1 \<Longrightarrow> run f a (es @ [e]) (m + 1)"
  by (rule run_append) (auto intro: run.intros)

text \<open>The maximal run from a number is unique.\<close>

lemma run_unique:
  "run f a es q \<Longrightarrow> ends_at f q \<Longrightarrow> run f a fs r \<Longrightarrow> ends_at f r \<Longrightarrow> es = fs \<and> q = r"
proof (induction arbitrary: fs rule: run.induct)
  case (run_Nil f a)
  then show ?case by (cases fs) (auto elim: run_ConsE run_NilE simp: ends_at_def)
next
  case (run_Cons f a e es q)
  show ?case
  proof (cases fs)
    case Nil
    then have "r = a" using run_Cons.prems by (auto elim: run_NilE)
    then show ?thesis using run_Cons by (auto simp: ends_at_def)
  next
    case (Cons x xs)
    then have "f (a + 1) = Some x" "run f (a + 1) xs r" using run_Cons.prems by (auto elim: run_ConsE)
    then show ?thesis using run_Cons Cons by auto
  qed
qed

text \<open>
  The log keys of an object are canonical when every listed key that parses is the key of its
  number; the parser would also read other spellings (a plus sign, missing zeros). The programs of
  this file only write canonical keys.
\<close>

definition canonical_log :: "mem \<Rightarrow> string \<Rightarrow> bool" where
  "canonical_log s oid \<longleftrightarrow>
     list_all (\<lambda>k. parse_log_seq k oid = None \<or> k = log_key oid (the (parse_log_seq k oid)))
       (mem_list s (log_prefix oid))"

definition canonical_base :: "mem \<Rightarrow> string \<Rightarrow> bool" where
  "canonical_base s oid \<longleftrightarrow>
     list_all (\<lambda>k. parse_base_seq k oid = None \<or> k = base_seq_key oid (the (parse_base_seq k oid)))
       (mem_list s (base_prefix oid))"

section \<open>Outcomes\<close>

lemma run_outcome [io_simps]: "run_io (outcome t) s = (Inr (txn_outcome s t), s)"
  by (simp add: outcome_def io_simps txn_outcome_def)

lemma run_committed [io_simps]: "run_io (committed t) s = (txn_outcome s t = Some True, s)"
  by (simp add: committed_def io_simps)

lemma txn_outcome_put [simp]:
  "txn_outcome (mem_put k v s) t = (if k = outcome_key t then Some (nth_opt v 0 = Some 1) else txn_outcome s t)"
  by (auto simp: txn_outcome_def)

lemma run_commit [io_simps]:
  "run_io (commit_txn t) s =
     (if txn_outcome s t = None then (Inr True, mem_put (outcome_key t) [1] s)
      else (Inr (txn_outcome s t = Some True), s))"
  by (auto simp: commit_txn_def io_simps mem_create_put txn_outcome_def)

lemma run_abort [io_simps]:
  "run_io (abort_txn t) s =
     (if txn_outcome s t = None then (Inr True, mem_put (outcome_key t) [0] s)
      else (Inr (txn_outcome s t = Some False), s))"
  by (auto simp: abort_txn_def io_simps mem_create_put txn_outcome_def)

section \<open>The base\<close>

definition best_base :: "mem \<Rightarrow> string \<Rightarrow> u64 option" where
  "best_base s oid =
     (case List.map_filter (\<lambda>k. parse_base_seq k oid) (mem_list s (base_prefix oid)) of
        [] \<Rightarrow> None | q # qs \<Rightarrow> Some (foldl max q qs))"

definition base_of :: "mem \<Rightarrow> string \<Rightarrow> bytes \<times> u64" where
  "base_of s oid = (case best_base s oid of
     None \<Rightarrow> ([], 0)
   | Some q \<Rightarrow> (case mem_get s (base_seq_key oid q) of None \<Rightarrow> [] | Some b \<Rightarrow> b, q))"

lemma best_fold:
  "foldl (\<lambda>best k. case f k of None \<Rightarrow> best | Some s \<Rightarrow> Some (case best of None \<Rightarrow> s | Some b \<Rightarrow> max b s)) acc ks
   = (case (acc, List.map_filter f ks) of
        (None, []) \<Rightarrow> None | (None, q # qs) \<Rightarrow> Some (foldl max q qs) | (Some a, qs) \<Rightarrow> Some (foldl max a qs))"
  by (induction ks arbitrary: acc) (auto simp: List.map_filter_simps split: option.splits list.splits)

lemma run_read_base [io_simps]: "run_io (read_base oid) s = (Inr (base_of s oid), s)"
  by (auto simp: read_base_def io_simps best_fold base_of_def best_base_def Let_def
      split: option.splits list.splits)

lemma foldl_max_ge: "(a :: 'a::linorder) \<le> foldl max a xs \<and> (\<forall>x \<in> set xs. x \<le> foldl max a xs)"
proof (induction xs arbitrary: a)
  case (Cons x xs)
  have "max a x \<le> foldl max (max a x) xs" using Cons by blast
  then show ?case using Cons[of "max a x"] by (auto intro: order_trans[rotated])
qed simp

lemma foldl_max_in: "foldl max (a :: 'a::linorder) xs \<in> insert a (set xs)"
proof (induction xs arbitrary: a)
  case (Cons x xs)
  show ?case using Cons[of "max a x"] by (auto simp: max_def split: if_splits)
qed simp

lemma best_base_Some:
  assumes "mem_wf s" "best_base s oid = Some q"
  shows "\<exists>k. mem_get s k \<noteq> None \<and> parse_base_seq k oid = Some q"
    and "mem_get s k \<noteq> None \<Longrightarrow> parse_base_seq k oid = Some r \<Longrightarrow> r \<le> q"
proof -
  let ?qs = "List.map_filter (\<lambda>k. parse_base_seq k oid) (mem_list s (base_prefix oid))"
  obtain a qs where qs: "?qs = a # qs" "q = foldl max a qs"
    using assms(2) by (auto simp: best_base_def split: list.splits)
  then have "q \<in> set ?qs" using foldl_max_in[of a qs] by simp
  then show "\<exists>k. mem_get s k \<noteq> None \<and> parse_base_seq k oid = Some q"
    using set_mem_list[OF assms(1)] by (auto simp: set_map_filter)
  show "r \<le> q" if "mem_get s k \<noteq> None" "parse_base_seq k oid = Some r"
  proof -
    have "starts_with k (base_prefix oid)"
      using that(2) by (auto simp: parse_base_seq_def strip_prefix_def split: option.splits if_splits)
    then have "r \<in> set ?qs" using that set_mem_list[OF assms(1)] by (auto simp: set_map_filter)
    then show ?thesis using qs foldl_max_ge[of a qs] by auto
  qed
qed

lemma best_base_None:
  assumes "mem_wf s" "best_base s oid = None" "mem_get s k \<noteq> None"
  shows "parse_base_seq k oid = None"
proof (rule ccontr)
  assume "parse_base_seq k oid \<noteq> None"
  then obtain r where r: "parse_base_seq k oid = Some r" by auto
  then have "starts_with k (base_prefix oid)"
    by (auto simp: parse_base_seq_def strip_prefix_def split: option.splits if_splits)
  then have "r \<in> set (List.map_filter (\<lambda>k. parse_base_seq k oid) (mem_list s (base_prefix oid)))"
    using r assms(3) set_mem_list[OF assms(1)] by (auto simp: set_map_filter)
  then show False using assms(2) by (auto simp: best_base_def split: list.splits)
qed

section \<open>The scans\<close>

text \<open>Both scans read the same entries: one forgets the payloads.\<close>

lemma seq_scan_fold:
  "run_io (seq_scan oid b ks q) s =
     (case run_io (fold_scan oid b ks ps q) s of (r, s') \<Rightarrow> (map_sum id snd r, s'))"
proof (induction oid b ks q arbitrary: ps rule: seq_scan.induct)
  case (2 oid b k ks q)
  show ?case
  proof (cases "parse_log_seq k oid")
    case None
    then show ?thesis using 2 by (simp add: io_simps)
  next
    case (Some this)
    show ?thesis
    proof (cases "this \<le> b \<or> this \<noteq> q + 1")
      case True
      then show ?thesis using 2 Some by (auto simp: io_simps)
    next
      case False
      then show ?thesis using 2(3)[OF Some] Some
        by (auto simp: io_simps split: option.splits)
    qed
  qed
qed (simp add: io_simps)

text \<open>
  The scan over the numbers of the sorted listing. From a current number \<open>q\<close> it appends the
  payloads of the longest run of committed entries.
\<close>

lemma fold_scan_run:
  assumes "sorted_wrt (<) (List.map_filter (\<lambda>k. parse_log_seq k oid) ks)"
    and "\<And>k r. k \<in> set ks \<Longrightarrow> parse_log_seq k oid = Some r \<Longrightarrow> k = log_key oid r \<and> (r \<le> b \<or> q < r)"
    and "\<And>r. q < r \<Longrightarrow> mem_get s (log_key oid r) \<noteq> None \<Longrightarrow> log_key oid r \<in> set ks"
    and "b \<le> q"
  shows "\<exists>es q'. run_io (fold_scan oid b ks ps q) s = (Inr (ps @ map e_payload es, q'), s)
           \<and> run (committed_at s oid) q es q' \<and> ends_at (committed_at s oid) q'"
  using assms
proof (induction ks arbitrary: ps q)
  case Nil
  have "ends_at (committed_at s oid) q"
    using Nil.prems(3)[of "q + 1"]
    by (cases "mem_get s (log_key oid (q + 1))") (auto simp: ends_at_def committed_at_def entry_at_def)
  then show ?case by (auto simp: io_simps intro!: exI[of _ "[]"] run.intros)
next
  case (Cons k ks)
  have stop: ?case if "run_io (fold_scan oid b (k # ks) ps q) s = (Inr (ps, q), s)"
    and "ends_at (committed_at s oid) q"
    using that by (auto intro!: exI[of _ "[]"] run.intros)
  have srt: "sorted_wrt (<) (List.map_filter (\<lambda>k. parse_log_seq k oid) ks)"
    using Cons.prems(1) by (auto simp: List.map_filter_simps split: option.splits)
  show ?case
  proof (cases "parse_log_seq k oid")
    case None
    have keep: "log_key oid r \<in> set ks" if "q < r" "mem_get s (log_key oid r) \<noteq> None" for r
      using Cons.prems(3)[OF that] None parse_log_key by auto
    have "\<exists>es q'. run_io (fold_scan oid b ks ps q) s = (Inr (ps @ map e_payload es, q'), s)
        \<and> run (committed_at s oid) q es q' \<and> ends_at (committed_at s oid) q'"
      by (rule Cons.IH[OF srt _ keep Cons.prems(4)]) (use Cons.prems(2) in auto)
    then show ?thesis using None by simp
  next
    case (Some r)
    have k: "k = log_key oid r" "r \<le> b \<or> q < r" using Cons.prems(2)[of k r] Some by auto
    have above: "r < r'" if "k' \<in> set ks" "parse_log_seq k' oid = Some r'" for k' r'
      using Cons.prems(1) that Some by (auto simp: List.map_filter_simps set_map_filter)
    consider "r \<le> b" | "q < r" "r \<noteq> q + 1" | "q < r" "r = q + 1" using k(2) by auto
    then show ?thesis
    proof cases
      case 1
      have keep: "log_key oid r' \<in> set ks" if "q < r'" "mem_get s (log_key oid r') \<noteq> None" for r'
        using Cons.prems(3)[OF that] k(1) 1 that(1) Cons.prems(4) by (auto simp: key_simps)
      have "\<exists>es q'. run_io (fold_scan oid b ks ps q) s = (Inr (ps @ map e_payload es, q'), s)
          \<and> run (committed_at s oid) q es q' \<and> ends_at (committed_at s oid) q'"
        by (rule Cons.IH[OF srt _ keep Cons.prems(4)]) (use Cons.prems(2) in auto)
      then show ?thesis using Some 1 by simp
    next
      case 2
      have "mem_get s (log_key oid (q + 1)) = None" if "q < q + 1"
      proof (rule ccontr)
        assume "mem_get s (log_key oid (q + 1)) \<noteq> None"
        then have "log_key oid (q + 1) \<in> set (k # ks)" using Cons.prems(3) that by blast
        then have "r \<le> q + 1" using k(1) above[OF _ parse_log_key, of "q + 1"] by (auto simp: key_simps less_imp_le)
        then show False using 2 inc_le[of q r] by auto
      qed
      then show ?thesis using 2 Some Cons.prems(4)
        by (intro stop) (auto simp: io_simps ends_at_def committed_at_def entry_at_def)
    next
      case 3
      have b: "\<not> r \<le> b" using 3 Cons.prems(4) by auto
      show ?thesis
      proof (cases "committed_at s oid (q + 1)")
        case None
        then show ?thesis
          using 3 Some b k(1)
          by (intro stop) (auto simp: io_simps ends_at_def committed_at_def entry_at_def
              split: option.splits if_splits)
      next
        case (Some e)
        have get: "Option.bind (mem_get s k) decode_entry = Some e" "txn_outcome s (e_txn e) = Some True"
          using Some k(1) 3 by (auto simp: committed_at_def entry_at_def split: option.splits if_splits)
        have step: "run_io (fold_scan oid b (k # ks) ps q) s =
            run_io (fold_scan oid b ks (ps @ [e_payload e]) r) s"
          using get 3 b \<open>parse_log_seq k oid = Some r\<close>
          by (auto simp: io_simps bind_eq_Some_conv)
        have "log_key oid r' \<in> set ks" if "r < r'" "mem_get s (log_key oid r') \<noteq> None" for r'
          using Cons.prems(3)[of r'] that 3(1) k(1) by (fastforce simp: key_simps)
        moreover have "k' = log_key oid r' \<and> (r' \<le> b \<or> r < r')"
          if "k' \<in> set ks" "parse_log_seq k' oid = Some r'" for k' r'
          using Cons.prems(2)[of k' r'] that above by auto
        moreover have "b \<le> r" using Cons.prems(4) 3(1) by simp
        ultimately obtain es q' where
          "run_io (fold_scan oid b ks (ps @ [e_payload e]) r) s = (Inr ((ps @ [e_payload e]) @ map e_payload es, q'), s)"
          "run (committed_at s oid) r es q'" "ends_at (committed_at s oid) q'"
          using Cons.IH[OF srt, of r "ps @ [e_payload e]"] Cons.prems(4) 3(1) by auto
        then show ?thesis
          using step Some 3
          by (intro exI[of _ "e # es"] exI[of _ q']) (auto intro: run.intros)
      qed
    qed
  qed
qed


lemma sorted_map_filter:
  assumes "sorted_wrt (<) ks" "\<And>k r. k \<in> set ks \<Longrightarrow> f k = Some r \<Longrightarrow> k = g r" "\<And>a b. g a < g b \<longleftrightarrow> a < b"
  shows "sorted_wrt (<) (List.map_filter f ks)"
  using assms(1,2)
proof (induction ks)
  case (Cons k ks)
  then show ?case
    using assms(3) by (fastforce simp: List.map_filter_simps set_map_filter split: option.split)
qed (simp add: List.map_filter_simps)

section \<open>Reading\<close>

text \<open>
  The view of an object: the newest base and its number, the maximal run of committed
  entries above it and the number it ends at.
\<close>

definition log_view :: "mem \<Rightarrow> string \<Rightarrow> bytes \<Rightarrow> u64 \<Rightarrow> log_entry list \<Rightarrow> u64 \<Rightarrow> bool" where
  "log_view s oid base b es q \<longleftrightarrow>
     base_of s oid = (base, b) \<and> run (committed_at s oid) b es q \<and> ends_at (committed_at s oid) q"

lemma log_view_unique:
  "log_view s oid base b es q \<Longrightarrow> log_view s oid base' b' es' q' \<Longrightarrow> base = base' \<and> b = b' \<and> es = es' \<and> q = q'"
  unfolding log_view_def using run_unique by fastforce

lemma canonical_logD:
  "canonical_log s oid \<Longrightarrow> k \<in> set (mem_list s (log_prefix oid)) \<Longrightarrow> parse_log_seq k oid = Some r \<Longrightarrow> k = log_key oid r"
  by (fastforce simp: canonical_log_def list_all_iff)

lemma run_fold_scan:
  assumes "mem_wf s" "canonical_log s oid"
  shows "\<exists>es q. run_io (fold_scan oid b (sort (mem_list s (log_prefix oid))) [] b) s = (Inr (map e_payload es, q), s)
           \<and> run (committed_at s oid) b es q \<and> ends_at (committed_at s oid) q"
proof -
  let ?ks = "mem_list s (log_prefix oid)"
  have srt: "sort ?ks = ?ks"
    using mem_list_sorted[OF assms(1)] strict_sorted_imp_sorted sorted_sort_id by blast
  have canon: "k = log_key oid r" if "k \<in> set ?ks" "parse_log_seq k oid = Some r" for k r
    using canonical_logD[OF assms(2) that] .
  have listed: "log_key oid r \<in> set ?ks" if "mem_get s (log_key oid r) \<noteq> None" for r
    using that set_mem_list[OF assms(1)] by (auto simp: log_key_prefix)
  have "sorted_wrt (<) (List.map_filter (\<lambda>k. parse_log_seq k oid) ?ks)"
    by (rule sorted_map_filter[OF mem_list_sorted[OF assms(1)] canon log_key_less])
  from fold_scan_run[OF this, of b b s "[]"] canon listed show ?thesis
    unfolding srt by (auto simp: not_less[symmetric])
qed

lemma log_view_exists:
  assumes "mem_wf s" "canonical_log s oid"
  shows "\<exists>base b es q. log_view s oid base b es q"
proof -
  obtain base b where "base_of s oid = (base, b)" by force
  then show ?thesis using run_fold_scan[OF assms, of b] by (auto simp: log_view_def)
qed

lemma run_scans:
  assumes "mem_wf s" "canonical_log s oid" "log_view s oid base b es q"
  shows "run_io (fold_scan oid b (sort (mem_list s (log_prefix oid))) [] b) s = (Inr (map e_payload es, q), s)"
    and "run_io (seq_scan oid b (sort (mem_list s (log_prefix oid))) b) s = (Inr q, s)"
proof -
  show f: "run_io (fold_scan oid b (sort (mem_list s (log_prefix oid))) [] b) s = (Inr (map e_payload es, q), s)"
    using run_fold_scan[OF assms(1,2), of b] assms(3) run_unique unfolding log_view_def by blast
  show "run_io (seq_scan oid b (sort (mem_list s (log_prefix oid))) b) s = (Inr q, s)"
    unfolding seq_scan_fold[where ps = "[]"] f by simp
qed

lemma log_view_base: "log_view s oid base b es q \<Longrightarrow> base_of s oid = (base, b) \<and> b \<le> q \<and> \<not> q < b"
  using run_le by (fastforce simp: log_view_def not_less)

lemma run_fold_committed:
  assumes "mem_wf s" "canonical_log s oid" "log_view s oid base b es q"
  shows "run_io (fold_committed oid) s =
           (res_bind (fold_log base (map e_payload es)) (\<lambda>img. Inr (img, q)), s)"
proof -
  have fuel: "16 = Suc 15" by simp
  show ?thesis
    using run_scans(1)[OF assms] log_view_base[OF assms(3)]
    unfolding fold_committed_def fuel fold_committed_tries.simps by (simp add: io_simps)
qed

lemma run_committed_seq:
  assumes "mem_wf s" "canonical_log s oid" "log_view s oid base b es q"
  shows "run_io (committed_seq oid) s = (Inr q, s)"
proof -
  have fuel: "16 = Suc 15" by simp
  show ?thesis
    using run_scans(2)[OF assms] log_view_base[OF assms(3)]
    unfolding committed_seq_def fuel committed_seq_tries.simps by (simp add: io_simps)
qed

section \<open>Compaction\<close>

lemma committed_at_put_base [simp]: "committed_at (mem_put (base_seq_key oid' q) v s) oid = committed_at s oid"
  by (auto simp: fun_eq_iff committed_at_def entry_at_def key_simps split: option.splits)

lemma log_listing_put_base:
  "mem_wf s \<Longrightarrow> set (mem_list (mem_put (base_seq_key oid q) v s) (log_prefix oid)) = set (mem_list s (log_prefix oid))"
  by (auto simp: set_mem_list base_seq_key_def log_prefix_def starts_with_def)

text \<open>A new base at the end of the run becomes the newest one.\<close>

lemma base_of_new:
  assumes "mem_wf s" "canonical_base s oid" "base_of s oid = (base, b)" "b \<le> q"
    and "mem_get s (base_seq_key oid q) = None"
  shows "base_of (mem_put (base_seq_key oid q) img s) oid = (img, q)"
proof -
  let ?s = "mem_put (base_seq_key oid q) img s"
  have wf: "mem_wf ?s" using assms(1) by simp
  have here: "mem_get ?s (base_seq_key oid q) \<noteq> None" by simp
  then obtain r where r: "best_base ?s oid = Some r"
    using best_base_None[OF wf _ here] parse_base_key[of oid q] by (cases "best_base ?s oid") auto
  have "q \<le> r" by (rule best_base_Some(2)[OF wf r here parse_base_key])
  moreover have "r \<le> q"
  proof -
    obtain k where k: "mem_get ?s k \<noteq> None" "parse_base_seq k oid = Some r"
      using best_base_Some(1)[OF wf r] by blast
    show ?thesis
    proof (cases "k = base_seq_key oid q")
      case True
      then show ?thesis using k parse_base_key by auto
    next
      case False
      then have old: "mem_get s k \<noteq> None" using k by simp
      show ?thesis
      proof (cases "best_base s oid")
        case None
        then show ?thesis using best_base_None[OF assms(1) None old] k by simp
      next
        case (Some r')
        then have "r' = b" using assms(3) by (auto simp: base_of_def)
        then show ?thesis using best_base_Some(2)[OF assms(1) Some old k(2)] assms(4) by simp
      qed
    qed
  qed
  ultimately show ?thesis using r by (simp add: base_of_def)
qed

text \<open>Reading after a compaction gives the same image at the same number.\<close>

lemma compact_preserves:
  assumes "mem_wf s" "canonical_log s oid" "canonical_base s oid"
    and "run_io (fold_committed oid) s = (Inr (img, q), s)"
    and "run_io (compact_log oid keep) s = (r, s')"
  shows "r = Inr () \<and> run_io (fold_committed oid) s' = (Inr (img, q), s')"
proof -
  obtain base b es q' where v: "log_view s oid base b es q'"
    using log_view_exists[OF assms(1,2)] by blast
  then have f: "fold_log base (map e_payload es) = Inr img" "q' = q"
    using run_fold_committed[OF assms(1,2) v] assms(4) by auto
  have b: "base_of s oid = (base, b)" "b \<le> q" using log_view_base[OF v] f(2) by auto
  show ?thesis
  proof (cases "q < b + keep \<or> mem_get s (base_seq_key oid q) \<noteq> None")
    case True
    then show ?thesis
      using assms(4,5) b by (auto simp: compact_log_def io_simps mem_create_put split: if_splits)
  next
    case False
    let ?s = "mem_put (base_seq_key oid q) img s"
    have s': "s' = ?s" "r = Inr ()"
      using assms(4,5) b False by (auto simp: compact_log_def io_simps mem_create_put split: if_splits)
    have "base_of ?s oid = (img, q)" using base_of_new[OF assms(1,3) b] False by blast
    then have "log_view ?s oid img q [] q"
      using v f(2) by (auto simp: log_view_def intro: run.intros)
    moreover have "canonical_log ?s oid"
      using assms(2) log_listing_put_base[OF assms(1)] by (simp add: canonical_log_def list_all_iff)
    ultimately show ?thesis using run_fold_committed[of ?s oid img q "[]" q] assms(1) s' by simp
  qed
qed


section \<open>Committing is atomic\<close>

text \<open>
  The abstract log after a commit: every entry of the transaction, in whatever object, appears
  at once, and nothing else changes.
\<close>

lemma entry_at_put_outcome [simp]: "entry_at (mem_put (outcome_key t) v s) oid q = entry_at s oid q"
  by (simp add: entry_at_def key_simps)

lemma commit_publishes:
  assumes "txn_outcome s t = None"
  shows "committed_at (snd (run_io (commit_txn t) s)) oid q =
    (case entry_at s oid q of
       None \<Rightarrow> None
     | Some e \<Rightarrow> if e_txn e = t then Some e else committed_at s oid q)"
  using assms
  by (auto simp: io_simps committed_at_def nth_opt_def key_simps split: option.split)

lemma abort_hides:
  assumes "txn_outcome s t = None"
  shows "committed_at (snd (run_io (abort_txn t) s)) oid q = committed_at s oid q"
  using assms
  by (auto simp: io_simps committed_at_def nth_opt_def key_simps split: option.split)

section \<open>Prewriting\<close>

text \<open>The slot after the committed run decides what a prewrite at the right number does.\<close>

definition prewrite_spec :: "mem \<Rightarrow> string \<Rightarrow> string \<Rightarrow> bytes \<Rightarrow> u64 \<Rightarrow> u64 \<Rightarrow> u64 \<Rightarrow> u64 option \<times> mem" where
  "prewrite_spec s oid txn entry slot now_ms ttl_ms =
     (let k = log_key oid slot in
      case mem_get s k of
        None \<Rightarrow> (Some slot, mem_put k entry s)
      | Some v \<Rightarrow> (case decode_entry v of
          None \<Rightarrow> (None, s)
        | Some held \<Rightarrow>
            if e_txn held = txn then (Some slot, s)
            else (case txn_outcome s (e_txn held) of
              Some True \<Rightarrow> (None, s)
            | Some False \<Rightarrow> (Some slot, mem_put k entry (mem_delete k s))
            | None \<Rightarrow>
                if saturating_sub now_ms (e_born held) \<le> ttl_ms then (None, s)
                else (Some slot, mem_put k entry (mem_delete k (mem_put (outcome_key (e_txn held)) [0] s))))))"

lemma run_delete_if_txn [io_simps]:
  "run_io (delete_if_txn k t) s =
     (Inr (), if (\<exists>e. Option.bind (mem_get s k) decode_entry = Some e \<and> e_txn e = t) then mem_delete k s else s)"
  by (auto simp: delete_if_txn_def io_simps split: option.splits)

lemma run_clear_entry:
  "run_io (clear_entry oid q t) s =
     (Inr (), if txn_outcome s t \<noteq> Some True \<and> (\<exists>e. entry_at s oid q = Some e \<and> e_txn e = t)
              then mem_delete (log_key oid q) s else s)"
  by (auto simp: clear_entry_def io_simps entry_at_def)

text \<open>A free slot is taken by the first attempt.\<close>

declare prewrite_tries.simps [simp del]

lemma prewrite_tries_free:
  "mem_get s (log_key oid slot) = None \<Longrightarrow>
   run_io (prewrite_tries (Suc n) oid txn entry slot now_ms ttl_ms) s = (Inr (Some slot), mem_put (log_key oid slot) entry s)"
  by (simp add: prewrite_tries.simps io_simps mem_create_put Let_def)

lemma run_prewrite_tries:
  "run_io (prewrite_tries (Suc (Suc n)) oid txn entry slot now_ms ttl_ms) s =
     (case prewrite_spec s oid txn entry slot now_ms ttl_ms of (r, s') \<Rightarrow> (Inr r, s'))"
proof -
  let ?k = "log_key oid slot"
  note step = prewrite_tries.simps(2)[of "Suc n" oid txn entry slot now_ms ttl_ms]
  show ?thesis
  proof (cases "mem_get s ?k")
    case None
    then show ?thesis using prewrite_tries_free by (simp add: prewrite_spec_def Let_def)
  next
    case (Some v)
    show ?thesis
    proof (cases "decode_entry v")
      case None
      then show ?thesis using Some by (simp add: step prewrite_spec_def Let_def io_simps mem_create_put)
    next
      case (Some held)
      note v = \<open>mem_get s ?k = Some v\<close> Some
      have retake: "run_io (prewrite_tries (Suc n) oid txn entry slot now_ms ttl_ms) (mem_delete ?k t) =
          (Inr (Some slot), mem_put ?k entry (mem_delete ?k t))" for t
        by (rule prewrite_tries_free) simp
      consider "e_txn held = txn" | "e_txn held \<noteq> txn" "txn_outcome s (e_txn held) = Some True"
        | "e_txn held \<noteq> txn" "txn_outcome s (e_txn held) = Some False"
        | "e_txn held \<noteq> txn" "txn_outcome s (e_txn held) = None" by (cases "txn_outcome s (e_txn held)") auto
      then show ?thesis
      proof cases
        case 1
        then show ?thesis using v by (simp add: step prewrite_spec_def Let_def io_simps mem_create_put)
      next
        case 2
        then show ?thesis using v by (simp add: step prewrite_spec_def Let_def io_simps mem_create_put)
      next
        case 3
        then show ?thesis using v retake
          by (simp add: step prewrite_spec_def Let_def io_simps mem_create_put)
      next
        case 4
        then show ?thesis using v retake
          by (simp add: step prewrite_spec_def Let_def io_simps mem_create_put key_simps)
      qed
    qed
  qed
qed

lemma run_prewrite:
  assumes "mem_wf s" "canonical_log s oid" "log_view s oid base b es q"
  shows "run_io (prewrite oid txn entry expected now_ms ttl_ms) s =
    (if q \<noteq> expected then (Inr None, s)
     else case prewrite_spec s oid txn entry (q + 1) now_ms ttl_ms of (r, s') \<Rightarrow> (Inr r, s'))"
proof -
  have "run_io (prewrite_tries 64 oid txn entry (q + 1) now_ms ttl_ms) s =
      (case prewrite_spec s oid txn entry (q + 1) now_ms ttl_ms of (r, s') \<Rightarrow> (Inr r, s'))"
    using run_prewrite_tries[of 62] by simp
  then show ?thesis
    using run_committed_seq[OF assms] by (auto simp: prewrite_def io_simps)
qed

text \<open>
  A prewrite is invisible: whatever it did to the slot after the run, the committed log of every
  object is as before (the slot's old holder, if any, was not committed).
\<close>

lemma entry_at_put_log [simp]:
  "entry_at (mem_put (log_key oid slot) v s) oid' q = (if oid' = oid \<and> q = slot then decode_entry v else entry_at s oid' q)"
  by (auto simp: entry_at_def key_simps)

lemma entry_at_delete_log [simp]:
  "entry_at (mem_delete (log_key oid slot) s) oid' q = (if oid' = oid \<and> q = slot then None else entry_at s oid' q)"
  by (auto simp: entry_at_def key_simps)

lemma txn_outcome_delete [simp]:
  "txn_outcome (mem_delete k s) t = (if k = outcome_key t then None else txn_outcome s t)"
  by (simp add: txn_outcome_def)

lemma committed_at_abort: "txn_outcome s t = None \<Longrightarrow> committed_at (mem_put (outcome_key t) [0] s) oid q = committed_at s oid q"
  by (auto simp: committed_at_def key_simps nth_opt_def split: option.split)

lemma committed_at_delete_slot:
  "committed_at s oid slot = None \<Longrightarrow> committed_at (mem_delete (log_key oid slot) s) oid' q = committed_at s oid' q"
  by (auto simp: committed_at_def key_simps split: option.split)

lemma committed_at_put_slot:
  assumes "committed_at s oid slot = None" "\<And>e. decode_entry v = Some e \<Longrightarrow> txn_outcome s (e_txn e) \<noteq> Some True"
  shows "committed_at (mem_put (log_key oid slot) v s) oid' q = committed_at s oid' q"
  using assms by (auto simp: committed_at_def key_simps split: option.split)

lemma prewrite_spec_invisible:
  assumes "committed_at s oid slot = None" "txn_outcome s txn \<noteq> Some True"
    and "\<And>e. decode_entry entry = Some e \<Longrightarrow> e_txn e = txn"
    and "prewrite_spec s oid txn entry slot now_ms ttl_ms = (r, s')"
  shows "committed_at s' oid' q = committed_at s oid' q"
proof -
  let ?k = "log_key oid slot"
  have put: "committed_at (mem_put ?k entry t) oid' q = committed_at t oid' q"
    if "committed_at t oid slot = None" "txn_outcome t txn \<noteq> Some True" for t
    using committed_at_put_slot[OF that(1), of entry] that(2) assms(3) by metis
  have retake: "committed_at (mem_put ?k entry (mem_delete ?k t)) oid' q = committed_at t oid' q"
    if "committed_at t oid slot = None" "txn_outcome t txn \<noteq> Some True" for t
    using put[of "mem_delete ?k t"] that by (simp add: committed_at_delete_slot key_simps)
  have abort: "committed_at (mem_put ?k entry (mem_delete ?k (mem_put (outcome_key h) [0] s))) oid' q
      = committed_at s oid' q" if "txn_outcome s h = None" for h
    using retake[of "mem_put (outcome_key h) [0] s"] assms(1,2) that
    by (auto simp: committed_at_abort key_simps nth_opt_def)
  show ?thesis
    using assms(4) put[OF assms(1,2)] retake[OF assms(1,2)] abort
    by (auto simp: prewrite_spec_def Let_def split: option.splits if_splits bool.splits)
qed

section \<open>One transaction, end to end\<close>

text \<open>The newest base depends only on which base keys exist.\<close>

lemma best_base_cong:
  assumes "mem_wf s" "mem_wf s'"
    and "\<And>k. parse_base_seq k oid \<noteq> None \<Longrightarrow> mem_get s' k = mem_get s k"
  shows "best_base s' oid = best_base s oid"
proof (cases "best_base s oid")
  case None
  show ?thesis
  proof (cases "best_base s' oid")
    case (Some q)
    then show ?thesis
      using best_base_Some(1)[OF assms(2) Some] best_base_None[OF assms(1) None] assms(3) by force
  qed (use None in simp)
next
  case (Some q)
  obtain k where k: "mem_get s k \<noteq> None" "parse_base_seq k oid = Some q"
    using best_base_Some(1)[OF assms(1) Some] by blast
  then have k': "mem_get s' k \<noteq> None" using assms(3) by simp
  then obtain q' where q': "best_base s' oid = Some q'"
    using best_base_None[OF assms(2) _ k'] k(2) by (cases "best_base s' oid") auto
  obtain k2 where k2: "mem_get s' k2 \<noteq> None" "parse_base_seq k2 oid = Some q'"
    using best_base_Some(1)[OF assms(2) q'] by blast
  have "q \<le> q'" by (rule best_base_Some(2)[OF assms(2) q' k' k(2)])
  moreover have "q' \<le> q"
    using best_base_Some(2)[OF assms(1) Some _ k2(2)] k2 assms(3) by simp
  ultimately show ?thesis using Some q' by simp
qed

lemma base_of_cong:
  assumes "mem_wf s" "mem_wf s'"
    and "\<And>k. parse_base_seq k oid \<noteq> None \<Longrightarrow> mem_get s' k = mem_get s k"
  shows "base_of s' oid = base_of s oid"
proof -
  have "best_base s' oid = best_base s oid" by (rule best_base_cong[OF assms])
  then show ?thesis
    using assms(3)[of "base_seq_key oid q" for q]
    by (cases "best_base s oid") (simp_all add: base_of_def key_simps)
qed

lemma parse_log_starts: "parse_log_seq k oid = Some r \<Longrightarrow> starts_with k (log_prefix oid)"
  by (auto simp: parse_log_seq_def strip_prefix_def split: option.splits if_splits)

lemma canonical_log_iff:
  assumes "mem_wf s"
  shows "canonical_log s oid \<longleftrightarrow>
     (\<forall>k r. mem_get s k \<noteq> None \<longrightarrow> parse_log_seq k oid = Some r \<longrightarrow> k = log_key oid r)"
proof
  assume c: "canonical_log s oid"
  show "\<forall>k r. mem_get s k \<noteq> None \<longrightarrow> parse_log_seq k oid = Some r \<longrightarrow> k = log_key oid r"
  proof (intro allI impI)
    fix k r
    assume "mem_get s k \<noteq> None" and r: "parse_log_seq k oid = Some r"
    then have "k \<in> set (mem_list s (log_prefix oid))"
      using parse_log_starts[OF r] by (simp add: set_mem_list[OF assms])
    then show "k = log_key oid r" by (rule canonical_logD[OF c _ r])
  qed
next
  assume "\<forall>k r. mem_get s k \<noteq> None \<longrightarrow> parse_log_seq k oid = Some r \<longrightarrow> k = log_key oid r"
  then have "parse_log_seq k oid = None \<or> k = log_key oid (the (parse_log_seq k oid))"
    if "mem_get s k \<noteq> None" for k
    using that by (cases "parse_log_seq k oid") simp_all
  then show "canonical_log s oid"
    by (simp add: canonical_log_def list_all_iff set_mem_list[OF assms])
qed

lemma prewrite_spec_keys:
  assumes "prewrite_spec s oid txn entry slot now_ms ttl_ms = (r, s')" "mem_wf s"
  shows "mem_wf s'" and "base_of s' oid' = base_of s oid'" and "canonical_log s oid' \<Longrightarrow> canonical_log s' oid'"
proof -
  show wf: "mem_wf s'"
    using assms by (auto simp: prewrite_spec_def Let_def split: option.splits if_splits bool.splits)
  have same: "mem_get s' k = mem_get s k" if "k \<noteq> log_key oid slot" "\<forall>t. k \<noteq> outcome_key t" for k
    using assms(1) that by (auto simp: prewrite_spec_def Let_def split: option.splits if_splits bool.splits)
  show "base_of s' oid' = base_of s oid'"
    by (rule base_of_cong[OF assms(2) wf]) (auto intro!: same simp: key_simps)
  show "canonical_log s' oid'" if "canonical_log s oid'"
  proof -
    have "k = log_key oid' x" if "mem_get s' k \<noteq> None" "parse_log_seq k oid' = Some x" for k x
    proof (cases "k = log_key oid slot")
      case True
      then show ?thesis using that(2) parse_log_other by simp
    next
      case False
      then show ?thesis
        using that same \<open>canonical_log s oid'\<close> canonical_log_iff[OF assms(2)] by (metis option.distinct(1) parse_kinds(3))
    qed
    then show ?thesis using canonical_log_iff[OF wf] by blast
  qed
qed


section \<open>One transaction, end to end\<close>

text \<open>Committing adds the freshly prewritten entry at the end of the run, and only it.\<close>

lemma commit_extends_view:
  assumes v: "log_view s oid base b es q" and wf: "mem_wf s"
    and fresh: "txn_outcome s txn = None" and wrap: "q < q + 1"
    and e: "entry_at s oid (q + 1) = Some e" "e_txn e = txn"
    and alone: "\<forall>r f. r \<noteq> q + 1 \<longrightarrow> entry_at s oid r = Some f \<longrightarrow> e_txn f \<noteq> txn"
    and next_free: "committed_at s oid (q + 2) = None"
    and run: "run_io (commit_txn txn) s = (r, s')"
  shows "r = Inr True \<and> log_view s' oid base b (es @ [e]) (q + 1)"
proof -
  have s': "s' = mem_put (outcome_key txn) [1] s" "r = Inr True"
    using run fresh by (auto simp: run_commit)
  have at: "committed_at s' oid x = (if x = q + 1 then Some e else committed_at s oid x)" for x
    using commit_publishes[OF fresh, of oid x] run e alone
    by (cases "entry_at s oid x") (auto simp: committed_at_def)
  have old: "run (committed_at s' oid) b es q"
  proof -
    have "committed_at s oid (q + 1) = None"
      using v wrap by (simp add: log_view_def ends_at_def)
    then have "committed_at s' oid x = Some f" if "committed_at s oid x = Some f" for x f
      using that by (auto simp: at)
    moreover have "run (committed_at s oid) b es q" using v by (simp add: log_view_def)
    ultimately show ?thesis by (rule run_mono[rotated])
  qed
  have "run (committed_at s' oid) b (es @ [e]) (q + 1)"
    by (rule run_snoc[OF old _ wrap]) (simp add: at)
  moreover have "ends_at (committed_at s' oid) (q + 1)"
    using next_free by (auto simp: ends_at_def at add.assoc)
  moreover have "base_of s' oid = base_of s oid"
    by (rule base_of_cong) (use wf in \<open>auto simp: s' key_simps\<close>)
  ultimately show ?thesis using v s' by (simp add: log_view_def)
qed

lemma prewrite_commit_read:
  assumes wf: "mem_wf s" and canon: "canonical_log s oid" and v: "log_view s oid base b es q"
    and wrap: "q < q + 1" and name: "length txn < 2 ^ 16" "is_utf8 (string_bytes txn)"
    and fresh: "txn_outcome s txn = None"
    and alone: "\<forall>r f. entry_at s oid r = Some f \<longrightarrow> e_txn f \<noteq> txn"
    and next_free: "committed_at s oid (q + 2) = None"
    and pre: "run_io (prewrite oid txn (encode_entry txn born p) q now_ms ttl_ms) s = (Inr (Some slot), s1)"
    and com: "run_io (commit_txn txn) s1 = (r, s2)"
  shows "slot = q + 1 \<and> r = Inr True
    \<and> log_view s2 oid base b (es @ [\<lparr>e_txn = txn, e_born = born, e_payload = p\<rparr>]) (q + 1)
    \<and> fst (run_io (fold_committed oid) s1) = fst (run_io (fold_committed oid) s)
    \<and> fst (run_io (fold_committed oid) s2) =
        res_bind (fold_log base (map e_payload es @ [p])) (\<lambda>img. Inr (img, q + 1))"
proof -
  let ?entry = "encode_entry txn born p" and ?e = "\<lparr>e_txn = txn, e_born = born, e_payload = p\<rparr>"
  have spec: "prewrite_spec s oid txn ?entry (q + 1) now_ms ttl_ms = (Some slot, s1)"
    using pre run_prewrite[OF wf canon v, of txn ?entry q now_ms ttl_ms] by (auto split: prod.splits)
  have free: "committed_at s oid (q + 1) = None" using v wrap by (simp add: log_view_def ends_at_def)
  have dec: "decode_entry ?entry = Some ?e" by (rule decode_encode_entry[OF name])
  have invis: "committed_at s1 = committed_at s"
    using prewrite_spec_invisible[OF free _ _ spec] fresh dec by (auto simp: fun_eq_iff)
  note keys = prewrite_spec_keys[OF spec wf]
  have v1: "log_view s1 oid base b es q" using v keys(2) invis by (simp add: log_view_def)
  have nomine: "\<not> (mem_get s (log_key oid (q + 1)) = Some w \<and> decode_entry w = Some h \<and> e_txn h = txn)" for w h
    using alone[rule_format, of "q + 1" h] by (auto simp: entry_at_def)
  have at: "slot = q + 1" "entry_at s1 oid (q + 1) = Some ?e"
    and rest: "x \<noteq> q + 1 \<longrightarrow> entry_at s1 oid x = entry_at s oid x" "txn_outcome s1 txn = None" for x
    using spec nomine fresh dec
    by (auto simp: prewrite_spec_def Let_def key_simps split: option.splits if_splits bool.splits)
  have ext: "r = Inr True \<and> log_view s2 oid base b (es @ [?e]) (q + 1)"
    by (rule commit_extends_view[OF v1 keys(1) rest(2) wrap at(2) _ _ _ com])
       (use alone rest(1) invis next_free in auto)
  have wf2: "mem_wf s2" and canon2: "canonical_log s2 oid"
  proof -
    have s2: "s2 = mem_put (outcome_key txn) [1] s1" using com rest(2) by (auto simp: run_commit)
    show w: "mem_wf s2" using keys(1) s2 by simp
    have "\<forall>k r. mem_get s2 k \<noteq> None \<longrightarrow> parse_log_seq k oid = Some r \<longrightarrow> k = log_key oid r"
      using keys(3)[OF canon] canonical_log_iff[OF keys(1)] s2 by (simp add: key_simps)
    then show "canonical_log s2 oid" using canonical_log_iff[OF w] by blast
  qed
  show ?thesis
    using at(1) ext run_fold_committed[OF wf canon v] run_fold_committed[OF keys(1) keys(3)[OF canon] v1]
      run_fold_committed[OF wf2 canon2] by auto
qed

end
