(* ===== verification/Log_Safety.thy ===== *)
theory Log_Safety
  imports Log_Spec
begin

text \<open>
  The commit protocol and the log reader under every interleaving with other tasks, with
  requests that fail or whose answers are lost (\<open>sys_steps\<close>): a commit and an abort never both
  succeed, and a reader that runs beside tasks that only add to the log returns a committed
  prefix at least as long as the one there was when it started. The last section is the exact
  opposite for tasks that roll entries back: a schedule of two prewrites in which one deletes the
  other's committed entry.
\<close>

section \<open>A calculus for one program among others\<close>

definition stable :: "(mem \<Rightarrow> mem \<Rightarrow> bool) \<Rightarrow> ('a \<Rightarrow> mem \<Rightarrow> bool) \<Rightarrow> bool" where
  "stable R post \<longleftrightarrow> (\<forall>x s s'. post x s \<longrightarrow> R s s' \<longrightarrow> post x s')"

lemma stable_safe: "transp R \<Longrightarrow> stable R (\<lambda>x t. safe F R Q (f x) t)"
  using safe_stable unfolding stable_def by blast

lemma stable_cases:
  assumes "transp R" "stable R post"
  shows "stable R (\<lambda>r u. case r of Inl e \<Rightarrow> post (Inl e) u | Inr x \<Rightarrow> safe F R post (f x) u)"
  using safe_stable[OF assms(1)] assms(2) by (auto simp: stable_def split: sum.splits simp del: safe.simps)

lemma safe_Done: "stable R post \<Longrightarrow> post x s \<Longrightarrow> safe F R post (Done x) s"
  by (auto simp: stable_def)

lemma safe_try:
  assumes "reflp R" "stable R post"
    and "safe F R (\<lambda>r t. case r of Inl e \<Rightarrow> post (Inl e) t | Inr x \<Rightarrow> safe F R post (f x) t) p s"
  shows "safe F R post (io_try p f) s"
  unfolding io_try_def
  by (rule safe_bind[OF assms(1)], rule safe_conseq[OF assms(3)])
     (use assms(2) in \<open>auto simp: stable_def split: sum.splits\<close>)

text \<open>One request: the answer reflects the store at some moment after the start.\<close>

lemma safe_get:
  assumes "reflp R" "stable R post" "\<And>s' e. F (GetReq k) \<Longrightarrow> R s s' \<Longrightarrow> post (Inl e) s'"
    "\<And>s'. R s s' \<Longrightarrow> post (Inr (mem_get s' k)) s'"
  shows "safe F R post (io_get k) s"
  unfolding io_get_def safe.simps(2)
  by (auto simp: as_blob_def seen_def assms intro!: safe_Done[OF assms(2)] simp del: safe.simps)

lemma safe_list:
  assumes "reflp R" "stable R post" "\<And>s' e. F (ListReq p) \<Longrightarrow> R s s' \<Longrightarrow> post (Inl e) s'"
    "\<And>s'. R s s' \<Longrightarrow> post (Inr (mem_list s' p)) s'"
  shows "safe F R post (io_list p) s"
  unfolding io_list_def safe.simps(2)
  by (auto simp: as_keys_def seen_def assms intro!: safe_Done[OF assms(2)] simp del: safe.simps)

lemma safe_create:
  assumes "reflp R" "stable R post"
    and "\<And>s' e. R s s' \<Longrightarrow> post (Inl e) s' \<and> post (Inl e) (snd (mem_create k v s'))"
    and "\<And>s'. R s s' \<Longrightarrow> post (Inr False) (snd (mem_create k v s'))"
    and "\<And>s'. R s s' \<Longrightarrow> mem_get s' k = None \<Longrightarrow> post (Inr True) (mem_put k v s')"
  shows "safe F R post (io_create k v) s"
proof -
  have sv: "serve (CreateReq k v) s' = (BoolResp (mem_get s' k = None), snd (mem_create k v s'))" for s'
    by (simp add: mem_create_put)
  have t: "snd (mem_create k v s') = mem_put k v s'" if "mem_get s' k = None" for s'
    using that by (simp add: mem_create_put)
  have fin: "post (Inr (mem_get s' k = None)) (snd (mem_create k v s'))" if "R s s'" for s'
    using assms(4,5)[OF that] t by (cases "mem_get s' k") auto
  show ?thesis
    unfolding io_create_def safe.simps(2) sv
    by (auto simp: as_bool_def seen_def assms fin intro!: safe_Done[OF assms(2)] simp del: safe.simps)
qed

section \<open>Outcomes are decided once\<close>

definition is_outcome_key :: "key \<Rightarrow> bool" where
  "is_outcome_key k = starts_with k ''txns/''"

text \<open>Requests that never overwrite or delete a decision; every program of \<open>objlog.rs\<close> is of this kind.\<close>

fun keeps_outcomes :: "req \<Rightarrow> bool" where
  "keeps_outcomes (PutReq k _) = (\<not> is_outcome_key k)"
| "keeps_outcomes (DeleteReq k) = (\<not> is_outcome_key k)"
| "keeps_outcomes (CasReq k _ _) = (\<not> is_outcome_key k)"
| "keeps_outcomes _ = True"

definition decided :: "mem \<Rightarrow> mem \<Rightarrow> bool" where
  "decided s s' \<longleftrightarrow> (\<forall>t b. txn_outcome s t = Some b \<longrightarrow> txn_outcome s' t = Some b)"

lemma decided_preorder: "reflp decided" "transp decided"
  by (auto simp: decided_def reflp_def transp_def)

lemma outcome_is_outcome_key [simp]: "is_outcome_key (outcome_key t)"
  by (simp add: is_outcome_key_def outcome_key_def starts_with_def)

lemma log_not_outcome_key [simp]: "\<not> is_outcome_key (log_key oid q)" "\<not> is_outcome_key (base_seq_key oid q)"
  by (simp_all add: is_outcome_key_def log_key_def base_seq_key_def starts_with_def)

lemma keeps_outcomes_step: "keeps_outcomes q \<Longrightarrow> decided s (snd (serve q s))"
  by (cases q) (auto simp: decided_def txn_outcome_def mem_create_put mem_put_cas_put)

lemma stable_outcome: "stable decided (\<lambda>r s. P r \<longrightarrow> txn_outcome s t = Some b)"
  by (auto simp: stable_def decided_def)

lemma safe_outcome:
  assumes "\<And>s' b. decided s s' \<Longrightarrow> txn_outcome s' t = Some b \<Longrightarrow> post (Inr (Some b)) s'"
    and "\<And>s' r. decided s s' \<Longrightarrow> r = Inr None \<or> (\<exists>e. r = Inl e) \<Longrightarrow> post r s'" and "stable decided post"
  shows "safe F decided post (outcome t) s"
  unfolding outcome_def
proof (rule safe_try[OF decided_preorder(1) assms(3)], rule safe_get[OF decided_preorder(1)])
  show "stable decided (\<lambda>r u. case r of Inl e \<Rightarrow> post (Inl e) u
      | Inr b \<Rightarrow> safe F decided post (ok (map_option (\<lambda>v. nth_opt v 0 = Some 1) b)) u)"
    by (rule stable_cases[OF decided_preorder(2) assms(3)])
next
  fix s' assume r: "decided s s'"
  have "post (Inr (txn_outcome s' t)) s'"
    using assms(1,2) r by (cases "txn_outcome s' t") auto
  then show "case Inr (mem_get s' (outcome_key t)) of Inl e \<Rightarrow> post (Inl e) s'
      | Inr b \<Rightarrow> safe F decided post (ok (map_option (\<lambda>v. nth_opt v 0 = Some 1) b)) s'"
    using assms(3) by (auto simp: txn_outcome_def[symmetric] intro!: safe_Done simp del: safe.simps)
qed (use assms(2) in auto)

lemma decided_create: "decided s (snd (mem_create k v s))"
  by (auto simp: decided_def mem_create_put txn_outcome_def)

lemma safe_committed_value:
  assumes "stable decided post"
    and "\<And>s'. decided s s' \<Longrightarrow> post False s'"
    and "\<And>s'. decided s s' \<Longrightarrow> txn_outcome s' t = Some True \<Longrightarrow> post True s'"
  shows "safe F decided post (committed t) s"
  unfolding committed_def
proof (rule safe_bind[OF decided_preorder(1)], rule safe_outcome)
  fix s' b assume "decided s s'" "txn_outcome s' t = Some b"
  then show "safe F decided post (Done (Inr (Some b) = Inr (Some True))) s'"
    using assms by (cases b) (auto intro!: safe_Done simp del: safe.simps)
next
  fix s' and r :: "bool option result"
  assume "decided s s'" "r = Inr None \<or> (\<exists>e. r = Inl e)"
  then show "safe F decided post (Done (r = Inr (Some True))) s'"
    using assms by (auto intro!: safe_Done simp del: safe.simps)
qed (rule stable_safe[OF decided_preorder(2)])

lemma safe_commit: "safe F decided (\<lambda>r s. r = Inr True \<longrightarrow> txn_outcome s t = Some True) (commit_txn t) s"
  unfolding commit_txn_def
proof (rule safe_try[OF decided_preorder(1) stable_outcome], rule safe_create[OF decided_preorder(1)])
  let ?post = "\<lambda>(r :: bool result) s. r = Inr True \<longrightarrow> txn_outcome s t = Some True"
  let ?f = "\<lambda>won. if won then ok True else io_bind (committed t) (\<lambda>c. ok c)"
  show "stable decided (\<lambda>r u. case r of Inl e \<Rightarrow> ?post (Inl e) u | Inr x \<Rightarrow> safe F decided ?post (?f x) u)"
    by (rule stable_cases[OF decided_preorder(2), where post = ?post, OF stable_outcome])
  have "case Inr False of Inl e \<Rightarrow> ?post (Inl e) u | Inr x \<Rightarrow> safe F decided ?post (?f x) u"
    for u :: mem
    by (auto intro!: safe_bind[OF decided_preorder(1)] safe_committed_value
        stable_safe[OF decided_preorder(2)] safe_Done[OF stable_outcome] simp del: safe.simps)
  then show "case Inr False of Inl e \<Rightarrow> ?post (Inl e) (snd (mem_create (outcome_key t) [1] u))
      | Inr x \<Rightarrow> safe F decided ?post (?f x) (snd (mem_create (outcome_key t) [1] u))" for u :: mem .
  show "case Inr True of Inl e \<Rightarrow> ?post (Inl e) (mem_put (outcome_key t) [1] u)
      | Inr x \<Rightarrow> safe F decided ?post (?f x) (mem_put (outcome_key t) [1] u)" for u :: mem
    by (auto intro!: safe_Done[OF stable_outcome] simp: nth_opt_def simp del: safe.simps)
qed auto

lemma safe_abort: "safe F decided (\<lambda>r s. r = Inr True \<longrightarrow> txn_outcome s t = Some False) (abort_txn t) s"
  unfolding abort_txn_def
proof (rule safe_try[OF decided_preorder(1) stable_outcome], rule safe_create[OF decided_preorder(1)])
  let ?post = "\<lambda>(r :: bool result) s. r = Inr True \<longrightarrow> txn_outcome s t = Some False"
  let ?f = "\<lambda>won. if won then ok True else io_try (outcome t) (\<lambda>o'. ok (o' = Some False))"
  show "stable decided (\<lambda>r u. case r of Inl e \<Rightarrow> ?post (Inl e) u | Inr x \<Rightarrow> safe F decided ?post (?f x) u)"
    by (rule stable_cases[OF decided_preorder(2), where post = ?post, OF stable_outcome])
  have "safe F decided ?post (io_try (outcome t) (\<lambda>o'. ok (o' = Some False))) u" for u
  proof (rule safe_try[OF decided_preorder(1) stable_outcome], rule safe_outcome[OF _ _ stable_cases[OF decided_preorder(2) stable_outcome]])
    fix s' b assume "txn_outcome s' t = Some b"
    then show "case Inr (Some b) of Inl e \<Rightarrow> ?post (Inl e) s'
        | Inr x \<Rightarrow> safe F decided ?post (ok (x = Some False)) s'"
      by (cases b) (auto intro!: safe_Done[OF stable_outcome] simp del: safe.simps)
  qed (auto intro!: safe_Done[OF stable_outcome] simp del: safe.simps)
  then show "case Inr False of Inl e \<Rightarrow> ?post (Inl e) (snd (mem_create (outcome_key t) [0] u))
      | Inr x \<Rightarrow> safe F decided ?post (?f x) (snd (mem_create (outcome_key t) [0] u))" for u :: mem
    by simp
  show "case Inr True of Inl e \<Rightarrow> ?post (Inl e) (mem_put (outcome_key t) [0] u)
      | Inr x \<Rightarrow> safe F decided ?post (?f x) (mem_put (outcome_key t) [0] u)" for u :: mem
    by (auto intro!: safe_Done[OF stable_outcome] simp: nth_opt_def simp del: safe.simps)
qed auto

section \<open>The programs only make such requests\<close>

definition reads_only :: "req \<Rightarrow> bool" where
  "reads_only q \<longleftrightarrow> \<not> mutating q"

lemma reads_only_simps [simp]: "reads_only (GetReq k)" "reads_only (ListReq p)"
  by (simp_all add: reads_only_def)

lemma asks_readers:
  "asks reads_only (outcome t)" "asks reads_only (committed t)" "asks reads_only (read_base oid)"
  "asks reads_only (read_seq oid)"
  unfolding committed_def outcome_def read_base_def read_seq_def
  by (auto simp: asks_ops Let_def intro!: asks_bind asks_try split: option.split)

lemma asks_scans: "asks reads_only (seq_scan oid b ks q)" "asks reads_only (fold_scan oid b ks ps q)"
proof -
  show "asks reads_only (seq_scan oid b ks q)"
    by (induction oid b ks q rule: seq_scan.induct)
       (auto simp: asks_ops intro!: asks_try asks_bind asks_readers split: option.split)
  show "asks reads_only (fold_scan oid b ks ps q)"
    by (induction oid b ks ps q rule: fold_scan.induct)
       (auto simp: asks_ops intro!: asks_try asks_bind asks_readers split: option.split)
qed

lemma asks_log_reads: "asks reads_only (committed_seq oid)" "asks reads_only (fold_committed oid)"
proof -
  have "asks reads_only (committed_seq_tries n oid)" for n
    by (induction n) (auto simp: asks_ops intro!: asks_try asks_readers asks_scans)
  then show "asks reads_only (committed_seq oid)" by (simp add: committed_seq_def)
  have "asks reads_only (fold_committed_tries n oid)" for n
    by (induction n) (auto simp: asks_ops intro!: asks_try asks_readers asks_scans)
  then show "asks reads_only (fold_committed oid)" by (simp add: fold_committed_def)
qed

lemma reads_only_keeps: "asks reads_only p \<Longrightarrow> asks keeps_outcomes p"
  by (erule asks_mono) (case_tac q; simp add: reads_only_def)

lemmas asks_reads_keep = asks_readers[THEN reads_only_keeps] asks_log_reads[THEN reads_only_keeps]

lemma asks_commit: "asks keeps_outcomes (commit_txn t)" "asks keeps_outcomes (abort_txn t)"
  unfolding commit_txn_def abort_txn_def
  by (auto simp: asks_ops intro!: asks_try asks_bind asks_reads_keep)

lemma asks_delete_if_txn: "\<not> is_outcome_key k \<Longrightarrow> asks keeps_outcomes (delete_if_txn k t)"
  unfolding delete_if_txn_def
  by (auto simp: asks_ops intro!: asks_try split: option.split)

lemma asks_prewrite: "asks keeps_outcomes (prewrite oid txn entry expected now_ms ttl_ms)"
proof -
  have "asks keeps_outcomes (prewrite_tries n oid txn entry slot now_ms ttl_ms)" for n slot
    by (induction n)
       (auto simp: prewrite_tries.simps asks_ops Let_def
         intro!: asks_try asks_reads_keep asks_commit asks_delete_if_txn split: option.split bool.split)
  then show ?thesis by (auto simp: prewrite_def intro!: asks_try asks_reads_keep)
qed

lemma asks_others:
  "asks keeps_outcomes (clear_entry oid q t)" "asks keeps_outcomes (compact_log oid keep)"
  unfolding clear_entry_def compact_log_def
  by (auto simp: asks_ops intro!: asks_bind asks_try asks_delete_if_txn asks_reads_keep)

section \<open>Agreement\<close>

text \<open>
  In any system of tasks that never overwrite a decision, what a finished commit or abort
  reports is the decision, then and for ever.
\<close>

lemma decision_reported:
  assumes "sys_steps F (s, ps) (s', ps')" "\<forall>p \<in> set ps. asks keeps_outcomes p"
    and "i < length ps" "ps' ! i = Done (Inr True)"
    and "\<And>s. safe F decided (\<lambda>r s. r = Inr True \<longrightarrow> txn_outcome s t = Some b) (ps ! i) s"
  shows "txn_outcome s' t = Some b"
  using sys_steps_task[OF decided_preorder keeps_outcomes_step assms(1,2,3,5,4)] by simp

lemma commit_abort_agreement:
  assumes "sys_steps F (s, ps) (s', ps')" "\<forall>p \<in> set ps. asks keeps_outcomes p"
    and "i < length ps" "ps ! i = commit_txn t" "ps' ! i = Done (Inr True)"
  shows "txn_outcome s' t = Some True \<and>
    (\<forall>j < length ps. ps ! j = abort_txn t \<longrightarrow> ps' ! j \<noteq> Done (Inr True))"
proof -
  have t: "txn_outcome s' t = Some True"
    by (rule decision_reported[OF assms(1,2,3,5)]) (simp only: assms(4) safe_commit)
  moreover have "ps' ! j \<noteq> Done (Inr True)" if "j < length ps" "ps ! j = abort_txn t" for j
  proof
    assume "ps' ! j = Done (Inr True)"
    from decision_reported[OF assms(1,2) that(1) this] have "txn_outcome s' t = Some False"
      by (simp only: that(2) safe_abort)
    then show False using t by simp
  qed
  ultimately show ?thesis by blast
qed


section \<open>Reading beside writers that only add\<close>

text \<open>
  For one object: requests that create canonical keys, and that overwrite or delete nothing of the
  log. \<open>grows\<close> is the effect of such requests on the store.
\<close>

definition log_protected :: "string \<Rightarrow> key \<Rightarrow> bool" where
  "log_protected oid k \<longleftrightarrow>
     parse_log_seq k oid \<noteq> None \<or> parse_base_seq k oid \<noteq> None \<or> is_outcome_key k"

definition canonical_key :: "string \<Rightarrow> key \<Rightarrow> bool" where
  "canonical_key oid k \<longleftrightarrow>
     (parse_log_seq k oid = None \<or> k = log_key oid (the (parse_log_seq k oid)))
     \<and> (parse_base_seq k oid = None \<or> k = base_seq_key oid (the (parse_base_seq k oid)))"

fun additive :: "string \<Rightarrow> req \<Rightarrow> bool" where
  "additive oid (PutReq k _) = (\<not> log_protected oid k)"
| "additive oid (DeleteReq k) = (\<not> log_protected oid k)"
| "additive oid (CasReq k _ _) = (\<not> log_protected oid k)"
| "additive oid (CreateReq k _) = canonical_key oid k"
| "additive oid _ = True"

lemma reads_only_additive: "asks reads_only p \<Longrightarrow> asks (additive oid) p"
  by (erule asks_mono) (case_tac q; simp add: reads_only_def)

definition all_canonical :: "string \<Rightarrow> mem \<Rightarrow> bool" where
  "all_canonical oid s \<longleftrightarrow> list_all (canonical_key oid) (map fst (blobs s))"

definition grows :: "string \<Rightarrow> mem \<Rightarrow> mem \<Rightarrow> bool" where
  "grows oid s s' \<longleftrightarrow>
     (mem_wf s \<and> all_canonical oid s \<longrightarrow> mem_wf s' \<and> all_canonical oid s')
     \<and> (\<forall>k v. log_protected oid k \<longrightarrow> mem_get s k = Some v \<longrightarrow> mem_get s' k = Some v)"

lemma grows_preorder: "reflp (grows oid)" "transp (grows oid)"
  by (auto simp: grows_def reflp_def transp_def)

lemma all_canonical_iff: "all_canonical oid s \<longleftrightarrow> (\<forall>k. mem_get s k \<noteq> None \<longrightarrow> canonical_key oid k)"
  using dom_bt_keys[of "blobs s"] by (auto simp: all_canonical_def list_all_iff mem_get_def)

lemma unprotected_canonical: "\<not> log_protected oid k \<Longrightarrow> canonical_key oid k"
  by (auto simp: log_protected_def canonical_key_def)

lemma additive_grows: "additive oid q \<Longrightarrow> grows oid s (snd (serve q s))"
  by (cases q)
     (auto simp: grows_def all_canonical_iff mem_create_put mem_put_cas_put dest: unprotected_canonical)

lemma all_canonical_log:
  assumes "mem_wf s" "all_canonical oid s"
  shows "canonical_log s oid" "canonical_base s oid"
  using assms set_mem_list[OF assms(1)]
  by (auto simp: canonical_log_def canonical_base_def list_all_iff all_canonical_iff canonical_key_def)

lemma protected_keys [simp]:
  "log_protected oid (log_key oid q)" "log_protected oid (base_seq_key oid q)" "log_protected oid (outcome_key t)"
  by (simp_all add: log_protected_def key_simps)

lemma grows_committed:
  assumes "grows oid s s'" "committed_at s oid q = Some e"
  shows "committed_at s' oid q = Some e"
proof -
  have keep: "mem_get s' k = Some v" if "log_protected oid k" "mem_get s k = Some v" for k v
    using assms(1) that by (simp add: grows_def)
  obtain v where v: "mem_get s (log_key oid q) = Some v" "decode_entry v = Some e"
    "txn_outcome s (e_txn e) = Some True"
    using assms(2) by (auto simp: committed_at_def entry_at_def bind_eq_Some_conv split: option.splits if_splits)
  then show ?thesis
    using keep[OF _ v(1)] keep[of "outcome_key (e_txn e)"]
    by (auto simp: committed_at_def entry_at_def txn_outcome_def)
qed

text \<open>Deciding a transaction and compacting any object are additive; so are the reads.\<close>

lemma canonical_own_keys [simp]: "canonical_key oid (outcome_key t)" "canonical_key oid (base_seq_key oid' q)"
proof -
  show "canonical_key oid (outcome_key t)" by (simp add: canonical_key_def key_simps)
  have "base_seq_key oid' q = base_seq_key oid r" if "parse_base_seq (base_seq_key oid' q) oid = Some r" for r
    using parse_base_other[OF that] .
  then show "canonical_key oid (base_seq_key oid' q)"
    by (cases "parse_base_seq (base_seq_key oid' q) oid") (auto simp: canonical_key_def key_simps)
qed

lemma asks_additive:
  "asks (additive oid) (commit_txn t)" "asks (additive oid) (abort_txn t)" "asks (additive oid) (compact_log oid' keep)"
  "asks (additive oid) (fold_committed oid')"
  unfolding commit_txn_def abort_txn_def compact_log_def
  by (auto simp: asks_ops intro!: asks_try asks_bind asks_readers[THEN reads_only_additive]
      asks_log_reads[THEN reads_only_additive])

text \<open>What a read of the base returns beside such writers.\<close>

definition base_ok :: "string \<Rightarrow> bytes \<Rightarrow> u64 \<Rightarrow> mem \<Rightarrow> bool" where
  "base_ok oid img b s \<longleftrightarrow> mem_get s (base_seq_key oid b) = Some img \<or> b = 0 \<and> img = []"

lemma base_ok_grows: "grows oid s s' \<Longrightarrow> base_ok oid img b s \<Longrightarrow> base_ok oid img b s'"
  by (auto simp: grows_def base_ok_def)

lemma best_base_grows:
  assumes "mem_wf s" "mem_wf s'" "grows oid s s'"
  shows "case best_base s oid of None \<Rightarrow> True | Some b \<Rightarrow> (\<exists>b'. best_base s' oid = Some b' \<and> b \<le> b')"
proof (cases "best_base s oid")
  case (Some b)
  obtain k where k: "mem_get s k \<noteq> None" "parse_base_seq k oid = Some b"
    using best_base_Some(1)[OF assms(1) Some] by blast
  then have k': "mem_get s' k \<noteq> None" using assms(3) by (auto simp: grows_def log_protected_def)
  then obtain b' where b': "best_base s' oid = Some b'"
    using best_base_None[OF assms(2) _ k'] k(2) by (cases "best_base s' oid") auto
  then show ?thesis using Some best_base_Some(2)[OF assms(2) b' k' k(2)] by simp
qed simp

lemma best_base_present:
  assumes "mem_wf s" "all_canonical oid s" "best_base s oid = Some b"
  shows "mem_get s (base_seq_key oid b) \<noteq> None"
  using best_base_Some(1)[OF assms(1,3)] assms(2) by (auto simp: all_canonical_iff canonical_key_def)

lemma safe_read_base:
  assumes good: "mem_wf s" "all_canonical oid s" and st: "stable (grows oid) post"
    and faults: "\<And>q. F q \<Longrightarrow> mutating q"
    and post: "\<And>u img b. grows oid s u \<Longrightarrow> base_ok oid img b u \<Longrightarrow> snd (base_of s oid) \<le> b \<Longrightarrow> post (Inr (img, b)) u"
  shows "safe F (grows oid) post (read_base oid) s"
  unfolding read_base_def Let_def
proof (rule safe_try[OF grows_preorder(1) st], rule safe_list[OF grows_preorder(1) stable_cases[OF grows_preorder(2) st]])
  fix u assume g: "grows oid s u"
  then have u: "mem_wf u" "all_canonical oid u" using good by (auto simp: grows_def)
  have best: "foldl (\<lambda>best k. case parse_base_seq k oid of None \<Rightarrow> best
      | Some s \<Rightarrow> Some (case best of None \<Rightarrow> s | Some b \<Rightarrow> max b s)) None (mem_list u (base_prefix oid))
      = best_base u oid"
    by (auto simp: best_fold best_base_def split: list.splits)
  have mono: "case best_base s oid of None \<Rightarrow> True | Some b \<Rightarrow> (\<exists>b'. best_base u oid = Some b' \<and> b \<le> b')"
    by (rule best_base_grows[OF good(1) u(1) g])
  show "case Inr (mem_list u (base_prefix oid)) of Inl e \<Rightarrow> post (Inl e) u
    | Inr ks \<Rightarrow> safe F (grows oid) post
        (case foldl (\<lambda>best k. case parse_base_seq k oid of None \<Rightarrow> best
            | Some s \<Rightarrow> Some (case best of None \<Rightarrow> s | Some b \<Rightarrow> max b s)) None ks of
           None \<Rightarrow> ok ([], 0)
         | Some seq \<Rightarrow> io_try (io_get (base_seq_key oid seq))
             (\<lambda>img. ok (case img of None \<Rightarrow> [] | Some b \<Rightarrow> b, seq))) u"
  proof (cases "best_base u oid")
    case None
    then have "snd (base_of s oid) = 0"
      using mono by (auto simp: base_of_def split: option.splits)
    then have "post (Inr ([], 0)) u" using post[OF g] by (simp add: base_ok_def)
    then show ?thesis using None best by (auto intro: safe_Done[OF st] simp del: safe.simps)
  next
    case (Some b)
    have low: "snd (base_of s oid) \<le> b"
      using mono Some by (auto simp: base_of_def split: option.splits)
    obtain img where img: "mem_get u (base_seq_key oid b) = Some img"
      using best_base_present[OF u Some] by blast
    have "safe F (grows oid) post (io_try (io_get (base_seq_key oid b))
             (\<lambda>img. ok (case img of None \<Rightarrow> [] | Some b \<Rightarrow> b, b))) u"
    proof (rule safe_try[OF grows_preorder(1) st], rule safe_get[OF grows_preorder(1) stable_cases[OF grows_preorder(2) st]])
      fix t assume t: "grows oid u t"
      then have "mem_get t (base_seq_key oid b) = Some img" using img by (simp add: grows_def)
      moreover have "post (Inr (img, b)) t"
        using post[of t img b] transpD[OF grows_preorder(2) g t] low calculation by (simp add: base_ok_def)
      ultimately show "case Inr (mem_get t (base_seq_key oid b)) of Inl e \<Rightarrow> post (Inl e) t
          | Inr img \<Rightarrow> safe F (grows oid) post (ok (case img of None \<Rightarrow> [] | Some b \<Rightarrow> b, b)) t"
        by (auto intro: safe_Done[OF st] simp del: safe.simps)
    qed (use faults in force)
    then show ?thesis using Some best by simp
  qed
qed (use faults in force)


text \<open>
  Reading an outcome beside such writers: \<open>True\<close> only for a committed transaction, and \<open>True\<close> for one
  that was committed before, when reads do not fail.
\<close>

lemma safe_committed_grows:
  assumes st: "stable (grows oid) post" and faults: "\<And>q. F q \<Longrightarrow> mutating q"
    and post: "\<And>u. grows oid s u \<Longrightarrow> post (txn_outcome u t = Some True) u"
  shows "safe F (grows oid) post (committed t) s"
  unfolding committed_def outcome_def
proof (rule safe_bind[OF grows_preorder(1)],
    rule safe_try[OF grows_preorder(1) stable_safe[OF grows_preorder(2)]],
    rule safe_get[OF grows_preorder(1) stable_cases[OF grows_preorder(2) stable_safe[OF grows_preorder(2)]]])
  fix u assume g: "grows oid s u"
  have "post (map_option (\<lambda>v. nth_opt v 0 = Some 1) (mem_get u (outcome_key t)) = Some True) u"
    using post[OF g] by (simp add: txn_outcome_def)
  then have p: "safe F (grows oid) post
      (Done (Inr (map_option (\<lambda>v. nth_opt v 0 = Some 1) (mem_get u (outcome_key t))) = (Inr (Some True) :: bool option result))) u"
    by (auto intro: safe_Done[OF st] simp del: safe.simps)
  show "case Inr (mem_get u (outcome_key t)) of Inl e \<Rightarrow> safe F (grows oid) post (Done (Inl e = Inr (Some True))) u
      | Inr b \<Rightarrow> safe F (grows oid)
          (\<lambda>x. safe F (grows oid) post (Done (x = Inr (Some True)))) (ok (map_option (\<lambda>v. nth_opt v 0 = Some 1) b)) u"
    unfolding sum.case by (rule safe_Done, rule stable_safe[OF grows_preorder(2)], rule p)
qed (use faults in force)

lemma safe_fold_scan:
  assumes st: "stable (grows oid) post" and faults: "\<And>q. F q \<Longrightarrow> mutating q"
    and "grows oid s u"
    and "sorted_wrt (<) (List.map_filter (\<lambda>k. parse_log_seq k oid) ks)"
    and "\<And>k r. k \<in> set ks \<Longrightarrow> parse_log_seq k oid = Some r \<Longrightarrow> k = log_key oid r \<and> (r \<le> b \<or> q < r)"
    and "\<And>r. q < r \<Longrightarrow> committed_at s oid r \<noteq> None \<Longrightarrow> log_key oid r \<in> set ks"
    and "b \<le> q"
    and post: "\<And>v es q'. grows oid u v \<Longrightarrow> run (committed_at v oid) q es q' \<Longrightarrow>
      (\<forall>x. (\<forall>y. q < y \<and> y \<le> x \<longrightarrow> committed_at s oid y \<noteq> None) \<longrightarrow> x \<le> q') \<Longrightarrow>
      post (Inr (ps @ map e_payload es, q')) v"
  shows "safe F (grows oid) post (fold_scan oid b ks ps q) u"
  using assms(3-)
proof (induction ks arbitrary: ps q u)
  case Nil
  have "x \<le> q" if "\<forall>y. q < y \<and> y \<le> x \<longrightarrow> committed_at s oid y \<noteq> None" for x
    using that[rule_format, of x] Nil.prems(4)[of x] by (cases "q < x") auto
  then have "post (Inr (ps, q)) u" using Nil.prems(6)[of u "[]" q] reflpD[OF grows_preorder(1)] by (auto intro: run.intros)
  then show ?case by (auto intro: safe_Done[OF st] simp del: safe.simps)
next
  case (Cons k ks)
  have srt: "sorted_wrt (<) (List.map_filter (\<lambda>k. parse_log_seq k oid) ks)"
    using Cons.prems(2) by (auto simp: List.map_filter_simps split: option.splits)
  have stop: "post (Inr (ps, q)) v"
    if "grows oid u v" "q < q + 1 \<Longrightarrow> committed_at s oid (q + 1) = None" for v
  proof -
    have "x \<le> q" if "\<forall>y. q < y \<and> y \<le> x \<longrightarrow> committed_at s oid y \<noteq> None" for x
    proof (rule ccontr)
      assume "\<not> x \<le> q"
      then have "q < q + 1" "q + 1 \<le> x" using inc_le[of q x] word_less_succ[of q x] by auto
      then show False using that \<open>q < q + 1 \<Longrightarrow> committed_at s oid (q + 1) = None\<close> by auto
    qed
    then show ?thesis using Cons.prems(6)[of v "[]" q] \<open>grows oid u v\<close> by (auto intro: run.intros)
  qed
  show ?case
  proof (cases "parse_log_seq k oid")
    case None
    have keep: "log_key oid r \<in> set ks" if "q < r" "committed_at s oid r \<noteq> None" for r
      using Cons.prems(4)[OF that] None parse_log_key by auto
    have "safe F (grows oid) post (fold_scan oid b ks ps q) u"
      by (rule Cons.IH[OF Cons.prems(1) srt _ keep Cons.prems(5,6)]) (use Cons.prems(3) in auto)
    then show ?thesis using None by simp
  next
    case (Some r)
    have k: "k = log_key oid r" "r \<le> b \<or> q < r" using Cons.prems(3)[of k r] Some by auto
    have above: "r < r'" if "k' \<in> set ks" "parse_log_seq k' oid = Some r'" for k' r'
      using Cons.prems(2) that Some by (auto simp: List.map_filter_simps set_map_filter)
    consider "r \<le> b" | "q < r" "r \<noteq> q + 1" | "q < r" "r = q + 1" using k(2) by auto
    then show ?thesis
    proof cases
      case 1
      have keep: "log_key oid r' \<in> set ks" if "q < r'" "committed_at s oid r' \<noteq> None" for r'
        using Cons.prems(4)[OF that] k(1) 1 that(1) Cons.prems(5) by (auto simp: key_simps)
      have "safe F (grows oid) post (fold_scan oid b ks ps q) u"
        by (rule Cons.IH[OF Cons.prems(1) srt _ keep Cons.prems(5,6)]) (use Cons.prems(3) in auto)
      then show ?thesis using Some 1 by simp
    next
      case 2
      have "committed_at s oid (q + 1) = None" if "q < q + 1"
      proof (rule ccontr)
        assume "committed_at s oid (q + 1) \<noteq> None"
        then have "log_key oid (q + 1) \<in> set (k # ks)" using Cons.prems(4) that by blast
        then have "r \<le> q + 1" using k(1) above[OF _ parse_log_key, of "q + 1"] by (auto simp: key_simps less_imp_le)
        then show False using 2 inc_le[of q r] by auto
      qed
      then have "post (Inr (ps, q)) u" using stop reflpD[OF grows_preorder(1)] by blast
      then show ?thesis using 2 Some Cons.prems(5) by (auto intro: safe_Done[OF st] simp del: safe.simps)
    next
      case 3
      have nb: "\<not> r \<le> b" using 3 Cons.prems(5) by auto
      have next_scan: "safe F (grows oid) post (fold_scan oid b ks (ps @ [e_payload e]) r) v"
        if v: "grows oid u v" and e: "committed_at v oid r = Some e" for v e
      proof (rule Cons.IH[OF _ srt])
        show "grows oid s v" by (rule transpD[OF grows_preorder(2) Cons.prems(1) v])
        show "log_key oid r' \<in> set ks" if "r < r'" "committed_at s oid r' \<noteq> None" for r'
          using Cons.prems(4)[of r'] that 3(1) k(1) by (fastforce simp: key_simps)
        show "k' = log_key oid r' \<and> (r' \<le> b \<or> r < r')"
          if "k' \<in> set ks" "parse_log_seq k' oid = Some r'" for k' r'
          using Cons.prems(3)[of k' r'] that above by auto
        show "b \<le> r" using 3(1) Cons.prems(5) by simp
        fix w es q'
        assume w: "grows oid v w" "run (committed_at w oid) r es q'"
          and low: "\<forall>x. (\<forall>y. r < y \<and> y \<le> x \<longrightarrow> committed_at s oid y \<noteq> None) \<longrightarrow> x \<le> q'"
        have "committed_at w oid r = Some e" by (rule grows_committed[OF w(1) e])
        then have "run (committed_at w oid) q (e # es) q'"
          using w(2) 3 by (auto intro: run.intros)
        moreover have "x \<le> q'" if "\<forall>y. q < y \<and> y \<le> x \<longrightarrow> committed_at s oid y \<noteq> None" for x
          using low that 3(1) by (meson order_less_trans)
        moreover have "grows oid u w" by (rule transpD[OF grows_preorder(2) v w(1)])
        ultimately show "post (Inr ((ps @ [e_payload e]) @ map e_payload es, q')) w"
          using Cons.prems(6)[of w "e # es" q'] by simp
      qed
      have scan: "fold_scan oid b (k # ks) ps q =
        io_try (io_get k) (\<lambda>b'. case b' of None \<Rightarrow> ok (ps, q)
          | Some b' \<Rightarrow> (case decode_entry b' of None \<Rightarrow> ok (ps, q)
            | Some entry \<Rightarrow> io_bind (committed (e_txn entry)) (\<lambda>c.
                if \<not> c then ok (ps, q) else fold_scan oid b ks (ps @ [e_payload entry]) r)))"
        using Some nb by (simp add: 3(2)[symmetric])
      have absent: "safe F (grows oid) post (ok (ps, q)) v"
        if "grows oid u v" "committed_at s oid r = None" for v
        using stop[OF that(1)] that(2) 3(2) by (auto intro: safe_Done[OF st] simp del: safe.simps)
      show ?thesis unfolding scan
      proof (rule safe_try[OF grows_preorder(1) st], rule safe_get[OF grows_preorder(1) stable_cases[OF grows_preorder(2) st]])
        fix v assume v: "grows oid u v"
        have sv: "grows oid s v" by (rule transpD[OF grows_preorder(2) Cons.prems(1) v])
        have none: "committed_at s oid r = None" if "Option.bind (mem_get v k) decode_entry = None"
          using grows_committed[OF sv, of r] that k(1)
          by (cases "committed_at s oid r") (auto simp: committed_at_def[of v] entry_at_def)
        show "case Inr (mem_get v k) of Inl e \<Rightarrow> post (Inl e) v
          | Inr x \<Rightarrow> safe F (grows oid) post (case x of None \<Rightarrow> ok (ps, q)
            | Some b' \<Rightarrow> (case decode_entry b' of None \<Rightarrow> ok (ps, q)
              | Some entry \<Rightarrow> io_bind (committed (e_txn entry)) (\<lambda>c.
                  if \<not> c then ok (ps, q) else fold_scan oid b ks (ps @ [e_payload entry]) r))) v"
        proof (cases "Option.bind (mem_get v k) decode_entry")
          case None
          then show ?thesis using absent[OF v none] by (auto split: option.split simp del: safe.simps)
        next
          case (Some e)
          then obtain bs where bs: "mem_get v k = Some bs" "decode_entry bs = Some e"
            by (auto simp: bind_eq_Some_conv)
          have "safe F (grows oid) post (io_bind (committed (e_txn e)) (\<lambda>c.
              if \<not> c then ok (ps, q) else fold_scan oid b ks (ps @ [e_payload e]) r)) v"
          proof (rule safe_bind[OF grows_preorder(1)], rule safe_committed_grows[OF stable_safe[OF grows_preorder(2)] faults])
            fix w assume w: "grows oid v w"
            have uw: "grows oid u w" by (rule transpD[OF grows_preorder(2) v w])
            have get: "mem_get w k = Some bs"
              using w bs(1) k(1) by (simp add: grows_def)
            then have at: "committed_at w oid r = (if txn_outcome w (e_txn e) = Some True then Some e else None)"
              using bs(2) k(1) by (simp add: committed_at_def entry_at_def)
            show "safe F (grows oid) post (if \<not> (txn_outcome w (e_txn e) = Some True) then ok (ps, q)
                else fold_scan oid b ks (ps @ [e_payload e]) r) w"
            proof (cases "txn_outcome w (e_txn e) = Some True")
              case True
              then show ?thesis using next_scan[OF uw] at by simp
            next
              case False
              then have "committed_at s oid r = None"
                using grows_committed[OF transpD[OF grows_preorder(2) sv w], of r] at
                by (cases "committed_at s oid r") auto
              then show ?thesis using absent[OF uw] False by simp
            qed
          qed
          then show ?thesis using bs by simp
        qed
      qed (use faults in force)
    qed
  qed
qed


text \<open>
  What a concurrent read promises: the image is the fold of a base and of the committed run
  above it up to the number returned, and that number is not below the end of any view the
  store had when the read started.
\<close>

definition read_ok :: "string \<Rightarrow> mem \<Rightarrow> (bytes \<times> u64) result \<Rightarrow> mem \<Rightarrow> bool" where
  "read_ok oid s res u \<longleftrightarrow> (case res of Inl _ \<Rightarrow> True | Inr (img, q) \<Rightarrow>
     (\<exists>base b es. base_ok oid base b u \<and> run (committed_at u oid) b es q
        \<and> fold_log base (map e_payload es) = Inr img)
     \<and> (\<forall>base b es q0. log_view s oid base b es q0 \<longrightarrow> q0 \<le> q))"

lemma stable_read_ok: "stable (grows oid) (read_ok oid s)"
  unfolding stable_def
proof (intro allI impI)
  fix res u u' assume r: "read_ok oid s res u" and g: "grows oid u u'"
  have "run (committed_at u' oid) b es q" if "run (committed_at u oid) b es q" for b es q
    using run_mono[OF that grows_committed[OF g]] .
  then show "read_ok oid s res u'"
    using r base_ok_grows[OF g] by (auto simp: read_ok_def split: sum.splits) blast
qed

lemma run_all: "run f a es q \<Longrightarrow> a < y \<Longrightarrow> y \<le> q \<Longrightarrow> f y \<noteq> None"
proof (induction rule: run.induct)
  case (run_Cons f a e es q)
  then show ?case using inc_le[of a y] by (cases "y = a + 1") auto
qed simp

lemma safe_fold_committed_tries:
  assumes good: "mem_wf s" "all_canonical oid s" and faults: "\<And>q. F q \<Longrightarrow> mutating q" and "grows oid s u"
  shows "safe F (grows oid) (read_ok oid s) (fold_committed_tries n oid) u"
  using assms(4)
proof (induction n arbitrary: u)
  case 0
  have "read_ok oid s (Inl ''fold_committed kept racing compaction'') u" by (simp add: read_ok_def)
  then show ?case by (auto intro: safe_Done[OF stable_read_ok] simp del: safe.simps)
next
  case (Suc n)
  note st = stable_cases[OF grows_preorder(2) stable_read_ok]
  note pre = grows_preorder(1) and trans = transpD[OF grows_preorder(2)]
  have mono: "snd (base_of s oid) \<le> snd (base_of u oid)"
    using best_base_grows[OF good(1) _ Suc.prems] Suc.prems good
    by (auto simp: grows_def base_of_def split: option.splits)
  have goodu: "mem_wf u" "all_canonical oid u" using good Suc.prems by (auto simp: grows_def)
  show ?case unfolding fold_committed_tries.simps
  proof (rule safe_try[OF pre stable_read_ok], rule safe_read_base[OF goodu st faults])
    fix v base b
    assume v: "grows oid u v" and base: "base_ok oid base b v" and low: "snd (base_of u oid) \<le> b"
    have sv: "grows oid s v" by (rule trans[OF Suc.prems v])
    have goodv: "mem_wf v" "all_canonical oid v" using good sv by (auto simp: grows_def)
    have "safe F (grows oid) (read_ok oid s)
       (io_try (io_list (log_prefix oid)) (\<lambda>keys. io_try (fold_scan oid b (sort keys) [] b) (\<lambda>(payloads, seq).
          io_try (read_base oid) (\<lambda>(_, base_seq_now). if seq < base_seq_now then fold_committed_tries n oid
            else Done (res_bind (fold_log base payloads) (\<lambda>img. Inr (img, seq))))))) v"
    proof (rule safe_try[OF pre stable_read_ok], rule safe_list[OF pre st])
      fix w assume w: "grows oid v w"
      have sw: "grows oid s w" by (rule trans[OF sv w])
      have goodw: "mem_wf w" "all_canonical oid w" using good sw by (auto simp: grows_def)
      let ?ks = "mem_list w (log_prefix oid)"
      have srt: "sort ?ks = ?ks"
        using mem_list_sorted[OF goodw(1)] strict_sorted_imp_sorted sorted_sort_id by blast
      have canon: "k = log_key oid r" if "k \<in> set ?ks" "parse_log_seq k oid = Some r" for k r
        using canonical_logD[OF all_canonical_log(1)[OF goodw] that] .
      have ordered: "sorted_wrt (<) (List.map_filter (\<lambda>k. parse_log_seq k oid) ?ks)"
        by (rule sorted_map_filter[OF mem_list_sorted[OF goodw(1)] canon log_key_less])
      have listed: "log_key oid r \<in> set ?ks" if "committed_at s oid r \<noteq> None" for r
      proof -
        have "committed_at w oid r \<noteq> None" using that grows_committed[OF sw] by (cases "committed_at s oid r") auto
        then have "mem_get w (log_key oid r) \<noteq> None"
          by (auto simp: committed_at_def entry_at_def bind_eq_Some_conv split: option.splits)
        then show ?thesis by (simp add: set_mem_list[OF goodw(1)] log_key_prefix)
      qed
      have "safe F (grows oid) (read_ok oid s)
        (io_try (fold_scan oid b ?ks [] b) (\<lambda>(payloads, seq).
          io_try (read_base oid) (\<lambda>(_, base_seq_now). if seq < base_seq_now then fold_committed_tries n oid
            else Done (res_bind (fold_log base payloads) (\<lambda>img. Inr (img, seq)))))) w"
      proof (rule safe_try[OF pre stable_read_ok], rule safe_fold_scan[OF st faults sw ordered])
        fix x es q'
        assume x: "grows oid w x" and r: "run (committed_at x oid) b es q'"
          and lowq: "\<forall>z. (\<forall>y. b < y \<and> y \<le> z \<longrightarrow> committed_at s oid y \<noteq> None) \<longrightarrow> z \<le> q'"
        have vx: "grows oid v x" by (rule trans[OF w x])
        have goodx: "mem_wf x" "all_canonical oid x" using goodv vx by (auto simp: grows_def)
        have reach: "q0 \<le> q'" if "log_view s oid base0 b0 es0 q0" for base0 b0 es0 q0
        proof (cases "q0 \<le> b")
          case True
          then show ?thesis using run_le[OF r] by simp
        next
          case False
          have "b0 \<le> b" "run (committed_at s oid) b0 es0 q0"
            using that mono low by (auto simp: log_view_def)
          then have "committed_at s oid y \<noteq> None" if "b < y" "y \<le> q0" for y
            using run_all[of "committed_at s oid" b0 es0 q0 y] that by auto
          then show ?thesis using lowq by blast
        qed
        have fin: "read_ok oid s (res_bind (fold_log base (map e_payload es)) (\<lambda>img. Inr (img, q'))) y" if "grows oid x y" for y
        proof -
          have "run (committed_at y oid) b es q'" by (rule run_mono[OF r grows_committed[OF that]])
          moreover have "base_ok oid base b y" by (rule base_ok_grows[OF trans[OF vx that] base])
          ultimately show ?thesis
            using reach by (cases "fold_log base (map e_payload es)") (auto simp: read_ok_def)
        qed
        have "safe F (grows oid) (read_ok oid s) (io_try (read_base oid) (\<lambda>(_, base_seq_now).
            if q' < base_seq_now then fold_committed_tries n oid
            else Done (res_bind (fold_log base (map e_payload es)) (\<lambda>img. Inr (img, q'))))) x"
        proof (rule safe_try[OF pre stable_read_ok], rule safe_read_base[OF goodx st faults])
          fix y img b' assume y: "grows oid x y"
          have "safe F (grows oid) (read_ok oid s) (fold_committed_tries n oid) y"
            by (rule Suc.IH) (rule trans[OF sw trans[OF x y]])
          moreover have "safe F (grows oid) (read_ok oid s)
              (Done (res_bind (fold_log base (map e_payload es)) (\<lambda>img. Inr (img, q')))) y"
            by (rule safe_Done[OF stable_read_ok fin[OF y]])
          ultimately show "case Inr (img, b') of Inl e \<Rightarrow> read_ok oid s (Inl e) y
            | Inr x \<Rightarrow> safe F (grows oid) (read_ok oid s) (case x of (_, base_seq_now) \<Rightarrow>
                if q' < base_seq_now then fold_committed_tries n oid
                else Done (res_bind (fold_log base (map e_payload es)) (\<lambda>img. Inr (img, q')))) y"
            by (simp del: safe.simps)
        qed
        then show "case Inr ([] @ map e_payload es, q') of Inl e \<Rightarrow> read_ok oid s (Inl e) x
          | Inr z \<Rightarrow> safe F (grows oid) (read_ok oid s) (case z of (payloads, seq) \<Rightarrow>
              io_try (read_base oid) (\<lambda>(_, base_seq_now). if seq < base_seq_now then fold_committed_tries n oid
                else Done (res_bind (fold_log base payloads) (\<lambda>img. Inr (img, seq))))) x"
          by (simp del: safe.simps)
      qed (use canon listed in \<open>auto simp: not_less[symmetric]\<close>)
      then show "case Inr ?ks of Inl e \<Rightarrow> read_ok oid s (Inl e) w
        | Inr keys \<Rightarrow> safe F (grows oid) (read_ok oid s) (io_try (fold_scan oid b (sort keys) [] b) (\<lambda>(payloads, seq).
          io_try (read_base oid) (\<lambda>(_, base_seq_now). if seq < base_seq_now then fold_committed_tries n oid
            else Done (res_bind (fold_log base payloads) (\<lambda>img. Inr (img, seq)))))) w"
        by (simp add: srt del: safe.simps)
    qed (use faults in force)
    then show "case Inr (base, b) of Inl e \<Rightarrow> read_ok oid s (Inl e) v
      | Inr x \<Rightarrow> safe F (grows oid) (read_ok oid s) (case x of (base, base_seq) \<Rightarrow>
         io_try (io_list (log_prefix oid)) (\<lambda>keys. io_try (fold_scan oid base_seq (sort keys) [] base_seq) (\<lambda>(payloads, seq).
          io_try (read_base oid) (\<lambda>(_, base_seq_now). if seq < base_seq_now then fold_committed_tries n oid
            else Done (res_bind (fold_log base payloads) (\<lambda>img. Inr (img, seq))))))) v"
      by (simp del: safe.simps)
  qed
qed

lemma reader_safe:
  assumes "sys_steps F (s, ps) (s', ps')" "\<And>q. F q \<Longrightarrow> mutating q"
    and "mem_wf s" "all_canonical oid s" "\<forall>p \<in> set ps. asks (additive oid) p"
    and "i < length ps" "ps ! i = fold_committed oid" "ps' ! i = Done res"
  shows "read_ok oid s res s'"
proof (rule sys_steps_task[OF grows_preorder additive_grows assms(1,5,6) _ assms(8)])
  show "safe F (grows oid) (read_ok oid s) (ps ! i) s"
    unfolding assms(7) fold_committed_def
    by (rule safe_fold_committed_tries[OF assms(3,4) assms(2)]) (auto intro: reflpD[OF grows_preorder(1)])
qed

end
