(* ===== verification/Log_Race.thy ===== *)
theory Log_Race
  imports Log_Safety
begin

text \<open>
  \<open>delete_if_txn\<close> reads an entry and then deletes its key, in two requests. Between them another
  writer may clear the same orphan, take the freed slot and commit: the delete then removes a
  committed entry. The schedule below runs two whole commits (\<open>prewrite\<close>, then \<open>commit_txn\<close>)
  beside each other, with no failure at all.
\<close>

section \<open>Running a task up to a point\<close>

lemma io_try_assoc: "io_try (io_try p f) g = io_try p (\<lambda>x. io_try (f x) g)"
proof -
  have "(\<lambda>r. io_bind (case r of Inl e \<Rightarrow> Done (Inl e) | Inr x \<Rightarrow> f x) (\<lambda>r. case r of Inl e \<Rightarrow> Done (Inl e) | Inr x \<Rightarrow> g x))
      = (\<lambda>r. case r of Inl e \<Rightarrow> Done (Inl e) | Inr x \<Rightarrow> io_bind (f x) (\<lambda>r. case r of Inl e \<Rightarrow> Done (Inl e) | Inr x \<Rightarrow> g x))"
    by (auto simp: fun_eq_iff split: sum.split)
  then show ?thesis by (simp add: io_try_def io_bind_assoc)
qed

lemma sys_bind:
  assumes "i < length ps" "ps ! i = io_bind p f" "run_io p s = (x, s')"
  shows "sys_steps F (s, ps) (s', ps[i := f x])"
  using assms
proof (induction p arbitrary: s ps)
  case (Done y)
  then show ?case by (metis Pair_inject io_bind.simps(1) list_update_id rtranclp.rtrancl_refl run_io.simps(1))
next
  case (Do q c)
  let ?r = "fst (serve q s)" and ?s = "snd (serve q s)" and ?k = "\<lambda>r. io_bind (c r) f"
  have "sys_step F (s, ps) (?s, ps[i := ?k ?r])"
    using Do.prems by (intro sys_step.served) (auto simp: seen_def)
  moreover have "sys_steps F (?s, ps[i := ?k ?r]) (s', (ps[i := ?k ?r])[i := f x])"
    by (rule Do.IH[OF rangeI]) (use Do.prems in auto)
  ultimately show ?case by (simp add: converse_rtranclp_into_rtranclp)
qed

lemma sys_try:
  assumes "i < length ps" "ps ! i = io_try p f" "run_io p s = (Inr x, s')"
  shows "sys_steps F (s, ps) (s', ps[i := f x])"
  using sys_bind[of i ps p "\<lambda>r. case r of Inl e \<Rightarrow> Done (Inl e) | Inr x \<Rightarrow> f x" s "Inr x" s' F] assms
  by (simp add: io_try_def)

text \<open>\<open>solo p s p' s'\<close>: a task \<open>p\<close> may run alone from \<open>s\<close> until it is \<open>p'\<close> and the store \<open>s'\<close>.\<close>

definition solo :: "'a io \<Rightarrow> mem \<Rightarrow> 'a io \<Rightarrow> mem \<Rightarrow> bool" where
  "solo p s p' s' \<longleftrightarrow>
     (\<forall>F ps i. i < length ps \<longrightarrow> ps ! i = p \<longrightarrow> sys_steps F (s, ps) (s', ps[i := p']))"

lemma solo_refl: "solo p s p s"
  by (auto simp: solo_def)

lemma solo_trans:
  assumes "solo p s p1 s1" "solo p1 s1 p2 s2"
  shows "solo p s p2 s2"
  unfolding solo_def
proof (intro allI impI)
  fix F and ps :: "'a io list" and i
  assume i: "i < length ps" "ps ! i = p"
  then have "sys_steps F (s, ps) (s1, ps[i := p1])" using assms(1) by (simp add: solo_def)
  moreover have "sys_steps F (s1, ps[i := p1]) (s2, (ps[i := p1])[i := p2])"
    using assms(2)[unfolded solo_def, rule_format, of i "ps[i := p1]"] i by simp
  ultimately show "sys_steps F (s, ps) (s2, ps[i := p2])" by simp
qed

text \<open>One request program of a nested one at a time.\<close>

lemma solo_step:
  assumes "run_io p s = (Inr x, s')" "solo (io_try (f x) g) s' q t"
  shows "solo (io_try (io_try p f) g) s q t"
proof -
  have "solo (io_try (io_try p f) g) s (io_try (f x) g) s'"
    unfolding io_try_assoc solo_def using sys_try[OF _ _ assms(1)] by blast
  then show ?thesis using assms(2) by (rule solo_trans)
qed

lemma solo_step3:
  assumes "run_io p s = (Inr x, s')" "solo (io_try (io_try (f x) h) g) s' q t"
  shows "solo (io_try (io_try (io_try p f) h) g) s q t"
  unfolding io_try_assoc[of p f h]
  by (rule solo_step[where f = "\<lambda>x. io_try (f x) h", OF assms(1)]) (rule assms(2))

lemma solo_run: "run_io p s = (x, s') \<Longrightarrow> solo p s (Done x) s'"
  by (simp add: solo_def run_io_steps)

section \<open>The lost commit\<close>

text \<open>One object's part of a commit: the prewrite, then the decision.\<close>

definition commit_one :: "string \<Rightarrow> string \<Rightarrow> bytes \<Rightarrow> u64 \<Rightarrow> u64 \<Rightarrow> u64 \<Rightarrow> bool result io" where
  "commit_one oid txn entry expected now_ms ttl_ms =
     io_try (prewrite oid txn entry expected now_ms ttl_ms) (\<lambda>slot. case slot of
       None \<Rightarrow> ok False
     | Some _ \<Rightarrow> commit_txn txn)"

text \<open>An aged orphan of a transaction \<open>o\<close> holds the first slot of object \<open>a\<close>.\<close>

definition race_start :: mem where
  "race_start = mem_put (log_key ''a'' 1) (encode_entry ''o'' 0 (Snapshot [])) mem_empty"

definition race_x :: bytes where "race_x = encode_entry ''x'' 100 (Snapshot [1])"
definition race_y :: bytes where "race_y = encode_entry ''y'' 100 (Snapshot [2])"

definition race_aborted :: mem where
  "race_aborted = mem_put (outcome_key ''o'') [0] race_start"

definition race_taken :: mem where
  "race_taken = mem_put (outcome_key ''y'') [1]
     (mem_put (log_key ''a'' 1) race_y (mem_delete (log_key ''a'' 1) race_aborted))"

definition race_end :: mem where
  "race_end = mem_put (outcome_key ''x'') [1]
     (mem_put (log_key ''a'' 1) race_x (mem_delete (log_key ''a'' 1) race_taken))"

abbreviation after_prewrite :: "string \<Rightarrow> u64 option \<Rightarrow> bool result io" where
  "after_prewrite txn slot \<equiv> (case slot of None \<Rightarrow> ok False | Some _ \<Rightarrow> commit_txn txn)"

lemma utf8_names: "is_utf8 (string_bytes ''o'')" "is_utf8 (string_bytes ''x'')" "is_utf8 (string_bytes ''y'')"
  by (rule ascii_utf8, simp add: is_ascii_def)+

lemma race_entries:
  "decode_entry (encode_entry ''o'' 0 (Snapshot [])) = Some \<lparr>e_txn = ''o'', e_born = 0, e_payload = Snapshot []\<rparr>"
  "decode_entry race_x = Some \<lparr>e_txn = ''x'', e_born = 100, e_payload = Snapshot [1]\<rparr>"
  "decode_entry race_y = Some \<lparr>e_txn = ''y'', e_born = 100, e_payload = Snapshot [2]\<rparr>"
  by (simp_all add: race_x_def race_y_def decode_encode_entry utf8_names)

lemma race_slot:
  "mem_get race_start (log_key ''a'' 1) = Some (encode_entry ''o'' 0 (Snapshot []))"
  "mem_get race_aborted (log_key ''a'' 1) = Some (encode_entry ''o'' 0 (Snapshot []))"
  by (simp_all add: race_start_def race_aborted_def key_simps)

lemma txn_outcome_empty [simp]: "txn_outcome mem_empty t = None"
  by (simp add: txn_outcome_def mem_get_def mem_empty_def)

lemma race_outcomes:
  "txn_outcome race_start t = None"
  "txn_outcome race_aborted t = (if t = ''o'' then Some False else None)"
  by (simp_all add: race_start_def race_aborted_def key_simps nth_opt_def)

lemma mem_get_empty [simp]: "mem_get mem_empty k = None"
  by (simp add: mem_get_def mem_empty_def)

lemma race_views:
  assumes "s = race_start \<or> s = race_aborted"
  shows "mem_wf s \<and> canonical_log s ''a'' \<and> log_view s ''a'' [] 0 [] 0"
proof -
  have wf: "mem_wf s" using assms by (auto simp: race_start_def race_aborted_def)
  have keys: "k = log_key ''a'' 1 \<or> k = outcome_key ''o''" if "mem_get s k \<noteq> None" for k
    using assms that by (auto simp: race_start_def race_aborted_def split: if_splits)
  have "best_base s ''a'' = None"
  proof (rule ccontr)
    assume "best_base s ''a'' \<noteq> None"
    then obtain b where "best_base s ''a'' = Some b" by auto
    then obtain k where "mem_get s k \<noteq> None" "parse_base_seq k ''a'' = Some b"
      using best_base_Some(1)[OF wf] by blast
    then show False using keys[of k] by (auto simp: key_simps)
  qed
  moreover have "committed_at s ''a'' (0 + 1) = None"
    using assms race_slot race_entries(1) race_outcomes
    by (auto simp: committed_at_def entry_at_def)
  moreover have "canonical_log s ''a''"
    unfolding canonical_log_iff[OF wf] using keys by (fastforce simp: key_simps)
  ultimately show ?thesis
    using wf by (auto simp: log_view_def base_of_def ends_at_def intro: run.intros)
qed

text \<open>The first task, up to the request that deletes the orphan it has just read.\<close>

abbreviation race_retry :: "u64 option result io" where
  "race_retry \<equiv> prewrite_tries 63 ''a'' ''x'' race_x 1 100 10"

lemma race_first:
  "solo (commit_one ''a'' ''x'' race_x 0 100 10) race_start
     (io_try (io_try (io_delete (log_key ''a'' 1)) (\<lambda>_. race_retry)) (after_prewrite ''x'')) race_aborted"
proof -
  let ?k = "log_key ''a'' 1"
  have view: "run_io (committed_seq ''a'') race_start = (Inr 0, race_start)"
    using race_views[of race_start] run_committed_seq by blast
  have tries: "prewrite_tries 64 = prewrite_tries (Suc 63)" by simp
  note body = prewrite_tries.simps(2)[of 63 "''a''" "''x''" race_x 1 100 10]
  have created: "run_io (io_create ?k race_x) race_start = (Inr False, race_start)"
    using race_slot(1) by (simp add: io_simps mem_create_put)
  have got: "run_io (io_get ?k) s = (Inr (Some (encode_entry ''o'' 0 (Snapshot []))), s)"
    if "s = race_start \<or> s = race_aborted" for s
    using race_slot that by (auto simp: io_simps)
  have pending: "run_io (outcome ''o'') race_start = (Inr None, race_start)"
    by (simp add: io_simps race_outcomes)
  have aged: "\<not> saturating_sub 100 0 \<le> 10" by (simp add: saturating_sub_def)
  have aborted: "run_io (abort_txn ''o'') race_start = (Inr True, race_aborted)"
    by (simp add: io_simps race_outcomes race_aborted_def)
  note eval = race_entries(1) aged option.case if_True if_False log_entry.select_convs simp_thms
  show ?thesis
    unfolding commit_one_def prewrite_def
    apply (rule solo_step[OF view])
    apply (simp only: eval tries add_0)
    apply (unfold body Let_def)
    apply (rule solo_step[OF created], simp only: eval)
    apply (rule solo_step[OF got], simp, simp add: eval cong: option.case_cong)
    apply (rule solo_step[OF pending], simp only: eval)
    apply (rule solo_step[OF aborted], simp only: eval)
    apply (unfold delete_if_txn_def)
    apply (rule solo_step3[OF got], simp, simp only: eval)
    apply (rule solo_refl)
    done
qed


text \<open>The second task runs through: it clears the same orphan, takes the slot and commits.\<close>

lemma race_second: "run_io (commit_one ''a'' ''y'' race_y 0 100 10) race_aborted = (Inr True, race_taken)"
proof -
  have "run_io (prewrite ''a'' ''y'' race_y 0 100 10) race_aborted =
      (Inr (Some 1), mem_put (log_key ''a'' 1) race_y (mem_delete (log_key ''a'' 1) race_aborted))"
    using run_prewrite[of race_aborted "''a''" "[]" 0 "[]" 0] race_views[of race_aborted]
      race_slot(2) race_entries(1) race_outcomes(2)
    by (simp add: prewrite_spec_def Let_def)
  then show ?thesis
    by (simp add: commit_one_def io_simps race_outcomes key_simps race_taken_def)
qed

text \<open>Back to the first: its delete removes the committed entry, and it commits its own.\<close>

lemma race_third:
  "run_io (io_try (io_try (io_delete (log_key ''a'' 1)) (\<lambda>_. race_retry)) (after_prewrite ''x'')) race_taken
     = (Inr True, race_end)"
proof -
  have tries: "prewrite_tries 63 = prewrite_tries (Suc 62)" by simp
  have "run_io race_retry (mem_delete (log_key ''a'' 1) race_taken) =
      (Inr (Some 1), mem_put (log_key ''a'' 1) race_x (mem_delete (log_key ''a'' 1) race_taken))"
    unfolding tries by (rule prewrite_tries_free) simp
  then show ?thesis
    by (simp add: io_simps key_simps race_taken_def race_end_def race_outcomes)
qed

lemma lost_commit:
  "sys_steps F (race_start, [commit_one ''a'' ''x'' race_x 0 100 10, commit_one ''a'' ''y'' race_y 0 100 10])
     (race_end, [ok True, ok True])"
proof -
  let ?x = "commit_one ''a'' ''x'' race_x 0 100 10" and ?y = "commit_one ''a'' ''y'' race_y 0 100 10"
  let ?x' = "io_try (io_try (io_delete (log_key ''a'' 1)) (\<lambda>_. race_retry)) (after_prewrite ''x'')"
  have "sys_steps F (race_start, [?x, ?y]) (race_aborted, [?x', ?y])"
    using race_first[unfolded solo_def, rule_format, of 0 "[?x, ?y]" F] by simp
  moreover have "sys_steps F (race_aborted, [?x', ?y]) (race_taken, [?x', ok True])"
    using run_io_steps[of 1 "[?x', ?y]" race_aborted _ _ F] race_second by simp
  moreover have "sys_steps F (race_taken, [?x', ok True]) (race_end, [ok True, ok True])"
    using run_io_steps[of 0 "[?x', ok True]" race_taken _ _ F] race_third by simp
  ultimately show ?thesis by (meson rtranclp_trans)
qed

lemma lost_commit_end:
  "txn_outcome race_end ''y'' = Some True"
  "entry_at race_end ''a'' q = (if q = 1 then Some \<lparr>e_txn = ''x'', e_born = 100, e_payload = Snapshot [1]\<rparr> else None)"
  by (simp_all add: race_end_def race_taken_def race_aborted_def race_start_def key_simps nth_opt_def
      race_entries entry_at_def)

end
