(* ===== verification/Log_Props.thy ===== *)
theory Log_Props
  imports Log_Race
begin

text \<open>
  The properties of the object log (\<open>src/src/objlog.rs\<close>) and of the deltas folded in it, with
  their witnesses on one small store: an object \<open>a\<close> whose first entry is committed.
\<close>

section \<open>A small store\<close>

definition demo_entry :: log_entry where
  "demo_entry = \<lparr>e_txn = ''t'', e_born = 5, e_payload = Snapshot [7]\<rparr>"

definition demo_store :: mem where
  "demo_store = mem_put (outcome_key ''t'') [1]
     (mem_put (log_key ''a'' 1) (encode_entry ''t'' 5 (Snapshot [7])) mem_empty)"

lemma ascii_utf8_names: "is_utf8 (string_bytes ''t'')" "is_utf8 (string_bytes ''u'')"
  by (rule ascii_utf8, simp add: is_ascii_def)+

lemma demo_wf [simp]: "mem_wf demo_store"
  by (simp add: demo_store_def)

lemma demo_keys: "mem_get demo_store k \<noteq> None \<longleftrightarrow> k = log_key ''a'' 1 \<or> k = outcome_key ''t''"
  by (auto simp: demo_store_def)

lemma demo_all_canonical [simp]: "all_canonical ''a'' demo_store"
  unfolding all_canonical_iff demo_keys by (auto simp: canonical_key_def key_simps)

lemma demo_canonical [simp]: "canonical_log demo_store ''a''" "canonical_base demo_store ''a''"
  by (rule all_canonical_log, simp, simp)+

lemma demo_entry_at: "entry_at demo_store oid q = (if oid = ''a'' \<and> q = 1 then Some demo_entry else None)"
  by (auto simp: demo_store_def entry_at_def key_simps demo_entry_def decode_encode_entry ascii_utf8_names)

lemma demo_outcome: "txn_outcome demo_store t = (if t = ''t'' then Some True else None)"
  by (auto simp: demo_store_def key_simps nth_opt_def)

lemma demo_committed: "committed_at demo_store oid q = (if oid = ''a'' \<and> q = 1 then Some demo_entry else None)"
  by (auto simp: committed_at_def demo_entry_at demo_outcome demo_entry_def)

lemma demo_base: "base_of demo_store ''a'' = ([], 0)"
proof -
  have "best_base demo_store ''a'' = None"
  proof (cases "best_base demo_store ''a''")
    case (Some b)
    then show ?thesis
      using best_base_Some(1)[OF demo_wf Some] demo_keys by (auto simp: key_simps)
  qed
  then show ?thesis by (simp add: base_of_def)
qed

lemma demo_view: "log_view demo_store ''a'' [] 0 [demo_entry] 1"
proof -
  have "run (committed_at demo_store ''a'') 0 [demo_entry] 1"
    by (rule run_Cons) (auto simp: demo_committed intro: run.intros)
  then show ?thesis by (simp add: log_view_def demo_base ends_at_def demo_committed)
qed

lemma demo_fold: "run_io (fold_committed ''a'') demo_store = (Inr ([7], 1), demo_store)"
  using run_fold_committed[OF demo_wf demo_canonical(1) demo_view] by (simp add: demo_entry_def)

section \<open>Keys and entries\<close>

text \<open>The store's key order is the commit order: log keys of one object compare like their sequence
  numbers, the number is read back from the key, and the keys of entries, bases and outcomes of whatever
  objects and transactions are pairwise different.\<close>

theorem log_keys_ordered:
  "parse_log_seq (log_key oid q) oid = Some q
   \<and> (log_key oid q < log_key oid r \<longleftrightarrow> q < r)
   \<and> (log_key oid q = log_key oid' r \<longleftrightarrow> oid = oid' \<and> q = r)
   \<and> log_key oid q \<noteq> base_seq_key oid' r \<and> log_key oid q \<noteq> outcome_key t \<and> base_seq_key oid q \<noteq> outcome_key t
   \<and> parse_base_seq (log_key oid q) oid' = None \<and> parse_log_seq (base_seq_key oid q) oid' = None"
  by (simp add: key_simps)

text \<open>A log entry decodes to the transaction, birth time and payload it was encoded from, for every
  transaction name that is UTF-8 and fits the 16-bit length field.\<close>

theorem entry_roundtrip:
  assumes "length txn < 2 ^ 16" "is_utf8 (string_bytes txn)"
  shows "decode_entry (entry_from_ship txn born snap bs) =
    Some \<lparr>e_txn = txn, e_born = born, e_payload = (if snap then Snapshot bs else DeltaPayload bs)\<rparr>"
  unfolding entry_from_ship_def by (rule decode_encode_entry[OF assms])

theorem entry_roundtrip_witness:
  "decode_entry (entry_from_ship ''t'' 5 True [7]) = Some \<lparr>e_txn = ''t'', e_born = 5, e_payload = Snapshot [7]\<rparr>"
  using entry_roundtrip[of "''t''" 5 True "[7]"] ascii_utf8_names by simp

section \<open>Deltas in the log\<close>

text \<open>The deltas of a series of images, each diffed against the manifest its predecessor left.\<close>

fun ship_deltas :: "(bytes \<Rightarrow> u64) \<Rightarrow> manifest \<Rightarrow> bytes list \<Rightarrow> delta list rust" where
  "ship_deltas hash m [] = Ret []"
| "ship_deltas hash m (img # imgs) =
     rust_bind (diff_file hash m img) (\<lambda>(d, m'). rust_bind (ship_deltas hash m' imgs) (\<lambda>ds. Ret (d # ds)))"

fun chain_ok :: "(bytes \<Rightarrow> u64) \<Rightarrow> nat \<Rightarrow> bytes \<Rightarrow> bytes list \<Rightarrow> bool" where
  "chain_ok hash ps old [] = True"
| "chain_ok hash ps old (img # imgs) =
     (no_collision hash ps old img \<and> length img \<le> (2 ^ 32 - 1) * ps \<and> length img < 2 ^ 64 \<and> chain_ok hash ps img imgs)"

lemma diff_fits:
  assumes d: "diff_file hash m img = Ret (d, m')" and len: "length img \<le> (2 ^ 32 - 1) * m_page_size m"
    and small: "m_page_size m < 2 ^ 32"
  shows "length img < 2 ^ 32 * m_page_size m \<and> length (d_pages d) < 2 ^ 32
    \<and> list_all (\<lambda>(n, b). length b < 2 ^ 32) (d_pages d) \<and> m_page_size m' = m_page_size m"
proof -
  let ?ps = "m_page_size m"
  let ?cs = "chunks ?ps img"
  have ps: "0 < ?ps" using d by (auto simp: diff_file_def split: if_splits)
  have lt: "length img < 2 ^ 32 * ?ps" using len ps by simp
  have "\<not> 2 ^ 32 - 1 < length ?cs"
    using chunks_length_iff[OF ps, of "2 ^ 32 - 1" img] len by simp
  moreover have "length (filter P (enumerate 0 ?cs)) \<le> length ?cs" for P
    using length_filter_le[of P "enumerate 0 ?cs"] by simp
  then have "length (d_pages d) \<le> length ?cs"
    using d ps by (auto simp: diff_file_def Let_def)
  moreover have "list_all (\<lambda>(n, b). length b < 2 ^ 32) (d_pages d)"
    unfolding list_all_iff using diff_pages[OF d lt] small by (auto simp: Let_def)
  moreover have "m_page_size m' = ?ps" using d ps by (auto simp: diff_file_def Let_def)
  moreover have "length (d_pages d) < 2 ^ 32" using calculation(1,2) by simp
  ultimately show ?thesis using lt by simp
qed

lemma ship_fold:
  "describes hash m old \<Longrightarrow> chain_ok hash (m_page_size m) old imgs \<Longrightarrow> ship_deltas hash m imgs = Ret ds \<Longrightarrow>
   fold_log old (map (\<lambda>d. DeltaPayload (encode_delta d)) ds) = Inr (last (old # imgs))"
proof (induction imgs arbitrary: m old ds)
  case (Cons img imgs)
  obtain d m' ds' where d: "diff_file hash m img = Ret (d, m')"
    and ds': "ship_deltas hash m' imgs = Ret ds'" "ds = d # ds'"
    using Cons.prems(3) by (auto split: prod.splits)
  have small: "m_page_size m < 2 ^ 32" using Cons.prems(1) by (simp add: describes_def)
  have fits: "length img < 2 ^ 32 * m_page_size m" "length (d_pages d) < 2 ^ 32"
    "list_all (\<lambda>(n, b). length b < 2 ^ 32) (d_pages d)" "m_page_size m' = m_page_size m"
    using diff_fits[OF d _ small] Cons.prems(2) by auto
  have "decode_delta (encode_delta d) = Inr d"
    using encode_decode_delta[OF fits(2), of "[]"] fits(3) by (simp add: list_all_iff)
  moreover have "apply_delta old d = img \<and> describes hash m' img"
    by (rule apply_diff[OF Cons.prems(1) d _ _ fits(1)]) (use Cons.prems(2) in auto)
  moreover have "fold_log img (map (\<lambda>d. DeltaPayload (encode_delta d)) ds') = Inr (last (img # imgs))"
    using Cons.IH[OF _ _ ds'(1), of img] calculation(2) Cons.prems(2) fits(4) by simp
  ultimately show ?case using ds'(2) by simp
qed simp

text \<open>A chain of boats restores the object: folding, over the snapshot the manifest was built from, the
  encoded deltas of any series of later images gives the last image of the series.\<close>

theorem delta_chain_restores:
  assumes "chain_ok hash (page_size snap) snap imgs"
    and "ship_deltas hash (manifest_of hash snap c) imgs = Ret ds"
  shows "fold_log base (Snapshot snap # map (\<lambda>d. DeltaPayload (encode_delta d)) ds) = Inr (last (snap # imgs))"
proof -
  have "m_page_size (manifest_of hash snap c) = page_size snap" by (simp add: manifest_of_def Let_def)
  then show ?thesis using ship_fold[OF describes_manifest_of _ assms(2)] assms(1) by simp
qed

lemma chunks_small: "xs \<noteq> [] \<Longrightarrow> length xs \<le> n \<Longrightarrow> chunks n xs = [xs]"
  using chunks_step[of n xs] by (cases "n = 0") simp_all

theorem delta_chain_restores_witness:
  "fold_log [9] [Snapshot [1, 2], DeltaPayload (encode_delta
     \<lparr>d_counter = 0, d_file_len = 3, d_page_size = 4096, d_pages = [(0, [1, 5, 6])]\<rparr>)] = Inr [1, 5, 6]"
proof -
  let ?hash = "\<lambda>p. word_of_nat (of_be p) :: u64"
  have "ship_deltas ?hash (manifest_of ?hash [1, 2] 0) [[1, 5, 6]] =
      Ret [\<lparr>d_counter = 0, d_file_len = 3, d_page_size = 4096, d_pages = [(0, [1, 5, 6])]\<rparr>]"
    by (simp add: manifest_of_def page_size_def diff_file_def chunks_small nth_opt_def of_be_def change_counter_def Let_def)
  moreover have "chain_ok ?hash (page_size [1, 2]) [1, 2] [[1, 5, 6]]"
    by (simp add: page_size_def no_collision_def chunks_small of_be_def)
  ultimately show ?thesis using delta_chain_restores[of ?hash "[1, 2]" "[[1, 5, 6]]"] by fastforce
qed

section \<open>Reading alone\<close>

text \<open>C12: Reading returns the committed log: with canonical keys, \<open>fold_committed\<close> is the fold of the newest base with
  the payloads of the longest contiguous run of committed entries above it, and \<open>committed_seq\<close> is the
  number of the last of them; both leave the store as it is and neither runs out of retries.\<close>

theorem reading_is_log_view:
  assumes "mem_wf s" "canonical_log s oid"
  shows "\<exists>base b es q. log_view s oid base b es q
    \<and> run_io (fold_committed oid) s = (res_bind (fold_log base (map e_payload es)) (\<lambda>img. Inr (img, q)), s)
    \<and> run_io (committed_seq oid) s = (Inr q, s)"
  using log_view_exists[OF assms] run_fold_committed[OF assms] run_committed_seq[OF assms] by blast

theorem reading_is_log_view_witness:
  "run_io (fold_committed ''a'') demo_store = (Inr ([7], 1), demo_store)
   \<and> run_io (committed_seq ''a'') demo_store = (Inr 1, demo_store)"
proof -
  obtain base b es q where v: "log_view demo_store ''a'' base b es q"
    and f: "run_io (fold_committed ''a'') demo_store =
      (res_bind (fold_log base (map e_payload es)) (\<lambda>img. Inr (img, q)), demo_store)"
    and c: "run_io (committed_seq ''a'') demo_store = (Inr q, demo_store)"
    using reading_is_log_view[of demo_store "''a''"] by auto
  have "base = [] \<and> es = [demo_entry] \<and> q = 1" using log_view_unique[OF v demo_view] by simp
  then show ?thesis using f c by (simp add: demo_entry_def)
qed

text \<open>What a prewrite does, on every branch: a stale expectation and a live or undecodable holder are refused
  without touching the store; a free slot is taken; a slot already ours is confirmed; an aborted holder is
  cleared and a pending one past its time-to-live is aborted through its outcome key, then cleared, and
  the slot retaken. 64 attempts are never needed alone: two decide.\<close>

theorem prewrite_decides:
  assumes "mem_wf s" "canonical_log s oid" "log_view s oid base b es q"
  shows "run_io (prewrite oid txn entry expected now_ms ttl_ms) s =
    (if q \<noteq> expected then (Inr None, s)
     else case prewrite_spec s oid txn entry (q + 1) now_ms ttl_ms of (r, s') \<Rightarrow> (Inr r, s'))"
  by (rule run_prewrite[OF assms])

theorem prewrite_decides_witness:
  "run_io (prewrite ''a'' ''u'' [9] 1 0 0) demo_store = (Inr (Some 2), mem_put (log_key ''a'' 2) [9] demo_store)
   \<and> run_io (prewrite ''a'' ''u'' [9] 0 0 0) demo_store = (Inr None, demo_store)"
proof -
  have "mem_get demo_store (log_key ''a'' 2) = None" using demo_keys[of "log_key ''a'' 2"] by (auto simp: key_simps)
  then show ?thesis
    using prewrite_decides[OF demo_wf demo_canonical(1) demo_view, of "''u''" "[9]"]
    by (simp add: prewrite_spec_def)
qed

text \<open>C11: One transaction end to end: prewriting at the number after the run, committing and reading gives the old
  image with the payload folded on top, one number later; until the commit, readers see the old image.\<close>

theorem transaction_end_to_end:
  assumes "mem_wf s" "canonical_log s oid" "log_view s oid base b es q"
    and "q < q + 1" "length txn < 2 ^ 16" "is_utf8 (string_bytes txn)"
    and "txn_outcome s txn = None" "\<forall>r f. entry_at s oid r = Some f \<longrightarrow> e_txn f \<noteq> txn"
    and "committed_at s oid (q + 2) = None"
    and "run_io (prewrite oid txn (encode_entry txn born p) q now_ms ttl_ms) s = (Inr (Some slot), s1)"
    and "run_io (commit_txn txn) s1 = (r, s2)"
  shows "slot = q + 1 \<and> r = Inr True
    \<and> fst (run_io (fold_committed oid) s1) = fst (run_io (fold_committed oid) s)
    \<and> fst (run_io (fold_committed oid) s2) =
        res_bind (fold_log base (map e_payload es @ [p])) (\<lambda>img. Inr (img, q + 1))"
  using prewrite_commit_read[OF assms] by simp

theorem transaction_end_to_end_witness:
  "\<exists>s1 s2. run_io (prewrite ''a'' ''u'' (encode_entry ''u'' 0 (Snapshot [8])) 1 0 0) demo_store = (Inr (Some 2), s1)
     \<and> run_io (commit_txn ''u'') s1 = (Inr True, s2)
     \<and> fst (run_io (fold_committed ''a'') s1) = Inr ([7], 1)
     \<and> fst (run_io (fold_committed ''a'') s2) = Inr ([8], 2)"
proof -
  let ?e = "encode_entry ''u'' 0 (Snapshot [8])"
  let ?s1 = "mem_put (log_key ''a'' 2) ?e demo_store"
  have "mem_get demo_store (log_key ''a'' 2) = None" using demo_keys[of "log_key ''a'' 2"] by (auto simp: key_simps)
  then have pre: "run_io (prewrite ''a'' ''u'' ?e 1 0 0) demo_store = (Inr (Some 2), ?s1)"
    using run_prewrite[OF demo_wf demo_canonical(1) demo_view, of "''u''" ?e 1 0 0] by (simp add: prewrite_spec_def)
  obtain r s2 where com: "run_io (commit_txn ''u'') ?s1 = (r, s2)" by force
  have "r = Inr True \<and> fst (run_io (fold_committed ''a'') ?s1) = fst (run_io (fold_committed ''a'') demo_store)
    \<and> fst (run_io (fold_committed ''a'') s2) =
        res_bind (fold_log [] (map e_payload [demo_entry] @ [Snapshot [8]])) (\<lambda>img. Inr (img, 1 + 1))"
    using transaction_end_to_end[OF demo_wf demo_canonical(1) demo_view _ _ _ _ _ _ pre com] ascii_utf8_names
    by (simp add: demo_outcome demo_entry_at demo_entry_def demo_committed)
  then show ?thesis using pre com demo_fold by (auto simp: demo_entry_def)
qed

text \<open>A commit is atomic over objects: deciding a transaction makes every entry it prewrote, in every
  object, committed at once, and changes no other entry's state.\<close>

theorem commit_is_atomic:
  assumes "txn_outcome s t = None"
  shows "fst (run_io (commit_txn t) s) = Inr True \<and>
    committed_at (snd (run_io (commit_txn t) s)) oid q =
    (case entry_at s oid q of
       None \<Rightarrow> None
     | Some e \<Rightarrow> if e_txn e = t then Some e else committed_at s oid q)"
  using commit_publishes[OF assms] assms by (simp add: io_simps)

theorem commit_is_atomic_witness:
  "committed_at (snd (run_io (commit_txn ''u'') demo_store)) ''a'' 1 = Some demo_entry"
  using commit_is_atomic[of demo_store "''u''" "''a''" 1]
  by (simp add: demo_outcome demo_entry_at demo_committed demo_entry_def)

text \<open>Compaction changes nothing a reader can see: after folding the run into a new base, whatever the
  threshold, reading returns the same image at the same number.\<close>

theorem compaction_invisible:
  assumes "mem_wf s" "canonical_log s oid" "canonical_base s oid"
    and "run_io (fold_committed oid) s = (Inr (img, q), s)"
    and "run_io (compact_log oid keep) s = (r, s')"
  shows "r = Inr () \<and> run_io (fold_committed oid) s' = (Inr (img, q), s')"
  by (rule compact_preserves[OF assms])

theorem compaction_invisible_witness:
  "\<exists>s'. run_io (compact_log ''a'' 1) demo_store = (Inr (), s') \<and> mem_get s' (base_seq_key ''a'' 1) = Some [7]
     \<and> run_io (fold_committed ''a'') s' = (Inr ([7], 1), s')"
proof -
  let ?s = "mem_put (base_seq_key ''a'' 1) [7] demo_store"
  have "mem_get demo_store (base_seq_key ''a'' 1) = None"
    using demo_keys[of "base_seq_key ''a'' 1"] by (auto simp: key_simps)
  then have "run_io (compact_log ''a'' 1) demo_store = (Inr (), ?s)"
    using demo_fold demo_base by (simp add: compact_log_def io_simps mem_create_put)
  then show ?thesis
    using compaction_invisible[OF demo_wf demo_canonical demo_fold, of 1] by auto
qed

section \<open>Among other tasks\<close>

text \<open>C9: Agreement: among any tasks that never overwrite a decision (all of \<open>objlog.rs\<close>), in any order, with requests
  that fail or whose answers are lost, a commit that reports success is final, and no abort of the same
  transaction also reports success.\<close>

theorem commit_abort_agree:
  assumes "sys_steps F (s, ps) (s', ps')" "\<forall>p \<in> set ps. asks keeps_outcomes p"
    and "i < length ps" "ps ! i = commit_txn t" "ps' ! i = Done (Inr True)"
  shows "txn_outcome s' t = Some True \<and>
    (\<forall>j < length ps. ps ! j = abort_txn t \<longrightarrow> ps' ! j \<noteq> Done (Inr True))"
  by (rule commit_abort_agreement[OF assms])

theorem commit_abort_agree_witness:
  "\<exists>s' ps'. sys_steps (\<lambda>_. True) (demo_store, [commit_txn ''u'', abort_txn ''u'']) (s', ps')
     \<and> ps' = [ok True, ok False] \<and> txn_outcome s' ''u'' = Some True"
proof -
  let ?ps = "[commit_txn ''u'', abort_txn ''u'']"
  let ?s = "mem_put (outcome_key ''u'') [1] demo_store"
  have "sys_steps (\<lambda>_. True) (demo_store, ?ps) (?s, [ok True, abort_txn ''u''])"
    using run_io_steps[of 0 ?ps demo_store "Inr True" ?s "\<lambda>_. True"] by (simp add: io_simps demo_outcome)
  moreover have "sys_steps (\<lambda>_. True) (?s, [ok True, abort_txn ''u'']) (?s, [ok True, ok False])"
    using run_io_steps[of 1 "[ok True, abort_txn ''u'']" ?s "Inr False" ?s "\<lambda>_. True"]
    by (simp add: io_simps nth_opt_def)
  ultimately have steps: "sys_steps (\<lambda>_. True) (demo_store, ?ps) (?s, [ok True, ok False])"
    by (rule rtranclp_trans)
  have "txn_outcome ?s ''u'' = Some True"
    using commit_abort_agree[OF steps, of 0 "''u''"] asks_commit by simp
  then show ?thesis using steps by blast
qed

text \<open>C10: A read beside writers that only add (commits, aborts, prewrites of free slots, compactions) and whose writes may fail
  returns the fold of a base and the committed run above it, and never a shorter run than the one that
  was there when it started, whatever base is published under it.\<close>

theorem concurrent_read_fresh:
  assumes "sys_steps F (s, ps) (s', ps')" "\<And>q. F q \<Longrightarrow> mutating q"
    and "mem_wf s" "all_canonical oid s" "\<forall>p \<in> set ps. asks (additive oid) p"
    and "i < length ps" "ps ! i = fold_committed oid" "ps' ! i = Done res"
  shows "read_ok oid s res s'"
  by (rule reader_safe[OF assms])

theorem concurrent_read_fresh_witness:
  "\<exists>s' ps'. sys_steps mutating (demo_store, [fold_committed ''a'', io_bind (commit_txn ''u'') (\<lambda>_. fail [])]) (s', ps')
     \<and> read_ok ''a'' demo_store (Inr ([7], 1)) s' \<and> txn_outcome s' ''u'' = Some True"
proof -
  let ?c = "io_bind (commit_txn ''u'') (\<lambda>_. fail [] :: (bytes \<times> u64) result io)"
  let ?s = "mem_put (outcome_key ''u'') [1] demo_store"
  let ?ps = "[fold_committed ''a'', ?c]"
  have "run_io ?c demo_store = (Inl [], ?s)" by (simp add: io_simps demo_outcome)
  then have a: "sys_steps mutating (demo_store, [ok ([7], 1), ?c]) (?s, [ok ([7], 1), fail []])"
    using run_io_steps[of 1 "[ok ([7], 1), ?c]" demo_store "Inl []" ?s mutating] by simp
  have "sys_steps mutating (demo_store, ?ps) (demo_store, [ok ([7], 1), ?c])"
    using run_io_steps[of 0 ?ps demo_store "Inr ([7], 1)" demo_store mutating] demo_fold by simp
  then have steps: "sys_steps mutating (demo_store, ?ps) (?s, [ok ([7], 1), fail []])"
    using a by (rule rtranclp_trans)
  have "asks (additive ''a'') (fold_committed ''a'')" by (rule asks_additive)
  moreover have "asks (additive ''a'') ?c" by (auto intro: asks_bind asks_additive)
  ultimately have "read_ok ''a'' demo_store (Inr ([7], 1)) ?s"
    using concurrent_read_fresh[OF steps, of "''a''" 0] by simp
  then show ?thesis using steps by (auto simp: nth_opt_def)
qed

text \<open>C30: The rollback of an entry is not atomic: two commits of different transactions that both find the same aged
  orphan can both report success although the second's entry is deleted by the first's
  \<open>delete_if_txn\<close>, so an acknowledged transaction is lost with no request failing.\<close>

theorem rollback_race_loses_commit:
  "\<exists>s'. sys_steps (\<lambda>_. False)
     (race_start, [commit_one ''a'' ''x'' race_x 0 100 10, commit_one ''a'' ''y'' race_y 0 100 10])
     (s', [ok True, ok True])
   \<and> txn_outcome s' ''y'' = Some True \<and> (\<forall>q. map_option e_txn (entry_at s' ''a'' q) \<noteq> Some ''y'')"
  using lost_commit lost_commit_end by (intro exI[of _ race_end]) auto

end
