(* ===== verification/Protosim.thy ===== *)
theory Protosim
  imports Blob_Store
begin

text \<open>
  \<open>src/src/bin/protosim.rs\<close>: the stand-alone model of the commit protocol that the design was tried
  on, here with its adversary: transfers between accounts as state machines of single store
  operations, which pause, crash, are aborted by a peer and resume. The store is its ordered map
  of cells; sequence numbers, ticks and transaction ids are natural numbers (a run makes at most
  two million steps, so none reaches 64 bits), amounts are integers, whose bounds are proved.
\<close>

section \<open>The store\<close>

datatype cell = Base nat int | LogCell nat int nat | Outcome bool

type_synonym pstore = "(string \<times> cell) list"

definition p_get :: "pstore \<Rightarrow> string \<Rightarrow> cell option" where
  "p_get s k = map_of s k"

definition p_put :: "string \<Rightarrow> cell \<Rightarrow> pstore \<Rightarrow> pstore" where
  "p_put k c s = bt_insert k c s"

definition p_create :: "string \<Rightarrow> cell \<Rightarrow> pstore \<Rightarrow> bool \<times> pstore" where
  "p_create k c s = (case map_of s k of Some _ \<Rightarrow> (False, s) | None \<Rightarrow> (True, bt_insert k c s))"

definition p_delete :: "string \<Rightarrow> pstore \<Rightarrow> pstore" where
  "p_delete k s = bt_remove k s"

interpretation pkv: kv_store p_get p_put p_delete p_create
  by unfold_locales (auto simp: p_get_def p_put_def p_delete_def p_create_def)

definition p_base_key :: "string \<Rightarrow> string" where
  "p_base_key a = ''a/'' @ a @ ''/base''"

definition p_log_key :: "string \<Rightarrow> nat \<Rightarrow> string" where
  "p_log_key a s = ''a/'' @ a @ ''/log/'' @ pad0 20 (show_nat s)"

definition p_outcome_key :: "nat \<Rightarrow> string" where
  "p_outcome_key tid = ''o/'' @ show_nat tid"

definition p_committed :: "pstore \<Rightarrow> nat \<Rightarrow> bool" where
  "p_committed s tid = (p_get s (p_outcome_key tid) = Some (Outcome True))"

definition p_resolved :: "pstore \<Rightarrow> nat \<Rightarrow> bool option" where
  "p_resolved s tid = (case p_get s (p_outcome_key tid) of Some (Outcome c) \<Rightarrow> Some c | _ \<Rightarrow> None)"

text \<open>The committed entry a slot holds, if any.\<close>

definition slot_delta :: "pstore \<Rightarrow> string \<Rightarrow> nat \<Rightarrow> int option" where
  "slot_delta s a n = (case p_get s (p_log_key a n) of
     Some (LogCell tid d _) \<Rightarrow> if p_committed s tid then Some d else None
   | _ \<Rightarrow> None)"

lemma pad0_length: "length (pad0 20 (show_nat n)) = max 20 (length (show_nat n))"
  by (simp add: pad0_def)

lemma parse_pad0 [simp]: "parse_acc 0 (pad0 k (show_nat n)) = Some n"
  by (simp add: pad0_def parse_acc_zeros)

lemma pad0_char: "c \<in> set (pad0 k (show_nat n)) \<Longrightarrow> digit_val c = None \<Longrightarrow> False"
  using parse_acc_digits[of 0 "pad0 k (show_nat n)" n c] by simp

lemma p_log_key_inject [simp]: "p_log_key a n = p_log_key b m \<longleftrightarrow> a = b \<and> n = m"
proof
  assume eq: "p_log_key a n = p_log_key b m"
  have sl: "CHR ''/'' \<notin> set (pad0 20 (show_nat k))" for k
    using pad0_char[of "CHR ''/''"] by auto
  have "(''a/'' @ a @ ''/log'') @ CHR ''/'' # pad0 20 (show_nat n)
      = (''a/'' @ b @ ''/log'') @ CHR ''/'' # pad0 20 (show_nat m)"
    using eq by (simp add: p_log_key_def)
  then have both: "''a/'' @ a @ ''/log'' = ''a/'' @ b @ ''/log'' \<and> pad0 20 (show_nat n) = pad0 20 (show_nat m)"
    by (rule last_dot_unique[OF _ sl sl])
  have "a = b" using both[THEN conjunct1] by simp
  moreover have "n = m" using arg_cong[OF both[THEN conjunct2], of "parse_acc 0"] by simp
  ultimately show "a = b \<and> n = m" by blast
qed simp

lemma p_outcome_key_inject [simp]: "p_outcome_key t = p_outcome_key u \<longleftrightarrow> t = u"
  by (metis option.inject p_outcome_key_def parse_acc_show same_append_eq)

lemma p_keys_distinct [simp]:
  "p_log_key a n \<noteq> p_outcome_key t" "p_outcome_key t \<noteq> p_log_key a n"
  "p_base_key b \<noteq> p_outcome_key t" "p_outcome_key t \<noteq> p_base_key b"
  by (simp_all add: p_log_key_def p_outcome_key_def p_base_key_def)

lemma p_base_log [simp]: "p_base_key b \<noteq> p_log_key a n" "p_log_key a n \<noteq> p_base_key b"
proof -
  have "last (p_base_key b) = CHR ''e''" by (simp add: p_base_key_def)
  moreover have "last (p_log_key a n) \<noteq> CHR ''e''"
  proof -
    have ne: "pad0 20 (show_nat n) \<noteq> []" by (simp add: pad0_def)
    then have "last (p_log_key a n) \<in> set (pad0 20 (show_nat n))" by (simp add: p_log_key_def)
    then show ?thesis using pad0_char by force
  qed
  ultimately show "p_base_key b \<noteq> p_log_key a n" "p_log_key a n \<noteq> p_base_key b" by metis+
qed

lemma p_base_inject [simp]: "p_base_key a = p_base_key b \<longleftrightarrow> a = b"
  by (simp add: p_base_key_def)

section \<open>Reading committed state\<close>

text \<open>
  The loop of \<open>read_committed\<close> goes on while the next slot holds a committed entry; it ends because
  the store is finite.
\<close>

definition slots_above :: "pstore \<Rightarrow> string \<Rightarrow> nat \<Rightarrow> nat set" where
  "slots_above s a n = {m. n < m \<and> p_get s (p_log_key a m) \<noteq> None}"

lemma finite_slots_above [simp]: "finite (slots_above s a n)"
proof -
  have "p_log_key a ` slots_above s a n \<subseteq> fst ` set s"
    by (auto simp: slots_above_def p_get_def) (metis fst_conv image_eqI map_of_SomeD)
  then have "finite (p_log_key a ` slots_above s a n)" by (rule finite_subset) simp
  then show ?thesis by (rule finite_imageD) (simp add: inj_on_def)
qed

lemma slots_above_decrease:
  "slot_delta s a (Suc n) = Some d \<Longrightarrow> card (slots_above s a (Suc n)) < card (slots_above s a n)"
proof (rule psubset_card_mono[OF finite_slots_above])
  assume "slot_delta s a (Suc n) = Some d"
  then have "p_get s (p_log_key a (Suc n)) \<noteq> None" by (auto simp: slot_delta_def split: option.splits)
  then have "Suc n \<in> slots_above s a n" by (simp add: slots_above_def)
  moreover have "Suc n \<notin> slots_above s a (Suc n)" by (simp add: slots_above_def)
  moreover have "slots_above s a (Suc n) \<subseteq> slots_above s a n" by (auto simp: slots_above_def)
  ultimately show "slots_above s a (Suc n) \<subset> slots_above s a n" by blast
qed

function read_from :: "pstore \<Rightarrow> string \<Rightarrow> nat \<Rightarrow> int \<Rightarrow> nat \<times> int" where
  "read_from s a seq val = (case slot_delta s a (Suc seq) of
     Some d \<Rightarrow> read_from s a (Suc seq) (val + d)
   | None \<Rightarrow> (seq, val))"
  by auto
termination
  by (relation "measure (\<lambda>(s, a, seq, _). card (slots_above s a seq))") (auto intro: slots_above_decrease)

declare read_from.simps [simp del]

definition read_committed :: "pstore \<Rightarrow> string \<Rightarrow> nat \<times> int" where
  "read_committed s a =
     (let (seq, val) = (case p_get s (p_base_key a) of Some (Base seq val) \<Rightarrow> (seq, val) | _ \<Rightarrow> (0, 0))
      in read_from s a seq val)"

section \<open>Resolving a slot\<close>

definition TTL :: nat where "TTL = 40"

definition resolve_slot :: "pstore \<Rightarrow> string \<Rightarrow> nat \<Rightarrow> nat \<Rightarrow> bool \<times> pstore" where
  "resolve_slot s a seq now =
     (let k = p_log_key a seq in
      case p_get s k of
        None \<Rightarrow> (True, s)
      | Some (LogCell tid _ born) \<Rightarrow> (case p_resolved s tid of
          Some True \<Rightarrow> (False, s)
        | Some False \<Rightarrow> (True, p_delete k s)
        | None \<Rightarrow>
            if now - born \<le> TTL then (False, s)
            else let (won, s) = p_create (p_outcome_key tid) (Outcome False) s
                 in if won \<or> p_resolved s tid = Some False then (True, p_delete k s) else (False, s))
      | Some _ \<Rightarrow> (False, s))"

definition safe_delete :: "string \<Rightarrow> nat \<Rightarrow> pstore \<Rightarrow> pstore" where
  "safe_delete k tid s = (case p_get s k of
     Some (LogCell t _ _) \<Rightarrow> if t = tid then p_delete k s else s
   | _ \<Rightarrow> s)"

section \<open>The random source\<close>

type_synonym rng = u64

definition rng_next :: "rng \<Rightarrow> u64 \<times> rng" where
  "rng_next r =
     (let r = r + 0x9E3779B97F4A7C15;
          z = r;
          z = xor z (drop_bit 30 z) * 0xBF58476D1CE4E5B9;
          z = xor z (drop_bit 27 z) * 0x94D049BB133111EB
      in (xor z (drop_bit 31 z), r))"

definition rng_below :: "nat \<Rightarrow> rng \<Rightarrow> nat \<times> rng" where
  "rng_below n r = (if n = 0 then (0, r) else let (z, r) = rng_next r in (unat z mod n, r))"

section \<open>A transfer as a state machine\<close>

datatype step = Read | PreLow | PreHigh | Commit | Finished | Aborted | Crashed

record xfer =
  x_tid :: nat
  x_from :: string
  x_amt :: int
  x_low :: string
  x_high :: string
  x_low_seq :: nat
  x_high_seq :: nat
  x_low_delta :: int
  x_high_delta :: int
  x_made_low :: bool
  x_made_high :: bool
  x_step :: step
  x_retries :: nat
  x_resume_at :: nat
  x_pause_budget :: nat
  x_crash :: bool
  x_acked :: bool

definition xfer_new :: "nat \<Rightarrow> string \<Rightarrow> string \<Rightarrow> int \<Rightarrow> nat \<Rightarrow> bool \<Rightarrow> xfer" where
  "xfer_new tid from to amt pauses crash =
     (let (low, high) = (if from \<le> to then (from, to) else (to, from));
          (low_delta, high_delta) = (if low = from then (- amt, amt) else (amt, - amt))
      in \<lparr>x_tid = tid, x_from = from, x_amt = amt, x_low = low, x_high = high, x_low_seq = 0, x_high_seq = 0,
          x_low_delta = low_delta, x_high_delta = high_delta, x_made_low = False, x_made_high = False,
          x_step = Read, x_retries = 0, x_resume_at = 0, x_pause_budget = pauses, x_crash = crash,
          x_acked = False\<rparr>)"

definition xfer_active :: "xfer \<Rightarrow> bool" where
  "xfer_active x \<longleftrightarrow> x_step x \<noteq> Finished \<and> x_step x \<noteq> Aborted \<and> x_step x \<noteq> Crashed"

definition xfer_runnable :: "nat \<Rightarrow> xfer \<Rightarrow> bool" where
  "xfer_runnable now x \<longleftrightarrow> xfer_active x \<and> x_resume_at x \<le> now"

definition maybe_pause :: "nat \<Rightarrow> rng \<Rightarrow> xfer \<Rightarrow> xfer \<times> rng" where
  "maybe_pause now rng x =
     (if 0 < x_pause_budget x then
        let (b, rng) = rng_below 2 rng in
        if b = 0 then
          let (d, rng) = rng_below (TTL + 30) rng
          in (x\<lparr>x_pause_budget := x_pause_budget x - 1, x_resume_at := now + (10 + d)\<rparr>, rng)
        else (x, rng)
      else (x, rng))"

definition rollback :: "xfer \<Rightarrow> pstore \<Rightarrow> xfer \<times> pstore" where
  "rollback x s =
     (let s = (if x_made_high x then safe_delete (p_log_key (x_high x) (x_high_seq x + 1)) (x_tid x) s else s);
          s = (if x_made_low x then safe_delete (p_log_key (x_low x) (x_low_seq x + 1)) (x_tid x) s else s)
      in (x\<lparr>x_made_low := False, x_made_high := False\<rparr>, s))"

definition reset_or_giveup :: "xfer \<Rightarrow> pstore \<Rightarrow> xfer \<times> pstore" where
  "reset_or_giveup x s =
     (let (x, s) = rollback x s;
          x = x\<lparr>x_retries := x_retries x + 1, x_resume_at := 0\<rparr>
      in (x\<lparr>x_step := (if 120 < x_retries x then Aborted else Read)\<rparr>, s))"

fun xfer_step :: "nat \<Rightarrow> rng \<Rightarrow> xfer \<Rightarrow> pstore \<Rightarrow> xfer \<times> pstore \<times> rng" where
  "xfer_step now rng x s = (case x_step x of
     Read \<Rightarrow>
       (let (lo, lv) = read_committed s (x_low x);
            (hi, hv) = read_committed s (x_high x);
            from_val = (if x_low x = x_from x then lv else snd (read_committed s (x_from x)))
        in if from_val < x_amt x then (x\<lparr>x_step := Aborted\<rparr>, s, rng)
           else (x\<lparr>x_low_seq := lo, x_high_seq := hi, x_step := PreLow\<rparr>, s, rng))
   | PreLow \<Rightarrow>
       (let k = p_log_key (x_low x) (x_low_seq x + 1);
            (won, s) = p_create k (LogCell (x_tid x) (x_low_delta x) now) s
        in if won then
             (let (x, rng) = maybe_pause now rng (x\<lparr>x_made_low := True\<rparr>)
              in (x\<lparr>x_step := PreHigh\<rparr>, s, rng))
           else
             (let (freed, s) = resolve_slot s (x_low x) (x_low_seq x + 1) now
              in if \<not> freed then (let (x, s) = reset_or_giveup x s in (x, s, rng)) else (x, s, rng)))
   | PreHigh \<Rightarrow>
       (let k = p_log_key (x_high x) (x_high_seq x + 1);
            (won, s) = p_create k (LogCell (x_tid x) (x_high_delta x) now) s
        in if won then
             (let x = x\<lparr>x_made_high := True\<rparr>
              in if x_crash x then (x\<lparr>x_step := Crashed\<rparr>, s, rng)
                 else let (x, rng) = maybe_pause now rng x in (x\<lparr>x_step := Commit\<rparr>, s, rng))
           else
             (let (freed, s) = resolve_slot s (x_high x) (x_high_seq x + 1) now
              in if \<not> freed then
                   (let (x, s) = rollback x s; (x, s) = reset_or_giveup x s in (x, s, rng))
                 else (x, s, rng)))
   | Commit \<Rightarrow>
       (let (won, s) = p_create (p_outcome_key (x_tid x)) (Outcome True) s
        in if won then (x\<lparr>x_acked := True, x_step := Finished\<rparr>, s, rng)
           else (let (x, s) = rollback x s; (x, s) = reset_or_giveup x s in (x, s, rng)))
   | _ \<Rightarrow> (x, s, rng))"

section \<open>The control: last writer wins\<close>

record naive =
  n_from :: string
  n_to :: string
  n_amt :: int
  n_vf :: int
  n_vt :: int
  n_step :: step

definition naive_new :: "string \<Rightarrow> string \<Rightarrow> int \<Rightarrow> naive" where
  "naive_new from to amt = \<lparr>n_from = from, n_to = to, n_amt = amt, n_vf = 0, n_vt = 0, n_step = Read\<rparr>"

definition naive_active :: "naive \<Rightarrow> bool" where
  "naive_active n \<longleftrightarrow> n_step n \<noteq> Finished \<and> n_step n \<noteq> Aborted"

definition base_val :: "pstore \<Rightarrow> string \<Rightarrow> int" where
  "base_val s a = (case p_get s (p_base_key a) of Some (Base _ val) \<Rightarrow> val | _ \<Rightarrow> 0)"

definition naive_step :: "naive \<Rightarrow> pstore \<Rightarrow> naive \<times> pstore" where
  "naive_step n s = (case n_step n of
     Read \<Rightarrow>
       (let vf = base_val s (n_from n)
        in (n\<lparr>n_vf := vf, n_vt := base_val s (n_to n), n_step := (if vf < n_amt n then Aborted else PreLow)\<rparr>, s))
   | PreLow \<Rightarrow>
       (n\<lparr>n_step := PreHigh\<rparr>, p_put (p_base_key (n_from n)) (Base 0 (n_vf n - n_amt n)) s)
   | PreHigh \<Rightarrow>
       (n\<lparr>n_step := Finished\<rparr>, p_put (p_base_key (n_to n)) (Base 0 (n_vt n + n_amt n)) s)
   | _ \<Rightarrow> (n, s))"


section \<open>The scheduler and its report\<close>

datatype worker = WLog xfer | WNaive naive

fun worker_active :: "worker \<Rightarrow> bool" where
  "worker_active (WLog x) = xfer_active x"
| "worker_active (WNaive n) = naive_active n"

fun worker_runnable :: "nat \<Rightarrow> worker \<Rightarrow> bool" where
  "worker_runnable now (WLog x) = xfer_runnable now x"
| "worker_runnable now (WNaive n) = naive_active n"

fun worker_step :: "nat \<Rightarrow> rng \<Rightarrow> worker \<Rightarrow> pstore \<Rightarrow> worker \<times> pstore \<times> rng" where
  "worker_step now rng (WLog x) s = (let (x, s, rng) = xfer_step now rng x s in (WLog x, s, rng))"
| "worker_step now rng (WNaive n) s = (let (n, s) = naive_step n s in (WNaive n, s, rng))"

record report =
  r_committed :: nat
  r_given_up :: nat
  r_paused :: nat
  r_conserved :: bool
  r_ack_consistent :: bool
  r_total_end :: int
  r_total_start :: int

text \<open>Drawing a payee again while it is the payer: the loop may in principle draw for ever.\<close>

partial_function (option) pick_to :: "string list \<Rightarrow> string \<Rightarrow> rng \<Rightarrow> (string \<times> rng) option" where
  "pick_to names from rng =
     (let (t, rng) = rng_below (length names) rng;
          to = names ! t
      in if to = from then pick_to names from rng else Some (to, rng))"

fun gen_workers :: "nat \<Rightarrow> string list \<Rightarrow> bool \<Rightarrow> nat \<Rightarrow> rng \<Rightarrow> (worker list \<times> nat \<times> rng) option" where
  "gen_workers 0 names broken tid rng = Some ([], 0, rng)"
| "gen_workers (Suc n) names broken tid rng =
     (let (f, rng) = rng_below (length names) rng;
          from = names ! f
      in case pick_to names from rng of
           None \<Rightarrow> None
         | Some (to, rng) \<Rightarrow>
             let (a, rng) = rng_below 20 rng;
                 amt = 1 + int a
             in if broken then
                  map_option (\<lambda>(ws, p, r). (WNaive (naive_new from to amt) # ws, p, r))
                    (gen_workers n names broken (tid + 1) rng)
                else
                  let (pauses, rng) = rng_below 3 rng;
                      (c, rng) = rng_below 20 rng
                  in map_option (\<lambda>(ws, p, r).
                       (WLog (xfer_new tid from to amt pauses (c = 0)) # ws,
                        (if 0 < pauses then p + 1 else p), r))
                       (gen_workers n names broken (tid + 1) rng))"

definition runnable_indices :: "nat \<Rightarrow> worker list \<Rightarrow> nat list" where
  "runnable_indices now ws = filter (\<lambda>i. worker_runnable now (ws ! i)) [0..<length ws]"

text \<open>The scheduler loop; the fuel is the code's own guard of two million iterations.\<close>

primrec run_loop :: "nat \<Rightarrow> nat \<Rightarrow> rng \<Rightarrow> worker list \<Rightarrow> pstore \<Rightarrow> worker list \<times> pstore" where
  "run_loop 0 now rng ws s = (ws, s)"
| "run_loop (Suc g) now rng ws s =
     (let idxs = runnable_indices now ws in
      if idxs = [] then
        if \<not> list_ex worker_active ws then (ws, s) else run_loop g (now + 5) rng ws s
      else
        let (p, rng) = rng_below (length idxs) rng;
            pick = idxs ! p;
            (w, s, rng) = worker_step now rng (ws ! pick) s
        in run_loop g (now + 1) rng (ws[pick := w]) s)"

text \<open>The final sweep aborts what is undecided and clears what is aborted.\<close>

fun sweep_keys :: "(string \<times> cell) list \<Rightarrow> pstore \<Rightarrow> pstore" where
  "sweep_keys [] s = s"
| "sweep_keys ((k, LogCell t _ _) # kcs) s =
     (let s = (if p_resolved s t = None then snd (p_create (p_outcome_key t) (Outcome False) s) else s);
          s = (if p_resolved s t = Some False then p_delete k s else s)
      in sweep_keys kcs s)"
| "sweep_keys (_ # kcs) s = sweep_keys kcs s"

definition account_names :: "nat \<Rightarrow> string list" where
  "account_names n = map (\<lambda>i. ''acct'' @ show_nat i) [0..<n]"

definition fresh_store :: "string list \<Rightarrow> pstore" where
  "fresh_store names = foldl (\<lambda>s a. p_put (p_base_key a) (Base 0 100) s) [] names"

definition worker_acked :: "worker \<Rightarrow> bool" where
  "worker_acked w = (case w of WLog x \<Rightarrow> x_acked x | WNaive _ \<Rightarrow> False)"

definition make_report :: "bool \<Rightarrow> string list \<Rightarrow> nat \<Rightarrow> worker list \<Rightarrow> pstore \<Rightarrow> report" where
  "make_report broken names paused ws s =
     (let s = (if broken then s else sweep_keys s s);
          total_end = sum_list (map (\<lambda>a. snd (read_committed s a)) names);
          total_start = 100 * int (length names)
      in \<lparr>r_committed = length (filter (\<lambda>w. case w of WLog x \<Rightarrow> x_step x = Finished \<and> x_acked x | _ \<Rightarrow> False) ws),
          r_given_up = length (filter (\<lambda>w. case w of WLog x \<Rightarrow> x_step x = Aborted | _ \<Rightarrow> False) ws),
          r_paused = paused,
          r_conserved = (total_end = total_start),
          r_ack_consistent = list_all (\<lambda>w. case w of WLog x \<Rightarrow> \<not> x_acked x \<or> p_committed s (x_tid x) | _ \<Rightarrow> True) ws,
          r_total_end = total_end,
          r_total_start = total_start\<rparr>)"

definition proto_run :: "u64 \<Rightarrow> bool \<Rightarrow> report option" where
  "proto_run seed broken =
     (let rng = xor seed 0xDEADBEEF;
          (a, rng) = rng_below 4 rng; accounts = 3 + a;
          (w, rng) = rng_below 4 rng; workers = 2 + w;
          (m, rng) = rng_below 40 rng; n = 20 + m;
          names = account_names accounts
      in case gen_workers (workers * (n div workers + 1)) names broken 1 rng of
           None \<Rightarrow> None
         | Some (active, paused, rng) \<Rightarrow>
             let (ws, s) = run_loop 2000001 0 rng active (fresh_store names)
             in Some (make_report broken names paused ws s))"

record psweep =
  s_viol :: nat
  s_cons_fail :: nat
  s_ack_fail :: nat
  s_committed :: nat
  s_given_up :: nat
  s_paused :: nat
  s_first_bad :: "(u64 \<times> int \<times> int) option"

definition sweep_add :: "u64 \<Rightarrow> report \<Rightarrow> psweep \<Rightarrow> psweep" where
  "sweep_add seed r z =
     (let z = z\<lparr>s_committed := s_committed z + r_committed r, s_given_up := s_given_up z + r_given_up r,
                s_paused := s_paused z + r_paused r\<rparr>;
          z = (if \<not> r_conserved r then z\<lparr>s_cons_fail := s_cons_fail z + 1\<rparr> else z);
          z = (if \<not> r_ack_consistent r then z\<lparr>s_ack_fail := s_ack_fail z + 1\<rparr> else z)
      in if \<not> r_conserved r \<or> \<not> r_ack_consistent r then
           z\<lparr>s_viol := s_viol z + 1,
             s_first_bad := (case s_first_bad z of None \<Rightarrow> Some (seed, r_total_end r, r_total_start r) | b \<Rightarrow> b)\<rparr>
         else z)"

fun sweep_from :: "nat \<Rightarrow> u64 \<Rightarrow> bool \<Rightarrow> psweep \<Rightarrow> psweep option" where
  "sweep_from 0 seed broken z = Some z"
| "sweep_from (Suc k) seed broken z = (case proto_run seed broken of
     None \<Rightarrow> None
   | Some r \<Rightarrow> sweep_from k (seed + 1) broken (sweep_add seed r z))"

definition sweep_seeds :: "nat \<Rightarrow> bool \<Rightarrow> psweep option" where
  "sweep_seeds seeds broken = sweep_from seeds 0 broken
     \<lparr>s_viol = 0, s_cons_fail = 0, s_ack_fail = 0, s_committed = 0, s_given_up = 0, s_paused = 0,
      s_first_bad = None\<rparr>"

end
