(* ===== verification/Proto_Safety.thy ===== *)
theory Proto_Safety
  imports Protosim
begin

text \<open>
  Why the protocol of \<open>bin/protosim.rs\<close> is right: an invariant of the store and the transfers that
  every store operation keeps, whatever the schedule, the pauses and the crashes. It gives
  conservation of the total, non-negative balances and truthful acknowledgements for every seed
  the simulator can be given.
\<close>

section \<open>The committed view and what leaves it alone\<close>

lemma resolved_log [simp]:
  "p_resolved (p_delete (p_log_key a n) s) t = p_resolved s t"
  "p_resolved (p_put (p_log_key a n) c s) t = p_resolved s t"
  "p_committed (p_delete (p_log_key a n) s) t = p_committed s t"
  "p_committed (p_put (p_log_key a n) c s) t = p_committed s t"
  by (simp_all add: p_resolved_def p_committed_def pkv.get_delete pkv.get_put)

lemma resolved_outcome [simp]:
  "p_resolved (p_put (p_outcome_key u) (Outcome b) s) t = (if t = u then Some b else p_resolved s t)"
  "p_committed (p_put (p_outcome_key u) (Outcome b) s) t = (if t = u then b else p_committed s t)"
  by (auto simp: p_resolved_def p_committed_def pkv.get_put)

lemma slot_delta_create [simp]:
  "p_get s (p_log_key a n) = None \<Longrightarrow> \<not> p_committed s t \<Longrightarrow>
   slot_delta (p_put (p_log_key a n) (LogCell t d b) s) a' m = slot_delta s a' m"
  by (auto simp: slot_delta_def pkv.get_put split: option.split cell.split)

lemma slot_delta_delete [simp]:
  "slot_delta s a n = None \<Longrightarrow> slot_delta (p_delete (p_log_key a n) s) a' m = slot_delta s a' m"
  by (auto simp: slot_delta_def pkv.get_delete split: option.splits cell.splits)

lemma slot_delta_abort [simp]:
  "p_get s (p_outcome_key t) = None \<Longrightarrow>
   slot_delta (p_put (p_outcome_key t) (Outcome False) s) a m = slot_delta s a m"
  by (auto simp: slot_delta_def p_committed_def pkv.get_put split: option.split cell.split)

lemma slot_delta_commit:
  "p_get s (p_outcome_key t) = None \<Longrightarrow>
   slot_delta (p_put (p_outcome_key t) (Outcome True) s) a m =
     (case p_get s (p_log_key a m) of
        Some (LogCell u d _) \<Rightarrow> if u = t then Some d else slot_delta s a m
      | _ \<Rightarrow> None)"
  by (auto simp: slot_delta_def p_committed_def pkv.get_put split: option.split cell.split)

lemma read_from_cong:
  "(\<And>n. slot_delta s' a n = slot_delta s a n) \<Longrightarrow> read_from s' a q v = read_from s a q v"
proof (induction s a q v rule: read_from.induct)
  case (1 s a q v)
  then show ?case
    by (simp add: read_from.simps[of s' a q v] read_from.simps[of s a q v] split: option.split)
qed

lemma read_from_end: "read_from s a q v = (r, w) \<Longrightarrow> slot_delta s a (Suc r) = None \<and> q \<le> r"
proof (induction s a q v rule: read_from.induct)
  case (1 s a q v)
  then show ?case
    by (cases "slot_delta s a (Suc q)") (auto simp: read_from.simps[of s a q v])
qed

lemma read_from_all: "read_from s a q v = (r, w) \<Longrightarrow> q < n \<Longrightarrow> n \<le> r \<Longrightarrow> slot_delta s a n \<noteq> None"
proof (induction s a q v rule: read_from.induct)
  case (1 s a q v)
  then show ?case
    by (cases "slot_delta s a (Suc q)"; cases "n = Suc q") (auto simp: read_from.simps[of s a q v])
qed

lemma read_from_extend:
  assumes "read_from s a q v = (r, w)" "\<And>n. n \<noteq> Suc r \<Longrightarrow> slot_delta s' a n = slot_delta s a n"
    and "slot_delta s' a (Suc r) = Some d" "slot_delta s a (Suc (Suc r)) = None"
  shows "read_from s' a q v = (Suc r, w + d)"
  using assms
proof (induction s a q v rule: read_from.induct)
  case (1 s a q v)
  show ?case
  proof (cases "slot_delta s a (Suc q)")
    case None
    then have "r = q" "w = v" using 1(2) by (auto simp: read_from.simps[of s a q v])
    then show ?thesis
      using 1(3)[of "Suc (Suc q)"] 1(4,5)
      by (simp add: read_from.simps[of s' a q v] read_from.simps[of s' a "Suc q"])
  next
    case (Some e)
    then have rec: "read_from s a (Suc q) (v + e) = (r, w)"
      using 1(2) by (simp add: read_from.simps[of s a q v])
    then have "q \<noteq> r" using read_from_end[OF rec] by auto
    then have "slot_delta s' a (Suc q) = Some e" using 1(3)[of "Suc q"] Some by simp
    then show ?thesis using 1(1)[OF Some rec 1(3,4,5)] by (simp add: read_from.simps[of s' a q v])
  qed
qed

lemma view_cong:
  "(\<And>n. slot_delta s' a n = slot_delta s a n) \<Longrightarrow> p_get s' (p_base_key a) = p_get s (p_base_key a) \<Longrightarrow>
   read_committed s' a = read_committed s a"
  by (simp add: read_committed_def read_from_cong[of s' a s])

section \<open>The invariant\<close>

text \<open>The store: base cells start at sequence zero, cells have the right kind, and no slot lies past
  the first free one of its account.\<close>

definition store_ok :: "pstore \<Rightarrow> bool" where
  "store_ok s \<longleftrightarrow>
     (\<forall>a q v. p_get s (p_base_key a) = Some (Base q v) \<longrightarrow> q = 0)
     \<and> (\<forall>a n c. p_get s (p_log_key a n) = Some c \<longrightarrow> (\<exists>t d b. c = LogCell t d b) \<and> n \<le> Suc (fst (read_committed s a)))
     \<and> (\<forall>t c. p_get s (p_outcome_key t) = Some c \<longrightarrow> (\<exists>b. c = Outcome b))"

definition claim :: "xfer \<Rightarrow> string \<Rightarrow> nat \<Rightarrow> int \<Rightarrow> bool" where
  "claim x a n d \<longleftrightarrow>
     x_made_low x \<and> a = x_low x \<and> n = Suc (x_low_seq x) \<and> d = x_low_delta x
     \<or> x_made_high x \<and> a = x_high x \<and> n = Suc (x_high_seq x) \<and> d = x_high_delta x"

definition x_from_seq :: "xfer \<Rightarrow> nat" where
  "x_from_seq x = (if x_low x = x_from x then x_low_seq x else x_high_seq x)"

definition xfer_static :: "xfer \<Rightarrow> bool" where
  "xfer_static x \<longleftrightarrow>
     x_low x \<noteq> x_high x \<and> (x_from x = x_low x \<or> x_from x = x_high x) \<and> 0 \<le> x_amt x
     \<and> x_low_delta x = (if x_low x = x_from x then - x_amt x else x_amt x)
     \<and> x_high_delta x = - x_low_delta x"

lemma xfer_static_update [simp]:
  "xfer_static (x\<lparr>x_step := v0\<rparr>) = xfer_static x"
  "xfer_static (x\<lparr>x_made_low := v1\<rparr>) = xfer_static x"
  "xfer_static (x\<lparr>x_made_high := v2\<rparr>) = xfer_static x"
  "xfer_static (x\<lparr>x_low_seq := v3\<rparr>) = xfer_static x"
  "xfer_static (x\<lparr>x_high_seq := v4\<rparr>) = xfer_static x"
  "xfer_static (x\<lparr>x_retries := v5\<rparr>) = xfer_static x"
  "xfer_static (x\<lparr>x_resume_at := v6\<rparr>) = xfer_static x"
  "xfer_static (x\<lparr>x_pause_budget := v7\<rparr>) = xfer_static x"
  "xfer_static (x\<lparr>x_acked := v8\<rparr>) = xfer_static x"
  by (simp_all add: xfer_static_def)

definition xfer_flags :: "xfer \<Rightarrow> bool" where
  "xfer_flags x \<longleftrightarrow>
     (x_made_low x \<longleftrightarrow> x_step x \<in> {PreHigh, Commit, Crashed, Finished})
     \<and> (x_made_high x \<longleftrightarrow> x_step x \<in> {Commit, Crashed, Finished})
     \<and> (x_acked x \<longleftrightarrow> x_step x = Finished)"

definition xfer_seqs :: "pstore \<Rightarrow> xfer \<Rightarrow> bool" where
  "xfer_seqs s x \<longleftrightarrow> (x_step x \<in> {PreLow, PreHigh, Commit, Crashed} \<longrightarrow>
     x_low_seq x \<le> fst (read_committed s (x_low x)) \<and> x_high_seq x \<le> fst (read_committed s (x_high x))
     \<and> (fst (read_committed s (x_from x)) = x_from_seq x \<longrightarrow> x_amt x \<le> snd (read_committed s (x_from x))))"

definition has_entry :: "pstore \<Rightarrow> nat \<Rightarrow> string \<Rightarrow> nat \<Rightarrow> int \<Rightarrow> bool" where
  "has_entry s t a n d \<longleftrightarrow> (\<exists>b. p_get s (p_log_key a n) = Some (LogCell t d b))"

definition xfer_present :: "pstore \<Rightarrow> xfer \<Rightarrow> bool" where
  "xfer_present s x \<longleftrightarrow> (p_resolved s (x_tid x) \<noteq> Some False \<longrightarrow>
     (x_made_low x \<longrightarrow> has_entry s (x_tid x) (x_low x) (Suc (x_low_seq x)) (x_low_delta x))
     \<and> (x_made_high x \<longrightarrow> has_entry s (x_tid x) (x_high x) (Suc (x_high_seq x)) (x_high_delta x)))"

definition xfer_ok :: "pstore \<Rightarrow> xfer \<Rightarrow> bool" where
  "xfer_ok s x \<longleftrightarrow> xfer_static x \<and> xfer_flags x \<and> xfer_seqs s x \<and> xfer_present s x
     \<and> (x_step x = Finished \<longleftrightarrow> p_committed s (x_tid x))"

definition owned :: "pstore \<Rightarrow> xfer list \<Rightarrow> bool" where
  "owned s xs \<longleftrightarrow> (\<forall>a n t d b. p_get s (p_log_key a n) = Some (LogCell t d b) \<longrightarrow>
     (\<exists>x \<in> set xs. x_tid x = t \<and> claim x a n d))"

definition proto_inv :: "pstore \<Rightarrow> xfer list \<Rightarrow> bool" where
  "proto_inv s xs \<longleftrightarrow>
     store_ok s \<and> distinct (map x_tid xs) \<and> (\<forall>x \<in> set xs. xfer_ok s x) \<and> owned s xs
     \<and> (\<forall>a. 0 \<le> snd (read_committed s a))"

text \<open>What a change of the store means for a transfer that did not make it.\<close>

definition frame :: "nat \<Rightarrow> pstore \<Rightarrow> pstore \<Rightarrow> bool" where
  "frame t s s' \<longleftrightarrow>
     (\<forall>a. fst (read_committed s a) \<le> fst (read_committed s' a)
        \<and> (fst (read_committed s' a) = fst (read_committed s a) \<longrightarrow> read_committed s' a = read_committed s a))
     \<and> p_committed s' t = p_committed s t
     \<and> (p_resolved s' t \<noteq> Some False \<longrightarrow> p_resolved s t \<noteq> Some False
        \<and> (\<forall>a n d b. p_get s (p_log_key a n) = Some (LogCell t d b) \<longrightarrow> p_get s' (p_log_key a n) = Some (LogCell t d b)))"

lemma frame_refl [simp]: "frame t s s"
  by (simp add: frame_def)

lemma frame_view:
  assumes "frame t s s'"
  shows "fst (read_committed s a) \<le> fst (read_committed s' a)"
    and "fst (read_committed s' a) = fst (read_committed s a) \<Longrightarrow> read_committed s' a = read_committed s a"
  using assms by (simp_all add: frame_def)

lemma frame_entry: "frame t s s' \<Longrightarrow> p_resolved s' t \<noteq> Some False \<Longrightarrow> has_entry s t a n d \<Longrightarrow> has_entry s' t a n d"
  unfolding frame_def has_entry_def by blast

lemma frame_resolved: "frame t s s' \<Longrightarrow> p_resolved s' t \<noteq> Some False \<Longrightarrow> p_resolved s t \<noteq> Some False"
  by (simp add: frame_def)

lemma frame_trans:
  assumes "frame t s s1" "frame t s1 s2"
  shows "frame t s s2"
  unfolding frame_def
proof (intro conjI allI impI)
  fix a
  show "fst (read_committed s a) \<le> fst (read_committed s2 a)"
    using frame_view(1)[OF assms(1)] frame_view(1)[OF assms(2)] order_trans by blast
  assume "fst (read_committed s2 a) = fst (read_committed s a)"
  then show "read_committed s2 a = read_committed s a"
    using frame_view[OF assms(1), of a] frame_view[OF assms(2), of a] by simp
next
  show "p_committed s2 t = p_committed s t" using assms by (simp add: frame_def)
  assume r: "p_resolved s2 t \<noteq> Some False"
  show "p_resolved s t \<noteq> Some False" using frame_resolved[OF assms(1) frame_resolved[OF assms(2) r]] .
  fix a n d b assume "p_get s (p_log_key a n) = Some (LogCell t d b)"
  then show "p_get s2 (p_log_key a n) = Some (LogCell t d b)"
    using assms r frame_resolved[OF assms(2) r] unfolding frame_def by blast
qed

lemma xfer_seqs_frame:
  assumes "xfer_seqs s x" "xfer_static x" "frame t s s'"
  shows "xfer_seqs s' x"
  unfolding xfer_seqs_def
proof (intro impI conjI)
  assume st: "x_step x \<in> {PreLow, PreHigh, Commit, Crashed}"
  note mono = frame_view(1)[OF assms(3)] and same = frame_view(2)[OF assms(3)]
  have old: "x_low_seq x \<le> fst (read_committed s (x_low x))" "x_high_seq x \<le> fst (read_committed s (x_high x))"
    "fst (read_committed s (x_from x)) = x_from_seq x \<Longrightarrow> x_amt x \<le> snd (read_committed s (x_from x))"
    using assms(1) st by (auto simp: xfer_seqs_def)
  show "x_low_seq x \<le> fst (read_committed s' (x_low x))" by (rule order_trans[OF old(1) mono])
  show "x_high_seq x \<le> fst (read_committed s' (x_high x))" by (rule order_trans[OF old(2) mono])
  assume eq: "fst (read_committed s' (x_from x)) = x_from_seq x"
  have "x_from_seq x \<le> fst (read_committed s (x_from x))"
  proof (cases "x_low x = x_from x")
    case True
    then show ?thesis using old(1) by (simp add: x_from_seq_def)
  next
    case False
    then have "x_from x = x_high x" using assms(2) by (auto simp: xfer_static_def)
    then show ?thesis using old(2) False by (simp add: x_from_seq_def)
  qed
  then have eq': "fst (read_committed s (x_from x)) = x_from_seq x" using mono[of "x_from x"] eq by simp
  then show "x_amt x \<le> snd (read_committed s' (x_from x))" using same[of "x_from x"] eq old(3) by simp
qed

lemma xfer_ok_frame:
  assumes "xfer_ok s x" "frame (x_tid x) s s'"
  shows "xfer_ok s' x"
proof -
  have "xfer_present s' x"
    using assms(1) frame_entry[OF assms(2)] frame_resolved[OF assms(2)]
    by (simp add: xfer_ok_def xfer_present_def)
  moreover have "p_committed s' (x_tid x) = p_committed s (x_tid x)" using assms(2) by (simp add: frame_def)
  ultimately show ?thesis using assms xfer_seqs_frame[of s x] by (simp add: xfer_ok_def)
qed

section \<open>Operations that leave the view alone\<close>

text \<open>\<open>quiet\<close>: the view and the base are the same, and no log cell is new.\<close>

definition quiet :: "pstore \<Rightarrow> pstore \<Rightarrow> bool" where
  "quiet s s' \<longleftrightarrow>
     (\<forall>a n. slot_delta s' a n = slot_delta s a n) \<and> (\<forall>a. p_get s' (p_base_key a) = p_get s (p_base_key a))
     \<and> (\<forall>a n c. p_get s' (p_log_key a n) = Some c \<longrightarrow> p_get s (p_log_key a n) = Some c)
     \<and> (\<forall>t c. p_get s' (p_outcome_key t) = Some c \<longrightarrow> p_get s (p_outcome_key t) = Some c \<or> c = Outcome False)"

lemma quiet_refl [simp]: "quiet s s"
  by (simp add: quiet_def)

lemma quiet_trans: "quiet s s1 \<Longrightarrow> quiet s1 s2 \<Longrightarrow> quiet s s2"
  unfolding quiet_def by metis

lemma quiet_view: "quiet s s' \<Longrightarrow> read_committed s' a = read_committed s a"
  by (rule view_cong) (auto simp: quiet_def)

lemma quiet_store_ok:
  assumes "quiet s s'" "store_ok s"
  shows "store_ok s'"
proof -
  have "q = 0" if "p_get s' (p_base_key a) = Some (Base q v)" for a q v
  proof -
    have "p_get s (p_base_key a) = Some (Base q v)" using that assms(1) by (simp add: quiet_def)
    then show ?thesis using assms(2) unfolding store_ok_def by blast
  qed
  moreover have "(\<exists>t d b. c = LogCell t d b) \<and> n \<le> Suc (fst (read_committed s' a))"
    if "p_get s' (p_log_key a n) = Some c" for a n c
  proof -
    have "p_get s (p_log_key a n) = Some c" using that assms(1) unfolding quiet_def by blast
    then show ?thesis using assms(2) quiet_view[OF assms(1), of a] unfolding store_ok_def by metis
  qed
  moreover have "\<exists>b. c = Outcome b" if "p_get s' (p_outcome_key t) = Some c" for t c
    using that assms unfolding quiet_def store_ok_def by blast
  ultimately show ?thesis unfolding store_ok_def by blast
qed

lemma quiet_delete: "slot_delta s a n = None \<Longrightarrow> quiet s (p_delete (p_log_key a n) s)"
  by (auto simp: quiet_def pkv.get_delete)

lemma quiet_abort: "p_get s (p_outcome_key t) = None \<Longrightarrow> quiet s (p_put (p_outcome_key t) (Outcome False) s)"
  by (auto simp: quiet_def pkv.get_put)

lemma quiet_frame:
  assumes "quiet s s'" "p_committed s' t = p_committed s t"
    and "p_resolved s' t \<noteq> Some False \<Longrightarrow> p_resolved s t \<noteq> Some False
        \<and> (\<forall>a n d b. p_get s (p_log_key a n) = Some (LogCell t d b) \<longrightarrow> p_get s' (p_log_key a n) = Some (LogCell t d b))"
  shows "frame t s s'"
  using assms quiet_view[OF assms(1)] by (simp add: frame_def)

lemma resolved_iff:
  assumes "store_ok s"
  shows "p_resolved s t = None \<longleftrightarrow> p_get s (p_outcome_key t) = None"
    and "p_resolved s t = Some True \<longleftrightarrow> p_committed s t"
  using assms by (auto simp: p_resolved_def p_committed_def store_ok_def split: option.splits cell.splits)

text \<open>Deleting an aborted transaction's entry disturbs nobody.\<close>

lemma delete_aborted:
  assumes "store_ok s" "p_get s (p_log_key a n) = Some (LogCell t d b)" "p_resolved s t = Some False"
  shows "quiet s (p_delete (p_log_key a n) s)" "frame u s (p_delete (p_log_key a n) s)"
proof -
  have "\<not> p_committed s t" using assms resolved_iff(2)[OF assms(1), of t] by auto
  then show q: "quiet s (p_delete (p_log_key a n) s)"
    using assms(2) by (intro quiet_delete) (simp add: slot_delta_def)
  show "frame u s (p_delete (p_log_key a n) s)"
    by (rule quiet_frame[OF q]) (use assms(2,3) in \<open>auto simp: pkv.get_delete\<close>)
qed

lemma abort_undecided:
  assumes "p_get s (p_outcome_key t) = None"
  shows "quiet s (p_put (p_outcome_key t) (Outcome False) s)" "frame u s (p_put (p_outcome_key t) (Outcome False) s)"
proof -
  show q: "quiet s (p_put (p_outcome_key t) (Outcome False) s)" by (rule quiet_abort[OF assms])
  show "frame u s (p_put (p_outcome_key t) (Outcome False) s)"
    by (rule quiet_frame[OF q])
       (use assms in \<open>auto simp: pkv.get_put p_committed_def p_resolved_def split: if_splits\<close>)
qed

lemma resolve_slot_ok:
  assumes "store_ok s" "resolve_slot s a n now = (freed, s')"
  shows "quiet s s' \<and> (\<forall>u. frame u s s')"
proof (cases "p_get s (p_log_key a n)")
  case None
  then show ?thesis using assms(2) by (simp add: resolve_slot_def)
next
  case (Some c)
  then obtain t d b where c: "c = LogCell t d b" using assms(1) unfolding store_ok_def by blast
  have entry: "p_get s (p_log_key a n) = Some (LogCell t d b)" using Some c by simp
  consider "p_resolved s t = Some True" | "p_resolved s t = Some False"
    | "p_resolved s t = None" "now - b \<le> TTL" | "p_resolved s t = None" "\<not> now - b \<le> TTL"
    by (cases "p_resolved s t") auto
  then show ?thesis
  proof cases
    case 2
    then have "s' = p_delete (p_log_key a n) s" using assms(2) entry by (simp add: resolve_slot_def)
    then show ?thesis using delete_aborted[OF assms(1) entry 2] by simp
  next
    case 4
    let ?s1 = "p_put (p_outcome_key t) (Outcome False) s"
    have none: "p_get s (p_outcome_key t) = None" using 4(1) resolved_iff(1)[OF assms(1)] by simp
    then have s': "s' = p_delete (p_log_key a n) ?s1"
      using assms(2) entry 4 by (simp add: resolve_slot_def pkv.create_fresh)
    note one = abort_undecided[OF none]
    have "p_get ?s1 (p_log_key a n) = Some (LogCell t d b)" using entry by (simp add: pkv.get_put)
    note two = delete_aborted[OF quiet_store_ok[OF one(1) assms(1)] this]
    show ?thesis unfolding s' using one two quiet_trans frame_trans by (metis resolved_outcome(1))
  qed (use assms(2) entry in \<open>simp_all add: resolve_slot_def\<close>)
qed

text \<open>A rollback of an uncommitted transfer removes its entries and nothing else.\<close>

lemma safe_delete_ok:
  assumes "store_ok s" "\<not> p_committed s t" "s' = safe_delete (p_log_key a n) t s"
  shows "quiet s s'" "u \<noteq> t \<Longrightarrow> frame u s s'" "p_resolved s' v = p_resolved s v"
    and "p_committed s' v = p_committed s v" "p_get s' (p_log_key a n) \<noteq> Some (LogCell t d b)"
proof -
  have "s' = s \<and> (\<forall>d b. p_get s (p_log_key a n) \<noteq> Some (LogCell t d b))
      \<or> s' = p_delete (p_log_key a n) s \<and> (\<exists>d b. p_get s (p_log_key a n) = Some (LogCell t d b))"
    using assms(3) by (auto simp: safe_delete_def split: option.splits cell.splits if_splits)
  then show q: "quiet s s'" and "u \<noteq> t \<Longrightarrow> frame u s s'" and "p_resolved s' v = p_resolved s v"
    and "p_committed s' v = p_committed s v" and "p_get s' (p_log_key a n) \<noteq> Some (LogCell t d b)"
    using assms(2)
    by (auto intro!: quiet_delete quiet_frame simp: slot_delta_def pkv.get_delete)
qed

lemma rollback_ok:
  assumes "store_ok s" "\<not> p_committed s (x_tid x)" "rollback x s = (x', s')" "owned s xs"
    and "x \<in> set xs" "distinct (map x_tid xs)"
  shows "quiet s s' \<and> (\<forall>u. u \<noteq> x_tid x \<longrightarrow> frame u s s') \<and> \<not> p_committed s' (x_tid x)
    \<and> x' = x\<lparr>x_made_low := False, x_made_high := False\<rparr>
    \<and> (\<forall>a n d b. p_get s' (p_log_key a n) \<noteq> Some (LogCell (x_tid x) d b))"
proof -
  let ?t = "x_tid x"
  let ?s1 = "if x_made_high x then safe_delete (p_log_key (x_high x) (x_high_seq x + 1)) ?t s else s"
  let ?s2 = "if x_made_low x then safe_delete (p_log_key (x_low x) (x_low_seq x + 1)) ?t ?s1 else ?s1"
  have s': "s' = ?s2" "x' = x\<lparr>x_made_low := False, x_made_high := False\<rparr>"
    using assms(3) by (auto simp: rollback_def Let_def)
  have one: "quiet s ?s1" "\<And>u. u \<noteq> ?t \<Longrightarrow> frame u s ?s1" "\<not> p_committed ?s1 ?t"
    "x_made_high x \<Longrightarrow> p_get ?s1 (p_log_key (x_high x) (Suc (x_high_seq x))) \<noteq> Some (LogCell ?t d b)" for d b
    using safe_delete_ok[OF assms(1,2) refl, where a = "x_high x" and n = "Suc (x_high_seq x)"] assms(2) by auto
  have ok1: "store_ok ?s1" by (rule quiet_store_ok[OF one(1) assms(1)])
  have two: "quiet ?s1 ?s2" "\<And>u. u \<noteq> ?t \<Longrightarrow> frame u ?s1 ?s2" "\<not> p_committed ?s2 ?t"
    "x_made_low x \<Longrightarrow> p_get ?s2 (p_log_key (x_low x) (Suc (x_low_seq x))) \<noteq> Some (LogCell ?t d b)" for d b
    using safe_delete_ok[OF ok1 one(3) refl, where a = "x_low x" and n = "Suc (x_low_seq x)"] one(3) by auto
  have gone: "p_get ?s2 (p_log_key a n) \<noteq> Some (LogCell ?t d b)" for a n d b
  proof
    assume e2: "p_get ?s2 (p_log_key a n) = Some (LogCell ?t d b)"
    then have e1: "p_get ?s1 (p_log_key a n) = Some (LogCell ?t d b)" using two(1) unfolding quiet_def by blast
    then have e0: "p_get s (p_log_key a n) = Some (LogCell ?t d b)" using one(1) unfolding quiet_def by blast
    then obtain y where y: "y \<in> set xs" "x_tid y = ?t" "claim y a n d" using assms(4) unfolding owned_def by blast
    then have "y = x" using assms(5,6) by (auto simp: distinct_map inj_on_def)
    then show False using y(3) e1 e2 one(4) two(4) by (auto simp: claim_def)
  qed
  show ?thesis
    unfolding s' using quiet_trans[OF one(1) two(1)] frame_trans[OF one(2) two(2)] two(3) gone by blast
qed

section \<open>Every step keeps the invariant\<close>

lemma proto_inv_update:
  assumes inv: "proto_inv s xs" and i: "i < length xs" and tid: "x_tid x' = x_tid (xs ! i)"
    and ok: "store_ok s'" "xfer_ok s' x'"
    and frame: "\<And>u. u \<noteq> x_tid x' \<Longrightarrow> frame u s s'"
    and own: "\<And>a n t d b. p_get s' (p_log_key a n) = Some (LogCell t d b) \<Longrightarrow>
      (if t = x_tid x' then claim x' a n d else p_get s (p_log_key a n) = Some (LogCell t d b))"
    and nonneg: "\<And>a. 0 \<le> snd (read_committed s' a)"
  shows "proto_inv s' (xs[i := x'])"
proof -
  have dist: "distinct (map x_tid xs)" using inv by (simp add: proto_inv_def)
  have other: "x_tid (xs ! j) \<noteq> x_tid x'" if "j < length xs" "j \<noteq> i" for j
    using dist that i tid by (auto simp: distinct_conv_nth)
  have "map x_tid (xs[i := x']) = map x_tid xs" using tid i by (metis list_update_id map_update)
  moreover have "xfer_ok s' (xs[i := x'] ! j)" if "j < length xs" for j
  proof (cases "j = i")
    case False
    have "xfer_ok s (xs ! j)" using inv that by (simp add: proto_inv_def)
    then have "xfer_ok s' (xs ! j)" by (rule xfer_ok_frame[OF _ frame[OF other[OF that False]]])
    then show ?thesis using False by simp
  qed (use ok i in simp)
  then have "\<forall>x \<in> set (xs[i := x']). xfer_ok s' x" by (metis in_set_conv_nth length_list_update)
  moreover have "owned s' (xs[i := x'])"
    unfolding owned_def
  proof (intro allI impI)
    fix a n t d b assume e: "p_get s' (p_log_key a n) = Some (LogCell t d b)"
    show "\<exists>x \<in> set (xs[i := x']). x_tid x = t \<and> claim x a n d"
    proof (cases "t = x_tid x'")
      case True
      then show ?thesis using own[OF e] i set_update_memI by fastforce
    next
      case False
      then have "p_get s (p_log_key a n) = Some (LogCell t d b)" using own[OF e] by simp
      then obtain y where y: "y \<in> set xs" "x_tid y = t" "claim y a n d"
        using inv unfolding proto_inv_def owned_def by blast
      then obtain j where j: "j < length xs" "xs ! j = y" by (auto simp: in_set_conv_nth)
      then have "j \<noteq> i" using False y(2) tid by auto
      then have "y \<in> set (xs[i := x'])" using j by (metis length_list_update nth_list_update_neq nth_mem)
      then show ?thesis using y by blast
    qed
  qed
  ultimately show ?thesis using ok(1) nonneg dist by (simp add: proto_inv_def)
qed

lemma inv_of:
  assumes "proto_inv s xs" "i < length xs"
  shows "store_ok s" "xfer_ok s (xs ! i)" "owned s xs" "distinct (map x_tid xs)" "xs ! i \<in> set xs"
    "0 \<le> snd (read_committed s a)"
  using assms by (auto simp: proto_inv_def)

text \<open>The entries a transfer owns are where it says.\<close>

lemma own_entries:
  assumes "proto_inv s xs" "i < length xs" "p_get s (p_log_key a n) = Some (LogCell (x_tid (xs ! i)) d b)"
  shows "claim (xs ! i) a n d"
proof -
  obtain y where y: "y \<in> set xs" "x_tid y = x_tid (xs ! i)" "claim y a n d"
    using inv_of(3)[OF assms(1,2)] assms(3) unfolding owned_def by blast
  then have "y = xs ! i" using inv_of(4,5)[OF assms(1,2)] by (auto simp: distinct_map inj_on_def)
  then show ?thesis using y by simp
qed

lemma not_committed:
  assumes "proto_inv s xs" "i < length xs" "x_step (xs ! i) \<noteq> Finished"
  shows "\<not> p_committed s (x_tid (xs ! i))" "\<not> x_acked (xs ! i)"
  using inv_of(2)[OF assms(1,2)] assms(3) by (auto simp: xfer_ok_def xfer_flags_def)

lemma quiet_owned: "quiet s s' \<Longrightarrow> owned s xs \<Longrightarrow> owned s' xs"
  unfolding owned_def quiet_def by blast

text \<open>Going back to the start after a failed attempt.\<close>

lemma back_inv:
  assumes inv: "proto_inv s xs" "i < length xs" and x: "x = xs ! i" and run: "x_step x \<noteq> Finished"
    and q: "quiet s s1" "\<And>u. frame u s s1" and rb: "rollback x s1 = (x1, s2)"
    and x': "x' = x1\<lparr>x_retries := r, x_resume_at := 0, x_step := st\<rparr>" "st = Read \<or> st = Aborted"
  shows "proto_inv s2 (xs[i := x']) \<and> quiet s s2"
proof -
  have nc: "\<not> p_committed s (x_tid x)" "\<not> x_acked x" using not_committed[OF inv] x run by auto
  have nc1: "\<not> p_committed s1 (x_tid x)" using nc(1) q(2)[of "x_tid x"] by (simp add: frame_def)
  have ok1: "store_ok s1" by (rule quiet_store_ok[OF q(1) inv_of(1)[OF inv]])
  have rolled: "quiet s1 s2 \<and> (\<forall>u. u \<noteq> x_tid x \<longrightarrow> frame u s1 s2) \<and> \<not> p_committed s2 (x_tid x)
    \<and> x1 = x\<lparr>x_made_low := False, x_made_high := False\<rparr>
    \<and> (\<forall>a n d b. p_get s2 (p_log_key a n) \<noteq> Some (LogCell (x_tid x) d b))"
    by (rule rollback_ok[OF ok1 nc1 rb quiet_owned[OF q(1) inv_of(3)[OF inv]]])
       (use inv_of(4,5)[OF inv] x in auto)
  have q2: "quiet s s2" using quiet_trans[OF q(1)] rolled by blast
  have tid: "x_tid x' = x_tid (xs ! i)" using rolled x x'(1) by simp
  have static: "xfer_static x" using inv_of(2)[OF inv] x by (simp add: xfer_ok_def)
  have "proto_inv s2 (xs[i := x'])"
  proof (rule proto_inv_update[OF inv tid])
    show "store_ok s2" by (rule quiet_store_ok[OF q2 inv_of(1)[OF inv]])
    show "xfer_ok s2 x'"
      using rolled static nc(2) x' by (auto simp: xfer_ok_def xfer_flags_def xfer_seqs_def xfer_present_def)
    show "frame u s s2" if "u \<noteq> x_tid x'" for u
      using frame_trans[OF q(2)] rolled that tid x by simp
    show "0 \<le> snd (read_committed s2 a)" for a
      using quiet_view[OF q2] inv_of(6)[OF inv] by simp
    show "if t = x_tid x' then claim x' a n d else p_get s (p_log_key a n) = Some (LogCell t d b)"
      if "p_get s2 (p_log_key a n) = Some (LogCell t d b)" for a n t d b
      using that rolled q2 tid x by (auto simp: quiet_def)
  qed
  then show ?thesis using q2 by blast
qed

text \<open>Placing an entry in a free slot.\<close>

lemma create_entry:
  assumes ok: "store_ok s" and free: "p_get s (p_log_key a n) = None" and nc: "\<not> p_committed s t"
    and n: "n \<le> Suc (fst (read_committed s a))" and s'_def: "s' = p_put (p_log_key a n) (LogCell t d b) s"
  shows "store_ok s'" "frame u s s'" "read_committed s' a' = read_committed s a'"
proof -
  show view: "read_committed s' a' = read_committed s a'" for a'
    unfolding s'_def by (rule view_cong) (use free nc in \<open>simp_all add: pkv.get_put\<close>)
  show "frame u s s'"
    using view free by (auto simp: frame_def s'_def pkv.get_put)
  have "q = 0" if "p_get s' (p_base_key c) = Some (Base q v)" for c q v
  proof -
    have "p_get s (p_base_key c) = Some (Base q v)" using that by (simp add: s'_def pkv.get_put)
    then show ?thesis using ok unfolding store_ok_def by blast
  qed
  moreover have "(\<exists>t d b. c = LogCell t d b) \<and> m \<le> Suc (fst (read_committed s' k))"
    if "p_get s' (p_log_key k m) = Some c" for k m c
  proof (cases "k = a \<and> m = n")
    case True
    then show ?thesis using that n view by (auto simp: s'_def pkv.get_put)
  next
    case False
    then have "p_get s (p_log_key k m) = Some c" using that by (auto simp: s'_def pkv.get_put)
    then show ?thesis using ok view[of k] unfolding store_ok_def by metis
  qed
  moreover have "\<exists>b. c = Outcome b" if "p_get s' (p_outcome_key v) = Some c" for v c
  proof -
    have "p_get s (p_outcome_key v) = Some c" using that by (simp add: s'_def pkv.get_put)
    then show ?thesis using ok unfolding store_ok_def by blast
  qed
  ultimately show "store_ok s'" unfolding store_ok_def by blast
qed

lemma maybe_pause_fields:
  assumes "maybe_pause now rng x = (x1, rng1)"
  shows "\<exists>p r. x1 = x\<lparr>x_pause_budget := p, x_resume_at := r\<rparr>"
proof (cases "x1 = x")
  case True
  then have "x1 = x\<lparr>x_pause_budget := x_pause_budget x, x_resume_at := x_resume_at x\<rparr>" by simp
  then show ?thesis by blast
next
  case False
  then show ?thesis using assms by (auto simp: maybe_pause_def Let_def split: if_splits prod.splits)
qed

text \<open>A quiet change that frames everybody keeps the invariant as it is.\<close>

lemma quiet_inv:
  assumes inv: "proto_inv s xs" and q: "quiet s s1" "\<And>u. frame u s s1"
  shows "proto_inv s1 xs"
proof -
  have "xfer_ok s1 x" if "x \<in> set xs" for x
  proof -
    have "xfer_ok s x" using inv that by (simp add: proto_inv_def)
    then show ?thesis using q(2) by (rule xfer_ok_frame)
  qed
  then show ?thesis
    using inv quiet_store_ok[OF q(1)] quiet_owned[OF q(1), of xs] quiet_view[OF q(1)] by (simp add: proto_inv_def)
qed

text \<open>The effect of a step on the balances: a commit moves the amount, everything else nothing.\<close>

definition moves :: "pstore \<Rightarrow> pstore \<Rightarrow> xfer \<Rightarrow> bool" where
  "moves s s' x \<longleftrightarrow> (\<exists>d. \<forall>a. snd (read_committed s' a) =
     snd (read_committed s a) + (if a = x_low x then d else 0) - (if a = x_high x then d else 0))"

lemma moves_same: "(\<And>a. read_committed s' a = read_committed s a) \<Longrightarrow> moves s s' x"
  by (auto simp: moves_def intro: exI[of _ 0])

lemma step_read_inv:
  assumes inv: "proto_inv s xs" "i < length xs" and x: "x = xs ! i" "x_step x = Read"
    and st: "xfer_step now rng x s = (x', s', rng')"
  shows "proto_inv s' (xs[i := x']) \<and> moves s s' x"
proof -
  have s': "s' = s" using st x(2) by (auto simp: Let_def split: prod.splits if_splits)
  have ok: "xfer_ok s x" using inv_of(2)[OF inv] x(1) by simp
  have flags: "\<not> x_made_low x" "\<not> x_made_high x" "\<not> x_acked x" "\<not> p_committed s (x_tid x)"
    using ok x(2) by (auto simp: xfer_ok_def xfer_flags_def)
  have x': "x' = x\<lparr>x_step := Aborted\<rparr> \<or>
      x' = x\<lparr>x_low_seq := fst (read_committed s (x_low x)), x_high_seq := fst (read_committed s (x_high x)), x_step := PreLow\<rparr>
      \<and> x_amt x \<le> snd (read_committed s (x_from x))"
    using st x(2) by (auto simp: Let_def split: prod.splits if_splits)
  have tid: "x_tid x' = x_tid (xs ! i)" using x' x(1) by auto
  have "proto_inv s (xs[i := x'])"
  proof (rule proto_inv_update[OF inv tid inv_of(1)[OF inv]])
    have "xfer_seqs s x'"
      using x' by (elim disjE conjE) (simp_all add: xfer_seqs_def)
    moreover have "xfer_static x'" using x' ok by (elim disjE conjE) (simp_all add: xfer_ok_def)
    moreover have "xfer_flags x' \<and> xfer_present s x' \<and> x_step x' \<noteq> Finished \<and> x_tid x' = x_tid x"
      using x' flags by (elim disjE conjE) (simp_all add: xfer_flags_def xfer_present_def)
    ultimately show "xfer_ok s x'" using flags(4) by (simp add: xfer_ok_def)
    show "if t = x_tid x' then claim x' a n d else p_get s (p_log_key a n) = Some (LogCell t d b)"
      if "p_get s (p_log_key a n) = Some (LogCell t d b)" for a n t d b
      using that own_entries[OF inv, of a n d b] flags x(1) tid by (auto simp: claim_def)
  qed (use inv_of(6)[OF inv] in simp_all)
  then show ?thesis using s' moves_same by simp
qed


lemma step_low_inv:
  assumes inv: "proto_inv s xs" "i < length xs" and x: "x = xs ! i" "x_step x = PreLow"
    and st: "xfer_step now rng x s = (x', s', rng')"
  shows "proto_inv s' (xs[i := x']) \<and> moves s s' x"
proof -
  let ?k = "p_log_key (x_low x) (Suc (x_low_seq x))"
  have ok: "xfer_ok s x" using inv_of(2)[OF inv] x(1) by simp
  have flags: "\<not> x_made_low x" "\<not> x_made_high x" "\<not> x_acked x" "\<not> p_committed s (x_tid x)"
    using ok x(2) by (auto simp: xfer_ok_def xfer_flags_def)
  have seqs: "x_low_seq x \<le> fst (read_committed s (x_low x))" using ok x(2) by (auto simp: xfer_ok_def xfer_seqs_def)
  show ?thesis
  proof (cases "p_get s ?k")
    case None
    obtain x1 rng1 where mp: "maybe_pause now rng (x\<lparr>x_made_low := True\<rparr>) = (x1, rng1)" by force
    obtain p r where x1: "x1 = x\<lparr>x_made_low := True, x_pause_budget := p, x_resume_at := r\<rparr>"
      using maybe_pause_fields[OF mp] by auto
    have s': "s' = p_put ?k (LogCell (x_tid x) (x_low_delta x) now) s" and x': "x' = x1\<lparr>x_step := PreHigh\<rparr>"
      using st x(2) None mp by (auto simp: pkv.create_fresh)
    note new = create_entry[OF inv_of(1)[OF inv] None flags(4) _ s']
    have n: "Suc (x_low_seq x) \<le> Suc (fst (read_committed s (x_low x)))" using seqs by simp
    have tid: "x_tid x' = x_tid (xs ! i)" using x' x1 x(1) by simp
    have "proto_inv s' (xs[i := x'])"
    proof (rule proto_inv_update[OF inv tid new(1)[OF n]])
      have "xfer_seqs s' x'"
        using ok x(2) new(3)[OF n] by (auto simp: x' x1 xfer_ok_def xfer_seqs_def x_from_seq_def)
      moreover have "has_entry s' (x_tid x) (x_low x) (Suc (x_low_seq x)) (x_low_delta x)"
        by (simp add: has_entry_def s' pkv.get_put)
      ultimately show "xfer_ok s' x'"
        using ok flags by (auto simp: xfer_ok_def xfer_flags_def xfer_present_def x' x1 s')
      show "if t = x_tid x' then claim x' a n d else p_get s (p_log_key a n) = Some (LogCell t d b)"
        if "p_get s' (p_log_key a n) = Some (LogCell t d b)" for a n t d b
        using that own_entries[OF inv, of a n d b] flags x(1) tid
        by (auto simp: claim_def s' pkv.get_put x' x1 split: if_splits)
    qed (use new(2,3)[OF n] inv_of(6)[OF inv] in simp_all)
    then show ?thesis using moves_same[of s' s x] new(3)[OF n] by simp
  next
    case (Some c)
    obtain freed s1 where rs: "resolve_slot s (x_low x) (Suc (x_low_seq x)) now = (freed, s1)" by force
    note q = resolve_slot_ok[OF inv_of(1)[OF inv] rs]
    have run: "x_step x \<noteq> Finished" using x(2) by simp
    show ?thesis
    proof (cases freed)
      case True
      then have e: "s' = s1" "x' = x" using st x(2) Some rs by (auto simp: pkv.create_taken)
      have "proto_inv s1 xs" by (rule quiet_inv[OF inv(1)]) (use q in auto)
      moreover have "xs[i := x'] = xs" using e(2) x(1) by simp
      moreover have "moves s s1 x" by (rule moves_same) (use q quiet_view in blast)
      ultimately show ?thesis using e(1) by simp
    next
      case False
      obtain x1 s2 where rb: "rollback x s1 = (x1, s2)" by force
      have e: "s' = s2" "x' = x1\<lparr>x_retries := x_retries x1 + 1, x_resume_at := 0,
          x_step := (if 120 < x_retries x1 + 1 then Aborted else Read)\<rparr>"
        using st x(2) Some rs False rb by (auto simp: pkv.create_taken reset_or_giveup_def)
      have "proto_inv s2 (xs[i := x']) \<and> quiet s s2"
        by (rule back_inv[OF inv x(1) run _ _ rb e(2)]) (use q in auto)
      moreover have "moves s s2 x" by (rule moves_same) (use calculation quiet_view in blast)
      ultimately show ?thesis using e(1) by simp
    qed
  qed
qed

lemma rollback_again:
  assumes "rollback x s = (x1, s1)"
  shows "reset_or_giveup x1 s1 = (x1\<lparr>x_retries := x_retries x1 + 1, x_resume_at := 0,
     x_step := (if 120 < x_retries x1 + 1 then Aborted else Read)\<rparr>, s1)"
proof -
  have x1: "\<not> x_made_low x1" "\<not> x_made_high x1" "x1\<lparr>x_made_low := False, x_made_high := False\<rparr> = x1"
    using assms by (auto simp: rollback_def Let_def)
  then have "rollback x1 s1 = (x1, s1)" by (simp add: rollback_def)
  then show ?thesis by (simp add: reset_or_giveup_def)
qed

lemma step_high_inv:
  assumes inv: "proto_inv s xs" "i < length xs" and x: "x = xs ! i" "x_step x = PreHigh"
    and st: "xfer_step now rng x s = (x', s', rng')"
  shows "proto_inv s' (xs[i := x']) \<and> moves s s' x"
proof -
  let ?k = "p_log_key (x_high x) (Suc (x_high_seq x))"
  have ok: "xfer_ok s x" using inv_of(2)[OF inv] x(1) by simp
  have flags: "x_made_low x" "\<not> x_made_high x" "\<not> x_acked x" "\<not> p_committed s (x_tid x)"
    using ok x(2) by (auto simp: xfer_ok_def xfer_flags_def)
  have seqs: "x_high_seq x \<le> fst (read_committed s (x_high x))" using ok x(2) by (auto simp: xfer_ok_def xfer_seqs_def)
  show ?thesis
  proof (cases "p_get s ?k")
    case None
    obtain x1 rng1 where mp: "maybe_pause now rng (x\<lparr>x_made_high := True\<rparr>) = (x1, rng1)" by force
    have s': "s' = p_put ?k (LogCell (x_tid x) (x_high_delta x) now) s"
      and x': "x' = (if x_crash x then x\<lparr>x_made_high := True, x_step := Crashed\<rparr> else x1\<lparr>x_step := Commit\<rparr>)"
      using st x(2) None mp by (auto simp: pkv.create_fresh Let_def split: if_splits)
    obtain p r z where x'': "x' = x\<lparr>x_made_high := True, x_pause_budget := p, x_resume_at := r, x_step := z\<rparr>"
      and z: "z = Crashed \<or> z = Commit"
    proof (cases "x_crash x")
      case True
      then have "x' = x\<lparr>x_made_high := True, x_pause_budget := x_pause_budget x, x_resume_at := x_resume_at x, x_step := Crashed\<rparr>"
        using x' by simp
      then show ?thesis using that by blast
    next
      case False
      obtain p r where "x1 = x\<lparr>x_made_high := True, x_pause_budget := p, x_resume_at := r\<rparr>"
        using maybe_pause_fields[OF mp] by auto
      then have "x' = x\<lparr>x_made_high := True, x_pause_budget := p, x_resume_at := r, x_step := Commit\<rparr>"
        using x' False by simp
      then show ?thesis using that by blast
    qed
    note new = create_entry[OF inv_of(1)[OF inv] None flags(4) _ s']
    have n: "Suc (x_high_seq x) \<le> Suc (fst (read_committed s (x_high x)))" using seqs by simp
    have tid: "x_tid x' = x_tid (xs ! i)" using x'' x(1) by simp
    have "proto_inv s' (xs[i := x'])"
    proof (rule proto_inv_update[OF inv tid new(1)[OF n]])
      have "xfer_seqs s' x'"
        using ok x(2) new(3)[OF n] by (auto simp: x'' xfer_ok_def xfer_seqs_def x_from_seq_def)
      moreover have "has_entry s' (x_tid x) (x_high x) (Suc (x_high_seq x)) (x_high_delta x)"
        by (simp add: has_entry_def s' pkv.get_put)
      moreover have "has_entry s' (x_tid x) (x_low x) (Suc (x_low_seq x)) (x_low_delta x)"
        if "p_resolved s' (x_tid x) \<noteq> Some False"
        using ok flags(1) that frame_entry[OF new(2)[OF n], of "x_tid x"] frame_resolved[OF new(2)[OF n]]
        by (simp add: xfer_ok_def xfer_present_def)
      ultimately show "xfer_ok s' x'"
        using ok flags z by (auto simp: xfer_ok_def xfer_flags_def xfer_present_def x'' s')
      show "if t = x_tid x' then claim x' a n d else p_get s (p_log_key a n) = Some (LogCell t d b)"
        if "p_get s' (p_log_key a n) = Some (LogCell t d b)" for a n t d b
        using that own_entries[OF inv, of a n d b] flags x(1) tid
        by (auto simp: claim_def s' pkv.get_put x'' split: if_splits)
    qed (use new(2,3)[OF n] inv_of(6)[OF inv] in simp_all)
    then show ?thesis using moves_same[of s' s x] new(3)[OF n] by simp
  next
    case (Some c)
    obtain freed s1 where rs: "resolve_slot s (x_high x) (Suc (x_high_seq x)) now = (freed, s1)" by force
    note q = resolve_slot_ok[OF inv_of(1)[OF inv] rs]
    have run: "x_step x \<noteq> Finished" using x(2) by simp
    show ?thesis
    proof (cases freed)
      case True
      then have e: "s' = s1" "x' = x" using st x(2) Some rs by (auto simp: pkv.create_taken)
      have "proto_inv s1 xs" by (rule quiet_inv[OF inv(1)]) (use q in auto)
      moreover have "xs[i := x'] = xs" using e(2) x(1) by simp
      moreover have "moves s s1 x" by (rule moves_same) (use q quiet_view in blast)
      ultimately show ?thesis using e(1) by simp
    next
      case False
      obtain x1 s2 where rb: "rollback x s1 = (x1, s2)" by force
      have e: "s' = s2" "x' = x1\<lparr>x_retries := x_retries x1 + 1, x_resume_at := 0,
          x_step := (if 120 < x_retries x1 + 1 then Aborted else Read)\<rparr>"
        using st x(2) Some rs False rb rollback_again[OF rb] by (auto simp: pkv.create_taken)
      have "proto_inv s2 (xs[i := x']) \<and> quiet s s2"
        by (rule back_inv[OF inv x(1) run _ _ rb e(2)]) (use q in auto)
      moreover have "moves s s2 x" by (rule moves_same) (use calculation quiet_view in blast)
      ultimately show ?thesis using e(1) by simp
    qed
  qed
qed


section \<open>The commit point\<close>

text \<open>An undecided transfer that has both entries is next in line on both accounts.\<close>

lemma view_reads: "\<exists>v. read_committed s a = read_from s a (case p_get s (p_base_key a) of Some (Base q _) \<Rightarrow> q | _ \<Rightarrow> 0) v"
  by (auto simp: read_committed_def split: option.split cell.split)

lemma view_start:
  assumes "store_ok s"
  shows "\<exists>v. read_committed s a = read_from s a 0 v"
proof -
  have "q = 0" if "p_get s (p_base_key a) = Some (Base q v)" for q v
    using assms that unfolding store_ok_def by blast
  then have "(case p_get s (p_base_key a) of Some (Base q _) \<Rightarrow> q | _ \<Rightarrow> 0) = 0"
    by (auto split: option.split cell.split)
  then show ?thesis using view_reads[of s a] by metis
qed

lemma view_below:
  assumes "store_ok s" "0 < n" "n \<le> fst (read_committed s a)"
  shows "slot_delta s a n \<noteq> None"
proof -
  obtain v where v: "read_committed s a = read_from s a 0 v" using view_start[OF assms(1)] by blast
  obtain r w where "read_from s a 0 v = (r, w)" by force
  then show ?thesis using read_from_all[of s a 0 v r w n] assms(2,3) v by simp
qed

lemma next_in_line:
  assumes "store_ok s" "has_entry s t a (Suc q) d" "\<not> p_committed s t" "q \<le> fst (read_committed s a)"
  shows "fst (read_committed s a) = q"
proof (rule ccontr)
  assume "fst (read_committed s a) \<noteq> q"
  then have "slot_delta s a (Suc q) \<noteq> None" using view_below[OF assms(1), of "Suc q" a] assms(4) by simp
  then show False using assms(2,3) by (auto simp: has_entry_def slot_delta_def)
qed

text \<open>The decision extends the view of an account by the entry waiting there.\<close>

lemma commit_view:
  assumes ok: "store_ok s" and free: "p_get s (p_outcome_key t) = None"
    and s': "s' = p_put (p_outcome_key t) (Outcome True) s"
    and e: "has_entry s t a (Suc (fst (read_committed s a))) d"
    and only: "\<And>n d b. p_get s (p_log_key a n) = Some (LogCell t d b) \<Longrightarrow> n = Suc (fst (read_committed s a))"
  shows "read_committed s' a = (Suc (fst (read_committed s a)), snd (read_committed s a) + d)"
proof -
  obtain q v where rc: "read_committed s a = (q, v)" by force
  have delta: "slot_delta s' a m = (if m = Suc q then Some d else slot_delta s a m)" for m
    unfolding s' slot_delta_commit[OF free] using e only[of m] rc
    by (auto simp: has_entry_def slot_delta_def split: option.split cell.split)
  have next_free: "slot_delta s a (Suc (Suc q)) = None"
  proof (cases "p_get s (p_log_key a (Suc (Suc q)))")
    case (Some c)
    then have "Suc (Suc q) \<le> Suc (fst (read_committed s a))" using ok unfolding store_ok_def by blast
    then show ?thesis using rc by simp
  qed (simp add: slot_delta_def)
  have base: "p_get s' (p_base_key a) = p_get s (p_base_key a)" by (simp add: s' pkv.get_put)
  obtain q0 v0 where "(case p_get s (p_base_key a) of Some (Base seq val) \<Rightarrow> (seq, val) | _ \<Rightarrow> (0, 0)) = (q0, v0)"
    by force
  then have r: "read_committed s a = read_from s a q0 v0" "read_committed s' a = read_from s' a q0 v0"
    by (simp_all add: read_committed_def base)
  show ?thesis
  proof -
    have "read_from s a q0 v0 = (q, v)" using r(1) rc by simp
    then have "read_from s' a q0 v0 = (Suc q, v + d)"
      by (rule read_from_extend[where s' = s']) (simp_all add: delta next_free)
    then show ?thesis using r(2) rc by simp
  qed
qed

lemma commit_other:
  assumes free: "p_get s (p_outcome_key t) = None" and s': "s' = p_put (p_outcome_key t) (Outcome True) s"
    and none: "\<And>n d b. p_get s (p_log_key a n) \<noteq> Some (LogCell t d b)"
  shows "read_committed s' a = read_committed s a"
proof (rule view_cong)
  show "slot_delta s' a n = slot_delta s a n" for n
    unfolding s' slot_delta_commit[OF free] using none[of n]
    by (auto simp: slot_delta_def split: option.split cell.split)
qed (simp add: s' pkv.get_put)

lemma step_commit_inv:
  assumes inv: "proto_inv s xs" "i < length xs" and x: "x = xs ! i" "x_step x = Commit"
    and st: "xfer_step now rng x s = (x', s', rng')"
  shows "proto_inv s' (xs[i := x']) \<and> moves s s' x"
proof -
  let ?t = "x_tid x"
  have ok: "xfer_ok s x" using inv_of(2)[OF inv] x(1) by simp
  note store = inv_of(1)[OF inv]
  have flags: "x_made_low x" "x_made_high x" "\<not> p_committed s ?t"
    using ok x(2) by (auto simp: xfer_ok_def xfer_flags_def)
  have run: "x_step x \<noteq> Finished" using x(2) by simp
  show ?thesis
  proof (cases "p_get s (p_outcome_key ?t)")
    case (Some c)
    obtain x1 s2 where rb: "rollback x s = (x1, s2)" by force
    have e: "s' = s2" "x' = x1\<lparr>x_retries := x_retries x1 + 1, x_resume_at := 0,
        x_step := (if 120 < x_retries x1 + 1 then Aborted else Read)\<rparr>"
      using st x(2) Some rb rollback_again[OF rb] by (auto simp: pkv.create_taken)
    have "proto_inv s2 (xs[i := x']) \<and> quiet s s2"
      by (rule back_inv[OF inv x(1) run quiet_refl frame_refl rb e(2)]) simp
    moreover have "moves s s2 x" by (rule moves_same) (use calculation quiet_view in blast)
    ultimately show ?thesis using e(1) by simp
  next
    case None
    have s': "s' = p_put (p_outcome_key ?t) (Outcome True) s"
      and x': "x' = x\<lparr>x_acked := True, x_step := Finished\<rparr>"
      using st x(2) None by (auto simp: pkv.create_fresh)
    have static: "xfer_static x" using ok by (simp add: xfer_ok_def)
    have und: "p_resolved s ?t \<noteq> Some False" using None by (simp add: p_resolved_def)
    have ent: "has_entry s ?t (x_low x) (Suc (x_low_seq x)) (x_low_delta x)"
      "has_entry s ?t (x_high x) (Suc (x_high_seq x)) (x_high_delta x)"
      using ok und flags by (auto simp: xfer_ok_def xfer_present_def)
    have seqs: "x_low_seq x \<le> fst (read_committed s (x_low x))" "x_high_seq x \<le> fst (read_committed s (x_high x))"
      and amt: "fst (read_committed s (x_from x)) = x_from_seq x \<Longrightarrow> x_amt x \<le> snd (read_committed s (x_from x))"
      using ok x(2) by (auto simp: xfer_ok_def xfer_seqs_def)
    have at: "fst (read_committed s (x_low x)) = x_low_seq x" "fst (read_committed s (x_high x)) = x_high_seq x"
      using next_in_line[OF store ent(1) flags(3) seqs(1)] next_in_line[OF store ent(2) flags(3) seqs(2)] by auto
    have own: "claim x a n d" if "p_get s (p_log_key a n) = Some (LogCell ?t d b)" for a n d b
      using own_entries[OF inv, of a n d b] that x(1) by simp
    have ne: "x_low x \<noteq> x_high x" using static by (simp add: xfer_static_def)
    have lo: "read_committed s' (x_low x) = (Suc (x_low_seq x), snd (read_committed s (x_low x)) + x_low_delta x)"
    proof -
      have "n = Suc (x_low_seq x)" if "p_get s (p_log_key (x_low x) n) = Some (LogCell ?t d b)" for n d b
        using own[OF that] ne by (auto simp: claim_def)
      then show ?thesis using commit_view[OF store None s', of "x_low x"] ent(1) at(1) by simp
    qed
    have hi: "read_committed s' (x_high x) = (Suc (x_high_seq x), snd (read_committed s (x_high x)) + x_high_delta x)"
    proof -
      have "n = Suc (x_high_seq x)" if "p_get s (p_log_key (x_high x) n) = Some (LogCell ?t d b)" for n d b
        using own[OF that] ne by (auto simp: claim_def)
      then show ?thesis using commit_view[OF store None s', of "x_high x"] ent(2) at(2) by simp
    qed
    have rest: "read_committed s' a = read_committed s a" if "a \<noteq> x_low x" "a \<noteq> x_high x" for a
      by (rule commit_other[OF None s']) (use own that in \<open>auto simp: claim_def\<close>)
    have grow: "fst (read_committed s a) \<le> fst (read_committed s' a)" for a
      using lo hi rest[of a] at by (cases "a = x_low x"; cases "a = x_high x") auto
    have mv: "moves s s' x"
      unfolding moves_def
    proof (intro exI[of _ "x_low_delta x"] allI)
      fix a
      show "snd (read_committed s' a) = snd (read_committed s a)
          + (if a = x_low x then x_low_delta x else 0) - (if a = x_high x then x_low_delta x else 0)"
        using lo hi rest[of a] ne static
        by (cases "a = x_low x"; cases "a = x_high x") (auto simp: xfer_static_def)
    qed
    have pay: "x_amt x \<le> snd (read_committed s (x_from x))"
    proof (rule amt, cases "x_low x = x_from x")
      case True
      then show "fst (read_committed s (x_from x)) = x_from_seq x" using at(1) by (simp add: x_from_seq_def)
    next
      case False
      then have "x_from x = x_high x" using static by (auto simp: xfer_static_def)
      then show "fst (read_committed s (x_from x)) = x_from_seq x" using at(2) False by (simp add: x_from_seq_def)
    qed
    have "proto_inv s' (xs[i := x'])"
    proof (rule proto_inv_update[OF inv])
      show "x_tid x' = x_tid (xs ! i)" using x' x(1) by simp
      have "q = 0" if "p_get s' (p_base_key a) = Some (Base q v)" for a q v
      proof -
        have "p_get s (p_base_key a) = Some (Base q v)" using that by (simp add: s' pkv.get_put)
        then show ?thesis using store unfolding store_ok_def by blast
      qed
      moreover have "(\<exists>t d b. c = LogCell t d b) \<and> n \<le> Suc (fst (read_committed s' a))"
        if "p_get s' (p_log_key a n) = Some c" for a n c
      proof -
        have "p_get s (p_log_key a n) = Some c" using that by (simp add: s' pkv.get_put)
        then have "(\<exists>t d b. c = LogCell t d b) \<and> n \<le> Suc (fst (read_committed s a))"
          using store unfolding store_ok_def by blast
        then show ?thesis using grow[of a] by auto
      qed
      moreover have "\<exists>b. c = Outcome b" if "p_get s' (p_outcome_key u) = Some c" for u c
      proof (cases "u = ?t")
        case False
        then have "p_get s (p_outcome_key u) = Some c" using that by (simp add: s' pkv.get_put)
        then show ?thesis using store unfolding store_ok_def by blast
      qed (use that s' in \<open>auto simp: pkv.get_put\<close>)
      ultimately show "store_ok s'" unfolding store_ok_def by blast
      show "xfer_ok s' x'"
        using ok flags ent static
        by (auto simp: xfer_ok_def xfer_flags_def xfer_seqs_def xfer_present_def has_entry_def x' s' pkv.get_put)
      show "frame u s s'" if "u \<noteq> x_tid x'" for u
        unfolding frame_def
      proof (intro conjI allI impI)
        fix a
        show "fst (read_committed s a) \<le> fst (read_committed s' a)" by (rule grow)
        assume "fst (read_committed s' a) = fst (read_committed s a)"
        then show "read_committed s' a = read_committed s a"
          using lo hi rest[of a] at by (cases "a = x_low x"; cases "a = x_high x") auto
      qed (use that x' s' in \<open>auto simp: pkv.get_put\<close>)
      show "if t = x_tid x' then claim x' a n d else p_get s (p_log_key a n) = Some (LogCell t d b)"
        if "p_get s' (p_log_key a n) = Some (LogCell t d b)" for a n t d b
        using that own by (auto simp: s' x' pkv.get_put claim_def)
      show "0 \<le> snd (read_committed s' a)" for a
      proof -
        have nn: "0 \<le> snd (read_committed s a)" by (rule inv_of(6)[OF inv])
        consider "a = x_low x" "x_low x = x_from x" | "a = x_low x" "x_low x \<noteq> x_from x"
          | "a = x_high x" "x_high x = x_from x" | "a = x_high x" "x_high x \<noteq> x_from x"
          | "a \<noteq> x_low x" "a \<noteq> x_high x" by blast
        then show ?thesis
        proof cases
          case 1
          then have "x_low_delta x = - x_amt x" using static by (simp add: xfer_static_def)
          then show ?thesis using lo 1 pay by simp
        next
          case 2
          then have "x_low_delta x = x_amt x" "0 \<le> x_amt x" using static by (simp_all add: xfer_static_def)
          then show ?thesis using lo 2 nn by simp
        next
          case 3
          then have "x_low x \<noteq> x_from x" using ne by simp
          then have "x_high_delta x = - x_amt x" using static by (simp add: xfer_static_def)
          then show ?thesis using hi 3 pay by simp
        next
          case 4
          then have "x_from x = x_low x" using static by (auto simp: xfer_static_def)
          then have "x_high_delta x = x_amt x" "0 \<le> x_amt x" using static by (simp_all add: xfer_static_def)
          then show ?thesis using hi 4 nn by simp
        qed (use rest nn in simp)
      qed
    qed
    then show ?thesis using mv by simp
  qed
qed

lemma xfer_step_inv:
  assumes inv: "proto_inv s xs" "i < length xs"
    and st: "xfer_step now rng (xs ! i) s = (x', s', rng')"
  shows "proto_inv s' (xs[i := x']) \<and> moves s s' (xs ! i)"
proof (cases "x_step (xs ! i)")
  case Read
  then show ?thesis using step_read_inv[OF inv refl _ st] by simp
next
  case PreLow
  then show ?thesis using step_low_inv[OF inv refl _ st] by simp
next
  case PreHigh
  then show ?thesis using step_high_inv[OF inv refl _ st] by simp
next
  case Commit
  then show ?thesis using step_commit_inv[OF inv refl _ st] by simp
qed (use st inv in \<open>auto intro!: moves_same\<close>)

end
