(* ===== verification/Proto_Run.thy ===== *)
theory Proto_Run
  imports Proto_Safety
begin

text \<open>
  From the single step to a whole run of the simulator: the scheduler keeps the invariant and the total, the
  final sweep changes no balance, the run always ends (the payee loop meets every value the random
  source can produce), so its verdict holds for every seed. The naive control loses the property.
\<close>

section \<open>Totals\<close>

definition total :: "string list \<Rightarrow> pstore \<Rightarrow> int" where
  "total names s = sum_list (map (\<lambda>a. snd (read_committed s a)) names)"

lemma total_cong: "(\<And>a. read_committed s' a = read_committed s a) \<Longrightarrow> total names s' = total names s"
  by (simp add: total_def)

lemma total_moves:
  assumes "moves s s' x" "distinct names" "x_low x \<in> set names" "x_high x \<in> set names"
  shows "total names s' = total names s"
proof -
  obtain d where d: "snd (read_committed s' a) =
     snd (read_committed s a) + (if a = x_low x then d else 0) - (if a = x_high x then d else 0)" for a
    using assms(1) unfolding moves_def by blast
  have "total names s' = (\<Sum>a\<in>set names. snd (read_committed s' a))"
    unfolding total_def by (rule sum_list_distinct_conv_sum_set[OF assms(2)])
  also have "\<dots> = (\<Sum>a\<in>set names. snd (read_committed s a))"
    using assms(3,4) by (simp add: d sum_subtractf sum.distrib)
  also have "\<dots> = total names s"
    unfolding total_def by (rule sum_list_distinct_conv_sum_set[OF assms(2), symmetric])
  finally show ?thesis .
qed

section \<open>What a step leaves of a transfer and of the store's order\<close>

definition same_parties :: "xfer \<Rightarrow> xfer \<Rightarrow> bool" where
  "same_parties x x' \<longleftrightarrow> x_tid x' = x_tid x \<and> x_low x' = x_low x \<and> x_high x' = x_high x"

text \<open>A store in order: its keys ascend and log cells stand at log keys.\<close>

definition tidy :: "pstore \<Rightarrow> bool" where
  "tidy s \<longleftrightarrow> bt_wf s \<and> (\<forall>k t d b. p_get s k = Some (LogCell t d b) \<longrightarrow> (\<exists>a n. k = p_log_key a n))"

lemma tidy_delete [simp]: "tidy s \<Longrightarrow> tidy (p_delete k s)"
  unfolding tidy_def p_delete_def p_get_def by simp

lemma safe_delete_tidy [simp]: "tidy s \<Longrightarrow> tidy (safe_delete k t s)"
  by (auto simp: safe_delete_def split: option.split cell.split)

lemma create_tidy:
  assumes "p_create k c s = (b, s')" "tidy s" "(\<exists>a n. k = p_log_key a n) \<or> (\<exists>w. c = Outcome w)"
  shows "tidy s'"
  using assms by (cases "map_of s k") (auto simp: p_create_def tidy_def p_get_def split: if_splits)

lemma same_parties_refl [simp]: "same_parties x x"
  by (simp add: same_parties_def)

lemma rollback_keeps:
  assumes "rollback x s = (x', s')" "tidy s"
  shows "same_parties x x' \<and> tidy s'"
  using assms by (auto simp: rollback_def Let_def same_parties_def)

lemma reset_keeps:
  assumes "reset_or_giveup x s = (x', s')" "tidy s"
  shows "same_parties x x' \<and> tidy s'"
proof -
  obtain x1 s1 where rb: "rollback x s = (x1, s1)" by force
  then show ?thesis
    using assms rollback_keeps[OF rb assms(2)] by (auto simp: reset_or_giveup_def same_parties_def Let_def)
qed

lemma resolve_slot_tidy:
  assumes "resolve_slot s a n now = (f, s')" "tidy s"
  shows "tidy s'"
proof -
  have c: "tidy (snd (p_create k (Outcome w) s))" for k w
    using create_tidy[of k "Outcome w" s] assms(2) by (metis prod.collapse)
  show ?thesis
    using assms c by (auto simp: resolve_slot_def Let_def case_prod_unfold
        split: option.splits cell.splits if_splits bool.splits)
qed

lemma pause_parties: "maybe_pause now rng x = (x', rng') \<Longrightarrow> same_parties x x'"
  by (auto simp: maybe_pause_def same_parties_def Let_def case_prod_unfold split: if_splits)

lemma same_parties_trans: "same_parties x y \<Longrightarrow> same_parties y z \<Longrightarrow> same_parties x z"
  by (simp add: same_parties_def)

lemma same_parties_update [simp]:
  "same_parties x (y\<lparr>x_step := v0\<rparr>) = same_parties x y"
  "same_parties x (y\<lparr>x_acked := v1\<rparr>) = same_parties x y"
  "same_parties x (y\<lparr>x_low_seq := v2\<rparr>) = same_parties x y"
  "same_parties x (y\<lparr>x_high_seq := v3\<rparr>) = same_parties x y"
  "same_parties (y\<lparr>x_made_low := v4\<rparr>) x = same_parties y x"
  "same_parties (y\<lparr>x_made_high := v5\<rparr>) x = same_parties y x"
  "same_parties x (y\<lparr>x_made_low := v4\<rparr>) = same_parties x y"
  "same_parties x (y\<lparr>x_made_high := v5\<rparr>) = same_parties x y"
  by (simp_all add: same_parties_def)

lemma xfer_step_keeps:
  assumes st: "xfer_step now rng x s = (x', s', rng')" and wf: "tidy s"
  shows "same_parties x x' \<and> tidy s'"
proof -
  have undo: "same_parties x x2 \<and> tidy s2" if "tidy u" "rollback x u = (x1, s1)" "reset_or_giveup x1 s1 = (x2, s2)" for u x1 s1 x2 s2
    using rollback_keeps[OF that(2,1)] reset_keeps[OF that(3)] same_parties_trans by blast
  show ?thesis
  proof (cases "x_step x")
    case Read
    then show ?thesis using st wf by (auto simp: case_prod_unfold Let_def split: if_splits)
  next
    case PreLow
    obtain won u where c: "p_create (p_log_key (x_low x) (x_low_seq x + 1)) (LogCell (x_tid x) (x_low_delta x) now) s = (won, u)" by force
    obtain fr v where r: "resolve_slot u (x_low x) (x_low_seq x + 1) now = (fr, v)" by force
    have u: "tidy u" by (rule create_tidy[OF c wf]) blast
    note v = resolve_slot_tidy[OF r u]
    show ?thesis
      using st PreLow c r u v reset_keeps[OF _ v]
      by (cases won; cases fr) (auto split: prod.splits dest!: pause_parties)
  next
    case PreHigh
    obtain won u where c: "p_create (p_log_key (x_high x) (x_high_seq x + 1)) (LogCell (x_tid x) (x_high_delta x) now) s = (won, u)" by force
    obtain fr v where r: "resolve_slot u (x_high x) (x_high_seq x + 1) now = (fr, v)" by force
    have u: "tidy u" by (rule create_tidy[OF c wf]) blast
    note v = resolve_slot_tidy[OF r u]
    show ?thesis
      using st PreHigh c r u v undo[OF v]
      by (cases won; cases fr) (auto simp: Let_def split: prod.splits if_splits dest!: pause_parties)
  next
    case Commit
    obtain won u where c: "p_create (p_outcome_key (x_tid x)) (Outcome True) s = (won, u)" by force
    have u: "tidy u" by (rule create_tidy[OF c wf]) blast
    show ?thesis
      using st Commit c u undo[OF u] by (cases won) (auto split: prod.splits)
  qed (use st wf in auto)
qed


section \<open>The scheduler keeps the invariant and the total\<close>

definition loop_inv :: "int \<Rightarrow> string list \<Rightarrow> pstore \<Rightarrow> worker list \<Rightarrow> bool" where
  "loop_inv tot names s ws \<longleftrightarrow> (\<exists>xs. ws = map WLog xs \<and> proto_inv s xs \<and> tidy s \<and> total names s = tot
     \<and> (\<forall>x \<in> set xs. x_low x \<in> set names \<and> x_high x \<in> set names))"

lemma loop_inv_step:
  assumes inv: "loop_inv tot names s ws" "distinct names" and i: "i < length ws"
    and st: "worker_step now rng (ws ! i) s = (w, s', rng')"
  shows "loop_inv tot names s' (ws[i := w])"
proof -
  obtain xs where xs: "ws = map WLog xs" "proto_inv s xs" "tidy s" "total names s = tot"
    "\<forall>x \<in> set xs. x_low x \<in> set names \<and> x_high x \<in> set names"
    using inv(1) unfolding loop_inv_def by blast
  have i': "i < length xs" using i xs(1) by simp
  obtain x' where x': "xfer_step now rng (xs ! i) s = (x', s', rng')" "w = WLog x'"
    using st xs(1) i' by (auto split: prod.splits simp del: xfer_step.simps)
  have mem: "x_low (xs ! i) \<in> set names" "x_high (xs ! i) \<in> set names" using xs(5) i' by simp_all
  note step = xfer_step_inv[OF xs(2) i' x'(1)] and keep = xfer_step_keeps[OF x'(1) xs(3)]
  have "total names s' = tot" using total_moves[OF step[THEN conjunct2] inv(2) mem] xs(4) by simp
  moreover have "x_low x \<in> set names \<and> x_high x \<in> set names" if "x \<in> set (xs[i := x'])" for x
  proof -
    have "x = x' \<or> x \<in> set xs" using that set_update_subset_insert[of xs i x'] by blast
    then show ?thesis using xs(5) mem keep by (auto simp: same_parties_def)
  qed
  ultimately show ?thesis
    unfolding loop_inv_def using step keep xs(1) x'(2) by (intro exI[of _ "xs[i := x']"]) (simp add: map_update)
qed

lemma runnable_bound: "k < length (runnable_indices now ws) \<Longrightarrow> runnable_indices now ws ! k < length ws"
  using nth_mem[of k "runnable_indices now ws"] by (auto simp: runnable_indices_def)

lemma rng_below_bound: "0 < n \<Longrightarrow> rng_below n r = (k, r') \<Longrightarrow> k < n"
  by (auto simp: rng_below_def Let_def case_prod_unfold)

lemma run_loop_inv:
  "loop_inv tot names s ws \<Longrightarrow> distinct names \<Longrightarrow> run_loop g now rng ws s = (ws', s') \<Longrightarrow> loop_inv tot names s' ws'"
proof (induction g arbitrary: now rng ws s)
  case 0
  then show ?case by simp
next
  case (Suc g)
  show ?case
  proof (cases "runnable_indices now ws = []")
    case True
    then show ?thesis using Suc.prems Suc.IH[OF Suc.prems(1,2)] by (auto split: if_splits)
  next
    case False
    obtain p rng1 where p: "rng_below (length (runnable_indices now ws)) rng = (p, rng1)" by force
    have pl: "runnable_indices now ws ! p < length ws"
      by (rule runnable_bound, rule rng_below_bound[OF _ p]) (use False in simp)
    obtain w u rng2 where w: "worker_step now rng1 (ws ! (runnable_indices now ws ! p)) s = (w, u, rng2)"
      by (metis prod_cases3)
    have "loop_inv tot names u (ws[runnable_indices now ws ! p := w])"
      by (rule loop_inv_step[OF Suc.prems(1,2) pl w])
    then show ?thesis using Suc.IH[OF _ Suc.prems(2)] Suc.prems(3) False p w by simp
  qed
qed

section \<open>The start\<close>

lemma fresh_get: "p_get (fresh_store names) k = (if \<exists>a \<in> set names. k = p_base_key a then Some (Base 0 100) else None)"
proof -
  have "p_get (foldl (\<lambda>s a. p_put (p_base_key a) (Base 0 100) s) s0 names) k =
    (if \<exists>a \<in> set names. k = p_base_key a then Some (Base 0 100) else p_get s0 k)" for s0
    by (induction names arbitrary: s0) (auto simp: pkv.get_put)
  then show ?thesis by (simp add: fresh_store_def p_get_def)
qed

lemma fresh_wf: "bt_wf (fresh_store names)"
proof -
  have "bt_wf s0 \<Longrightarrow> bt_wf (foldl (\<lambda>s a. p_put (p_base_key a) (Base 0 100) s) s0 names)" for s0
    by (induction names arbitrary: s0) (simp_all add: p_put_def)
  then show ?thesis by (simp add: fresh_store_def)
qed

lemma fresh_tidy: "tidy (fresh_store names)"
  using fresh_wf by (auto simp: tidy_def fresh_get split: if_splits)

lemma fresh_slots [simp]: "p_get (fresh_store names) (p_log_key a n) = None"
  "p_get (fresh_store names) (p_outcome_key t) = None"
  by (auto simp: fresh_get)

lemma fresh_base: "p_get (fresh_store names) (p_base_key a) = (if a \<in> set names then Some (Base 0 100) else None)"
  by (auto simp: fresh_get)

lemma fresh_view: "read_committed (fresh_store names) a = (0, if a \<in> set names then 100 else 0)"
proof -
  have "slot_delta (fresh_store names) a n = None" for n by (simp add: slot_delta_def)
  then show ?thesis by (simp add: read_committed_def fresh_base read_from.simps)
qed

lemma fresh_total: "total names (fresh_store names) = 100 * int (length names)"
proof -
  have "map (\<lambda>a. snd (read_committed (fresh_store names) a)) names = map (\<lambda>a. 100) names"
    by (simp add: fresh_view)
  then show ?thesis by (simp only: total_def) (simp add: sum_list_triv)
qed

lemma xfer_new_ok:
  assumes "from \<noteq> to" "0 \<le> amt"
  shows "xfer_ok (fresh_store names) (xfer_new tid from to amt pauses crash)"
  using assms by (auto simp: xfer_ok_def xfer_static_def xfer_flags_def xfer_seqs_def xfer_present_def
      xfer_new_def Let_def p_committed_def)

text \<open>What the generator promises of the transfers it makes.\<close>

definition generated :: "string list \<Rightarrow> nat \<Rightarrow> xfer list \<Rightarrow> bool" where
  "generated names tid xs \<longleftrightarrow> map x_tid xs = [tid..<tid + length xs]
     \<and> (\<forall>x \<in> set xs. \<exists>t from to amt p c. x = xfer_new t from to amt p c \<and> from \<noteq> to \<and> 0 \<le> amt
          \<and> from \<in> set names \<and> to \<in> set names)"

lemma generated_loop_inv:
  assumes "generated names tid xs"
  shows "loop_inv (100 * int (length names)) names (fresh_store names) (map WLog xs)"
proof -
  have ok: "xfer_ok (fresh_store names) x \<and> x_low x \<in> set names \<and> x_high x \<in> set names" if mem: "x \<in> set xs" for x
  proof -
    obtain t fr to amt p c where x: "x = xfer_new t fr to amt p c" "fr \<noteq> to" "0 \<le> amt"
      "fr \<in> set names" "to \<in> set names" using assms mem unfolding generated_def by blast
    have "x_low x \<in> set names \<and> x_high x \<in> set names" using x by (auto simp: xfer_new_def Let_def)
    then show ?thesis using xfer_new_ok[OF x(2,3)] x(1) by simp
  qed
  have "store_ok (fresh_store names)" by (auto simp: store_ok_def fresh_base split: if_splits)
  moreover have "owned (fresh_store names) xs" by (simp add: owned_def)
  moreover have "distinct (map x_tid xs)" using assms by (simp add: generated_def)
  ultimately have "proto_inv (fresh_store names) xs"
    using ok by (simp add: proto_inv_def fresh_view)
  then show ?thesis
    unfolding loop_inv_def using ok by (intro exI[of _ xs]) (simp add: fresh_tidy fresh_total)
qed


section \<open>The payee loop ends\<close>

text \<open>
  The source steps by an odd constant, so its states run through all 64-bit values; two of them
  give different indices, so a payee other than the payer is drawn in the end.
\<close>

definition mix :: "u64 \<Rightarrow> u64" where
  "mix s = (let z = xor s (drop_bit 30 s) * 0xBF58476D1CE4E5B9;
                z = xor z (drop_bit 27 z) * 0x94D049BB133111EB
            in xor z (drop_bit 31 z))"

abbreviation gamma :: u64 where "gamma \<equiv> 0x9E3779B97F4A7C15"

lemma rng_next_mix: "rng_next r = (mix (r + gamma), r + gamma)"
  by (simp add: rng_next_def mix_def Let_def)

lemma mix_0: "mix 0 = 0"
  by (simp add: mix_def)

lemma mix_1: "mix 1 = 6238072747940578789"
  by (simp add: mix_def)

lemma states_all: "\<exists>k. r + of_nat (Suc k) * gamma = s"
proof (rule exI)
  let ?k = "(s - r - gamma) * 17428512612931826493"
  have "?k * gamma = (s - r - gamma) * (17428512612931826493 * gamma)" by (simp only: mult.assoc)
  also have "17428512612931826493 * gamma = 1" by simp
  finally have "?k * gamma = s - r - gamma" by simp
  then show "r + of_nat (Suc (unat ?k)) * gamma = s" by (simp add: distrib_right)
qed

lemma pick_to_ends:
  assumes "names ! (unat (mix (r + of_nat (Suc k) * gamma)) mod length names) \<noteq> from" "names \<noteq> []"
  shows "\<exists>to r'. pick_to names from r = Some (to, r') \<and> to \<in> set names \<and> to \<noteq> from"
  using assms(1)
proof (induction k arbitrary: r)
  case 0
  then show ?case
    using assms(2) by (subst pick_to.simps) (simp add: rng_below_def rng_next_mix Let_def)
next
  case (Suc k)
  show ?case
  proof (cases "names ! (unat (mix (r + gamma)) mod length names) = from")
    case True
    have "r + gamma + of_nat (Suc k) * gamma = r + of_nat (Suc (Suc k)) * gamma" by (simp add: algebra_simps)
    then have "\<exists>to r'. pick_to names from (r + gamma) = Some (to, r') \<and> to \<in> set names \<and> to \<noteq> from"
      using Suc.IH[of "r + gamma"] Suc.prems by (simp only: simp_thms)
    then show ?thesis
      using True assms(2) by (subst pick_to.simps) (simp add: rng_below_def rng_next_mix Let_def)
  next
    case False
    then show ?thesis
      using assms(2) by (subst pick_to.simps) (simp add: rng_below_def rng_next_mix Let_def)
  qed
qed

lemma pick_to_returns:
  assumes "distinct names" "3 \<le> length names" "length names \<le> 6" "f < length names"
  shows "\<exists>to r'. pick_to names (names ! f) r = Some (to, r') \<and> to \<in> set names \<and> to \<noteq> names ! f"
proof -
  have "\<exists>s. unat (mix s) mod length names \<noteq> f"
  proof (cases "f = 0")
    case True
    have "length names \<in> {3, 4, 5, 6}" using assms(2,3) by auto
    then have "unat (mix 1) mod length names \<noteq> 0" unfolding mix_1 by auto
    then show ?thesis using True by blast
  next
    case False
    then have "unat (mix 0) mod length names \<noteq> f" by (simp add: mix_0)
    then show ?thesis by blast
  qed
  then obtain s where s: "unat (mix s) mod length names \<noteq> f" by blast
  obtain k where k: "r + of_nat (Suc k) * gamma = s" using states_all by blast
  have ne: "names \<noteq> []" using assms(2) by (cases names) auto
  have "names ! (unat (mix (r + of_nat (Suc k) * gamma)) mod length names) \<noteq> names ! f"
    unfolding k using s assms(1,4) ne by (subst nth_eq_iff_index_eq) auto
  then show ?thesis by (rule pick_to_ends[OF _ ne])
qed

lemma gen_workers_returns:
  assumes "distinct names" "3 \<le> length names" "length names \<le> 6"
  shows "\<exists>xs p r'. gen_workers n names False tid r = Some (map WLog xs, p, r') \<and> generated names tid xs \<and> length xs = n"
proof (induction n arbitrary: tid r)
  case 0
  then show ?case by (simp add: generated_def)
next
  case (Suc n)
  obtain f r1 where f: "rng_below (length names) r = (f, r1)" by force
  have fl: "f < length names" by (rule rng_below_bound[OF _ f]) (use assms(2) in linarith)
  obtain to r2 where to: "pick_to names (names ! f) r1 = Some (to, r2)" "to \<in> set names" "to \<noteq> names ! f"
    using pick_to_returns[OF assms fl] by blast
  obtain a r3 where a: "rng_below 20 r2 = (a, r3)" by force
  obtain ps r4 where ps: "rng_below 3 r3 = (ps, r4)" by force
  obtain c r5 where c: "rng_below 20 r4 = (c, r5)" by force
  obtain xs p r' where rec: "gen_workers n names False (tid + 1) r5 = Some (map WLog xs, p, r')"
    "generated names (tid + 1) xs" "length xs = n" using Suc.IH by blast
  let ?x = "xfer_new tid (names ! f) to (1 + int a) ps (c = 0)"
  have "generated names tid (?x # xs)"
    unfolding generated_def
  proof (intro conjI ballI)
    have "x_tid ?x = tid" by (simp add: xfer_new_def Let_def)
    then show "map x_tid (?x # xs) = [tid..<tid + length (?x # xs)]"
      using rec(2) by (simp add: generated_def upt_conv_Cons del: upt_Suc)
    fix x assume "x \<in> set (?x # xs)"
    then consider "x = ?x" | "x \<in> set xs" by auto
    then show "\<exists>t from to amt p c. x = xfer_new t from to amt p c \<and> from \<noteq> to \<and> 0 \<le> amt
        \<and> from \<in> set names \<and> to \<in> set names"
    proof cases
      case 1
      then show ?thesis using to(2,3) fl
        by (intro exI[of _ tid] exI[of _ "names ! f"] exI[of _ to] exI[of _ "1 + int a"] exI[of _ ps] exI[of _ "c = 0"]) auto
    next
      case 2
      then show ?thesis using rec(2) unfolding generated_def by blast
    qed
  qed
  moreover have "\<exists>p'. gen_workers (Suc n) names False tid r = Some (map WLog (?x # xs), p', r')"
    using f to(1) a ps c rec(1) by (simp add: Let_def)
  ultimately show ?case using rec(3) by (metis length_Cons)
qed

section \<open>The final sweep changes no balance\<close>

lemma sweep_keys_view:
  assumes "distinct (map fst kcs)" "store_ok s"
    and "\<And>k t d b. (k, LogCell t d b) \<in> set kcs \<Longrightarrow> \<exists>a n. k = p_log_key a n \<and> p_get s k = Some (LogCell t d b)"
  shows "quiet s (sweep_keys kcs s) \<and> (\<forall>t. p_committed (sweep_keys kcs s) t = p_committed s t)"
  using assms
proof (induction kcs s rule: sweep_keys.induct)
  case (2 k t d b kcs s)
  let ?s1 = "if p_resolved s t = None then snd (p_create (p_outcome_key t) (Outcome False) s) else s"
  let ?s2 = "if p_resolved ?s1 t = Some False then p_delete k ?s1 else ?s1"
  obtain a n where k: "k = p_log_key a n" "p_get s k = Some (LogCell t d b)" using 2(4) by force
  have one: "quiet s ?s1 \<and> (\<forall>u. p_committed ?s1 u = p_committed s u) \<and> (\<forall>a n. p_get ?s1 (p_log_key a n) = p_get s (p_log_key a n))"
  proof (cases "p_resolved s t = None")
    case True
    then have none: "p_get s (p_outcome_key t) = None" using resolved_iff(1)[OF 2(3)] by simp
    then have "\<not> p_committed s t" by (simp add: p_committed_def)
    then show ?thesis using True none abort_undecided(1)[OF none] by (simp add: pkv.create_fresh pkv.get_put)
  qed auto
  have ok1: "store_ok ?s1" by (rule quiet_store_ok[OF one[THEN conjunct1] 2(3)])
  have e1: "p_get ?s1 (p_log_key a n) = Some (LogCell t d b)" using one k by metis
  have two: "quiet ?s1 ?s2 \<and> (\<forall>u. p_committed ?s2 u = p_committed ?s1 u) \<and> (\<forall>k'. k' \<noteq> k \<longrightarrow> p_get ?s2 k' = p_get ?s1 k')"
  proof (cases "p_resolved ?s1 t = Some False")
    case True
    then show ?thesis using delete_aborted(1)[OF ok1 e1 True] k(1) by (simp add: pkv.get_delete)
  qed auto
  have q: "quiet s ?s2" using one two quiet_trans by blast
  have "quiet ?s2 (sweep_keys kcs ?s2) \<and> (\<forall>u. p_committed (sweep_keys kcs ?s2) u = p_committed ?s2 u)"
  proof (rule 2(1)[OF refl refl])
    show "distinct (map fst kcs)" using 2(2) by simp
    show "store_ok ?s2" by (rule quiet_store_ok[OF q 2(3)])
    fix k' t' d' b' assume m: "(k', LogCell t' d' b') \<in> set kcs"
    then obtain a' n' where k': "k' = p_log_key a' n'" "p_get s k' = Some (LogCell t' d' b')" using 2(4) by force
    have "k' \<noteq> k" using m 2(2) by force
    then show "\<exists>a n. k' = p_log_key a n \<and> p_get ?s2 k' = Some (LogCell t' d' b')"
      using two one k' by metis
  qed
  then show ?case using q one two quiet_trans[OF q] by (simp add: Let_def)
qed simp_all

lemma sweep_store_view:
  assumes "store_ok s" "tidy s"
  shows "quiet s (sweep_keys s s)" "p_committed (sweep_keys s s) t = p_committed s t"
proof -
  have d: "distinct (map fst s)" using assms(2) by (auto simp: tidy_def intro: bt_wf_distinct)
  have "\<exists>a n. k = p_log_key a n \<and> p_get s k = Some (LogCell t d b)" if "(k, LogCell t d b) \<in> set s" for k t d b
    using assms(2) that d unfolding tidy_def p_get_def by simp blast
  then show "quiet s (sweep_keys s s)" "p_committed (sweep_keys s s) t = p_committed s t"
    using sweep_keys_view[OF d assms(1)] by blast+
qed


section \<open>Every run\<close>

lemma names_distinct: "distinct (account_names n)"
  by (auto simp: account_names_def distinct_map inj_on_def dest: arg_cong[of _ _ "parse_acc 0"])

lemma loop_end_report:
  assumes "loop_inv (100 * int (length names)) names s ws"
  shows "r_conserved (make_report False names p ws s) \<and> r_ack_consistent (make_report False names p ws s)"
proof -
  obtain xs where xs: "ws = map WLog xs" "proto_inv s xs" "tidy s" "total names s = 100 * int (length names)"
    using assms unfolding loop_inv_def by blast
  have ok: "store_ok s" "\<forall>x \<in> set xs. xfer_ok s x" using xs(2) by (simp_all add: proto_inv_def)
  note sw = sweep_store_view[OF ok(1) xs(3)]
  have "total names (sweep_keys s s) = total names s" using quiet_view[OF sw(1)] by (rule total_cong)
  then have "r_conserved (make_report False names p ws s)"
    using xs(4) by (simp add: make_report_def total_def Let_def)
  moreover have "r_ack_consistent (make_report False names p ws s)"
    using ok(2) sw(2) xs(1)
    by (auto simp: make_report_def Let_def list_all_iff xfer_ok_def xfer_flags_def)
  ultimately show ?thesis ..
qed

lemma run_returns:
  "\<exists>r. proto_run seed False = Some r \<and> r_conserved r \<and> r_ack_consistent r"
proof -
  obtain a r1 where a: "rng_below 4 (xor seed 0xDEADBEEF) = (a, r1)" by force
  obtain w r2 where w: "rng_below 4 r1 = (w, r2)" by force
  obtain m r3 where m: "rng_below 40 r2 = (m, r3)" by force
  let ?names = "account_names (3 + a)"
  have "a < 4" using rng_below_bound[OF _ a] by simp
  then have len: "3 \<le> length ?names" "length ?names \<le> 6" by (simp_all add: account_names_def)
  obtain xs p r4 where g: "gen_workers ((2 + w) * ((20 + m) div (2 + w) + 1)) ?names False 1 r3 = Some (map WLog xs, p, r4)"
    "generated ?names 1 xs"
    using gen_workers_returns[OF names_distinct len] by blast
  obtain ws s where l: "run_loop 2000001 0 r4 (map WLog xs) (fresh_store ?names) = (ws, s)" by force
  have "loop_inv (100 * int (length ?names)) ?names s ws"
    by (rule run_loop_inv[OF generated_loop_inv[OF g(2)] names_distinct l])
  from loop_end_report[OF this]
  have "r_conserved (make_report False ?names p ws s)" "r_ack_consistent (make_report False ?names p ws s)"
    by simp_all
  moreover have "proto_run seed False = Some (make_report False ?names p ws s)"
    using a w m g(1) l unfolding proto_run_def by (simp only: Let_def prod.case option.case)
  ultimately show ?thesis by blast
qed

section \<open>Properties\<close>

text \<open>One step of a transfer, whatever its state, the time and the random source, keeps the invariant of
  store and transfers (no account goes negative, log cells belong to transfers in flight or decided,
  an acknowledged transfer is exactly a committed one) and moves money only between its own two
  accounts: what one gains the other loses.\<close>

theorem step_moves_money:
  assumes "proto_inv s xs" "i < length xs" "xfer_step now rng (xs ! i) s = (x', s', rng')"
  shows "proto_inv s' (xs[i := x']) \<and> (\<exists>d. \<forall>a. 0 \<le> snd (read_committed s' a) \<and>
    snd (read_committed s' a) = snd (read_committed s a)
      + (if a = x_low (xs ! i) then d else 0) - (if a = x_high (xs ! i) then d else 0))"
proof -
  have "proto_inv s' (xs[i := x'])" "moves s s' (xs ! i)" using xfer_step_inv[OF assms] by simp_all
  then show ?thesis by (simp add: moves_def proto_inv_def)
qed

definition demo_xfer :: xfer where
  "demo_xfer = xfer_new 7 ''acct0'' ''acct1'' 30 0 False"

lemma step_moves_money_witness:
  "\<exists>s' x' rng'. xfer_step 0 0 demo_xfer (fresh_store [''acct0'', ''acct1'']) = (x', s', rng') \<and> proto_inv s' [x']"
proof -
  let ?s = "fresh_store [''acct0'', ''acct1'']"
  have gen: "generated [''acct0'', ''acct1''] 7 [demo_xfer]"
    unfolding generated_def
  proof (intro conjI ballI)
    show "map x_tid [demo_xfer] = [7..<7 + length [demo_xfer]]" by (simp add: demo_xfer_def xfer_new_def Let_def)
    fix x assume "x \<in> set [demo_xfer]"
    then show "\<exists>t from to amt p c. x = xfer_new t from to amt p c \<and> from \<noteq> to \<and> 0 \<le> amt
        \<and> from \<in> set [''acct0'', ''acct1''] \<and> to \<in> set [''acct0'', ''acct1'']"
      by (intro exI[of _ 7] exI[of _ "''acct0''"] exI[of _ "''acct1''"] exI[of _ 30] exI[of _ 0] exI[of _ False])
         (simp add: demo_xfer_def)
  qed
  have "loop_inv 200 [''acct0'', ''acct1''] ?s (map WLog [demo_xfer])"
    using generated_loop_inv[OF gen] by simp
  then have inv: "proto_inv ?s [demo_xfer]" by (auto simp: loop_inv_def)
  obtain x' s' rng' where st: "xfer_step 0 0 demo_xfer ?s = (x', s', rng')" by (metis prod_cases3)
  then show ?thesis using step_moves_money[OF inv, of 0 0 0 x' s' rng'] by simp
qed

text \<open>C28: For every seed the run of the simulator ends with a report (the loop that draws a payee other than the
  payer always finds one), and the report says that the total was conserved and that every
  acknowledged transfer is committed.\<close>

theorem every_seed_conserves:
  "\<exists>r. proto_run seed False = Some r \<and> r_conserved r \<and> r_ack_consistent r"
  by (rule run_returns)

lemma sweep_from_clean:
  "s_viol z = 0 \<and> s_cons_fail z = 0 \<and> s_ack_fail z = 0 \<and> s_first_bad z = None \<Longrightarrow>
   \<exists>z'. sweep_from k seed False z = Some z' \<and> s_viol z' = 0 \<and> s_cons_fail z' = 0 \<and> s_ack_fail z' = 0 \<and> s_first_bad z' = None"
proof (induction k arbitrary: seed z)
  case (Suc k)
  obtain r where r: "proto_run seed False = Some r" "r_conserved r" "r_ack_consistent r"
    using run_returns by blast
  then show ?case using Suc.IH[of "sweep_add seed r z"] Suc.prems by (simp add: sweep_add_def Let_def)
qed simp

text \<open>A sweep over any number of seeds ends and reports no violation, the verdict the simulator prints.\<close>

theorem sweep_finds_nothing:
  "\<exists>z. sweep_seeds n False = Some z \<and> s_viol z = 0 \<and> s_cons_fail z = 0 \<and> s_ack_fail z = 0 \<and> s_first_bad z = None"
  unfolding sweep_seeds_def by (rule sweep_from_clean) simp

text \<open>The control of the simulator, transfers that write both balances back from what they read, creates
  money: two of them between the same accounts, interleaved, leave 220 where 200 was.\<close>

theorem naive_control_tears:
  "(let s0 = fresh_store [''a'', ''b''];
      (n1, s) = naive_step (naive_new ''a'' ''b'' 10) s0; (n2, s) = naive_step (naive_new ''b'' ''a'' 10) s;
      (n1, s) = naive_step n1 s; (n2, s) = naive_step n2 s; (n1, s) = naive_step n1 s; (n2, s) = naive_step n2 s
    in base_val s ''a'' + base_val s ''b'') = 220"
  by (simp add: Let_def naive_step_def naive_new_def base_val_def pkv.get_put fresh_get)

end
