(* ===== verification/Routing.thy ===== *)
theory Routing
  imports Codec "HOL-Library.Product_Lexorder"
begin

text \<open>
  Placement, the pure part of \<open>src/src/cluster.rs\<close>: which logical worker an object belongs to, which
  lease block covers a worker, what a claim specification asks for, and how a transaction is
  validated and sent to the worker that owns most of its objects. Sizes (\<open>usize\<close>) are natural
  numbers: \<open>blocks\<close> is at most 256, so the products stay far below 64 bits. A hash map whose
  iteration order the code does not use is an association list in key order.
\<close>

section \<open>Object ids\<close>

definition ascii_alnum :: "char \<Rightarrow> bool" where
  "ascii_alnum c \<longleftrightarrow> CHR ''0'' \<le> c \<and> c \<le> CHR ''9'' \<or> CHR ''A'' \<le> c \<and> c \<le> CHR ''Z''
     \<or> CHR ''a'' \<le> c \<and> c \<le> CHR ''z''"

definition valid_id :: "string \<Rightarrow> bool" where
  "valid_id oid \<longleftrightarrow> oid \<noteq> [] \<and> length oid \<le> 64 \<and> hd oid \<noteq> CHR ''_''
     \<and> list_all (\<lambda>c. ascii_alnum c \<or> c = CHR ''-'' \<or> c = CHR ''_'') oid"

section \<open>The hash default\<close>

definition fnv1a :: "bytes \<Rightarrow> u64" where
  "fnv1a bs = foldl (\<lambda>h b. xor h (ucast b) * 0x100000001b3) 0xcbf29ce484222325 bs"

definition default_worker :: "string \<Rightarrow> nat \<Rightarrow> nat" where
  "default_worker oid logical = unat (fnv1a (string_bytes oid)) mod logical"

section \<open>Lease blocks\<close>

definition block_of :: "nat \<Rightarrow> nat \<Rightarrow> nat \<Rightarrow> nat" where
  "block_of w logical blocks = w * blocks div logical"

definition div_ceil :: "nat \<Rightarrow> nat \<Rightarrow> nat" where
  "div_ceil a b = (a + b - 1) div b"

definition block_range :: "nat \<Rightarrow> nat \<Rightarrow> nat \<Rightarrow> nat \<times> nat" where
  "block_range b logical blocks = (div_ceil (b * logical) blocks, div_ceil ((b + 1) * logical) blocks)"

lemma div_ceil_le: "0 < b \<Longrightarrow> div_ceil a b \<le> w \<longleftrightarrow> a \<le> w * b"
proof -
  assume b: "0 < b"
  have "div_ceil a b \<le> w \<longleftrightarrow> (a + b - 1) div b < Suc w" by (simp add: div_ceil_def less_Suc_eq_le)
  also have "\<dots> \<longleftrightarrow> a + b - 1 < Suc w * b" using b by (simp only: div_less_iff_less_mult)
  also have "\<dots> \<longleftrightarrow> a \<le> w * b" using b by simp arith
  finally show ?thesis .
qed

lemma in_block_range:
  assumes "0 < blocks" "0 < logical"
  shows "(fst (block_range b logical blocks) \<le> w \<and> w < snd (block_range b logical blocks))
    \<longleftrightarrow> block_of w logical blocks = b"
proof -
  have "fst (block_range b logical blocks) \<le> w \<longleftrightarrow> b * logical \<le> w * blocks"
    using div_ceil_le[OF assms(1)] by (simp add: block_range_def)
  moreover have "w < snd (block_range b logical blocks) \<longleftrightarrow> w * blocks < (b + 1) * logical"
    using div_ceil_le[OF assms(1), of "(b + 1) * logical" w] by (simp add: block_range_def not_le[symmetric])
  moreover have "block_of w logical blocks = b \<longleftrightarrow> b * logical \<le> w * blocks \<and> w * blocks < (b + 1) * logical"
    unfolding block_of_def using assms(2) by (metis Suc_eq_plus1 div_nat_eqI div_times_less_eq_dividend
        dividend_less_div_times mult.commute add.commute mult_Suc)
  ultimately show ?thesis by blast
qed

lemma block_range_abut: "snd (block_range b logical blocks) = fst (block_range (b + 1) logical blocks)"
  by (simp add: block_range_def)

lemma block_range_last: "0 < blocks \<Longrightarrow> fst (block_range blocks logical blocks) = logical"
proof -
  assume b: "0 < blocks"
  have "div_ceil (blocks * logical) blocks \<le> w \<longleftrightarrow> logical \<le> w" for w
    using div_ceil_le[OF b, of "blocks * logical" w] b by (simp add: mult.commute)
  then show ?thesis using le_antisym[of "div_ceil (blocks * logical) blocks" logical]
    by (simp add: block_range_def) (metis order_refl le_antisym)
qed

lemma block_of_bound: "0 < blocks \<Longrightarrow> w < logical \<Longrightarrow> block_of w logical blocks < blocks"
  by (simp add: block_of_def less_mult_imp_div_less)

section \<open>The routing table\<close>

record routing =
  rt_logical :: nat
  rt_blocks :: nat
  rt_exceptions :: "(string \<times> nat) list"
  rt_addrs :: "(nat \<times> string) list"

definition addr_of_worker :: "routing \<Rightarrow> nat \<Rightarrow> string option" where
  "addr_of_worker r w = map_of (rt_addrs r) (block_of w (rt_logical r) (rt_blocks r))"

definition owner_of :: "routing \<Rightarrow> string \<Rightarrow> nat" where
  "owner_of r oid = (case map_of (rt_exceptions r) oid of Some w \<Rightarrow> w | None \<Rightarrow> default_worker oid (rt_logical r))"

definition exception_load :: "routing \<Rightarrow> nat \<Rightarrow> nat" where
  "exception_load r w = length (filter (\<lambda>(_, v). v = w) (rt_exceptions r))"

definition crowded :: "routing \<Rightarrow> nat \<Rightarrow> bool" where
  "crowded r w \<longleftrightarrow> max ((2 * length (rt_exceptions r)) div rt_logical r) 4 \<le> exception_load r w"

section \<open>Claim specifications\<close>

datatype claim_spec = ClaimAll | ClaimWorkers "nat list" | ClaimAuto nat

definition parse_usize :: "string \<Rightarrow> nat option" where
  "parse_usize s = parse_uint 64 s"

text \<open>The last alternative: a single worker, or nothing.\<close>

definition parse_single :: "string \<Rightarrow> claim_spec" where
  "parse_single spec = ClaimWorkers (case parse_usize spec of Some w \<Rightarrow> [w] | None \<Rightarrow> [])"

definition parse_claim :: "string \<Rightarrow> nat \<Rightarrow> claim_spec" where
  "parse_claim spec logical =
     (if spec = ''all'' then ClaimAll
      else case Option.bind (strip_prefix ''auto:'' spec) parse_usize of
        Some k \<Rightarrow> ClaimAuto k
      | None \<Rightarrow> (case split_once (CHR ''-'') spec of
          Some (a, b) \<Rightarrow> (case (parse_usize a, parse_usize b) of
              (Some a, Some b) \<Rightarrow> ClaimWorkers [a..<min b (logical - 1) + 1]
            | _ \<Rightarrow> parse_single spec)
        | None \<Rightarrow> parse_single spec))"

text \<open>The blocks \<open>start\<close> tries, in order, and its quota. \<open>addr_hash\<close> is the \<open>DefaultHasher\<close> value of the
  advertised address.\<close>

definition candidate_blocks :: "claim_spec \<Rightarrow> nat \<Rightarrow> nat \<Rightarrow> u64 \<Rightarrow> nat list" where
  "candidate_blocks spec logical blocks addr_hash = (case spec of
     ClaimAll \<Rightarrow> [0..<blocks]
   | ClaimWorkers ws \<Rightarrow> remdups_adj (sort (map (\<lambda>w. block_of w logical blocks) (filter (\<lambda>w. w < logical) ws)))
   | ClaimAuto _ \<Rightarrow> (let st = unat addr_hash mod blocks in map (\<lambda>i. (st + i) mod blocks) [0..<blocks]))"

definition quota_blocks :: "claim_spec \<Rightarrow> nat \<Rightarrow> nat \<Rightarrow> nat" where
  "quota_blocks spec logical blocks = (case spec of
     ClaimAuto k \<Rightarrow> max (div_ceil (k * blocks) logical) 1
   | _ \<Rightarrow> 2 ^ 64 - 1)"

section \<open>The ranges a node claims\<close>

fun push_range :: "(nat \<times> nat) list \<Rightarrow> nat \<times> nat \<Rightarrow> (nat \<times> nat) list" where
  "push_range rs (start, fin) =
     (if rs \<noteq> [] \<and> snd (last rs) = start then butlast rs @ [(fst (last rs), fin)] else rs @ [(start, fin)])"

definition claimed_ranges :: "nat \<Rightarrow> nat \<Rightarrow> nat list \<Rightarrow> (nat \<times> nat) list" where
  "claimed_ranges logical blocks epoch_blocks =
     foldl (\<lambda>rs b. push_range rs (block_range b logical blocks)) [] (sort epoch_blocks)"

definition claimed_workers :: "nat \<Rightarrow> nat \<Rightarrow> nat list \<Rightarrow> nat" where
  "claimed_workers logical blocks epoch_blocks =
     sum_list (map (\<lambda>(s, e). e - s) (claimed_ranges logical blocks epoch_blocks))"

definition claimed :: "nat \<Rightarrow> nat \<Rightarrow> nat list \<Rightarrow> nat list" where
  "claimed logical blocks epoch_blocks =
     concat (map (\<lambda>(s, e). [s..<e]) (claimed_ranges logical blocks epoch_blocks))"

definition owns_worker :: "nat \<Rightarrow> nat \<Rightarrow> nat list \<Rightarrow> nat \<Rightarrow> bool" where
  "owns_worker logical blocks epoch_blocks w \<longleftrightarrow> block_of w logical blocks \<in> set epoch_blocks"

section \<open>Validating and targeting a transaction\<close>

record 'v op =
  op_object :: string
  op_sql :: string
  op_params :: "'v list"

datatype txn_error = NoObjects | BadId string | Undeclared string

definition validate_txn :: "string list \<Rightarrow> 'v op list \<Rightarrow> txn_error + string list" where
  "validate_txn objects ops =
     (if objects = [] then Inl NoObjects
      else let ids = remdups_adj (sort objects) in
        case List.find (\<lambda>oid. \<not> valid_id oid) ids of
          Some oid \<Rightarrow> Inl (BadId oid)
        | None \<Rightarrow> (case List.find (\<lambda>op. op_object op \<notin> set ids) ops of
            Some op \<Rightarrow> Inl (Undeclared (op_object op))
          | None \<Rightarrow> Inr ids))"

text \<open>\<open>Iterator::min_by_key\<close>: the first of the least elements.\<close>

fun min_by_key :: "('a \<Rightarrow> 'k::linorder) \<Rightarrow> 'a list \<Rightarrow> 'a option" where
  "min_by_key f [] = None"
| "min_by_key f (x # xs) = Some (foldl (\<lambda>m y. if f y < f m then y else m) x xs)"

definition add_vote :: "(nat \<times> nat) list \<Rightarrow> nat \<Rightarrow> (nat \<times> nat) list" where
  "add_vote m w = bt_insert w ((case map_of m w of Some c \<Rightarrow> c | None \<Rightarrow> 0) + 1) m"

text \<open>\<open>Reverse(count)\<close> in the key is the count negated.\<close>

definition plurality_target :: "routing \<Rightarrow> string list \<Rightarrow> nat rust" where
  "plurality_target r ids =
     (case min_by_key (\<lambda>(w, c). (- int c, exception_load r w, w)) (foldl add_vote [] (map (owner_of r) ids)) of
        Some (w, _) \<Rightarrow> Ret w
      | None \<Rightarrow> Panic)"


section \<open>Facts about ranges\<close>

definition ranges_ok :: "(nat \<times> nat) list \<Rightarrow> bool" where
  "ranges_ok rs \<longleftrightarrow> sorted_wrt (\<lambda>r r'. snd r < fst r') rs \<and> list_all (\<lambda>r. fst r < snd r) rs"

definition cover :: "(nat \<times> nat) list \<Rightarrow> nat set" where
  "cover rs = (\<Union>(s, e) \<in> set rs. {s..<e})"

lemma ranges_below:
  "ranges_ok rs \<Longrightarrow> r \<in> set rs \<Longrightarrow> snd r \<le> snd (last rs)"
proof (induction rs)
  case (Cons a rs)
  have later: "\<forall>x \<in> set rs. snd a < fst x \<and> fst x < snd x" and ok: "ranges_ok rs"
    using Cons.prems(1) by (auto simp: ranges_ok_def list_all_iff)
  show ?case
  proof (cases "rs = []")
    case False
    then have "snd a < snd (last rs)" using later last_in_set[OF False] less_trans by blast
    then show ?thesis using Cons False ok by auto
  qed (use Cons.prems in simp)
qed simp

lemma push_range_ok:
  assumes "ranges_ok rs" "s < e" "rs \<noteq> [] \<longrightarrow> snd (last rs) \<le> s"
  shows "ranges_ok (push_range rs (s, e)) \<and> cover (push_range rs (s, e)) = cover rs \<union> {s..<e}
    \<and> push_range rs (s, e) \<noteq> [] \<and> snd (last (push_range rs (s, e))) = e"
proof (cases "rs \<noteq> [] \<and> snd (last rs) = s")
  case True
  then obtain us a where rs: "rs = us @ [(a, s)]"
    by (metis append_butlast_last_id prod.collapse)
  have "{a..<s} \<union> {s..<e} = {a..<e}" using assms(1,2) rs by (auto simp: ranges_ok_def)
  then show ?thesis using assms rs by (auto simp: ranges_ok_def cover_def sorted_wrt_append)
next
  case False
  then have "rs \<noteq> [] \<longrightarrow> snd (last rs) < s" using assms(3) by auto
  then have "\<forall>r \<in> set rs. snd r < s"
    using ranges_below[OF assms(1)] by (metis le_less_trans length_pos_if_in_set list.size(3) less_irrefl)
  then show ?thesis using assms False by (auto simp: ranges_ok_def cover_def sorted_wrt_append)
qed

declare push_range.simps [simp del]

lemma block_range_nonempty:
  assumes "0 < blocks" "blocks \<le> logical"
  shows "fst (block_range b logical blocks) < snd (block_range b logical blocks)"
proof -
  have "div_ceil (b * logical) blocks < div_ceil ((b + 1) * logical) blocks"
  proof (rule ccontr)
    assume "\<not> ?thesis"
    then have "(b + 1) * logical \<le> div_ceil (b * logical) blocks * blocks"
      using div_ceil_le[OF assms(1)] by (simp add: not_less)
    also have "\<dots> \<le> b * logical + blocks - 1"
      by (simp add: div_ceil_def div_times_less_eq_dividend)
    finally show False using assms by (simp add: algebra_simps)
  qed
  then show ?thesis by (simp add: block_range_def)
qed

lemma block_range_mono: "b < c \<Longrightarrow> snd (block_range b logical blocks) \<le> fst (block_range c logical blocks)"
proof -
  assume "b < c"
  then have "(b + 1) * logical \<le> c * logical" by (intro mult_le_mono1) simp
  then show ?thesis unfolding block_range_def div_ceil_def by (simp add: div_le_mono)
qed

lemma foldl_ranges:
  assumes "0 < blocks" "blocks \<le> logical" "sorted_wrt (<) bs"
  defines "rs \<equiv> foldl (\<lambda>rs b. push_range rs (block_range b logical blocks)) [] bs"
  shows "ranges_ok rs \<and> cover rs = {w. block_of w logical blocks \<in> set bs}
    \<and> (rs \<noteq> [] \<longrightarrow> bs \<noteq> [] \<and> snd (last rs) = snd (block_range (last bs) logical blocks))"
  unfolding rs_def using assms(3)
proof (induction bs rule: rev_induct)
  case Nil
  then show ?case by (simp add: ranges_ok_def cover_def)
next
  case (snoc b bs)
  let ?rs = "foldl (\<lambda>rs b. push_range rs (block_range b logical blocks)) [] bs"
  obtain s e where se: "block_range b logical blocks = (s, e)" by force
  have IH: "ranges_ok ?rs" "cover ?rs = {w. block_of w logical blocks \<in> set bs}"
    "?rs \<noteq> [] \<longrightarrow> bs \<noteq> [] \<and> snd (last ?rs) = snd (block_range (last bs) logical blocks)"
    using snoc by (simp_all add: sorted_wrt_append)
  have lt: "s < e" using block_range_nonempty[OF assms(1,2), of b] se by simp
  have "?rs \<noteq> [] \<longrightarrow> snd (last ?rs) \<le> s"
  proof
    assume ne: "?rs \<noteq> []"
    then have "last bs < b" using IH(3) snoc.prems by (auto simp: sorted_wrt_append)
    from block_range_mono[OF this, of logical blocks] show "snd (last ?rs) \<le> s" using IH(3) ne se by simp
  qed
  note push = push_range_ok[OF IH(1) lt this]
  have new: "{s..<e} = {w. block_of w logical blocks = b}"
  proof (rule set_eqI)
    fix w
    have "0 < logical" using assms(1,2) by simp
    then show "w \<in> {s..<e} \<longleftrightarrow> w \<in> {w. block_of w logical blocks = b}"
      using in_block_range[OF assms(1), of logical b w] se by simp
  qed
  have "cover (push_range ?rs (s, e)) = cover ?rs \<union> {s..<e}" using push by blast
  also have "\<dots> = {w. block_of w logical blocks \<in> set bs} \<union> {w. block_of w logical blocks = b}"
    by (simp only: IH(2) new)
  also have "\<dots> = {w. block_of w logical blocks \<in> set (bs @ [b])}" by auto
  finally have cov: "cover (push_range ?rs (s, e)) = {w. block_of w logical blocks \<in> set (bs @ [b])}" .
  have "foldl (\<lambda>rs b. push_range rs (block_range b logical blocks)) [] (bs @ [b]) = push_range ?rs (s, e)"
    by (simp add: se)
  moreover have "ranges_ok (push_range ?rs (s, e))" "snd (last (push_range ?rs (s, e))) = e" using push by blast+
  ultimately show ?case using cov se by (simp only:) simp
qed

lemma sort_distinct_strict: "distinct bs \<Longrightarrow> sorted_wrt (<) (sort bs)"
  for bs :: "'a::linorder list"
  by (simp add: strict_sorted_iff)

lemma claimed_of_ranges:
  assumes "ranges_ok rs"
  shows "sorted_wrt (<) (concat (map (\<lambda>(s, e). [s..<e]) rs)) \<and> set (concat (map (\<lambda>(s, e). [s..<e]) rs)) = cover rs"
  using assms
proof (induction rs)
  case (Cons r rs)
  obtain s e where r: "r = (s, e)" by force
  have ok: "ranges_ok rs" "\<forall>x \<in> set rs. e < fst x" using Cons.prems r by (auto simp: ranges_ok_def)
  have "x < y" if x: "x \<in> {s..<e}" and y: "y \<in> cover rs" for x y
  proof -
    obtain s' e' where "(s', e') \<in> set rs" "s' \<le> y" using y by (auto simp: cover_def)
    then show ?thesis using ok(2) x by fastforce
  qed
  moreover have "cover (r # rs) = {s..<e} \<union> cover rs" by (simp add: cover_def r)
  ultimately show ?case using Cons.IH[OF ok(1)] r by (simp add: sorted_wrt_append)
qed (simp add: cover_def)

lemma sorted_remdups_adj_strict: "sorted xs \<Longrightarrow> sorted_wrt (<) (remdups_adj xs)"
  for xs :: "'a::linorder list"
proof (induction xs rule: remdups_adj.induct)
  case (3 x y xs)
  show ?case
  proof (cases "x = y")
    case False
    then have "x < y" "\<forall>z \<in> set xs. y \<le> z" using 3(3) by auto
    then have "\<forall>z \<in> set (remdups_adj (y # xs)). x < z" by auto
    then show ?thesis using 3 False by simp
  qed (use 3 in simp)
qed simp_all

lemma find_none: "List.find P xs = None \<longleftrightarrow> (\<forall>x \<in> set xs. \<not> P x)"
  by (auto simp: find_None_iff)

lemma find_some: "List.find P xs = Some x \<Longrightarrow> P x \<and> x \<in> set xs"
  by (auto simp: find_Some_iff)

section \<open>Facts about votes\<close>

lemma min_by_key_least:
  assumes "xs \<noteq> []"
  shows "\<exists>y. min_by_key f xs = Some y \<and> y \<in> set xs \<and> (\<forall>z \<in> set xs. f y \<le> f z)"
proof -
  have "foldl (\<lambda>m y. if f y < f m then y else m) x ys \<in> insert x (set ys)
      \<and> (\<forall>z \<in> insert x (set ys). f (foldl (\<lambda>m y. if f y < f m then y else m) x ys) \<le> f z)" for x ys
  proof (induction ys arbitrary: x)
    case (Cons a ys)
    show ?case
    proof (cases "f a < f x")
      case True
      then show ?thesis using Cons[of a] by (auto intro: order_trans less_imp_le)
    next
      case False
      then show ?thesis using Cons[of x] by (auto intro: order_trans simp: not_less)
    qed
  qed simp
  then show ?thesis using assms by (cases xs) auto
qed

definition votes_for :: "routing \<Rightarrow> string list \<Rightarrow> nat \<Rightarrow> nat" where
  "votes_for r ids w = length (filter (\<lambda>oid. owner_of r oid = w) ids)"

lemma votes_count:
  "bt_wf m \<Longrightarrow> bt_wf (foldl add_vote m ws) \<and>
   map_of (foldl add_vote m ws) w =
     (if w \<in> set ws then Some ((case map_of m w of Some c \<Rightarrow> c | None \<Rightarrow> 0) + length (filter (\<lambda>x. x = w) ws))
      else map_of m w)"
proof (induction ws arbitrary: m)
  case (Cons a ws)
  have "bt_wf (add_vote m a)" using Cons.prems by (simp add: add_vote_def)
  from Cons.IH[OF this] show ?case by (auto simp: add_vote_def filter_empty_conv)
qed simp

lemma votes_entries:
  "(w, c) \<in> set (foldl add_vote [] (map (owner_of r) ids)) \<longleftrightarrow>
     w \<in> owner_of r ` set ids \<and> c = votes_for r ids w"
proof -
  let ?v = "foldl add_vote [] (map (owner_of r) ids)"
  have v: "bt_wf ?v" "map_of ?v w = (if w \<in> owner_of r ` set ids then Some (votes_for r ids w) else None)"
    using votes_count[of "[]" "map (owner_of r) ids" w] by (simp_all add: votes_for_def filter_map o_def)
  have "(w, c) \<in> set ?v \<longleftrightarrow> map_of ?v w = Some c"
    using bt_wf_distinct[OF v(1)] by (simp add: map_of_eq_Some_iff)
  then show ?thesis using v(2) by auto
qed

lemma plurality_least:
  assumes "ids \<noteq> []"
  shows "\<exists>w. plurality_target r ids = Ret w \<and> w \<in> owner_of r ` set ids \<and> (\<forall>v \<in> owner_of r ` set ids.
    votes_for r ids v < votes_for r ids w
    \<or> votes_for r ids v = votes_for r ids w \<and>
       (exception_load r w < exception_load r v \<or> exception_load r w = exception_load r v \<and> w \<le> v))"
proof -
  let ?v = "foldl add_vote [] (map (owner_of r) ids)" and ?f = "\<lambda>(w, c). (- int c, exception_load r w, w)"
  obtain a where "a \<in> set ids" using assms by (cases ids) auto
  then have "?v \<noteq> []" using votes_entries[of "owner_of r a" "votes_for r ids (owner_of r a)" r ids] by force
  then obtain w c where m: "min_by_key ?f ?v = Some (w, c)" "(w, c) \<in> set ?v" "\<forall>z \<in> set ?v. ?f (w, c) \<le> ?f z"
    using min_by_key_least[of ?v ?f] by auto
  have wc: "w \<in> owner_of r ` set ids" "c = votes_for r ids w" using m(2) votes_entries by auto
  have "votes_for r ids v < votes_for r ids w \<or> votes_for r ids v = votes_for r ids w \<and>
     (exception_load r w < exception_load r v \<or> exception_load r w = exception_load r v \<and> w \<le> v)"
    if "v \<in> owner_of r ` set ids" for v
  proof -
    have "(v, votes_for r ids v) \<in> set ?v" using that votes_entries by blast
    then have "?f (w, c) \<le> ?f (v, votes_for r ids v)" using m(3) by blast
    then show ?thesis using wc(2) by (auto simp: less_eq_prod_def)
  qed
  moreover have "plurality_target r ids = Ret w" by (simp only: plurality_target_def m(1)) simp
  ultimately show ?thesis using wc(1) by blast
qed

lemma validate_accepts:
  "validate_txn objects ops = Inr ids \<longleftrightarrow>
     objects \<noteq> [] \<and> (\<forall>oid \<in> set objects. valid_id oid) \<and> (\<forall>op \<in> set ops. op_object op \<in> set objects)
     \<and> sorted_wrt (<) ids \<and> set ids = set objects"
proof -
  have canon: "sorted_wrt (<) (remdups_adj (sort objects))"
    by (rule sorted_remdups_adj_strict) simp
  have uniq: "ids = remdups_adj (sort objects)" if "sorted_wrt (<) ids" "set ids = set objects"
    by (rule sorted_distinct_set_unique) (use that canon in \<open>simp_all add: strict_sorted_iff\<close>)
  show ?thesis
    using uniq canon
    by (auto simp: validate_txn_def Let_def find_none split: option.split if_splits dest!: find_some)
qed

section \<open>Properties\<close>

text \<open>C29: The range of a lease block holds exactly the workers the block covers, at every seam, also when the
  blocks do not divide the worker space evenly; consecutive ranges meet and the last one ends at
  the number of workers.\<close>

theorem block_ranges_partition:
  assumes "0 < blocks" "0 < logical"
  shows "(fst (block_range b logical blocks) \<le> w \<and> w < snd (block_range b logical blocks)
      \<longleftrightarrow> block_of w logical blocks = b)
    \<and> snd (block_range b logical blocks) = fst (block_range (b + 1) logical blocks)
    \<and> fst (block_range blocks logical blocks) = logical"
  using in_block_range[OF assms] block_range_abut block_range_last[OF assms(1)] by simp

lemma block_ranges_partition_witness:
  "fst (block_range 0 1000000 256) \<le> 3906 \<and> 3906 < snd (block_range 0 1000000 256)"
  using block_ranges_partition[of 256 1000000 0 3906] by (simp add: block_of_def)

text \<open>The ranges a node reports are exactly the workers its block leases cover: listed without repetition
  and in order, merged until no two of them touch, and as many as there are such workers.\<close>

theorem claimed_ranges_exact:
  assumes "0 < blocks" "blocks \<le> logical" "distinct bs" "\<forall>b \<in> set bs. b < blocks"
  shows "set (claimed logical blocks bs) = {w. w < logical \<and> owns_worker logical blocks bs w}
    \<and> sorted_wrt (<) (claimed logical blocks bs)
    \<and> sorted_wrt (\<lambda>r r'. snd r < fst r') (claimed_ranges logical blocks bs)
    \<and> claimed_workers logical blocks bs = card {w. w < logical \<and> owns_worker logical blocks bs w}"
proof -
  have rs: "ranges_ok (claimed_ranges logical blocks bs)"
    "cover (claimed_ranges logical blocks bs) = {w. owns_worker logical blocks bs w}"
    using foldl_ranges[OF assms(1,2) sort_distinct_strict[OF assms(3)]]
    by (simp_all add: claimed_ranges_def owns_worker_def)
  note c = claimed_of_ranges[OF rs(1)]
  have all: "{w. owns_worker logical blocks bs w} = {w. w < logical \<and> owns_worker logical blocks bs w}"
  proof -
    have "w < logical" if "owns_worker logical blocks bs w" for w
    proof (rule ccontr)
      assume "\<not> w < logical"
      then have "blocks * logical \<le> w * blocks" by simp
      then have "blocks \<le> block_of w logical blocks"
        using assms(1,2) by (simp add: block_of_def less_eq_div_iff_mult_less_eq)
      then show False using that assms(4) by (auto simp: owns_worker_def)
    qed
    then show ?thesis by blast
  qed
  have list: "claimed logical blocks bs = concat (map (\<lambda>(s, e). [s..<e]) (claimed_ranges logical blocks bs))"
    by (simp add: claimed_def)
  have set: "set (claimed logical blocks bs) = {w. w < logical \<and> owns_worker logical blocks bs w}"
    using c rs(2) all list by simp
  have sorted: "sorted_wrt (<) (claimed logical blocks bs)" using c list by simp
  have "claimed_workers logical blocks bs = length (claimed logical blocks bs)"
    by (simp add: claimed_workers_def list length_concat o_def case_prod_unfold)
  also have "\<dots> = card (set (claimed logical blocks bs))"
    using sorted by (simp add: strict_sorted_iff distinct_card)
  finally show ?thesis using set sorted rs(1) by (simp add: ranges_ok_def)
qed

lemma claimed_ranges_exact_witness:
  "set (claimed 10 4 [3, 0, 1]) = {w. w < 10 \<and> owns_worker 10 4 [3, 0, 1] w} \<and> claimed_ranges 10 4 [3, 0, 1] = [(0, 5), (8, 10)]"
  using claimed_ranges_exact[of 4 10 "[3, 0, 1]"]
  by (simp add: claimed_ranges_def block_range_def div_ceil_def push_range.simps)

text \<open>A transaction goes to a worker that owns at least one participant, and no other owner has more of the
  participants, or as many and less load, or as many and the same load and a lower number.\<close>

theorem plurality_wins:
  assumes "ids \<noteq> []"
  shows "\<exists>w. plurality_target r ids = Ret w \<and> w \<in> owner_of r ` set ids \<and> (\<forall>v \<in> owner_of r ` set ids.
    votes_for r ids v < votes_for r ids w
    \<or> votes_for r ids v = votes_for r ids w \<and>
       (exception_load r w < exception_load r v \<or> exception_load r w = exception_load r v \<and> w \<le> v))"
  using assms by (rule plurality_least)

definition demo_routing :: routing where
  "demo_routing = \<lparr>rt_logical = 4, rt_blocks = 2, rt_exceptions = [(''a'', 3), (''b'', 1), (''c'', 3)], rt_addrs = []\<rparr>"

lemma plurality_wins_witness: "\<exists>w. plurality_target demo_routing [''a'', ''b'', ''c''] = Ret w \<and> w = 3"
proof -
  have o: "owner_of demo_routing ''a'' = 3" "owner_of demo_routing ''b'' = 1" "owner_of demo_routing ''c'' = 3"
    by (simp_all add: demo_routing_def owner_of_def)
  then have "votes_for demo_routing [''a'', ''b'', ''c''] 3 = 2" "votes_for demo_routing [''a'', ''b'', ''c''] 1 = 1"
    by (simp_all add: votes_for_def)
  then show ?thesis using plurality_wins[of "[''a'', ''b'', ''c'']" demo_routing] o by auto
qed

text \<open>Validation accepts a transaction exactly when it names an object, every named object has a valid id and
  every operation touches a named object; what it returns is the named objects, each once, in order.\<close>

theorem validate_txn_iff:
  "validate_txn objects ops = Inr ids \<longleftrightarrow>
     objects \<noteq> [] \<and> (\<forall>oid \<in> set objects. valid_id oid) \<and> (\<forall>op \<in> set ops. op_object op \<in> set objects)
     \<and> sorted_wrt (<) ids \<and> set ids = set objects"
  by (rule validate_accepts)

lemma validate_txn_iff_witness:
  "validate_txn [''b'', ''a'', ''b''] [\<lparr>op_object = ''a'', op_sql = ''select 1'', op_params = []\<rparr>] = Inr [''a'', ''b'']"
  by (subst validate_txn_iff) (auto simp: valid_id_def ascii_alnum_def)

end
