(* ===== verification/Grants.thy ===== *)
theory Grants
  imports Routing
begin

text \<open>
  \<open>src/src/grants.rs\<close>: capability tokens. HMAC-SHA256 and the JSON codec are third-party crates, so the
  definitions take them as arguments (\<open>mac\<close>, \<open>to_json\<close>, \<open>of_json\<close>); what is proved holds for any of them,
  the round trip under the codec's own round trip. Slicing a string inside a character panics, so
  the hex reader returns a \<open>rust\<close> value. The clock is an argument.
\<close>

section \<open>Tokens\<close>

record grant =
  g_objects :: string
  g_verbs :: "string list"

record capability =
  cap_grants :: "grant list"
  cap_exp :: nat
  cap_sub :: "string option"

definition token_prefix :: string where "token_prefix = ''fafo1.''"

definition mint :: "(string \<Rightarrow> bytes \<Rightarrow> bytes) \<Rightarrow> (capability \<Rightarrow> bytes) \<Rightarrow> string \<Rightarrow> capability \<Rightarrow> string" where
  "mint mac to_json secret cap =
     (let payload = to_json cap in token_prefix @ hex payload @ ''.'' @ hex (mac secret payload))"

definition verify :: "(string \<Rightarrow> bytes \<Rightarrow> bytes) \<Rightarrow> (bytes \<Rightarrow> capability option) \<Rightarrow> nat \<Rightarrow> string \<Rightarrow> string
    \<Rightarrow> capability option rust" where
  "verify mac of_json now secret token =
     (case Option.bind (strip_prefix token_prefix token) (split_once (CHR ''.'')) of
        None \<Rightarrow> Ret None
      | Some (payload_hex, sig_hex) \<Rightarrow>
          rust_bind (unhex payload_hex) (\<lambda>payload. case payload of None \<Rightarrow> Ret None | Some payload \<Rightarrow>
          rust_bind (unhex sig_hex) (\<lambda>sig. case sig of None \<Rightarrow> Ret None | Some sig \<Rightarrow>
            if mac secret payload = sig then
              (case of_json payload of
                 None \<Rightarrow> Ret None
               | Some cap \<Rightarrow> Ret (if now < cap_exp cap then Some cap else None))
            else Ret None)))"

section \<open>Coverage\<close>

definition pattern_matches :: "string \<Rightarrow> string \<Rightarrow> bool" where
  "pattern_matches pattern object =
     (case strip_suffix ''*'' pattern of Some p \<Rightarrow> starts_with object p | None \<Rightarrow> pattern = object)"

definition verb_covered :: "string list \<Rightarrow> string \<Rightarrow> bool" where
  "verb_covered granted asked =
     (if asked \<in> {''insert'', ''update'', ''delete'', ''ddl''} then asked \<in> set granted \<or> ''write'' \<in> set granted
      else if asked = ''write'' then
        list_ex (\<lambda>v. v \<in> set granted) [''write'', ''insert'', ''update'', ''delete'', ''ddl'']
      else asked \<in> set granted)"

definition allows :: "capability \<Rightarrow> string \<Rightarrow> string \<Rightarrow> bool" where
  "allows cap object verb =
     list_ex (\<lambda>g. verb_covered (g_verbs g) verb \<and> pattern_matches (g_objects g) object) (cap_grants cap)"

section \<open>Reading back hexadecimal text\<close>

lemma hex_char_not_dot: "n < 16 \<Longrightarrow> hex_char n \<noteq> CHR ''.''"
  by (auto simp: hex_char_def dest: arg_cong[of _ _ "of_char :: char \<Rightarrow> nat"])

lemma byte_nibbles: "unat b div 16 < 16" "unat b mod 16 < 16" for b :: byte
  using unsigned_less[of b, where 'a = nat] by auto

lemma hex_no_dot: "CHR ''.'' \<notin> set (hex bs)"
proof (induction bs)
  case (Cons b bs)
  then show ?case
    using hex_char_not_dot[OF byte_nibbles(1)[of b]] hex_char_not_dot[OF byte_nibbles(2)[of b]]
    by (auto simp: hex_def hex_byte_def)
qed (simp add: hex_def)

lemma split_once_hex: "split_once (CHR ''.'') (hex bs @ ''.'' @ s) = Some (hex bs, s)"
  using hex_no_dot by (simp add: split_once_eq_Some)

lemma verify_mint:
  assumes "of_json (to_json cap) = Some cap"
  shows "verify mac of_json now secret (mint mac to_json secret cap) =
    Ret (if now < cap_exp cap then Some cap else None)"
  unfolding verify_def mint_def Let_def strip_prefix_append
  by (simp only: Option.bind.simps split_once_hex option.case prod.case) (simp add: assms)

section \<open>Properties\<close>

text \<open>A token minted with the cluster secret verifies under the same secret, and to the same capability, at
  any time before its expiry; from its expiry on it does not.\<close>

theorem minted_token_verifies:
  assumes "of_json (to_json cap) = Some cap"
  shows "verify mac of_json now secret (mint mac to_json secret cap) =
    Ret (if now < cap_exp cap then Some cap else None)"
  using assms by (rule verify_mint)

definition demo_cap :: capability where
  "demo_cap = \<lparr>cap_grants = [\<lparr>g_objects = ''user-7-*'', g_verbs = [''read'', ''insert'']\<rparr>], cap_exp = 100, cap_sub = None\<rparr>"

lemma minted_token_verifies_witness:
  "verify (\<lambda>k p. rev p) (\<lambda>p. if p = [1, 2] then Some demo_cap else None) 99 ''k'' (mint (\<lambda>k p. rev p) (\<lambda>c. [1, 2]) ''k'' demo_cap) = Ret (Some demo_cap)"
  using minted_token_verifies[of "\<lambda>p. if p = [1, 2] then Some demo_cap else None" "\<lambda>c. [1, 2]" demo_cap "\<lambda>k p. rev p" 99 "''k''"]
  by (simp add: demo_cap_def)

text \<open>Only a token that carries a payload together with the payload's own authentication code under the
  secret is accepted, and only while the capability it encodes has not expired.\<close>

theorem verified_token_is_signed:
  assumes "verify mac of_json now secret token = Ret (Some cap)"
  shows "\<exists>p s payload. token = ''fafo1.'' @ p @ ''.'' @ s \<and> unhex p = Ret (Some payload)
    \<and> unhex s = Ret (Some (mac secret payload)) \<and> of_json payload = Some cap \<and> now < cap_exp cap"
proof -
  obtain p s where ps: "Option.bind (strip_prefix token_prefix token) (split_once (CHR ''.'')) = Some (p, s)"
    using assms by (auto simp: verify_def split: option.splits)
  then have tok: "token = ''fafo1.'' @ p @ ''.'' @ s"
    by (auto simp: bind_eq_Some_conv strip_prefix_eq_Some split_once_eq_Some token_prefix_def)
  obtain payload where pl: "unhex p = Ret (Some payload)"
    using assms ps by (auto simp: verify_def split: option.splits)
  obtain sig where sg: "unhex s = Ret (Some sig)" "mac secret payload = sig"
    using assms ps pl by (auto simp: verify_def split: option.splits if_splits)
  have "of_json payload = Some cap \<and> now < cap_exp cap"
    using assms ps pl sg by (auto simp: verify_def split: option.splits if_splits)
  then show ?thesis using tok pl sg by blast
qed

lemma verified_token_is_signed_witness:
  "\<exists>p s payload. mint (\<lambda>k p. rev p) (\<lambda>c. [1, 2]) ''k'' demo_cap = ''fafo1.'' @ p @ ''.'' @ s \<and> unhex p = Ret (Some payload)"
proof -
  let ?dec = "\<lambda>p. if p = [1, 2] then Some demo_cap else None"
  have "verify (\<lambda>k p. rev p) ?dec 99 ''k'' (mint (\<lambda>k p. rev p) (\<lambda>c. [1, 2]) ''k'' demo_cap) = Ret (Some demo_cap)"
    by (subst verify_mint) (simp_all add: demo_cap_def)
  from verified_token_is_signed[OF this] show ?thesis by blast
qed

end
