(* ===== verification/Rpc.thy ===== *)
theory Rpc
  imports Grants
begin

text \<open>
  \<open>src/src/rpc.rs\<close> and the submission half of \<open>src/src/cluster.rs\<close>: the messages nodes exchange, the errors
  that travel with them, and how a transaction reaches the worker that runs it: here, or by one
  call to the node that holds the worker's lease (one more if the lease has moved), or, for a
  read, from the durable log. The network, the workers and the lease store are arguments: what
  the \<open>k\<close>-th call to each answers. Status codes are their numbers.
\<close>

section \<open>Errors\<close>

record api_error =
  ae_status :: nat
  ae_message :: string

definition bad_request :: "string \<Rightarrow> api_error" where
  "bad_request msg = \<lparr>ae_status = 400, ae_message = msg\<rparr>"

definition internal :: "string \<Rightarrow> api_error" where
  "internal msg = \<lparr>ae_status = 500, ae_message = msg\<rparr>"

record wire_error =
  we_status :: nat
  we_message :: string

definition to_wire :: "api_error \<Rightarrow> wire_error" where
  "to_wire e = \<lparr>we_status = ae_status e, we_message = ae_message e\<rparr>"

text \<open>\<open>from_u16\<close> is \<open>StatusCode::from_u16\<close> of the HTTP library.\<close>

definition from_wire :: "(nat \<Rightarrow> nat option) \<Rightarrow> wire_error \<Rightarrow> api_error" where
  "from_wire from_u16 e =
     \<lparr>ae_status = (case from_u16 (we_status e) of Some s \<Rightarrow> s | None \<Rightarrow> 500), ae_message = we_message e\<rparr>"

section \<open>Messages\<close>

datatype 'v op_result = Rows "'v list" | Affected nat

record 'v txn_response =
  tr_txn_id :: string
  tr_results :: "'v op_result list"
  tr_hash :: "string option"

record visit_info =
  vi_worker :: nat
  vi_count :: nat
  vi_last :: nat

record transfer_meta =
  tm_settled :: bool
  tm_home :: nat
  tm_visit :: "visit_info option"
  tm_generation :: nat

datatype take_error = NotMine "nat option" | TakeFailed string

datatype 'v request =
    TxnRq "string list" "'v op list" bool bool "capability option"
  | TakeRq nat string nat
  | AdoptRq nat string transfer_meta

datatype 'v response =
    OkRs
  | TxnRs "wire_error + 'v txn_response"
  | TakeRs "take_error + transfer_meta"
  | ErrRs string

text \<open>\<open>Http::call\<close> and \<open>Http::health\<close>: \<open>send\<close> is the HTTP client (an error, or a status and the parsed
  body), \<open>show_status\<close> the library's rendering of a status.\<close>

definition http_ok :: "nat \<Rightarrow> bool" where
  "http_ok status \<longleftrightarrow> 200 \<le> status \<and> status \<le> 299"

definition http_call :: "(string \<Rightarrow> string \<Rightarrow> 'q \<Rightarrow> string + nat \<times> (string + 's)) \<Rightarrow> (nat \<Rightarrow> string)
    \<Rightarrow> string \<Rightarrow> string \<Rightarrow> 'q \<Rightarrow> string + 's" where
  "http_call send show_status secret base req =
     (case send (base @ ''/internal/rpc'') secret req of
        Inl e \<Rightarrow> Inl e
      | Inr (status, body) \<Rightarrow>
          if http_ok status then body
          else Inl (''rpc to '' @ base @ '' returned '' @ show_status status))"

definition http_health :: "(string \<Rightarrow> string + nat) \<Rightarrow> string \<Rightarrow> bool" where
  "http_health send base = (case send (base @ ''/healthz'') of Inl _ \<Rightarrow> False | Inr status \<Rightarrow> http_ok status)"

definition forward_txn :: "(nat \<Rightarrow> nat option) \<Rightarrow> (string \<Rightarrow> 'v request \<Rightarrow> string + 'v response) \<Rightarrow> string
    \<Rightarrow> capability option \<Rightarrow> string list \<Rightarrow> 'v op list \<Rightarrow> bool \<Rightarrow> bool \<Rightarrow> api_error + 'v txn_response" where
  "forward_txn from_u16 call base cap objects ops read_only optimistic =
     (case call base (TxnRq objects ops read_only optimistic cap) of
        Inr (TxnRs (Inr r)) \<Rightarrow> Inr r
      | Inr (TxnRs (Inl e)) \<Rightarrow> Inl (from_wire from_u16 e)
      | Inr (ErrRs e) \<Rightarrow> Inl (internal e)
      | Inr _ \<Rightarrow> Inl (internal ''rpc protocol mismatch'')
      | Inl e \<Rightarrow> Inl (internal (''rpc to '' @ base @ '' failed: '' @ e)))"

definition rpc_take :: "(string \<Rightarrow> 'v request \<Rightarrow> string + 'v response) \<Rightarrow> string \<Rightarrow> nat \<Rightarrow> string \<Rightarrow> nat
    \<Rightarrow> string + (take_error + transfer_meta)" where
  "rpc_take call base worker object taker =
     (case call base (TakeRq worker object taker) of
        Inl e \<Rightarrow> Inl e
      | Inr (TakeRs r) \<Rightarrow> Inr r
      | Inr (ErrRs e) \<Rightarrow> Inr (Inl (TakeFailed e))
      | Inr _ \<Rightarrow> Inl ''rpc protocol mismatch'')"

definition rpc_adopt :: "(string \<Rightarrow> 'v request \<Rightarrow> string + 'v response) \<Rightarrow> string \<Rightarrow> nat \<Rightarrow> string \<Rightarrow> transfer_meta
    \<Rightarrow> string + unit" where
  "rpc_adopt call base worker object meta =
     (case call base (AdoptRq worker object meta) of
        Inl e \<Rightarrow> Inl e
      | Inr OkRs \<Rightarrow> Inr ()
      | Inr (ErrRs e) \<Rightarrow> Inl e
      | Inr _ \<Rightarrow> Inl ''rpc protocol mismatch'')"

section \<open>Submitting\<close>

text \<open>What a worker's channel gives: closed, a dropped reply, or the reply.\<close>

datatype 'v reply = ChannelClosed | ReplyDropped | Replied "api_error + 'v txn_response"

fun await_reply :: "string \<Rightarrow> 'v reply \<Rightarrow> api_error + 'v txn_response" where
  "await_reply dropped ChannelClosed = Inl (internal ''worker is gone'')"
| "await_reply dropped ReplyDropped = Inl (internal dropped)"
| "await_reply dropped (Replied r) = r"

record 'v world =
  w_local :: "nat \<Rightarrow> 'v reply option"
  w_lease :: "nat \<Rightarrow> nat \<Rightarrow> string option"
  w_call :: "nat \<Rightarrow> string \<Rightarrow> 'v request \<Rightarrow> string + 'v response"
  w_durable :: "string list \<Rightarrow> 'v op list \<Rightarrow> api_error + 'v txn_response"
  w_from_u16 :: "nat \<Rightarrow> nat option"
  w_log_primary :: bool

text \<open>\<open>lease\<close>: the address in the block's current lease, when there is one to read.\<close>

definition resolve_addr :: "string option \<Rightarrow> nat \<Rightarrow> routing \<Rightarrow> string option \<times> routing" where
  "resolve_addr lease worker r =
     (case lease of
        None \<Rightarrow> (None, r)
      | Some addr \<Rightarrow> (Some addr,
          r\<lparr>rt_addrs := bt_insert (block_of worker (rt_logical r) (rt_blocks r)) addr (rt_addrs r)\<rparr>))"

definition submit_routed :: "'v world \<Rightarrow> routing \<Rightarrow> capability option \<Rightarrow> string list \<Rightarrow> 'v op list \<Rightarrow> bool \<Rightarrow> bool
    \<Rightarrow> ((api_error + 'v txn_response) \<times> routing) rust" where
  "submit_routed w r cap ids ops read_only optimistic =
     rust_bind (plurality_target r ids) (\<lambda>target. Ret (
       case w_local w target of
         Some reply \<Rightarrow> (await_reply ''transaction dropped'' reply, r)
       | None \<Rightarrow>
           (let (addr, r) = (case addr_of_worker r target of
                               Some a \<Rightarrow> (Some a, r)
                             | None \<Rightarrow> resolve_addr (w_lease w 0 target) target r)
            in case addr of
                 None \<Rightarrow>
                   if read_only \<and> w_log_primary w then (w_durable w ids ops, r)
                   else (Inl (internal (''no live node holds logical worker '' @ show_nat target)), r)
               | Some addr \<Rightarrow>
                   (let forward = (\<lambda>k a. forward_txn (w_from_u16 w) (w_call w k) a cap ids ops read_only optimistic);
                        (outcome, r) = (case forward 0 addr of
                            Inl e \<Rightarrow>
                              if starts_with (ae_message e) ''rpc to'' then
                                (let (fresh, r) = resolve_addr (w_lease w 1 target) target r
                                 in case fresh of
                                      Some f \<Rightarrow> if f \<noteq> addr then (forward 1 f, r) else (Inl e, r)
                                    | None \<Rightarrow> (Inl e, r))
                              else (Inl e, r)
                          | Inr x \<Rightarrow> (Inr x, r))
                    in case outcome of
                         Inl e \<Rightarrow> if read_only \<and> w_log_primary w then (w_durable w ids ops, r) else (Inl e, r)
                       | Inr x \<Rightarrow> (Inr x, r)))))"

text \<open>The node's logical clock and transaction count.\<close>

record counters =
  c_clock :: nat
  c_total_txns :: nat

definition count_txn :: "counters \<Rightarrow> counters" where
  "count_txn c = c\<lparr>c_clock := c_clock c + 1, c_total_txns := c_total_txns c + 1\<rparr>"

definition em_dash :: string where "em_dash = map char_of [226, 128, 148 :: nat]"

definition txn_error_response :: "(string \<Rightarrow> string) \<Rightarrow> txn_error \<Rightarrow> api_error" where
  "txn_error_response debug e = (case e of
     NoObjects \<Rightarrow> bad_request ''declare at least one object''
   | BadId oid \<Rightarrow> bad_request (''invalid object id: '' @ debug oid)
   | Undeclared oid \<Rightarrow> bad_request (''op touches undeclared object '' @ debug oid @ '' '' @ em_dash @ '' declare it in `objects`''))"

definition submit_as :: "(string \<Rightarrow> string) \<Rightarrow> 'v world \<Rightarrow> routing \<Rightarrow> counters \<Rightarrow> capability option \<Rightarrow> string list
    \<Rightarrow> 'v op list \<Rightarrow> bool \<Rightarrow> bool \<Rightarrow> ((api_error + 'v txn_response) \<times> routing \<times> counters) rust" where
  "submit_as debug w r c cap objects ops read_only optimistic =
     (case validate_txn objects ops of
        Inl e \<Rightarrow> Ret (Inl (txn_error_response debug e), r, c)
      | Inr ids \<Rightarrow>
          rust_bind (submit_routed w r cap ids ops read_only optimistic) (\<lambda>(x, r). Ret (x, r, count_txn c)))"

definition submit_system :: "'v world \<Rightarrow> routing \<Rightarrow> counters \<Rightarrow> string list \<Rightarrow> 'v op list \<Rightarrow> bool
    \<Rightarrow> ((api_error + 'v txn_response) \<times> routing \<times> counters) rust" where
  "submit_system w r c objects ops optimistic =
     rust_bind (submit_routed w r None (remdups_adj (sort objects)) ops False optimistic)
       (\<lambda>(x, r). Ret (x, r, count_txn c))"

text \<open>A transaction that arrived by RPC is never sent on: this node coordinates.\<close>

definition received_worker :: "(nat \<Rightarrow> bool) \<Rightarrow> nat list \<Rightarrow> routing \<Rightarrow> string list \<Rightarrow> nat option rust" where
  "received_worker has_local epoch_blocks r ids =
     rust_bind (plurality_target r ids) (\<lambda>preferred. Ret (
       if has_local preferred then Some preferred
       else if epoch_blocks = [] then None
       else let start = fst (block_range (Min (set epoch_blocks)) (rt_logical r) (rt_blocks r))
            in if has_local start then Some start else None))"

definition submit_received :: "'v world \<Rightarrow> nat list \<Rightarrow> routing \<Rightarrow> string list \<Rightarrow> (api_error + 'v txn_response) rust" where
  "submit_received w epoch_blocks r ids =
     rust_bind (received_worker (\<lambda>x. w_local w x \<noteq> None) epoch_blocks r ids) (\<lambda>worker. Ret (
       case Option.bind worker (w_local w) of
         Some reply \<Rightarrow> await_reply ''transaction dropped'' reply
       | None \<Rightarrow> Inl (internal ''no local worker to coordinate a received transaction'')))"

text \<open>A long poll runs on the owning node or not at all.\<close>

definition submit_poll :: "(string \<Rightarrow> string) \<Rightarrow> 'v world \<Rightarrow> routing \<Rightarrow> counters \<Rightarrow> string
    \<Rightarrow> (api_error + 'v txn_response) \<times> counters" where
  "submit_poll debug w r c object =
     (if \<not> valid_id object then (Inl (bad_request (''invalid object id: '' @ debug object)), c)
      else case w_local w (owner_of r object) of
        None \<Rightarrow> (Inl (bad_request (''this node does not own '' @ debug object
                  @ '' '' @ em_dash @ '' poll the owning instance (WS: /ws?for='' @ object @ '')'')), c)
      | Some reply \<Rightarrow> (await_reply ''poll canceled'' reply, c\<lparr>c_clock := c_clock c + 1\<rparr>))"

section \<open>Facts\<close>

lemma plurality_returns: "ids \<noteq> [] \<Longrightarrow> \<exists>t. plurality_target r ids = Ret t"
  using plurality_least[of ids r] by blast

lemma validated_nonempty: "validate_txn objects ops = Inr ids \<Longrightarrow> ids \<noteq> []"
  by (auto simp: validate_accepts)


lemma same_world:
  "w_local (w\<lparr>w_durable := d\<rparr>) = w_local w" "w_lease (w\<lparr>w_durable := d\<rparr>) = w_lease w"
  "w_call (w\<lparr>w_durable := d\<rparr>) = w_call w" "w_from_u16 (w\<lparr>w_durable := d\<rparr>) = w_from_u16 w"
  "(False \<and> P) = False" "(if False then x else y) = y"
  by simp_all

section \<open>Properties\<close>

text \<open>With the log as the commit engine a read never fails for want of a reachable owner: unless a worker of
  this node answers it itself, whatever the lease store and the network do, it fails only if the
  durable log cannot be read.\<close>

theorem reads_survive_owners:
  assumes "ids \<noteq> []" "w_log_primary w" "\<And>t. w_local w t = None" "w_durable w ids ops = Inr resp"
  shows "\<exists>x r'. submit_routed w r cap ids ops True optimistic = Ret (Inr x, r')"
proof -
  obtain t where t: "plurality_target r ids = Ret t" using plurality_returns[OF assms(1)] by blast
  show ?thesis
    unfolding submit_routed_def
    by (simp add: t assms(2,3,4) Let_def case_prod_unfold split: option.split sum.split)
qed

definition dead_world :: "nat world" where
  "dead_world = \<lparr>w_local = (\<lambda>t. None), w_lease = (\<lambda>k t. Some ''http://gone''), w_call = (\<lambda>k a q. Inl ''timeout''),
     w_durable = (\<lambda>ids ops. Inr \<lparr>tr_txn_id = ''t'', tr_results = [], tr_hash = None\<rparr>),
     w_from_u16 = (\<lambda>n. Some n), w_log_primary = True\<rparr>"

lemma reads_survive_owners_witness:
  "\<exists>x r'. submit_routed dead_world demo_routing None [''a''] [] True False = Ret (Inr x, r')"
  by (rule reads_survive_owners) (simp_all add: dead_world_def)

text \<open>A write is never answered from the durable log: what the log would say makes no difference to it.\<close>

theorem writes_keep_their_owner:
  "submit_routed (w\<lparr>w_durable := d\<rparr>) r cap ids ops False optimistic = submit_routed w r cap ids ops False optimistic"
  unfolding submit_routed_def same_world by (rule refl)

text \<open>Submitting never panics and never loses a transaction silently: it is refused with one of the
  validation errors and leaves the counters and the routing alone, or it is counted and ends with
  a response or an error; and a refused one never reaches a worker.\<close>

theorem submit_total:
  "(\<exists>e. validate_txn objects ops = Inl e \<and>
      submit_as debug w r c cap objects ops ro opt = Ret (Inl (txn_error_response debug e), r, c))
   \<or> (\<exists>ids x r'. validate_txn objects ops = Inr ids \<and>
      submit_as debug w r c cap objects ops ro opt = Ret (x, r', c\<lparr>c_clock := c_clock c + 1, c_total_txns := c_total_txns c + 1\<rparr>))"
proof (cases "validate_txn objects ops")
  case (Inr ids)
  obtain t where t: "plurality_target r ids = Ret t" using plurality_returns[OF validated_nonempty[OF Inr]] by blast
  have "\<exists>y. submit_routed w r cap ids ops ro opt = Ret y" unfolding submit_routed_def by (simp add: t)
  then show ?thesis using Inr by (auto simp: submit_as_def count_txn_def)
qed (simp add: submit_as_def)

text \<open>An error keeps its status and message through the wire for every status the HTTP library accepts.\<close>

theorem wire_error_roundtrip:
  assumes "from_u16 (ae_status e) = Some (ae_status e)"
  shows "from_wire from_u16 (to_wire e) = e"
  using assms by (simp add: from_wire_def to_wire_def)

lemma wire_error_roundtrip_witness:
  "from_wire (\<lambda>n. if 100 \<le> n \<and> n < 1000 then Some n else None) (to_wire (bad_request ''x'')) = bad_request ''x''"
  by (rule wire_error_roundtrip) (simp add: bad_request_def)

end
