(* ===== verification/Limits.thy ===== *)
theory Limits
  imports Routing
begin

text \<open>
  \<open>src/src/limits.rs\<close>: the budgets a node derives from its container, and the ledger of local files that
  keeps them within the disk budget. Budgets are 64-bit words (a release build wraps); the ledger
  counts in natural numbers, and its invariant (\<open>used\<close> is the sum of the entries) is why the code's
  subtractions never go below zero. File-system answers are arguments.
\<close>

section \<open>Budgets\<close>

record limits =
  memory_bytes :: u64
  disk_budget :: u64
  max_boat_bytes :: u64
  activation_permits :: nat

definition clamp :: "'a::linorder \<Rightarrow> 'a \<Rightarrow> 'a \<Rightarrow> 'a" where
  "clamp lo hi x = (if x < lo then lo else if hi < x then hi else x)"

definition derive :: "u64 \<Rightarrow> u64 \<Rightarrow> limits" where
  "derive mem disk_total =
     \<lparr>memory_bytes = mem,
      disk_budget = (disk_total * 6) div 10,
      max_boat_bytes = clamp (16 * 1024 * 1024) (1024 * 1024 * 1024) (mem div 8),
      activation_permits = (if 4 * 1024 * 1024 * 1024 \<le> mem then 4 else 2)\<rparr>"

definition default_max_unshipped :: "limits \<Rightarrow> u64" where
  "default_max_unshipped l = max_boat_bytes l"

text \<open>An environment variable's value, when it is set.\<close>

definition env_bytes :: "string option \<Rightarrow> u64 option" where
  "env_bytes v = map_option (\<lambda>mb. word_of_nat mb * 1024 * 1024) (Option.bind v (parse_uint 64))"

definition ascii_space :: "char \<Rightarrow> bool" where
  "ascii_space c \<longleftrightarrow> of_char c \<in> {32, 9, 10, 11, 12, 13 :: nat}"

definition trim :: "string \<Rightarrow> string" where
  "trim s = rev (dropWhile ascii_space (rev (dropWhile ascii_space s)))"

definition parse_cgroup_limit :: "string \<Rightarrow> u64 option" where
  "parse_cgroup_limit raw =
     Option.bind (parse_uint 64 (trim raw)) (\<lambda>v. if v < 2 ^ 46 then Some (word_of_nat v) else None)"

text \<open>\<open>find_map\<close> over the two files; \<open>None\<close> is a file that cannot be read.\<close>

fun cgroup_memory_limit :: "string option list \<Rightarrow> u64 option" where
  "cgroup_memory_limit [] = None"
| "cgroup_memory_limit (f # fs) = (case Option.bind f parse_cgroup_limit of
     Some v \<Rightarrow> Some v | None \<Rightarrow> cgroup_memory_limit fs)"

definition detect :: "string option \<Rightarrow> string option \<Rightarrow> string option list \<Rightarrow> limits" where
  "detect memory_mb disk_mb cgroup_files =
     (let mem = (case env_bytes memory_mb of Some m \<Rightarrow> m | None \<Rightarrow>
                  (case cgroup_memory_limit cgroup_files of Some m \<Rightarrow> m | None \<Rightarrow> 4 * 1024 * 1024 * 1024));
          disk = (case env_bytes disk_mb of Some d \<Rightarrow> d | None \<Rightarrow> mem + (mem * 2) div 3)
      in derive mem disk)"

section \<open>The disk ledger\<close>

datatype file_state = Live | Cache

record entry =
  en_bytes :: nat
  en_state :: file_state
  en_worker :: nat
  en_touched :: nat

record ledger =
  lg_budget :: nat
  lg_used :: nat
  lg_seq :: nat
  lg_files :: "(string \<times> entry) list"

definition ledger_new :: "nat \<Rightarrow> ledger" where
  "ledger_new budget = \<lparr>lg_budget = budget, lg_used = 0, lg_seq = 0, lg_files = []\<rparr>"

definition upsert :: "string \<Rightarrow> nat \<Rightarrow> file_state \<Rightarrow> nat \<Rightarrow> ledger \<Rightarrow> ledger" where
  "upsert path bytes st worker l =
     (let touched = lg_seq l + 1;
          used = (case map_of (lg_files l) path of Some prev \<Rightarrow> lg_used l - en_bytes prev | None \<Rightarrow> lg_used l)
      in l\<lparr>lg_seq := touched, lg_used := used + bytes,
           lg_files := bt_insert path \<lparr>en_bytes = bytes, en_state = st, en_worker = worker, en_touched = touched\<rparr>
             (lg_files l)\<rparr>)"

definition set_live :: "string \<Rightarrow> nat \<Rightarrow> nat \<Rightarrow> ledger \<Rightarrow> ledger" where
  "set_live path bytes worker l = upsert path bytes Live worker l"

definition ledger_remove :: "string \<Rightarrow> ledger \<Rightarrow> ledger" where
  "ledger_remove path l = (case map_of (lg_files l) path of
     Some e \<Rightarrow> l\<lparr>lg_files := bt_remove path (lg_files l), lg_used := lg_used l - en_bytes e\<rparr>
   | None \<Rightarrow> l)"

text \<open>\<open>fsize\<close> is what the file system says of the file, if it is there.\<close>

definition set_cache :: "string \<Rightarrow> nat option \<Rightarrow> nat \<Rightarrow> ledger \<Rightarrow> ledger" where
  "set_cache path fsize worker l = (case fsize of
     Some n \<Rightarrow> upsert path n Cache worker l
   | None \<Rightarrow> ledger_remove path l)"

definition ledger_touch :: "string \<Rightarrow> nat \<Rightarrow> ledger \<Rightarrow> ledger" where
  "ledger_touch path bytes l =
     (let seq = lg_seq l + 1 in case map_of (lg_files l) path of
        Some e \<Rightarrow> l\<lparr>lg_seq := seq, lg_used := lg_used l - en_bytes e + bytes,
                   lg_files := bt_insert path (e\<lparr>en_bytes := bytes, en_touched := seq\<rparr>) (lg_files l)\<rparr>
      | None \<Rightarrow> l\<lparr>lg_seq := seq\<rparr>)"

definition cache_victim :: "(string \<times> entry) list \<Rightarrow> (string \<times> entry) option" where
  "cache_victim files = min_by_key (\<lambda>(_, e). en_touched e) (filter (\<lambda>(_, e). en_state e = Cache) files)"

lemma cache_victim_in: "cache_victim files = Some (p, e) \<Longrightarrow> (p, e) \<in> set files \<and> en_state e = Cache
    \<and> (\<forall>(q, f) \<in> set files. en_state f = Cache \<longrightarrow> en_touched e \<le> en_touched f)"
proof -
  let ?cs = "filter (\<lambda>(_, e). en_state e = Cache) files"
  assume v: "cache_victim files = Some (p, e)"
  then have "?cs \<noteq> []" by (auto simp: cache_victim_def)
  from min_by_key_least[OF this, of "\<lambda>(_, e). en_touched e"] v show ?thesis
    by (auto simp: cache_victim_def)
qed

lemma length_remove: "map_of m k = Some v \<Longrightarrow> length (bt_remove k m) < length m"
  using length_filter_less[of "(k, v)" m "\<lambda>(k', _). k' \<noteq> k"] by (auto simp: bt_remove_def dest: map_of_SomeD)

text \<open>The loop of \<open>enforce\<close> removes one file per round; it returns the ledger and the bytes deleted.\<close>

function enforce_loop :: "ledger \<Rightarrow> nat \<Rightarrow> ledger \<times> nat" where
  "enforce_loop l deleted =
     (if lg_budget l < lg_used l then
        (case cache_victim (lg_files l) of
           None \<Rightarrow> (l, deleted)
         | Some (path, _) \<Rightarrow>
             (case map_of (lg_files l) path of
                Some e \<Rightarrow> enforce_loop (ledger_remove path l) (deleted + en_bytes e)
              | None \<Rightarrow> (l, deleted)))
      else (l, deleted))"
  by auto
termination
  by (relation "measure (\<lambda>(l, _). length (lg_files l))") (auto simp: ledger_remove_def length_remove)

declare enforce_loop.simps [simp del]

definition live_by_worker :: "(string \<times> entry) list \<Rightarrow> (nat \<times> nat) list" where
  "live_by_worker files = foldl (\<lambda>m (_, e). if en_state e = Live then
       bt_insert (en_worker e) ((case map_of m (en_worker e) of Some b \<Rightarrow> b | None \<Rightarrow> 0) + en_bytes e) m
     else m) [] files"

text \<open>\<open>Iterator::max_by_key\<close>: the last of the greatest elements.\<close>

fun max_by_key :: "('a \<Rightarrow> 'k::linorder) \<Rightarrow> 'a list \<Rightarrow> 'a option" where
  "max_by_key f [] = None"
| "max_by_key f (x # xs) = Some (foldl (\<lambda>m y. if f m \<le> f y then y else m) x xs)"

record enforcement =
  deleted_cache_bytes :: nat
  shed_from_worker :: "nat option"

definition enforce :: "ledger \<Rightarrow> enforcement \<times> ledger" where
  "enforce l =
     (let (l, deleted) = enforce_loop l 0;
          shed = (if lg_budget l < lg_used l then map_option fst (max_by_key snd (live_by_worker (lg_files l))) else None)
      in (\<lparr>deleted_cache_bytes = deleted, shed_from_worker = shed\<rparr>, l))"


section \<open>The ledger's invariant\<close>

definition total_bytes :: "(string \<times> entry) list \<Rightarrow> nat" where
  "total_bytes files = sum_list (map (\<lambda>(_, e). en_bytes e) files)"

definition size_at :: "(string \<times> entry) list \<Rightarrow> string \<Rightarrow> nat" where
  "size_at files p = (case map_of files p of Some e \<Rightarrow> en_bytes e | None \<Rightarrow> 0)"

definition ledger_inv :: "ledger \<Rightarrow> bool" where
  "ledger_inv l \<longleftrightarrow> bt_wf (lg_files l) \<and> lg_used l = total_bytes (lg_files l)
     \<and> (\<forall>p e. map_of (lg_files l) p = Some e \<longrightarrow> en_touched e \<le> lg_seq l)
     \<and> (\<forall>p q e f. map_of (lg_files l) p = Some e \<longrightarrow> map_of (lg_files l) q = Some f \<longrightarrow>
          en_touched e = en_touched f \<longrightarrow> p = q)"

lemma total_insert: "bt_wf m \<Longrightarrow> total_bytes (bt_insert p e m) + size_at m p = total_bytes m + en_bytes e"
proof (induction p e m rule: bt_insert.induct)
  case (2 k v k' v' m)
  have wf: "bt_wf m" "\<forall>x \<in> fst ` set m. k' < x" using 2(2) by (auto simp: bt_wf_def)
  consider "k < k'" | "k = k'" | "k' < k" by force
  then show ?case
  proof cases
    case 1
    then have "k \<notin> fst ` set m" using wf(2) by (meson less_asym less_trans)
    then have "map_of m k = None" by (simp add: map_of_eq_None_iff)
    moreover have "k \<noteq> k'" using 1 by simp
    ultimately show ?thesis using 1 by (simp add: total_bytes_def size_at_def)
  next
    case 3
    then show ?thesis using 2(1)[OF _ _ wf(1)] by (auto simp: total_bytes_def size_at_def)
  qed (simp add: total_bytes_def size_at_def)
qed (simp add: total_bytes_def size_at_def)

lemma total_remove: "bt_wf m \<Longrightarrow> total_bytes (bt_remove p m) + size_at m p = total_bytes m"
proof (induction m)
  case (Cons a m)
  have wf: "bt_wf m" "fst a \<notin> fst ` set m" using Cons.prems by (auto simp: bt_wf_def)
  have gone: "bt_remove (fst a) m = m"
    using wf(2) unfolding bt_remove_def by (intro filter_True) (force simp: image_iff)
  have "bt_remove p (a # m) = (if fst a = p then bt_remove p m else a # bt_remove p m)"
    by (auto simp: bt_remove_def split: prod.split)
  then show ?case
    using Cons.IH[OF wf(1)] wf(2) gone
    by (cases a) (auto simp: total_bytes_def size_at_def map_of_eq_None_iff split: option.splits)
qed (simp add: total_bytes_def size_at_def bt_remove_def)

lemma size_le_total: "bt_wf m \<Longrightarrow> size_at m p \<le> total_bytes m"
  using total_remove[of m p] by simp

lemma ledger_updates:
  "l\<lparr>lg_seq := a, lg_used := b, lg_files := c\<rparr> = l\<lparr>lg_seq := a, lg_files := c, lg_used := b\<rparr>"
  by simp

lemma inv_insert:
  assumes "ledger_inv l" "en_touched e = Suc (lg_seq l)"
  shows "ledger_inv (l\<lparr>lg_seq := Suc (lg_seq l), lg_files := bt_insert p e (lg_files l),
    lg_used := lg_used l - size_at (lg_files l) p + en_bytes e\<rparr>)"
proof -
  have wf: "bt_wf (lg_files l)" "lg_used l = total_bytes (lg_files l)" using assms(1) by (simp_all add: ledger_inv_def)
  have old: "en_touched f \<le> lg_seq l" if "map_of (lg_files l) q = Some f" for q f
    using assms(1) that unfolding ledger_inv_def by blast
  have tb: "total_bytes (bt_insert p e (lg_files l)) = lg_used l - size_at (lg_files l) p + en_bytes e"
    using total_insert[OF wf(1), of p e] size_le_total[OF wf(1), of p] wf(2) by simp
  have bound: "en_touched f \<le> Suc (lg_seq l)" if "map_of (bt_insert p e (lg_files l)) q = Some f" for q f
    using that old[of q f] assms(2) by (auto split: if_splits)
  have uniq: "q = r" if "map_of (bt_insert p e (lg_files l)) q = Some f" "map_of (bt_insert p e (lg_files l)) r = Some g"
    "en_touched f = en_touched g" for q r f g
  proof -
    have same: "map_of (lg_files l) q = Some f \<Longrightarrow> map_of (lg_files l) r = Some g \<Longrightarrow> q = r"
      using assms(1) that(3) unfolding ledger_inv_def by blast
    consider "q = p" "r = p" | "q = p" "r \<noteq> p" | "q \<noteq> p" "r = p" | "q \<noteq> p" "r \<noteq> p" by blast
    then show ?thesis
    proof cases
      case 2
      then show ?thesis using that assms(2) old[of r g] by simp
    next
      case 3
      then show ?thesis using that assms(2) old[of q f] by simp
    next
      case 4
      then show ?thesis using that same by simp
    qed simp
  qed
  let ?l = "l\<lparr>lg_seq := Suc (lg_seq l), lg_files := bt_insert p e (lg_files l),
    lg_used := lg_used l - size_at (lg_files l) p + en_bytes e\<rparr>"
  have f: "lg_files ?l = bt_insert p e (lg_files l)" "lg_seq ?l = Suc (lg_seq l)"
    "lg_used ?l = lg_used l - size_at (lg_files l) p + en_bytes e" by simp_all
  show ?thesis
    unfolding ledger_inv_def f
    by (intro conjI allI impI) ((rule bt_wf_insert[OF wf(1)] tb[symmetric]) | (erule bound) | (erule (2) uniq))+
qed

lemma inv_remove:
  assumes "ledger_inv l"
  shows "ledger_inv (ledger_remove p l)"
proof (cases "map_of (lg_files l) p")
  case (Some e)
  have wf: "bt_wf (lg_files l)" "lg_used l = total_bytes (lg_files l)" using assms by (simp_all add: ledger_inv_def)
  have "total_bytes (bt_remove p (lg_files l)) = lg_used l - en_bytes e"
    using total_remove[OF wf(1), of p] wf(2) Some by (simp add: size_at_def)
  then show ?thesis using assms Some by (auto simp: ledger_inv_def ledger_remove_def)
qed (use assms in \<open>simp add: ledger_remove_def\<close>)

lemma upsert_shape: "upsert p b st w l = l\<lparr>lg_seq := Suc (lg_seq l),
    lg_files := bt_insert p \<lparr>en_bytes = b, en_state = st, en_worker = w, en_touched = Suc (lg_seq l)\<rparr> (lg_files l),
    lg_used := lg_used l - size_at (lg_files l) p + b\<rparr>"
  by (auto simp: upsert_def size_at_def Let_def split: option.split)

lemma inv_upsert: "ledger_inv l \<Longrightarrow> ledger_inv (upsert p b st w l)"
  using inv_insert[of l "\<lparr>en_bytes = b, en_state = st, en_worker = w, en_touched = Suc (lg_seq l)\<rparr>" p]
  by (simp add: upsert_shape)

lemma inv_touch: "ledger_inv l \<Longrightarrow> ledger_inv (ledger_touch p b l)"
proof (cases "map_of (lg_files l) p")
  case (Some e)
  assume "ledger_inv l"
  from inv_insert[OF this, of "e\<lparr>en_bytes := b, en_touched := Suc (lg_seq l)\<rparr>" p] show ?thesis
    using Some by (simp only: ledger_touch_def Let_def option.case ledger_updates) (simp add: size_at_def)
next
  case None
  assume i: "ledger_inv l"
  then have "\<forall>p e. map_of (lg_files l) p = Some e \<longrightarrow> en_touched e \<le> Suc (lg_seq l)"
    unfolding ledger_inv_def by (metis le_SucI)
  then show ?thesis using i None by (simp add: ledger_touch_def ledger_inv_def Let_def)
qed

lemma inv_new: "ledger_inv (ledger_new budget)"
  by (simp add: ledger_inv_def ledger_new_def total_bytes_def)

section \<open>Enforcement\<close>

text \<open>What a run of the loop promises of the ledger it leaves.\<close>

definition enforced :: "ledger \<Rightarrow> nat \<Rightarrow> ledger \<Rightarrow> nat \<Rightarrow> bool" where
  "enforced l d l' d' \<longleftrightarrow> ledger_inv l' \<and> lg_budget l' = lg_budget l \<and> lg_used l' + d' = lg_used l + d
     \<and> (\<forall>p e. map_of (lg_files l') p = Some e \<longrightarrow> map_of (lg_files l) p = Some e)
     \<and> (\<forall>p e. map_of (lg_files l) p = Some e \<longrightarrow> map_of (lg_files l') p = None \<longrightarrow> en_state e = Cache
          \<and> (\<forall>q f. map_of (lg_files l') q = Some f \<longrightarrow> en_state f = Cache \<longrightarrow> en_touched e < en_touched f))
     \<and> (lg_budget l < lg_used l' \<longrightarrow> (\<forall>p e. map_of (lg_files l') p = Some e \<longrightarrow> en_state e = Live))
     \<and> (l' = l \<or> (\<exists>p e. map_of (lg_files l) p = Some e \<and> map_of (lg_files l') p = None
          \<and> lg_budget l < lg_used l' + en_bytes e))"

lemma victim_none: "cache_victim files = None \<Longrightarrow> map_of files p = Some e \<Longrightarrow> en_state e = Live"
proof (rule ccontr)
  assume v: "cache_victim files = None" "map_of files p = Some e" "en_state e \<noteq> Live"
  then have "(p, e) \<in> set (filter (\<lambda>(_, e). en_state e = Cache) files)"
    using map_of_SomeD by (cases "en_state e") force+
  then show False using v(1) by (cases "filter (\<lambda>(_, e). en_state e = Cache) files") (auto simp: cache_victim_def)
qed

lemma enforce_loop_ok:
  "ledger_inv l \<Longrightarrow> enforce_loop l d = (l', d') \<Longrightarrow> enforced l d l' d'"
proof (induction l d rule: enforce_loop.induct)
  case (1 l d)
  have stop: "enforced l d l d" if "\<forall>p e. lg_budget l < lg_used l \<longrightarrow> map_of (lg_files l) p = Some e \<longrightarrow> en_state e = Live"
    using 1(2) that by (auto simp: enforced_def)
  show ?case
  proof (cases "lg_budget l < lg_used l")
    case False
    then show ?thesis using 1(3) stop by (simp add: enforce_loop.simps[of l d])
  next
    case over: True
    show ?thesis
    proof (cases "cache_victim (lg_files l)")
      case None
      then have "l' = l" "d' = d" using 1(3) over by (simp_all add: enforce_loop.simps[of l d])
      then show ?thesis using stop victim_none[OF None] by blast
    next
      case (Some v)
      obtain p0 e0 where v: "v = (p0, e0)" by force
      have vic: "(p0, e0) \<in> set (lg_files l)" "en_state e0 = Cache"
        "\<And>q f. (q, f) \<in> set (lg_files l) \<Longrightarrow> en_state f = Cache \<Longrightarrow> en_touched e0 \<le> en_touched f"
        using cache_victim_in[of "lg_files l" p0 e0] Some v by auto
      have wf: "bt_wf (lg_files l)" using 1(2) by (simp add: ledger_inv_def)
      have at: "map_of (lg_files l) p0 = Some e0" using vic(1) bt_wf_distinct[OF wf] by simp
      let ?l1 = "ledger_remove p0 l"
      have files: "lg_files ?l1 = bt_remove p0 (lg_files l)" "lg_used ?l1 = lg_used l - en_bytes e0"
        "lg_budget ?l1 = lg_budget l" using at by (simp_all add: ledger_remove_def)
      have "en_bytes e0 \<le> lg_used l"
        using size_le_total[OF wf, of p0] 1(2) at by (simp add: size_at_def ledger_inv_def)
      then have used: "lg_used ?l1 + en_bytes e0 = lg_used l" using files(2) by simp
      have "enforce_loop ?l1 (d + en_bytes e0) = (l', d')"
        using 1(3) over Some v at by (simp add: enforce_loop.simps[of l d])
      then have r: "enforced ?l1 (d + en_bytes e0) l' d'"
        using 1(1)[OF over Some v[symmetric] at inv_remove[OF 1(2)]] by simp
      have keep: "map_of (lg_files l) p = Some e \<and> p \<noteq> p0" if "map_of (lg_files l') p = Some e" for p e
      proof -
        have "map_of (lg_files ?l1) p = Some e" using r that unfolding enforced_def by blast
        then show ?thesis using files(1) by (auto split: if_splits)
      qed
      have gone: "en_state e = Cache \<and> (\<forall>q f. map_of (lg_files l') q = Some f \<longrightarrow> en_state f = Cache \<longrightarrow> en_touched e < en_touched f)"
        if g: "map_of (lg_files l) p = Some e" "map_of (lg_files l') p = None" for p e
      proof (cases "p = p0")
        case True
        then have e: "e = e0" using g(1) at by simp
        have "en_touched e0 < en_touched f" if q: "map_of (lg_files l') q = Some f" "en_state f = Cache" for q f
        proof -
          have k: "map_of (lg_files l) q = Some f" "q \<noteq> p0" using keep[OF q(1)] by simp_all
          have "en_touched e0 \<le> en_touched f" using vic(3)[OF map_of_SomeD[OF k(1)] q(2)] .
          moreover have "en_touched e0 \<noteq> en_touched f" using 1(2) at k unfolding ledger_inv_def by blast
          ultimately show ?thesis by simp
        qed
        then show ?thesis using e vic(2) by simp
      next
        case False
        then have "map_of (lg_files ?l1) p = Some e" using g(1) files(1) by simp
        then show ?thesis using r g(2) unfolding enforced_def by blast
      qed
      have last: "\<exists>p e. map_of (lg_files l) p = Some e \<and> map_of (lg_files l') p = None \<and> lg_budget l < lg_used l' + en_bytes e"
      proof (cases "l' = ?l1")
        case True
        then have "map_of (lg_files l') p0 = None" using files(1) by simp
        then show ?thesis using at used over True by (intro exI[of _ p0] exI[of _ e0]) simp
      next
        case False
        then obtain p e where pe: "map_of (lg_files ?l1) p = Some e" "map_of (lg_files l') p = None"
          "lg_budget ?l1 < lg_used l' + en_bytes e" using r unfolding enforced_def by blast
        then show ?thesis using files by (intro exI[of _ p] exI[of _ e]) (auto split: if_splits)
      qed
      show ?thesis
        unfolding enforced_def using r keep gone last used files(3) unfolding enforced_def by auto
    qed
  qed
qed

definition live_bytes :: "(string \<times> entry) list \<Rightarrow> nat \<Rightarrow> nat" where
  "live_bytes files w = sum_list (map (\<lambda>(_, e). if en_state e = Live \<and> en_worker e = w then en_bytes e else 0) files)"

lemma live_by_worker_of:
  "bt_wf (live_by_worker files) \<and> map_of (live_by_worker files) w =
     (if \<exists>(_, e) \<in> set files. en_state e = Live \<and> en_worker e = w then Some (live_bytes files w) else None)"
proof -
  let ?step = "\<lambda>m (_ :: string, e). if en_state e = Live then
     bt_insert (en_worker e) ((case map_of m (en_worker e) of Some b \<Rightarrow> b | None \<Rightarrow> 0) + en_bytes e) m else m"
  have "bt_wf m \<Longrightarrow> bt_wf (foldl ?step m fs) \<and> map_of (foldl ?step m fs) w =
     (if \<exists>(_, e) \<in> set fs. en_state e = Live \<and> en_worker e = w
      then Some ((case map_of m w of Some b \<Rightarrow> b | None \<Rightarrow> 0) + live_bytes fs w) else map_of m w)" for m fs
  proof (induction fs arbitrary: m)
    case (Cons a fs)
    obtain p e where a: "a = (p, e)" by force
    have "bt_wf (?step m a)" using Cons.prems a by simp
    from Cons.IH[OF this] show ?case by (auto simp: a live_bytes_def)
  qed simp
  from this[of "[]" files] show ?thesis by (simp add: live_by_worker_def)
qed

lemma max_by_key_greatest:
  assumes "xs \<noteq> []"
  shows "\<exists>y. max_by_key f xs = Some y \<and> y \<in> set xs \<and> (\<forall>z \<in> set xs. f z \<le> f y)"
proof -
  have "foldl (\<lambda>m y. if f m \<le> f y then y else m) x ys \<in> insert x (set ys)
      \<and> (\<forall>z \<in> insert x (set ys). f z \<le> f (foldl (\<lambda>m y. if f m \<le> f y then y else m) x ys))" for x ys
  proof (induction ys arbitrary: x)
    case (Cons a ys)
    show ?case
    proof (cases "f x \<le> f a")
      case True
      then show ?thesis using Cons[of a] by (auto intro: order_trans)
    next
      case False
      then show ?thesis using Cons[of x] by (auto intro: order_trans less_imp_le simp: not_le)
    qed
  qed simp
  then show ?thesis using assms by (cases xs) auto
qed

lemma shed_heaviest:
  assumes "(p, e) \<in> set files" "en_state e = Live"
  shows "\<exists>w. map_option fst (max_by_key snd (live_by_worker files)) = Some w
    \<and> (\<exists>(_, e) \<in> set files. en_state e = Live \<and> en_worker e = w) \<and> (\<forall>v. live_bytes files v \<le> live_bytes files w)"
proof -
  have wf: "bt_wf (live_by_worker files)" using live_by_worker_of by blast
  have at: "map_of (live_by_worker files) v =
     (if \<exists>(_, e) \<in> set files. en_state e = Live \<and> en_worker e = v then Some (live_bytes files v) else None)" for v
    using live_by_worker_of by blast
  have "map_of (live_by_worker files) (en_worker e) \<noteq> None" using at assms by auto
  then have "live_by_worker files \<noteq> []" by auto
  then obtain w b where m: "max_by_key snd (live_by_worker files) = Some (w, b)" "(w, b) \<in> set (live_by_worker files)"
    "\<forall>z \<in> set (live_by_worker files). snd z \<le> b"
    using max_by_key_greatest[of "live_by_worker files" snd] by auto
  have "map_of (live_by_worker files) w = Some b" using m(2) bt_wf_distinct[OF wf] by simp
  then have wb: "\<exists>(_, e) \<in> set files. en_state e = Live \<and> en_worker e = w" "b = live_bytes files w"
    using at[of w] by (auto split: if_splits)
  have "live_bytes files v \<le> b" for v
  proof (cases "\<exists>(_, e) \<in> set files. en_state e = Live \<and> en_worker e = v")
    case True
    then have "map_of (live_by_worker files) v = Some (live_bytes files v)" using at[of v] by simp
    then have "(v, live_bytes files v) \<in> set (live_by_worker files)" by (rule map_of_SomeD)
    then show ?thesis using m(3) by force
  next
    case False
    then have "live_bytes files v = 0" unfolding live_bytes_def by (auto simp: sum_list_eq_0_iff)
    then show ?thesis by simp
  qed
  then show ?thesis using m(1) wb by auto
qed


section \<open>Properties\<close>

text \<open>Every operation of the disk ledger keeps its invariant: the bytes in use are exactly the sum over the
  files it tracks (so no subtraction in the code goes below zero), and no two files were touched
  at the same moment.\<close>

theorem ledger_operations_keep_inv:
  "ledger_inv (ledger_new budget)
   \<and> (ledger_inv l \<longrightarrow> ledger_inv (set_live p b w l) \<and> ledger_inv (set_cache p fsize w l)
        \<and> ledger_inv (ledger_touch p b l) \<and> ledger_inv (ledger_remove p l) \<and> ledger_inv (snd (enforce l)))"
proof -
  have "ledger_inv (snd (enforce l))" if "ledger_inv l"
    using enforce_loop_ok[OF that, of 0 "fst (enforce_loop l 0)" "snd (enforce_loop l 0)"]
    by (simp add: enforce_def enforced_def case_prod_unfold Let_def)
  then show ?thesis
    by (auto simp: inv_new set_live_def set_cache_def inv_upsert inv_touch inv_remove split: option.split)
qed

definition demo_ledger :: ledger where
  "demo_ledger = set_cache ''c1'' (Some 50) 2 (set_live ''a'' 70 1 (set_cache ''c0'' (Some 40) 1 (ledger_new 100)))"

lemma demo_ledger_inv: "ledger_inv demo_ledger"
  by (simp add: demo_ledger_def set_live_def set_cache_def inv_upsert inv_new)

lemma ledger_operations_keep_inv_witness: "ledger_inv (ledger_touch ''a'' 90 demo_ledger)"
  using ledger_operations_keep_inv demo_ledger_inv by blast

text \<open>Enforcing the budget deletes cache files only, the least recently touched first, none once the budget
  is met, and reports the bytes it freed; if live files alone exceed the budget no cache is left
  and it names the worker with the most live bytes, and it names none otherwise.\<close>

theorem enforce_is_lru:
  assumes "ledger_inv l" "enforce l = (r, l')"
  shows "deleted_cache_bytes r + lg_used l' = lg_used l
    \<and> (\<forall>p e. map_of (lg_files l') p = Some e \<longrightarrow> map_of (lg_files l) p = Some e)
    \<and> (\<forall>p e. map_of (lg_files l) p = Some e \<longrightarrow> map_of (lg_files l') p = None \<longrightarrow> en_state e = Cache
        \<and> (\<forall>q f. map_of (lg_files l') q = Some f \<longrightarrow> en_state f = Cache \<longrightarrow> en_touched e < en_touched f))
    \<and> (l' = l \<or> (\<exists>p e. map_of (lg_files l) p = Some e \<and> map_of (lg_files l') p = None
        \<and> lg_budget l < lg_used l' + en_bytes e))
    \<and> (if lg_used l' \<le> lg_budget l then shed_from_worker r = None
       else (\<forall>p e. map_of (lg_files l') p = Some e \<longrightarrow> en_state e = Live)
         \<and> (\<exists>w. shed_from_worker r = Some w \<and> (\<forall>v. live_bytes (lg_files l') v \<le> live_bytes (lg_files l') w)))"
proof -
  obtain l1 d where loop: "enforce_loop l 0 = (l1, d)" by force
  have l1: "l1 = l'" "deleted_cache_bytes r = d"
    "shed_from_worker r = (if lg_budget l' < lg_used l' then map_option fst (max_by_key snd (live_by_worker (lg_files l'))) else None)"
    using assms(2) loop by (auto simp: enforce_def Let_def)
  have e: "enforced l 0 l' d" using enforce_loop_ok[OF assms(1) loop] l1(1) by simp
  have budget: "lg_budget l' = lg_budget l" using e by (simp add: enforced_def)
  have "\<exists>w. shed_from_worker r = Some w \<and> (\<forall>v. live_bytes (lg_files l') v \<le> live_bytes (lg_files l') w)"
    if over: "lg_budget l < lg_used l'"
  proof -
    have "lg_used l' = total_bytes (lg_files l')" using e by (simp add: enforced_def ledger_inv_def)
    then have "lg_files l' \<noteq> []" using over by (auto simp: total_bytes_def)
    then obtain p f where f: "(p, f) \<in> set (lg_files l')" by (cases "lg_files l'") force+
    have wf: "bt_wf (lg_files l')" using e by (simp add: enforced_def ledger_inv_def)
    have "map_of (lg_files l') p = Some f" using f bt_wf_distinct[OF wf] by simp
    then have "en_state f = Live" using e over unfolding enforced_def by blast
    from shed_heaviest[OF f this] show ?thesis using l1(3) over budget by auto
  qed
  then show ?thesis using e l1 budget unfolding enforced_def by auto
qed

lemma enforce_is_lru_witness:
  "deleted_cache_bytes (fst (enforce demo_ledger)) + lg_used (snd (enforce demo_ledger)) = lg_used demo_ledger"
  using enforce_is_lru[OF demo_ledger_inv, of "fst (enforce demo_ledger)" "snd (enforce demo_ledger)"] by simp

end
