(* ===== verification/Lease.thy ===== *)
theory Lease
  imports Routing Log_Safety
begin

text \<open>
  Leases of \<open>src/src/cluster.rs\<close>: the names of lease blobs, reading the current lease of a block, the boot
  steps that decide what a node holds (cluster meta, releasing a dead predecessor's leases,
  claiming blocks, the boot nonce), and re-adopting a forgotten lease. All are programs over the
  blob store. JSON codecs and the health probe are arguments. Epochs are natural numbers that
  parse as 64-bit numbers. Durations are nanoseconds.
\<close>

section \<open>Names\<close>

definition lease_prefix :: "nat \<Rightarrow> string" where
  "lease_prefix b = ''_lease/b'' @ show_nat b @ ''/''"

definition lease_key :: "nat \<Rightarrow> nat \<Rightarrow> key" where
  "lease_key b e = ''_lease/b'' @ show_nat b @ ''/e'' @ show_nat e @ ''.json''"

definition tombstone_key :: "nat \<Rightarrow> nat \<Rightarrow> key" where
  "tombstone_key b e = ''_lease/b'' @ show_nat b @ ''/e'' @ show_nat e @ ''.released''"

definition entry_epoch :: "string \<Rightarrow> nat option" where
  "entry_epoch k = Option.bind (strip_prefix ''e'' k) (\<lambda>k. Option.bind (strip_suffix ''.json'' k) (parse_uint 64))"

section \<open>The current lease of a block\<close>

record lease_state =
  ls_epoch :: nat
  ls_addr :: string
  ls_released :: bool

definition best_epoch :: "nat \<Rightarrow> key list \<Rightarrow> nat option" where
  "best_epoch b keys = foldl (\<lambda>best key.
     case Option.bind (strip_prefix (lease_prefix b) key) entry_epoch of
       Some e \<Rightarrow> (case best of None \<Rightarrow> Some e | Some m \<Rightarrow> if m < e then Some e else best)
     | None \<Rightarrow> best) None keys"

definition lease_from_keys :: "(bytes \<Rightarrow> string result) \<Rightarrow> nat \<Rightarrow> key list \<Rightarrow> lease_state option result io" where
  "lease_from_keys parse_lease b keys =
     (case best_epoch b keys of
        None \<Rightarrow> ok None
      | Some e \<Rightarrow> io_try (io_get (lease_key b e)) (\<lambda>blob. case blob of
          None \<Rightarrow> ok None
        | Some bs \<Rightarrow> Done (res_bind (parse_lease bs) (\<lambda>addr.
            Inr (Some \<lparr>ls_epoch = e, ls_addr = addr, ls_released = tombstone_key b e \<in> set keys\<rparr>)))))"

definition latest_lease :: "(bytes \<Rightarrow> string result) \<Rightarrow> nat \<Rightarrow> lease_state option result io" where
  "latest_lease parse_lease b = io_try (io_list (lease_prefix b)) (lease_from_keys parse_lease b)"

definition key_block :: "key \<Rightarrow> nat option" where
  "key_block key = Option.bind (strip_prefix ''_lease/b'' key) (\<lambda>k. parse_usize (takeWhile (\<lambda>c. c \<noteq> CHR ''/'') k))"

definition group_keys :: "nat \<Rightarrow> key list \<Rightarrow> (nat \<times> key list) list" where
  "group_keys blocks keys = foldl (\<lambda>m key. case key_block key of
       Some b \<Rightarrow> if b < blocks then bt_insert b ((case map_of m b of Some ks \<Rightarrow> ks | None \<Rightarrow> []) @ [key]) m else m
     | None \<Rightarrow> m) [] keys"

text \<open>The order in which the groups are read is the hash map's; it only decides which error comes first.\<close>

fun read_groups :: "(bytes \<Rightarrow> string result) \<Rightarrow> (nat \<times> key list) list \<Rightarrow> (nat \<times> lease_state) list \<Rightarrow> (nat \<times> lease_state) list result io" where
  "read_groups parse_lease [] out = ok out"
| "read_groups parse_lease ((b, keys) # gs) out =
     io_try (lease_from_keys parse_lease b keys) (\<lambda>st.
       read_groups parse_lease gs (case st of Some l \<Rightarrow> bt_insert b l out | None \<Rightarrow> out))"

definition load_leases :: "(bytes \<Rightarrow> string result) \<Rightarrow> nat \<Rightarrow> (nat \<times> lease_state) list result io" where
  "load_leases parse_lease blocks = io_try (io_list ''_lease/'') (\<lambda>keys. read_groups parse_lease (group_keys blocks keys) [])"

section \<open>Boot: cluster meta\<close>

text \<open>The wire form may lack \<open>blocks\<close>: clusters older than lease blocks had 64.\<close>

definition default_blocks_legacy :: nat where "default_blocks_legacy = 64"

definition adopt_meta :: "(nat \<times> nat \<Rightarrow> bytes) \<Rightarrow> (bytes \<Rightarrow> (nat \<times> nat option) result) \<Rightarrow> nat \<Rightarrow> (nat \<times> nat) result io" where
  "adopt_meta enc dec logical =
     io_try (io_create ''_meta/cluster.json'' (enc (logical, min logical 256))) (\<lambda>_.
     io_try (io_get ''_meta/cluster.json'') (\<lambda>blob. case blob of
       Some bs \<Rightarrow> Done (res_bind (dec bs) (\<lambda>(l, b). Inr (l, case b of Some b \<Rightarrow> b | None \<Rightarrow> default_blocks_legacy)))
     | None \<Rightarrow> ok (logical, min logical 256)))"

section \<open>Boot: release what a dead predecessor left\<close>

fun release_own :: "string \<Rightarrow> (nat \<times> lease_state) list \<Rightarrow> (nat \<times> lease_state) list io" where
  "release_own advertise [] = Done []"
| "release_own advertise ((b, l) # ls) =
     (if ls_addr l = advertise \<and> \<not> ls_released l then
        io_bind (io_create (tombstone_key b (ls_epoch l)) (string_bytes ''released'')) (\<lambda>_.
        io_bind (release_own advertise ls) (\<lambda>ls. Done ((b, l\<lparr>ls_released := True\<rparr>) # ls)))
      else io_bind (release_own advertise ls) (\<lambda>ls. Done ((b, l) # ls)))"

section \<open>Boot: claiming blocks\<close>

record claim_state =
  cl_epochs :: "(nat \<times> nat) list"
  cl_addrs :: "(nat \<times> string) list"
  cl_earliest :: nat
  cl_claimed :: nat
  cl_alive :: "(string \<times> bool) list"

text \<open>Each foreign holder is probed once.\<close>

definition holder_alive :: "(string \<Rightarrow> bool) \<Rightarrow> string \<Rightarrow> claim_state \<Rightarrow> bool \<times> claim_state" where
  "holder_alive health addr st = (case map_of (cl_alive st) addr of
     Some a \<Rightarrow> (a, st)
   | None \<Rightarrow> (health addr, st\<lparr>cl_alive := bt_insert addr (health addr) (cl_alive st)\<rparr>))"

definition claimable :: "(string \<Rightarrow> bool) \<Rightarrow> string \<Rightarrow> lease_state option \<Rightarrow> claim_state \<Rightarrow> bool \<times> claim_state" where
  "claimable health advertise existing st = (case existing of
     None \<Rightarrow> (True, st)
   | Some l \<Rightarrow>
       if ls_released l \<or> ls_addr l = advertise then (True, st)
       else let (alive, st) = holder_alive health (ls_addr l) st in (\<not> alive, st))"

text \<open>\<open>fence_ttl.mul_f64(SKEW_TOLERANCE)\<close>; the tolerance is 1.25.\<close>

definition takeover_wait :: "nat \<Rightarrow> nat" where
  "takeover_wait ttl = ttl * 5 div 4"

definition claim_one :: "(string \<Rightarrow> bool) \<Rightarrow> string \<Rightarrow> bytes \<Rightarrow> (nat \<Rightarrow> nat) \<Rightarrow> nat \<Rightarrow> nat \<Rightarrow> (nat \<times> lease_state) list
    \<Rightarrow> nat \<Rightarrow> claim_state \<Rightarrow> claim_state result io" where
  "claim_one health advertise lease_bytes now ttl quota leases b st =
     (let existing = map_of leases b; (free, st) = claimable health advertise existing st
      in if \<not> free then ok st
         else if existing = None \<and> quota \<le> cl_claimed st then ok st
         else
           (let (epoch, st) = (case existing of
                  Some l \<Rightarrow> (ls_epoch l + 1, st\<lparr>cl_earliest := max (cl_earliest st) (now b + takeover_wait ttl)\<rparr>)
                | None \<Rightarrow> (1, st))
            in io_try (io_create (lease_key b epoch) lease_bytes) (\<lambda>won.
                 if \<not> won then ok st
                 else ok (st\<lparr>cl_epochs := bt_insert b epoch (cl_epochs st),
                             cl_addrs := bt_insert b advertise (cl_addrs st),
                             cl_claimed := (if existing = None then cl_claimed st + 1 else cl_claimed st)\<rparr>))))"

fun claim_blocks :: "(string \<Rightarrow> bool) \<Rightarrow> string \<Rightarrow> bytes \<Rightarrow> (nat \<Rightarrow> nat) \<Rightarrow> nat \<Rightarrow> nat \<Rightarrow> (nat \<times> lease_state) list
    \<Rightarrow> nat list \<Rightarrow> claim_state \<Rightarrow> claim_state result io" where
  "claim_blocks health advertise lease_bytes now ttl quota leases [] st = ok st"
| "claim_blocks health advertise lease_bytes now ttl quota leases (b # bs) st =
     io_try (claim_one health advertise lease_bytes now ttl quota leases b st)
       (claim_blocks health advertise lease_bytes now ttl quota leases bs)"

section \<open>Boot: a name of its own\<close>

definition addr_hash8 :: "string \<Rightarrow> string" where
  "addr_hash8 addr = hex (be_bytes 4 (unat (ucast (fnv1a (string_bytes addr)) :: u32)))"

definition boot_key :: "string \<Rightarrow> key" where
  "boot_key addr = ''_boot/'' @ addr_hash8 addr"

primrec nonce_tries :: "nat \<Rightarrow> string \<Rightarrow> nat io" where
  "nonce_tries 0 addr = Done 0"
| "nonce_tries (Suc n) addr =
     io_bind (io_version (boot_key addr)) (\<lambda>v.
     io_bind (io_put_cas (boot_key addr) (case v of Inr v \<Rightarrow> v | Inl _ \<Rightarrow> 0) (string_bytes addr)) (\<lambda>r. case r of
       Inr (Some nv) \<Rightarrow> Done nv
     | _ \<Rightarrow> nonce_tries n addr))"

definition boot_tag :: "string \<Rightarrow> nat \<Rightarrow> string" where
  "boot_tag addr nonce = addr_hash8 addr @ ''b'' @ show_nat nonce"

definition boot_name :: "string \<Rightarrow> string io" where
  "boot_name addr = io_bind (nonce_tries 64 addr) (\<lambda>nonce. Done (boot_tag addr nonce))"

section \<open>Senders\<close>

text \<open>What a node hosts: the workers that have been spawned, and the leases it knows it holds.\<close>

record host =
  h_local :: "nat list"
  h_epochs :: "(nat \<times> nat) list"
  h_routing :: routing
  h_advertise :: string

text \<open>\<open>spawned\<close>: whether \<open>worker::spawn\<close> succeeds.\<close>

definition local_sender :: "bool \<Rightarrow> nat \<Rightarrow> host \<Rightarrow> bool \<times> host" where
  "local_sender spawned w h =
     (if w \<in> set (h_local h) then (True, h)
      else if \<not> owns_worker (rt_logical (h_routing h)) (rt_blocks (h_routing h)) (map fst (h_epochs h)) w then (False, h)
      else if spawned then (True, h\<lparr>h_local := w # h_local h\<rparr>) else (False, h))"

definition ensure_local_sender :: "(bytes \<Rightarrow> string result) \<Rightarrow> bool \<Rightarrow> nat \<Rightarrow> host \<Rightarrow> (bool \<times> host) io" where
  "ensure_local_sender parse_lease spawned w h =
     (let (here, h) = local_sender spawned w h; r = h_routing h; b = block_of w (rt_logical r) (rt_blocks r)
      in if here then Done (True, h)
         else if map_of (h_epochs h) b \<noteq> None then Done (False, h)
         else io_bind (latest_lease parse_lease b) (\<lambda>l. case l of
             Inr (Some l) \<Rightarrow>
               if ls_addr l = h_advertise h \<and> \<not> ls_released l then
                 Done (local_sender spawned w (h\<lparr>h_epochs := bt_insert b (ls_epoch l) (h_epochs h),
                   h_routing := r\<lparr>rt_addrs := bt_insert b (h_advertise h) (rt_addrs r)\<rparr>\<rparr>))
               else Done (False, h)
           | _ \<Rightarrow> Done (False, h)))"

text \<open>\<open>shutdown\<close>, after the workers have flushed: every lease gets its tombstone.\<close>

fun tombstone_all :: "(nat \<times> nat) list \<Rightarrow> unit io" where
  "tombstone_all [] = Done ()"
| "tombstone_all ((b, e) # es) =
     io_bind (io_create (tombstone_key b e) (string_bytes ''released'')) (\<lambda>_. tombstone_all es)"

definition shutdown :: "host \<Rightarrow> host io" where
  "shutdown h = io_bind (tombstone_all (h_epochs h)) (\<lambda>_. Done (h\<lparr>h_local := [], h_epochs := []\<rparr>))"


section \<open>Whatever the store answers\<close>

text \<open>\<open>returns P p\<close>: every value the program can end with satisfies \<open>P\<close>, for any answers to its requests.\<close>

primrec returns :: "('a \<Rightarrow> bool) \<Rightarrow> 'a io \<Rightarrow> bool" where
  "returns P (Done x) = P x"
| "returns P (Do q c) = (\<forall>r. returns P (c r))"

lemma returns_bind: "returns (\<lambda>x. returns P (f x)) p \<Longrightarrow> returns P (io_bind p f)"
  by (induction p) auto

lemma returns_conseq: "returns P p \<Longrightarrow> (\<And>x. P x \<Longrightarrow> Q x) \<Longrightarrow> returns Q p"
  by (induction p) auto

lemma returns_try:
  "returns (\<lambda>r. case r of Inl e \<Rightarrow> P (Inl e) | Inr x \<Rightarrow> returns P (f x)) p \<Longrightarrow> returns P (io_try p f)"
  unfolding io_try_def by (rule returns_bind) (auto elim: returns_conseq split: sum.splits)

lemma returns_True: "returns (\<lambda>_. True) p"
  by (induction p) auto

lemma returns_after: "(\<And>x. returns V (f x)) \<Longrightarrow> returns V (io_bind p f)"
  by (rule returns_bind, rule returns_conseq[OF returns_True]) simp

lemma returns_run: "returns P p \<Longrightarrow> P (fst (run_io p s))"
  by (induction p arbitrary: s) auto

section \<open>Blobs that are written once\<close>

text \<open>\<open>kept K\<close>: blobs whose key satisfies \<open>K\<close> are neither changed nor removed.\<close>

definition kept :: "(key \<Rightarrow> bool) \<Rightarrow> mem \<Rightarrow> mem \<Rightarrow> bool" where
  "kept K s s' \<longleftrightarrow> (\<forall>k v. K k \<longrightarrow> mem_get s k = Some v \<longrightarrow> mem_get s' k = Some v)"

fun keeps :: "(key \<Rightarrow> bool) \<Rightarrow> req \<Rightarrow> bool" where
  "keeps K (PutReq k _) = (\<not> K k)"
| "keeps K (DeleteReq k) = (\<not> K k)"
| "keeps K (CasReq k _ _) = (\<not> K k)"
| "keeps K _ = True"

lemma kept_preorder: "reflp (kept K)" "transp (kept K)"
  by (auto simp: kept_def reflp_def transp_def)

lemma keeps_step: "keeps K q \<Longrightarrow> kept K s (snd (serve q s))"
  by (cases q) (auto simp: kept_def mem_create_put mem_put_cas_put)

definition is_lease_key :: "key \<Rightarrow> bool" where
  "is_lease_key k \<longleftrightarrow> starts_with k ''_lease/''"

lemma lease_key_is: "is_lease_key (lease_key b e)" "is_lease_key (tombstone_key b e)"
  by (simp_all add: is_lease_key_def lease_key_def tombstone_key_def starts_with_def)

section \<open>Claiming\<close>

definition holds :: "bytes \<Rightarrow> claim_state \<Rightarrow> mem \<Rightarrow> bool" where
  "holds lease_bytes st s \<longleftrightarrow>
     (\<forall>b e. map_of (cl_epochs st) b = Some e \<longrightarrow> mem_get s (lease_key b e) = Some lease_bytes)"

lemma holds_kept: "holds v st s \<Longrightarrow> kept is_lease_key s s' \<Longrightarrow> holds v st s'"
  unfolding holds_def kept_def using lease_key_is by blast

lemma claimable_epochs: "claimable health adv ex st = (f, st') \<Longrightarrow> cl_epochs st' = cl_epochs st
    \<and> cl_claimed st' = cl_claimed st \<and> cl_earliest st' = cl_earliest st"
  by (auto simp: claimable_def holder_alive_def Let_def split: option.splits if_splits prod.splits)

lemma safe_claim_one:
  assumes "holds v st s"
  shows "safe F (kept is_lease_key) (\<lambda>r t. \<forall>st'. r = Inr st' \<longrightarrow> holds v st' t)
    (claim_one health adv v now ttl quota leases b st) s"
proof -
  let ?R = "kept is_lease_key" and ?post = "\<lambda>(r :: claim_state result) t. \<forall>st'. r = Inr st' \<longrightarrow> holds v st' t"
  have stab: "stable ?R ?post" using holds_kept by (auto simp: stable_def)
  obtain free st1 where c: "claimable health adv (map_of leases b) st = (free, st1)" by force
  define st2 where "st2 = (case map_of leases b of
    Some l \<Rightarrow> st1\<lparr>cl_earliest := max (cl_earliest st1) (now b + takeover_wait ttl)\<rparr> | None \<Rightarrow> st1)"
  define e where "e = (case map_of leases b of Some l \<Rightarrow> ls_epoch l + 1 | None \<Rightarrow> 1)"
  have st1: "holds v st1 t" if "?R s t" for t
    using holds_kept[OF assms that] claimable_epochs[OF c] by (simp add: holds_def)
  have st2: "holds v st2 t" if "?R s t" for t
    using st1[OF that] by (auto simp: st2_def holds_def split: option.splits)
  have pre: "(case map_of leases b of
       Some l \<Rightarrow> (ls_epoch l + 1, st1\<lparr>cl_earliest := max (cl_earliest st1) (now b + takeover_wait ttl)\<rparr>)
     | None \<Rightarrow> (1, st1)) = (e, st2)"
    by (simp add: e_def st2_def split: option.split)
  have refl: "?R t t" for t using kept_preorder(1)[of is_lease_key] by (auto dest: reflpD)
  have won: "?post (Inr (st2\<lparr>cl_epochs := bt_insert b e (cl_epochs st2), cl_addrs := bt_insert b adv (cl_addrs st2),
       cl_claimed := n\<rparr>)) (mem_put (lease_key b e) v t)" if "?R s t" "mem_get t (lease_key b e) = None" for t n
  proof -
    have "kept is_lease_key t (mem_put (lease_key b e) v t)" using that(2) by (auto simp: kept_def)
    then have "holds v st2 (mem_put (lease_key b e) v t)" using holds_kept[OF st2[OF that(1)]] by blast
    then show ?thesis by (auto simp: holds_def)
  qed
  have lost: "?R s (snd (mem_create (lease_key b e) v t))" if "?R s t" for t
    using keeps_step[of is_lease_key "CreateReq (lease_key b e) v" t] that kept_preorder(2)[of is_lease_key]
    by (auto dest: transpD split: prod.splits)
  let ?f = "\<lambda>won. if \<not> won then ok st2
      else ok (st2\<lparr>cl_epochs := bt_insert b e (cl_epochs st2), cl_addrs := bt_insert b adv (cl_addrs st2),
        cl_claimed := (if map_of leases b = None then cl_claimed st2 + 1 else cl_claimed st2)\<rparr>)"
  have create: "safe F ?R ?post (io_try (io_create (lease_key b e) v) ?f) s"
  proof (rule safe_try[OF kept_preorder(1) stab], rule safe_create[OF kept_preorder(1)])
    show "stable ?R (\<lambda>r t. case r of Inl e \<Rightarrow> ?post (Inl e) t | Inr won \<Rightarrow> safe F ?R ?post (?f won) t)"
      by (rule stable_cases[OF kept_preorder(2) stab, where f = ?f])
  qed (use st2 lost won safe_Done[OF stab] in \<open>simp_all del: safe.simps\<close>)
  show ?thesis
    unfolding claim_one_def
    using create st1[OF refl] pre c safe_Done[OF stab] by (simp add: Let_def del: safe.simps)
qed

lemma safe_claim_blocks:
  "holds v st s \<Longrightarrow> safe F (kept is_lease_key) (\<lambda>r t. \<forall>st'. r = Inr st' \<longrightarrow> holds v st' t)
    (claim_blocks health adv v now ttl quota leases bs st) s"
proof (induction bs arbitrary: st s)
  case Nil
  then show ?case using holds_kept by auto
next
  case (Cons b bs)
  let ?post = "\<lambda>(r :: claim_state result) t. \<forall>st'. r = Inr st' \<longrightarrow> holds v st' t"
  have stab: "stable (kept is_lease_key) ?post"
    using holds_kept by (auto simp: stable_def)
  show ?case
    unfolding claim_blocks.simps
  proof (rule safe_try[OF kept_preorder(1) stab], rule safe_conseq[OF safe_claim_one[OF Cons.prems]])
    show "case x of Inl e \<Rightarrow> ?post (Inl e) t
        | Inr st \<Rightarrow> safe F (kept is_lease_key) ?post (claim_blocks health adv v now ttl quota leases bs st) t"
      if "\<forall>st'. x = Inr st' \<longrightarrow> holds v st' t" for x t
      using that Cons.IH by (auto split: sum.split simp del: safe.simps)
  qed
qed

lemma asks_claim_blocks: "asks (keeps K) (claim_blocks health adv v now ttl quota leases bs st)"
  by (induction bs arbitrary: st)
     (auto simp: claim_one_def Let_def asks_ops split: prod.split intro!: asks_try)

text \<open>What a claim records: the epoch after the one it replaces, and the wait before the first write.\<close>

definition in_turn :: "(nat \<Rightarrow> nat) \<Rightarrow> nat \<Rightarrow> (nat \<times> lease_state) list \<Rightarrow> nat \<Rightarrow> nat \<Rightarrow> nat \<Rightarrow> bool" where
  "in_turn now ttl leases earliest b e \<longleftrightarrow> (case map_of leases b of
     None \<Rightarrow> e = 1
   | Some l \<Rightarrow> e = ls_epoch l + 1 \<and> now b + takeover_wait ttl \<le> earliest)"

definition disciplined :: "(nat \<Rightarrow> nat) \<Rightarrow> nat \<Rightarrow> nat \<Rightarrow> (nat \<times> lease_state) list \<Rightarrow> claim_state \<Rightarrow> bool" where
  "disciplined now ttl quota leases st \<longleftrightarrow> cl_claimed st \<le> quota
     \<and> (\<forall>b e. map_of (cl_epochs st) b = Some e \<longrightarrow> in_turn now ttl leases (cl_earliest st) b e)"

lemma in_turn_later: "in_turn now ttl leases t b e \<Longrightarrow> t \<le> t' \<Longrightarrow> in_turn now ttl leases t' b e"
  by (auto simp: in_turn_def split: option.splits)

lemma returns_claim_one:
  assumes "disciplined now ttl quota leases st"
  shows "returns (\<lambda>r. \<forall>st'. r = Inr st' \<longrightarrow> disciplined now ttl quota leases st')
    (claim_one health adv v now ttl quota leases b st)"
proof -
  obtain free st1 where c: "claimable health adv (map_of leases b) st = (free, st1)" by force
  have same: "cl_epochs st1 = cl_epochs st" "cl_claimed st1 = cl_claimed st" "cl_earliest st1 = cl_earliest st"
    using claimable_epochs[OF c] by simp_all
  have d: "disciplined now ttl quota leases st1"
    using assms unfolding disciplined_def same .
  show ?thesis
  proof (cases "map_of leases b")
    case None
    then have "in_turn now ttl leases x b 1" for x by (simp add: in_turn_def)
    then show ?thesis
      using d c None by (auto simp: claim_one_def Let_def io_op_defs io_try_def as_bool_def disciplined_def not_le
          split: resp.splits)
  next
    case (Some l)
    let ?st = "st1\<lparr>cl_earliest := max (cl_earliest st1) (now b + takeover_wait ttl)\<rparr>"
    have later: "in_turn now ttl leases (cl_earliest ?st) x e" if "map_of (cl_epochs st1) x = Some e" for x e
      using d that by (auto simp: disciplined_def intro: in_turn_later[OF _ max.cobounded1])
    have mine: "in_turn now ttl leases (cl_earliest ?st) b (ls_epoch l + 1)"
      using Some by (simp add: in_turn_def)
    have "disciplined now ttl quota leases ?st" using d later by (simp add: disciplined_def)
    moreover have "disciplined now ttl quota leases (?st\<lparr>cl_epochs := bt_insert b (ls_epoch l + 1) (cl_epochs ?st),
        cl_addrs := x, cl_claimed := cl_claimed ?st\<rparr>)" for x
      using d later mine by (auto simp: disciplined_def)
    ultimately show ?thesis
      using d c Some by (auto simp: claim_one_def Let_def io_op_defs io_try_def as_bool_def split: resp.splits)
  qed
qed

lemma returns_claim_blocks:
  "disciplined now ttl quota leases st \<Longrightarrow>
   returns (\<lambda>r. \<forall>st'. r = Inr st' \<longrightarrow> disciplined now ttl quota leases st')
    (claim_blocks health adv v now ttl quota leases bs st)"
proof (induction bs arbitrary: st)
  case (Cons b bs)
  show ?case
    unfolding claim_blocks.simps
    by (rule returns_try, rule returns_conseq[OF returns_claim_one[OF Cons.prems]])
       (use Cons.IH in \<open>auto split: sum.split\<close>)
qed simp


section \<open>The boot nonce\<close>

definition cas_tail :: "nat \<Rightarrow> string \<Rightarrow> nat \<Rightarrow> nat io" where
  "cas_tail n addr v = io_bind (io_put_cas (boot_key addr) v (string_bytes addr)) (\<lambda>r. case r of
     Inr (Some nv) \<Rightarrow> Done nv
   | _ \<Rightarrow> nonce_tries n addr)"

definition nonce_shape :: "string \<Rightarrow> nat io \<Rightarrow> bool" where
  "nonce_shape addr p \<longleftrightarrow> (\<exists>n. p = nonce_tries n addr) \<or> (\<exists>n v. p = cas_tail n addr v) \<or> (\<exists>m. p = Done m)"

lemma nonce_step: "nonce_tries (Suc n) addr = Do (VersionReq (boot_key addr)) (\<lambda>r. cas_tail n addr (case as_version r of Inr v \<Rightarrow> v | Inl _ \<Rightarrow> 0))"
  by (simp add: cas_tail_def io_version_def)

lemma cas_step: "cas_tail n addr v = Do (CasReq (boot_key addr) v (string_bytes addr))
   (\<lambda>r. case as_cas r of Inr (Some nv) \<Rightarrow> Done nv | _ \<Rightarrow> nonce_tries n addr)"
  by (simp add: cas_tail_def io_put_cas_def)

lemma nonce_Done: "nonce_tries n addr = Done m \<Longrightarrow> m = 0"
  by (cases n) (simp_all add: nonce_step del: nonce_tries.simps(2))

text \<open>A step of a booting task leaves the counters growing, and a task that ends with a nonce has just
  moved its key's counter to it.\<close>

definition drawn :: "mem \<Rightarrow> mem \<Rightarrow> string \<Rightarrow> nat io \<Rightarrow> bool" where
  "drawn s s' addr p' \<longleftrightarrow> nonce_shape addr p' \<and> (\<forall>k. high_water s k \<le> high_water s' k)
     \<and> (\<forall>m. p' = Done m \<longrightarrow> m = 0 \<or> m = Suc (high_water s (boot_key addr)) \<and> high_water s' (boot_key addr) = m)"

lemma drawn_tail:
  assumes "\<forall>k. high_water s k \<le> high_water s' k"
    and "\<forall>nv. r = CasResp (Some nv) \<longrightarrow> nv = Suc (high_water s (boot_key addr)) \<and> high_water s' (boot_key addr) = nv"
  shows "drawn s s' addr (case as_cas r of Inr (Some nv) \<Rightarrow> Done nv | _ \<Rightarrow> nonce_tries n addr)"
proof (cases "\<exists>nv. r = CasResp (Some nv)")
  case True
  then show ?thesis using assms by (auto simp: drawn_def nonce_shape_def as_cas_def)
next
  case False
  then have "(case as_cas r of Inr (Some nv) \<Rightarrow> Done nv | _ \<Rightarrow> nonce_tries n addr) = nonce_tries n addr"
    by (cases r) (auto simp: as_cas_def split: option.split)
  then show ?thesis using assms(1) nonce_Done by (auto simp: drawn_def nonce_shape_def)
qed

lemma cas_not_done: "cas_tail n addr v \<noteq> Done m"
  by (simp add: cas_step)

lemma nonce_served:
  assumes "nonce_shape addr (Do q c)" "seen F q (fst (serve q s)) r"
  shows "drawn s (snd (serve q s)) addr (c r)"
proof -
  consider n where "Do q c = nonce_tries (Suc n) addr" | n v where "Do q c = cas_tail n addr v"
    using assms(1) unfolding nonce_shape_def by (metis io.distinct(1) nonce_tries.simps(1) not0_implies_Suc)
  then show ?thesis
  proof cases
    case 1
    then show ?thesis
      using cas_not_done unfolding nonce_step by (auto simp: drawn_def nonce_shape_def)
  next
    case 2
    then have q: "q = CasReq (boot_key addr) v (string_bytes addr)"
      and c: "c = (\<lambda>r. case as_cas r of Inr (Some nv) \<Rightarrow> Done nv | _ \<Rightarrow> nonce_tries n addr)"
      unfolding cas_step by auto
    have "\<forall>k. high_water s k \<le> high_water (snd (serve q s)) k" by (simp add: q mem_put_cas_put)
    moreover have "\<forall>nv. r = CasResp (Some nv) \<longrightarrow> nv = Suc (high_water s (boot_key addr))
        \<and> high_water (snd (serve q s)) (boot_key addr) = nv"
      using assms(2) by (auto simp: q seen_def mem_put_cas_put split: if_splits)
    ultimately show ?thesis unfolding c by (rule drawn_tail)
  qed
qed

lemma nonce_failed:
  assumes "nonce_shape addr (Do q c)"
  shows "drawn s s addr (c (ErrResp e))"
proof -
  consider n where "Do q c = nonce_tries (Suc n) addr" | n v where "Do q c = cas_tail n addr v"
    using assms(1) unfolding nonce_shape_def by (metis io.distinct(1) nonce_tries.simps(1) not0_implies_Suc)
  then show ?thesis
  proof cases
    case 1
    then show ?thesis using cas_not_done unfolding nonce_step by (auto simp: drawn_def nonce_shape_def)
  next
    case 2
    then have c: "c = (\<lambda>r. case as_cas r of Inr (Some nv) \<Rightarrow> Done nv | _ \<Rightarrow> nonce_tries n addr)"
      unfolding cas_step by auto
    show ?thesis unfolding c by (rule drawn_tail) simp_all
  qed
qed

definition nonces_ok :: "string list \<Rightarrow> mem \<Rightarrow> nat io list \<Rightarrow> bool" where
  "nonces_ok addrs s ps \<longleftrightarrow> length ps = length addrs
     \<and> (\<forall>i < length ps. nonce_shape (addrs ! i) (ps ! i))
     \<and> (\<forall>i < length ps. \<forall>m. ps ! i = Done m \<longrightarrow> m \<le> high_water s (boot_key (addrs ! i)))
     \<and> (\<forall>i < length ps. \<forall>j < length ps. \<forall>m. i \<noteq> j \<longrightarrow> ps ! i = Done m \<longrightarrow> ps ! j = Done m \<longrightarrow>
          boot_key (addrs ! i) = boot_key (addrs ! j) \<longrightarrow> m = 0)"

lemma nonces_ok_update:
  assumes ok: "nonces_ok addrs s ps" and i: "i < length ps" and d: "drawn s s' (addrs ! i) p'"
  shows "nonces_ok addrs s' (ps[i := p'])"
proof -
  have grow: "high_water s k \<le> high_water s' k" for k using d by (simp add: drawn_def)
  have bound: "m \<le> high_water s (boot_key (addrs ! j))" if "j < length ps" "ps ! j = Done m" for j m
    using ok that by (simp add: nonces_ok_def)
  have new: "m = 0 \<or> m = Suc (high_water s (boot_key (addrs ! i))) \<and> high_water s' (boot_key (addrs ! i)) = m"
    if "p' = Done m" for m using d that by (simp add: drawn_def)
  have uniq: "m = 0" if "j < length ps" "k < length ps" and ne: "j \<noteq> k" and "ps[i := p'] ! j = Done m" "ps[i := p'] ! k = Done m"
    "boot_key (addrs ! j) = boot_key (addrs ! k)" for j k m
  proof -
    consider "j = i" "k \<noteq> i" | "j \<noteq> i" "k = i" | "j \<noteq> i" "k \<noteq> i" using ne by blast
    then show ?thesis
    proof cases
      case 1
      then show ?thesis using new[of m] bound[of k m] that ne i by auto
    next
      case 2
      then show ?thesis using new[of m] bound[of j m] that i by auto
    next
      case 3
      then have "ps ! j = Done m" "ps ! k = Done m" using that by simp_all
      then show ?thesis using ok that ne unfolding nonces_ok_def by blast
    qed
  qed
  have "m \<le> high_water s' (boot_key (addrs ! j))" if "j < length ps" "ps[i := p'] ! j = Done m" for j m
  proof (cases "j = i")
    case True
    then show ?thesis using new[of m] that i by auto
  next
    case False
    then show ?thesis using bound[of j m] that grow[of "boot_key (addrs ! j)"] by simp
  qed
  moreover have "nonce_shape (addrs ! j) (ps[i := p'] ! j)" if "j < length ps" for j
    using ok d i that by (cases "j = i") (simp_all add: nonces_ok_def drawn_def)
  ultimately show ?thesis using ok uniq by (simp add: nonces_ok_def)
qed

lemma nonces_ok_step: "sys_step F (s, ps) (s', ps') \<Longrightarrow> nonces_ok addrs s ps \<Longrightarrow> nonces_ok addrs s' ps'"
proof (erule sys_stepE)
  fix i q c r assume ok: "nonces_ok addrs s ps" and st: "s' = snd (serve q s)" "ps' = ps[i := c r]" "i < length ps"
    "ps ! i = Do q c" "seen F q (fst (serve q s)) r"
  then have "nonce_shape (addrs ! i) (Do q c)" by (metis nonces_ok_def)
  from nonces_ok_update[OF ok st(3) nonce_served[OF this st(5)]] show "nonces_ok addrs s' ps'" using st by simp
next
  fix i q c e assume ok: "nonces_ok addrs s ps" and st: "s' = s" "ps' = ps[i := c (ErrResp e)]" "i < length ps"
    "ps ! i = Do q c"
  then have "nonce_shape (addrs ! i) (Do q c)" by (metis nonces_ok_def)
  from nonces_ok_update[OF ok st(3) nonce_failed[OF this]] show "nonces_ok addrs s' ps'" using st by simp
qed

lemma nonce_start: "nonce_tries 64 a \<noteq> Done m"
proof -
  have e: "(64 :: nat) = Suc 63" by simp
  show ?thesis unfolding e nonce_step by simp
qed

lemma nonces_ok_start: "nonces_ok addrs s (map (nonce_tries 64) addrs)"
proof -
  have "nonce_shape a (nonce_tries 64 a)" for a unfolding nonce_shape_def by blast
  then show ?thesis using nonce_start by (simp add: nonces_ok_def)
qed

lemma nonces_ok_run: "sys_steps F (s, ps) (s', ps') \<Longrightarrow> nonces_ok addrs s ps \<Longrightarrow> nonces_ok addrs s' ps'"
proof (induction "(s', ps')" arbitrary: s' ps' rule: rtranclp_induct)
  case (step y)
  then show ?case using nonces_ok_step by (cases y) blast
qed simp

end
