(* ===== verification/Lease_Props.thy ===== *)
theory Lease_Props
  imports Lease
begin

text \<open>
  What leases promise: a block is never held by two nodes at the same epoch, whatever the
  interleaving of their boots and the faults of the store; a reclaimed lease makes the node wait;
  boot names never repeat as long as a nonce is drawn, and do repeat when every draw fails; a
  tombstone makes the lease read as released; re-adopting a forgotten lease writes nothing.
\<close>

section \<open>Reading the highest epoch\<close>

definition lease_epochs :: "nat \<Rightarrow> key set \<Rightarrow> nat set" where
  "lease_epochs b K = {e. \<exists>k \<in> K. Option.bind (strip_prefix (lease_prefix b) k) entry_epoch = Some e}"

lemma best_epoch_max: "best_epoch b keys = (if lease_epochs b (set keys) = {} then None else Some (Max (lease_epochs b (set keys))))"
proof -
  let ?e = "\<lambda>k. Option.bind (strip_prefix (lease_prefix b) k) entry_epoch"
  let ?f = "\<lambda>best key. case ?e key of
       Some e \<Rightarrow> (case best of None \<Rightarrow> Some e | Some m \<Rightarrow> if m < e then Some e else best) | None \<Rightarrow> best"
  have fin: "finite (lease_epochs b (set ks))" for ks
  proof -
    have "lease_epochs b (set ks) \<subseteq> (\<lambda>k. the (?e k)) ` set ks" unfolding lease_epochs_def by force
    then show ?thesis by (rule finite_subset) simp
  qed
  have "foldl ?f None keys = (if lease_epochs b (set keys) = {} then None else Some (Max (lease_epochs b (set keys))))"
  proof (induction keys rule: rev_induct)
    case Nil
    then show ?case by (simp add: lease_epochs_def)
  next
    case (snoc k ks)
    have split: "lease_epochs b (set (ks @ [k])) = (case ?e k of None \<Rightarrow> lease_epochs b (set ks) | Some e \<Rightarrow> insert e (lease_epochs b (set ks)))"
      by (auto simp: lease_epochs_def split: option.split)
    show ?case
    proof (cases "?e k")
      case None
      then show ?thesis using snoc split by simp
    next
      case (Some e)
      have pick: "(if e \<le> m then m else e) = (if m < e then e else m)" for m by simp
      show ?thesis
      proof (cases "lease_epochs b (set ks) = {}")
        case False
        have "Max (lease_epochs b (set (ks @ [k]))) = (if Max (lease_epochs b (set ks)) < e then e else Max (lease_epochs b (set ks)))"
          unfolding split Some option.case Max_insert[OF fin False] max_def pick ..
        then show ?thesis using snoc False Some split by (simp del: Max_less_iff)
      qed (use snoc Some split in simp)
    qed
  qed
  then show ?thesis by (simp add: best_epoch_def)
qed

lemma tombstone_no_epoch: "Option.bind (strip_prefix (lease_prefix b) (tombstone_key b' e)) entry_epoch = None"
proof (rule ccontr)
  assume "\<not> ?thesis"
  then obtain x where x: "Option.bind (strip_prefix (lease_prefix b) (tombstone_key b' e)) entry_epoch = Some x" by blast
  then obtain r where "tombstone_key b' e = lease_prefix b @ r" "entry_epoch r = Some x"
    by (auto simp: bind_eq_Some_conv strip_prefix_eq_Some)
  moreover obtain m where "r = ''e'' @ m @ ''.json''"
    using \<open>entry_epoch r = Some x\<close> by (auto simp: entry_epoch_def bind_eq_Some_conv strip_prefix_eq_Some strip_suffix_eq_Some)
  ultimately have "last (tombstone_key b' e) = CHR ''n''" by simp
  then show False by (simp add: tombstone_key_def)
qed

lemma epochs_with_tombstone: "lease_epochs b (insert (tombstone_key b' e) K) = lease_epochs b K"
  using tombstone_no_epoch by (auto simp: lease_epochs_def)

lemma run_latest [io_simps]:
  "run_io (latest_lease pl b) s =
     (case best_epoch b (mem_list s (lease_prefix b)) of
        None \<Rightarrow> (Inr None, s)
      | Some e \<Rightarrow> (case mem_get s (lease_key b e) of
          None \<Rightarrow> (Inr None, s)
        | Some bs \<Rightarrow> (res_bind (pl bs) (\<lambda>addr. Inr (Some \<lparr>ls_epoch = e, ls_addr = addr,
            ls_released = tombstone_key b e \<in> set (mem_list s (lease_prefix b))\<rparr>)), s)))"
  by (simp add: latest_lease_def lease_from_keys_def io_simps split: option.split)

lemma lease_tombstone_distinct: "lease_key b e \<noteq> tombstone_key b' e'"
proof
  assume "lease_key b e = tombstone_key b' e'"
  then have "last (lease_key b e) = last (tombstone_key b' e')" by simp
  then show False by (simp add: lease_key_def tombstone_key_def)
qed

lemma tombstone_listed: "starts_with (tombstone_key b e) (lease_prefix b)"
  by (simp add: tombstone_key_def lease_prefix_def starts_with_prefix)

lemma latest_after_tombstone:
  assumes "mem_wf s" "fst (run_io (latest_lease pl b) s) = Inr (Some l)"
  shows "fst (run_io (latest_lease pl b) (snd (mem_create (tombstone_key b (ls_epoch l)) v s))) = Inr (Some (l\<lparr>ls_released := True\<rparr>))"
proof -
  obtain e bs where e: "best_epoch b (mem_list s (lease_prefix b)) = Some e" "mem_get s (lease_key b e) = Some bs"
    "ls_epoch l = e" "pl bs = Inr (ls_addr l)"
    using assms(2) by (auto simp: io_simps split: option.splits)
  let ?s' = "snd (mem_create (tombstone_key b e) v s)"
  have wf: "mem_wf ?s'" using assms(1) by (simp add: mem_create_put)
  have "set (mem_list ?s' (lease_prefix b)) = insert (tombstone_key b e) (set (mem_list s (lease_prefix b)))"
    using set_mem_list[OF wf] set_mem_list[OF assms(1)] tombstone_listed[of b e]
    by (auto simp: mem_create_put split: if_splits)
  then have "best_epoch b (mem_list ?s' (lease_prefix b)) = Some e"
    "tombstone_key b e \<in> set (mem_list ?s' (lease_prefix b))"
    using e(1) by (simp_all add: best_epoch_max epochs_with_tombstone split: if_splits)
  moreover have "mem_get ?s' (lease_key b e) = Some bs"
    using e(2) lease_tombstone_distinct by (simp add: mem_create_put)
  ultimately show ?thesis using e(3,4) by (simp add: io_simps)
qed

section \<open>Properties\<close>

definition claim_start :: "(nat \<times> string) list \<Rightarrow> claim_state" where
  "claim_start addrs = \<lparr>cl_epochs = [], cl_addrs = addrs, cl_earliest = 0, cl_claimed = 0, cl_alive = []\<rparr>"

text \<open>C31: Two nodes that claim blocks at the same time, in any interleaving with each other and with any tasks
  that do not overwrite lease blobs, and with any store requests failing or losing their answers,
  never end up holding the same block at the same epoch, provided the lease blobs they write differ (a blob holds the
  address of the node that writes it, so this asks that the two advertise different addresses).\<close>

theorem claims_exclusive:
  assumes "sys_steps F (s, ps) (s', ps')" "\<forall>p \<in> set ps. asks (keeps is_lease_key) p"
    and "i < length ps" "ps ! i = claim_blocks health1 adv1 v1 now1 ttl quota1 leases1 bs1 (claim_start a1)"
    and "j < length ps" "ps ! j = claim_blocks health2 adv2 v2 now2 ttl quota2 leases2 bs2 (claim_start a2)"
    and "v1 \<noteq> v2" "ps' ! i = Done (Inr st1)" "ps' ! j = Done (Inr st2)"
  shows "map_of (cl_epochs st1) b = Some e \<Longrightarrow> map_of (cl_epochs st2) b \<noteq> Some e"
proof -
  have start: "holds v (claim_start a) s" for v a by (simp add: holds_def claim_start_def)
  have "holds v1 st1 s'"
    using sys_steps_task[OF kept_preorder[of is_lease_key], of "keeps is_lease_key" F s ps s' ps' i
        "\<lambda>r t. \<forall>st'. r = Inr st' \<longrightarrow> holds v1 st' t" "Inr st1"]
      keeps_step assms(1,2,3,8) safe_claim_blocks[OF start] assms(4) by auto
  moreover have "holds v2 st2 s'"
    using sys_steps_task[OF kept_preorder[of is_lease_key], of "keeps is_lease_key" F s ps s' ps' j
        "\<lambda>r t. \<forall>st'. r = Inr st' \<longrightarrow> holds v2 st' t" "Inr st2"]
      keeps_step assms(1,2,5,9) safe_claim_blocks[OF start] assms(6) by auto
  ultimately show "map_of (cl_epochs st1) b = Some e \<Longrightarrow> map_of (cl_epochs st2) b \<noteq> Some e"
    using assms(7) unfolding holds_def by (metis option.inject)
qed

definition boot_task :: "bytes \<Rightarrow> claim_state result io" where
  "boot_task v = claim_blocks (\<lambda>_. False) ''n'' v (\<lambda>_. 0) 10 1 [] [0] (claim_start [])"

lemma boot_task_run: "run_io (boot_task v) s =
  (if mem_get s (lease_key 0 1) = None
   then (Inr ((claim_start [])\<lparr>cl_epochs := [(0, 1)], cl_addrs := [(0, ''n'')], cl_claimed := 1\<rparr>), mem_put (lease_key 0 1) v s)
   else (Inr (claim_start []), s))"
  by (simp add: boot_task_def claim_one_def claimable_def io_simps mem_create_put claim_start_def Let_def)

lemma claims_exclusive_witness:
  "\<exists>s' ps' st1 st2. sys_steps (\<lambda>_. False) (mem_empty, [boot_task [1], boot_task []]) (s', ps')
     \<and> ps' = [Done (Inr st1), Done (Inr st2)] \<and> map_of (cl_epochs st1) 0 = Some 1 \<and> map_of (cl_epochs st2) 0 \<noteq> Some 1"
proof -
  let ?s1 = "mem_put (lease_key 0 1) [1] mem_empty" and ?ps = "[boot_task [1], boot_task []]"
  let ?w = "(claim_start [])\<lparr>cl_epochs := [(0, 1)], cl_addrs := [(0, ''n'')], cl_claimed := 1\<rparr>" and ?l = "claim_start []"
  have "mem_get mem_empty (lease_key 0 1) = None" by (simp add: mem_get_def mem_empty_def)
  then have one: "sys_steps (\<lambda>_. False) (mem_empty, ?ps) (?s1, ?ps[0 := Done (Inr ?w)])"
    by (intro run_io_steps) (simp_all add: boot_task_run)
  have two: "sys_steps (\<lambda>_. False) (?s1, ?ps[0 := Done (Inr ?w)]) (?s1, ?ps[0 := Done (Inr ?w), 1 := Done (Inr ?l)])"
    by (intro run_io_steps) (simp_all add: boot_task_run)
  note run = rtranclp_trans[OF one two]
  have a: "asks (keeps is_lease_key) (boot_task v)" for v unfolding boot_task_def by (rule asks_claim_blocks)
  have w: "map_of (cl_epochs ?w) 0 = Some 1" by (simp add: claim_start_def)
  have "map_of (cl_epochs ?l) (0 :: nat) \<noteq> Some 1"
  proof (rule claims_exclusive[OF run _ _ _ _ _ _ _ _ w, where i = 0 and j = 1])
    show "\<forall>p \<in> set ?ps. asks (keeps is_lease_key) p" using a by simp
    show "?ps ! 0 = claim_blocks (\<lambda>_. False) ''n'' [1] (\<lambda>_. 0) 10 1 [] [0] (claim_start [])"
      "?ps ! 1 = claim_blocks (\<lambda>_. False) ''n'' [] (\<lambda>_. 0) 10 1 [] [0] (claim_start [])"
      by (simp_all only: nth_Cons_0 nth_Cons_Suc One_nat_def boot_task_def)
  qed simp_all
  then show ?thesis
    using run w by (intro exI[of _ ?s1] exI[of _ "[Done (Inr ?w), Done (Inr ?l)]"] exI[of _ ?w] exI[of _ ?l]) simp
qed

text \<open>Whatever the store answers, a claim takes the epoch after the lease it replaces, and after replacing any
  lease (dead holder, released, or its own) the node's first write is put off by the fencing
  time-to-live with the skew margin; fresh blocks are claimed at epoch one, at most up to the quota.\<close>

theorem claims_in_turn:
  "returns (\<lambda>r. \<forall>st. r = Inr st \<longrightarrow> cl_claimed st \<le> quota \<and> (\<forall>b e. map_of (cl_epochs st) b = Some e \<longrightarrow>
      (case map_of leases b of None \<Rightarrow> e = 1
       | Some l \<Rightarrow> e = ls_epoch l + 1 \<and> now b + takeover_wait ttl \<le> cl_earliest st)))
    (claim_blocks health adv v now ttl quota leases bs (claim_start a))"
  using returns_claim_blocks[of now ttl quota leases "claim_start a" health adv v bs]
  by (simp add: disciplined_def in_turn_def claim_start_def)

lemma claims_in_turn_witness: "returns (\<lambda>r. \<forall>st. r = Inr st \<longrightarrow> cl_claimed st \<le> 1) (boot_task [7])"
  unfolding boot_task_def by (rule returns_conseq[OF claims_in_turn]) simp

text \<open>Boots that draw their names at the same time, on any addresses (also ones whose hashes collide) and
  with any store faults, get different names, provided each drew a nonce at all.\<close>

theorem boot_names_unique:
  assumes "sys_steps F (s, map (nonce_tries 64) addrs) (s', ps')" "i < length addrs" "j < length addrs" "i \<noteq> j"
    and "ps' ! i = Done m" "ps' ! j = Done n" "m \<noteq> 0" "n \<noteq> 0"
  shows "boot_tag (addrs ! i) m \<noteq> boot_tag (addrs ! j) n"
proof
  assume eq: "boot_tag (addrs ! i) m = boot_tag (addrs ! j) n"
  have len: "length (addr_hash8 a) = 8" for a by (simp add: addr_hash8_def even_length_hex)
  have h: "addr_hash8 (addrs ! i) = addr_hash8 (addrs ! j)" and "''b'' @ show_nat m = ''b'' @ show_nat n"
    using eq append_eq_append_conv[of "addr_hash8 (addrs ! i)" "addr_hash8 (addrs ! j)"] len by (simp_all add: boot_tag_def)
  then have "m = n" by (metis append_eq_append_conv option.inject parse_acc_show)
  moreover have "nonces_ok addrs s' ps'" by (rule nonces_ok_run[OF assms(1) nonces_ok_start])
  ultimately show False
    using assms(2-8) h unfolding nonces_ok_def by (simp add: boot_key_def)
qed

lemma boot_names_unique_witness: "boot_tag ''a'' 1 \<noteq> boot_tag ''a'' 2"
proof -
  let ?k = "boot_key ''a''" and ?b = "string_bytes ''a''" and ?p = "nonce_tries 64 ''a''"
  have e: "?p = nonce_tries (Suc 63) ''a''" by simp
  have run: "run_io ?p s = (Suc (high_water s ?k), mem_put ?k ?b s)" for s
    unfolding e nonce_tries.simps by (simp add: io_simps mem_put_cas_put del: nonce_tries.simps)
  have hw: "high_water mem_empty ?k = 0" by (simp add: high_water_def mem_empty_def)
  let ?s1 = "mem_put ?k ?b mem_empty"
  have one: "sys_steps (\<lambda>_. False) (mem_empty, [?p, ?p]) (?s1, [?p, ?p][0 := Done 1])"
    by (intro run_io_steps) (simp_all add: run hw del: nonce_tries.simps)
  have two: "sys_steps (\<lambda>_. False) (?s1, [?p, ?p][0 := Done 1]) (mem_put ?k ?b ?s1, [?p, ?p][0 := Done 1, 1 := Done 2])"
    by (intro run_io_steps) (simp_all add: run hw del: nonce_tries.simps)
  show ?thesis
    using boot_names_unique[of "\<lambda>_. False" mem_empty "[''a'', ''a'']" "mem_put ?k ?b ?s1" "[?p, ?p][0 := Done 1, 1 := Done 2]" 0 1 1 2]
      rtranclp_trans[OF one two] by (simp del: nonce_tries.simps)
qed

text \<open>A task whose every request fails.\<close>

lemma nonce_all_fail:
  assumes "i < length ps" "ps ! i = nonce_tries n addr"
  shows "sys_steps (\<lambda>_. True) (s, ps) (s, ps[i := Done 0])"
  using assms
proof (induction n arbitrary: ps)
  case 0
  then show ?case by (metis list_update_id nonce_tries.simps(1) rtranclp.rtrancl_refl)
next
  case (Suc n)
  let ?v = "cas_tail n addr (case as_version (ErrResp []) of Inr v \<Rightarrow> v | Inl _ \<Rightarrow> 0)"
  have p: "ps ! i = Do (VersionReq (boot_key addr)) (\<lambda>r. cas_tail n addr (case as_version r of Inr v \<Rightarrow> v | Inl _ \<Rightarrow> 0))"
    using Suc.prems(2) by (simp only: nonce_step)
  have one: "sys_step (\<lambda>_. True) (s, ps) (s, ps[i := ?v])"
    by (rule sys_step.failed[OF Suc.prems(1) p]) simp
  have q: "ps[i := ?v] ! i = Do (CasReq (boot_key addr) (case as_version (ErrResp []) of Inr v \<Rightarrow> v | Inl _ \<Rightarrow> 0) (string_bytes addr))
     (\<lambda>r. case as_cas r of Inr (Some nv) \<Rightarrow> Done nv | _ \<Rightarrow> nonce_tries n addr)"
    using Suc.prems(1) by (simp only: nth_list_update_eq cas_step)
  have "sys_step (\<lambda>_. True) (s, ps[i := ?v]) (s, ps[i := ?v, i := (case as_cas (ErrResp []) of Inr (Some nv) \<Rightarrow> Done nv | _ \<Rightarrow> nonce_tries n addr)])"
    by (rule sys_step.failed[OF _ q]) (use Suc.prems(1) in simp_all)
  then have two: "sys_step (\<lambda>_. True) (s, ps[i := ?v]) (s, ps[i := nonce_tries n addr])" by (simp add: as_cas_def)
  have "sys_steps (\<lambda>_. True) (s, ps[i := nonce_tries n addr]) (s, ps[i := Done 0])"
    using Suc.IH[of "ps[i := nonce_tries n addr]"] Suc.prems(1) by simp
  then show ?case using one two by (meson converse_rtranclp_into_rtranclp)
qed

text \<open>When all sixty-four draws fail the boot goes on with nonce zero: two boots of one address, or of two
  addresses with the same hash, can get the same name.\<close>

theorem boot_name_repeats_when_store_fails:
  "sys_steps (\<lambda>_. True) (s, [nonce_tries 64 addr, nonce_tries 64 addr]) (s, [Done 0, Done 0])"
proof -
  let ?p = "nonce_tries 64 addr"
  have "sys_steps (\<lambda>_. True) (s, [?p, ?p]) (s, [?p, ?p][0 := Done 0])"
    by (rule nonce_all_fail[of _ _ 64 addr]) (simp_all del: nonce_tries.simps)
  moreover have "sys_steps (\<lambda>_. True) (s, [?p, ?p][0 := Done 0]) (s, [?p, ?p][0 := Done 0, 1 := Done 0])"
    by (rule nonce_all_fail[of _ _ 64 addr]) (simp_all del: nonce_tries.simps)
  ultimately show ?thesis by (simp del: nonce_tries.simps)
qed

text \<open>A tombstone for the current lease of a block makes the lease read as released, at the same epoch and
  with the same holder.\<close>

theorem tombstone_releases:
  assumes "mem_wf s" "fst (run_io (latest_lease parse_lease b) s) = Inr (Some l)"
  shows "fst (run_io (latest_lease parse_lease b) (snd (run_io (tombstone_all [(b, ls_epoch l)]) s)))
    = Inr (Some (l\<lparr>ls_released := True\<rparr>))"
  using latest_after_tombstone[OF assms] by (simp add: io_simps)

lemma tombstone_releases_witness:
  "fst (run_io (latest_lease (\<lambda>bs. Inr (bytes_string bs)) 0)
     (snd (run_io (tombstone_all [(0, 2)]) (mem_put (lease_key 0 2) (string_bytes ''n'') mem_empty))))
   = Inr (Some \<lparr>ls_epoch = 2, ls_addr = ''n'', ls_released = True\<rparr>)"
proof -
  let ?s = "mem_put (lease_key 0 2) (string_bytes ''n'') mem_empty"
  have wf: "mem_wf ?s" by simp
  have one: "entry_epoch (''e'' @ show_nat 2 @ ''.json'') = Some 2"
    by (simp add: entry_epoch_def strip_prefix_append[of "''e''", simplified] strip_suffix_append[of "''.json''" "''2''", simplified])
  have set: "set (mem_list ?s (lease_prefix 0)) = {lease_key 0 2}"
    using set_mem_list[OF wf, of "lease_prefix 0"]
    by (auto simp: mem_get_def mem_empty_def lease_key_def lease_prefix_def starts_with_prefix mem_put_def mem_bump_def Let_def)
  have "Option.bind (strip_prefix (lease_prefix 0) (lease_key 0 2)) entry_epoch = Some 2"
    using one strip_prefix_append[of "lease_prefix 0" "''e'' @ show_nat 2 @ ''.json''"]
    by (simp add: lease_key_def lease_prefix_def)
  then have "lease_epochs 0 {lease_key 0 2} = {2}" by (auto simp: lease_epochs_def)
  then have best: "best_epoch 0 (mem_list ?s (lease_prefix 0)) = Some 2" by (simp add: best_epoch_max set)
  have "fst (run_io (latest_lease (\<lambda>bs. Inr (bytes_string bs)) 0) ?s) = Inr (Some \<lparr>ls_epoch = 2, ls_addr = ''n'', ls_released = False\<rparr>)"
    using best set lease_tombstone_distinct[of 0 2 0 2] by (simp add: io_simps del: string_bytes_string)
  from tombstone_releases[OF wf this] show ?thesis by simp
qed

text \<open>Re-adopting a block whose lease the node forgot writes nothing to the store and adopts only a lease that
  names this node and is not released, at the epoch it has.\<close>

theorem readopt_only_own_lease:
  assumes "run_io (ensure_local_sender parse_lease spawned w h) s = ((found, h'), s')"
  shows "s' = s \<and> (h_epochs h' = h_epochs h \<or>
    (\<exists>l. fst (run_io (latest_lease parse_lease (block_of w (rt_logical (h_routing h)) (rt_blocks (h_routing h)))) s) = Inr (Some l)
      \<and> ls_addr l = h_advertise h \<and> \<not> ls_released l
      \<and> h_epochs h' = bt_insert (block_of w (rt_logical (h_routing h)) (rt_blocks (h_routing h))) (ls_epoch l) (h_epochs h)))"
proof -
  let ?b = "block_of w (rt_logical (h_routing h)) (rt_blocks (h_routing h))"
  have ls: "h_epochs (snd (local_sender sp w g)) = h_epochs g" "h_routing (snd (local_sender sp w g)) = h_routing g"
    "h_advertise (snd (local_sender sp w g)) = h_advertise g" for sp g
    by (simp_all add: local_sender_def)
  have st: "snd (run_io (latest_lease parse_lease ?b) s) = s" by (simp add: io_simps split: option.split)
  obtain r where r: "run_io (latest_lease parse_lease ?b) s = (r, s)" using st by (metis prod.collapse)
  obtain here h1 where h1: "local_sender spawned w h = (here, h1)" by force
  have same: "h_epochs h1 = h_epochs h" "h_routing h1 = h_routing h" "h_advertise h1 = h_advertise h"
    using ls[of spawned h] h1 by simp_all
  show ?thesis
  proof (cases "here \<or> map_of (h_epochs h) ?b \<noteq> None")
    case True
    then show ?thesis using assms h1 same by (auto simp: ensure_local_sender_def Let_def split: if_splits)
  next
    case False
    then have h: "h1 = h" using h1 by (auto simp: local_sender_def split: if_splits)
    show ?thesis
    proof (cases "\<exists>l. r = Inr (Some l) \<and> ls_addr l = h_advertise h \<and> \<not> ls_released l")
      case True
      then obtain l where l: "r = Inr (Some l)" "ls_addr l = h_advertise h" "\<not> ls_released l" by blast
      let ?h = "h\<lparr>h_epochs := bt_insert ?b (ls_epoch l) (h_epochs h),
         h_routing := h_routing h\<lparr>rt_addrs := bt_insert ?b (h_advertise h) (rt_addrs (h_routing h))\<rparr>\<rparr>"
      have "run_io (ensure_local_sender parse_lease spawned w h) s = (local_sender spawned w ?h, s)"
        using False h1 h r l by (simp add: ensure_local_sender_def Let_def run_io_bind)
      then have "s' = s" "h' = snd (local_sender spawned w ?h)" using assms by (metis Pair_inject, metis Pair_inject snd_conv)
      moreover have "h_epochs h' = h_epochs ?h" unfolding calculation(2) by (rule ls(1))
      ultimately show ?thesis using r l by auto
    next
      case no: False
      have "run_io (ensure_local_sender parse_lease spawned w h) s = ((False, h), s)"
        using False h1 h r no
        by (cases r; cases "\<exists>l. r = Inr (Some l)") (auto simp: ensure_local_sender_def Let_def run_io_bind split: option.split)
      then show ?thesis using assms by simp
    qed
  qed
qed

definition forgetful :: host where
  "forgetful = \<lparr>h_local = [], h_epochs = [], h_routing = demo_routing, h_advertise = ''n''\<rparr>"

lemma readopt_only_own_lease_witness:
  "snd (run_io (ensure_local_sender (\<lambda>bs. Inr (bytes_string bs)) True 0 forgetful) mem_empty) = mem_empty"
  using readopt_only_own_lease[of "\<lambda>bs. Inr (bytes_string bs)" True 0 forgetful mem_empty] by (metis prod.collapse)

end
