(* ===== verification/Fence.thy ===== *)
theory Fence
  imports Lease_Props
begin

text \<open>
  Fencing, from \<open>src/src/cluster.rs\<close> and the commit gate of \<open>ship_task\<close> in \<open>src/src/worker.rs\<close>: the node's clock
  with its freezes, the guard's period, re-verifying leases against one listing of the lease space,
  and the gate a boat passes before its commit record. Durations are nanoseconds; \<open>scale\<close> is
  multiplication by the node's clock rate (a rounded product of floating-point numbers, of which
  only monotony is used). What the clocks read when a listing has come back are arguments.
\<close>

section \<open>The node's clock\<close>

text \<open>\<open>raw\<close> is the real time since the node's birth.\<close>

datatype clock_pause = Running nat | Frozen nat nat

definition clock_now :: "(nat \<Rightarrow> nat) \<Rightarrow> nat \<Rightarrow> clock_pause \<Rightarrow> nat" where
  "clock_now scale raw p = scale (case p of Running skipped \<Rightarrow> raw - skipped | Frozen at skipped \<Rightarrow> at - skipped)"

definition clock_freeze :: "nat \<Rightarrow> clock_pause \<Rightarrow> clock_pause" where
  "clock_freeze raw p = (case p of Running skipped \<Rightarrow> Frozen raw skipped | Frozen _ _ \<Rightarrow> p)"

definition clock_thaw :: "nat \<Rightarrow> clock_pause \<Rightarrow> clock_pause" where
  "clock_thaw raw p = (case p of Running _ \<Rightarrow> p | Frozen at skipped \<Rightarrow> Running (skipped + (raw - at)))"

fun clock_wf :: "nat \<Rightarrow> clock_pause \<Rightarrow> bool" where
  "clock_wf raw (Running skipped) = (skipped \<le> raw)"
| "clock_wf raw (Frozen at skipped) = (skipped \<le> at \<and> at \<le> raw)"

section \<open>The guard's period\<close>

definition ms :: "nat \<Rightarrow> nat" where "ms n = n * 1000000"

definition guard_interval :: "nat \<Rightarrow> nat" where
  "guard_interval ttl = min (max (ttl div 3) (ms 50)) (ms 5000)"

section \<open>Verifying\<close>

datatype halt = Alive | ProcessExit | NodeCrash

record fence =
  fe_epochs :: "(nat \<times> nat) list"
  fe_fenced :: bool
  fe_verified :: "nat \<times> nat"
  fe_earliest :: nat
  fe_ttl :: nat
  fe_wall_fence :: bool
  fe_exit_on_fence :: bool
  fe_halt :: halt

definition lease_name :: "key \<Rightarrow> (nat \<times> nat) option" where
  "lease_name key = Option.bind (strip_prefix ''_lease/b'' key) (\<lambda>rest.
     Option.bind (split_once (CHR ''/'') rest) (\<lambda>(block, entry).
     (case (parse_usize block, entry_epoch entry) of (Some b, Some e) \<Rightarrow> Some (b, e) | _ \<Rightarrow> None)))"

definition max_epochs :: "key list \<Rightarrow> (nat \<times> nat) list" where
  "max_epochs keys = foldl (\<lambda>m key. case lease_name key of
       Some (b, e) \<Rightarrow> bt_insert b (case map_of m b of Some best \<Rightarrow> max best e | None \<Rightarrow> e) m
     | None \<Rightarrow> m) [] keys"

definition superseded :: "(nat \<times> nat) list \<Rightarrow> key list \<Rightarrow> (nat \<times> nat) option" where
  "superseded epochs keys = List.find (\<lambda>(b, mine). mine < (case map_of (max_epochs keys) b of Some e \<Rightarrow> e | None \<Rightarrow> 0)) epochs"

definition fail_stop :: "fence \<Rightarrow> fence" where
  "fail_stop f = f\<lparr>fe_fenced := True, fe_halt := (if fe_exit_on_fence f then ProcessExit else NodeCrash)\<rparr>"

definition verify_leases :: "nat \<Rightarrow> nat \<Rightarrow> fence \<Rightarrow> (bool \<times> fence) io" where
  "verify_leases tick wall f = io_bind (io_list ''_lease/'') (\<lambda>r. Done (case r of
     Inl _ \<Rightarrow> (True, f)
   | Inr keys \<Rightarrow> (case superseded (fe_epochs f) keys of
       Some _ \<Rightarrow> (False, fail_stop f)
     | None \<Rightarrow> (True, f\<lparr>fe_verified := (tick, wall)\<rparr>))))"

definition lease_stale :: "nat \<Rightarrow> nat \<Rightarrow> fence \<Rightarrow> bool" where
  "lease_stale tick wall f =
     (if fe_ttl f < tick - fst (fe_verified f) then True
      else if \<not> fe_wall_fence f then False
      else if snd (fe_verified f) \<le> wall then fe_ttl f < wall - snd (fe_verified f)
      else False)"

section \<open>The commit gate\<close>

text \<open>How long a boat sleeps first, in node time.\<close>

definition gate_wait :: "nat \<Rightarrow> fence \<Rightarrow> nat" where
  "gate_wait now f = fe_earliest f - now"

text \<open>The gate proper: an error refuses the commit.\<close>

definition commit_gate :: "nat \<Rightarrow> nat \<Rightarrow> fence \<Rightarrow> (string option \<times> fence) io" where
  "commit_gate tick wall f = io_bind (verify_leases tick wall f) (\<lambda>(held, f). Done (
     if \<not> held then (Some ''lease superseded; commit refused'', f)
     else if fe_fenced f then (Some ''node is fenced; commit refused'', f)
     else (None, f)))"

section \<open>Facts\<close>

lemma max_epochs_of: "map_of (max_epochs keys) b =
  (let E = {e. \<exists>k \<in> set keys. lease_name k = Some (b, e)} in if E = {} then None else Some (Max E))"
proof (induction keys rule: rev_induct)
  case Nil
  then show ?case by (simp add: max_epochs_def)
next
  case (snoc k ks)
  let ?E = "{e. \<exists>k \<in> set ks. lease_name k = Some (b, e)}"
  have fin: "finite ?E"
  proof -
    have "?E \<subseteq> (\<lambda>k. snd (the (lease_name k))) ` set ks" by force
    then show ?thesis by (rule finite_subset) simp
  qed
  show ?case
  proof (cases "\<exists>e. lease_name k = Some (b, e)")
    case True
    then obtain e where e: "lease_name k = Some (b, e)" by blast
    have set: "{e. \<exists>k \<in> set (ks @ [k]). lease_name k = Some (b, e)} = insert e ?E" using e by auto
    show ?thesis
    proof (cases "?E = {}")
      case True
      then have "map_of (max_epochs ks) b = None" using snoc by (simp add: Let_def)
      then show ?thesis unfolding set using e True by (simp add: max_epochs_def)
    next
      case False
      then have "map_of (max_epochs ks) b = Some (Max ?E)" using snoc by (simp add: Let_def)
      then show ?thesis unfolding set using e False Max_insert[OF fin False] by (simp add: max_epochs_def max.commute)
    qed
  next
    case False
    then have "{e. \<exists>k \<in> set (ks @ [k]). lease_name k = Some (b, e)} = ?E" by auto
    moreover have "map_of (max_epochs (ks @ [k])) b = map_of (max_epochs ks) b"
      using False by (auto simp: max_epochs_def split: option.split)
    ultimately show ?thesis using snoc by simp
  qed
qed

lemma latest_above:
  "mine < (case map_of (max_epochs keys) b of Some e \<Rightarrow> e | None \<Rightarrow> 0)
   \<longleftrightarrow> (\<exists>k \<in> set keys. \<exists>e. lease_name k = Some (b, e) \<and> mine < e)"
proof -
  let ?E = "{e. \<exists>k \<in> set keys. lease_name k = Some (b, e)}"
  have "?E \<subseteq> (\<lambda>k. snd (the (lease_name k))) ` set keys" by force
  then have fin: "finite ?E" by (rule finite_subset) simp
  show ?thesis
  proof (cases "?E = {}")
    case True
    then show ?thesis by (auto simp: max_epochs_of)
  next
    case False
    then have "map_of (max_epochs keys) b = Some (Max ?E)" by (simp add: max_epochs_of Let_def)
    then show ?thesis using Max_gr_iff[OF fin False, of mine] by auto
  qed
qed

lemma superseded_None:
  "superseded epochs keys = None \<longleftrightarrow>
     (\<forall>(b, mine) \<in> set epochs. \<forall>k \<in> set keys. \<forall>e. lease_name k = Some (b, e) \<longrightarrow> e \<le> mine)"
  unfolding superseded_def find_none
proof (intro ball_cong refl)
  fix x
  show "(\<not> (case x of (b, mine) \<Rightarrow> mine < (case map_of (max_epochs keys) b of Some e \<Rightarrow> e | None \<Rightarrow> 0))) =
      (case x of (b, mine) \<Rightarrow> \<forall>k \<in> set keys. \<forall>e. lease_name k = Some (b, e) \<longrightarrow> e \<le> mine)"
    by (cases x) (simp add: latest_above, meson not_le)
qed

text \<open>A lease blob of a higher epoch than one held.\<close>

definition newer_lease :: "mem \<Rightarrow> fence \<Rightarrow> bool" where
  "newer_lease s f \<longleftrightarrow> (\<exists>(b, mine) \<in> set (fe_epochs f). \<exists>k n. mem_get s k \<noteq> None
      \<and> starts_with k ''_lease/'' \<and> lease_name k = Some (b, n) \<and> mine < n)"

lemma superseded_newer: "mem_wf s \<Longrightarrow> superseded (fe_epochs f) (mem_list s ''_lease/'') = None \<longleftrightarrow> \<not> newer_lease s f"
proof -
  assume wf: "mem_wf s"
  have "(\<exists>(b, mine) \<in> set (fe_epochs f). \<exists>k \<in> set (mem_list s ''_lease/''). \<exists>n. lease_name k = Some (b, n) \<and> mine < n) \<longleftrightarrow> newer_lease s f"
    unfolding newer_lease_def set_mem_list[OF wf] by (intro bex_cong refl) auto
  then show ?thesis unfolding superseded_None by (auto simp: not_le[symmetric])
qed

lemma lease_name_key [simp]: "b < 2 ^ 64 \<Longrightarrow> e < 2 ^ 64 \<Longrightarrow> lease_name (lease_key b e) = Some (b, e)"
proof -
  assume b: "b < 2 ^ 64" "e < 2 ^ 64"
  have ns: "CHR ''/'' \<notin> set (show_nat b)"
    using parse_acc_digits[of 0 "show_nat b" b "CHR ''/''"] by auto
  have "lease_key b e = ''_lease/b'' @ (show_nat b @ CHR ''/'' # (''e'' @ show_nat e @ ''.json''))"
    by (simp add: lease_key_def)
  then have "strip_prefix ''_lease/b'' (lease_key b e) = Some (show_nat b @ CHR ''/'' # (''e'' @ show_nat e @ ''.json''))"
    by (simp only: strip_prefix_append)
  moreover have "split_once (CHR ''/'') (show_nat b @ CHR ''/'' # (''e'' @ show_nat e @ ''.json'')) = Some (show_nat b, ''e'' @ show_nat e @ ''.json'')"
    using ns by (simp add: split_once_eq_Some)
  moreover have "entry_epoch (''e'' @ show_nat e @ ''.json'') = Some e"
    using b(2) unfolding entry_epoch_def strip_prefix_append by (simp only: Option.bind.simps strip_suffix_append parse_uint_show)
  ultimately show ?thesis using b(1) by (simp add: lease_name_def parse_usize_def)
qed

lemma run_verify [io_simps]:
  "run_io (verify_leases tick wall f) s = (case superseded (fe_epochs f) (mem_list s ''_lease/'') of
     Some _ \<Rightarrow> ((False, fail_stop f), s)
   | None \<Rightarrow> ((True, f\<lparr>fe_verified := (tick, wall)\<rparr>), s))"
  by (simp add: verify_leases_def io_simps split: option.split)

section \<open>Properties\<close>

text \<open>C32: The commit gate, when its listing is answered, refuses exactly when the node was fenced before or a
  lease blob of a higher epoch exists for a block it holds; in the second case the node is fenced
  from then on and every later gate refuses too.\<close>

theorem gate_refuses_superseded:
  assumes "mem_wf s" "run_io (commit_gate tick wall f) s = ((e, f'), s')"
  shows "s' = s \<and> (e \<noteq> None \<longleftrightarrow> fe_fenced f \<or> newer_lease s f)
    \<and> (e \<noteq> None \<longrightarrow> fe_fenced f' \<and> fst (fst (run_io (commit_gate tick' wall' f') t)) \<noteq> None)"
proof -
  have later: "fst (fst (run_io (commit_gate tick' wall' g) t)) \<noteq> None" if "fe_fenced g" for g
    using that by (auto simp: commit_gate_def io_simps split: option.split)
  show ?thesis
  proof (cases "newer_lease s f")
    case True
    then obtain x where "superseded (fe_epochs f) (mem_list s ''_lease/'') = Some x" using superseded_newer[OF assms(1)] by blast
    then have "s' = s" "e = Some ''lease superseded; commit refused''" "f' = fail_stop f"
      using assms(2) by (auto simp: commit_gate_def io_simps)
    then show ?thesis using True later[of f'] by (simp add: fail_stop_def)
  next
    case False
    then have "superseded (fe_epochs f) (mem_list s ''_lease/'') = None" using superseded_newer[OF assms(1)] by blast
    then show ?thesis using assms(2) False later[of f'] by (auto simp: commit_gate_def io_simps split: if_splits)
  qed
qed

definition old_holder :: fence where
  "old_holder = \<lparr>fe_epochs = [(3, 5)], fe_fenced = False, fe_verified = (0, 0), fe_earliest = 0, fe_ttl = ms 10000,
     fe_wall_fence = True, fe_exit_on_fence = False, fe_halt = Alive\<rparr>"

definition taken_over :: mem where
  "taken_over = mem_put (lease_key 3 6) [] (mem_put (lease_key 3 5) [] mem_empty)"

lemma taken_over_newer: "mem_wf taken_over" "mem_get taken_over (lease_key 3 6) \<noteq> None"
  "starts_with (lease_key 3 6) ''_lease/''" "lease_name (lease_key 3 6) = Some (3, 6)"
  using lease_name_key[of 3 6] by (simp_all add: taken_over_def lease_key_def starts_with_prefix)

lemma taken_over_newer_lease: "newer_lease taken_over old_holder"
  using taken_over_newer by (auto simp: newer_lease_def old_holder_def intro!: exI[of _ "lease_key 3 6"])

lemma gate_refuses_superseded_witness: "fst (fst (run_io (commit_gate 0 0 old_holder) taken_over)) \<noteq> None"
proof -
  obtain e f' s' where run: "run_io (commit_gate 0 0 old_holder) taken_over = ((e, f'), s')" by (metis prod.collapse)
  show ?thesis using gate_refuses_superseded[OF taken_over_newer(1) run] run taken_over_newer_lease by simp
qed

text \<open>The gate lets the commit pass when its listing fails: a superseded node whose one request is answered
  with an error is not refused, however old its last verification is.\<close>

theorem gate_passes_on_list_error:
  "sys_step (\<lambda>q. q = ListReq ''_lease/'') (taken_over, [commit_gate tick wall old_holder]) (taken_over, [Done (None, old_holder)])
   \<and> fst (fst (run_io (commit_gate tick wall old_holder) taken_over)) \<noteq> None"
proof -
  let ?c = "\<lambda>r. io_bind (Done (case as_keys r of
     Inl _ \<Rightarrow> (True, old_holder)
   | Inr keys \<Rightarrow> (case superseded (fe_epochs old_holder) keys of
       Some _ \<Rightarrow> (False, fail_stop old_holder)
     | None \<Rightarrow> (True, old_holder\<lparr>fe_verified := (tick, wall)\<rparr>)))) (\<lambda>(held, f). Done (
     if \<not> held then (Some ''lease superseded; commit refused'', f)
     else if fe_fenced f then (Some ''node is fenced; commit refused'', f)
     else (None, f)))"
  have p: "[commit_gate tick wall old_holder] ! 0 = Do (ListReq ''_lease/'') ?c"
    by (simp add: commit_gate_def verify_leases_def io_list_def)
  have "?c (ErrResp e) = Done (None, old_holder)" for e by (simp add: as_keys_def old_holder_def)
  then have "sys_step (\<lambda>q. q = ListReq ''_lease/'') (taken_over, [commit_gate tick wall old_holder]) (taken_over, [Done (None, old_holder)])"
    using sys_step.failed[OF _ p, of "\<lambda>q. q = ListReq ''_lease/''" taken_over "[]"] by simp
  moreover have "superseded (fe_epochs old_holder) (mem_list taken_over ''_lease/'') \<noteq> None"
    using superseded_newer[OF taken_over_newer(1)] taken_over_newer_lease by blast
  ultimately show ?thesis by (auto simp: commit_gate_def io_simps)
qed

text \<open>The guard sweeps more often than once per time-to-live exactly when the time-to-live is above fifty
  milliseconds; the floor against busy looping makes it slower below that.\<close>

theorem guard_interval_bounds:
  "(guard_interval ttl < ttl \<longleftrightarrow> ms 50 < ttl) \<and> ms 50 \<le> guard_interval ttl \<and> guard_interval ttl \<le> ms 5000"
  by (auto simp: guard_interval_def ms_def)

text \<open>A node's clock never runs backwards, stands still while it is frozen, and continues after a thaw from
  the moment it stopped, whatever was frozen before.\<close>

theorem clock_monotone:
  assumes "mono scale" "clock_wf raw p" "raw \<le> raw'"
  shows "clock_now scale raw p \<le> clock_now scale raw' p
    \<and> clock_now scale raw' (clock_freeze raw p) = clock_now scale raw p
    \<and> clock_now scale raw' (clock_thaw raw' (clock_freeze raw p)) = clock_now scale raw p
    \<and> clock_now scale raw (clock_thaw raw p) = clock_now scale raw p
    \<and> clock_wf raw' p \<and> clock_wf raw' (clock_freeze raw p) \<and> clock_wf raw' (clock_thaw raw p)"
proof (cases p)
  case (Running sk)
  have "scale (raw - sk) \<le> scale (raw' - sk)" using assms(3) by (intro monoD[OF assms(1)]) simp
  then show ?thesis using assms Running by (auto simp: clock_now_def clock_freeze_def clock_thaw_def)
next
  case (Frozen at sk)
  have "raw' - (sk + (raw' - at)) = at - sk" "raw - (sk + (raw - at)) = at - sk" using assms Frozen by auto
  then show ?thesis using assms Frozen by (auto simp: clock_now_def clock_freeze_def clock_thaw_def)
qed

lemma clock_monotone_witness: "clock_now (\<lambda>d. d * 95 div 100) 900 (clock_thaw 900 (clock_freeze 400 (Running 100))) = 285"
proof -
  have "mono (\<lambda>d :: nat. d * 95 div 100)" by (auto intro!: monoI div_le_mono)
  from clock_monotone[OF this, of 400 "Running 100" 900] show ?thesis by (simp add: clock_now_def)
qed

end
