(* ===== verification/Checkpoints.thy ===== *)
theory Checkpoints
  imports Routing Store_IO
begin

text \<open>
  Checkpoints of \<open>src/src/cluster.rs\<close>: what a worker durably claims, its wire form with the legacy
  shapes, the durable truth about one object (\<open>durable_claim\<close>) and the reconciliation of all
  checkpoints at boot. Both arbitrate by handoff generation; the properties say that they
  find the highest one whatever the order of the listing, that they agree, and what a read
  that fails does to the answer. The JSON decoder is an argument.
\<close>

section \<open>Wire form\<close>

record checkpoint =
  cp_owned :: "(string \<times> nat) list"
  cp_transit :: "(string \<times> (nat \<times> nat)) list"

datatype owned_wire = OwnedGens "(string \<times> nat) list" | OwnedLegacy "string list"

datatype transit_wire = TransitGens "(string \<times> (nat \<times> nat)) list" | TransitLegacy "(string \<times> nat) list"

record checkpoint_wire =
  cw_owned :: owned_wire
  cw_transit :: transit_wire

definition default_owned :: owned_wire where "default_owned = OwnedGens []"
definition default_transit :: transit_wire where "default_transit = TransitGens []"

definition of_wire :: "checkpoint_wire \<Rightarrow> checkpoint" where
  "of_wire w = \<lparr>
     cp_owned = (case cw_owned w of OwnedGens m \<Rightarrow> m | OwnedLegacy v \<Rightarrow> map (\<lambda>ob. (ob, 1)) (remdups v)),
     cp_transit = (case cw_transit w of TransitGens m \<Rightarrow> m | TransitLegacy m \<Rightarrow> map (\<lambda>(ob, w). (ob, (w, 1))) m)\<rparr>"

definition checkpoint_key :: "nat \<Rightarrow> key" where
  "checkpoint_key worker = ''_worker/'' @ show_nat worker @ ''.json''"

definition key_worker :: "key \<Rightarrow> nat option" where
  "key_worker key = Option.bind (strip_prefix ''_worker/'' key) (\<lambda>k. Option.bind (strip_suffix ''.json'' k) parse_usize)"

section \<open>The durable truth about one object\<close>

datatype claim = Owned nat nat | Transit nat nat | Unclaimed

fun rank :: "claim \<Rightarrow> nat \<times> nat" where
  "rank (Owned _ g) = (g, 1)"
| "rank (Transit _ g) = (g, 0)"
| "rank Unclaimed = (0, 0)"

definition weigh :: "claim option \<Rightarrow> claim \<Rightarrow> claim option" where
  "weigh best c = (case best of None \<Rightarrow> Some c | Some b \<Rightarrow> if rank b < rank c then Some c else best)"

definition weigh_checkpoint :: "string \<Rightarrow> nat \<Rightarrow> checkpoint \<Rightarrow> claim option \<Rightarrow> claim option" where
  "weigh_checkpoint ob w cp best =
     (let best = (case map_of (cp_owned cp) ob of Some g \<Rightarrow> weigh best (Owned w g) | None \<Rightarrow> best)
      in case map_of (cp_transit cp) ob of Some (dest, g) \<Rightarrow> weigh best (Transit dest g) | None \<Rightarrow> best)"

fun durable_scan :: "(bytes \<Rightarrow> checkpoint result) \<Rightarrow> string \<Rightarrow> key list \<Rightarrow> claim option \<Rightarrow> claim option io" where
  "durable_scan dec ob [] best = Done best"
| "durable_scan dec ob (key # keys) best = (case key_worker key of
     None \<Rightarrow> durable_scan dec ob keys best
   | Some w \<Rightarrow> io_bind (io_get key) (\<lambda>r. durable_scan dec ob keys (case r of
       Inr (Some bs) \<Rightarrow> (case dec bs of Inr cp \<Rightarrow> weigh_checkpoint ob w cp best | Inl _ \<Rightarrow> best)
     | _ \<Rightarrow> best)))"

definition usize_max :: nat where "usize_max = 2 ^ 64 - 1"

definition durable_claim :: "(bytes \<Rightarrow> checkpoint result) \<Rightarrow> string \<Rightarrow> claim io" where
  "durable_claim dec ob = io_bind (io_list ''_worker/'') (\<lambda>r. case r of
     Inl _ \<Rightarrow> Done (Transit usize_max (2 ^ 64 - 1))
   | Inr keys \<Rightarrow> io_bind (durable_scan dec ob keys None) (\<lambda>best. Done (case best of Some c \<Rightarrow> c | None \<Rightarrow> Unclaimed)))"

section \<open>Boot reconciliation\<close>

record boot =
  bo_transit :: "(nat \<times> (string \<times> (nat \<times> nat)) list) list"
  bo_gens :: "(string \<times> (nat \<times> nat)) list"

definition boot_claim :: "nat \<Rightarrow> (string \<times> (nat \<times> nat)) list \<Rightarrow> string \<times> nat \<Rightarrow> (string \<times> (nat \<times> nat)) list" where
  "boot_claim w gens = (\<lambda>(ob, g). case map_of gens ob of
     Some (prev_w, prev_g) \<Rightarrow> if prev_g < g \<or> g = prev_g \<and> w < prev_w then bt_insert ob (w, g) gens else gens
   | None \<Rightarrow> bt_insert ob (w, g) gens)"

definition boot_checkpoint :: "nat \<Rightarrow> checkpoint \<Rightarrow> boot \<Rightarrow> boot" where
  "boot_checkpoint w cp b = b\<lparr>
     bo_transit := (if cp_transit cp \<noteq> [] then bt_insert w (cp_transit cp) (bo_transit b) else bo_transit b),
     bo_gens := foldl (boot_claim w) (bo_gens b) (cp_owned cp)\<rparr>"

fun boot_scan :: "(bytes \<Rightarrow> checkpoint result) \<Rightarrow> key list \<Rightarrow> boot \<Rightarrow> boot result io" where
  "boot_scan dec [] b = ok b"
| "boot_scan dec (key # keys) b = (case key_worker key of
     None \<Rightarrow> boot_scan dec keys b
   | Some w \<Rightarrow> io_try (io_get key) (\<lambda>blob. boot_scan dec keys (case blob of
       Some bs \<Rightarrow> (case dec bs of Inr cp \<Rightarrow> boot_checkpoint w cp b | Inl _ \<Rightarrow> b)
     | None \<Rightarrow> b)))"

definition boot_placement :: "(bytes \<Rightarrow> checkpoint result) \<Rightarrow> boot result io" where
  "boot_placement dec = io_try (io_list ''_worker/'') (\<lambda>keys. boot_scan dec keys \<lparr>bo_transit = [], bo_gens = []\<rparr>)"

text \<open>What each worker owns, and where the routing departs from the hash.\<close>

definition boot_owned :: "(string \<times> (nat \<times> nat)) list \<Rightarrow> (nat \<times> (string \<times> nat) list) list" where
  "boot_owned gens = foldl (\<lambda>m (ob, w, g).
     bt_insert w (bt_insert ob g (case map_of m w of Some l \<Rightarrow> l | None \<Rightarrow> [])) m) [] gens"

definition boot_exceptions :: "nat \<Rightarrow> (string \<times> (nat \<times> nat)) list \<Rightarrow> (string \<times> nat) list" where
  "boot_exceptions logical gens = foldl (\<lambda>m (ob, w, g).
     if default_worker ob logical \<noteq> w then bt_insert ob w m else m) [] gens"

section \<open>What the checkpoints of a store say\<close>

text \<open>The claims a checkpoint makes about an object, in the order they are considered.\<close>

definition claims_of :: "string \<Rightarrow> nat \<Rightarrow> checkpoint \<Rightarrow> claim list" where
  "claims_of ob w cp = (case map_of (cp_owned cp) ob of Some g \<Rightarrow> [Owned w g] | None \<Rightarrow> [])
     @ (case map_of (cp_transit cp) ob of Some (dest, g) \<Rightarrow> [Transit dest g] | None \<Rightarrow> [])"

definition key_claims :: "(bytes \<Rightarrow> checkpoint result) \<Rightarrow> string \<Rightarrow> mem \<Rightarrow> key \<Rightarrow> claim list" where
  "key_claims dec ob s key = (case (key_worker key, mem_get s key) of
     (Some w, Some bs) \<Rightarrow> (case dec bs of Inr cp \<Rightarrow> claims_of ob w cp | Inl _ \<Rightarrow> [])
   | _ \<Rightarrow> [])"

definition claims :: "(bytes \<Rightarrow> checkpoint result) \<Rightarrow> mem \<Rightarrow> string \<Rightarrow> claim set" where
  "claims dec s ob = {c. \<exists>key. c \<in> set (key_claims dec ob s key)}"

lemma weigh_checkpoint_foldl: "weigh_checkpoint ob w cp best = foldl weigh best (claims_of ob w cp)"
  by (simp add: weigh_checkpoint_def claims_of_def Let_def split: option.split)

lemma run_durable_scan [io_simps]:
  "run_io (durable_scan dec ob keys best) s = (foldl weigh best (concat (map (key_claims dec ob s) keys)), s)"
proof (induction keys arbitrary: best)
  case (Cons key keys)
  show ?case
    by (cases "key_worker key"; cases "mem_get s key"; cases "dec (the (mem_get s key))")
       (auto simp: io_simps Cons.IH weigh_checkpoint_foldl key_claims_def)
qed simp

lemma weigh_max:
  "foldl weigh best cs = Some c \<Longrightarrow> c \<in> set cs \<union> set_option best
    \<and> (\<forall>c' \<in> set cs \<union> set_option best. rank c' \<le> rank c)"
proof (induction cs arbitrary: best)
  case (Cons a cs)
  have cons: "weigh best a = Some b \<Longrightarrow> b \<in> insert a (set_option best)
      \<and> (\<forall>c' \<in> insert a (set_option best). rank c' \<le> rank b)" for b
    by (auto simp: weigh_def split: option.splits if_splits)
  obtain b where b: "weigh best a = Some b" by (cases "weigh best a") (auto simp: weigh_def split: option.splits if_splits)
  have "c \<in> set cs \<union> {b} \<and> (\<forall>c' \<in> set cs \<union> {b}. rank c' \<le> rank c)"
    using Cons.IH[of "Some b"] Cons.prems b by simp
  then show ?case using cons[OF b] by (auto intro: order_trans)
qed auto

lemma weigh_None: "foldl weigh best cs = None \<longleftrightarrow> best = None \<and> cs = []"
proof (induction cs arbitrary: best)
  case (Cons a cs)
  show ?case unfolding foldl_Cons Cons.IH by (auto simp: weigh_def split: option.splits)
qed simp

lemma key_worker_listed: "key_worker k = Some w \<Longrightarrow> starts_with k ''_worker/''"
  by (auto simp: key_worker_def bind_eq_Some_conv strip_prefix_eq_Some starts_with_def)

lemma listed_claims:
  assumes "mem_wf s"
  shows "set (concat (map (key_claims dec ob s) (mem_list s ''_worker/''))) = claims dec s ob"
proof -
  have "key_claims dec ob s k \<noteq> [] \<Longrightarrow> k \<in> set (mem_list s ''_worker/'')" for k
    unfolding set_mem_list[OF assms]
    using key_worker_listed[of k] by (auto simp: key_claims_def split: option.splits)
  then show ?thesis unfolding claims_def by (auto dest: list.set_sel(1)) (metis empty_iff empty_set)
qed

lemma run_durable_claim [io_simps]:
  "run_io (durable_claim dec ob) s =
    (case foldl weigh None (concat (map (key_claims dec ob s) (mem_list s ''_worker/''))) of Some c \<Rightarrow> c | None \<Rightarrow> Unclaimed, s)"
  by (simp add: durable_claim_def io_simps)

text \<open>Boot considers the owned claims only: the pairs of worker and generation of one object.\<close>

definition weigh_own :: "(nat \<times> nat) option \<Rightarrow> nat \<times> nat \<Rightarrow> (nat \<times> nat) option" where
  "weigh_own best c = (case best of None \<Rightarrow> Some c
     | Some (prev_w, prev_g) \<Rightarrow> if prev_g < snd c \<or> snd c = prev_g \<and> fst c < prev_w then Some c else best)"

definition own_claims :: "(bytes \<Rightarrow> checkpoint result) \<Rightarrow> string \<Rightarrow> mem \<Rightarrow> key \<Rightarrow> (nat \<times> nat) list" where
  "own_claims dec ob s key = List.map_filter (\<lambda>c. case c of Owned w g \<Rightarrow> Some (w, g) | _ \<Rightarrow> None) (key_claims dec ob s key)"

lemma boot_claim_entry:
  "map_of (boot_claim w gens (a, g)) ob = (if a = ob then weigh_own (map_of gens ob) (w, g) else map_of gens ob)"
  by (auto simp: boot_claim_def weigh_own_def split: option.split)

lemma boot_claims_entry:
  "distinct (map fst l) \<Longrightarrow> map_of (foldl (boot_claim w) gens l) ob =
    (case map_of l ob of None \<Rightarrow> map_of gens ob | Some g \<Rightarrow> weigh_own (map_of gens ob) (w, g))"
proof (induction l arbitrary: gens)
  case (Cons x l)
  obtain a g where x: "x = (a, g)" by force
  have "map_of l a = None" using Cons.prems x by (auto simp: map_of_eq_None_iff)
  then show ?case using Cons x by (auto simp: boot_claim_entry split: option.split)
qed simp

definition decodes_maps :: "(bytes \<Rightarrow> checkpoint result) \<Rightarrow> bool" where
  "decodes_maps dec \<longleftrightarrow> (\<forall>bs cp. dec bs = Inr cp \<longrightarrow> distinct (map fst (cp_owned cp)))"

lemma run_boot_scan:
  assumes "decodes_maps dec"
  shows "\<exists>b'. run_io (boot_scan dec keys b) s = (Inr b', s)
    \<and> map_of (bo_gens b') ob = foldl weigh_own (map_of (bo_gens b) ob) (concat (map (own_claims dec ob s) keys))"
proof (induction keys arbitrary: b)
  case (Cons key keys)
  define b1 where "b1 = (case (key_worker key, mem_get s key) of
     (Some w, Some bs) \<Rightarrow> (case dec bs of Inr cp \<Rightarrow> boot_checkpoint w cp b | Inl _ \<Rightarrow> b) | _ \<Rightarrow> b)"
  have run: "run_io (boot_scan dec (key # keys) b) s = run_io (boot_scan dec keys b1) s"
    by (cases "key_worker key"; cases "mem_get s key") (simp_all add: io_simps b1_def)
  have "map_of (bo_gens b1) ob = foldl weigh_own (map_of (bo_gens b) ob) (own_claims dec ob s key)"
  proof (cases "key_worker key"; cases "mem_get s key"; cases "dec (the (mem_get s key))")
    fix w bs cp assume "key_worker key = Some w" "mem_get s key = Some bs" "dec (the (mem_get s key)) = Inr cp"
    then show ?thesis using assms boot_claims_entry[of "cp_owned cp" w "bo_gens b" ob]
      by (auto simp: b1_def own_claims_def key_claims_def claims_of_def boot_checkpoint_def decodes_maps_def
        List.map_filter_simps split: option.split)
  qed (simp_all add: b1_def own_claims_def key_claims_def List.map_filter_simps)
  then show ?case using Cons.IH[of b1] run by simp
qed simp

lemma weigh_own_best:
  "foldl weigh_own best cs = Some c \<Longrightarrow> c \<in> set cs \<union> set_option best
    \<and> (\<forall>c' \<in> set cs \<union> set_option best. snd c' < snd c \<or> snd c' = snd c \<and> fst c \<le> fst c')"
proof (induction cs arbitrary: best)
  case (Cons a cs)
  obtain b where b: "weigh_own best a = Some b" by (cases "weigh_own best a") (auto simp: weigh_own_def split: option.splits prod.splits if_splits)
  then have "b \<in> insert a (set_option best)
      \<and> (\<forall>c' \<in> insert a (set_option best). snd c' < snd b \<or> snd c' = snd b \<and> fst b \<le> fst c')"
    by (auto simp: weigh_own_def split: option.splits if_splits prod.splits)
  moreover have "c \<in> set cs \<union> {b} \<and> (\<forall>c' \<in> set cs \<union> {b}. snd c' < snd c \<or> snd c' = snd c \<and> fst c \<le> fst c')"
    using Cons.IH[of "Some b"] Cons.prems b by simp
  moreover have "snd a < snd c \<or> snd a = snd c \<and> fst c \<le> fst a"
    if "snd a < snd b \<or> snd a = snd b \<and> fst b \<le> fst a" "snd b < snd c \<or> snd b = snd c \<and> fst c \<le> fst b" for a :: "nat \<times> nat"
    using that by auto
  ultimately show ?case unfolding list.set(2) by blast
qed auto

lemma weigh_own_None: "foldl weigh_own best cs = None \<longleftrightarrow> best = None \<and> cs = []"
proof (induction cs arbitrary: best)
  case (Cons a cs)
  show ?case unfolding foldl_Cons Cons.IH by (auto simp: weigh_own_def split: option.splits prod.splits)
qed simp

lemma listed_own_claims:
  assumes "mem_wf s"
  shows "set (concat (map (own_claims dec ob s) (mem_list s ''_worker/''))) = {(w, g). Owned w g \<in> claims dec s ob}"
proof -
  have "(w, g) \<in> set (own_claims dec ob s key) \<longleftrightarrow> Owned w g \<in> set (key_claims dec ob s key)" for w g key
    unfolding own_claims_def set_map_filter mem_Collect_eq
    by (rule iffI, elim bexE, rename_tac c, case_tac c) (auto intro: bexI[of _ "Owned w g"])
  then have "(w, g) \<in> set (concat (map (own_claims dec ob s) (mem_list s ''_worker/''))) \<longleftrightarrow>
      Owned w g \<in> set (concat (map (key_claims dec ob s) (mem_list s ''_worker/'')))" for w g
    by simp
  then show ?thesis unfolding listed_claims[OF assms] by (simp add: set_eq_iff)
qed

section \<open>Properties\<close>

text \<open>The durable truth about an object is a claim that some checkpoint makes, of the highest generation
  there is, and of an owner rather than of a giver at that generation; without any claim the
  object is unclaimed. The order of the listing plays no part.\<close>

theorem durable_claim_highest:
  assumes "mem_wf s"
  shows "let c = fst (run_io (durable_claim dec ob) s) in snd (run_io (durable_claim dec ob) s) = s
    \<and> (claims dec s ob = {} \<longrightarrow> c = Unclaimed)
    \<and> (claims dec s ob \<noteq> {} \<longrightarrow> c \<in> claims dec s ob \<and> (\<forall>c' \<in> claims dec s ob. rank c' \<le> rank c))"
proof -
  let ?cs = "concat (map (key_claims dec ob s) (mem_list s ''_worker/''))"
  have set: "set ?cs = claims dec s ob" by (rule listed_claims[OF assms])
  show ?thesis
  proof (cases "foldl weigh None ?cs")
    case None
    then have "?cs = []" using weigh_None by blast
    then have "claims dec s ob = {}" using set by (metis empty_set)
    then show ?thesis using None by (simp add: run_durable_claim)
  next
    case (Some c)
    then show ?thesis using weigh_max[OF Some] set by (auto simp: run_durable_claim)
  qed
qed

text \<open>Boot gives every object to the claim of the highest generation among all checkpoints, the lower
  worker breaking a tie, and to no one when no checkpoint owns it; where the durable truth is an
  owner whose generation no one else claims, boot finds that same owner.\<close>

theorem boot_keeps_highest_claim:
  assumes "mem_wf s" "decodes_maps dec"
  shows "\<exists>b. run_io (boot_placement dec) s = (Inr b, s)
    \<and> (\<forall>w g. map_of (bo_gens b) ob = Some (w, g) \<longleftrightarrow>
        Owned w g \<in> claims dec s ob \<and> (\<forall>w' g'. Owned w' g' \<in> claims dec s ob \<longrightarrow> g' < g \<or> g' = g \<and> w \<le> w'))
    \<and> (\<forall>w g. fst (run_io (durable_claim dec ob) s) = Owned w g \<and> (\<forall>w'. Owned w' g \<in> claims dec s ob \<longrightarrow> w' = w)
        \<longrightarrow> map_of (bo_gens b) ob = Some (w, g))"
proof -
  let ?cs = "concat (map (own_claims dec ob s) (mem_list s ''_worker/''))"
  obtain b where b: "run_io (boot_placement dec) s = (Inr b, s)" "map_of (bo_gens b) ob = foldl weigh_own None ?cs"
    using run_boot_scan[OF assms(2), of "mem_list s ''_worker/''" "\<lparr>bo_transit = [], bo_gens = []\<rparr>" s ob]
    by (auto simp: boot_placement_def io_simps)
  have set: "set ?cs = {(w, g). Owned w g \<in> claims dec s ob}" by (rule listed_own_claims[OF assms(1)])
  have best: "map_of (bo_gens b) ob = Some (w, g) \<longleftrightarrow>
      Owned w g \<in> claims dec s ob \<and> (\<forall>w' g'. Owned w' g' \<in> claims dec s ob \<longrightarrow> g' < g \<or> g' = g \<and> w \<le> w')" for w g
  proof
    assume "map_of (bo_gens b) ob = Some (w, g)"
    then have "foldl weigh_own None ?cs = Some (w, g)" using b(2) by simp
    from weigh_own_best[OF this] show "Owned w g \<in> claims dec s ob \<and> (\<forall>w' g'. Owned w' g' \<in> claims dec s ob \<longrightarrow> g' < g \<or> g' = g \<and> w \<le> w')"
      unfolding set by auto
  next
    assume r: "Owned w g \<in> claims dec s ob \<and> (\<forall>w' g'. Owned w' g' \<in> claims dec s ob \<longrightarrow> g' < g \<or> g' = g \<and> w \<le> w')"
    then have "(w, g) \<in> set ?cs" unfolding set by simp
    then have "?cs \<noteq> []" by (metis empty_iff empty_set)
    then obtain w1 g1 where f: "foldl weigh_own None ?cs = Some (w1, g1)" using weigh_own_None by (metis option.exhaust prod.exhaust)
    from weigh_own_best[OF f] have "Owned w1 g1 \<in> claims dec s ob" "g < g1 \<or> g = g1 \<and> w1 \<le> w"
      unfolding set using r by auto
    then have "w1 = w \<and> g1 = g" using r by force
    then show "map_of (bo_gens b) ob = Some (w, g)" using f b(2) by simp
  qed
  have "map_of (bo_gens b) ob = Some (w, g)"
    if c: "fst (run_io (durable_claim dec ob) s) = Owned w g" "\<forall>w'. Owned w' g \<in> claims dec s ob \<longrightarrow> w' = w" for w g
  proof -
    have "claims dec s ob \<noteq> {}" using durable_claim_highest[OF assms(1), of dec ob] c(1) by (auto simp: Let_def)
    then have "Owned w g \<in> claims dec s ob" and top: "\<forall>c' \<in> claims dec s ob. rank c' \<le> (g, 1)"
      using durable_claim_highest[OF assms(1), of dec ob] c(1) by (auto simp: Let_def)
    moreover have "g' < g \<or> g' = g \<and> w \<le> w'" if "Owned w' g' \<in> claims dec s ob" for w' g'
      using bspec[OF top that] c(2) that by (auto simp: less_eq_prod_def)
    ultimately show ?thesis unfolding best by blast
  qed
  then show ?thesis using b(1) best by blast
qed

text \<open>An object whose owner's checkpoint cannot be read counts as unclaimed: whatever the checkpoints say,
  when the listing succeeds and the reads fail, the answer is \<open>Unclaimed\<close>, on which its home
  worker adopts the object; only a failed listing answers with the value that no one may act on.\<close>

theorem failed_reads_unclaim:
  "sys_steps (\<lambda>q. \<exists>k. q = GetReq k) (s, [durable_claim dec ob]) (s, [Done Unclaimed])
   \<and> sys_steps (\<lambda>q. \<exists>p. q = ListReq p) (s, [durable_claim dec ob]) (s, [Done (Transit usize_max (2 ^ 64 - 1))])"
proof
  let ?F = "\<lambda>q. \<exists>k. q = GetReq k"
  have scan: "sys_steps ?F (s, [io_bind (durable_scan dec ob keys None) f]) (s, [f None])" for keys and f :: "claim option \<Rightarrow> claim io"
  proof (induction keys)
    case (Cons k ks)
    show ?case
    proof (cases "key_worker k")
      case (Some w)
      let ?c = "\<lambda>r. io_bind (durable_scan dec ob ks (case as_blob r of
          Inr (Some bs) \<Rightarrow> (case dec bs of Inr cp \<Rightarrow> weigh_checkpoint ob w cp None | Inl _ \<Rightarrow> None) | _ \<Rightarrow> None)) f"
      have p: "[io_bind (durable_scan dec ob (k # ks) None) f] ! 0 = Do (GetReq k) ?c"
        using Some by (simp add: io_get_def)
      have "sys_step ?F (s, [io_bind (durable_scan dec ob (k # ks) None) f]) (s, [io_bind (durable_scan dec ob ks None) f])"
        using sys_step.failed[OF _ p, of ?F s "[]"] by (simp add: as_blob_def)
      then show ?thesis using Cons by (rule converse_rtranclp_into_rtranclp)
    qed (use Cons in simp)
  qed simp
  have p: "[durable_claim dec ob] ! 0 = Do (ListReq ''_worker/'') (\<lambda>r. case as_keys r of
     Inl _ \<Rightarrow> Done (Transit usize_max (2 ^ 64 - 1))
   | Inr keys \<Rightarrow> io_bind (durable_scan dec ob keys None) (\<lambda>best. Done (case best of Some c \<Rightarrow> c | None \<Rightarrow> Unclaimed)))"
    by (simp add: durable_claim_def io_list_def)
  have "sys_step ?F (s, [durable_claim dec ob]) (s, [io_bind (durable_scan dec ob (mem_list s ''_worker/'') None)
      (\<lambda>best. Done (case best of Some c \<Rightarrow> c | None \<Rightarrow> Unclaimed))])"
    using sys_step.served[OF _ p, of ?F s "KeysResp (mem_list s ''_worker/'')"] by (simp add: as_keys_def seen_def)
  then show "sys_steps ?F (s, [durable_claim dec ob]) (s, [Done Unclaimed])"
    using scan[of "mem_list s ''_worker/''" "\<lambda>best. Done (case best of Some c \<Rightarrow> c | None \<Rightarrow> Unclaimed)"]
    by (simp add: converse_rtranclp_into_rtranclp)
  show "sys_steps (\<lambda>q. \<exists>p. q = ListReq p) (s, [durable_claim dec ob]) (s, [Done (Transit usize_max (2 ^ 64 - 1))])"
    using sys_step.failed[OF _ p, of "\<lambda>q. \<exists>p. q = ListReq p" s "[]"] by (simp add: as_keys_def r_into_rtranclp)
qed

section \<open>An example\<close>

lemma key_worker_key [simp]: "w < 2 ^ 64 \<Longrightarrow> key_worker (checkpoint_key w) = Some w"
  by (simp only: key_worker_def checkpoint_key_def strip_prefix_append strip_suffix_append Option.bind.simps
      parse_usize_def parse_uint_show)

lemma checkpoint_key_inj: "w < 2 ^ 64 \<Longrightarrow> w' < 2 ^ 64 \<Longrightarrow> checkpoint_key w = checkpoint_key w' \<longleftrightarrow> w = w'"
  using key_worker_key by (metis option.inject)

definition cp_dec :: "bytes \<Rightarrow> checkpoint result" where
  "cp_dec bs = (if bs = [1] then Inr \<lparr>cp_owned = [(''a'', 1)], cp_transit = []\<rparr>
     else if bs = [2] then Inr \<lparr>cp_owned = [(''a'', 3)], cp_transit = [(''b'', (2, 4))]\<rparr>
     else Inl ''not a checkpoint'')"

definition cp_store :: mem where
  "cp_store = mem_put (checkpoint_key 2) [1] (mem_put (checkpoint_key 5) [2] mem_empty)"

lemma cp_store_wf: "mem_wf cp_store"
  by (simp add: cp_store_def)

lemma cp_decodes: "decodes_maps cp_dec"
  by (simp add: decodes_maps_def cp_dec_def split: if_splits)

lemma cp_claims: "claims cp_dec cp_store ''a'' = {Owned 2 1, Owned 5 3}"
proof -
  have get: "mem_get cp_store k = (if k = checkpoint_key 2 then Some [1] else if k = checkpoint_key 5 then Some [2] else None)" for k
    by (simp add: cp_store_def mem_empty_def mem_get_def[of "mem_empty"]) (simp add: mem_get_def mem_empty_def)
  have "key_claims cp_dec ''a'' cp_store k = (if k = checkpoint_key 2 then [Owned 2 1] else if k = checkpoint_key 5 then [Owned 5 3] else [])" for k
    using checkpoint_key_inj[of 2 5] by (auto simp: key_claims_def get claims_of_def cp_dec_def split: option.split)
  then show ?thesis using checkpoint_key_inj[of 2 5] by (auto simp: claims_def split: if_splits intro: exI[of _ "checkpoint_key 5"])
qed

lemma durable_claim_highest_witness: "fst (run_io (durable_claim cp_dec ''a'') cp_store) = Owned 5 3"
  using durable_claim_highest[OF cp_store_wf, of cp_dec "''a''"] by (auto simp: Let_def cp_claims less_eq_prod_def)

lemma boot_keeps_highest_claim_witness:
  "\<exists>b. run_io (boot_placement cp_dec) cp_store = (Inr b, cp_store) \<and> map_of (bo_gens b) ''a'' = Some (5, 3)"
  using boot_keeps_highest_claim[OF cp_store_wf cp_decodes, of "''a''"] by (auto simp: cp_claims)

end
