(* ===== verification/Worker_State.thy ===== *)
theory Worker_State
  imports Checkpoints Rpc Delta Limits
begin

text \<open>
  The state of a logical worker, from \<open>src/src/worker.rs\<close>: its queues, parked transactions, boat state,
  ownership ledger and parked polls in one record, with the parts of the node its handlers touch
  (routing, clock, disk ledger). A handler is a function from the state to a new state, or a store
  program returning one. What it sends (replies, spawned tasks) is appended to the outbox \<open>wk_out\<close>;
  reply channels are numbers, and \<open>wk_gone\<close> are those whose receiver has vanished. SQLite, the
  files under the connections (\<open>en_disk\<close> is what the file system says of a path) and the codecs are the
  functions of an \<open>engine\<close>. Hash maps and sets
  are lists in key order, so where the code walks one, the model walks it in that order.
\<close>

section \<open>Data\<close>

datatype queue_entry = TxnEntry nat | TakeEntry nat nat

record poll_opts =
  po_durable :: bool
  po_baseline :: "string option"
  po_conn :: nat
  po_frame :: nat

record 'v pending_poll =
  pp_conn :: nat
  pp_frame :: nat
  pp_sql :: string
  pp_params :: "'v list"
  pp_durable :: bool
  pp_baseline :: "string option"
  pp_resp :: nat

datatype taken_result = Got transfer_meta | AlreadyLocal | TakenFailed string

record 'v parked =
  pk_participants :: "string list"
  pk_ops :: "'v op list"
  pk_read_only :: bool
  pk_optimistic :: bool
  pk_poll :: "poll_opts option"
  pk_cap :: "capability option"
  pk_resp :: nat
  pk_acquired :: nat
  pk_taking :: bool
  pk_activating :: bool
  pk_crossed :: bool

record tenure =
  me_arrived_at :: nat
  me_return_to :: "nat option"
  me_visit :: "visit_info option"

type_synonym 'v waiter = "nat \<times> 'v txn_response"

record 'v applied_txn =
  at_participants :: "string list"
  at_waiter :: "'v waiter option"

datatype ship_payload = ShipSnapshot bytes bool | ShipDelta u32 bytes

record ship_item =
  si_object :: string
  si_payload :: ship_payload
  si_expected_seq :: u64

datatype 'v event =
    Reply nat "api_error + 'v txn_response"
  | TakeReply nat "take_error + transfer_meta"
  | LaunchShip "ship_item list" "'v waiter list"
  | SpawnTake nat string
  | SpawnActivation nat string bool
  | SpawnAdopt nat string transfer_meta
  | ShedWorker nat
  | FlushedReply nat
  | StatsReply nat nat nat nat

text \<open>What SQLite asks its authorizer about, and the gate a capability puts there.\<close>

datatype auth_action = ActInsert | ActUpdate | ActDelete | ActRead | ActSelect | ActFunction | ActTransaction
  | ActSavepoint | ActRecursive | ActPragma | ActAttach | ActDetach | ActOther

definition cap_gate :: "capability \<Rightarrow> string \<Rightarrow> auth_action \<Rightarrow> bool" where
  "cap_gate cap ob act = (case act of
     ActInsert \<Rightarrow> allows cap ob ''insert''
   | ActUpdate \<Rightarrow> allows cap ob ''update''
   | ActDelete \<Rightarrow> allows cap ob ''delete''
   | ActRead \<Rightarrow> list_ex (allows cap ob) [''read'', ''insert'', ''update'', ''delete'', ''ddl'']
   | ActSelect \<Rightarrow> True | ActFunction \<Rightarrow> True | ActTransaction \<Rightarrow> True | ActSavepoint \<Rightarrow> True | ActRecursive \<Rightarrow> True
   | ActPragma \<Rightarrow> False | ActAttach \<Rightarrow> False | ActDetach \<Rightarrow> False
   | ActOther \<Rightarrow> allows cap ob ''ddl'')"

record ('c, 'v) engine =
  en_open :: "bytes \<Rightarrow> 'c result"
  en_file :: "string \<Rightarrow> 'c \<Rightarrow> bytes option"
  en_run :: "'c \<Rightarrow> string \<Rightarrow> 'v list \<Rightarrow> (string + 'v op_result) \<times> 'c"
  en_readonly :: "'c \<Rightarrow> string \<Rightarrow> bool result"
  en_begin :: "'c \<Rightarrow> unit result \<times> 'c"
  en_commit :: "'c \<Rightarrow> unit result \<times> 'c"
  en_rollback :: "'c \<Rightarrow> 'c"
  en_authorize :: "(auth_action \<Rightarrow> bool) option \<Rightarrow> 'c \<Rightarrow> 'c"
  en_json :: "'v op_result list \<Rightarrow> bytes"
  en_page_hash :: "bytes \<Rightarrow> u64"
  en_encode :: "checkpoint \<Rightarrow> bytes"
  en_decode :: "bytes \<Rightarrow> checkpoint result"
  en_disk :: "string \<Rightarrow> nat option"

record ('c, 'v) wrk =
  wk_id :: nat
  wk_dir :: string
  wk_owned :: "(string \<times> nat) list"
  wk_transit :: "(string \<times> (nat \<times> nat)) list"
  wk_live :: "(string \<times> 'c) list"
  wk_meta :: "(string \<times> tenure) list"
  wk_queues :: "(string \<times> queue_entry list) list"
  wk_parked :: "(nat \<times> 'v parked) list"
  wk_next_txn :: nat
  wk_executed :: nat
  wk_dirty :: "(string \<times> nat) list"
  wk_dirty_bytes :: nat
  wk_pending :: "'v applied_txn list"
  wk_manifests :: "(string \<times> manifest) list"
  wk_log_seq :: "(string \<times> u64) list"
  wk_inflight :: "string list option"
  wk_polls :: "(string \<times> 'v pending_poll list) list"
  wk_needs_service :: "string list"
  wk_closing :: "nat option"
  wk_done :: bool
  wk_routing :: routing
  wk_disk :: ledger
  wk_clock :: nat
  wk_hysteresis :: nat
  wk_log_primary :: bool
  wk_max_boat :: nat
  wk_max_unshipped :: nat
  wk_gone :: "nat list"
  wk_out :: "'v event list"

section \<open>Small operations\<close>

definition emit :: "'v event \<Rightarrow> ('c, 'v) wrk \<Rightarrow> ('c, 'v) wrk" where
  "emit e w = w\<lparr>wk_out := wk_out w @ [e]\<rparr>"

definition emit_all :: "'v event list \<Rightarrow> ('c, 'v) wrk \<Rightarrow> ('c, 'v) wrk" where
  "emit_all es w = w\<lparr>wk_out := wk_out w @ es\<rparr>"

definition owns :: "('c, 'v) wrk \<Rightarrow> string \<Rightarrow> bool" where
  "owns w ob \<longleftrightarrow> owner_of (wk_routing w) ob = wk_id w"

definition live_path :: "('c, 'v) wrk \<Rightarrow> string \<Rightarrow> string" where
  "live_path w ob = wk_dir w @ ''/'' @ ob @ ''.db''"

definition unshipped :: "('c, 'v) wrk \<Rightarrow> string \<Rightarrow> bool" where
  "unshipped w ob \<longleftrightarrow> map_of (wk_dirty w) ob \<noteq> None \<or> (case wk_inflight w of Some boat \<Rightarrow> ob \<in> set boat | None \<Rightarrow> False)"

definition fail_polls :: "string \<Rightarrow> string \<Rightarrow> ('c, 'v) wrk \<Rightarrow> ('c, 'v) wrk" where
  "fail_polls ob reason w = (case map_of (wk_polls w) ob of
     Some ps \<Rightarrow> emit_all (map (\<lambda>p. Reply (pp_resp p) (Inl (internal reason))) ps) (w\<lparr>wk_polls := bt_remove ob (wk_polls w)\<rparr>)
   | None \<Rightarrow> w)"

text \<open>\<open>object.rs\<close>: opening the working copy, dropping the connection, dropping the file too.\<close>

definition materialize :: "('c, 'v) engine \<Rightarrow> string \<Rightarrow> bytes \<Rightarrow> ('c, 'v) wrk \<Rightarrow> ('c, 'v) wrk result" where
  "materialize en ob img w = res_bind (en_open en img) (\<lambda>c. Inr (w\<lparr>wk_live := bt_insert ob c (wk_live w)\<rparr>))"

definition evict :: "string \<Rightarrow> ('c, 'v) wrk \<Rightarrow> ('c, 'v) wrk" where
  "evict ob w = w\<lparr>wk_live := bt_remove ob (wk_live w)\<rparr>"

definition purge :: "string \<Rightarrow> ('c, 'v) wrk \<Rightarrow> ('c, 'v) wrk" where
  "purge ob w = w\<lparr>wk_live := bt_remove ob (wk_live w)\<rparr>"

text \<open>The removal of a dirty entry keeps the byte count.\<close>

definition undirty :: "string \<Rightarrow> ('c, 'v) wrk \<Rightarrow> ('c, 'v) wrk" where
  "undirty ob w = (case map_of (wk_dirty w) ob of
     Some n \<Rightarrow> w\<lparr>wk_dirty := bt_remove ob (wk_dirty w), wk_dirty_bytes := wk_dirty_bytes w - n\<rparr>
   | None \<Rightarrow> w)"

text \<open>The size of the live file, zero when it cannot be read; a first write makes the object dirty at that size.\<close>

definition live_size :: "('c, 'v) engine \<Rightarrow> ('c, 'v) wrk \<Rightarrow> string \<Rightarrow> nat" where
  "live_size en w ob = (case map_of (wk_live w) ob of
     Some c \<Rightarrow> (case en_file en ob c of Some f \<Rightarrow> length f | None \<Rightarrow> 0) | None \<Rightarrow> 0)"

definition enforce_disk :: "('c, 'v) wrk \<Rightarrow> ('c, 'v) wrk" where
  "enforce_disk w = (let (e, disk) = enforce (wk_disk w); w = w\<lparr>wk_disk := disk\<rparr>
     in case shed_from_worker e of Some k \<Rightarrow> emit (ShedWorker k) w | None \<Rightarrow> w)"

section \<open>Polls\<close>

definition poll_hash :: "('c, 'v) engine \<Rightarrow> 'v op_result list \<Rightarrow> string" where
  "poll_hash en results = hex (be_bytes 8 (unat (fnv1a (en_json en results))))"

definition poll_ready :: "string option \<Rightarrow> 'v op_result list \<Rightarrow> string \<Rightarrow> bool" where
  "poll_ready baseline results h = (case baseline of
     Some b \<Rightarrow> b \<noteq> h
   | None \<Rightarrow> (case results of Rows rows # _ \<Rightarrow> rows \<noteq> [] | _ \<Rightarrow> False))"

text \<open>One pass over an object's polls: those that fire, those that stay, the connection, and the errors sent.\<close>

fun fire_polls :: "('c, 'v) engine \<Rightarrow> nat list \<Rightarrow> nat \<Rightarrow> bool \<Rightarrow> nat \<Rightarrow> 'v pending_poll list \<Rightarrow> 'c
    \<Rightarrow> 'v waiter list \<times> 'v pending_poll list \<times> 'c \<times> 'v event list" where
  "fire_polls en gone w durable i [] c = ([], [], c, [])"
| "fire_polls en gone w durable i (p # ps) c =
     (if pp_resp p \<in> set gone then fire_polls en gone w durable (i + 1) ps c
      else if pp_durable p \<noteq> durable then
        (let (fired, keep, c, es) = fire_polls en gone w durable (i + 1) ps c in (fired, p # keep, c, es))
      else (case en_run en c (pp_sql p) (pp_params p) of
          (Inr r, c) \<Rightarrow>
            let h = poll_hash en [r]; (fired, keep, c, es) = fire_polls en gone w durable (i + 1) ps c
            in if poll_ready (pp_baseline p) [r] h
               then ((pp_resp p, \<lparr>tr_txn_id = ''w'' @ show_nat w @ ''-poll-'' @ show_nat i, tr_results = [r], tr_hash = Some h\<rparr>) # fired, keep, c, es)
               else (fired, p # keep, c, es)
        | (Inl e, c) \<Rightarrow>
            let (fired, keep, c, es) = fire_polls en gone w durable (i + 1) ps c
            in (fired, keep, c, Reply (pp_resp p) (Inl (bad_request e)) # es)))"

definition take_fired_polls :: "('c, 'v) engine \<Rightarrow> string \<Rightarrow> bool \<Rightarrow> ('c, 'v) wrk \<Rightarrow> 'v waiter list \<times> ('c, 'v) wrk" where
  "take_fired_polls en ob durable w = (case map_of (wk_polls w) ob of
     None \<Rightarrow> ([], w)
   | Some ps \<Rightarrow> (case map_of (wk_live w) ob of
       None \<Rightarrow> ([], w)
     | Some c \<Rightarrow>
         let (fired, keep, c, es) = fire_polls en (wk_gone w) (wk_id w) durable 0 ps c
         in (fired, emit_all es (w\<lparr>wk_live := bt_insert ob c (wk_live w),
               wk_polls := (if keep = [] then bt_remove ob (wk_polls w) else bt_insert ob keep (wk_polls w))\<rparr>))))"

text \<open>Sending what fired.\<close>

definition answer :: "'v waiter list \<Rightarrow> ('c, 'v) wrk \<Rightarrow> ('c, 'v) wrk" where
  "answer ws w = emit_all (map (\<lambda>(resp, r). Reply resp (Inr r)) ws) w"

definition refuse :: "string \<Rightarrow> 'v waiter list \<Rightarrow> ('c, 'v) wrk \<Rightarrow> ('c, 'v) wrk" where
  "refuse msg ws w = emit_all (map (\<lambda>(resp, _). Reply resp (Inl (internal msg))) ws) w"

end
