(* ===== verification/Components.thy ===== *)
theory Components
  imports Prelude
begin

text \<open>
  \<open>txn_components\<close> of \<open>src/src/worker.rs\<close>: transactions that share an object are grouped by a union-find
  with path compression. The loop in \<open>find\<close> ends only because the parents form a forest, so \<open>find\<close>
  is partial (\<open>None\<close> for a walk that never ends), and the proof that it always answers is part of the
  correctness of the grouping: the groups are exactly the connected components of the
  sharing relation, in order of first appearance.
\<close>

section \<open>The code\<close>

partial_function (option) uf_find :: "nat list \<Rightarrow> nat \<Rightarrow> (nat \<times> nat list) option" where
  "uf_find p i =
     (if p ! i \<noteq> i then Option.bind (uf_find p (p ! i)) (\<lambda>(r, p). let p = p[i := r] in Some (p ! i, p))
      else Some (p ! i, p))"

lemmas [code] = uf_find.simps

fun join_objects :: "nat \<Rightarrow> string list \<Rightarrow> nat list \<times> (string \<times> nat) list \<Rightarrow> (nat list \<times> (string \<times> nat) list) option" where
  "join_objects i [] (p, seen_at) = Some (p, seen_at)"
| "join_objects i (ob # obs) (p, seen_at) = (case map_of seen_at ob of
     Some j \<Rightarrow> Option.bind (uf_find p i) (\<lambda>(a, p). Option.bind (uf_find p j) (\<lambda>(b, p).
       join_objects i obs (p[a := b], seen_at)))
   | None \<Rightarrow> join_objects i obs (p, (ob, i) # seen_at))"

fun join_txns :: "nat \<Rightarrow> string list list \<Rightarrow> nat list \<times> (string \<times> nat) list \<Rightarrow> (nat list \<times> (string \<times> nat) list) option" where
  "join_txns i [] st = Some st"
| "join_txns i (obs # rest) st = Option.bind (join_objects i obs st) (join_txns (i + 1) rest)"

fun group_roots :: "nat list \<Rightarrow> nat list \<Rightarrow> (nat \<times> nat) list \<Rightarrow> nat list list \<Rightarrow> nat list list option" where
  "group_roots [] p slots comps = Some comps"
| "group_roots (i # ks) p slots comps = Option.bind (uf_find p i) (\<lambda>(r, p). case map_of slots r of
     Some k \<Rightarrow> group_roots ks p slots (comps[k := comps ! k @ [i]])
   | None \<Rightarrow> group_roots ks p ((r, length comps) # slots) (comps @ [[i]]))"

definition txn_components :: "string list list \<Rightarrow> nat list list option" where
  "txn_components txns = Option.bind (join_txns 0 txns ([0..<length txns], [])) (\<lambda>(p, _).
     group_roots [0..<length txns] p [] [])"

section \<open>Forests of parents\<close>

inductive root :: "nat list \<Rightarrow> nat \<Rightarrow> nat \<Rightarrow> bool" where
  here: "p ! i = i \<Longrightarrow> root p i i"
| up: "p ! i \<noteq> i \<Longrightarrow> root p (p ! i) r \<Longrightarrow> root p i r"

inductive_cases rootE: "root p i r"

lemma root_top: "root p i r \<Longrightarrow> p ! r = r"
  by (induction rule: root.induct)

lemma root_unique: "root p i r \<Longrightarrow> root p i r' \<Longrightarrow> r = r'"
  by (induction rule: root.induct) (auto elim: rootE)

definition forest :: "nat \<Rightarrow> nat list \<Rightarrow> bool" where
  "forest n p \<longleftrightarrow> length p = n \<and> (\<forall>i < n. p ! i < n \<and> (\<exists>r. root p i r))"

lemma forest_root: "forest n p \<Longrightarrow> i < n \<Longrightarrow> \<exists>r. root p i r"
  by (simp add: forest_def)

lemma root_bound: "root p i r \<Longrightarrow> forest n p \<Longrightarrow> i < n \<Longrightarrow> r < n"
  by (induction rule: root.induct) (auto simp: forest_def)

text \<open>Writing the root of a node over its parent changes no root; writing a root over a root joins two trees.\<close>

lemma root_compress:
  "root p j x \<Longrightarrow> i < length p \<Longrightarrow> root p i r \<Longrightarrow> root (p[i := r]) j x"
proof (induction rule: root.induct)
  case (here p j)
  show ?case
  proof (cases "j = i")
    case True
    then have "r = i" using root_unique[OF root.here] here by metis
    then show ?thesis using True here by (auto intro: root.here)
  qed (use here in \<open>auto intro: root.here\<close>)
next
  case (up p j x)
  have top: "p ! r = r" using root_top up.prems(2) .
  show ?case
  proof (cases "j = i")
    case True
    then have "x = r" using root_unique[OF root.up[OF up.hyps]] up.prems(2) by blast
    moreover have "r \<noteq> i" using top up.hyps(1) True by auto
    ultimately show ?thesis using True top up.prems(1) by (auto intro!: root.up[of _ i] root.here)
  qed (use up in \<open>auto intro!: root.up[of _ j]\<close>)
qed

lemma root_join:
  "root p j x \<Longrightarrow> p ! a = a \<Longrightarrow> p ! b = b \<Longrightarrow> a < length p \<Longrightarrow> root (p[a := b]) j (if x = a then b else x)"
proof (induction rule: root.induct)
  case (here p j)
  show ?case
  proof (cases "j = a \<and> a \<noteq> b")
    case True
    then have "root (p[a := b]) b b" using here by (auto intro: root.here)
    then show ?thesis using True here by (auto intro: root.up[of _ a])
  qed (use here in \<open>auto intro: root.here\<close>)
next
  case (up p j x)
  then have "j \<noteq> a" by auto
  then show ?case using up by (auto intro!: root.up[of _ j])
qed

lemma forest_upd:
  assumes "forest n p" "i < n" "r < n" "\<And>j x. j < n \<Longrightarrow> root p j x \<Longrightarrow> root (p[i := r]) j (f x)"
  shows "forest n (p[i := r])" "j < n \<Longrightarrow> root (p[i := r]) j y \<longleftrightarrow> (\<exists>x. root p j x \<and> y = f x)"
proof -
  show "forest n (p[i := r])"
  proof -
    have "\<exists>y. root (p[i := r]) j y" if "j < n" for j using forest_root[OF assms(1) that] assms(4)[OF that] by blast
    then show ?thesis using assms(1,2,3) by (auto simp: forest_def nth_list_update)
  qed
  show "root (p[i := r]) j y \<longleftrightarrow> (\<exists>x. root p j x \<and> y = f x)" if "j < n"
    using forest_root[OF assms(1) that] assms(4)[OF that] root_unique by blast
qed

lemma find_answers:
  "root p i r \<Longrightarrow> forest n p \<Longrightarrow> i < n \<Longrightarrow>
   \<exists>p'. uf_find p i = Some (r, p') \<and> forest n p' \<and> (\<forall>j < n. \<forall>x. root p' j x \<longleftrightarrow> root p j x)"
proof (induction rule: root.induct)
  case (here p i)
  then show ?case by (subst uf_find.simps) simp
next
  case (up p i r)
  then obtain p1 where p1: "uf_find p (p ! i) = Some (r, p1)" "forest n p1" "\<And>j x. j < n \<Longrightarrow> root p1 j x \<longleftrightarrow> root p j x"
    by (auto simp: forest_def)
  have len: "length p1 = n" using p1(2) by (simp add: forest_def)
  have r: "root p1 i r" using p1(3)[OF up.prems(2)] root.up[OF up.hyps] by blast
  have keep: "root (p1[i := r]) j x" if "j < n" "root p1 j x" for j x
    using root_compress[OF that(2) _ r] len up.prems(2) by blast
  have rn: "r < n" using root_bound[OF r p1(2) up.prems(2)] .
  have "forest n (p1[i := r])" "\<forall>j < n. \<forall>x. root (p1[i := r]) j x \<longleftrightarrow> root p j x"
    using forest_upd[OF p1(2) up.prems(2) rn, of "\<lambda>x. x"] keep p1(3) by auto
  moreover have "uf_find p i = Some (r, p1[i := r])"
    using up.hyps(1) p1(1) len up.prems(2) by (subst uf_find.simps) (simp add: Let_def)
  ultimately show ?case by blast
qed

section \<open>Joining transactions that share an object\<close>

text \<open>\<open>M\<close>: the pairs of a transaction and an object seen so far.\<close>

definition sharing :: "(nat \<times> string) set \<Rightarrow> (nat \<times> nat) set" where
  "sharing M = {(i, j). \<exists>ob. (i, ob) \<in> M \<and> (j, ob) \<in> M}"

definition same_root :: "nat list \<Rightarrow> nat \<Rightarrow> nat \<Rightarrow> bool" where
  "same_root p i j \<longleftrightarrow> (\<exists>r. root p i r \<and> root p j r)"

definition joined :: "nat \<Rightarrow> (nat \<times> string) set \<Rightarrow> nat list \<times> (string \<times> nat) list \<Rightarrow> bool" where
  "joined n M = (\<lambda>(p, seen_at). forest n p \<and> M \<subseteq> {..<n} \<times> UNIV
     \<and> (\<forall>i < n. \<forall>j < n. same_root p i j \<longleftrightarrow> (i, j) \<in> (sharing M)\<^sup>*)
     \<and> (\<forall>ob j. map_of seen_at ob = Some j \<longrightarrow> (j, ob) \<in> M)
     \<and> (\<forall>i ob. (i, ob) \<in> M \<longrightarrow> map_of seen_at ob \<noteq> None))"

lemma sym_sharing: "sym ((sharing M)\<^sup>*)"
  by (intro sym_rtrancl) (auto simp: sym_def sharing_def)

lemma add_edge:
  assumes "sym (R\<^sup>*)"
  shows "(x, y) \<in> (R \<union> {(i, j), (j, i)})\<^sup>* \<longleftrightarrow>
    (x, y) \<in> R\<^sup>* \<or> (x, i) \<in> R\<^sup>* \<and> (j, y) \<in> R\<^sup>* \<or> (x, j) \<in> R\<^sup>* \<and> (i, y) \<in> R\<^sup>*" (is "_ \<longleftrightarrow> ?E x y")
proof
  assume "(x, y) \<in> (R \<union> {(i, j), (j, i)})\<^sup>*"
  then show "?E x y"
  proof (induction rule: rtrancl_induct)
    case (step y z)
    then show ?case
    proof (cases "(y, z) \<in> R")
      case True
      then show ?thesis using step.IH by (meson rtrancl.rtrancl_into_rtrancl)
    next
      case False
      then have "y = i \<and> z = j \<or> y = j \<and> z = i" using step.hyps by auto
      then show ?thesis using step.IH by auto
    qed
  qed simp
next
  let ?S = "R \<union> {(i, j), (j, i)}"
  have mono: "R\<^sup>* \<subseteq> ?S\<^sup>*" by (rule rtrancl_mono) auto
  have "(i, j) \<in> ?S\<^sup>*" "(j, i) \<in> ?S\<^sup>*" by auto
  then show "?E x y \<Longrightarrow> (x, y) \<in> ?S\<^sup>*" using mono by (meson rtrancl_trans subsetD)
qed

text \<open>A new pair whose object was seen at \<open>j\<close> adds the edge from \<open>i\<close> to \<open>j\<close>; a first one adds nothing.\<close>

lemma sharing_insert:
  assumes "(j, ob) \<in> M"
  shows "(sharing (insert (i, ob) M))\<^sup>* = (sharing M \<union> {(i, j), (j, i)})\<^sup>*"
proof (rule antisym)
  have "(x, y) \<in> (sharing M \<union> {(i, j), (j, i)})\<^sup>*" if xy: "(x, y) \<in> sharing (insert (i, ob) M)" for x y
  proof -
    let ?S = "(sharing M \<union> {(i, j), (j, i)})\<^sup>*"
    have via: "(z, j) \<in> ?S" "(j, z) \<in> ?S" if "(z, ob) \<in> insert (i, ob) M" for z
      using that assms by (auto simp: sharing_def intro!: r_into_rtrancl)
    show ?thesis
    proof (cases "(x, y) \<in> sharing M")
      case False
      then have "(x, ob) \<in> insert (i, ob) M" "(y, ob) \<in> insert (i, ob) M" using xy by (auto simp: sharing_def)
      then show ?thesis using via by (meson rtrancl_trans)
    qed auto
  qed
  then show "(sharing (insert (i, ob) M))\<^sup>* \<subseteq> (sharing M \<union> {(i, j), (j, i)})\<^sup>*"
    by (intro rtrancl_subset_rtrancl) auto
  show "(sharing M \<union> {(i, j), (j, i)})\<^sup>* \<subseteq> (sharing (insert (i, ob) M))\<^sup>*"
    using assms by (intro rtrancl_mono) (auto simp: sharing_def)
qed

lemma sharing_fresh:
  assumes "\<And>k. (k, ob) \<notin> M"
  shows "(sharing (insert (i, ob) M))\<^sup>* = (sharing M)\<^sup>*"
proof -
  have "sharing (insert (i, ob) M) \<subseteq> sharing M \<union> {(i, i)}" "sharing M \<subseteq> sharing (insert (i, ob) M)"
    using assms by (auto simp: sharing_def)
  moreover have "(sharing M \<union> {(i, i)})\<^sup>* = (sharing M)\<^sup>*"
    by (rule rtrancl_subset) auto
  ultimately show ?thesis using rtrancl_mono by blast
qed

lemma join_objects_joined:
  "joined n M st \<Longrightarrow> i < n \<Longrightarrow> \<exists>st'. join_objects i obs st = Some st' \<and> joined n (M \<union> {i} \<times> set obs) st'"
proof (induction obs arbitrary: st M)
  case Nil
  then show ?case by (cases st) simp
next
  case (Cons ob obs)
  obtain p seen where st: "st = (p, seen)" by force
  note J = Cons.prems(1)[unfolded st joined_def prod.case]
  have "\<exists>st1. join_objects i (ob # obs) st = join_objects i obs st1 \<and> joined n (insert (i, ob) M) st1"
  proof (cases "map_of seen ob")
    case None
    then have "joined n (insert (i, ob) M) (p, (ob, i) # seen)"
    proof -
      have "\<And>k. (k, ob) \<notin> M" using J None by (metis option.distinct(1))
      note fresh = sharing_fresh[OF this, of i]
      show ?thesis using J Cons.prems(2) unfolding joined_def prod.case fresh by auto
    qed
    then show ?thesis using None by (auto simp: st)
  next
    case (Some j)
    have jM: "(j, ob) \<in> M" using J Some by blast
    then have "j < n" using J by blast
    note jM = jM this
    obtain a b where a: "root p i a" and b: "root p j b" using J Cons.prems(2) jM(2) by (meson forest_root)
    obtain p1 where p1: "uf_find p i = Some (a, p1)" "forest n p1" "\<And>k x. k < n \<Longrightarrow> root p1 k x \<longleftrightarrow> root p k x"
      using find_answers[OF a _ Cons.prems(2)] J by metis
    obtain p2 where p2: "uf_find p1 j = Some (b, p2)" "forest n p2" "\<And>k x. k < n \<Longrightarrow> root p2 k x \<longleftrightarrow> root p1 k x"
      using find_answers[of p1 j b n] b p1(2,3) jM(2) by metis
    have ab: "root p2 i a" "root p2 j b" "a < n" "b < n"
      using a b p1(3) p2(3) jM(2) Cons.prems(2) J root_bound by blast+
    have len: "length p2 = n" using p2(2) by (simp add: forest_def)
    have up: "root (p2[a := b]) k (if x = a then b else x)" if "k < n" "root p2 k x" for k x
      using root_join[OF that(2) root_top[OF ab(1)] root_top[OF ab(2)]] ab(3) len by simp
    have new: "forest n (p2[a := b])" "\<And>k y. k < n \<Longrightarrow> root (p2[a := b]) k y \<longleftrightarrow> (\<exists>x. root p2 k x \<and> y = (if x = a then b else x))"
      using forest_upd[OF p2(2) ab(3,4), of "\<lambda>x. if x = a then b else x"] up by blast+
    have same: "same_root (p2[a := b]) x y \<longleftrightarrow> same_root p x y \<or> same_root p x i \<and> same_root p j y \<or> same_root p x j \<and> same_root p i y"
      if xy: "x < n" "y < n" for x y
    proof -
      obtain rx ry where r: "root p x rx" "root p y ry" using J xy by (meson forest_root)
      have old: "root p2 x z \<longleftrightarrow> z = rx" "root p2 y z \<longleftrightarrow> z = ry" for z
        using r p1(3) p2(3) xy root_unique by blast+
      have sr: "same_root p u v \<longleftrightarrow> ru = rv" if "root p u ru" "root p v rv" for u v ru rv
        using that root_unique unfolding same_root_def by blast
      have "same_root (p2[a := b]) x y \<longleftrightarrow> (if rx = a then b else rx) = (if ry = a then b else ry)"
        unfolding same_root_def new(2)[OF xy(1)] new(2)[OF xy(2)] old by auto
      then show ?thesis
        unfolding sr[OF r] sr[OF r(1) a] sr[OF b r(2)] sr[OF r(1) b] sr[OF a r(2)] by auto
    qed
    have "joined n (insert (i, ob) M) (p2[a := b], seen)"
      using J new(1) Cons.prems(2) jM same add_edge[OF sym_sharing, of _ _ M i j]
      by (auto simp: joined_def sharing_insert[OF jM(1)])
    then show ?thesis using Some p1(1) p2(1) by (auto simp: st)
  qed
  then obtain st1 where st1: "join_objects i (ob # obs) st = join_objects i obs st1" "joined n (insert (i, ob) M) st1" by blast
  have "insert (i, ob) M \<union> {i} \<times> set obs = M \<union> {i} \<times> set (ob # obs)" by auto
  then show ?case using Cons.IH[OF st1(2) Cons.prems(2)] st1(1) by simp
qed

definition pairs_from :: "nat \<Rightarrow> string list list \<Rightarrow> (nat \<times> string) set" where
  "pairs_from k txns = {(i, ob). k \<le> i \<and> i < k + length txns \<and> ob \<in> set (txns ! (i - k))}"

lemma pairs_from_Cons: "pairs_from k (obs # rest) = {k} \<times> set obs \<union> pairs_from (k + 1) rest"
proof -
  have "(i, ob) \<in> pairs_from k (obs # rest) \<longleftrightarrow> i = k \<and> ob \<in> set obs \<or> (i, ob) \<in> pairs_from (k + 1) rest" for i ob
    by (cases "i = k") (auto simp: pairs_from_def nth_Cons')
  then show ?thesis by auto
qed

lemma join_txns_joined:
  "joined n M st \<Longrightarrow> i + length txns \<le> n \<Longrightarrow> \<exists>st'. join_txns i txns st = Some st' \<and> joined n (M \<union> pairs_from i txns) st'"
proof (induction txns arbitrary: i st M)
  case Nil
  have "pairs_from i [] = {}" by (auto simp: pairs_from_def)
  then show ?case using Nil by simp
next
  case (Cons obs rest)
  obtain st1 where st1: "join_objects i obs st = Some st1" "joined n (M \<union> {i} \<times> set obs) st1"
    using join_objects_joined[OF Cons.prems(1), of i obs] Cons.prems(2) by auto
  from Cons.IH[OF st1(2), of "i + 1"] Cons.prems(2) st1(1) show ?case
    by (auto simp: pairs_from_Cons Un_assoc)
qed

section \<open>Listing the groups\<close>

lemma group_roots_groups:
  assumes "forest n p" "i + k = n" "distinct rs" "set rs = rt ` {..<i}" "\<And>j. j < n \<Longrightarrow> root p j (rt j)"
    "\<And>r. map_of slots r = (if r \<in> set rs then Some (THE k. k < length rs \<and> rs ! k = r) else None)"
  shows "\<exists>rs'. distinct rs' \<and> set rs' = rt ` {..<n}
    \<and> group_roots [i..<n] p slots (map (\<lambda>r. filter (\<lambda>j. rt j = r) [0..<i]) rs) = Some (map (\<lambda>r. filter (\<lambda>j. rt j = r) [0..<n]) rs')"
  using assms
proof (induction k arbitrary: i p slots rs)
  case 0
  then show ?case by auto
next
  case (Suc k)
  have i: "i < n" "[i..<n] = i # [Suc i..<n]" "Suc i + k = n" using Suc.prems(2) by (auto simp: upt_conv_Cons)
  obtain p1 where p1: "uf_find p i = Some (rt i, p1)" "forest n p1" "\<And>j x. j < n \<Longrightarrow> root p1 j x \<longleftrightarrow> root p j x"
    using find_answers[OF Suc.prems(5)[OF i(1)] Suc.prems(1) i(1)] by blast
  have rt1: "\<And>j. j < n \<Longrightarrow> root p1 j (rt j)" using p1(3) Suc.prems(5) by blast
  have lt: "{..<Suc i} = insert i {..<i}" by auto
  let ?g = "\<lambda>m r. filter (\<lambda>j. rt j = r) [0..<m]"
  show ?case
  proof (cases "rt i \<in> set rs")
    case True
    then obtain k where k: "k < length rs" "rs ! k = rt i" by (auto simp: in_set_conv_nth)
    moreover have "k' = k" if "k' < length rs \<and> rs ! k' = rt i" for k'
      using that k Suc.prems(3) by (metis nth_eq_iff_index_eq)
    ultimately have "(THE k. k < length rs \<and> rs ! k = rt i) = k" by blast
    then have slot: "map_of slots (rt i) = Some k" using True Suc.prems(6) by simp
    have "(map (?g i) rs)[k := map (?g i) rs ! k @ [i]] = map (?g (Suc i)) rs"
      using k Suc.prems(3) by (intro nth_equalityI) (auto simp: nth_list_update nth_eq_iff_index_eq)
    then have step: "group_roots [i..<n] p slots (map (?g i) rs) = group_roots [Suc i..<n] p1 slots (map (?g (Suc i)) rs)"
      using i(2) p1(1) slot by simp
    have "set rs = rt ` {..<Suc i}" using True Suc.prems(4) by (simp add: lt insert_absorb)
    then show ?thesis unfolding step by (rule Suc.IH[OF p1(2) i(3) Suc.prems(3) _ rt1 Suc.prems(6)])
  next
    case False
    have slots: "map_of ((rt i, length (map (?g i) rs)) # slots) r =
        (if r \<in> set (rs @ [rt i]) then Some (THE k. k < length (rs @ [rt i]) \<and> (rs @ [rt i]) ! k = r) else None)" for r
    proof (cases "r = rt i")
      case True
      have "(THE k. k < length (rs @ [rt i]) \<and> (rs @ [rt i]) ! k = r) = length rs"
        using True False by (intro the_equality) (auto simp: nth_append in_set_conv_nth split: if_splits)
      then show ?thesis using True by simp
    next
      case False
      have "(\<lambda>k. k < length (rs @ [rt i]) \<and> (rs @ [rt i]) ! k = r) = (\<lambda>k. k < length rs \<and> rs ! k = r)"
        using False by (auto simp: fun_eq_iff nth_append)
      then show ?thesis using False Suc.prems(6)[of r] by simp
    qed
    have "rt j \<noteq> rt i" if "j < i" for j using False Suc.prems(4) that by (metis image_eqI lessThan_iff)
    then have "?g i (rt i) = []" by (auto simp: filter_empty_conv)
    moreover have "map (?g (Suc i)) rs = map (?g i) rs" using False by auto
    ultimately have g: "map (?g (Suc i)) (rs @ [rt i]) = map (?g i) rs @ [[i]]" by simp
    have d: "distinct (rs @ [rt i])" "set (rs @ [rt i]) = rt ` {..<Suc i}" using False Suc.prems(3,4) by (simp_all add: lt)
    have "map_of slots (rt i) = None" using False Suc.prems(6)[of "rt i"] by simp
    then have step: "group_roots [i..<n] p slots (map (?g i) rs)
        = group_roots [Suc i..<n] p1 ((rt i, length (map (?g i) rs)) # slots) (map (?g (Suc i)) (rs @ [rt i]))"
      unfolding g using i(2) p1(1) by simp
    show ?thesis unfolding step by (rule Suc.IH[OF p1(2) i(3) d rt1 slots])
  qed
qed

section \<open>The groups are the connected components\<close>

definition linked :: "string list list \<Rightarrow> nat \<Rightarrow> nat \<Rightarrow> bool" where
  "linked txns i j \<longleftrightarrow> i < length txns \<and> j < length txns \<and> set (txns ! i) \<inter> set (txns ! j) \<noteq> {}"

lemma sharing_linked:
  assumes "i < length txns"
  shows "(i, j) \<in> (sharing (pairs_from 0 txns))\<^sup>* \<longleftrightarrow> (linked txns)\<^sup>*\<^sup>* i j"
proof -
  have "(x, y) \<in> sharing (pairs_from 0 txns) \<longleftrightarrow> linked txns x y" for x y
    by (auto simp: sharing_def pairs_from_def linked_def)
  then have "sharing (pairs_from 0 txns) = {(x, y). linked txns x y}" by auto
  then show ?thesis by (simp add: rtranclp_rtrancl_eq)
qed

text \<open>Grouping the pending transactions always ends, and its groups are exactly the connected components of
  sharing an object: every transaction is in one group, and two are in the same group if and
  only if a chain of transactions with common objects links them.\<close>

theorem components_are_connected:
  "\<exists>cs. txn_components txns = Some cs \<and> distinct (concat cs) \<and> set (concat cs) = {..<length txns} \<and> [] \<notin> set cs
    \<and> (\<forall>c \<in> set cs. sorted c)
    \<and> (\<forall>i < length txns. \<forall>j < length txns. (\<exists>c \<in> set cs. i \<in> set c \<and> j \<in> set c) \<longleftrightarrow> (linked txns)\<^sup>*\<^sup>* i j)"
proof -
  let ?n = "length txns"
  have "forest ?n [0..<?n]" "\<And>i. i < ?n \<Longrightarrow> root [0..<?n] i i" by (auto simp: forest_def intro!: exI root.here)
  then have "same_root [0..<?n] i j \<longleftrightarrow> i = j" if "i < ?n" "j < ?n" for i j
    using that root_unique unfolding same_root_def by blast
  moreover have "forest ?n [0..<?n]" by fact
  ultimately have "joined ?n {} ([0..<?n], [])" by (auto simp: joined_def sharing_def)
  then obtain p seen where p: "join_txns 0 txns ([0..<?n], []) = Some (p, seen)" "joined ?n (pairs_from 0 txns) (p, seen)"
    using join_txns_joined[of ?n "{}" _ 0 txns] by fastforce
  define rt where "rt j = (THE r. root p j r)" for j
  have f: "forest ?n p" using p(2) by (simp add: joined_def)
  have rt: "root p j (rt j)" if "j < ?n" for j
    using forest_root[OF f that] root_unique theI'[of "root p j"] unfolding rt_def by metis
  obtain rs where rs: "distinct rs" "set rs = rt ` {..<?n}"
    "group_roots [0..<?n] p [] [] = Some (map (\<lambda>r. filter (\<lambda>j. rt j = r) [0..<?n]) rs)"
    using group_roots_groups[OF f, of 0 ?n "[]" rt "[]"] rt by auto
  let ?cs = "map (\<lambda>r. filter (\<lambda>j. rt j = r) [0..<?n]) rs"
  have "txn_components txns = Some ?cs" using p(1) rs(3) by (simp add: txn_components_def)
  moreover have "distinct (concat ?cs)"
    using rs(1) by (induction rs) (auto intro: distinct_filter)
  moreover have "set (concat ?cs) = {..<?n}" using rs(2) by auto
  moreover have "[] \<notin> set ?cs"
  proof
    assume "[] \<in> set ?cs"
    then obtain r where r: "r \<in> set rs" "filter (\<lambda>j. rt j = r) [0..<?n] = []" by auto
    then obtain j where "j < ?n" "rt j = r" using rs(2) by auto
    then show False using r(2) by (auto simp: filter_empty_conv)
  qed
  moreover have "\<forall>c \<in> set ?cs. sorted c" by (auto intro: sorted_wrt_filter)
  moreover have "(\<exists>c \<in> set ?cs. i \<in> set c \<and> j \<in> set c) \<longleftrightarrow> (linked txns)\<^sup>*\<^sup>* i j" if "i < ?n" "j < ?n" for i j
  proof -
    have "(\<exists>c \<in> set ?cs. i \<in> set c \<and> j \<in> set c) \<longleftrightarrow> rt i = rt j" using that rs(2) by auto
    also have "... \<longleftrightarrow> same_root p i j" 
      using rt[OF that(1)] rt[OF that(2)] root_unique unfolding same_root_def by metis
    also have "... \<longleftrightarrow> (linked txns)\<^sup>*\<^sup>* i j"
      using p(2) that sharing_linked[OF that(1)] by (simp add: joined_def)
    finally show ?thesis .
  qed
  ultimately show ?thesis by blast
qed

lemma components_are_connected_witness:
  "\<exists>cs. txn_components [[''a'', ''b''], [''c''], [''b'']] = Some cs \<and> (\<exists>c \<in> set cs. 0 \<in> set c \<and> 2 \<in> set c)"
proof -
  let ?txns = "[[''a'', ''b''], [''c''], [''b'']]"
  have "linked ?txns 0 2" by (simp add: linked_def)
  then have "(linked ?txns)\<^sup>*\<^sup>* 0 2" "0 < length ?txns" "2 < length ?txns" by auto
  then show ?thesis using components_are_connected[of ?txns] by blast
qed

end
