(* ===== verification/Boats.thy ===== *)
theory Boats
  imports Worker_State Components
begin

text \<open>
  Boats of \<open>src/src/worker.rs\<close>: which locally committed transactions ship together
  (\<open>maybe_launch\<close>), in what form an object ships (\<open>ship_payload\<close>), and how a revert takes every
  transaction with it that touched reverted state (\<open>revert_closure\<close>). The invariant \<open>boats_wf\<close> says
  that an object is dirty exactly when a pending transaction changed it, that dirty objects are
  live, and that the byte count is the sum; it is what keeps \<open>maybe_launch\<close> from its \<open>expect\<close>.
\<close>

section \<open>Reverting\<close>

definition touches :: "string list \<Rightarrow> string list \<Rightarrow> bool" where
  "touches obs R \<longleftrightarrow> list_ex (\<lambda>p. p \<in> set R) obs"

definition add_all :: "string list \<Rightarrow> string list \<Rightarrow> string list" where
  "add_all obs R = fold List.insert obs R"

text \<open>One pass over the pending transactions, then passes until nothing grows.\<close>

definition revert_pass :: "string list list \<Rightarrow> string list \<Rightarrow> string list" where
  "revert_pass txns R = foldl (\<lambda>R obs. if touches obs R then add_all obs R else R) R txns"

lemma set_add_all [simp]: "set (add_all obs R) = set obs \<union> set R"
  by (induction obs arbitrary: R) (auto simp: add_all_def)

lemma length_add_all: "length R \<le> length (add_all obs R)"
proof (induction obs arbitrary: R)
  case (Cons a obs)
  have "length R \<le> length (List.insert a R)" by (simp add: List.insert_def)
  also have "... \<le> length (add_all obs (List.insert a R))" by (rule Cons.IH)
  finally show ?case by (simp add: add_all_def)
qed (simp add: add_all_def)

lemma add_all_grows: "distinct R \<Longrightarrow> distinct (add_all obs R)"
  by (induction obs arbitrary: R) (auto simp: add_all_def)

lemma revert_pass_grows:
  "set R \<subseteq> set (revert_pass txns R) \<and> set (revert_pass txns R) \<subseteq> set R \<union> \<Union> (set (map set txns))
    \<and> (distinct R \<longrightarrow> distinct (revert_pass txns R))"
proof (induction txns arbitrary: R)
  case (Cons obs txns)
  show ?case
    using Cons[of "if touches obs R then add_all obs R else R"] add_all_grows[of R obs]
    by (auto simp: revert_pass_def split: if_splits)
qed (simp add: revert_pass_def)

function revert_loop :: "string list list \<Rightarrow> string list \<Rightarrow> string list" where
  "revert_loop txns R =
     (let R' = revert_pass txns R in if set R' \<subseteq> set R then R else revert_loop txns R')"
  by auto
termination
proof (relation "measure (\<lambda>(txns, R). card (\<Union> (set (map set txns)) - set R))")
  fix txns R and R' :: "string list"
  assume R': "R' = revert_pass txns R" and new: "\<not> set R' \<subseteq> set R"
  have "\<Union> (set (map set txns)) - set R' \<subset> \<Union> (set (map set txns)) - set R"
    using revert_pass_grows[of R txns] R' new by auto
  then show "((txns, R'), (txns, R)) \<in> measure (\<lambda>(txns, R). card (\<Union> (set (map set txns)) - set R))"
    by (simp add: psubset_card_mono)
qed simp

declare revert_loop.simps [simp del]

definition revert_one :: "string \<Rightarrow> ('c, 'v) wrk \<Rightarrow> ('c, 'v) wrk" where
  "revert_one ob w =
     (let w = fail_polls ob ''state reverted; re-poll'' w;
          w = purge ob w;
          w = w\<lparr>wk_meta := bt_remove ob (wk_meta w), wk_manifests := bt_remove ob (wk_manifests w),
                wk_log_seq := bt_remove ob (wk_log_seq w)\<rparr>;
          w = undirty ob w;
          w = w\<lparr>wk_disk := ledger_remove (live_path w ob) (wk_disk w)\<rparr>
      in if map_of (wk_queues w) ob \<noteq> None then w\<lparr>wk_needs_service := wk_needs_service w @ [ob]\<rparr> else w)"

definition reverted :: "string list \<Rightarrow> ('c, 'v) wrk \<Rightarrow> string list" where
  "reverted seed w = revert_loop (map at_participants (wk_pending w)) (remdups seed)"

definition revert_closure :: "string list \<Rightarrow> ('c, 'v) wrk \<Rightarrow> ('c, 'v) wrk" where
  "revert_closure seed w =
     (let R = reverted seed w;
          sunk = filter (\<lambda>t. touches (at_participants t) R) (wk_pending w);
          w = w\<lparr>wk_pending := filter (\<lambda>t. \<not> touches (at_participants t) R) (wk_pending w)\<rparr>;
          w = refuse ''state reverted; retry'' (List.map_filter at_waiter sunk) w
      in foldl (\<lambda>w ob. revert_one ob w) w (sort R))"

section \<open>What one object ships\<close>

definition delta_min_bytes :: nat where "delta_min_bytes = 64 * 1024"
definition compact_chain :: u32 where "compact_chain = 16"
definition compact_fraction_denom :: nat where "compact_fraction_denom = 3"

definition ship_payload :: "('c, 'v) engine \<Rightarrow> string \<Rightarrow> bytes \<Rightarrow> ('c, 'v) wrk \<Rightarrow> (ship_payload \<times> ('c, 'v) wrk) rust" where
  "ship_payload en ob bs w =
     (if wk_log_primary w then Ret (ShipSnapshot bs False, w)
      else if length bs < delta_min_bytes then Ret (ShipSnapshot bs (map_of (wk_manifests w) ob \<noteq> None), w)
      else (case map_of (wk_manifests w) ob of
          None \<Rightarrow> Ret (ShipSnapshot bs False,
            w\<lparr>wk_manifests := bt_insert ob (manifest_of (en_page_hash en) bs 0) (wk_manifests w)\<rparr>)
        | Some m \<Rightarrow> rust_bind (diff_file (en_page_hash en) m bs) (\<lambda>(d, m).
            let delta_size = sum_list (map (\<lambda>(_, p). length p) (d_pages d))
            in if compact_chain < m_chain_len m + 1 \<or> length bs div compact_fraction_denom < delta_size
               then Ret (ShipSnapshot bs True, w\<lparr>wk_manifests := bt_insert ob (m\<lparr>m_chain_len := 0\<rparr>) (wk_manifests w)\<rparr>)
               else Ret (ShipDelta (d_counter d) (encode_delta d),
                 w\<lparr>wk_manifests := bt_insert ob (m\<lparr>m_chain_len := m_chain_len m + 1\<rparr>) (wk_manifests w)\<rparr>))))"

section \<open>Cutting a boat\<close>

definition boat_components :: "'v applied_txn list \<Rightarrow> nat list list" where
  "boat_components pending = the (txn_components (map at_participants pending))"

definition objects_of :: "'v applied_txn list \<Rightarrow> nat list \<Rightarrow> string list" where
  "objects_of pending c = remdups (concat (map (\<lambda>i. at_participants (pending ! i)) c))"

definition bytes_of :: "(string \<times> nat) list \<Rightarrow> string list \<Rightarrow> nat" where
  "bytes_of dirty obs = sum_list (map (\<lambda>ob. case map_of dirty ob of Some n \<Rightarrow> n | None \<Rightarrow> 0) obs)"

record cut =
  ct_selected :: "nat list"
  ct_objects :: "string list"
  ct_bytes :: nat
  ct_leftover :: "nat list"

definition cut_step :: "nat \<Rightarrow> 'v applied_txn list \<Rightarrow> (string \<times> nat) list \<Rightarrow> cut \<Rightarrow> nat list \<Rightarrow> cut" where
  "cut_step limit pending dirty ct c =
     (let obs = objects_of pending c; n = bytes_of dirty obs
      in if ct_selected ct \<noteq> [] \<and> limit < ct_bytes ct + n then ct\<lparr>ct_leftover := ct_leftover ct @ c\<rparr>
         else ct\<lparr>ct_selected := ct_selected ct @ c, ct_objects := add_all obs (ct_objects ct), ct_bytes := ct_bytes ct + n\<rparr>)"

definition cut_boat :: "nat \<Rightarrow> 'v applied_txn list \<Rightarrow> (string \<times> nat) list \<Rightarrow> cut" where
  "cut_boat limit pending dirty =
     foldl (cut_step limit pending dirty) \<lparr>ct_selected = [], ct_objects = [], ct_bytes = 0, ct_leftover = []\<rparr> (boat_components pending)"

text \<open>Reading the files: \<open>None\<close> when one cannot be read, a panic when a dirty object is not live. The assertions of \<open>maybe_launch\<close>
  (an object shipped is owned, the dirty bytes add up, nothing is dirty with no transaction to ship) are taken as live, as in the simulator.\<close>

fun load_items :: "('c, 'v) engine \<Rightarrow> string list \<Rightarrow> ('c, 'v) wrk \<Rightarrow> (ship_item list option \<times> ('c, 'v) wrk) rust" where
  "load_items en [] w = Ret (Some [], w)"
| "load_items en (ob # obs) w = (if \<not> owns w ob then Panic else case map_of (wk_live w) ob of
     None \<Rightarrow> Panic
   | Some c \<Rightarrow> (case en_file en ob c of
       None \<Rightarrow> Ret (None, w)
     | Some bs \<Rightarrow> rust_bind (ship_payload en ob bs w) (\<lambda>(payload, w). rust_bind (load_items en obs w) (\<lambda>(items, w).
         Ret (map_option ((#) \<lparr>si_object = ob, si_payload = payload,
           si_expected_seq = (case map_of (wk_log_seq w) ob of Some q \<Rightarrow> q | None \<Rightarrow> 0)\<rparr>) items, w)))))"

definition snapshot_failed :: "string \<Rightarrow> ('c, 'v) wrk \<Rightarrow> ('c, 'v) wrk" where
  "snapshot_failed ob w =
     (let w = (if map_of (wk_queues w) ob \<noteq> None then w\<lparr>wk_needs_service := wk_needs_service w @ [ob]\<rparr> else w);
          w = fail_polls ob ''state reverted; re-poll'' w;
          w = purge ob w;
          w = w\<lparr>wk_disk := ledger_remove (live_path w ob) (wk_disk w)\<rparr>
      in w\<lparr>wk_meta := bt_remove ob (wk_meta w), wk_manifests := bt_remove ob (wk_manifests w)\<rparr>)"

fun fire_durable :: "('c, 'v) engine \<Rightarrow> string list \<Rightarrow> ('c, 'v) wrk \<Rightarrow> 'v waiter list \<times> ('c, 'v) wrk" where
  "fire_durable en [] w = ([], w)"
| "fire_durable en (ob # obs) w =
     (let (fired, w) = take_fired_polls en ob True w; (more, w) = fire_durable en obs w in (fired @ more, w))"

definition launch :: "('c, 'v) engine \<Rightarrow> ('c, 'v) wrk \<Rightarrow> ('c, 'v) wrk rust" where
  "launch en w =
     (let pending = wk_pending w;
          ct = cut_boat (wk_max_boat w) pending (wk_dirty w);
          waiters = List.map_filter at_waiter (map ((!) pending) (ct_selected ct));
          obs = sort (ct_objects ct);
          w = w\<lparr>wk_pending := map ((!) pending) (sort (ct_leftover ct))\<rparr>;
          w = foldl (\<lambda>w ob. undirty ob w) w obs
      in rust_bind (load_items en obs w) (\<lambda>(items, w). case items of
          None \<Rightarrow> Ret (refuse ''snapshot failed; state reverted'' waiters (foldl (\<lambda>w ob. snapshot_failed ob w) w obs))
        | Some items \<Rightarrow>
            let (fired, w) = fire_durable en obs w
            in Ret (emit (LaunchShip items (waiters @ fired)) (w\<lparr>wk_inflight := Some obs\<rparr>))))"

definition orphaned :: "('c, 'v) wrk \<Rightarrow> string list" where
  "orphaned w = filter (\<lambda>ob. \<not> owns w ob) (map fst (wk_dirty w))"

definition sailing :: "('c, 'v) wrk \<Rightarrow> ('c, 'v) wrk" where
  "sailing w = (if orphaned w \<noteq> [] then revert_closure (orphaned w) w else w)"

definition maybe_launch :: "('c, 'v) engine \<Rightarrow> ('c, 'v) wrk \<Rightarrow> ('c, 'v) wrk rust" where
  "maybe_launch en w =
     (if wk_dirty_bytes w \<noteq> sum_list (map snd (wk_dirty w)) then Panic
      else let w = sailing w
      in if wk_inflight w \<noteq> None \<or> wk_pending w = []
         then (if wk_inflight w = None \<and> wk_dirty w \<noteq> [] then Panic else Ret w)
         else launch en w)"

section \<open>The invariant\<close>

definition counted :: "('c, 'v) wrk \<Rightarrow> bool" where
  "counted w \<longleftrightarrow> bt_wf (wk_dirty w) \<and> wk_dirty_bytes w = sum_list (map snd (wk_dirty w))"

definition pending_objects :: "('c, 'v) wrk \<Rightarrow> string set" where
  "pending_objects w = (\<Union>t \<in> set (wk_pending w). set (at_participants t))"

definition boats_wf :: "('c, 'v) wrk \<Rightarrow> bool" where
  "boats_wf w \<longleftrightarrow> counted w
     \<and> fst ` set (wk_dirty w) = pending_objects w
     \<and> fst ` set (wk_dirty w) \<subseteq> fst ` set (wk_live w)
     \<and> (\<forall>t \<in> set (wk_pending w). at_participants t \<noteq> [])
     \<and> (\<forall>x \<in> set (wk_manifests w). 0 < m_page_size (snd x))"

lemma set_bt_remove [simp]: "set (bt_remove k m) = {x \<in> set m. fst x \<noteq> k}"
  by (auto simp: bt_remove_def)

lemma bt_remove_absent: "map_of m k = None \<Longrightarrow> bt_remove k m = m"
  by (force simp: bt_remove_def map_of_eq_None_iff filter_id_conv)

lemma sum_bt_remove:
  "bt_wf m \<Longrightarrow> map_of m k = Some n \<Longrightarrow> sum_list (map snd (bt_remove k m)) + n = sum_list (map snd m)" for m :: "('k::linorder \<times> nat) list"
proof (induction m)
  case (Cons x m)
  obtain a b where x: "x = (a, b)" by force
  have wf: "bt_wf m" "a \<notin> fst ` set m" using Cons.prems(1) x by (auto simp: bt_wf_def)
  show ?case
  proof (cases "a = k")
    case True
    then have "map_of m k = None" using wf(2) by (simp add: map_of_eq_None_iff)
    then show ?thesis using Cons.prems(2) x True bt_remove_absent[of m k] by (simp add: bt_remove_def)
  next
    case False
    then show ?thesis using Cons.IH[OF wf(1)] Cons.prems(2) x by (simp add: bt_remove_def)
  qed
qed simp

named_theorems wrk_frames \<open>fields an operation of the worker leaves alone\<close>

lemma undirty_dirty [simp]: "wk_dirty (undirty ob w) = bt_remove ob (wk_dirty w)"
  by (simp add: undirty_def bt_remove_absent split: option.split)

lemma undirty_counted: "counted w \<Longrightarrow> counted (undirty ob w)"
  using sum_bt_remove[of "wk_dirty w" ob] by (auto simp: counted_def undirty_def split: option.split)

lemma undirty_frame [simp]:
  "wk_pending (undirty ob w) = wk_pending w" "wk_live (undirty ob w) = wk_live w" "wk_manifests (undirty ob w) = wk_manifests w"
  "wk_inflight (undirty ob w) = wk_inflight w" "wk_log_seq (undirty ob w) = wk_log_seq w" "wk_out (undirty ob w) = wk_out w"
  "wk_routing (undirty ob w) = wk_routing w" "wk_id (undirty ob w) = wk_id w" "wk_polls (undirty ob w) = wk_polls w"
  "wk_owned (undirty ob w) = wk_owned w" "wk_queues (undirty ob w) = wk_queues w" "wk_max_boat (undirty ob w) = wk_max_boat w"
  "wk_dir (undirty ob w) = wk_dir w" "wk_disk (undirty ob w) = wk_disk w" "wk_meta (undirty ob w) = wk_meta w"
  "wk_needs_service (undirty ob w) = wk_needs_service w"
  by (simp_all add: undirty_def split: option.split)

lemma emit_frame [simp]:
  "wk_pending (emit_all es w) = wk_pending w" "wk_live (emit_all es w) = wk_live w" "wk_manifests (emit_all es w) = wk_manifests w"
  "wk_inflight (emit_all es w) = wk_inflight w" "wk_log_seq (emit_all es w) = wk_log_seq w" "wk_dirty (emit_all es w) = wk_dirty w"
  "wk_dirty_bytes (emit_all es w) = wk_dirty_bytes w" "wk_routing (emit_all es w) = wk_routing w" "wk_id (emit_all es w) = wk_id w"
  "wk_owned (emit_all es w) = wk_owned w" "wk_queues (emit_all es w) = wk_queues w" "wk_max_boat (emit_all es w) = wk_max_boat w"
  "wk_polls (emit_all es w) = wk_polls w" "wk_out (emit_all es w) = wk_out w @ es"
  by (simp_all add: emit_all_def)

lemma counted_frame [simp]:
  "counted (emit_all es w) = counted w" "counted (w\<lparr>wk_pending := ts\<rparr>) = counted w"
  by (simp_all add: counted_def)

lemma fail_polls_frame [simp]:
  "wk_pending (fail_polls ob r w) = wk_pending w" "wk_live (fail_polls ob r w) = wk_live w" "wk_manifests (fail_polls ob r w) = wk_manifests w"
  "wk_inflight (fail_polls ob r w) = wk_inflight w" "wk_log_seq (fail_polls ob r w) = wk_log_seq w" "wk_dirty (fail_polls ob r w) = wk_dirty w"
  "wk_dirty_bytes (fail_polls ob r w) = wk_dirty_bytes w" "wk_routing (fail_polls ob r w) = wk_routing w" "wk_id (fail_polls ob r w) = wk_id w"
  "wk_owned (fail_polls ob r w) = wk_owned w" "wk_queues (fail_polls ob r w) = wk_queues w"
  by (simp_all add: fail_polls_def emit_all_def split: option.split)

lemma revert_one_frame [simp]:
  "wk_pending (revert_one ob w) = wk_pending w" "wk_inflight (revert_one ob w) = wk_inflight w"
  "wk_routing (revert_one ob w) = wk_routing w" "wk_id (revert_one ob w) = wk_id w" "wk_owned (revert_one ob w) = wk_owned w"
  "wk_live (revert_one ob w) = bt_remove ob (wk_live w)" "wk_dirty (revert_one ob w) = bt_remove ob (wk_dirty w)"
  "wk_manifests (revert_one ob w) = bt_remove ob (wk_manifests w)" "wk_log_seq (revert_one ob w) = bt_remove ob (wk_log_seq w)"
  by (simp_all add: revert_one_def purge_def Let_def)

lemma revert_one_counted: "counted w \<Longrightarrow> counted (revert_one ob w)"
proof -
  assume c: "counted w"
  define w1 where "w1 = (purge ob (fail_polls ob ''state reverted; re-poll'' w))\<lparr>
    wk_meta := bt_remove ob (wk_meta (purge ob (fail_polls ob ''state reverted; re-poll'' w))),
    wk_manifests := bt_remove ob (wk_manifests (purge ob (fail_polls ob ''state reverted; re-poll'' w))),
    wk_log_seq := bt_remove ob (wk_log_seq (purge ob (fail_polls ob ''state reverted; re-poll'' w)))\<rparr>"
  have "counted w1" using c by (simp add: counted_def w1_def purge_def)
  then have "counted (undirty ob w1)" by (rule undirty_counted)
  moreover have "wk_dirty (revert_one ob w) = wk_dirty (undirty ob w1)" "wk_dirty_bytes (revert_one ob w) = wk_dirty_bytes (undirty ob w1)"
    by (simp_all add: revert_one_def w1_def Let_def purge_def)
  ultimately show ?thesis by (simp add: counted_def)
qed

text \<open>Reverting a list of objects.\<close>

definition drop_keys :: "'k set \<Rightarrow> ('k \<times> 'a) list \<Rightarrow> ('k \<times> 'a) list" where
  "drop_keys R m = filter (\<lambda>x. fst x \<notin> R) m"

lemma drop_keys_remove: "drop_keys R (bt_remove k m) = drop_keys (insert k R) m"
  by (auto simp: drop_keys_def bt_remove_def intro!: filter_cong)

lemma map_of_drop_keys [simp]: "map_of (drop_keys R m) k = (if k \<in> R then None else map_of m k)"
  by (induction m) (auto simp: drop_keys_def)

lemma set_drop_keys [simp]: "set (drop_keys R m) = {x \<in> set m. fst x \<notin> R}"
  by (simp add: drop_keys_def)

lemma drop_keys_empty [simp]: "drop_keys {} m = m"
  by (simp add: drop_keys_def)

lemma revert_all:
  "let w' = foldl (\<lambda>w ob. revert_one ob w) w obs in
     wk_pending w' = wk_pending w \<and> wk_inflight w' = wk_inflight w \<and> wk_routing w' = wk_routing w \<and> wk_id w' = wk_id w
     \<and> wk_owned w' = wk_owned w \<and> wk_live w' = drop_keys (set obs) (wk_live w) \<and> wk_dirty w' = drop_keys (set obs) (wk_dirty w)
     \<and> wk_manifests w' = drop_keys (set obs) (wk_manifests w) \<and> wk_log_seq w' = drop_keys (set obs) (wk_log_seq w)
     \<and> (counted w \<longrightarrow> counted w')"
  by (induction obs arbitrary: w) (auto simp: Let_def drop_keys_remove intro: revert_one_counted)

section \<open>What is reverted\<close>

definition sinks :: "string list list \<Rightarrow> string \<Rightarrow> string \<Rightarrow> bool" where
  "sinks txns x y \<longleftrightarrow> (\<exists>obs \<in> set txns. x \<in> set obs \<and> y \<in> set obs)"

lemma touches_iff: "touches obs R \<longleftrightarrow> set obs \<inter> set R \<noteq> {}"
  by (auto simp: touches_def list_ex_iff)

lemma revert_pass_sinks: "y \<in> set (revert_pass txns R) \<Longrightarrow> \<exists>x \<in> set R. (sinks txns)\<^sup>*\<^sup>* x y"
proof (induction txns arbitrary: R y rule: rev_induct)
  case Nil
  then show ?case by (auto simp: revert_pass_def)
next
  case (snoc obs txns)
  have mono: "(sinks txns)\<^sup>*\<^sup>* x y \<Longrightarrow> (sinks (txns @ [obs]))\<^sup>*\<^sup>* x y" for x y
    by (erule rtranclp_mono[THEN predicate2D, rotated]) (auto simp: sinks_def)
  show ?case
  proof (cases "y \<in> set (revert_pass txns R)")
    case True
    then show ?thesis using snoc.IH mono by blast
  next
    case False
    then have "touches obs (revert_pass txns R)" "y \<in> set obs"
      using snoc.prems by (auto simp: revert_pass_def split: if_splits)
    then obtain z where z: "z \<in> set obs" "z \<in> set (revert_pass txns R)" by (auto simp: touches_iff)
    then have "sinks (txns @ [obs]) z y" using \<open>y \<in> set obs\<close> by (auto simp: sinks_def)
    then show ?thesis using snoc.IH[OF z(2)] mono by (meson rtranclp.rtrancl_into_rtrancl)
  qed
qed

lemma revert_pass_closed:
  "set (revert_pass txns R) \<subseteq> set R \<Longrightarrow> obs \<in> set txns \<Longrightarrow> touches obs R \<Longrightarrow> set obs \<subseteq> set R"
proof (induction txns rule: rev_induct)
  case (snoc last txns)
  have sub: "set R \<subseteq> set (revert_pass txns R)" using revert_pass_grows by blast
  have "set (revert_pass txns R) \<subseteq> set R" using snoc.prems(1) by (auto simp: revert_pass_def split: if_splits)
  then show ?case using snoc sub by (auto simp: revert_pass_def touches_iff split: if_splits)
qed simp

lemma set_revert_loop: "set (revert_loop txns R) = {y. \<exists>x \<in> set R. (sinks txns)\<^sup>*\<^sup>* x y}"
proof (induction txns R rule: revert_loop.induct)
  case (1 txns R)
  let ?R = "revert_pass txns R"
  show ?case
  proof (cases "set ?R \<subseteq> set R")
    case True
    have "y \<in> set R" if "x \<in> set R" "(sinks txns)\<^sup>*\<^sup>* x y" for x y
      using that(2,1)
    proof (induction rule: rtranclp_induct)
      case (step y z)
      then obtain obs where "obs \<in> set txns" "y \<in> set obs" "z \<in> set obs" by (auto simp: sinks_def)
      then show ?case using revert_pass_closed[OF True] step by (auto simp: touches_iff)
    qed
    then show ?thesis using True by (subst revert_loop.simps) (auto simp: Let_def)
  next
    case False
    have "{y. \<exists>x \<in> set ?R. (sinks txns)\<^sup>*\<^sup>* x y} = {y. \<exists>x \<in> set R. (sinks txns)\<^sup>*\<^sup>* x y}"
      using revert_pass_sinks[of _ txns R] revert_pass_grows[of R txns] by (blast intro: rtranclp_trans)
    then show ?thesis using 1[OF refl False] False by (subst revert_loop.simps) (simp add: Let_def)
  qed
qed

definition sunk_from :: "('c, 'v) wrk \<Rightarrow> string list \<Rightarrow> string set" where
  "sunk_from w seed = {y. \<exists>x \<in> set seed. (sinks (map at_participants (wk_pending w)))\<^sup>*\<^sup>* x y}"

lemma set_reverted: "set (reverted seed w) = sunk_from w seed"
  by (simp add: reverted_def set_revert_loop sunk_from_def)

lemma seed_sunk: "set seed \<subseteq> sunk_from w seed"
  by (auto simp: sunk_from_def)

lemma sunk_closed:
  assumes "t \<in> set (wk_pending w)" "set (at_participants t) \<inter> sunk_from w seed \<noteq> {}"
  shows "set (at_participants t) \<subseteq> sunk_from w seed"
proof
  fix y assume "y \<in> set (at_participants t)"
  moreover obtain x z where "x \<in> set seed" "z \<in> set (at_participants t)" "(sinks (map at_participants (wk_pending w)))\<^sup>*\<^sup>* x z"
    using assms(2) by (auto simp: sunk_from_def)
  ultimately show "y \<in> sunk_from w seed"
    using assms(1) unfolding sunk_from_def
    by (auto intro!: bexI[of _ x] rtranclp.rtrancl_into_rtrancl[of _ x z] simp: sinks_def)
qed

lemma revert_closure_fields:
  fixes w :: "('c, 'v) wrk" and seed :: "string list"
  defines "R \<equiv> sunk_from w seed"
  shows "wk_pending (revert_closure seed w) = filter (\<lambda>t. set (at_participants t) \<inter> R = {}) (wk_pending w)"
    "wk_dirty (revert_closure seed w) = drop_keys R (wk_dirty w)" "wk_live (revert_closure seed w) = drop_keys R (wk_live w)"
    "wk_log_seq (revert_closure seed w) = drop_keys R (wk_log_seq w)" "wk_manifests (revert_closure seed w) = drop_keys R (wk_manifests w)"
    "wk_inflight (revert_closure seed w) = wk_inflight w" "wk_routing (revert_closure seed w) = wk_routing w"
    "wk_id (revert_closure seed w) = wk_id w" "wk_owned (revert_closure seed w) = wk_owned w"
    "counted w \<Longrightarrow> counted (revert_closure seed w)"
  using revert_all[of "refuse ''state reverted; retry'' (List.map_filter at_waiter (filter (\<lambda>t. touches (at_participants t) (reverted seed w)) (wk_pending w)))
     (w\<lparr>wk_pending := filter (\<lambda>t. \<not> touches (at_participants t) (reverted seed w)) (wk_pending w)\<rparr>)" "sort (reverted seed w)"]
  by (simp_all add: revert_closure_def Let_def refuse_def set_reverted R_def touches_iff)

lemma boats_wf_revert:
  assumes "boats_wf w"
  shows "boats_wf (revert_closure seed w)"
proof -
  let ?R = "sunk_from w seed"
  have p: "pending_objects (revert_closure seed w) = pending_objects w - ?R"
    using sunk_closed[of _ w seed] by (auto simp: pending_objects_def revert_closure_fields)
  have "fst ` set (wk_dirty (revert_closure seed w)) = fst ` set (wk_dirty w) - ?R"
    by (auto simp: revert_closure_fields image_iff)
  moreover have "fst ` set (wk_live (revert_closure seed w)) = fst ` set (wk_live w) - ?R"
    by (auto simp: revert_closure_fields image_iff)
  ultimately show ?thesis
    using assms p revert_closure_fields(10)[of w seed] by (auto simp: boats_wf_def revert_closure_fields)
qed

end
