(* ===== verification/Boat_Props.thy ===== *)
theory Boat_Props
  imports Boats
begin

text \<open>
  What a boat carries: every transaction whole or not at all, only objects the worker owns, one item
  per object, within the byte limit unless it is a single group; a launch never panics; a revert
  takes exactly the transactions connected to it.
\<close>

section \<open>Components of the pending transactions\<close>

lemma boat_components_props:
  fixes pending :: "'v applied_txn list"
  defines "cs \<equiv> boat_components pending"
  shows "distinct (concat cs)" "set (concat cs) = {..<length pending}" "[] \<notin> set cs"
    "i < length pending \<Longrightarrow> j < length pending \<Longrightarrow>
      (\<exists>c \<in> set cs. i \<in> set c \<and> j \<in> set c) \<longleftrightarrow> (linked (map at_participants pending))\<^sup>*\<^sup>* i j"
proof -
  obtain ds where "txn_components (map at_participants pending) = Some ds" "distinct (concat ds)"
    "set (concat ds) = {..<length pending}" "[] \<notin> set ds"
    "\<forall>i < length pending. \<forall>j < length pending. (\<exists>c \<in> set ds. i \<in> set c \<and> j \<in> set c) \<longleftrightarrow> (linked (map at_participants pending))\<^sup>*\<^sup>* i j"
    using components_are_connected[of "map at_participants pending"] by auto
  moreover from this have "cs = ds" by (simp add: cs_def boat_components_def)
  ultimately show "distinct (concat cs)" "set (concat cs) = {..<length pending}" "[] \<notin> set cs"
    "i < length pending \<Longrightarrow> j < length pending \<Longrightarrow>
      (\<exists>c \<in> set cs. i \<in> set c \<and> j \<in> set c) \<longleftrightarrow> (linked (map at_participants pending))\<^sup>*\<^sup>* i j"
    by auto
qed

lemma distinct_concat_unique:
  "distinct (concat cs) \<Longrightarrow> c \<in> set cs \<Longrightarrow> d \<in> set cs \<Longrightarrow> i \<in> set c \<Longrightarrow> i \<in> set d \<Longrightarrow> c = d"
  by (induction cs) auto

lemma distinct_concat_distinct: "distinct (concat cs) \<Longrightarrow> [] \<notin> set cs \<Longrightarrow> distinct cs"
proof (induction cs)
  case (Cons c cs)
  then have "c \<notin> set cs" by (cases c) auto
  then show ?case using Cons by auto
qed simp

section \<open>Cutting\<close>

text \<open>Which groups go is a choice \<open>P\<close> of groups.\<close>

lemma cut_chooses:
  "distinct cs \<Longrightarrow> \<exists>P. let r = foldl (cut_step limit pending dirty) ct cs in
      ct_selected r = ct_selected ct @ concat (filter P cs)
    \<and> ct_leftover r = ct_leftover ct @ concat (filter (\<lambda>c. \<not> P c) cs)
    \<and> set (ct_objects r) = set (ct_objects ct) \<union> (\<Union>c \<in> set (filter P cs). set (objects_of pending c))
    \<and> (distinct (ct_objects ct) \<longrightarrow> distinct (ct_objects r))"
proof (induction cs arbitrary: ct)
  case (Cons c cs)
  define now where "now \<longleftrightarrow> \<not> (ct_selected ct \<noteq> [] \<and> limit < ct_bytes ct + bytes_of dirty (objects_of pending c))"
  define ct' where "ct' = cut_step limit pending dirty ct c"
  obtain P where P: "let r = foldl (cut_step limit pending dirty) ct' cs in
      ct_selected r = ct_selected ct' @ concat (filter P cs)
    \<and> ct_leftover r = ct_leftover ct' @ concat (filter (\<lambda>c. \<not> P c) cs)
    \<and> set (ct_objects r) = set (ct_objects ct') \<union> (\<Union>c \<in> set (filter P cs). set (objects_of pending c))
    \<and> (distinct (ct_objects ct') \<longrightarrow> distinct (ct_objects r))"
    using Cons.IH[of ct'] Cons.prems by auto
  let ?P = "\<lambda>d. if d = c then now else P d"
  have f: "filter ?P cs = filter P cs" "filter (\<lambda>d. \<not> ?P d) cs = filter (\<lambda>d. \<not> P d) cs"
    using Cons.prems by (auto intro!: filter_cong)
  have "let r = foldl (cut_step limit pending dirty) ct (c # cs) in
      ct_selected r = ct_selected ct @ concat (filter ?P (c # cs))
    \<and> ct_leftover r = ct_leftover ct @ concat (filter (\<lambda>d. \<not> ?P d) (c # cs))
    \<and> set (ct_objects r) = set (ct_objects ct) \<union> (\<Union>c \<in> set (filter ?P (c # cs)). set (objects_of pending c))
    \<and> (distinct (ct_objects ct) \<longrightarrow> distinct (ct_objects r))"
    using P f add_all_grows[of "ct_objects ct" "objects_of pending c"]
    by (cases now) (auto simp: ct'_def cut_step_def now_def Let_def)
  then show ?case by (intro exI[of _ ?P])
qed simp

lemma cut_within:
  assumes "ct_bytes ct \<le> limit \<or> ct_selected ct = c0" "ct_selected ct \<noteq> []"
  shows "let r = foldl (cut_step limit pending dirty) ct cs in ct_bytes r \<le> limit \<or> ct_selected r = c0"
  using assms
proof (induction cs arbitrary: ct)
  case (Cons c cs)
  have "(ct_bytes (cut_step limit pending dirty ct c) \<le> limit \<or> ct_selected (cut_step limit pending dirty ct c) = c0)
      \<and> ct_selected (cut_step limit pending dirty ct c) \<noteq> []"
    using Cons.prems by (auto simp: cut_step_def Let_def)
  then show ?case using Cons.IH[of "cut_step limit pending dirty ct c"] by simp
qed simp

lemma set_objects_of: "set (objects_of pending c) = (\<Union>i \<in> set c. set (at_participants (pending ! i)))"
  by (auto simp: objects_of_def)

text \<open>The cut of a whole list of pending transactions.\<close>

lemma cut_boat_whole:
  fixes pending :: "'v applied_txn list" and limit :: nat and dirty :: "(string \<times> nat) list"
  assumes "\<forall>t \<in> set pending. at_participants t \<noteq> []"
  defines "ct \<equiv> cut_boat limit pending dirty"
  shows "set (ct_selected ct) \<union> set (ct_leftover ct) = {..<length pending}" "distinct (ct_selected ct)" "distinct (ct_objects ct)"
    "i < length pending \<Longrightarrow> i \<in> set (ct_selected ct) \<Longrightarrow> set (at_participants (pending ! i)) \<subseteq> set (ct_objects ct)"
    "i < length pending \<Longrightarrow> i \<notin> set (ct_selected ct) \<Longrightarrow> set (at_participants (pending ! i)) \<inter> set (ct_objects ct) = {}"
    "sort (ct_leftover ct) = filter (\<lambda>i. i \<notin> set (ct_selected ct)) [0..<length pending]"
    "set (ct_objects ct) = (\<Union>i \<in> set (ct_selected ct). set (at_participants (pending ! i)))"
proof -
  let ?cs = "boat_components pending"
  note cs = boat_components_props[where pending = pending]
  have dcs: "distinct ?cs" using distinct_concat_distinct cs(1,3) by blast
  obtain P where P: "ct_selected ct = concat (filter P ?cs)" "ct_leftover ct = concat (filter (\<lambda>c. \<not> P c) ?cs)"
    "set (ct_objects ct) = (\<Union>c \<in> set (filter P ?cs). set (objects_of pending c))" "distinct (ct_objects ct)"
    using cut_chooses[OF dcs, of limit pending dirty "\<lparr>ct_selected = [], ct_objects = [], ct_bytes = 0, ct_leftover = []\<rparr>"]
    by (auto simp: ct_def cut_boat_def Let_def)
  show "distinct (ct_objects ct)" by fact
  show split: "set (ct_selected ct) \<union> set (ct_leftover ct) = {..<length pending}"
    using cs(2) by (auto simp: P)
  have dc: "distinct (concat (filter Q ds))" if "distinct (concat ds)" for Q and ds :: "nat list list"
    using that by (induction ds) auto
  show "distinct (ct_selected ct)" unfolding P using dc cs(1) by blast
  show objs: "set (ct_objects ct) = (\<Union>i \<in> set (ct_selected ct). set (at_participants (pending ! i)))"
    unfolding P by (auto simp: set_objects_of)
  show "i < length pending \<Longrightarrow> i \<in> set (ct_selected ct) \<Longrightarrow> set (at_participants (pending ! i)) \<subseteq> set (ct_objects ct)"
    unfolding objs by auto
  show "set (at_participants (pending ! i)) \<inter> set (ct_objects ct) = {}"
    if i: "i < length pending" "i \<notin> set (ct_selected ct)"
  proof (rule ccontr)
    assume "set (at_participants (pending ! i)) \<inter> set (ct_objects ct) \<noteq> {}"
    then obtain k where k: "k \<in> set (ct_selected ct)" "set (at_participants (pending ! i)) \<inter> set (at_participants (pending ! k)) \<noteq> {}"
      unfolding objs by auto
    then have kn: "k < length pending" using split by auto
    have "linked (map at_participants pending) i k" using k(2) i(1) kn by (simp add: linked_def)
    then obtain c where c: "c \<in> set ?cs" "i \<in> set c" "k \<in> set c" using cs(4)[OF i(1) kn] by blast
    obtain d where d: "d \<in> set ?cs" "P d" "k \<in> set d" using k(1) by (auto simp: P)
    have "c = d" by (rule distinct_concat_unique[OF cs(1) c(1) d(1) c(3) d(3)])
    then have "i \<in> set (ct_selected ct)" using c d by (auto simp: P)
    then show False using i(2) by blast
  qed
  have dl: "distinct (ct_leftover ct)" unfolding P using dc cs(1) by blast
  have "set (ct_leftover ct) = {i. i < length pending \<and> i \<notin> set (ct_selected ct)}"
  proof -
    have "c = d" if "c \<in> set ?cs" "d \<in> set ?cs" "i \<in> set c" "i \<in> set d" for i c d
      using distinct_concat_unique[OF cs(1)] that by blast
    then have "set (ct_leftover ct) \<inter> set (ct_selected ct) = {}"
      unfolding P set_concat set_filter by fastforce
    then show ?thesis using split by blast
  qed
  then have set: "set (sort (ct_leftover ct)) = set (filter (\<lambda>i. i \<notin> set (ct_selected ct)) [0..<length pending])" by auto
  have "sorted (filter (\<lambda>i. i \<notin> set (ct_selected ct)) [0..<length pending])" by (rule sorted_wrt_filter) simp
  then show "sort (ct_leftover ct) = filter (\<lambda>i. i \<notin> set (ct_selected ct)) [0..<length pending]"
    using dl set by (intro sorted_distinct_set_unique) simp_all
qed

text \<open>What stays, as a filter of the pending transactions.\<close>

lemma leftover_txns:
  fixes pending :: "'v applied_txn list" and limit :: nat and dirty :: "(string \<times> nat) list"
  assumes "\<forall>t \<in> set pending. at_participants t \<noteq> []"
  defines "ct \<equiv> cut_boat limit pending dirty"
  shows "map ((!) pending) (sort (ct_leftover ct)) = filter (\<lambda>t. set (at_participants t) \<inter> set (ct_objects ct) = {}) pending"
    "t \<in> set pending \<Longrightarrow> set (at_participants t) \<inter> set (ct_objects ct) \<noteq> {} \<Longrightarrow> set (at_participants t) \<subseteq> set (ct_objects ct)"
proof -
  note W = cut_boat_whole[OF assms(1), where limit = limit and dirty = dirty, folded ct_def]
  have iff: "i \<notin> set (ct_selected ct) \<longleftrightarrow> set (at_participants (pending ! i)) \<inter> set (ct_objects ct) = {}" if "i < length pending" for i
  proof -
    have "set (at_participants (pending ! i)) \<noteq> {}" using assms(1) nth_mem[OF that] by simp
    then show ?thesis using W(4,5)[OF that] by (metis inf.absorb_iff1)
  qed
  have "map ((!) pending) (sort (ct_leftover ct)) = map ((!) pending) (filter (\<lambda>i. i \<notin> set (ct_selected ct)) [0..<length pending])"
    by (simp add: W(6))
  also have "... = map ((!) pending) (filter (\<lambda>i. set (at_participants (pending ! i)) \<inter> set (ct_objects ct) = {}) [0..<length pending])"
    by (rule arg_cong[of _ _ "map ((!) pending)"], rule filter_cong[OF refl]) (simp add: iff)
  also have "... = filter (\<lambda>t. set (at_participants t) \<inter> set (ct_objects ct) = {}) (map ((!) pending) [0..<length pending])"
    by (simp add: filter_map o_def)
  finally show "map ((!) pending) (sort (ct_leftover ct)) = filter (\<lambda>t. set (at_participants t) \<inter> set (ct_objects ct) = {}) pending"
    by (simp add: map_nth)
  show "t \<in> set pending \<Longrightarrow> set (at_participants t) \<inter> set (ct_objects ct) \<noteq> {} \<Longrightarrow> set (at_participants t) \<subseteq> set (ct_objects ct)"
    using iff W(4) by (metis in_set_conv_nth)
qed

section \<open>The size of a boat\<close>

definition weight :: "(string \<times> nat) list \<Rightarrow> string \<Rightarrow> nat" where
  "weight dirty ob = (case map_of dirty ob of Some n \<Rightarrow> n | None \<Rightarrow> 0)"

lemma bytes_of_sum: "distinct obs \<Longrightarrow> bytes_of dirty obs = sum (weight dirty) (set obs)"
  by (simp add: bytes_of_def weight_def[abs_def] sum_list_distinct_conv_sum_set)

lemma cut_counts:
  assumes "distinct cs" "\<And>c d. c \<in> set cs \<Longrightarrow> d \<in> set cs \<Longrightarrow> c \<noteq> d \<Longrightarrow> set (objects_of pending c) \<inter> set (objects_of pending d) = {}"
    and "\<And>c. c \<in> set cs \<Longrightarrow> set (ct_objects ct) \<inter> set (objects_of pending c) = {}"
    and "ct_bytes ct = sum (weight dirty) (set (ct_objects ct))"
  shows "let r = foldl (cut_step limit pending dirty) ct cs in ct_bytes r = sum (weight dirty) (set (ct_objects r))"
  using assms
proof (induction cs arbitrary: ct)
  case (Cons c cs)
  let ?ct = "cut_step limit pending dirty ct c"
  have d: "distinct (objects_of pending c)" by (simp add: objects_of_def)
  have "set (ct_objects ct) \<inter> set (objects_of pending c) = {}" using Cons.prems(3) by simp
  then have "sum (weight dirty) (set (objects_of pending c) \<union> set (ct_objects ct))
      = bytes_of dirty (objects_of pending c) + ct_bytes ct"
    using Cons.prems(4) by (simp add: bytes_of_sum[OF d] sum.union_disjoint Int_commute)
  then have "ct_bytes ?ct = sum (weight dirty) (set (ct_objects ?ct))"
    using Cons.prems(4) by (auto simp: cut_step_def Let_def)
  moreover have "set (ct_objects ?ct) \<inter> set (objects_of pending e) = {}" if "e \<in> set cs" for e
  proof -
    have "set (objects_of pending c) \<inter> set (objects_of pending e) = {}" using Cons.prems(1,2) that by auto
    then show ?thesis using Cons.prems(3)[of e] that by (auto simp: cut_step_def Let_def)
  qed
  ultimately show ?case using Cons.IH[of ?ct] Cons.prems(1,2) by simp
qed simp

lemma cut_boat_size:
  fixes pending :: "'v applied_txn list" and limit :: nat and dirty :: "(string \<times> nat) list"
  defines "ct \<equiv> cut_boat limit pending dirty"
  shows "sum (weight dirty) (set (ct_objects ct)) \<le> limit
    \<or> (\<forall>i \<in> set (ct_selected ct). \<forall>j \<in> set (ct_selected ct). (linked (map at_participants pending))\<^sup>*\<^sup>* i j)"
proof -
  let ?cs = "boat_components pending" and ?ct0 = "\<lparr>ct_selected = [], ct_objects = [], ct_bytes = 0, ct_leftover = []\<rparr>"
  note cs = boat_components_props[where pending = pending]
  have dcs: "distinct ?cs" using distinct_concat_distinct cs(1,3) by blast
  have bound: "c \<in> set ?cs \<Longrightarrow> i \<in> set c \<Longrightarrow> i < length pending" for c i using cs(2) by auto
  have disj: "set (objects_of pending c) \<inter> set (objects_of pending d) = {}" if cd: "c \<in> set ?cs" "d \<in> set ?cs" "c \<noteq> d" for c d
  proof (rule ccontr)
    assume "set (objects_of pending c) \<inter> set (objects_of pending d) \<noteq> {}"
    then obtain i j where ij: "i \<in> set c" "j \<in> set d" "set (at_participants (pending ! i)) \<inter> set (at_participants (pending ! j)) \<noteq> {}"
      by (auto simp: set_objects_of)
    then have n: "i < length pending" "j < length pending" using bound cd by blast+
    then have "linked (map at_participants pending) i j" using ij(3) by (simp add: linked_def)
    then obtain e where e: "e \<in> set ?cs" "i \<in> set e" "j \<in> set e" using cs(4)[OF n] by blast
    have "e = c" "e = d" using distinct_concat_unique[OF cs(1)] e cd ij by blast+
    then show False using cd(3) by simp
  qed
  have "ct_bytes ct = sum (weight dirty) (set (ct_objects ct))"
    using cut_counts[OF dcs disj, of ?ct0 dirty limit] by (simp add: ct_def cut_boat_def Let_def)
  moreover have "ct_bytes ct \<le> limit \<or> (\<exists>c \<in> set ?cs. ct_selected ct = c) \<or> ?cs = []"
  proof (cases ?cs)
    case (Cons c rest)
    have c: "ct_selected (cut_step limit pending dirty ?ct0 c) = c" "c \<noteq> []" using cs(3) Cons by (auto simp: cut_step_def Let_def)
    have "ct = foldl (cut_step limit pending dirty) (cut_step limit pending dirty ?ct0 c) rest"
      by (simp add: ct_def cut_boat_def Cons)
    then show ?thesis
      using cut_within[of "cut_step limit pending dirty ?ct0 c" limit c pending dirty rest] c Cons by (auto simp: Let_def)
  qed simp
  moreover have "set (ct_selected ct) = {}" if "?cs = []" using that by (simp add: ct_def cut_boat_def)
  ultimately show ?thesis using cs(4) bound by (metis (no_types, lifting) empty_iff)
qed

section \<open>Launching\<close>

definition manifests_ok :: "('c, 'v) wrk \<Rightarrow> bool" where
  "manifests_ok w \<longleftrightarrow> (\<forall>x \<in> set (wk_manifests w). 0 < m_page_size (snd x))"

lemma set_bt_insert_sub: "set (bt_insert k v m) \<subseteq> insert (k, v) (set m)"
  by (induction m rule: bt_insert.induct) auto

lemma manifests_insert: "manifests_ok w \<Longrightarrow> 0 < m_page_size m \<Longrightarrow> manifests_ok (w\<lparr>wk_manifests := bt_insert ob m (wk_manifests w)\<rparr>)"
  using set_bt_insert_sub[of ob m "wk_manifests w"] by (auto simp: manifests_ok_def)

lemma ship_payload_ok:
  assumes "manifests_ok w"
  shows "\<exists>p ms. ship_payload en ob bs w = Ret (p, w\<lparr>wk_manifests := ms\<rparr>) \<and> manifests_ok (w\<lparr>wk_manifests := ms\<rparr>)
    \<and> (wk_log_primary w \<longrightarrow> p = ShipSnapshot bs False)"
proof -
  have id: "w\<lparr>wk_manifests := wk_manifests w\<rparr> = w" by simp
  show ?thesis
  proof (cases "wk_log_primary w \<or> length bs < delta_min_bytes")
    case True
    then show ?thesis using assms id by (intro exI[of _ "if wk_log_primary w then ShipSnapshot bs False else ShipSnapshot bs (map_of (wk_manifests w) ob \<noteq> None)"] exI[of _ "wk_manifests w"]) (auto simp: ship_payload_def)
  next
    case big: False
    show ?thesis
    proof (cases "map_of (wk_manifests w) ob")
      case None
      have "0 < m_page_size (manifest_of (en_page_hash en) bs 0)" by (simp add: manifest_of_def Let_def)
      then show ?thesis using big None manifests_insert[OF assms] by (auto simp: ship_payload_def)
    next
      case (Some m)
      then have pos: "0 < m_page_size m" using assms map_of_SomeD[OF Some] by (force simp: manifests_ok_def)
      obtain d m' where d: "diff_file (en_page_hash en) m bs = Ret (d, m')" "m_page_size m' = m_page_size m"
        using pos by (auto simp: diff_file_def Let_def)
      then show ?thesis using big Some manifests_insert[OF assms] pos
        by (auto simp: ship_payload_def Let_def)
    qed
  qed
qed

text \<open>What an item must be, for the state the boat was cut from.\<close>

definition item_of :: "('c, 'v) engine \<Rightarrow> ('c, 'v) wrk \<Rightarrow> ship_item \<Rightarrow> bool" where
  "item_of en w it \<longleftrightarrow> (\<exists>c bs. map_of (wk_live w) (si_object it) = Some c \<and> en_file en (si_object it) c = Some bs
     \<and> (wk_log_primary w \<longrightarrow> si_payload it = ShipSnapshot bs False)
     \<and> si_expected_seq it = (case map_of (wk_log_seq w) (si_object it) of Some q \<Rightarrow> q | None \<Rightarrow> 0))"

lemma load_items_ok:
  "manifests_ok w \<Longrightarrow> set obs \<subseteq> fst ` set (wk_live w) \<Longrightarrow> \<forall>ob \<in> set obs. owns w ob \<Longrightarrow>
   \<exists>items ms. load_items en obs w = Ret (items, w\<lparr>wk_manifests := ms\<rparr>) \<and> manifests_ok (w\<lparr>wk_manifests := ms\<rparr>)
     \<and> (\<forall>its. items = Some its \<longrightarrow> map si_object its = obs \<and> (\<forall>it \<in> set its. item_of en w it))"
proof (induction obs arbitrary: w)
  case Nil
  then show ?case by (intro exI[of _ "Some []"] exI[of _ "wk_manifests w"]) simp
next
  case (Cons ob obs)
  have "ob \<in> fst ` set (wk_live w)" using Cons.prems(2) by simp
  then obtain c where c: "map_of (wk_live w) ob = Some c" using map_of_eq_None_iff[of "wk_live w" ob] by (cases "map_of (wk_live w) ob") auto
  have own: "owns w ob" "owns (w\<lparr>wk_manifests := ms\<rparr>) x = owns w x" for ms x using Cons.prems(3) by (simp_all add: owns_def)
  show ?case
  proof (cases "en_file en ob c")
    case None
    then show ?thesis using c own(1) Cons.prems(1) by (intro exI[of _ None] exI[of _ "wk_manifests w"]) simp
  next
    case (Some bs)
    obtain p ms where p: "ship_payload en ob bs w = Ret (p, w\<lparr>wk_manifests := ms\<rparr>)" "manifests_ok (w\<lparr>wk_manifests := ms\<rparr>)"
      "wk_log_primary w \<longrightarrow> p = ShipSnapshot bs False"
      using ship_payload_ok[OF Cons.prems(1)] by blast
    let ?w = "w\<lparr>wk_manifests := ms\<rparr>"
    obtain items ms' where l: "load_items en obs ?w = Ret (items, ?w\<lparr>wk_manifests := ms'\<rparr>)" "manifests_ok (?w\<lparr>wk_manifests := ms'\<rparr>)"
      "\<forall>its. items = Some its \<longrightarrow> map si_object its = obs \<and> (\<forall>it \<in> set its. item_of en ?w it)"
      using Cons.IH[OF p(2)] Cons.prems(2,3) own(2) by auto
    have same: "item_of en ?w it = item_of en w it" for it by (simp add: item_of_def)
    have step: "load_items en (ob # obs) w = Ret (map_option ((#) \<lparr>si_object = ob, si_payload = p,
        si_expected_seq = (case map_of (wk_log_seq w) ob of Some q \<Rightarrow> q | None \<Rightarrow> 0)\<rparr>) items, w\<lparr>wk_manifests := ms'\<rparr>)"
      using c own(1) Some p(1) l(1) by simp
    have first: "item_of en w \<lparr>si_object = ob, si_payload = p, si_expected_seq = (case map_of (wk_log_seq w) ob of Some q \<Rightarrow> q | None \<Rightarrow> 0)\<rparr>"
      using c Some p(3) by (simp add: item_of_def)
    show ?thesis
      unfolding step using l(2,3) first same
      by (intro exI[of _ "map_option ((#) \<lparr>si_object = ob, si_payload = p,
        si_expected_seq = (case map_of (wk_log_seq w) ob of Some q \<Rightarrow> q | None \<Rightarrow> 0)\<rparr>) items"] exI[of _ ms']) auto
  qed
qed

lemma live_insert_dom: "map_of m k = Some c \<Longrightarrow> fst ` set (bt_insert k v m) = fst ` set m"
  unfolding set_bt_insert by (metis insert_absorb map_of_eq_None_iff option.distinct(1))

text \<open>Firing polls changes polls, connections and the outbox only.\<close>

definition boat_same :: "('c, 'v) wrk \<Rightarrow> ('c, 'v) wrk \<Rightarrow> bool" where
  "boat_same w w' \<longleftrightarrow> wk_pending w' = wk_pending w \<and> wk_dirty w' = wk_dirty w \<and> wk_dirty_bytes w' = wk_dirty_bytes w
    \<and> fst ` set (wk_live w') = fst ` set (wk_live w) \<and> wk_manifests w' = wk_manifests w \<and> wk_inflight w' = wk_inflight w
    \<and> wk_log_seq w' = wk_log_seq w \<and> wk_owned w' = wk_owned w \<and> wk_transit w' = wk_transit w \<and> wk_id w' = wk_id w
    \<and> wk_routing w' = wk_routing w \<and> wk_queues w' = wk_queues w \<and> wk_parked w' = wk_parked w \<and> wk_meta w' = wk_meta w
    \<and> (\<exists>es. wk_out w' = wk_out w @ es)"

lemma boat_same_refl: "boat_same w w"
  by (simp add: boat_same_def)

lemma boat_same_trans: "boat_same u v \<Longrightarrow> boat_same v w \<Longrightarrow> boat_same u w"
  by (auto simp: boat_same_def)

lemma take_fired_frame: "take_fired_polls en ob d w = (fired, w') \<Longrightarrow> boat_same w w'"
proof (cases "map_of (wk_polls w) ob"; cases "map_of (wk_live w) ob")
  fix ps c assume t: "take_fired_polls en ob d w = (fired, w')" and "map_of (wk_polls w) ob = Some ps" and live: "map_of (wk_live w) ob = Some c"
  then obtain f keep c' es where "fire_polls en (wk_gone w) (wk_id w) d 0 ps c = (f, keep, c', es)"
    "w' = emit_all es (w\<lparr>wk_live := bt_insert ob c' (wk_live w),
        wk_polls := (if keep = [] then bt_remove ob (wk_polls w) else bt_insert ob keep (wk_polls w))\<rparr>)"
    by (auto simp: take_fired_polls_def split: prod.splits)
  then show "boat_same w w'" using live_insert_dom[OF live] by (simp add: boat_same_def emit_all_def)
qed (simp_all add: take_fired_polls_def boat_same_refl)

lemma fire_durable_frame: "fire_durable en obs w = (fired, w') \<Longrightarrow> boat_same w w'"
proof (induction obs arbitrary: w fired w')
  case (Cons ob obs)
  obtain f1 w1 where 1: "take_fired_polls en ob True w = (f1, w1)" by force
  obtain f2 w2 where 2: "fire_durable en obs w1 = (f2, w2)" by force
  show ?case using Cons 1 2 take_fired_frame boat_same_trans by fastforce
qed (simp add: boat_same_refl)

lemma keys_drop_keys: "fst ` set (drop_keys R m) = fst ` set m - R"
  by (auto simp: image_iff)

lemma undirty_all:
  "let w' = foldl (\<lambda>w ob. undirty ob w) w obs in
     wk_pending w' = wk_pending w \<and> wk_live w' = wk_live w \<and> wk_manifests w' = wk_manifests w \<and> wk_inflight w' = wk_inflight w
     \<and> wk_log_seq w' = wk_log_seq w \<and> wk_out w' = wk_out w \<and> wk_routing w' = wk_routing w \<and> wk_id w' = wk_id w
     \<and> wk_log_primary w' = wk_log_primary w \<and> wk_dirty w' = drop_keys (set obs) (wk_dirty w) \<and> (counted w \<longrightarrow> counted w')"
proof (induction obs arbitrary: w)
  case (Cons ob obs)
  have "wk_log_primary (undirty ob w) = wk_log_primary w" by (simp add: undirty_def split: option.split)
  then show ?case using Cons[of "undirty ob w"] undirty_counted[of w ob] by (simp add: Let_def drop_keys_remove)
qed simp

lemma snapshot_failed_frame:
  "wk_pending (snapshot_failed ob w) = wk_pending w" "wk_inflight (snapshot_failed ob w) = wk_inflight w"
  "wk_dirty (snapshot_failed ob w) = wk_dirty w" "wk_dirty_bytes (snapshot_failed ob w) = wk_dirty_bytes w"
  "wk_live (snapshot_failed ob w) = bt_remove ob (wk_live w)" "wk_manifests (snapshot_failed ob w) = bt_remove ob (wk_manifests w)"
  by (simp_all add: snapshot_failed_def purge_def Let_def)

lemma snapshot_failed_all:
  "let w' = foldl (\<lambda>w ob. snapshot_failed ob w) w obs in
     wk_pending w' = wk_pending w \<and> wk_inflight w' = wk_inflight w \<and> wk_dirty w' = wk_dirty w \<and> wk_dirty_bytes w' = wk_dirty_bytes w
     \<and> wk_live w' = drop_keys (set obs) (wk_live w) \<and> wk_manifests w' = drop_keys (set obs) (wk_manifests w)"
  by (induction obs arbitrary: w) (simp_all add: Let_def snapshot_failed_frame drop_keys_remove)

definition boat_of :: "('c, 'v) wrk \<Rightarrow> string list" where
  "boat_of w = sort (ct_objects (cut_boat (wk_max_boat w) (wk_pending w) (wk_dirty w)))"

definition stays :: "string list \<Rightarrow> 'v applied_txn \<Rightarrow> bool" where
  "stays boat t \<longleftrightarrow> set (at_participants t) \<inter> set boat = {}"

definition boat_waiters :: "('c, 'v) wrk \<Rightarrow> 'v waiter list" where
  "boat_waiters w = List.map_filter at_waiter (map ((!) (wk_pending w)) (ct_selected (cut_boat (wk_max_boat w) (wk_pending w) (wk_dirty w))))"

lemma launch_result:
  assumes "boats_wf w" and mine: "\<forall>ob \<in> fst ` set (wk_dirty w). owns w ob"
  shows "\<exists>w'. launch en w = Ret w' \<and> boats_wf w' \<and> wk_pending w' = filter (stays (boat_of w)) (wk_pending w)
    \<and> (wk_inflight w' = wk_inflight w
       \<or> wk_inflight w' = Some (boat_of w) \<and> (\<exists>items es fired. wk_out w' = wk_out w @ es @ [LaunchShip items (boat_waiters w @ fired)]
          \<and> map si_object items = boat_of w \<and> (\<forall>it \<in> set items. item_of en w it)))"
proof -
  let ?ct = "cut_boat (wk_max_boat w) (wk_pending w) (wk_dirty w)"
  have ne: "\<forall>t \<in> set (wk_pending w). at_participants t \<noteq> []" and mf: "manifests_ok w"
    using assms by (auto simp: boats_wf_def manifests_ok_def)
  note W = cut_boat_whole[OF ne, where limit = "wk_max_boat w" and dirty = "wk_dirty w"]
  note L = leftover_txns[OF ne, where limit = "wk_max_boat w" and dirty = "wk_dirty w"]
  have boat: "set (boat_of w) = set (ct_objects ?ct)" by (simp add: boat_of_def)
  have sub: "set (boat_of w) \<subseteq> pending_objects w"
  proof
    fix ob assume "ob \<in> set (boat_of w)"
    then obtain i where i: "i \<in> set (ct_selected ?ct)" "ob \<in> set (at_participants (wk_pending w ! i))" unfolding boat W(7) by auto
    then have "i < length (wk_pending w)" using W(1) by auto
    then show "ob \<in> pending_objects w" using i(2) nth_mem by (force simp: pending_objects_def)
  qed
  define w1 where "w1 = foldl (\<lambda>w ob. undirty ob w) (w\<lparr>wk_pending := filter (stays (boat_of w)) (wk_pending w)\<rparr>) (boat_of w)"
  have w1: "wk_pending w1 = filter (stays (boat_of w)) (wk_pending w)" "wk_live w1 = wk_live w" "wk_manifests w1 = wk_manifests w"
    "wk_inflight w1 = wk_inflight w" "wk_log_seq w1 = wk_log_seq w" "wk_out w1 = wk_out w" "wk_log_primary w1 = wk_log_primary w"
    "wk_dirty w1 = drop_keys (set (boat_of w)) (wk_dirty w)" "counted w1"
    using undirty_all[of "w\<lparr>wk_pending := filter (stays (boat_of w)) (wk_pending w)\<rparr>" "boat_of w"] assms(1)
    by (simp_all add: w1_def Let_def boats_wf_def)
  have keep: "owns (foldl (\<lambda>w ob. undirty ob w) v obs) x = owns v x" for obs v and x :: string
    by (induction obs arbitrary: v) (simp_all add: undirty_def owns_def split: option.split)
  have own1: "\<forall>ob \<in> set (boat_of w). owns w1 ob"
  proof
    fix ob assume "ob \<in> set (boat_of w)"
    then have "ob \<in> fst ` set (wk_dirty w)" using sub assms(1) by (auto simp: boats_wf_def)
    then have "owns w ob" using mine by blast
    then show "owns w1 ob" unfolding w1_def keep by (simp add: owns_def)
  qed
  have live: "set (boat_of w) \<subseteq> fst ` set (wk_live w)" 
    using assms unfolding boats_wf_def by (elim conjE) (metis sub order_trans)
  have dirty1: "fst ` set (wk_dirty w1) = pending_objects w - set (boat_of w)"
    using assms by (auto simp: w1 boats_wf_def image_iff)
  have pend1: "pending_objects w1 = pending_objects w - set (boat_of w)"
    using L(2) unfolding pending_objects_def w1 boat[symmetric] by (auto simp: stays_def)
  have mf1: "manifests_ok w1" using mf by (simp add: manifests_ok_def w1)
  obtain items ms where l: "load_items en (boat_of w) w1 = Ret (items, w1\<lparr>wk_manifests := ms\<rparr>)" "manifests_ok (w1\<lparr>wk_manifests := ms\<rparr>)"
    "\<forall>its. items = Some its \<longrightarrow> map si_object its = boat_of w \<and> (\<forall>it \<in> set its. item_of en w1 it)"
    using load_items_ok[OF mf1, where obs = "boat_of w" and en = en, OF _ own1] live unfolding w1(2) by blast
  let ?w2 = "w1\<lparr>wk_manifests := ms\<rparr>"
  have item: "item_of en w1 it = item_of en w it" for it by (simp add: item_of_def w1)
  have launch: "launch en w = rust_bind (load_items en (boat_of w) w1) (\<lambda>(items, w1). case items of
      None \<Rightarrow> Ret (refuse ''snapshot failed; state reverted'' (boat_waiters w) (foldl (\<lambda>w ob. snapshot_failed ob w) w1 (boat_of w)))
    | Some items \<Rightarrow> let (fired, w1) = fire_durable en (boat_of w) w1
        in Ret (emit (LaunchShip items (boat_waiters w @ fired)) (w1\<lparr>wk_inflight := Some (boat_of w)\<rparr>)))"
    unfolding launch_def Let_def boat_of_def[symmetric] boat_waiters_def[symmetric] L(1) w1_def stays_def[abs_def] boat by (rule refl)
  have wf_part: "counted v \<Longrightarrow> wk_pending v = wk_pending w1 \<Longrightarrow> wk_dirty v = wk_dirty w1 \<Longrightarrow>
      fst ` set (wk_dirty w1) \<subseteq> fst ` set (wk_live v) \<Longrightarrow> manifests_ok v \<Longrightarrow> boats_wf v" for v :: "('a, 'b) wrk"
    using dirty1 pend1 ne by (auto simp: boats_wf_def pending_objects_def manifests_ok_def w1(1))
  show ?thesis
  proof (cases items)
    case None
    let ?w' = "refuse ''snapshot failed; state reverted'' (boat_waiters w) (foldl (\<lambda>w ob. snapshot_failed ob w) ?w2 (boat_of w))"
    note f = snapshot_failed_all[of ?w2 "boat_of w", unfolded Let_def]
    have "fst ` set (wk_dirty w1) \<subseteq> fst ` set (drop_keys (set (boat_of w)) (wk_live w))"
      unfolding dirty1 keys_drop_keys using assms unfolding boats_wf_def by (elim conjE) (metis Diff_mono order_refl)
    then have "boats_wf ?w'"
      using f w1 l(2) by (intro wf_part) (auto simp: refuse_def counted_def manifests_ok_def)
    then show ?thesis using launch l(1) None f w1 by (auto simp: refuse_def)
  next
    case (Some its)
    obtain fired w3 where fd: "fire_durable en (boat_of w) ?w2 = (fired, w3)" by force
    note f = fire_durable_frame[OF fd, unfolded boat_same_def]
    let ?w' = "emit (LaunchShip its (boat_waiters w @ fired)) (w3\<lparr>wk_inflight := Some (boat_of w)\<rparr>)"
    have "fst ` set (wk_dirty w1) \<subseteq> fst ` set (wk_live w)" 
      using assms unfolding dirty1 boats_wf_def by (elim conjE) (metis Diff_subset order_trans)
    then have "boats_wf ?w'" using f w1 l(2) by (intro wf_part) (auto simp: emit_def counted_def manifests_ok_def)
    moreover have "launch en w = Ret ?w'" using launch l(1) Some fd by simp
    ultimately show ?thesis using f w1 l(3) Some item by (auto simp: emit_def)
  qed
qed

section \<open>Properties\<close>

lemma revert_one_out: "\<exists>es. wk_out (revert_one ob w) = wk_out w @ es"
proof -
  have "\<exists>es. wk_out (fail_polls ob r w) = wk_out w @ es" for r by (simp add: fail_polls_def split: option.split)
  then show ?thesis by (simp add: revert_one_def purge_def Let_def)
qed

lemma revert_all_out: "\<exists>es. wk_out (foldl (\<lambda>w ob. revert_one ob w) w obs) = wk_out w @ es"
proof (induction obs arbitrary: w)
  case (Cons ob obs)
  obtain es where "wk_out (revert_one ob w) = wk_out w @ es" using revert_one_out by blast
  then show ?case using Cons[of "revert_one ob w"] by auto
qed simp

text \<open>A revert takes exactly what is connected to its seed through pending transactions: those transactions
  leave the pending list with a retryable error to their waiters, their objects lose live copy,
  dirty mark and log baseline, and nothing else changes, so what stays pending is whole.\<close>

theorem revert_closure_exact:
  "let R = sunk_from w seed; w' = revert_closure seed w in
     wk_pending w' = filter (\<lambda>t. set (at_participants t) \<inter> R = {}) (wk_pending w)
     \<and> (\<forall>t \<in> set (wk_pending w). set (at_participants t) \<subseteq> R \<or> set (at_participants t) \<inter> R = {})
     \<and> map_of (wk_live w') = map_of (wk_live w) |` (- R) \<and> map_of (wk_dirty w') = map_of (wk_dirty w) |` (- R)
     \<and> map_of (wk_log_seq w') = map_of (wk_log_seq w) |` (- R)
     \<and> (\<forall>t \<in> set (wk_pending w). \<forall>resp r. set (at_participants t) \<inter> R \<noteq> {} \<longrightarrow> at_waiter t = Some (resp, r) \<longrightarrow>
          Reply resp (Inl (internal ''state reverted; retry'')) \<in> set (wk_out w'))
     \<and> (boats_wf w \<longrightarrow> boats_wf w')"
proof -
  have res: "map_of (drop_keys R m) = map_of m |` (- R)" for R and m :: "(string \<times> 'x) list"
    by (auto simp: fun_eq_iff restrict_map_def)
  let ?w1 = "refuse ''state reverted; retry'' (List.map_filter at_waiter (filter (\<lambda>t. touches (at_participants t) (reverted seed w)) (wk_pending w)))
     (w\<lparr>wk_pending := filter (\<lambda>t. \<not> touches (at_participants t) (reverted seed w)) (wk_pending w)\<rparr>)"
  have "\<exists>es. wk_out (revert_closure seed w) = wk_out ?w1 @ es"
    using revert_all_out[of ?w1 "sort (reverted seed w)"] by (simp add: revert_closure_def Let_def)
  moreover have "Reply resp (Inl (internal ''state reverted; retry'')) \<in> set (wk_out ?w1)"
    if "t \<in> set (wk_pending w)" "set (at_participants t) \<inter> sunk_from w seed \<noteq> {}" "at_waiter t = Some (resp, r)" for t resp r
    using that by (force simp: refuse_def set_map_filter touches_iff set_reverted)
  ultimately have "Reply resp (Inl (internal ''state reverted; retry'')) \<in> set (wk_out (revert_closure seed w))"
    if "t \<in> set (wk_pending w)" "set (at_participants t) \<inter> sunk_from w seed \<noteq> {}" "at_waiter t = Some (resp, r)" for t resp r
    using that by (metis Un_iff set_append)
  moreover have "set (at_participants t) \<subseteq> sunk_from w seed \<or> set (at_participants t) \<inter> sunk_from w seed = {}"
    if "t \<in> set (wk_pending w)" for t
    using sunk_closed[OF that] by blast
  ultimately show ?thesis
    unfolding Let_def by (simp add: revert_closure_fields res boats_wf_revert)
qed

lemma sailing_wf: "boats_wf w \<Longrightarrow> boats_wf (sailing w)"
  by (simp add: sailing_def boats_wf_revert)

lemma sailing_owned:
  assumes "ob \<in> fst ` set (wk_dirty (sailing w))"
  shows "owns w ob"
proof (rule ccontr)
  assume no: "\<not> owns w ob"
  have sub: "set (wk_dirty (sailing w)) \<subseteq> set (wk_dirty w)" by (auto simp: sailing_def revert_closure_fields)
  then have "ob \<in> set (orphaned w)" using assms no by (auto simp: orphaned_def)
  then have "ob \<in> sunk_from w (orphaned w)" "orphaned w \<noteq> []" using seed_sunk by auto
  then show False using assms by (auto simp: sailing_def revert_closure_fields)
qed

lemma sailing_mine: "\<forall>ob \<in> fst ` set (wk_dirty (sailing w)). owns (sailing w) ob"
  using sailing_owned[of _ w] by (auto simp: owns_def sailing_def revert_closure_fields)

lemmas launch_sailing = launch_result[OF sailing_wf sailing_mine]

text \<open>The assertions of \<open>maybe_launch\<close>, from the invariant.\<close>

lemma launch_guards:
  assumes "boats_wf w"
  shows "wk_dirty_bytes w = sum_list (map snd (wk_dirty w))"
    "wk_pending (sailing w) = [] \<Longrightarrow> wk_dirty (sailing w) = []"
  using assms sailing_wf[OF assms] by (auto simp: boats_wf_def counted_def pending_objects_def)

text \<open>A launch never panics: under the invariant every object of a boat is live, and the invariant holds
  afterwards, whether the boat leaves, a file cannot be read, or nothing is launched.\<close>

theorem maybe_launch_total:
  assumes "boats_wf w"
  shows "\<exists>w'. maybe_launch en w = Ret w' \<and> boats_wf w'"
  using launch_sailing[OF assms] sailing_wf[OF assms] launch_guards[OF assms] by (auto simp: maybe_launch_def Let_def)

lemma linked_sinks:
  assumes "(linked txns)\<^sup>*\<^sup>* i j" "i < length txns" "x \<in> set (txns ! i)"
  shows "y \<in> set (txns ! j) \<Longrightarrow> (sinks txns)\<^sup>*\<^sup>* x y"
  using assms(1)
proof (induction arbitrary: y rule: rtranclp_induct)
  case base
  then have "sinks txns x y" using assms(2,3) by (auto simp: sinks_def)
  then show ?case by (rule r_into_rtranclp)
next
  case (step j k)
  then obtain z where z: "z \<in> set (txns ! j)" "z \<in> set (txns ! k)" "k < length txns" by (auto simp: linked_def)
  then have "sinks txns z y" using step.prems by (auto simp: sinks_def)
  then show ?case using step.IH[OF z(1)] by (rule rtranclp.rtrancl_into_rtrancl[rotated])
qed

text \<open>A boat carries transactions whole: each pending transaction (after orphaned ones were reverted)
  either stays pending and shares no object with the boat, or all its objects ship in this one
  boat and its waiter rides with it. Every object in the boat is owned, ships once, as
  read from its live file, on its log baseline; and the boat keeps the byte limit unless
  everything in it is one connected group.\<close>

theorem boat_carries_whole_txns:
  assumes "boats_wf w" "wk_inflight w = None" "maybe_launch en w = Ret w'" "wk_inflight w' = Some boat"
  shows "wk_pending w' = filter (stays boat) (wk_pending (sailing w))
    \<and> (\<forall>t \<in> set (wk_pending (sailing w)). stays boat t \<or> set (at_participants t) \<subseteq> set boat)
    \<and> (\<forall>ob \<in> set boat. owns w ob)
    \<and> (\<exists>items es ws. wk_out w' = wk_out (sailing w) @ es @ [LaunchShip items ws] \<and> map si_object items = boat \<and> distinct boat
        \<and> (\<forall>it \<in> set items. item_of en (sailing w) it)
        \<and> (\<forall>t \<in> set (wk_pending (sailing w)). stays boat t \<or> set_option (at_waiter t) \<subseteq> set ws))
    \<and> (sum (weight (wk_dirty (sailing w))) (set boat) \<le> wk_max_boat (sailing w)
       \<or> (\<forall>x \<in> set boat. \<forall>y \<in> set boat. (sinks (map at_participants (wk_pending (sailing w))))\<^sup>*\<^sup>* x y))"
proof -
  let ?s = "sailing w"
  let ?ct = "cut_boat (wk_max_boat ?s) (wk_pending ?s) (wk_dirty ?s)"
  have wf: "boats_wf ?s" by (rule sailing_wf[OF assms(1)])
  have idle: "wk_inflight ?s = None" using assms(2) by (simp add: sailing_def revert_closure_fields)
  have "launch en ?s = Ret w'" using assms(3,4) idle launch_guards[OF assms(1)] by (auto simp: maybe_launch_def Let_def split: if_splits)
  then obtain items es fired where l: "wk_pending w' = filter (stays (boat_of ?s)) (wk_pending ?s)" "boat = boat_of ?s"
    "wk_out w' = wk_out ?s @ es @ [LaunchShip items (boat_waiters ?s @ fired)]" "map si_object items = boat_of ?s"
    "\<forall>it \<in> set items. item_of en ?s it"
    using launch_result[OF wf sailing_mine, of en] idle assms(4) by auto
  have ne: "\<forall>t \<in> set (wk_pending ?s). at_participants t \<noteq> []" using wf by (simp add: boats_wf_def)
  note W = cut_boat_whole[OF ne, where limit = "wk_max_boat ?s" and dirty = "wk_dirty ?s"]
  note L = leftover_txns[OF ne, where limit = "wk_max_boat ?s" and dirty = "wk_dirty ?s"]
  have boat: "set boat = set (ct_objects ?ct)" "distinct boat" using W(3) by (simp_all add: l(2) boat_of_def)
  have sel: "i < length (wk_pending ?s)" if "i \<in> set (ct_selected ?ct)" for i using W(1) that by auto
  have whole: "stays boat t \<or> set (at_participants t) \<subseteq> set boat" if "t \<in> set (wk_pending ?s)" for t
    using L(2)[OF that] by (auto simp: stays_def boat)
  have owned: "owns w ob" if "ob \<in> set boat" for ob
  proof -
    obtain i where "i \<in> set (ct_selected ?ct)" "ob \<in> set (at_participants (wk_pending ?s ! i))"
      using \<open>ob \<in> set boat\<close> unfolding boat W(7) by auto
    then have "ob \<in> pending_objects ?s" using sel nth_mem by (force simp: pending_objects_def)
    then have "ob \<in> fst ` set (wk_dirty ?s)" using wf by (simp add: boats_wf_def)
    then show ?thesis by (rule sailing_owned)
  qed
  have rides: "set_option (at_waiter t) \<subseteq> set (boat_waiters ?s @ fired)" if t: "t \<in> set (wk_pending ?s)" "\<not> stays boat t" for t
  proof -
    obtain i where i: "i < length (wk_pending ?s)" "t = wk_pending ?s ! i" using t(1) by (auto simp: in_set_conv_nth)
    then have "i \<in> set (ct_selected ?ct)" using W(5)[of i] t(2) by (auto simp: stays_def boat)
    then show ?thesis using i by (auto simp: boat_waiters_def set_map_filter)
  qed
  have size: "sum (weight (wk_dirty ?s)) (set boat) \<le> wk_max_boat ?s
      \<or> (\<forall>x \<in> set boat. \<forall>y \<in> set boat. (sinks (map at_participants (wk_pending ?s)))\<^sup>*\<^sup>* x y)"
  proof (cases "sum (weight (wk_dirty ?s)) (set boat) \<le> wk_max_boat ?s")
    case False
    then have con: "(linked (map at_participants (wk_pending ?s)))\<^sup>*\<^sup>* i j"
      if "i \<in> set (ct_selected ?ct)" "j \<in> set (ct_selected ?ct)" for i j
      using cut_boat_size[where pending = "wk_pending ?s" and limit = "wk_max_boat ?s" and dirty = "wk_dirty ?s"] that unfolding boat by blast
    have "(sinks (map at_participants (wk_pending ?s)))\<^sup>*\<^sup>* x y" if xy: "x \<in> set boat" "y \<in> set boat" for x y
    proof -
      obtain i j where ij: "i \<in> set (ct_selected ?ct)" "x \<in> set (at_participants (wk_pending ?s ! i))"
        "j \<in> set (ct_selected ?ct)" "y \<in> set (at_participants (wk_pending ?s ! j))"
        using xy unfolding boat W(7) by auto
      show ?thesis using linked_sinks[OF con[OF ij(1,3)], of x y] ij sel by auto
    qed
    then show ?thesis by blast
  qed simp
  have all: "\<forall>t \<in> set (wk_pending ?s). stays boat t \<or> set_option (at_waiter t) \<subseteq> set (boat_waiters ?s @ fired)"
    using rides by blast
  have "\<exists>items es ws. wk_out w' = wk_out ?s @ es @ [LaunchShip items ws] \<and> map si_object items = boat \<and> distinct boat
        \<and> (\<forall>it \<in> set items. item_of en ?s it) \<and> (\<forall>t \<in> set (wk_pending ?s). stays boat t \<or> set_option (at_waiter t) \<subseteq> set ws)"
    by (rule exI[of _ items], rule exI[of _ es], rule exI[of _ "boat_waiters ?s @ fired"])
       (use l boat(2) all in \<open>simp only: simp_thms\<close>)
  moreover have "wk_pending w' = filter (stays boat) (wk_pending ?s)" using l(1,2) by simp
  ultimately show ?thesis using whole owned size by blast
qed

section \<open>An example\<close>

definition demo_engine :: "(bytes, unit) engine" where
  "demo_engine = \<lparr>en_open = Inr, en_file = \<lambda>_ c. Some c, en_run = \<lambda>c _ _. (Inr (Rows []), c), en_readonly = \<lambda>_ _. Inr True,
     en_begin = \<lambda>c. (Inr (), c), en_commit = \<lambda>c. (Inr (), c), en_rollback = \<lambda>c. c, en_authorize = \<lambda>_ c. c,
     en_json = \<lambda>_. [], en_page_hash = \<lambda>_. 0, en_encode = \<lambda>_. [], en_decode = \<lambda>_. Inl ''no'', en_disk = \<lambda>_. None\<rparr>"

definition idle_wrk :: "(bytes, unit) wrk" where
  "idle_wrk = \<lparr>wk_id = 1, wk_dir = ''live'', wk_owned = [], wk_transit = [], wk_live = [], wk_meta = [], wk_queues = [],
     wk_parked = [], wk_next_txn = 0, wk_executed = 0, wk_dirty = [], wk_dirty_bytes = 0, wk_pending = [], wk_manifests = [],
     wk_log_seq = [], wk_inflight = None, wk_polls = [], wk_needs_service = [], wk_closing = None, wk_done = False,
     wk_routing = \<lparr>rt_logical = 4, rt_blocks = 2, rt_exceptions = [(''a'', 1), (''b'', 1), (''c'', 1)], rt_addrs = []\<rparr>,
     wk_disk = ledger_new 1000, wk_clock = 0, wk_hysteresis = 0, wk_log_primary = True, wk_max_boat = 35, wk_max_unshipped = 100,
     wk_gone = [], wk_out = []\<rparr>"

definition busy_wrk :: "(bytes, unit) wrk" where
  "busy_wrk = idle_wrk\<lparr>wk_live := [(''a'', [1]), (''b'', [2]), (''c'', [3])], wk_dirty := [(''a'', 10), (''b'', 20), (''c'', 30)],
     wk_dirty_bytes := 60, wk_log_seq := [(''a'', 4), (''b'', 5), (''c'', 6)],
     wk_pending := [\<lparr>at_participants = [''a'', ''b''], at_waiter = Some (7, \<lparr>tr_txn_id = ''t'', tr_results = [], tr_hash = None\<rparr>)\<rparr>,
       \<lparr>at_participants = [''c''], at_waiter = None\<rparr>, \<lparr>at_participants = [''b''], at_waiter = None\<rparr>]\<rparr>"

lemma busy_wf: "boats_wf busy_wrk"
  by (auto simp: boats_wf_def busy_wrk_def idle_wrk_def counted_def bt_wf_def pending_objects_def)

lemma busy_launch: "(case maybe_launch demo_engine busy_wrk of Ret w \<Rightarrow> wk_inflight w = Some [''a'', ''b''] | Panic \<Rightarrow> False)"
  by code_simp

lemma maybe_launch_total_witness: "\<exists>w'. maybe_launch demo_engine busy_wrk = Ret w' \<and> boats_wf w'"
  by (rule maybe_launch_total[OF busy_wf])

lemma boat_carries_whole_txns_witness:
  "\<exists>w'. maybe_launch demo_engine busy_wrk = Ret w' \<and> wk_pending w' = filter (stays [''a'', ''b'']) (wk_pending (sailing busy_wrk))"
proof -
  obtain w' where w': "maybe_launch demo_engine busy_wrk = Ret w'" "wk_inflight w' = Some [''a'', ''b'']"
    using busy_launch by (auto split: rust.splits)
  have "wk_inflight busy_wrk = None" by (simp add: busy_wrk_def idle_wrk_def)
  from boat_carries_whole_txns[OF busy_wf this w'] show ?thesis using w'(1) by blast
qed

lemma revert_closure_exact_witness:
  "wk_pending (revert_closure [''a''] busy_wrk) = [\<lparr>at_participants = [''c''], at_waiter = None\<rparr>] \<and> boats_wf (revert_closure [''a''] busy_wrk)"
proof -
  have "wk_pending (revert_closure [''a''] busy_wrk) = [\<lparr>at_participants = [''c''], at_waiter = None\<rparr>]" by code_simp
  then show ?thesis using revert_closure_exact[of busy_wrk "[''a'']"] busy_wf by (simp add: Let_def)
qed

end
