(* ===== verification/Ship.thy ===== *)
theory Ship
  imports Worker_State Log_Props Fence
begin

text \<open>
  Shipping one boat, \<open>ship_task\<close> of \<open>src/src/worker.rs\<close>, as a program over the blob store: stage, pass the
  fencing gate, prewrite every item's log entry in object order, flip the commit switch; then answer
  the waiters and finish (compaction, or in the older mode promotion and cleanup), or roll back. The
  value of the task is what it sent: the answers to the waiters and the \<open>ShipDone\<close> message. What the
  clocks read and the codec of the commit record are fields of \<open>ship_ctx\<close>; \<open>sx_ledger\<close> reads the keys
  of a ledger table out of a SQLite image. The staging writes, which run concurrently in the code,
  are issued in the order of the items.
\<close>

section \<open>Items and names\<close>

definition inline_max_bytes :: nat where "inline_max_bytes = 96 * 1024"
definition log_compact_keep :: u64 where "log_compact_keep = 8"

definition object_key :: "string \<Rightarrow> key" where
  "object_key ob = ''objects/'' @ ob @ ''.db''"

definition txn_key :: "string \<Rightarrow> key" where
  "txn_key t = ''txns/'' @ t @ ''.json''"

text \<open>The part after the last slash.\<close>

definition last_part :: "string \<Rightarrow> string" where
  "last_part s = rev (takeWhile (\<lambda>c. c \<noteq> CHR ''/'') (rev s))"

definition staging_id :: "string option \<Rightarrow> nat \<Rightarrow> string" where
  "staging_id tag n = (case tag of Some t \<Rightarrow> t | None \<Rightarrow> ''boot'') @ ''-'' @ show_nat n"

definition staging_key :: "string \<Rightarrow> ship_item \<Rightarrow> key" where
  "staging_key sid it = (case si_payload it of
     ShipSnapshot _ _ \<Rightarrow> ''staging/'' @ sid @ ''/'' @ si_object it @ ''.snap''
   | ShipDelta c _ \<Rightarrow> ''staging/'' @ sid @ ''/'' @ si_object it @ ''.delta.'' @ pad0 10 (show_nat (unat c)))"

definition item_bytes :: "ship_item \<Rightarrow> bytes" where
  "item_bytes it = (case si_payload it of ShipSnapshot b _ \<Rightarrow> b | ShipDelta _ b \<Rightarrow> b)"

definition is_snapshot :: "ship_item \<Rightarrow> bool" where
  "is_snapshot it = (case si_payload it of ShipSnapshot _ _ \<Rightarrow> True | ShipDelta _ _ \<Rightarrow> False)"

definition payload_size :: "ship_item list \<Rightarrow> nat" where
  "payload_size items = sum_list (map (\<lambda>it. length (item_bytes it)) items)"

section \<open>Staging\<close>

fun stage_all :: "(key \<times> bytes) list \<Rightarrow> string option io" where
  "stage_all [] = Done None"
| "stage_all ((k, v) # rest) = io_bind (io_put k v) (\<lambda>r. io_bind (stage_all rest) (\<lambda>e. Done (case r of Inl m \<Rightarrow> Some m | Inr _ \<Rightarrow> e)))"

section \<open>The content fence\<close>

definition snapshot_regresses :: "(bytes \<Rightarrow> string list option) \<Rightarrow> string \<Rightarrow> bytes \<Rightarrow> bool io" where
  "snapshot_regresses ledger ob snap = io_bind (fold_committed ob) (\<lambda>r. Done (case r of
     Inl _ \<Rightarrow> False
   | Inr (durable, _) \<Rightarrow> (case ledger durable of
       None \<Rightarrow> False
     | Some d \<Rightarrow> (case ledger snap of None \<Rightarrow> False | Some ks \<Rightarrow> list_ex (\<lambda>k. k \<notin> set ks) d))))"

section \<open>Prewriting the boat\<close>

record ship_ctx =
  sx_log_primary :: bool
  sx_born :: u64
  sx_ttl_ms :: u64
  sx_ledger :: "bytes \<Rightarrow> string list option"
  sx_record :: "string \<Rightarrow> string list \<Rightarrow> (string \<times> string) list \<Rightarrow> bytes"
  sx_commit_clock :: "nat \<times> nat"
  sx_compact_clock :: "nat \<times> nat"

record boat =
  bo_err :: "string option"
  bo_rebased :: "string option"
  bo_prewritten :: "(string \<times> u64) list"

definition item_entry :: "string \<Rightarrow> u64 \<Rightarrow> ship_item \<Rightarrow> bytes" where
  "item_entry sid born it = entry_from_ship sid born (is_snapshot it) (item_bytes it)"

fun prewrite_items :: "ship_ctx \<Rightarrow> string \<Rightarrow> ship_item list \<Rightarrow> boat \<Rightarrow> boat io" where
  "prewrite_items cx sid [] b = Done b"
| "prewrite_items cx sid (it # items) b =
     (let ob = si_object it in
      io_bind (if is_snapshot it then snapshot_regresses (sx_ledger cx) ob (item_bytes it) else Done False) (\<lambda>regresses.
      if regresses then Done (b\<lparr>bo_rebased := Some ob,
          bo_err := Some (''snapshot for '' @ ob @ '' would erase a committed write'')\<rparr>)
      else io_bind (prewrite ob sid (item_entry sid (sx_born cx) it) (si_expected_seq it) (sx_born cx) (sx_ttl_ms cx)) (\<lambda>r.
        case r of
          Inr (Some seq) \<Rightarrow> prewrite_items cx sid items (b\<lparr>bo_prewritten := bo_prewritten b @ [(ob, seq)]\<rparr>)
        | Inr None \<Rightarrow> Done (b\<lparr>bo_rebased := Some ob, bo_err := Some (''log seq for '' @ ob @ '' superseded'')\<rparr>)
        | Inl e \<Rightarrow> Done (b\<lparr>bo_err := Some e\<rparr>))))"

definition prewrite_boat :: "ship_ctx \<Rightarrow> string \<Rightarrow> ship_item list \<Rightarrow> boat \<Rightarrow> boat io" where
  "prewrite_boat cx sid items b =
     (if bo_err b = None \<and> sx_log_primary cx then prewrite_items cx sid (sort_key si_object items) b else Done b)"

section \<open>The commit switch\<close>

definition inline_items :: "string \<Rightarrow> ship_item list \<Rightarrow> (string \<times> string) list" where
  "inline_items sid items = map (\<lambda>it. (last_part (staging_key sid it), hex (item_bytes it))) items"

definition commit_switch :: "ship_ctx \<Rightarrow> string \<Rightarrow> bool \<Rightarrow> ship_item list \<Rightarrow> boat \<Rightarrow> boat io" where
  "commit_switch cx sid inline items b =
     (if bo_err b \<noteq> None then Done b
      else if sx_log_primary cx then
        io_bind (commit_txn sid) (\<lambda>r. Done (b\<lparr>bo_err := (case r of
          Inr True \<Rightarrow> None | Inr False \<Rightarrow> Some ''commit aborted by a resolver; retry'' | Inl e \<Rightarrow> Some e)\<rparr>))
      else
        io_bind (io_put (txn_key sid) (sx_record cx sid (map si_object items) (if inline then inline_items sid items else []))) (\<lambda>r.
          Done (b\<lparr>bo_err := (case r of Inr _ \<Rightarrow> None | Inl e \<Rightarrow> Some e)\<rparr>)))"

text \<open>Everything up to the decision.\<close>

definition no_boat :: boat where
  "no_boat = \<lparr>bo_err = None, bo_rebased = None, bo_prewritten = []\<rparr>"

definition ship_commit :: "ship_ctx \<Rightarrow> string \<Rightarrow> ship_item list \<Rightarrow> fence \<Rightarrow> (boat \<times> fence) io" where
  "ship_commit cx sid items f =
     (let inline = payload_size items \<le> inline_max_bytes in
      io_bind (if inline then Done None else stage_all (map (\<lambda>it. (staging_key sid it, item_bytes it)) items)) (\<lambda>staged.
      io_bind (case staged of
          Some e \<Rightarrow> Done (Some e, f)
        | None \<Rightarrow> commit_gate (fst (sx_commit_clock cx)) (snd (sx_commit_clock cx)) f) (\<lambda>(err, f).
      io_bind (prewrite_boat cx sid items (no_boat\<lparr>bo_err := err\<rparr>)) (\<lambda>b.
      io_bind (commit_switch cx sid inline items b) (\<lambda>b. Done (b, f))))))"

section \<open>After the decision\<close>

record ship_report =
  sd_objects :: "string list"
  sd_ok :: bool
  sd_unpromoted :: "string list"
  sd_rebased :: "string option"

definition home_key :: "ship_item \<Rightarrow> key" where
  "home_key it = (case si_payload it of
     ShipSnapshot _ _ \<Rightarrow> object_key (si_object it) | ShipDelta c _ \<Rightarrow> delta_key (si_object it) c)"

text \<open>Promotion of the older mode: the objects whose put failed.\<close>

fun promote_items :: "ship_item list \<Rightarrow> string list io" where
  "promote_items [] = Done []"
| "promote_items (it # items) = io_bind (io_put (home_key it) (item_bytes it)) (\<lambda>r.
     io_bind (promote_items items) (\<lambda>rest. Done (case r of Inl _ \<Rightarrow> si_object it # rest | Inr _ \<Rightarrow> rest)))"

fun compact_all :: "string list \<Rightarrow> unit io" where
  "compact_all [] = Done ()"
| "compact_all (ob # obs) = io_bind (compact_log ob log_compact_keep) (\<lambda>_. compact_all obs)"

fun delete_all :: "key list \<Rightarrow> unit io" where
  "delete_all [] = Done ()"
| "delete_all (k # ks) = io_bind (io_delete k) (\<lambda>_. delete_all ks)"

text \<open>The deltas a shipped snapshot made superfluous.\<close>

fun gc_items :: "ship_item list \<Rightarrow> unit io" where
  "gc_items [] = Done ()"
| "gc_items (it # items) = io_bind (case si_payload it of
       ShipSnapshot bs True \<Rightarrow> io_bind (io_list (delta_prefix (si_object it))) (\<lambda>r. case r of
           Inl _ \<Rightarrow> Done ()
         | Inr keys \<Rightarrow> delete_all (filter (\<lambda>k. case parse_delta_counter k (si_object it) of
               Some c \<Rightarrow> c \<le> change_counter bs | None \<Rightarrow> False) keys))
     | _ \<Rightarrow> Done ()) (\<lambda>_. gc_items items)"

definition ship_landed :: "ship_ctx \<Rightarrow> string \<Rightarrow> ship_item list \<Rightarrow> fence \<Rightarrow> (ship_report \<times> fence) io" where
  "ship_landed cx sid items f =
     (let inline = payload_size items \<le> inline_max_bytes; obs = map si_object items in
      io_bind (if sx_log_primary cx then Done [] else promote_items items) (\<lambda>unpromoted.
      io_bind (if sx_log_primary cx then
          io_bind (verify_leases (fst (sx_compact_clock cx)) (snd (sx_compact_clock cx)) f) (\<lambda>(held, f).
            io_bind (if held then compact_all obs else Done ()) (\<lambda>_. Done f))
        else Done f) (\<lambda>f.
      io_bind (if unpromoted = [] \<and> \<not> sx_log_primary cx then
          io_bind (if inline then Done () else delete_all (map (staging_key sid) items)) (\<lambda>_.
          io_bind (io_delete (txn_key sid)) (\<lambda>_. gc_items items))
        else Done ()) (\<lambda>_.
      Done (\<lparr>sd_objects = obs, sd_ok = True, sd_unpromoted = unpromoted, sd_rebased = None\<rparr>, f)))))"

fun clear_entries :: "string \<Rightarrow> (string \<times> u64) list \<Rightarrow> unit io" where
  "clear_entries sid [] = Done ()"
| "clear_entries sid ((ob, seq) # rest) = io_bind (clear_entry ob seq sid) (\<lambda>_. clear_entries sid rest)"

definition ship_lost :: "string \<Rightarrow> ship_item list \<Rightarrow> boat \<Rightarrow> ship_report io" where
  "ship_lost sid items b =
     io_bind (clear_entries sid (bo_prewritten b)) (\<lambda>_.
     io_bind (if payload_size items \<le> inline_max_bytes then Done () else delete_all (map (staging_key sid) items)) (\<lambda>_.
     Done \<lparr>sd_objects = map si_object items, sd_ok = False, sd_unpromoted = [], sd_rebased = bo_rebased b\<rparr>))"

text \<open>The whole task. The waiters of a boat that landed are answered before what \<open>ship_landed\<close> does.\<close>

definition ship_task :: "ship_ctx \<Rightarrow> string \<Rightarrow> ship_item list \<Rightarrow> 'v waiter list \<Rightarrow> fence
    \<Rightarrow> ('v event list \<times> ship_report \<times> fence) io" where
  "ship_task cx sid items waiters f =
     io_bind (ship_commit cx sid items f) (\<lambda>(b, f). case bo_err b of
       None \<Rightarrow> io_bind (ship_landed cx sid items f) (\<lambda>(report, f).
         Done (map (\<lambda>(resp, r). Reply resp (Inr r)) waiters, report, f))
     | Some e \<Rightarrow> io_bind (ship_lost sid items b) (\<lambda>report.
         Done (map (\<lambda>(resp, _). Reply resp (Inl (internal (''commit failed: '' @ e)))) waiters, report, f)))"

section \<open>Recovery\<close>

definition rsplit_once :: "string \<Rightarrow> string \<Rightarrow> (string \<times> string) option" where
  "rsplit_once sep s = map_option (\<lambda>i. (take i s, drop (i + length sep) s))
     (List.find (\<lambda>i. starts_with (drop i s) sep) (rev [0..<Suc (length s)]))"

text \<open>A staged blob goes to its home by its name: a snapshot only forward in the change counter.\<close>

definition promote_staged :: "key \<Rightarrow> bytes \<Rightarrow> unit result io" where
  "promote_staged staged bs =
     (let name = last_part staged in
      case strip_suffix ''.snap'' name of
        Some ob \<Rightarrow> io_try (io_get_range (object_key ob) 24 4) (\<lambda>cur.
          if (case cur of Some c \<Rightarrow> length c = 4 \<and> change_counter bs \<le> word_of_nat (of_be c) | None \<Rightarrow> False) then ok ()
          else io_put (object_key ob) bs)
      | None \<Rightarrow> (case rsplit_once ''.delta.'' name of
          Some (ob, counter) \<Rightarrow> io_put (''objects/'' @ ob @ ''.d.'' @ counter) bs
        | None \<Rightarrow> ok ()))"

record txn_record =
  tx_id :: string
  tx_objects :: "string list"
  tx_inline :: "(string \<times> string) list"

fun promote_listed :: "key list \<Rightarrow> unit result io" where
  "promote_listed [] = ok ()"
| "promote_listed (k # ks) = io_try (io_get k) (\<lambda>blob.
     io_try (case blob of Some bs \<Rightarrow> promote_staged k bs | None \<Rightarrow> ok ()) (\<lambda>_.
     io_try (io_delete k) (\<lambda>_. promote_listed ks)))"

text \<open>Hexadecimal that does not decode is skipped; a slice inside a character unwinds the task.\<close>

fun promote_inline :: "(string \<times> string) list \<Rightarrow> unit result io" where
  "promote_inline [] = ok ()"
| "promote_inline ((name, hexed) # rest) =
     io_try (case unhex hexed of
         Ret (Some bs) \<Rightarrow> promote_staged name bs | Ret None \<Rightarrow> ok () | Panic \<Rightarrow> fail ''panicked'') (\<lambda>_. promote_inline rest)"

definition roll_forward :: "key \<Rightarrow> txn_record \<Rightarrow> unit result io" where
  "roll_forward k r =
     io_try (if tx_inline r = [] then io_try (io_list (''staging/'' @ tx_id r @ ''/'')) promote_listed
             else promote_inline (tx_inline r)) (\<lambda>_. io_delete k)"

fun recover_touching :: "(bytes \<Rightarrow> txn_record option) \<Rightarrow> string \<Rightarrow> key list \<Rightarrow> unit result io" where
  "recover_touching dec ob [] = ok ()"
| "recover_touching dec ob (k # ks) = io_try (io_get k) (\<lambda>blob.
     io_try (case Option.bind blob dec of
         Some r \<Rightarrow> if ob \<in> set (tx_objects r) then roll_forward k r else ok ()
       | None \<Rightarrow> ok ()) (\<lambda>_. recover_touching dec ob ks))"

definition recover_records_touching :: "bool \<Rightarrow> (bytes \<Rightarrow> txn_record option) \<Rightarrow> string \<Rightarrow> unit result io" where
  "recover_records_touching log_primary dec ob =
     (if log_primary then ok () else io_try (io_list ''txns/'') (recover_touching dec ob))"

fun recover_records :: "(bytes \<Rightarrow> txn_record option) \<Rightarrow> key list \<Rightarrow> unit result io" where
  "recover_records dec [] = ok ()"
| "recover_records dec (k # ks) = io_try (io_get k) (\<lambda>blob.
     io_try (case blob of
         None \<Rightarrow> ok ()
       | Some bs \<Rightarrow> (case dec bs of None \<Rightarrow> io_delete k | Some r \<Rightarrow> roll_forward k r)) (\<lambda>_. recover_records dec ks))"

fun discard_all :: "key list \<Rightarrow> unit result io" where
  "discard_all [] = ok ()"
| "discard_all (k # ks) = io_try (io_delete k) (\<lambda>_. discard_all ks)"

definition recover :: "bool \<Rightarrow> (bytes \<Rightarrow> txn_record option) \<Rightarrow> unit result io" where
  "recover log_primary dec =
     (if log_primary then ok ()
      else io_try (io_list ''txns/'') (\<lambda>keys. io_try (recover_records dec keys) (\<lambda>_.
        io_try (io_list ''staging/'') discard_all)))"

end
