(* ===== verification/Ship_Props.thy ===== *)
theory Ship_Props
  imports Ship
begin

text \<open>
  The properties of \<open>ship_task\<close> with log entries as the durable state. Among other tasks: an answered boat is
  decided for ever. Alone: the boat publishes exactly its items, all or none. And what rolling back
  does when reading the decision fails.
\<close>

section \<open>Requests of a boat\<close>

lemma staging_not_outcome [simp]: "\<not> is_outcome_key (staging_key sid it)"
  by (simp add: staging_key_def is_outcome_key_def starts_with_def split: ship_payload.split)

lemma asks_regresses: "asks keeps_outcomes (snapshot_regresses ledger ob snap)"
  unfolding snapshot_regresses_def by (rule asks_bind) (simp_all add: asks_reads_keep)

lemma asks_prewrite_items: "asks keeps_outcomes (prewrite_items cx sid items b)"
proof (induction cx sid items b rule: prewrite_items.induct)
  case (2 cx sid it items b)
  then show ?case
    by (auto simp: Let_def intro!: asks_bind asks_regresses asks_prewrite split: sum.split option.split)
qed simp

lemma asks_stage: "\<forall>(k, v) \<in> set kvs. \<not> is_outcome_key k \<Longrightarrow> asks keeps_outcomes (stage_all kvs)"
  by (induction kvs rule: stage_all.induct) (auto simp: asks_ops intro!: asks_bind)

lemma asks_verify: "asks keeps_outcomes (verify_leases tick wall f)" "asks keeps_outcomes (commit_gate tick wall f)"
  unfolding commit_gate_def verify_leases_def
  by (auto simp: asks_ops intro!: asks_bind split: sum.split option.split)

lemma asks_ship_commit: "sx_log_primary cx \<Longrightarrow> asks keeps_outcomes (ship_commit cx sid items f)"
  unfolding ship_commit_def prewrite_boat_def commit_switch_def Let_def
  by (auto simp: asks_stage asks_verify asks_prewrite_items asks_commit intro!: asks_bind
      split: option.split if_splits prod.split)

lemma asks_compact_all: "asks keeps_outcomes (compact_all obs)"
  by (induction obs) (auto intro!: asks_bind asks_others)

lemma asks_delete_all: "\<forall>k \<in> set ks. \<not> is_outcome_key k \<Longrightarrow> asks keeps_outcomes (delete_all ks)"
  by (induction ks) (auto simp: asks_ops intro!: asks_bind)

lemma asks_clear_entries: "asks keeps_outcomes (clear_entries sid pw)"
  by (induction sid pw rule: clear_entries.induct) (auto intro!: asks_bind asks_others)

lemma asks_ship_landed: "sx_log_primary cx \<Longrightarrow> asks keeps_outcomes (ship_landed cx sid items f)"
  unfolding ship_landed_def Let_def
  by (auto simp: asks_verify asks_compact_all intro!: asks_bind split: prod.split)

lemma asks_ship_lost: "asks keeps_outcomes (ship_lost sid items b)"
  unfolding ship_lost_def by (auto simp: asks_clear_entries asks_delete_all intro!: asks_bind)

lemma asks_ship_task: "sx_log_primary cx \<Longrightarrow> asks keeps_outcomes (ship_task cx sid items ws f)"
  unfolding ship_task_def
  by (auto simp: asks_ship_commit asks_ship_landed asks_ship_lost intro!: asks_bind split: option.split prod.split)

section \<open>An answered boat is decided\<close>

text \<open>What holds and is kept by everybody still holds at the end, and the value is as the program says.\<close>

lemma safe_keeps:
  assumes "transp R" "\<And>q s. Q q \<Longrightarrow> R s (snd (serve q s))" "\<And>s s'. P s \<Longrightarrow> R s s' \<Longrightarrow> P s'"
  shows "asks Q p \<Longrightarrow> returns V p \<Longrightarrow> P s \<Longrightarrow> safe F R (\<lambda>x t. P t \<and> V x) p s"
proof (induction p arbitrary: s)
  case (Do q c)
  have P: "P s'" "P (snd (serve q s'))" if "R s s'" for s'
  proof -
    show "P s'" by (rule assms(3)[OF Do.prems(3) that])
    then show "P (snd (serve q s'))" by (rule assms(3)) (use assms(2) Do.prems(1) in simp)
  qed
  show ?case using Do.IH[OF rangeI] Do.prems P by simp
qed (use assms(3) in auto)

lemma decided_kept: "txn_outcome s t = Some True \<Longrightarrow> decided s s' \<Longrightarrow> txn_outcome s' t = Some True"
  by (simp add: decided_def)

definition answered :: "'v event list \<times> ship_report \<times> fence \<Rightarrow> bool" where
  "answered res \<longleftrightarrow> (case res of (sent, report, _) \<Rightarrow> sd_ok report \<or> (\<exists>resp r. Reply resp (Inr r) \<in> set sent))"

lemma stable_answered: "stable decided (\<lambda>res s. answered res \<longrightarrow> txn_outcome s t = Some True)"
  by (auto simp: stable_def decided_def)

lemma stable_imp: "stable decided (\<lambda>r s. P r \<longrightarrow> txn_outcome s t = Some True)"
  by (auto simp: stable_def decided_def)

lemma returns_lost: "returns (\<lambda>report. \<not> sd_ok report) (ship_lost sid items b)"
  unfolding ship_lost_def by (auto intro!: returns_after)

lemma safe_commit_switch:
  assumes "sx_log_primary cx"
  shows "safe F decided (\<lambda>b t. bo_err b = None \<longrightarrow> txn_outcome t sid = Some True) (commit_switch cx sid inline items b) s"
proof (cases "bo_err b")
  case (Some e)
  then show ?thesis by (simp add: commit_switch_def)
next
  case None
  let ?post = "\<lambda>b t. bo_err b = None \<longrightarrow> txn_outcome t sid = Some True"
  have "safe F decided ?post (Done (b\<lparr>bo_err := (case r of
          Inr True \<Rightarrow> None | Inr False \<Rightarrow> Some ''commit aborted by a resolver; retry'' | Inl e \<Rightarrow> Some e)\<rparr>)) t"
    if "r = Inr True \<longrightarrow> txn_outcome t sid = Some True" for r t
  proof (rule safe_Done)
    show "stable decided ?post" by (rule stable_imp)
  qed (use that in \<open>auto split: sum.splits bool.splits\<close>)
  then show ?thesis
    using None assms unfolding commit_switch_def
    by (auto intro!: safe_bind[OF decided_preorder(1)] safe_conseq[OF safe_commit] simp del: safe.simps)
qed

lemma safe_ship_commit:
  assumes "sx_log_primary cx"
  shows "safe F decided (\<lambda>(b, _) t. bo_err b = None \<longrightarrow> txn_outcome t sid = Some True) (ship_commit cx sid items f) s"
proof -
  let ?post = "\<lambda>(b, f' :: fence) t. bo_err b = None \<longrightarrow> txn_outcome t sid = Some True"
  have fin: "safe F decided ?post (io_bind (commit_switch cx sid inline items b) (\<lambda>b. Done (b, f'))) t" for inline b f' t
  proof (rule safe_bind[OF decided_preorder(1)], rule safe_conseq[OF safe_commit_switch[OF assms]])
    fix b' u assume "bo_err b' = None \<longrightarrow> txn_outcome u sid = Some True"
    then show "safe F decided ?post (Done (b', f')) u" by (auto simp: decided_def)
  qed
  show ?thesis
    unfolding ship_commit_def Let_def
    by (rule safe_bind[OF decided_preorder(1)], rule safe_conseq[OF safe_True],
        rule safe_bind[OF decided_preorder(1)], rule safe_conseq[OF safe_True],
        simp only: split_beta, rule safe_bind[OF decided_preorder(1)], rule safe_conseq[OF safe_True], rule fin)
qed

lemma safe_after_commit:
  fixes ws :: "'v waiter list"
  assumes "sx_log_primary cx" "bo_err b = None \<longrightarrow> txn_outcome t sid = Some True"
  shows "safe F decided (\<lambda>res t. answered res \<longrightarrow> txn_outcome t sid = Some True) (case bo_err b of
       None \<Rightarrow> io_bind (ship_landed cx sid items f) (\<lambda>(report, f).
         Done (map (\<lambda>(resp, r). Reply resp (Inr r)) ws, report, f))
     | Some e \<Rightarrow> io_bind (ship_lost sid items b) (\<lambda>report.
         Done (map (\<lambda>(resp, _). Reply resp (Inl (internal (''commit failed: '' @ e)))) ws, report, f))) t"
proof (cases "bo_err b")
  case None
  let ?p = "io_bind (ship_landed cx sid items f) (\<lambda>(report, f).
       Done (map (\<lambda>(resp, r). Reply resp (Inr r)) ws, report, f))"
  have "asks keeps_outcomes ?p" by (auto intro!: asks_bind asks_ship_landed[OF assms(1)])
  moreover have "returns (\<lambda>_. True) ?p" by (auto intro: returns_after)
  ultimately have "safe F decided (\<lambda>x u. txn_outcome u sid = Some True \<and> True) ?p t"
    using assms(2) None by (intro safe_keeps[OF decided_preorder(2) keeps_outcomes_step decided_kept]) auto
  then show ?thesis using None by (auto elim: safe_conseq)
next
  case (Some e)
  have "safe F decided (\<lambda>report _. True \<and> \<not> sd_ok report) (ship_lost sid items b) t"
    by (rule safe_keeps[OF decided_preorder(2) keeps_outcomes_step _ asks_ship_lost returns_lost]) simp_all
  then have "safe F decided (\<lambda>res t. answered res \<longrightarrow> txn_outcome t sid = Some True) (io_bind (ship_lost sid items b) (\<lambda>report.
       Done (map (\<lambda>(resp, _). Reply resp (Inl (internal (''commit failed: '' @ e)))) ws, report, f))) t"
    by (intro safe_bind[OF decided_preorder(1)], elim safe_conseq) (auto simp: answered_def)
  then show ?thesis using Some by simp
qed

lemma safe_ship_task:
  assumes "sx_log_primary cx"
  shows "safe F decided (\<lambda>res t. answered res \<longrightarrow> txn_outcome t sid = Some True) (ship_task cx sid items ws f) s"
  unfolding ship_task_def
  by (rule safe_bind[OF decided_preorder(1)], rule safe_conseq[OF safe_ship_commit[OF assms]])
     (simp only: split_beta, rule safe_after_commit[OF assms])

section \<open>A boat alone\<close>

text \<open>The store beside a boat's own prewrites: the entries of the transaction are the items done so far, and
  otherwise a reader sees what there was.\<close>

definition item_log_entry :: "ship_ctx \<Rightarrow> string \<Rightarrow> ship_item \<Rightarrow> log_entry" where
  "item_log_entry cx sid it = \<lparr>e_txn = sid, e_born = sx_born cx,
     e_payload = (if is_snapshot it then Snapshot (item_bytes it) else DeltaPayload (item_bytes it))\<rparr>"

definition item_slot :: "ship_item \<Rightarrow> string \<times> u64" where
  "item_slot it = (si_object it, si_expected_seq it + 1)"

definition own_entries :: "string \<Rightarrow> mem \<Rightarrow> ((string \<times> u64) \<times> log_entry) set" where
  "own_entries sid t = {((ob, q), e). entry_at t ob q = Some e \<and> e_txn e = sid}"

definition beside :: "mem \<Rightarrow> string \<Rightarrow> ((string \<times> u64) \<times> log_entry) set \<Rightarrow> mem \<Rightarrow> bool" where
  "beside s sid E t \<longleftrightarrow> mem_wf t \<and> txn_outcome t sid = None \<and> own_entries sid t = E
     \<and> (\<forall>ob q. committed_at t ob q = committed_at s ob q)
     \<and> (\<forall>ob. canonical_log s ob \<longrightarrow> canonical_log t ob) \<and> (\<forall>ob. base_of t ob = base_of s ob)"

lemma beside_view: "beside s sid E t \<Longrightarrow> log_view t ob base b es q \<longleftrightarrow> log_view s ob base b es q"
proof -
  assume "beside s sid E t"
  then have "committed_at t ob = committed_at s ob" "base_of t ob = base_of s ob" by (auto simp: beside_def fun_eq_iff)
  then show ?thesis by (simp add: log_view_def)
qed

lemma decode_item_entry:
  "length sid < 2 ^ 16 \<Longrightarrow> is_utf8 (string_bytes sid) \<Longrightarrow> decode_entry (item_entry sid (sx_born cx) it) = Some (item_log_entry cx sid it)"
  by (simp add: item_entry_def item_log_entry_def entry_from_ship_def decode_encode_entry)

text \<open>What a prewrite does to the entries when the slot is not already the transaction's.\<close>

lemma prewrite_spec_entries:
  assumes "prewrite_spec s oid txn entry slot now_ms ttl_ms = (r, s')" "\<forall>e. entry_at s oid slot = Some e \<longrightarrow> e_txn e \<noteq> txn"
  shows "r = None \<Longrightarrow> s' = s" "r \<noteq> None \<Longrightarrow> r = Some slot
     \<and> entry_at s' ob q = (if ob = oid \<and> q = slot then decode_entry entry else entry_at s ob q)"
    "txn_outcome s' txn = txn_outcome s txn"
proof -
  have held: "e_txn e \<noteq> txn" if "mem_get s (log_key oid slot) = Some v" "decode_entry v = Some e" for v e
    using assms(2) that by (simp add: entry_at_def)
  show "r = None \<Longrightarrow> s' = s"
    using assms(1) by (auto simp: prewrite_spec_def Let_def split: option.splits if_splits bool.splits)
  show "r \<noteq> None \<Longrightarrow> r = Some slot
     \<and> entry_at s' ob q = (if ob = oid \<and> q = slot then decode_entry entry else entry_at s ob q)"
    using assms(1) held by (auto simp: prewrite_spec_def Let_def split: option.splits if_splits bool.splits)
  show "txn_outcome s' txn = txn_outcome s txn"
    using assms(1) held by (auto simp: prewrite_spec_def Let_def key_simps split: option.splits if_splits bool.splits)
qed

lemma beside_prewrite:
  assumes b: "beside s sid E t" and spec: "prewrite_spec t ob sid (item_entry sid (sx_born cx) it) (q + 1) now_ms ttl_ms = (r, t')"
    and view: "log_view s ob base bq es q" "q < q + 1" and free: "\<forall>e. ((ob, q + 1), e) \<notin> E"
    and name: "length sid < 2 ^ 16" "is_utf8 (string_bytes sid)"
  shows "case r of None \<Rightarrow> t' = t | Some slot \<Rightarrow> slot = q + 1 \<and> beside s sid (insert ((ob, q + 1), item_log_entry cx sid it) E) t'"
proof -
  note dec = decode_item_entry[OF name, of cx it]
  have free': "\<forall>e. entry_at t ob (q + 1) = Some e \<longrightarrow> e_txn e \<noteq> sid" using b free by (auto simp: beside_def own_entries_def)
  note ent = prewrite_spec_entries[OF spec free']
  show ?thesis
  proof (cases r)
    case None
    then show ?thesis using ent(1) by simp
  next
    case (Some slot)
    have wf: "mem_wf t" using b by (simp add: beside_def)
    have "committed_at s ob (q + 1) = None" using view by (simp add: log_view_def ends_at_def)
    then have none: "committed_at t ob (q + 1) = None" using b by (simp add: beside_def)
    have comm: "committed_at t' ob' q' = committed_at t ob' q'" for ob' q'
      by (rule prewrite_spec_invisible[OF none _ _ spec]) (use b dec in \<open>auto simp: beside_def item_log_entry_def\<close>)
    note keys = prewrite_spec_keys[OF spec wf]
    have "own_entries sid t' = insert ((ob, q + 1), item_log_entry cx sid it) (own_entries sid t)"
      using ent(2) Some dec free' by (auto simp: own_entries_def item_log_entry_def split: if_splits)
    then show ?thesis using b Some ent(2,3) comm keys by (auto simp: beside_def)
  qed
qed

lemma run_regresses: "snd (run_io (snapshot_regresses ledger ob snap) t) = t"
proof (rule run_io_reads)
  show "asks (\<lambda>q. \<not> mutating q) (snapshot_regresses ledger ob snap)"
    unfolding snapshot_regresses_def
    by (rule asks_bind, rule asks_mono[OF asks_log_reads(2)]) (simp_all add: reads_only_def)
qed

definition written :: "ship_ctx \<Rightarrow> string \<Rightarrow> ship_item list \<Rightarrow> ((string \<times> u64) \<times> log_entry) set" where
  "written cx sid items = (\<lambda>it. (item_slot it, item_log_entry cx sid it)) ` set items"

definition shippable :: "mem \<Rightarrow> ship_item list \<Rightarrow> bool" where
  "shippable s items \<longleftrightarrow> distinct (map si_object items)
     \<and> (\<forall>it \<in> set items. canonical_log s (si_object it) \<and> si_expected_seq it < si_expected_seq it + 1)"

lemma run_prewrite_items:
  assumes "length sid < 2 ^ 16" "is_utf8 (string_bytes sid)"
  shows "beside s sid (written cx sid before) t \<Longrightarrow> shippable s (before @ items) \<Longrightarrow> bo_prewritten b = map item_slot before
    \<Longrightarrow> bo_err b = None \<Longrightarrow> run_io (prewrite_items cx sid items b) t = (b', t')
    \<Longrightarrow> \<exists>did. beside s sid (written cx sid did) t' \<and> bo_prewritten b' = map item_slot did
          \<and> (bo_err b' = None \<longrightarrow> did = before @ items)"
proof (induction items arbitrary: before b t)
  case Nil
  then show ?case by (auto simp: io_simps)
next
  case (Cons it items)
  let ?ob = "si_object it" and ?q = "si_expected_seq it"
  obtain g where g: "run_io (if is_snapshot it then snapshot_regresses (sx_ledger cx) ?ob (item_bytes it) else Done False) t = (g, t)"
    using run_regresses[of "sx_ledger cx" ?ob "item_bytes it" t] by (cases "is_snapshot it") (simp_all add: prod_eq_iff io_simps)
  show ?case
  proof (cases g)
    case True
    then show ?thesis using Cons.prems g by (auto simp: Let_def io_simps)
  next
    case False
    have canon: "mem_wf t" "canonical_log t ?ob" "?q < ?q + 1" using Cons.prems(1,2) by (auto simp: beside_def shippable_def)
    obtain base bq es q where v: "log_view t ?ob base bq es q" using log_view_exists[OF canon(1,2)] by blast
    obtain r u where pw: "run_io (prewrite ?ob sid (item_entry sid (sx_born cx) it) ?q (sx_born cx) (sx_ttl_ms cx)) t = (r, u)" by force
    have later: "run_io (prewrite_items cx sid (it # items) b) t =
        (case r of Inr (Some seq) \<Rightarrow> run_io (prewrite_items cx sid items (b\<lparr>bo_prewritten := bo_prewritten b @ [(?ob, seq)]\<rparr>)) u
         | Inr None \<Rightarrow> (b\<lparr>bo_rebased := Some ?ob, bo_err := Some (''log seq for '' @ ?ob @ '' superseded'')\<rparr>, u)
         | Inl e \<Rightarrow> (b\<lparr>bo_err := Some e\<rparr>, u))"
      using g False pw by (auto simp: Let_def io_simps split: sum.split option.split)
    show ?thesis
    proof (cases "q = ?q \<and> fst (prewrite_spec t ?ob sid (item_entry sid (sx_born cx) it) (?q + 1) (sx_born cx) (sx_ttl_ms cx)) \<noteq> None")
      case True
      obtain slot u' where spec: "prewrite_spec t ?ob sid (item_entry sid (sx_born cx) it) (?q + 1) (sx_born cx) (sx_ttl_ms cx) = (Some slot, u')"
        using True by (metis not_None_eq prod.collapse)
      have r: "r = Inr (Some slot)" "u = u'" using run_prewrite[OF canon(1,2) v] True spec pw by auto
      have "?ob \<notin> si_object ` set before" using Cons.prems(2) by (auto simp: shippable_def)
      then have free: "\<forall>e. ((?ob, ?q + 1), e) \<notin> written cx sid before" by (auto simp: written_def item_slot_def)
      have "log_view s ?ob base bq es ?q" using v True beside_view[OF Cons.prems(1)] by blast
      from beside_prewrite[OF Cons.prems(1) spec this canon(3) free assms]
      have slot: "slot = ?q + 1" "beside s sid (insert ((?ob, ?q + 1), item_log_entry cx sid it) (written cx sid before)) u'" by auto
      have "written cx sid (before @ [it]) = insert ((?ob, ?q + 1), item_log_entry cx sid it) (written cx sid before)"
        by (simp add: written_def item_slot_def)
      then show ?thesis
        using Cons.IH[of "before @ [it]" u' "b\<lparr>bo_prewritten := bo_prewritten b @ [(?ob, slot)]\<rparr>"] Cons.prems slot later r
        by (simp add: item_slot_def)
    next
      case False
      have "r = Inr None \<and> u = t"
      proof (cases "q = ?q")
        case True
        then obtain u' where spec: "prewrite_spec t ?ob sid (item_entry sid (sx_born cx) it) (?q + 1) (sx_born cx) (sx_ttl_ms cx) = (None, u')"
          using False by (metis prod.collapse)
        have "?ob \<notin> si_object ` set before" using Cons.prems(2) by (auto simp: shippable_def)
        then have "\<forall>e. ((?ob, ?q + 1), e) \<notin> written cx sid before" by (auto simp: written_def item_slot_def)
        then have "\<forall>e. entry_at t ?ob (?q + 1) = Some e \<longrightarrow> e_txn e \<noteq> sid"
          using Cons.prems(1) by (auto simp: beside_def own_entries_def)
        then have "u' = t" using prewrite_spec_entries(1)[OF spec] by simp
        then show ?thesis using run_prewrite[OF canon(1,2) v] True spec pw by auto
      next
        case False
        then show ?thesis using run_prewrite[OF canon(1,2) v] pw by auto
      qed
      then show ?thesis using later Cons.prems by auto
    qed
  qed
qed

text \<open>Keys outside the log: what is staged is invisible.\<close>

definition foreign :: "key \<Rightarrow> bool" where
  "foreign k \<longleftrightarrow> (\<forall>ob. parse_log_seq k ob = None \<and> parse_base_seq k ob = None) \<and> (\<forall>t. k \<noteq> outcome_key t)"

lemma foreign_staging [simp]: "foreign (staging_key sid it)"
  by (auto simp: foreign_def staging_key_def parse_log_seq_def parse_base_seq_def strip_prefix_def starts_with_def
      log_prefix_def base_prefix_def outcome_key_def split: ship_payload.split)

lemma foreign_other: "foreign k \<Longrightarrow> k \<noteq> log_key ob q \<and> k \<noteq> outcome_key t"
  unfolding foreign_def by (metis option.distinct(1) parse_log_key)

lemma beside_foreign:
  assumes "beside s sid E t" "foreign k" "t' = mem_put k v t \<or> t' = mem_delete k t"
  shows "beside s sid E t'"
proof -
  have wf: "mem_wf t" "mem_wf t'" using assms(1,3) by (auto simp: beside_def)
  have get: "mem_get t' k' = mem_get t k'" if "k' \<noteq> k" for k' using assms(3) that by auto
  have ent: "entry_at t' ob q = entry_at t ob q" for ob q using get foreign_other[OF assms(2)] by (metis entry_at_def)
  have out: "txn_outcome t' x = txn_outcome t x" for x using get foreign_other[OF assms(2)] by (metis txn_outcome_def)
  have "committed_at t' ob q = committed_at t ob q" for ob q by (simp add: committed_at_def ent out split: option.split)
  moreover have "base_of t' ob = base_of t ob" for ob
    by (rule base_of_cong[OF wf]) (metis get assms(2) foreign_def)
  moreover have "canonical_log t' ob" if "canonical_log t ob" for ob
    using that get assms(2) unfolding canonical_log_iff[OF wf(1)] canonical_log_iff[OF wf(2)]
    by (metis foreign_def option.distinct(1))
  ultimately show ?thesis using assms(1) wf(2) by (simp add: beside_def own_entries_def ent out)
qed

lemma run_stage_all:
  "beside s sid E t \<Longrightarrow> \<forall>(k, v) \<in> set kvs. foreign k \<Longrightarrow> run_io (stage_all kvs) t = (r, t') \<Longrightarrow> r = None \<and> beside s sid E t'"
proof (induction kvs arbitrary: t r rule: stage_all.induct)
  case (2 k v rest)
  have "beside s sid E (mem_put k v t)" by (rule beside_foreign[OF 2(2)]) (use 2(3) in auto)
  from 2(1)[OF this] 2(3,4) show ?case by (cases "run_io (stage_all rest) (mem_put k v t)") (auto simp: io_simps)
qed (simp add: io_simps)

lemma run_delete_all:
  "beside s sid E t \<Longrightarrow> \<forall>k \<in> set ks. foreign k \<Longrightarrow> beside s sid E (snd (run_io (delete_all ks) t))"
proof (induction ks arbitrary: t)
  case (Cons k ks)
  have "beside s sid E (mem_delete k t)" by (rule beside_foreign[OF Cons.prems(1)]) (use Cons.prems(2) in auto)
  then show ?case using Cons by (simp add: io_simps)
qed (simp add: io_simps)

lemma run_gate: "snd (run_io (commit_gate tick wall f) t) = t" "snd (run_io (verify_leases tick wall f) t) = t"
  by (simp_all add: commit_gate_def io_simps split_beta split: option.split)

text \<open>Up to the decision.\<close>

lemma written_sort [simp]: "written cx sid (sort_key f items) = written cx sid items"
  by (simp add: written_def)

lemma shippable_sort: "shippable s items \<Longrightarrow> shippable s (sort_key f items)"
  by (simp add: shippable_def distinct_map)

text \<open>What a reader sees once the boat has landed.\<close>

definition published :: "ship_ctx \<Rightarrow> string \<Rightarrow> ship_item list \<Rightarrow> mem \<Rightarrow> string \<Rightarrow> u64 \<Rightarrow> log_entry option" where
  "published cx sid items s ob q = (case List.find (\<lambda>it. item_slot it = (ob, q)) items of
     Some it \<Rightarrow> Some (item_log_entry cx sid it) | None \<Rightarrow> committed_at s ob q)"

lemma run_ship_commit:
  assumes "length sid < 2 ^ 16" "is_utf8 (string_bytes sid)" "sx_log_primary cx"
    and "beside s sid {} s" "shippable s items"
    and run: "run_io (ship_commit cx sid items f) s = ((b, f'), t)"
  shows "(bo_err b = None \<and> (\<forall>ob q. committed_at t ob q = published cx sid items s ob q))
    \<or> (bo_err b \<noteq> None \<and> (\<exists>did. beside s sid (written cx sid did) t \<and> bo_prewritten b = map item_slot did))"
proof -
  let ?inline = "payload_size items \<le> inline_max_bytes"
  obtain st t1 where st: "run_io (if ?inline then Done None else stage_all (map (\<lambda>it. (staging_key sid it, item_bytes it)) items)) s = (st, t1)" by force
  have t1: "st = None" "beside s sid {} t1"
  proof -
    have "\<forall>(k, v) \<in> set (map (\<lambda>it. (staging_key sid it, item_bytes it)) items). foreign k" by auto
    from run_stage_all[OF assms(4) this] show "st = None" "beside s sid {} t1"
      using st assms(4) by (auto simp: io_simps split: if_splits)
  qed
  obtain err f1 where gate: "run_io (commit_gate (fst (sx_commit_clock cx)) (snd (sx_commit_clock cx)) f) t1 = ((err, f1), t1)"
    using run_gate(1) by (metis prod.collapse)
  obtain b2 t2 where pre: "run_io (prewrite_boat cx sid items (no_boat\<lparr>bo_err := err\<rparr>)) t1 = (b2, t2)" by force
  obtain b3 t3 where sw3: "run_io (commit_switch cx sid ?inline items b2) t2 = (b3, t3)" by force
  have b: "b3 = b" and t3: "t3 = t"
    using run st t1(1) gate pre sw3 by (simp_all add: ship_commit_def Let_def io_simps)
  note sw = sw3[unfolded t3]
  have start: "beside s sid (written cx sid []) t1" using t1(2) by (simp add: written_def)
  have "\<exists>did. beside s sid (written cx sid did) t2 \<and> bo_prewritten b2 = map item_slot did
      \<and> (bo_err b2 = None \<longrightarrow> did = sort_key si_object items)"
  proof (cases err)
    case None
    then have "run_io (prewrite_items cx sid (sort_key si_object items) no_boat) t1 = (b2, t2)"
      using pre assms(3) by (simp add: prewrite_boat_def no_boat_def)
    then show ?thesis
      using run_prewrite_items[OF assms(1,2) start _ _ _ , of "sort_key si_object items" no_boat b2 t2]
        shippable_sort[OF assms(5), of si_object] by (simp add: no_boat_def)
  next
    case (Some e)
    then show ?thesis using pre start by (auto simp: prewrite_boat_def no_boat_def io_simps)
  qed
  then obtain did where d: "beside s sid (written cx sid did) t2 \<and> bo_prewritten b2 = map item_slot did
      \<and> (bo_err b2 = None \<longrightarrow> did = sort_key si_object items)" by (elim exE)
  then have did: "beside s sid (written cx sid did) t2" "bo_prewritten b2 = map item_slot did"
    "bo_err b2 = None \<Longrightarrow> did = sort_key si_object items" by simp_all
  show ?thesis
  proof (cases "bo_err b2")
    case (Some e)
    then show ?thesis using sw b did by (auto simp: commit_switch_def io_simps)
  next
    case None
    have fresh: "txn_outcome t2 sid = None" using did(1) by (simp add: beside_def)
    have t: "t = snd (run_io (commit_txn sid) t2)" "bo_err b = None"
      using sw None assms(3) fresh b by (auto simp: commit_switch_def io_simps)
    have own: "own_entries sid t2 = written cx sid items" using did(1,3) None by (simp add: beside_def)
    have "committed_at t ob q = published cx sid items s ob q" for ob q
    proof (cases "List.find (\<lambda>it. item_slot it = (ob, q)) items")
      case None
      then have "\<forall>it \<in> set items. item_slot it \<noteq> (ob, q)" by (simp add: find_None_iff)
      then have "\<forall>e. ((ob, q), e) \<notin> own_entries sid t2" unfolding own by (auto simp: written_def)
      then have "committed_at t ob q = committed_at t2 ob q"
        unfolding t(1) commit_publishes[OF fresh] by (auto simp: own_entries_def committed_at_def split: option.split)
      then show ?thesis using did(1) None by (simp add: published_def beside_def)
    next
      case (Some it)
      then have "it \<in> set items" "item_slot it = (ob, q)" by (auto simp: find_Some_iff)
      then have "((ob, q), item_log_entry cx sid it) \<in> own_entries sid t2" unfolding own by (force simp: written_def)
      then have "entry_at t2 ob q = Some (item_log_entry cx sid it)" "e_txn (item_log_entry cx sid it) = sid"
        by (auto simp: own_entries_def)
      then show ?thesis unfolding t(1) commit_publishes[OF fresh] using Some by (simp add: published_def)
    qed
    then show ?thesis using t(2) by blast
  qed
qed

text \<open>After the decision: compaction is invisible entry by entry, and a lost boat leaves nothing.\<close>

lemma run_compact_all: "committed_at (snd (run_io (compact_all obs) t)) ob q = committed_at t ob q"
proof (induction obs arbitrary: t)
  case (Cons x obs)
  have reads: "snd (run_io (fold_committed x) t) = t" "snd (run_io (read_base x) t) = t" for t
    using asks_log_reads(2)[of x] asks_readers(3)[of x] by (auto intro!: run_io_reads elim!: asks_mono simp: reads_only_def)
  have "committed_at (snd (run_io (compact_log x log_compact_keep) t)) ob q = committed_at t ob q" for t
  proof -
    obtain r1 where r1: "run_io (fold_committed x) t = (r1, t)" using reads(1) by (metis prod.collapse)
    obtain r2 where r2: "run_io (read_base x) t = (r2, t)" using reads(2) by (metis prod.collapse)
    show ?thesis using r1 r2 by (auto simp: compact_log_def io_simps mem_create_put split: sum.splits prod.splits)
  qed
  then show ?case using Cons by (simp add: io_simps)
qed (simp add: io_simps)

lemma beside_clear:
  assumes "beside s sid E t"
  shows "beside s sid {x \<in> E. fst x \<noteq> (ob, q)} (snd (run_io (clear_entry ob q sid) t))"
proof (cases "\<exists>e. entry_at t ob q = Some e \<and> e_txn e = sid")
  case False
  then have "snd (run_io (clear_entry ob q sid) t) = t" by (auto simp: run_clear_entry)
  moreover have "{x \<in> E. fst x \<noteq> (ob, q)} = E" using assms False by (auto simp: beside_def own_entries_def)
  ultimately show ?thesis using assms by simp
next
  case True
  let ?t = "mem_delete (log_key ob q) t"
  have t: "snd (run_io (clear_entry ob q sid) t) = ?t" using True assms by (simp add: run_clear_entry beside_def)
  have wf: "mem_wf t" "mem_wf ?t" using assms by (auto simp: beside_def)
  have "txn_outcome t sid = None" using assms by (simp add: beside_def)
  then have "committed_at t ob q = None" using True by (auto simp: committed_at_def)
  then have "committed_at ?t ob' q' = committed_at t ob' q'" for ob' q' by (rule committed_at_delete_slot)
  moreover have "base_of ?t ob' = base_of t ob'" for ob'
    by (rule base_of_cong[OF wf]) (auto simp: key_simps)
  moreover have "canonical_log ?t ob'" if "canonical_log t ob'" for ob'
    using that unfolding canonical_log_iff[OF wf(1)] canonical_log_iff[OF wf(2)] by (auto split: if_splits)
  moreover have "own_entries sid ?t = {x \<in> own_entries sid t. fst x \<noteq> (ob, q)}" by (auto simp: own_entries_def split: if_splits)
  ultimately show ?thesis using assms wf(2) unfolding t by (simp add: beside_def key_simps)
qed

lemma run_clear_entries:
  "beside s sid E t \<Longrightarrow> beside s sid {x \<in> E. fst x \<notin> set slots} (snd (run_io (clear_entries sid slots) t))"
proof (induction slots arbitrary: t E)
  case (Cons x slots)
  obtain ob q where x: "x = (ob, q)" by force
  have "{y \<in> {z \<in> E. fst z \<noteq> x}. fst y \<notin> set slots} = {y \<in> E. fst y \<notin> set (x # slots)}" by auto
  then show ?case using Cons.IH[OF beside_clear[OF Cons.prems, of ob q]] x by (simp add: io_simps)
qed (simp add: io_simps)

section \<open>All or nothing\<close>

lemma beside_start:
  "mem_wf s \<Longrightarrow> txn_outcome s sid = None \<Longrightarrow> \<forall>ob q e. entry_at s ob q = Some e \<longrightarrow> e_txn e \<noteq> sid \<Longrightarrow> beside s sid {} s"
  by (auto simp: beside_def own_entries_def)

text \<open>C33: All or nothing: a boat alone on the store with a fresh transaction name either is reported landed, every
  waiter is answered with its result and the committed log afterwards is the one before with each item's
  entry at its number and nothing else changed; or it is reported lost, every waiter is refused, the
  committed log is exactly the one before and no entry of the transaction is left.\<close>

theorem boat_all_or_nothing:
  assumes "length sid < 2 ^ 16" "is_utf8 (string_bytes sid)" "sx_log_primary cx"
    and "mem_wf s" "txn_outcome s sid = None" "\<forall>ob q e. entry_at s ob q = Some e \<longrightarrow> e_txn e \<noteq> sid"
    and "shippable s items"
    and "run_io (ship_task cx sid items ws f) s = ((sent, report, f'), s')"
  shows "if sd_ok report
    then sent = map (\<lambda>(resp, r). Reply resp (Inr r)) ws \<and> (\<forall>ob q. committed_at s' ob q = published cx sid items s ob q)
    else (\<exists>e. sent = map (\<lambda>(resp, _). Reply resp (Inl (internal e))) ws)
      \<and> (\<forall>ob q. committed_at s' ob q = committed_at s ob q) \<and> own_entries sid s' = {}"
proof -
  obtain b f1 t where com: "run_io (ship_commit cx sid items f) s = ((b, f1), t)" by (metis prod.collapse)
  note dec = run_ship_commit[OF assms(1,2,3) beside_start[OF assms(4,5,6)] assms(7) com]
  show ?thesis
  proof (cases "bo_err b")
    case None
    obtain report0 f0 u where land: "run_io (ship_landed cx sid items f1) t = ((report0, f0), u)" by (metis prod.collapse)
    have run: "run_io (ship_landed cx sid items f1) t = ((report, f'), s')" "sent = map (\<lambda>(resp, r). Reply resp (Inr r)) ws"
      using assms(8) com None land by (auto simp: ship_task_def io_simps split: prod.splits)
    obtain held f2 where ver: "run_io (verify_leases (fst (sx_compact_clock cx)) (snd (sx_compact_clock cx)) f1) t = ((held, f2), t)"
      using run_gate(2) by (metis prod.collapse)
    have "sd_ok report" "s' = snd (run_io (if held then compact_all (map si_object items) else Done ()) t)"
      using run(1) assms(3) ver by (auto simp: ship_landed_def Let_def io_simps split: if_splits)
    moreover have "committed_at (snd (run_io (if held then compact_all (map si_object items) else Done ()) t)) ob q = committed_at t ob q" for ob q
      using run_compact_all by (simp add: io_simps)
    ultimately show ?thesis using dec None run(2) by simp
  next
    case (Some e)
    then obtain did where did: "beside s sid (written cx sid did) t" "bo_prewritten b = map item_slot did" using dec by auto
    obtain l u where lost: "run_io (ship_lost sid items b) t = (l, u)" by force
    have run: "run_io (ship_lost sid items b) t = (report, s')"
      "sent = map (\<lambda>(resp, _). Reply resp (Inl (internal (''commit failed: '' @ e)))) ws"
      using assms(8) com Some lost by (auto simp: ship_task_def io_simps)
    let ?t = "snd (run_io (clear_entries sid (bo_prewritten b)) t)"
    have "{x \<in> written cx sid did. fst x \<notin> set (map item_slot did)} = {}" by (auto simp: written_def)
    then have "beside s sid {} ?t" using run_clear_entries[OF did(1), of "map item_slot did"] did(2) by metis
    then have "beside s sid {} (snd (run_io (delete_all (map (staging_key sid) items)) ?t))" by (rule run_delete_all) auto
    then have "beside s sid {} s'" "\<not> sd_ok report"
      using run(1) \<open>beside s sid {} ?t\<close> by (auto simp: ship_lost_def io_simps split: if_splits)
    then show ?thesis using run(2) by (auto simp: beside_def)
  qed
qed

section \<open>When a boat lands\<close>

text \<open>The content fence: a snapshot erases something when the image the log holds has a ledger, and so has the snapshot, and a key of the former
  is missing in the latter.\<close>

definition erases :: "(bytes \<Rightarrow> string list option) \<Rightarrow> bytes \<Rightarrow> log_entry list \<Rightarrow> bytes \<Rightarrow> bool" where
  "erases ledger base es snap =
     (case fold_log base (map e_payload es) of
        Inl _ \<Rightarrow> False
      | Inr img \<Rightarrow> (case ledger img of None \<Rightarrow> False
          | Some d \<Rightarrow> (case ledger snap of None \<Rightarrow> False | Some ks \<Rightarrow> list_ex (\<lambda>k. k \<notin> set ks) d)))"

definition erasing :: "ship_ctx \<Rightarrow> mem \<Rightarrow> ship_item \<Rightarrow> bool" where
  "erasing cx s it \<longleftrightarrow> is_snapshot it
     \<and> (\<exists>base bq es. log_view s (si_object it) base bq es (si_expected_seq it) \<and> erases (sx_ledger cx) base es (item_bytes it))"

lemma fence_decides:
  assumes "mem_wf t" "canonical_log t ob" "log_view t ob base bq es q"
  shows "run_io (snapshot_regresses ledger ob snap) t = (erases ledger base es snap, t)"
  using run_fold_committed[OF assms]
  by (auto simp: snapshot_regresses_def erases_def io_simps split: sum.split option.split)

lemma run_prewrite_free:
  assumes "length sid < 2 ^ 16" "is_utf8 (string_bytes sid)"
  shows "beside s sid E t \<Longrightarrow> shippable s items \<Longrightarrow> bo_err b = None
    \<Longrightarrow> \<forall>x \<in> E. fst (fst x) \<notin> si_object ` set items
    \<Longrightarrow> \<forall>it \<in> set items. (\<exists>base bq es. log_view s (si_object it) base bq es (si_expected_seq it))
       \<and> mem_get t (log_key (si_object it) (si_expected_seq it + 1)) = None
    \<Longrightarrow> bo_err (fst (run_io (prewrite_items cx sid items b) t)) = None \<longleftrightarrow> (\<forall>it \<in> set items. \<not> erasing cx s it)"
proof (induction items arbitrary: b t E)
  case (Cons it items)
  let ?ob = "si_object it" and ?q = "si_expected_seq it"
  let ?k = "log_key ?ob (?q + 1)"
  obtain base bq es where v: "log_view s ?ob base bq es ?q" using Cons.prems(5) by auto
  have v': "log_view t ?ob base bq es ?q" using v beside_view[OF Cons.prems(1)] by blast
  have canon: "mem_wf t" "canonical_log t ?ob" "?q < ?q + 1" using Cons.prems(1,2) by (auto simp: beside_def shippable_def)
  have spec: "prewrite_spec t ?ob sid (item_entry sid (sx_born cx) it) (?q + 1) now ttl = (Some (?q + 1), mem_put ?k (item_entry sid (sx_born cx) it) t)" for now ttl
    using Cons.prems(5) by (simp add: prewrite_spec_def Let_def)
  have pw: "run_io (prewrite ?ob sid (item_entry sid (sx_born cx) it) ?q (sx_born cx) (sx_ttl_ms cx)) t
      = (Inr (Some (?q + 1)), mem_put ?k (item_entry sid (sx_born cx) it) t)"
    using run_prewrite[OF canon(1,2) v'] spec by simp
  have "erasing cx s it \<longleftrightarrow> is_snapshot it \<and> erases (sx_ledger cx) base es (item_bytes it)"
    using v log_view_unique[OF v] unfolding erasing_def by blast
  then have reg: "run_io (if is_snapshot it then snapshot_regresses (sx_ledger cx) ?ob (item_bytes it) else Done False) t = (erasing cx s it, t)"
    using fence_decides[OF canon(1,2) v', of "sx_ledger cx" "item_bytes it"] by (simp add: io_simps)
  show ?case
  proof (cases "erasing cx s it")
    case True
    then show ?thesis using reg by (auto simp: Let_def io_simps)
  next
    case False
    have free: "\<forall>e. ((?ob, ?q + 1), e) \<notin> E" using Cons.prems(4) by force
    let ?E = "insert ((?ob, ?q + 1), item_log_entry cx sid it) E" and ?t = "mem_put ?k (item_entry sid (sx_born cx) it) t"
    have "beside s sid ?E ?t" using beside_prewrite[OF Cons.prems(1) spec v canon(3) free assms] by simp
    moreover have "\<forall>x \<in> ?E. fst (fst x) \<notin> si_object ` set items" using Cons.prems(2,4) by (auto simp: shippable_def)
    moreover have "\<forall>i \<in> set items. mem_get ?t (log_key (si_object i) (si_expected_seq i + 1)) = mem_get t (log_key (si_object i) (si_expected_seq i + 1))"
    proof
      fix i assume "i \<in> set items"
      moreover have "?ob \<notin> si_object ` set items" using Cons.prems(2) by (simp add: shippable_def)
      ultimately have "si_object i \<noteq> ?ob" by (metis imageI)
      then show "mem_get ?t (log_key (si_object i) (si_expected_seq i + 1)) = mem_get t (log_key (si_object i) (si_expected_seq i + 1))"
        by (simp add: key_simps)
    qed
    moreover have "shippable s items" using Cons.prems(2) by (simp add: shippable_def)
    ultimately show ?thesis
      using Cons.IH[of ?E ?t "b\<lparr>bo_prewritten := bo_prewritten b @ [(?ob, ?q + 1)]\<rparr>"] Cons.prems(3,5) pw reg False
      by (simp add: Let_def io_simps)
  qed
qed (simp add: io_simps)

lemma ship_lands:
  assumes "length sid < 2 ^ 16" "is_utf8 (string_bytes sid)" "sx_log_primary cx"
    and "mem_wf s" "txn_outcome s sid = None" "\<forall>ob q e. entry_at s ob q = Some e \<longrightarrow> e_txn e \<noteq> sid"
    and "shippable s items" "payload_size items \<le> inline_max_bytes" "\<not> fe_fenced f" "\<not> newer_lease s f"
    and "\<forall>it \<in> set items. (\<exists>base bq es. log_view s (si_object it) base bq es (si_expected_seq it))
       \<and> mem_get s (log_key (si_object it) (si_expected_seq it + 1)) = None"
    and "run_io (ship_task cx sid items ws f) s = ((sent, report, f'), s')"
  shows "(sd_ok report \<longleftrightarrow> (\<forall>it \<in> set items. \<not> erasing cx s it))
    \<and> (sd_ok report \<longrightarrow> sent = map (\<lambda>(resp, r). Reply resp (Inr r)) ws)"
proof -
  note start = beside_start[OF assms(4,5,6)]
  have "superseded (fe_epochs f) (mem_list s ''_lease/'') = None" using superseded_newer[OF assms(4)] assms(10) by blast
  then have gate: "run_io (commit_gate tick wall f) s = ((None, f\<lparr>fe_verified := (tick, wall)\<rparr>), s)" for tick wall
    using assms(9) by (simp add: commit_gate_def io_simps)
  let ?its = "sort_key si_object items"
  obtain b t where pre: "run_io (prewrite_items cx sid ?its no_boat) s = (b, t)" by force
  have b: "bo_err b = None \<longleftrightarrow> (\<forall>it \<in> set items. \<not> erasing cx s it)"
    using run_prewrite_free[OF assms(1,2) start shippable_sort[OF assms(7), of si_object], of no_boat cx] assms(11) pre
    by (simp add: no_boat_def)
  have "beside s sid (written cx sid []) s" using start by (simp add: written_def)
  from run_prewrite_items[OF assms(1,2) this _ _ _ pre]
  have "txn_outcome t sid = None"
    using shippable_sort[OF assms(7), of si_object] by (auto simp: beside_def no_boat_def)
  then have com: "bo_err (fst (fst (run_io (ship_commit cx sid items f) s))) = None \<longleftrightarrow> bo_err b = None"
    using assms(3,8) gate pre by (simp add: ship_commit_def prewrite_boat_def commit_switch_def io_simps no_boat_def)
  obtain b' f1 u where c: "run_io (ship_commit cx sid items f) s = ((b', f1), u)" by (metis prod.collapse)
  show ?thesis
  proof (cases "bo_err b'")
    case None
    obtain report' f2 v where land: "run_io (ship_landed cx sid items f1) u = ((report', f2), v)" by (metis prod.collapse)
    have "sd_ok report'"
      using land by (auto simp: ship_landed_def Let_def io_simps split_beta)
    then show ?thesis using assms(12) c com b land None by (auto simp: ship_task_def io_simps)
  next
    case (Some e)
    obtain report' v where lost: "run_io (ship_lost sid items b') u = (report', v)" by (metis prod.collapse)
    have "\<not> sd_ok report'" using lost by (auto simp: ship_lost_def io_simps split_beta)
    then show ?thesis using assms(12) c com b lost Some by (auto simp: ship_task_def io_simps)
  qed
qed

text \<open>C34: What stops a boat: with a fresh name, leases that are still the newest, and every item built on the last committed entry of its object
  with the next slot free, a small boat alone on the store lands if and only if none of its snapshots erases a key of a ledger, that is, misses a
  key \<open>k\<close> of the table \<open>writes\<close> that the image held by the log has; landing, it answers its waiters. So nothing else stops it; and a boat that
  carries an honest deletion from such a table in a snapshot does not land.\<close>

theorem boat_lands:
  assumes "length sid < 2 ^ 16" "is_utf8 (string_bytes sid)" "sx_log_primary cx"
    and "mem_wf s" "txn_outcome s sid = None" "\<forall>ob q e. entry_at s ob q = Some e \<longrightarrow> e_txn e \<noteq> sid"
    and "shippable s items" "payload_size items \<le> inline_max_bytes" "\<not> fe_fenced f" "\<not> newer_lease s f"
    and "\<forall>it \<in> set items. (\<exists>base bq es. log_view s (si_object it) base bq es (si_expected_seq it))
       \<and> mem_get s (log_key (si_object it) (si_expected_seq it + 1)) = None"
    and "run_io (ship_task cx sid items ws f) s = ((sent, report, f'), s')"
  shows "(sd_ok report \<longleftrightarrow> (\<forall>it \<in> set items. \<not> erasing cx s it))
    \<and> (sd_ok report \<longrightarrow> sent = map (\<lambda>(resp, r). Reply resp (Inr r)) ws)"
  by (rule ship_lands[OF assms])

section \<open>A small boat\<close>

definition demo_cx :: ship_ctx where
  "demo_cx = \<lparr>sx_log_primary = True, sx_born = 100, sx_ttl_ms = 10, sx_ledger = (\<lambda>_. None), sx_record = (\<lambda>_ _ _. []),
     sx_commit_clock = (0, 0), sx_compact_clock = (0, 0)\<rparr>"

definition demo_items :: "ship_item list" where
  "demo_items = [\<lparr>si_object = ''b'', si_payload = ShipSnapshot [9] False, si_expected_seq = 0\<rparr>,
     \<lparr>si_object = ''a'', si_payload = ShipSnapshot [8] False, si_expected_seq = 1\<rparr>]"

definition demo_waiters :: "nat waiter list" where
  "demo_waiters = [(5, \<lparr>tr_txn_id = ''w0-1'', tr_results = [], tr_hash = None\<rparr>)]"

lemma demo_b: "canonical_log demo_store ''b''" "log_view demo_store ''b'' [] 0 [] 0"
proof -
  have "log_key ''a'' 1 = log_key ''b'' r" if "parse_log_seq (log_key ''a'' 1) ''b'' = Some r" for r
    using parse_log_other[OF that] .
  then show "canonical_log demo_store ''b''"
    unfolding canonical_log_iff[OF demo_wf] demo_keys by (auto simp: parse_kinds(3))
  have no: "mem_get demo_store k = None" if "parse_base_seq k ''b'' = Some q" for k q
    using that demo_keys[of k] by (auto simp: key_simps)
  have "best_base demo_store ''b'' = None"
    by (cases "best_base demo_store ''b''") (use best_base_Some(1)[OF demo_wf, of "''b''"] no in force)+
  then show "log_view demo_store ''b'' [] 0 [] 0"
    by (auto simp: log_view_def base_of_def ends_at_def demo_committed intro: run.intros)
qed

lemma demo_erases: "\<forall>it \<in> set demo_items. \<not> erasing demo_cx demo_store it"
  by (auto simp: erasing_def erases_def demo_cx_def split: sum.split)

lemma demo_ships:
  "shippable demo_store demo_items" "txn_outcome demo_store ''u'' = None"
  "\<forall>ob q e. entry_at demo_store ob q = Some e \<longrightarrow> e_txn e \<noteq> ''u''"
  "payload_size demo_items \<le> inline_max_bytes" "\<not> newer_lease demo_store old_holder"
  "\<forall>it \<in> set demo_items. (\<exists>base bq es. log_view demo_store (si_object it) base bq es (si_expected_seq it))
     \<and> mem_get demo_store (log_key (si_object it) (si_expected_seq it + 1)) = None"
proof -
  have "\<not> starts_with k ''_lease/''" if "mem_get demo_store k \<noteq> None" for k
    using that unfolding demo_keys by (auto simp: log_key_def outcome_key_def starts_with_def)
  then show "\<not> newer_lease demo_store old_holder" by (auto simp: newer_lease_def)
  show "\<forall>it \<in> set demo_items. (\<exists>base bq es. log_view demo_store (si_object it) base bq es (si_expected_seq it))
     \<and> mem_get demo_store (log_key (si_object it) (si_expected_seq it + 1)) = None"
    using demo_b(2) demo_view demo_keys[of "log_key ''b'' 1"] demo_keys[of "log_key ''a'' 2"]
    by (auto simp: demo_items_def demo_cx_def key_simps)
qed (use demo_b(1) demo_canonical(1) in \<open>auto simp: shippable_def demo_items_def demo_outcome demo_entry_at demo_entry_def
      payload_size_def item_bytes_def inline_max_bytes_def\<close>)

lemma demo_ship:
  obtains report f' s' where
    "run_io (ship_task demo_cx ''u'' demo_items demo_waiters old_holder) demo_store
      = ((map (\<lambda>(resp, r). Reply resp (Inr r)) demo_waiters, report, f'), s')" "sd_ok report"
proof -
  obtain sent report f' s' where run: "run_io (ship_task demo_cx ''u'' demo_items demo_waiters old_holder) demo_store
      = ((sent, report, f'), s')" by (metis prod.collapse)
  have "(sd_ok report \<longleftrightarrow> (\<forall>it \<in> set demo_items. \<not> erasing demo_cx demo_store it))
      \<and> (sd_ok report \<longrightarrow> sent = map (\<lambda>(resp, r). Reply resp (Inr r)) demo_waiters)"
    by (rule ship_lands[OF _ ascii_utf8_names(2) _ demo_wf demo_ships(2,3,1,4) _ demo_ships(5,6) run])
       (simp_all add: demo_cx_def old_holder_def)
  then show thesis using run that demo_erases by blast
qed

lemma boat_lands_witness:
  "\<exists>report f' s'. run_io (ship_task demo_cx ''u'' demo_items demo_waiters old_holder) demo_store
      = (([Reply 5 (Inr \<lparr>tr_txn_id = ''w0-1'', tr_results = [], tr_hash = None\<rparr>)], report, f'), s') \<and> sd_ok report"
proof -
  obtain sent report f' s' where run: "run_io (ship_task demo_cx ''u'' demo_items demo_waiters old_holder) demo_store
      = ((sent, report, f'), s')" by (metis prod.collapse)
  have "(sd_ok report \<longleftrightarrow> (\<forall>it \<in> set demo_items. \<not> erasing demo_cx demo_store it))
      \<and> (sd_ok report \<longrightarrow> sent = map (\<lambda>(resp, r). Reply resp (Inr r)) demo_waiters)"
    by (rule boat_lands[OF _ ascii_utf8_names(2) _ demo_wf demo_ships(2,3,1,4) _ demo_ships(5,6) run])
       (simp_all add: demo_cx_def old_holder_def)
  then show ?thesis using run demo_erases by (simp add: demo_waiters_def)
qed

lemma boat_all_or_nothing_witness:
  "\<exists>sent report f' s'. run_io (ship_task demo_cx ''u'' demo_items demo_waiters old_holder) demo_store = ((sent, report, f'), s')
     \<and> committed_at s' ''a'' 2 = Some \<lparr>e_txn = ''u'', e_born = 100, e_payload = Snapshot [8]\<rparr>
     \<and> committed_at s' ''b'' 1 = Some \<lparr>e_txn = ''u'', e_born = 100, e_payload = Snapshot [9]\<rparr>
     \<and> committed_at s' ''a'' 1 = Some demo_entry"
proof -
  obtain report f' s' where run: "run_io (ship_task demo_cx ''u'' demo_items demo_waiters old_holder) demo_store
      = ((map (\<lambda>(resp, r). Reply resp (Inr r)) demo_waiters, report, f'), s')" "sd_ok report" by (rule demo_ship)
  have "committed_at s' ob q = published demo_cx ''u'' demo_items demo_store ob q" for ob q
    using boat_all_or_nothing[OF _ ascii_utf8_names(2) _ demo_wf demo_ships(2,3,1) run(1)] run(2) by (simp add: demo_cx_def)
  then show ?thesis using run(1)
    by (auto simp: published_def demo_items_def demo_cx_def item_slot_def item_log_entry_def item_bytes_def is_snapshot_def demo_committed)
qed

section \<open>Among other tasks\<close>

text \<open>No answer before the decision: among any tasks that never overwrite a decision, in any order, with requests that
  fail or whose answers are lost, a boat that answers one waiter with a result, or reports that it landed,
  has its transaction decided as committed, then and for ever.\<close>

theorem answered_boat_is_decided:
  assumes "sys_steps F (s, ps) (s', ps')" "\<forall>p \<in> set ps. asks keeps_outcomes p" "sx_log_primary cx"
    and "i < length ps" "ps ! i = ship_task cx sid items ws f" "ps' ! i = Done (sent, report, f')"
    and "sd_ok report \<or> (\<exists>resp r. Reply resp (Inr r) \<in> set sent)"
  shows "txn_outcome s' sid = Some True"
proof -
  let ?post = "\<lambda>res t. answered res \<longrightarrow> txn_outcome t sid = Some True"
  have "safe F decided ?post (ps ! i) s" unfolding assms(5) by (rule safe_ship_task[OF assms(3)])
  from sys_steps_task[OF decided_preorder keeps_outcomes_step assms(1,2,4) this assms(6)]
  show ?thesis using assms(7) by (simp add: answered_def)
qed

lemma answered_boat_is_decided_witness:
  "\<exists>s' ps'. sys_steps mutating (demo_store, [ship_task demo_cx ''u'' demo_items demo_waiters old_holder,
      ship_task demo_cx ''v'' demo_items demo_waiters old_holder]) (s', ps') \<and> txn_outcome s' ''u'' = Some True"
proof -
  let ?p = "ship_task demo_cx ''u'' demo_items demo_waiters old_holder" and ?q = "ship_task demo_cx ''v'' demo_items demo_waiters old_holder"
  obtain report f' s' where run: "run_io ?p demo_store
      = ((map (\<lambda>(resp, r). Reply resp (Inr r)) demo_waiters, report, f'), s')" "sd_ok report" by (rule demo_ship)
  have steps: "sys_steps mutating (demo_store, [?p, ?q]) (s', [Done (map (\<lambda>(resp, r). Reply resp (Inr r)) demo_waiters, report, f'), ?q])"
    using run_io_steps[of 0 "[?p, ?q]" demo_store _ s' mutating] run(1) by simp
  have "txn_outcome s' ''u'' = Some True"
    by (rule answered_boat_is_decided[OF steps, of demo_cx 0 "''u''" demo_items demo_waiters old_holder])
       (use run(2) asks_ship_task[of demo_cx] in \<open>auto simp: demo_cx_def\<close>)
  then show ?thesis using steps by blast
qed

section \<open>Rolling back without knowing the decision\<close>

text \<open>A boat over two objects whose commit took effect while its answer was lost: its task rolls back.\<close>

definition landed_store :: mem where
  "landed_store = mem_put (outcome_key ''u'') [1] (mem_put (log_key ''b'' 1) (encode_entry ''u'' 100 (Snapshot [9]))
     (mem_put (log_key ''a'' 2) (encode_entry ''u'' 100 (Snapshot [8])) demo_store))"

definition lost_ack :: boat where
  "lost_ack = \<lparr>bo_err = Some ''timeout'', bo_rebased = None, bo_prewritten = [(''a'', 2), (''b'', 1)]\<rparr>"

lemma landed_entries:
  "entry_at landed_store ''a'' 2 = Some \<lparr>e_txn = ''u'', e_born = 100, e_payload = Snapshot [8]\<rparr>"
  "entry_at landed_store ''b'' 1 = Some \<lparr>e_txn = ''u'', e_born = 100, e_payload = Snapshot [9]\<rparr>"
  "txn_outcome landed_store ''u'' = Some True"
  by (simp_all add: landed_store_def decode_encode_entry ascii_utf8_names key_simps nth_opt_def)

text \<open>C35: A rollback can tear a committed transaction: when the boat's commit took effect but its answer was lost, and
  then the one read of the decision for the first entry fails, that entry is deleted while the others
  stay, although the transaction is and remains decided as committed.\<close>

theorem rollback_tears_committed:
  "\<exists>s' report. sys_steps (\<lambda>q. q = GetReq (outcome_key ''u'')) (landed_store, [ship_lost ''u'' demo_items lost_ack]) (s', [Done report])
     \<and> committed_at landed_store ''a'' 2 \<noteq> None \<and> committed_at landed_store ''b'' 1 \<noteq> None
     \<and> txn_outcome s' ''u'' = Some True \<and> committed_at s' ''a'' 2 = None \<and> committed_at s' ''b'' 1 \<noteq> None"
proof -
  let ?F = "\<lambda>q. q = GetReq (outcome_key ''u'')" and ?p = "ship_lost ''u'' demo_items lost_ack"
  let ?s = "mem_delete (log_key ''a'' 2) landed_store"
  let ?rest = "io_bind (delete_if_txn (log_key ''a'' 2) ''u'') (\<lambda>_. io_bind (clear_entries ''u'' [(''b'', 1)]) (\<lambda>_.
     Done \<lparr>sd_objects = [''b'', ''a''], sd_ok = False, sd_unpromoted = [], sd_rebased = None\<rparr>))"
  have small: "payload_size demo_items \<le> inline_max_bytes" by (rule demo_ships(4))
  obtain c where p: "?p = Do (GetReq (outcome_key ''u'')) c" and c: "c (ErrResp ''x'') = ?rest"
    using small by (simp add: ship_lost_def lost_ack_def clear_entry_def committed_def outcome_def io_try_def io_get_def
        as_blob_def io_bind_assoc demo_items_def)
  have one: "sys_step ?F (landed_store, [?p]) (landed_store, [?rest])"
    using sys_step.failed[of 0 "[?p]" "GetReq (outcome_key ''u'')" c ?F landed_store "''x''"] p c by simp
  have del: "run_io (delete_if_txn (log_key ''a'' 2) ''u'') landed_store = (Inr (), ?s)"
    using landed_entries(1) by (auto simp: run_delete_if_txn entry_at_def)
  have keep: "run_io (clear_entry ''b'' 1 ''u'') ?s = (Inr (), ?s)"
    using landed_entries(3) by (simp add: run_clear_entry key_simps)
  have "sys_steps ?F (landed_store, [?rest]) (?s, [Done \<lparr>sd_objects = [''b'', ''a''], sd_ok = False, sd_unpromoted = [], sd_rebased = None\<rparr>])"
    using run_io_steps[of 0 "[?rest]" landed_store _ ?s ?F] del keep by (simp add: io_simps)
  then have "sys_steps ?F (landed_store, [?p]) (?s, [Done \<lparr>sd_objects = [''b'', ''a''], sd_ok = False, sd_unpromoted = [], sd_rebased = None\<rparr>])"
    using one by (rule converse_rtranclp_into_rtranclp[rotated])
  moreover have "committed_at landed_store ''a'' 2 \<noteq> None" "committed_at landed_store ''b'' 1 \<noteq> None"
    "txn_outcome ?s ''u'' = Some True" "committed_at ?s ''a'' 2 = None" "committed_at ?s ''b'' 1 \<noteq> None"
    using landed_entries by (simp_all add: committed_at_def key_simps)
  ultimately show ?thesis by blast
qed

end
