(* ===== verification/Recovery_Props.thy ===== *)
theory Recovery_Props
  imports Ship_Props
begin

text \<open>
  Recovery of the older mode (\<open>recover\<close> of \<open>src/src/worker.rs\<close>, where snapshots live under their object's key and
  a commit record is rolled forward): alone it finishes what was committed, leaves nothing behind,
  never moves an object back, and running it again does nothing; two of them at once may move an
  object back and lose a commit.
\<close>

section \<open>What recovery may touch\<close>

abbreviation home :: "key \<Rightarrow> bool" where "home k \<equiv> starts_with k ''objects/''"

fun homeward :: "req \<Rightarrow> bool" where
  "homeward (PutReq k _) = home k"
| "homeward (DeleteReq k) = (\<not> home k)"
| "homeward (CreateReq _ _) = False"
| "homeward (CasReq _ _ _) = False"
| "homeward _ = True"

lemma run_homeward: "asks homeward p \<Longrightarrow> \<not> home k \<Longrightarrow> mem_get s k = None \<Longrightarrow> mem_get (snd (run_io p s)) k = None"
proof (induction p arbitrary: s)
  case (Do q c)
  have "mem_get (snd (serve q s)) k = None" using Do.prems by (cases q) auto
  then show ?case using Do.IH[OF rangeI] Do.prems by simp
qed simp

lemma home_keys [simp]: "home (object_key ob)" "home (''objects/'' @ x)"
  by (simp_all add: object_key_def starts_with_def)

lemma asks_promote: "asks homeward (promote_staged k bs)"
  unfolding promote_staged_def Let_def
  by (auto simp: asks_ops object_key_def starts_with_def intro!: asks_try split: option.split)

lemma asks_promote_listed: "\<forall>k \<in> set ks. \<not> home k \<Longrightarrow> asks homeward (promote_listed ks)"
  by (induction ks) (auto simp: asks_ops intro!: asks_try asks_promote split: option.split)

lemma asks_promote_inline: "asks homeward (promote_inline xs)"
  by (induction xs rule: promote_inline.induct) (auto intro!: asks_try asks_promote split: rust.split option.split)

text \<open>A listing is by prefix; the store answers it so.\<close>

lemma run_list_keys: "mem_wf s \<Longrightarrow> k \<in> set (mem_list s p) \<Longrightarrow> starts_with k p \<and> mem_get s k \<noteq> None"
  by (simp add: set_mem_list)

lemma not_home: "starts_with k ''txns/'' \<Longrightarrow> \<not> home k" "starts_with k ''staging/'' \<Longrightarrow> \<not> home k"
  by (auto simp: starts_with_prefix prefix_def)

lemma not_home_staging: "starts_with k (''staging/'' @ x) \<Longrightarrow> \<not> home k"
  by (rule not_home(2)) (rule starts_with_trans)

text \<open>Gone stays gone.\<close>

definition only_homeward :: "mem \<Rightarrow> mem \<Rightarrow> bool" where
  "only_homeward s s' \<longleftrightarrow> (mem_wf s \<longrightarrow> mem_wf s') \<and> (\<forall>k. \<not> home k \<longrightarrow> mem_get s k = None \<longrightarrow> mem_get s' k = None)"

lemma only_homeward_trans: "only_homeward s t \<Longrightarrow> only_homeward t u \<Longrightarrow> only_homeward s u"
  by (simp add: only_homeward_def)

lemma only_homeward_run: "asks homeward p \<Longrightarrow> only_homeward s (snd (run_io p s))"
  by (simp add: only_homeward_def run_io_wf run_homeward)

lemma only_homeward_delete: "only_homeward s (mem_delete k s)"
  by (simp add: only_homeward_def)

lemma run_roll_forward:
  assumes "mem_wf s" "run_io (roll_forward k r) s = (x, s')"
  shows "only_homeward s s' \<and> (x = Inr () \<longrightarrow> mem_get s' k = None)"
proof -
  let ?p = "if tx_inline r = [] then io_try (io_list (''staging/'' @ tx_id r @ ''/'')) promote_listed else promote_inline (tx_inline r)"
  obtain y t where t: "run_io ?p s = (y, t)" by force
  have "only_homeward s t"
  proof (cases "tx_inline r = []")
    case True
    let ?ks = "mem_list s (''staging/'' @ tx_id r @ ''/'')"
    have "\<forall>k \<in> set ?ks. \<not> home k" using run_list_keys[OF assms(1)] not_home_staging by blast
    from only_homeward_run[OF asks_promote_listed[OF this], of s] show ?thesis using t True by (simp add: io_simps)
  next
    case False
    then show ?thesis using only_homeward_run[OF asks_promote_inline[of "tx_inline r"], of s] t by simp
  qed
  then show ?thesis
    using assms(2) t only_homeward_delete[of t k] only_homeward_trans[of s t]
    by (cases y) (auto simp: roll_forward_def io_simps)
qed

lemma run_recover_records:
  "mem_wf s \<Longrightarrow> \<forall>k \<in> set ks. \<not> home k \<Longrightarrow> run_io (recover_records dec ks) s = (x, s') \<Longrightarrow>
   only_homeward s s' \<and> (x = Inr () \<longrightarrow> (\<forall>k \<in> set ks. mem_get s' k = None))"
proof (induction ks arbitrary: s)
  case Nil
  then show ?case by (auto simp: io_simps only_homeward_def)
next
  case (Cons k ks)
  let ?p = "case mem_get s k of None \<Rightarrow> ok () | Some bs \<Rightarrow> (case dec bs of None \<Rightarrow> io_delete k | Some r \<Rightarrow> roll_forward k r)"
  obtain y t where t: "run_io ?p s = (y, t)" by force
  have first: "only_homeward s t \<and> (y = Inr () \<longrightarrow> mem_get t k = None)"
    using t run_roll_forward[OF Cons.prems(1), of k _ y t] only_homeward_delete[of s k]
    by (auto simp: io_simps only_homeward_def split: option.splits)
  show ?case
  proof (cases y)
    case (Inl e)
    then show ?thesis using Cons.prems(3) t first by (auto simp: io_simps)
  next
    case (Inr u)
    have wf: "mem_wf t" using first Cons.prems(1) by (simp add: only_homeward_def)
    have rest: "run_io (recover_records dec ks) t = (x, s')" using Cons.prems(3) t Inr by (simp add: io_simps)
    have IH: "only_homeward t s' \<and> (x = Inr () \<longrightarrow> (\<forall>k \<in> set ks. mem_get s' k = None))"
      by (rule Cons.IH[OF wf _ rest]) (use Cons.prems(2) in simp)
    then show ?thesis
      using first Inr Cons.prems(2) only_homeward_trans[of s t s'] by (auto simp: only_homeward_def)
  qed
qed

lemma run_discard: "run_io (discard_all ks) s = (Inr (), foldl (\<lambda>s k. mem_delete k s) s ks)"
  by (induction ks arbitrary: s) (simp_all add: io_simps)

lemma get_discarded: "mem_get (foldl (\<lambda>s k. mem_delete k s) s ks) k = (if k \<in> set ks then None else mem_get s k)"
  by (induction ks arbitrary: s) auto

lemma wf_discarded: "mem_wf s \<Longrightarrow> mem_wf (foldl (\<lambda>s k. mem_delete k s) s ks)"
  by (induction ks arbitrary: s) auto

lemma list_empty: "mem_wf s \<Longrightarrow> (mem_list s p = []) = (\<forall>k. starts_with k p \<longrightarrow> mem_get s k = None)"
  using set_mem_list[of s p] by (auto simp: set_empty[symmetric] simp del: set_empty)

text \<open>Recovery that succeeds leaves no commit record and nothing staged, and running it again does nothing.\<close>

theorem recover_clears:
  assumes "mem_wf s" "run_io (recover False dec) s = (Inr (), s')"
  shows "mem_list s' ''txns/'' = [] \<and> mem_list s' ''staging/'' = [] \<and> run_io (recover False dec) s' = (Inr (), s')"
proof -
  let ?ks = "mem_list s ''txns/''"
  obtain x t where t: "run_io (recover_records dec ?ks) s = (x, t)" by force
  have nh: "\<forall>k \<in> set ?ks. \<not> home k" using run_list_keys[OF assms(1)] not_home by blast
  note r = run_recover_records[OF assms(1) nh t]
  let ?ss = "mem_list t ''staging/''"
  have x: "x = Inr ()" and s': "s' = foldl (\<lambda>s k. mem_delete k s) t ?ss"
    using assms(2) t by (auto simp: recover_def io_simps run_discard split: sum.splits)
  have wf: "mem_wf t" "mem_wf s'" using r assms(1) wf_discarded s' by (auto simp: only_homeward_def)
  have "mem_get t k = None" if "starts_with k ''txns/''" for k
    using r x that not_home(1)[OF that] by (cases "mem_get s k") (auto simp: only_homeward_def set_mem_list[OF assms(1)])
  then have tx: "mem_list s' ''txns/'' = []" unfolding list_empty[OF wf(2)] by (simp add: s' get_discarded)
  have st: "mem_list s' ''staging/'' = []"
    unfolding list_empty[OF wf(2)] by (auto simp: s' get_discarded set_mem_list[OF wf(1)])
  show ?thesis using tx st by (simp add: recover_def io_simps)
qed

section \<open>Never backwards\<close>

text \<open>The change counter a promotion reads.\<close>

definition base_counter :: "mem \<Rightarrow> string \<Rightarrow> u32 option" where
  "base_counter s ob = (case mem_get s (object_key ob) of
     Some b \<Rightarrow> if 28 \<le> length b then Some (word_of_nat (of_be (take 4 (drop 24 b)))) else None
   | None \<Rightarrow> None)"

definition forward :: "mem \<Rightarrow> mem \<Rightarrow> bool" where
  "forward s s' \<longleftrightarrow> (\<forall>ob c. CHR ''.'' \<notin> set ob \<longrightarrow> base_counter s ob = Some c \<longrightarrow> (\<exists>c' \<ge> c. base_counter s' ob = Some c'))"

lemma forward_refl: "forward s s"
  by (auto simp: forward_def)

lemma forward_trans: "forward s t \<Longrightarrow> forward t u \<Longrightarrow> forward s u"
  unfolding forward_def by (meson order_trans)

lemma forward_same: "(\<And>ob. CHR ''.'' \<notin> set ob \<Longrightarrow> mem_get s' (object_key ob) = mem_get s (object_key ob)) \<Longrightarrow> forward s s'"
  by (auto simp: forward_def base_counter_def)

lemma counter_bytes: "100 \<le> length b \<Longrightarrow> change_counter b = word_of_nat (of_be (take 4 (drop 24 b)))"
proof -
  assume b: "100 \<le> length b"
  have "take 4 (drop 24 b) = [b ! 24, b ! 25, b ! 26, b ! 27]"
    by (rule nth_equalityI) (use b in \<open>auto simp: less_Suc_eq numeral_eq_Suc nth_Cons split: nat.split\<close>)
  then show ?thesis using b by (simp add: change_counter_def)
qed

lemma object_key_inject: "object_key a = object_key b \<longleftrightarrow> a = b"
  by (simp add: object_key_def)

lemma delta_not_object: "CHR ''.'' \<notin> set ob \<Longrightarrow> ''objects/'' @ x @ ''.d.'' @ y \<noteq> object_key ob"
proof
  assume ob: "CHR ''.'' \<notin> set ob" and eq: "''objects/'' @ x @ ''.d.'' @ y = object_key ob"
  then have "count_list (x @ ''.d.'' @ y) (CHR ''.'') = count_list (ob @ ''.db'') (CHR ''.'')" by (simp add: object_key_def)
  moreover have "count_list ob (CHR ''.'') = 0" using ob by (simp add: count_list_0_iff)
  ultimately show False by simp
qed

lemma run_promote: "forward s (snd (run_io (promote_staged k bs) s))"
proof (cases "strip_suffix ''.snap'' (last_part k)")
  case None
  show ?thesis
  proof (cases "rsplit_once ''.delta.'' (last_part k)")
    case None
    then show ?thesis using \<open>strip_suffix _ _ = None\<close> by (simp add: promote_staged_def io_simps forward_refl)
  next
    case (Some x)
    obtain a b where x: "x = (a, b)" by force
    have "forward s (mem_put (''objects/'' @ a @ ''.d.'' @ b) bs s)"
    proof (rule forward_same)
      fix ob :: string assume "CHR ''.'' \<notin> set ob"
      from delta_not_object[OF this, of a b]
      show "mem_get (mem_put (''objects/'' @ a @ ''.d.'' @ b) bs s) (object_key ob) = mem_get s (object_key ob)"
        by (metis mem_get_put)
    qed
    then show ?thesis using \<open>strip_suffix _ _ = None\<close> Some x by (simp add: promote_staged_def io_simps)
  qed
next
  case (Some ob)
  let ?cur = "map_option (\<lambda>b. take 4 (drop 24 b)) (mem_get s (object_key ob))"
  show ?thesis
  proof (cases "case ?cur of Some c \<Rightarrow> length c = 4 \<and> change_counter bs \<le> word_of_nat (of_be c) | None \<Rightarrow> False")
    case True
    then show ?thesis using Some by (simp add: promote_staged_def io_simps forward_refl)
  next
    case False
    then have run: "snd (run_io (promote_staged k bs) s) = mem_put (object_key ob) bs s"
      using Some by (simp add: promote_staged_def io_simps)
    have up: "\<exists>c' \<ge> c. base_counter (mem_put (object_key ob) bs s) ob = Some c'" if c: "base_counter s ob = Some c" for c
    proof -
      obtain b where b: "mem_get s (object_key ob) = Some b" "28 \<le> length b" "c = word_of_nat (of_be (take 4 (drop 24 b)))"
        using c by (auto simp: base_counter_def split: option.splits if_splits)
      have "\<not> change_counter bs \<le> c" using False b by simp
      then have lt: "c < change_counter bs" by simp
      then have "100 \<le> length bs" by (auto simp: change_counter_def split: if_splits)
      then show ?thesis using lt counter_bytes by (auto simp: base_counter_def)
    qed
    then have "forward s (mem_put (object_key ob) bs s)"
      unfolding forward_def
    proof (intro allI impI)
      fix ob' c assume c: "base_counter s ob' = Some c"
      show "\<exists>c' \<ge> c. base_counter (mem_put (object_key ob) bs s) ob' = Some c'"
      proof (cases "ob' = ob")
        case True
        then show ?thesis using c up by simp
      next
        case False
        then have "base_counter (mem_put (object_key ob) bs s) ob' = base_counter s ob'"
          by (simp add: base_counter_def object_key_inject)
        then show ?thesis using c by simp
      qed
    qed
    then show ?thesis using run by simp
  qed
qed

lemma forward_delete: "\<not> home k \<Longrightarrow> forward s (mem_delete k s)"
  by (rule forward_same) auto

lemma run_promote_listed: "\<forall>k \<in> set ks. \<not> home k \<Longrightarrow> forward s (snd (run_io (promote_listed ks) s))"
proof (induction ks arbitrary: s)
  case (Cons k ks)
  obtain x t where t: "run_io (case mem_get s k of Some bs \<Rightarrow> promote_staged k bs | None \<Rightarrow> ok ()) s = (x, t)" by force
  have "forward s t"
  proof (cases "mem_get s k")
    case None
    then show ?thesis using t forward_refl by (simp add: io_simps)
  next
    case (Some bs)
    then show ?thesis using t run_promote[of s k bs] by simp
  qed
  moreover have "forward t (mem_delete k t)" by (rule forward_delete) (use Cons.prems in simp)
  ultimately show ?case
    using t Cons forward_trans by (cases x) (auto simp: io_simps)
qed (simp add: io_simps forward_refl)

lemma run_promote_inline: "forward s (snd (run_io (promote_inline xs) s))"
proof (induction xs arbitrary: s rule: promote_inline.induct)
  case (2 name hexed rest)
  obtain x t where t: "run_io (case unhex hexed of
      Ret (Some bs) \<Rightarrow> promote_staged name bs | Ret None \<Rightarrow> ok () | Panic \<Rightarrow> fail ''panicked'') s = (x, t)" by force
  have "forward s t"
  proof (cases "\<exists>bs. unhex hexed = Ret (Some bs)")
    case True
    then obtain bs where "unhex hexed = Ret (Some bs)" by blast
    then show ?thesis using t run_promote[of s name bs] by simp
  next
    case False
    then show ?thesis using t forward_refl by (auto simp: io_simps split: rust.splits option.splits)
  qed
  then show ?case using t 2 forward_trans by (cases x) (auto simp: io_simps)
qed (simp add: io_simps forward_refl)

lemma forward_roll:
  assumes "mem_wf s" "\<not> home k"
  shows "forward s (snd (run_io (roll_forward k r) s))"
proof -
  let ?p = "if tx_inline r = [] then io_try (io_list (''staging/'' @ tx_id r @ ''/'')) promote_listed else promote_inline (tx_inline r)"
  obtain y t where t: "run_io ?p s = (y, t)" by force
  have "forward s t"
  proof (cases "tx_inline r = []")
    case True
    have "\<forall>k \<in> set (mem_list s (''staging/'' @ tx_id r @ ''/'')). \<not> home k" using run_list_keys[OF assms(1)] not_home_staging by blast
    from run_promote_listed[OF this, of s] show ?thesis using t True by (simp add: io_simps)
  next
    case False
    then show ?thesis using run_promote_inline[of s "tx_inline r"] t by simp
  qed
  then show ?thesis
    using t forward_delete[OF assms(2), of t] forward_trans by (cases y) (auto simp: roll_forward_def io_simps)
qed

lemma forward_recover_records:
  "mem_wf s \<Longrightarrow> \<forall>k \<in> set ks. \<not> home k \<Longrightarrow> forward s (snd (run_io (recover_records dec ks) s))"
proof (induction ks arbitrary: s)
  case (Cons k ks)
  let ?p = "case mem_get s k of None \<Rightarrow> ok () | Some bs \<Rightarrow> (case dec bs of None \<Rightarrow> io_delete k | Some r \<Rightarrow> roll_forward k r)"
  obtain y t where t: "run_io ?p s = (y, t)" by force
  have "snd (run_io ?p s) = t" using t by simp
  then have "forward s t"
    using forward_roll[OF Cons.prems(1), of k] forward_delete[of k s] forward_refl Cons.prems(2)
    by (auto simp: io_simps split: option.splits)
  moreover have "mem_wf t" using run_io_wf[OF Cons.prems(1), of ?p] t by simp
  ultimately show ?case using t Cons forward_trans by (cases y) (auto simp: io_simps)
qed (simp add: io_simps forward_refl)

text \<open>C36: Recovery never moves an object backwards: alone, whatever the records say and wherever it stops, the change
  counter of every object's snapshot afterwards is at least the one before.\<close>

theorem recover_never_backwards:
  assumes "mem_wf s" "run_io (recover log_primary dec) s = (r, s')" "CHR ''.'' \<notin> set ob" "base_counter s ob = Some c"
  shows "\<exists>c' \<ge> c. base_counter s' ob = Some c'"
proof -
  let ?ks = "mem_list s ''txns/''"
  obtain x t where t: "run_io (recover_records dec ?ks) s = (x, t)" by force
  have "\<forall>k \<in> set ?ks. \<not> home k" using run_list_keys[OF assms(1)] not_home(1) by blast
  from forward_recover_records[OF assms(1) this, of dec] have st: "forward s t" using t by simp
  have wf: "mem_wf t" using run_io_wf[OF assms(1), of "recover_records dec ?ks"] t by simp
  have "forward t (foldl (\<lambda>s k. mem_delete k s) t (mem_list t ''staging/''))"
  proof (rule forward_same)
    fix ob
    have "object_key ob \<notin> set (mem_list t ''staging/'')" using run_list_keys[OF wf] not_home(2) home_keys(1) by blast
    then show "mem_get (foldl (\<lambda>s k. mem_delete k s) t (mem_list t ''staging/'')) (object_key ob) = mem_get t (object_key ob)"
      by (simp add: get_discarded)
  qed
  then have "forward s s'"
    using assms(2) t st forward_refl forward_trans
    by (cases x) (auto simp: recover_def io_simps run_discard split: if_splits)
  then show ?thesis using assms(3,4) by (simp add: forward_def)
qed

section \<open>A small recovery\<close>

text \<open>An object at change counter 3, and two inline records with its snapshots at 5 and at 9.\<close>

definition image_at :: "byte \<Rightarrow> bytes" where
  "image_at c = replicate 27 0 @ [c] @ replicate 72 0"

definition demo_record :: "string \<Rightarrow> byte \<Rightarrow> txn_record" where
  "demo_record t c = \<lparr>tx_id = t, tx_objects = [''a''], tx_inline = [(''a.snap'', hex (image_at c))]\<rparr>"

definition demo_dec :: "bytes \<Rightarrow> txn_record option" where
  "demo_dec bs = (if bs = [1] then Some (demo_record ''t1'' 5) else if bs = [2] then Some (demo_record ''t2'' 9) else None)"

definition at_3 :: mem where "at_3 = mem_put (object_key ''a'') (image_at 3) mem_empty"

definition two_records :: mem where
  "two_records = mem_put (txn_key ''t2'') [2] (mem_put (txn_key ''t1'') [1] at_3)"

lemma image_counter: "change_counter (image_at c) = word_of_nat (unat c)" "length (image_at c) = 100"
  "take 4 (drop 24 (image_at c)) = [0, 0, 0, c]"
proof -
  show len: "length (image_at c) = 100" by (simp add: image_at_def)
  show tk: "take 4 (drop 24 (image_at c)) = [0, 0, 0, c]"
  proof -
    have "image_at c = replicate 24 0 @ [0, 0, 0, c] @ replicate 72 0"
      by (simp add: image_at_def numeral_eq_Suc)
    then show ?thesis by simp
  qed
  show "change_counter (image_at c) = word_of_nat (unat c)"
    using counter_bytes[of "image_at c"] len tk by (simp add: of_be_def)
qed

lemma promote_snap:
  assumes "mem_get s (object_key ''a'') = Some (image_at b)"
  shows "run_io (promote_staged ''a.snap'' (image_at c)) s = (Inr (), if c \<le> b then s else mem_put (object_key ''a'') (image_at c) s)"
proof -
  have "strip_suffix ''.snap'' (last_part ''a.snap'') = Some ''a''"
    using strip_suffix_append[of "''.snap''" "''a''"] by (simp add: last_part_def)
  moreover have "(word_of_nat (unat c) :: u32) \<le> word_of_nat (unat b) \<longleftrightarrow> c \<le> b"
  proof -
    have "unat x < 2 ^ 32" for x :: byte using unat_lt2[of x] by simp
    then have "unat (word_of_nat (unat x) :: u32) = unat x" for x :: byte
      by (simp add: unsigned_ucast_eq take_bit_nat_eq_self)
    then show ?thesis by (simp add: word_le_nat_alt)
  qed
  ultimately show ?thesis using assms by (simp add: promote_staged_def io_simps image_counter of_be_def)
qed

lemma txn_object [simp]: "txn_key x \<noteq> object_key y" "object_key y \<noteq> txn_key x" "txn_key x = txn_key z \<longleftrightarrow> x = z"
  by (simp_all add: txn_key_def object_key_def)

lemma two_records_wf: "mem_wf two_records" "mem_get two_records (object_key ''a'') = Some (image_at 3)"
  by (simp_all add: two_records_def at_3_def)

lemma two_keys: "mem_get two_records k \<noteq> None \<longleftrightarrow> k = object_key ''a'' \<or> k = txn_key ''t1'' \<or> k = txn_key ''t2''"
  by (auto simp: two_records_def at_3_def)

lemma two_listed: "mem_list two_records ''txns/'' = [txn_key ''t1'', txn_key ''t2'']"
proof (rule sorted_distinct_set_unique)
  have "sorted_wrt (<) (mem_list two_records ''txns/'')" by (rule mem_list_sorted[OF two_records_wf(1)])
  then show "sorted (mem_list two_records ''txns/'')" "distinct (mem_list two_records ''txns/'')"
    by (simp_all add: strict_sorted_iff)
  show "sorted [txn_key ''t1'', txn_key ''t2'']" by (simp add: txn_key_def)
  show "distinct [txn_key ''t1'', txn_key ''t2'']" by simp
  have "starts_with (txn_key x) ''txns/''" "\<not> starts_with (object_key x) ''txns/''" for x
    by (simp_all add: txn_key_def object_key_def starts_with_def)
  then show "set (mem_list two_records ''txns/'') = set [txn_key ''t1'', txn_key ''t2'']"
    unfolding set_mem_list[OF two_records_wf(1)] two_keys by auto
qed

lemma roll_demo:
  assumes "mem_get s (object_key ''a'') = Some (image_at b)"
  shows "run_io (roll_forward k (demo_record t c)) s =
    (Inr (), mem_delete k (if c \<le> b then s else mem_put (object_key ''a'') (image_at c) s))"
  using promote_snap[OF assms, of c] by (simp add: roll_forward_def demo_record_def io_simps)

definition rolled :: mem where
  "rolled = mem_delete (txn_key ''t2'') (mem_put (object_key ''a'') (image_at 9)
     (mem_delete (txn_key ''t1'') (mem_put (object_key ''a'') (image_at 5) two_records)))"

lemma rolled_keys: "mem_get rolled k = (if k = object_key ''a'' then Some (image_at 9) else None)" "mem_wf rolled"
  by (auto simp: rolled_def two_records_def at_3_def)

lemma no_staging: "mem_wf s \<Longrightarrow> \<forall>k. mem_get s k \<noteq> None \<longrightarrow> k = object_key ''a'' \<Longrightarrow> mem_list s ''staging/'' = []"
  by (auto simp: list_empty object_key_def starts_with_def)

lemma recover_demo: "run_io (recover False demo_dec) two_records = (Inr (), rolled)"
proof -
  let ?s1 = "mem_delete (txn_key ''t1'') (mem_put (object_key ''a'') (image_at 5) two_records)"
  note ne = txn_object
  have t: "txn_key ''t1'' \<noteq> txn_key ''t2''" by (simp add: txn_key_def)
  have one: "run_io (roll_forward (txn_key ''t1'') (demo_record ''t1'' 5)) two_records = (Inr (), ?s1)"
    using roll_demo[OF two_records_wf(2), of "txn_key ''t1''" "''t1''" 5] by simp
  have two: "run_io (roll_forward (txn_key ''t2'') (demo_record ''t2'' 9)) ?s1 = (Inr (), rolled)"
    using roll_demo[of ?s1 5 "txn_key ''t2''" "''t2''" 9] ne by (simp add: rolled_def)
  have gets: "mem_get two_records (txn_key ''t1'') = Some [1]" "mem_get ?s1 (txn_key ''t2'') = Some [2]"
    using ne t by (simp_all add: two_records_def)
  have "mem_list rolled ''staging/'' = []" by (rule no_staging) (simp_all add: rolled_keys)
  then show ?thesis
    unfolding recover_def using gets one two by (simp add: io_simps two_listed demo_dec_def)
qed

lemma recover_clears_witness: "mem_list rolled ''txns/'' = []"
  using recover_clears[OF two_records_wf(1) recover_demo] by simp

lemma recover_never_backwards_witness: "\<exists>c \<ge> 3. base_counter rolled ''a'' = Some c"
proof (rule recover_never_backwards[OF two_records_wf(1) recover_demo])
  show "base_counter two_records ''a'' = Some 3"
    using two_records_wf(2) image_counter by (simp add: base_counter_def of_be_def)
qed simp

section \<open>Two recoveries at once\<close>

lemma solo_try:
  assumes "run_io p s = (Inr x, s')" "solo (f x) s' q t"
  shows "solo (io_try p f) s q t"
proof -
  have "solo (io_try p f) s (f x) s'" unfolding solo_def using sys_try[OF _ _ assms(1)] by blast
  then show ?thesis using assms(2) by (rule solo_trans)
qed

abbreviation after_put :: "unit \<Rightarrow> unit result io" where
  "after_put u \<equiv> io_try (promote_inline []) (\<lambda>_. io_try (io_delete (txn_key ''t1'')) (\<lambda>_.
     io_try (recover_records demo_dec [txn_key ''t2'']) (\<lambda>_. io_try (io_list ''staging/'') discard_all)))"

lemma recover_first:
  "solo (recover False demo_dec) two_records (io_try (io_put (object_key ''a'') (image_at 5)) after_put) two_records"
proof -
  have list: "run_io (io_list ''txns/'') two_records = (Inr [txn_key ''t1'', txn_key ''t2''], two_records)"
    by (simp add: io_simps two_listed)
  have ne: "txn_key ''t1'' \<noteq> txn_key ''t2''" by (simp add: txn_key_def)
  have got: "run_io (io_get (txn_key ''t1'')) two_records = (Inr (Some [1]), two_records)"
    using ne by (simp add: io_simps two_records_def)
  have range: "run_io (io_get_range (object_key ''a'') 24 4) two_records = (Inr (Some [0, 0, 0, 3]), two_records)"
    using two_records_wf(2) image_counter by (simp add: io_simps)
  have dec: "demo_dec [1] = Some (demo_record ''t1'' 5)" by (simp add: demo_dec_def)
  have strip: "strip_suffix ''.snap'' (last_part ''a.snap'') = Some ''a''"
    using strip_suffix_append[of "''.snap''" "''a''"] by (simp add: last_part_def)
  have newer: "\<not> (length [0, 0, 0, 3 :: byte] = 4 \<and> change_counter (image_at 5) \<le> word_of_nat (of_be [0, 0, 0, 3]))"
    by (simp add: image_counter of_be_def)
  show ?thesis
    unfolding recover_def if_False
    apply (rule solo_try[OF list])
    apply (simp only: recover_records.simps io_try_assoc)
    apply (rule solo_try[OF got])
    apply (simp only: option.case dec roll_forward_def demo_record_def txn_record.select_convs list.distinct if_False
        promote_inline.simps unhex_hex rust.case promote_staged_def Let_def strip io_try_assoc)
    apply (rule solo_try[OF range])
    apply (simp only: option.case newer if_False io_try_assoc)
    apply (rule solo_refl)
    done
qed

lemma recover_last:
  "\<exists>s'. run_io (io_try (io_put (object_key ''a'') (image_at 5)) after_put) rolled = (Inr (), s')
     \<and> base_counter s' ''a'' = Some 5 \<and> (\<forall>k. mem_get s' k \<noteq> None \<longrightarrow> k = object_key ''a'')"
proof -
  let ?s = "mem_delete (txn_key ''t1'') (mem_put (object_key ''a'') (image_at 5) rolled)"
  note ne = txn_object
  have only: "\<forall>k. mem_get ?s k \<noteq> None \<longrightarrow> k = object_key ''a''" by (simp add: rolled_keys)
  have "mem_list ?s ''staging/'' = []" by (rule no_staging) (use only rolled_keys(2) in simp_all)
  moreover have "mem_get ?s (txn_key ''t2'') = None" using ne by (simp add: rolled_keys)
  ultimately have "run_io (io_try (io_put (object_key ''a'') (image_at 5)) after_put) rolled = (Inr (), ?s)"
    by (simp add: io_simps)
  moreover have "base_counter ?s ''a'' = Some 5" using ne image_counter by (simp add: base_counter_def of_be_def)
  ultimately show ?thesis using only by blast
qed

text \<open>C37: Two recoveries at once can lose a commit: with two committed records of one object at change counters 5 and 9, both
  runs succeed with no request failing, and the object ends at 5 with neither record left: the reading
  and the writing of a promotion are two requests.\<close>

theorem concurrent_recovery_loses_commit:
  "\<exists>s'. sys_steps (\<lambda>_. False) (two_records, [recover False demo_dec, recover False demo_dec]) (s', [ok (), ok ()])
     \<and> run_io (recover False demo_dec) two_records = (Inr (), rolled) \<and> base_counter rolled ''a'' = Some 9
     \<and> base_counter s' ''a'' = Some 5 \<and> mem_get s' (txn_key ''t1'') = None \<and> mem_get s' (txn_key ''t2'') = None"
proof -
  let ?r = "recover False demo_dec" and ?m = "io_try (io_put (object_key ''a'') (image_at 5)) after_put"
  obtain s' where last: "run_io ?m rolled = (Inr (), s')" "base_counter s' ''a'' = Some 5"
    "\<forall>k. mem_get s' k \<noteq> None \<longrightarrow> k = object_key ''a''" using recover_last by blast
  have "sys_steps (\<lambda>_. False) (two_records, [?r, ?r]) (two_records, [?m, ?r])"
    using recover_first[unfolded solo_def, rule_format, of 0 "[?r, ?r]"] by simp
  moreover have "sys_steps (\<lambda>_. False) (two_records, [?m, ?r]) (rolled, [?m, ok ()])"
    using run_io_steps[of 1 "[?m, ?r]" two_records _ rolled] recover_demo by simp
  moreover have "sys_steps (\<lambda>_. False) (rolled, [?m, ok ()]) (s', [ok (), ok ()])"
    using run_io_steps[of 0 "[?m, ok ()]" rolled _ s'] last(1) by simp
  ultimately have "sys_steps (\<lambda>_. False) (two_records, [?r, ?r]) (s', [ok (), ok ()])" by (meson rtranclp_trans)
  moreover have "mem_get s' (txn_key t) = None" for t
    using last(3) txn_object(1) by blast
  moreover have "base_counter rolled ''a'' = Some 9" using image_counter by (simp add: base_counter_def rolled_keys of_be_def)
  ultimately show ?thesis using recover_demo last(2) by blast
qed

end
