(* ===== verification/Handoff.thy ===== *)
theory Handoff
  imports Boats Ship
begin

text \<open>
  Ownership moving between workers, from \<open>src/src/worker.rs\<close>: writing the checkpoint, renouncing an object
  (\<open>release\<close>), accepting a deed (\<open>admit\<close>), serving the head of an object's queue, the take and adopt
  messages, the return home, and the task that chases the owner. A deed carries a generation; a worker
  refuses one that is not newer than everything it knows. \<open>grant_front\<close> is given the take at the head
  of the queue, which is the only way the code calls it.
\<close>

section \<open>The checkpoint\<close>

definition my_checkpoint :: "('c, 'v) wrk \<Rightarrow> checkpoint" where
  "my_checkpoint w = \<lparr>cp_owned = wk_owned w, cp_transit = wk_transit w\<rparr>"

definition write_checkpoint :: "('c, 'v) engine \<Rightarrow> ('c, 'v) wrk \<Rightarrow> unit result io" where
  "write_checkpoint en w = io_put (checkpoint_key (wk_id w)) (en_encode en (my_checkpoint w))"

section \<open>Renouncing\<close>

text \<open>The highest generation the worker holds or has granted.\<close>

definition known :: "('c, 'v) wrk \<Rightarrow> string \<Rightarrow> nat option" where
  "known w ob = (case (map_of (wk_owned w) ob, map_of (wk_transit w) ob) of
     (None, None) \<Rightarrow> None | (Some g, None) \<Rightarrow> Some g | (None, Some (_, g)) \<Rightarrow> Some g
   | (Some g, Some (_, h)) \<Rightarrow> Some (max g h))"

definition put_back :: "'k::linorder \<Rightarrow> 'a option \<Rightarrow> ('k \<times> 'a) list \<Rightarrow> ('k \<times> 'a) list" where
  "put_back k v m = (case v of Some x \<Rightarrow> bt_insert k x m | None \<Rightarrow> bt_remove k m)"

definition route :: "string \<Rightarrow> nat \<Rightarrow> routing \<Rightarrow> routing" where
  "route ob owner r = r\<lparr>rt_exceptions := (if default_worker ob (rt_logical r) = owner
     then bt_remove ob (rt_exceptions r) else bt_insert ob owner (rt_exceptions r))\<rparr>"

definition deed :: "string \<Rightarrow> nat \<Rightarrow> ('c, 'v) wrk \<Rightarrow> transfer_meta" where
  "deed ob g w = (case map_of (wk_meta w) ob of
     Some m \<Rightarrow> \<lparr>tm_settled = me_return_to m \<noteq> None
         \<or> (0 < wk_hysteresis w \<and> wk_hysteresis w \<le> wk_clock w - me_arrived_at m),
       tm_home = (case me_return_to m of Some h \<Rightarrow> h | None \<Rightarrow> wk_id w), tm_visit = me_visit m, tm_generation = g\<rparr>
   | None \<Rightarrow> \<lparr>tm_settled = 0 < wk_hysteresis w, tm_home = wk_id w, tm_visit = None, tm_generation = g\<rparr>)"

text \<open>What a worker forgets once the renunciation is durable.\<close>

definition let_go :: "('c, 'v) engine \<Rightarrow> string \<Rightarrow> nat option \<Rightarrow> ('c, 'v) wrk \<Rightarrow> ('c, 'v) wrk" where
  "let_go en ob new_owner w =
     (let w = fail_polls ob ''object migrated; re-poll'' w;
          w = evict ob w;
          w = w\<lparr>wk_manifests := bt_remove ob (wk_manifests w)\<rparr>;
          w = w\<lparr>wk_disk := set_cache (live_path w ob) (en_disk en (live_path w ob)) (wk_id w) (wk_disk w)\<rparr>;
          w = w\<lparr>wk_meta := bt_remove ob (wk_meta w)\<rparr>
      in case new_owner of Some d \<Rightarrow> w\<lparr>wk_routing := route ob d (wk_routing w)\<rparr> | None \<Rightarrow> w)"

definition release :: "('c, 'v) engine \<Rightarrow> string \<Rightarrow> nat option \<Rightarrow> ('c, 'v) wrk \<Rightarrow> (transfer_meta result \<times> ('c, 'v) wrk) io" where
  "release en ob new_owner w =
     (let held = map_of (wk_owned w) ob;
          prior = map_of (wk_transit w) ob;
          g = (case known w ob of Some g \<Rightarrow> g | None \<Rightarrow> 0) + 1;
          dest = (case new_owner of Some d \<Rightarrow> d | None \<Rightarrow> wk_id w);
          w1 = w\<lparr>wk_owned := bt_remove ob (wk_owned w), wk_transit := bt_insert ob (dest, g) (wk_transit w)\<rparr>
      in io_bind (write_checkpoint en w1) (\<lambda>r. case r of
           Inl e \<Rightarrow> Done (Inl (''remove-side checkpoint failed: '' @ e),
             w1\<lparr>wk_owned := put_back ob held (wk_owned w1), wk_transit := put_back ob prior (wk_transit w1)\<rparr>)
         | Inr _ \<Rightarrow> Done (Inr (deed ob g w1), let_go en ob new_owner w1)))"

section \<open>Accepting\<close>

definition rehome_after :: nat where "rehome_after = 3"
definition visit_window :: nat where "visit_window = 1000"

text \<open>The tenure of an object that arrives: a settled one is visiting until it has come often enough.\<close>

definition arrival :: "transfer_meta \<Rightarrow> ('c, 'v) wrk \<Rightarrow> tenure" where
  "arrival tm w =
     (let now = wk_clock w
      in if tm_settled tm then
           (let visits = (case tm_visit tm of
                  Some v \<Rightarrow> if vi_worker v = wk_id w \<and> vi_last v \<le> now \<and> now - vi_last v \<le> visit_window then vi_count v + 1 else 1
                | None \<Rightarrow> 1)
            in if visits < rehome_after \<or> crowded (wk_routing w) (wk_id w)
               then \<lparr>me_arrived_at = now, me_return_to = Some (tm_home tm),
                     me_visit = Some \<lparr>vi_worker = wk_id w, vi_count = visits, vi_last = now\<rparr>\<rparr>
               else \<lparr>me_arrived_at = now, me_return_to = None, me_visit = None\<rparr>)
         else \<lparr>me_arrived_at = now, me_return_to = None, me_visit = tm_visit tm\<rparr>)"

definition claim_is :: "claim \<Rightarrow> nat \<Rightarrow> nat \<Rightarrow> bool" where
  "claim_is c w g \<longleftrightarrow> c = Owned w g \<or> c = Transit w g"

text \<open>A clean object drops what a former tenure left in memory and starts from the committed number.\<close>

definition rebase_clean :: "string \<Rightarrow> ('c, 'v) wrk \<Rightarrow> ('c, 'v) wrk io" where
  "rebase_clean ob w =
     (if wk_log_primary w \<and> map_of (wk_dirty w) ob = None then
        io_bind (committed_seq ob) (\<lambda>r. Done ((purge ob w)\<lparr>wk_log_seq := bt_insert ob (case r of Inr q \<Rightarrow> q | Inl _ \<Rightarrow> 0) (wk_log_seq w)\<rparr>))
      else Done w)"

definition take_over :: "('c, 'v) engine \<Rightarrow> string \<Rightarrow> transfer_meta \<Rightarrow> ('c, 'v) wrk \<Rightarrow> (bool \<times> ('c, 'v) wrk) io" where
  "take_over en ob tm w =
     (let w = w\<lparr>wk_meta := bt_insert ob (arrival tm w) (wk_meta w), wk_owned := bt_insert ob (tm_generation tm) (wk_owned w)\<rparr>
      in io_bind (rebase_clean ob w) (\<lambda>w.
         let w = w\<lparr>wk_transit := bt_remove ob (wk_transit w), wk_routing := route ob (wk_id w) (wk_routing w)\<rparr>
         in io_bind (write_checkpoint en w) (\<lambda>_. Done (True, w))))"

definition admit :: "('c, 'v) engine \<Rightarrow> string \<Rightarrow> transfer_meta \<Rightarrow> ('c, 'v) wrk \<Rightarrow> (bool \<times> ('c, 'v) wrk) io" where
  "admit en ob tm w = (case known w ob of
     None \<Rightarrow> take_over en ob tm w
   | Some cur \<Rightarrow>
       if cur < tm_generation tm then take_over en ob tm w
       else if wk_log_primary w \<and> map_of (wk_owned w) ob = None then
         io_bind (durable_claim (en_decode en) ob) (\<lambda>c.
           if claim_is c (wk_id w) (tm_generation tm)
           then take_over en ob tm (w\<lparr>wk_transit := bt_remove ob (wk_transit w)\<rparr>)
           else Done (False, w))
       else Done (False, w))"

section \<open>The queue of an object\<close>

text \<open>Those left behind a take that did not go through: takes are bounced, transactions stay; the first may run.\<close>

definition takes_in :: "queue_entry list \<Rightarrow> (nat \<times> nat) list" where
  "takes_in q = List.map_filter (\<lambda>e. case e of TakeEntry taker resp \<Rightarrow> Some (taker, resp) | TxnEntry _ \<Rightarrow> None) q"

definition txns_in :: "queue_entry list \<Rightarrow> nat list" where
  "txns_in q = List.map_filter (\<lambda>e. case e of TxnEntry t \<Rightarrow> Some t | TakeEntry _ _ \<Rightarrow> None) q"

definition keep_txns :: "string \<Rightarrow> string \<Rightarrow> queue_entry list \<Rightarrow> ('c, 'v) wrk \<Rightarrow> nat list \<times> ('c, 'v) wrk" where
  "keep_txns ob msg q w =
     (let keep = txns_in q;
          w = emit_all (map (\<lambda>(_, resp). TakeReply resp (Inl (TakeFailed msg))) (takes_in q)) w
      in (take 1 keep, if keep = [] then w else w\<lparr>wk_queues := bt_insert ob (map TxnEntry keep) (wk_queues w)\<rparr>))"

definition grant_front :: "('c, 'v) engine \<Rightarrow> string \<Rightarrow> nat \<Rightarrow> nat \<Rightarrow> queue_entry list \<Rightarrow> ('c, 'v) wrk \<Rightarrow> (nat list \<times> ('c, 'v) wrk) io" where
  "grant_front en ob taker resp q w =
     (let w = w\<lparr>wk_queues := bt_remove ob (wk_queues w)\<rparr>
      in io_bind (release en ob (Some taker) w) (\<lambda>(r, w). case r of
           Inr tm \<Rightarrow>
             if resp \<in> set (wk_gone w) then
               io_bind (admit en ob (tm\<lparr>tm_generation := tm_generation tm + 1\<rparr>) w) (\<lambda>(_, w).
                 Done (keep_txns ob ''grant interrupted; retry'' q w))
             else
               (let w = emit (TakeReply resp (Inr tm)) w;
                    w = emit_all (map (\<lambda>(_, resp). TakeReply resp (Inl (NotMine (Some taker)))) (takes_in q)) w
                in Done (txns_in q, w))
         | Inl e \<Rightarrow>
             (let w = emit (TakeReply resp (Inl (TakeFailed (''transfer aborted: '' @ e)))) w
              in Done (keep_txns ob ''transfer aborted: checkpoint unavailable'' q w))))"

definition service_front :: "('c, 'v) engine \<Rightarrow> string \<Rightarrow> ('c, 'v) wrk \<Rightarrow> (nat list \<times> ('c, 'v) wrk) io" where
  "service_front en ob w = (case map_of (wk_queues w) ob of
     None \<Rightarrow> Done ([], w)
   | Some [] \<Rightarrow> Done ([], w)
   | Some (TxnEntry t # _) \<Rightarrow> Done ([t], w)
   | Some (TakeEntry taker resp # q) \<Rightarrow> if unshipped w ob then Done ([], w) else grant_front en ob taker resp q w)"

section \<open>Messages\<close>

text \<open>A transaction of this worker is waiting for the deed of the object.\<close>

definition deed_in_flight :: "string \<Rightarrow> ('c, 'v) wrk \<Rightarrow> bool" where
  "deed_in_flight ob w \<longleftrightarrow> list_ex (\<lambda>(_, p). pk_taking p \<and> nth_opt (pk_participants p) (pk_acquired p) = Some ob) (wk_parked w)"

definition adopt_generation :: "claim \<Rightarrow> bool \<Rightarrow> nat \<Rightarrow> nat option" where
  "adopt_generation c is_home me = (case c of
     Owned w g \<Rightarrow> if w = me then Some g else None
   | Transit w g \<Rightarrow> if w = me then Some g else None
   | Unclaimed \<Rightarrow> if is_home then Some 1 else None)"

definition own_deed :: "nat \<Rightarrow> nat \<Rightarrow> transfer_meta" where
  "own_deed me g = \<lparr>tm_settled = False, tm_home = me, tm_visit = None, tm_generation = g\<rparr>"

definition long_here :: "string \<Rightarrow> ('c, 'v) wrk \<Rightarrow> ('c, 'v) wrk" where
  "long_here ob w = (case map_of (wk_meta w) ob of
     Some m \<Rightarrow> w\<lparr>wk_meta := bt_insert ob (m\<lparr>me_arrived_at := 0\<rparr>) (wk_meta w)\<rparr> | None \<Rightarrow> w)"

definition take_hint :: "claim \<Rightarrow> string \<Rightarrow> ('c, 'v) wrk \<Rightarrow> nat option" where
  "take_hint c ob w =
     (let routed = (let o' = owner_of (wk_routing w) ob in if o' \<noteq> wk_id w then Some o' else None)
      in case c of
        Owned k _ \<Rightarrow> if k \<noteq> usize_max then Some k else routed
      | Transit k _ \<Rightarrow> if k \<noteq> usize_max then Some k else routed
      | Unclaimed \<Rightarrow> routed)"

text \<open>An owned object's take joins the queue; alone there, it is served at once and the transactions that frees
  are to be driven.\<close>

definition enqueue_take :: "('c, 'v) engine \<Rightarrow> string \<Rightarrow> nat \<Rightarrow> nat \<Rightarrow> ('c, 'v) wrk \<Rightarrow> (nat list option \<times> ('c, 'v) wrk) io" where
  "enqueue_take en ob taker resp w =
     (let q = (case map_of (wk_queues w) ob of Some q \<Rightarrow> q | None \<Rightarrow> []) @ [TakeEntry taker resp];
          w = w\<lparr>wk_queues := bt_insert ob q (wk_queues w)\<rparr>
      in if length q = 1 then io_bind (service_front en ob w) (\<lambda>(ready, w). Done (Some ready, w)) else Done (None, w))"

definition handle_take :: "('c, 'v) engine \<Rightarrow> string \<Rightarrow> nat \<Rightarrow> nat \<Rightarrow> ('c, 'v) wrk \<Rightarrow> (nat list option \<times> ('c, 'v) wrk) io" where
  "handle_take en ob taker resp w =
     (if map_of (wk_owned w) ob \<noteq> None then enqueue_take en ob taker resp w
      else if deed_in_flight ob w then
        Done (None, emit (TakeReply resp (Inl (TakeFailed ''handoff to this worker in flight; retry''))) w)
      else io_bind (durable_claim (en_decode en) ob) (\<lambda>c.
        io_bind (case adopt_generation c (default_worker ob (rt_logical (wk_routing w)) = wk_id w) (wk_id w) of
            Some g \<Rightarrow> io_bind (admit en ob (own_deed (wk_id w) g) w) (\<lambda>(acc, w).
              Done (acc, if acc \<and> (case c of Transit _ _ \<Rightarrow> False | _ \<Rightarrow> True) then long_here ob w else w))
          | None \<Rightarrow> Done (False, w)) (\<lambda>(adopted, w).
        if adopted then enqueue_take en ob taker resp w
        else Done (None, emit (TakeReply resp (Inl (NotMine (take_hint c ob w)))) w))))"

definition handle_adopt :: "('c, 'v) engine \<Rightarrow> string \<Rightarrow> transfer_meta \<Rightarrow> ('c, 'v) wrk \<Rightarrow> ('c, 'v) wrk io" where
  "handle_adopt en ob tm w = io_bind (admit en ob tm w) (\<lambda>(_, w). Done w)"

text \<open>A displaced object with an idle queue goes home.\<close>

definition maybe_return_home :: "('c, 'v) engine \<Rightarrow> string \<Rightarrow> ('c, 'v) wrk \<Rightarrow> ('c, 'v) wrk io" where
  "maybe_return_home en ob w =
     (if unshipped w ob then Done w
      else case Option.bind (map_of (wk_meta w) ob) me_return_to of
        None \<Rightarrow> Done w
      | Some home \<Rightarrow>
          if home = wk_id w \<or> \<not> owns w ob then Done w
          else io_bind (release en ob (Some home) w) (\<lambda>(r, w). Done (case r of
            Inl _ \<Rightarrow> w
          | Inr tm \<Rightarrow> emit (SpawnAdopt home ob (tm\<lparr>tm_settled := False, tm_home := home\<rparr>)) w)))"

section \<open>Tasks\<close>

text \<open>What a spawned task sends its worker.\<close>

datatype task_msg = AdoptMsg string transfer_meta | TakenMsg nat string nat taken_result

text \<open>What the node and the network do at each attempt: the routed owner, a worker of this node (with its
  answer), the address of another, and the answer of the call.\<close>

record take_env =
  te_owner :: "nat \<Rightarrow> nat"
  te_local :: "nat \<Rightarrow> nat \<Rightarrow> (take_error + transfer_meta) result option"
  te_addr :: "nat \<Rightarrow> nat \<Rightarrow> string option"
  te_call :: "nat \<Rightarrow> string \<Rightarrow> nat \<Rightarrow> (take_error + transfer_meta) result"

definition take_retries :: nat where "take_retries = 8"

definition ask_owner :: "take_env \<Rightarrow> nat \<Rightarrow> nat \<Rightarrow> (take_error + transfer_meta) result" where
  "ask_owner env n owner = (case te_local env n owner of
     Some r \<Rightarrow> r
   | None \<Rightarrow> (case te_addr env n owner of
       Some addr \<Rightarrow> te_call env n addr owner
     | None \<Rightarrow> Inl (''no live node for worker '' @ show_nat owner)))"

definition show_hint :: "nat option \<Rightarrow> string" where
  "show_hint h = (case h of None \<Rightarrow> ''None'' | Some w \<Rightarrow> ''Some('' @ show_nat w @ '')'')"

text \<open>One attempt at the owner chosen: done with a message, or the next chase and the error so far.\<close>

definition take_ask :: "take_env \<Rightarrow> nat \<Rightarrow> nat \<Rightarrow> string \<Rightarrow> nat \<Rightarrow> nat \<Rightarrow> task_msg list + (nat option \<times> string)" where
  "take_ask env me txn ob n owner =
     (if owner = me then Inl [TakenMsg txn ob me AlreadyLocal]
      else case ask_owner env n owner of
        Inr (Inr tm) \<Rightarrow> Inl [TakenMsg txn ob owner (Got tm)]
      | Inr (Inl (NotMine hint)) \<Rightarrow> Inr (hint, ''owner moved (hint '' @ show_hint hint @ '')'')
      | Inr (Inl (TakeFailed e)) \<Rightarrow> Inr (None, e)
      | Inl e \<Rightarrow> Inr (None, e))"

fun take_attempts :: "take_env \<Rightarrow> (bytes \<Rightarrow> checkpoint result) \<Rightarrow> nat \<Rightarrow> nat \<Rightarrow> string \<Rightarrow> nat \<Rightarrow> nat option \<Rightarrow> string \<Rightarrow> task_msg list io" where
  "take_attempts env dec me txn ob 0 chase err = Done [TakenMsg txn ob me (TakenFailed err)]"
| "take_attempts env dec me txn ob (Suc m) chase err =
     (let n = take_retries - Suc m;
          go = (\<lambda>owner. case take_ask env me txn ob n owner of
            Inl msgs \<Rightarrow> Done msgs | Inr (chase, err) \<Rightarrow> take_attempts env dec me txn ob m chase err)
      in case chase of
        None \<Rightarrow> go (te_owner env n)
      | Some h \<Rightarrow>
          if h \<noteq> me then go h
          else io_bind (durable_claim dec ob) (\<lambda>c. case c of
              Owned w g \<Rightarrow> if w = me \<and> w \<noteq> usize_max then Done [AdoptMsg ob (own_deed me g), TakenMsg txn ob me AlreadyLocal]
                else go (if w \<noteq> usize_max then w else te_owner env n)
            | Transit w g \<Rightarrow> if w = me \<and> w \<noteq> usize_max then Done [AdoptMsg ob (own_deed me g), TakenMsg txn ob me AlreadyLocal]
                else go (if w \<noteq> usize_max then w else te_owner env n)
            | Unclaimed \<Rightarrow> go (te_owner env n)))"

definition take_task :: "take_env \<Rightarrow> (bytes \<Rightarrow> checkpoint result) \<Rightarrow> nat \<Rightarrow> nat \<Rightarrow> string \<Rightarrow> task_msg list io" where
  "take_task env dec me txn ob = take_attempts env dec me txn ob take_retries None ''no attempts''"

text \<open>Sending an object home: a worker of this node gets the message; another is called, and when that
  fails nothing is taken back.\<close>

definition send_adopt :: "bool \<Rightarrow> string option \<Rightarrow> (string \<Rightarrow> unit result) \<Rightarrow> string \<Rightarrow> transfer_meta \<Rightarrow> task_msg list" where
  "send_adopt local addr call ob tm =
     (if local then [AdoptMsg ob tm]
      else case addr of Some a \<Rightarrow> (case call a of Inr _ \<Rightarrow> [] | Inl _ \<Rightarrow> []) | None \<Rightarrow> [])"

end
