(* ===== verification/Handoff_Props.thy ===== *)
theory Handoff_Props
  imports Handoff Boat_Props Ship_Props "HOL-Library.Countable"
begin

text \<open>
  The properties of the hand-over: what a renunciation leaves behind and what it has made durable before
  a deed is given out, which deeds are accepted, how the durable claim of an object moves from giver to
  taker, and that the task chasing the owner always answers. And the way a failed read of one checkpoint
  makes a worker spend an old deed twice.
\<close>

section \<open>Running and requests\<close>

lemma safe_run: "reflp R \<Longrightarrow> safe F R post p s \<Longrightarrow> (case run_io p s of (x, s') \<Rightarrow> post x s')"
proof (induction p arbitrary: s)
  case (Done x)
  then show ?case by (auto dest: reflpD)
next
  case (Do q c)
  have "safe F R post (c (fst (serve q s))) (snd (serve q s))"
    using Do.prems by (auto simp: seen_def dest: reflpD)
  then show ?case using Do.IH[OF rangeI Do.prems(1)] by simp
qed

lemma safe_returns: "returns P p \<Longrightarrow> safe F R (\<lambda>x _. P x) p s"
  by (induction p arbitrary: s) auto

lemma run_reads_only: "asks reads_only p \<Longrightarrow> snd (run_io p s) = s"
proof (induction p arbitrary: s)
  case (Do q c)
  have "snd (serve q s) = s" using Do.prems by (cases q) (auto simp: reads_only_def)
  then show ?case using Do.IH[OF rangeI] Do.prems by simp
qed simp

text \<open>Nobody but the worker itself writes its checkpoint.\<close>

definition keeps_key :: "key \<Rightarrow> mem \<Rightarrow> mem \<Rightarrow> bool" where
  "keeps_key k s s' \<longleftrightarrow> mem_get s' k = mem_get s k"

lemma keeps_key_preorder: "reflp (keeps_key k)" "transp (keeps_key k)"
  by (auto simp: keeps_key_def reflp_def transp_def)

lemma safe_io_put: "safe F (keeps_key k) (\<lambda>r s. r = Inr () \<longrightarrow> mem_get s k = Some v) (io_put k v) s"
  by (auto simp: io_put_def as_unit_def seen_def keeps_key_def)

section \<open>Renouncing\<close>

lemma let_go_frame [simp]:
  "wk_owned (let_go en ob d w) = wk_owned w" "wk_transit (let_go en ob d w) = wk_transit w"
  "wk_queues (let_go en ob d w) = wk_queues w" "wk_id (let_go en ob d w) = wk_id w" "wk_gone (let_go en ob d w) = wk_gone w"
  "wk_log_primary (let_go en ob d w) = wk_log_primary w" "wk_dirty (let_go en ob d w) = wk_dirty w"
  "wk_inflight (let_go en ob d w) = wk_inflight w" "wk_pending (let_go en ob d w) = wk_pending w"
  by (simp_all add: let_go_def fail_polls_def evict_def emit_all_def Let_def split: option.split)

definition deeds :: "'v event list \<Rightarrow> (nat \<times> transfer_meta) list" where
  "deeds es = List.map_filter (\<lambda>e. case e of TakeReply resp (Inr tm) \<Rightarrow> Some (resp, tm) | _ \<Rightarrow> None) es"

lemma deeds_simps [simp]: "deeds [] = []" "deeds (es @ es') = deeds es @ deeds es'"
  "deeds [TakeReply resp (Inr tm)] = [(resp, tm)]" "deeds [TakeReply resp (Inl e)] = []"
  "deeds (map (\<lambda>x. TakeReply (f x) (Inl (g x))) xs) = []" "deeds (map (\<lambda>x. Reply (f' x) (g' x)) ys) = []"
  by (simp_all add: deeds_def List.map_filter_def filter_empty_conv)

lemma let_go_out: "\<exists>es. wk_out (let_go en ob d w) = wk_out w @ es \<and> deeds es = []"
  by (auto simp: let_go_def fail_polls_def evict_def emit_all_def Let_def split: option.split)

lemma let_go_forgets: "map_of (wk_live (let_go en ob d w)) ob = None" "map_of (wk_meta (let_go en ob d w)) ob = None"
  by (auto simp: let_go_def fail_polls_def evict_def emit_all_def Let_def split: option.split)

lemma put_back_restores: "bt_wf m \<Longrightarrow> put_back k (map_of m k) (bt_remove k m) = m" "bt_wf m \<Longrightarrow> put_back k (map_of m k) (bt_insert k x m) = m"
  by (rule bt_wf_ext; auto simp: put_back_def split: option.split)+

definition renounced :: "('c, 'v) engine \<Rightarrow> string \<Rightarrow> nat option \<Rightarrow> ('c, 'v) wrk \<Rightarrow> transfer_meta \<Rightarrow> ('c, 'v) wrk \<Rightarrow> bool" where
  "renounced en ob d w tm w' \<longleftrightarrow>
     map_of (wk_owned w') ob = None
     \<and> map_of (wk_transit w') ob = Some ((case d of Some d \<Rightarrow> d | None \<Rightarrow> wk_id w), tm_generation tm)
     \<and> (\<forall>x. x \<noteq> ob \<longrightarrow> map_of (wk_owned w') x = map_of (wk_owned w) x \<and> map_of (wk_transit w') x = map_of (wk_transit w) x)
     \<and> tm_generation tm = (case known w ob of Some g \<Rightarrow> g | None \<Rightarrow> 0) + 1
     \<and> map_of (wk_live w') ob = None
     \<and> wk_queues w' = wk_queues w \<and> wk_id w' = wk_id w \<and> wk_gone w' = wk_gone w
     \<and> (\<exists>es. wk_out w' = wk_out w @ es \<and> deeds es = [])"

lemma deed_generation [simp]: "tm_generation (deed ob g w) = g"
  by (simp add: deed_def split: option.split)

abbreviation removed :: "string \<Rightarrow> nat option \<Rightarrow> ('c, 'v) wrk \<Rightarrow> ('c, 'v) wrk" where
  "removed ob d w \<equiv> w\<lparr>wk_owned := bt_remove ob (wk_owned w), wk_transit := bt_insert ob
     ((case d of Some d \<Rightarrow> d | None \<Rightarrow> wk_id w), (case known w ob of Some g \<Rightarrow> g | None \<Rightarrow> 0) + 1) (wk_transit w)\<rparr>"

lemma release_eq:
  assumes "bt_wf (wk_owned w)" "bt_wf (wk_transit w)"
  shows "release en ob d w = io_bind (io_put (checkpoint_key (wk_id w)) (en_encode en (my_checkpoint (removed ob d w)))) (\<lambda>r. case r of
       Inl e \<Rightarrow> Done (Inl (''remove-side checkpoint failed: '' @ e), w)
     | Inr _ \<Rightarrow> Done (Inr (deed ob ((case known w ob of Some g \<Rightarrow> g | None \<Rightarrow> 0) + 1) (removed ob d w)), let_go en ob d (removed ob d w)))"
  unfolding release_def Let_def write_checkpoint_def
  using put_back_restores[OF assms(1)] put_back_restores[OF assms(2)] by (simp cong: sum.case_cong)

lemma release_facts:
  assumes "bt_wf (wk_owned w)" "bt_wf (wk_transit w)"
  shows "safe F (keeps_key (checkpoint_key (wk_id w))) (\<lambda>(r, w') s. case r of
      Inl _ \<Rightarrow> w' = w
    | Inr tm \<Rightarrow> renounced en ob d w tm w' \<and> mem_get s (checkpoint_key (wk_id w)) = Some (en_encode en (my_checkpoint w')))
    (release en ob d w) s"
proof -
  let ?tm = "deed ob ((case known w ob of Some g \<Rightarrow> g | None \<Rightarrow> 0) + 1) (removed ob d w)"
  have out: "\<exists>es. wk_out (let_go en ob d (removed ob d w)) = wk_out w @ es \<and> deeds es = []"
    using let_go_out[of en ob d "removed ob d w"] by simp
  have ren: "renounced en ob d w ?tm (let_go en ob d (removed ob d w))"
    unfolding renounced_def using out by (simp add: let_go_forgets)
  have cp: "my_checkpoint (let_go en ob d (removed ob d w)) = my_checkpoint (removed ob d w)" by (simp add: my_checkpoint_def)
  show ?thesis
    unfolding release_eq[OF assms]
    by (rule safe_bind[OF keeps_key_preorder(1)], rule safe_conseq[OF safe_io_put])
       (use ren cp in \<open>auto simp: keeps_key_def split: sum.split\<close>)
qed

text \<open>C38: Renouncing an object either fails and leaves the worker exactly as it was, or its new checkpoint is in the store:
  there, as in memory, the object is no longer owned and in transit to the new owner under a generation one above
  all the worker knew, nothing else has changed, and the local copy is gone. Every other task may run in
  between and any request may fail; only the worker itself writes its checkpoint.\<close>

theorem release_durable_or_undone:
  assumes "bt_wf (wk_owned w)" "bt_wf (wk_transit w)"
  shows "safe F (keeps_key (checkpoint_key (wk_id w))) (\<lambda>(r, w') s. case r of
      Inl _ \<Rightarrow> w' = w
    | Inr tm \<Rightarrow> renounced en ob d w tm w' \<and> mem_get s (checkpoint_key (wk_id w)) = Some (en_encode en (my_checkpoint w')))
    (release en ob d w) s"
  by (rule release_facts[OF assms])

section \<open>Accepting\<close>

definition newer :: "('c, 'v) wrk \<Rightarrow> string \<Rightarrow> nat \<Rightarrow> bool" where
  "newer w ob g \<longleftrightarrow> (case known w ob of None \<Rightarrow> True | Some cur \<Rightarrow> cur < g)"

definition took :: "string \<Rightarrow> transfer_meta \<Rightarrow> ('c, 'v) wrk \<Rightarrow> ('c, 'v) wrk \<Rightarrow> bool" where
  "took ob tm w w' \<longleftrightarrow>
     wk_owned w' = bt_insert ob (tm_generation tm) (wk_owned w) \<and> wk_transit w' = bt_remove ob (wk_transit w)
     \<and> wk_meta w' = bt_insert ob (arrival tm w) (wk_meta w) \<and> owner_of (wk_routing w') ob = wk_id w
     \<and> wk_queues w' = wk_queues w \<and> wk_id w' = wk_id w \<and> wk_gone w' = wk_gone w \<and> wk_out w' = wk_out w
     \<and> wk_dirty w' = wk_dirty w \<and> wk_inflight w' = wk_inflight w \<and> wk_pending w' = wk_pending w"

lemma owner_of_route: "owner_of (route ob d r) ob = d"
  by (simp add: owner_of_def route_def)

lemma take_over_took: "returns (\<lambda>(acc, w'). acc \<and> took ob tm w w') (take_over en ob tm w)"
  unfolding take_over_def rebase_clean_def Let_def
  by (auto simp: took_def owner_of_route purge_def intro!: returns_after returns_bind[OF returns_after])

lemma bt_remove_idem [simp]: "bt_remove k (bt_remove k m) = bt_remove k m"
  by (simp add: bt_remove_def)

lemma admit_only_newer':
  "returns (\<lambda>(acc, w'). (newer w ob (tm_generation tm) \<longrightarrow> acc)
      \<and> (if acc then took ob tm w w' \<and> (newer w ob (tm_generation tm) \<or> wk_log_primary w \<and> map_of (wk_owned w) ob = None)
         else w' = w)) (admit en ob tm w)"
proof -
  let ?w = "w\<lparr>wk_transit := bt_remove ob (wk_transit w)\<rparr>"
  have arr: "arrival tm ?w = arrival tm w" by (simp add: arrival_def Let_def cong: option.case_cong)
  have heal: "took ob tm ?w w' \<Longrightarrow> took ob tm w w'" for w' by (simp add: took_def arr)
  show ?thesis
    unfolding admit_def newer_def
    by (auto simp: heal split: option.split
        intro!: returns_after returns_conseq[OF take_over_took[of ob tm w en]] returns_conseq[OF take_over_took[of ob tm ?w en]])
qed

text \<open>Whatever the store answers, a deed is accepted only when its generation is above everything the worker holds or
  has granted, or, where the worker does not hold the object and the log is primary, when the durable
  truth names this worker at exactly that generation. An accepted one makes it the owner at that
  generation and the router agrees; a refused one changes nothing; a newer one is never refused.\<close>

theorem admit_only_newer:
  "returns (\<lambda>(acc, w'). (newer w ob (tm_generation tm) \<longrightarrow> acc)
      \<and> (if acc then took ob tm w w' \<and> (newer w ob (tm_generation tm) \<or> wk_log_primary w \<and> map_of (wk_owned w) ob = None)
         else w' = w)) (admit en ob tm w)"
  by (rule admit_only_newer')

definition ghost :: "(bytes, unit) wrk" where
  "ghost = idle_wrk\<lparr>wk_owned := [], wk_transit := [(''a'', (2, 6))]\<rparr>"

lemma admit_only_newer_witness:
  "returns (\<lambda>(acc, w'). \<not> acc \<and> w' = ghost\<lparr>wk_log_primary := False\<rparr>) (admit demo_engine ''a'' (own_deed 1 5) (ghost\<lparr>wk_log_primary := False\<rparr>))"
  by (rule returns_conseq[OF admit_only_newer]) (auto simp: newer_def known_def ghost_def own_deed_def split: if_splits)

section \<open>From giver to taker\<close>

lemma run_rebase_clean: "\<exists>w'. run_io (rebase_clean ob w) s = (w', s) \<and> wk_id w' = wk_id w"
proof -
  have "asks reads_only (rebase_clean ob w)" "returns (\<lambda>w'. wk_id w' = wk_id w) (rebase_clean ob w)"
    by (auto simp: rebase_clean_def purge_def asks_log_reads intro!: asks_bind returns_after)
  then show ?thesis using run_reads_only[of "rebase_clean ob w" s] returns_run[of "\<lambda>w'. wk_id w' = wk_id w" "rebase_clean ob w" s]
    by (cases "run_io (rebase_clean ob w) s") auto
qed

lemma run_take_over:
  "\<exists>w'. run_io (take_over en ob tm w) s = ((True, w'), mem_put (checkpoint_key (wk_id w)) (en_encode en (my_checkpoint w')) s) \<and> took ob tm w w'"
proof -
  let ?w = "w\<lparr>wk_meta := bt_insert ob (arrival tm w) (wk_meta w), wk_owned := bt_insert ob (tm_generation tm) (wk_owned w)\<rparr>"
  obtain w1 where r: "run_io (rebase_clean ob ?w) s = (w1, s)" "wk_id w1 = wk_id w"
    using run_rebase_clean[of ob ?w s] by auto
  let ?w2 = "w1\<lparr>wk_transit := bt_remove ob (wk_transit w1), wk_routing := route ob (wk_id w1) (wk_routing w1)\<rparr>"
  have run: "run_io (take_over en ob tm w) s = ((True, ?w2), mem_put (checkpoint_key (wk_id w)) (en_encode en (my_checkpoint ?w2)) s)"
    using r by (simp add: take_over_def Let_def io_simps write_checkpoint_def)
  then have "took ob tm w ?w2" using returns_run[OF take_over_took[of ob tm w en], of s] by simp
  then show ?thesis using run by blast
qed

text \<open>Two checkpoints changed; all other claims are as before.\<close>

lemma key_worker_checkpoint: "w < 2 ^ 64 \<Longrightarrow> key_worker (checkpoint_key w) = Some w"
  by simp

lemma key_worker_own: "key_worker k = Some w \<Longrightarrow> mem_get s k = Some bs \<Longrightarrow> dec bs = Inr cp \<Longrightarrow> key_claims dec ob s k = claims_of ob w cp"
  by (simp add: key_claims_def)

lemma claims_put:
  assumes "w < 2 ^ 64" "dec bs = Inr cp"
  shows "claims dec (mem_put (checkpoint_key w) bs s) ob =
    set (claims_of ob w cp) \<union> {c. \<exists>k. k \<noteq> checkpoint_key w \<and> c \<in> set (key_claims dec ob s k)}"
proof -
  have "key_claims dec ob (mem_put (checkpoint_key w) bs s) k =
      (if k = checkpoint_key w then claims_of ob w cp else key_claims dec ob s k)" for k
    using assms by (simp add: key_claims_def)
  then show ?thesis by (auto simp: claims_def)
qed

lemma durable_claim_is:
  assumes "mem_wf s" "c \<in> claims dec s ob" "\<And>c'. c' \<in> claims dec s ob \<Longrightarrow> c' = c \<or> rank c' < rank c"
  shows "run_io (durable_claim dec ob) s = (c, s)"
proof -
  let ?d = "fst (run_io (durable_claim dec ob) s)"
  have "snd (run_io (durable_claim dec ob) s) = s" by (simp add: io_simps)
  moreover have "?d = c"
  proof -
    let ?cs = "concat (map (key_claims dec ob s) (mem_list s ''_worker/''))"
    have set: "set ?cs = claims dec s ob" by (rule listed_claims[OF assms(1)])
    obtain b where b: "foldl weigh None ?cs = Some b" using weigh_None assms(2) set by (metis empty_iff empty_set not_None_eq)
    then have "b \<in> claims dec s ob" "rank c \<le> rank b" using weigh_max[OF b] set assms(2) by auto
    then have "b = c" using assms(3)[of b] by auto
    then show ?thesis using b by (simp add: run_durable_claim)
  qed
  ultimately show ?thesis by (metis prod.collapse)
qed
lemma other_claims: "k \<noteq> checkpoint_key w \<Longrightarrow> c \<in> set (key_claims dec ob s k) \<Longrightarrow> c \<in> claims dec s ob"
  by (auto simp: claims_def)

lemma run_admit_newer: "newer w ob (tm_generation tm) \<Longrightarrow> run_io (admit en ob tm w) s = run_io (take_over en ob tm w) s"
  by (auto simp: newer_def admit_def split: option.splits)

text \<open>C39: A complete hand-over moves the durable claim in two steps. When the giver knows the highest generation
  there is, its renunciation makes the durable truth "in transit to the taker", one generation up, and the
  taker's acceptance makes it "owned by the taker" at that generation; giver and taker agree in memory.\<close>

theorem handoff_moves_claim:
  assumes "mem_wf s" "bt_wf (wk_owned w)" "bt_wf (wk_transit w)"
    and dec: "\<And>cp. en_decode en (en_encode en cp) = Inr cp"
    and ids: "wk_id w < 2 ^ 64" "wk_id v < 2 ^ 64" "wk_id v \<noteq> wk_id w"
    and top: "known w ob = Some k" "\<And>c. c \<in> claims (en_decode en) s ob \<Longrightarrow> fst (rank c) \<le> k"
    and fresh: "newer v ob (k + 1)"
  shows "\<exists>tm w' s1 v' s2. run_io (release en ob (Some (wk_id v)) w) s = ((Inr tm, w'), s1)
     \<and> run_io (durable_claim (en_decode en) ob) s1 = (Transit (wk_id v) (k + 1), s1)
     \<and> run_io (admit en ob tm v) s1 = ((True, v'), s2)
     \<and> run_io (durable_claim (en_decode en) ob) s2 = (Owned (wk_id v) (k + 1), s2)
     \<and> map_of (wk_owned w') ob = None \<and> map_of (wk_owned v') ob = Some (k + 1)"
proof -
  let ?dec = "en_decode en" and ?d = "Some (wk_id v)"
  let ?w = "removed ob ?d w"
  let ?tm = "deed ob (k + 1) ?w"
  define s1 where "s1 = mem_put (checkpoint_key (wk_id w)) (en_encode en (my_checkpoint ?w)) s"
  have rel: "run_io (release en ob ?d w) s = ((Inr ?tm, let_go en ob ?d ?w), s1)"
    using top(1) by (simp add: release_eq[OF assms(2,3)] io_simps s1_def)
  have cw: "claims_of ob (wk_id w) (my_checkpoint ?w) = [Transit (wk_id v) (k + 1)]"
    using top(1) by (simp add: claims_of_def my_checkpoint_def)
  have put1: "claims ?dec s1 ob = insert (Transit (wk_id v) (k + 1)) {c. \<exists>key. key \<noteq> checkpoint_key (wk_id w) \<and> c \<in> set (key_claims ?dec ob s key)}"
    unfolding s1_def by (subst claims_put[OF ids(1)], rule dec) (simp only: cw, simp)
  have claims1: "c = Transit (wk_id v) (k + 1) \<or> fst (rank c) \<le> k" if "c \<in> claims ?dec s1 ob" for c
    using that top(2) other_claims[of _ "wk_id w" c] unfolding put1 by auto
  have in1: "Transit (wk_id v) (k + 1) \<in> claims ?dec s1 ob" unfolding put1 by simp
  have wf1: "mem_wf s1" using assms(1) by (simp add: s1_def)
  have tr: "run_io (durable_claim ?dec ob) s1 = (Transit (wk_id v) (k + 1), s1)"
  proof (rule durable_claim_is[OF wf1 in1])
    fix c assume "c \<in> claims ?dec s1 ob"
    then show "c = Transit (wk_id v) (k + 1) \<or> rank c < rank (Transit (wk_id v) (k + 1))"
      using claims1[of c] by (cases "rank c") (auto simp: less_prod_def)
  qed
  obtain v' where v': "run_io (take_over en ob ?tm v) s1 = ((True, v'), mem_put (checkpoint_key (wk_id v)) (en_encode en (my_checkpoint v')) s1)"
    "took ob ?tm v v'" using run_take_over[of en ob ?tm v s1] by blast
  define s2 where "s2 = mem_put (checkpoint_key (wk_id v)) (en_encode en (my_checkpoint v')) s1"
  have adm: "run_io (admit en ob ?tm v) s1 = ((True, v'), s2)"
    using v'(1) run_admit_newer[of v ob ?tm] fresh by (simp add: s2_def)
  have cv: "claims_of ob (wk_id v) (my_checkpoint v') = [Owned (wk_id v) (k + 1)]"
    using v'(2) by (simp add: claims_of_def my_checkpoint_def took_def)
  have put2: "claims ?dec s2 ob = insert (Owned (wk_id v) (k + 1)) {c. \<exists>key. key \<noteq> checkpoint_key (wk_id v) \<and> c \<in> set (key_claims ?dec ob s1 key)}"
    unfolding s2_def by (subst claims_put[OF ids(2)], rule dec) (simp only: cv, simp)
  have in2: "Owned (wk_id v) (k + 1) \<in> claims ?dec s2 ob" unfolding put2 by simp
  have wf2: "mem_wf s2" using wf1 by (simp add: s2_def)
  have ow: "run_io (durable_claim ?dec ob) s2 = (Owned (wk_id v) (k + 1), s2)"
  proof (rule durable_claim_is[OF wf2 in2])
    fix c assume "c \<in> claims ?dec s2 ob"
    then have "c = Owned (wk_id v) (k + 1) \<or> c \<in> claims ?dec s1 ob"
      using other_claims[of _ "wk_id v" c] unfolding put2 by auto
    then show "c = Owned (wk_id v) (k + 1) \<or> rank c < rank (Owned (wk_id v) (k + 1))"
      using claims1[of c] by (cases "rank c") (auto simp: less_prod_def)
  qed
  show ?thesis
    by (rule exI[of _ ?tm], rule exI[of _ "let_go en ob ?d ?w"], rule exI[of _ s1], rule exI[of _ v'], rule exI[of _ s2])
       (use rel tr adm ow v'(2) in \<open>simp add: took_def\<close>)
qed

text \<open>Checkpoints as unary numbers: an encoding that can be read back.\<close>

definition unary :: "checkpoint \<Rightarrow> bytes" where
  "unary cp = replicate (to_nat (cp_owned cp, cp_transit cp)) 0"

definition of_unary :: "bytes \<Rightarrow> checkpoint result" where
  "of_unary bs = (case from_nat (length bs) of (os, ts) \<Rightarrow> Inr \<lparr>cp_owned = os, cp_transit = ts\<rparr>)"

definition unary_engine :: "(bytes, unit) engine" where
  "unary_engine = demo_engine\<lparr>en_encode := unary, en_decode := of_unary\<rparr>"

lemma of_unary [simp]: "en_decode unary_engine (en_encode unary_engine cp) = Inr cp"
  by (simp add: unary_engine_def unary_def of_unary_def)

definition giving_wrk :: "(bytes, unit) wrk" where "giving_wrk = idle_wrk\<lparr>wk_owned := [(''a'', 4)]\<rparr>"
definition taking_wrk :: "(bytes, unit) wrk" where "taking_wrk = idle_wrk\<lparr>wk_id := 2\<rparr>"

lemma empty_claims: "claims dec mem_empty ob = {}"
  by (auto simp: claims_def key_claims_def split: option.splits)

lemma handoff_moves_claim_witness:
  "\<exists>tm w' s1 v' s2. run_io (release unary_engine ''a'' (Some 2) giving_wrk) mem_empty = ((Inr tm, w'), s1)
     \<and> run_io (durable_claim of_unary ''a'') s1 = (Transit 2 5, s1)
     \<and> run_io (admit unary_engine ''a'' tm taking_wrk) s1 = ((True, v'), s2)
     \<and> run_io (durable_claim of_unary ''a'') s2 = (Owned 2 5, s2)"
proof -
  have ids: "wk_id giving_wrk = 1" "wk_id taking_wrk = 2" by (simp_all add: giving_wrk_def taking_wrk_def idle_wrk_def)
  have en: "en_decode unary_engine = of_unary" by (simp add: unary_engine_def)
  have "bt_wf (wk_owned giving_wrk)" "bt_wf (wk_transit giving_wrk)" "known giving_wrk ''a'' = Some 4" "newer taking_wrk ''a'' (4 + 1)"
    by (simp_all add: giving_wrk_def taking_wrk_def idle_wrk_def known_def newer_def bt_wf_def)
  then show ?thesis
    using handoff_moves_claim[of mem_empty giving_wrk unary_engine taking_wrk "''a''" 4] unfolding ids en
    by (auto simp: empty_claims ids en[symmetric])
qed

lemma release_durable_or_undone_witness:
  "\<exists>tm w' s'. run_io (release unary_engine ''a'' (Some 2) giving_wrk) mem_empty = ((Inr tm, w'), s')
     \<and> renounced unary_engine ''a'' (Some 2) giving_wrk tm w' \<and> mem_get s' (checkpoint_key 1) = Some (unary (my_checkpoint w'))"
proof -
  have wf: "bt_wf (wk_owned giving_wrk)" "bt_wf (wk_transit giving_wrk)" "wk_id giving_wrk = 1" by (simp_all add: giving_wrk_def idle_wrk_def bt_wf_def)
  have "\<exists>tm w' s'. run_io (release unary_engine ''a'' (Some 2) giving_wrk) mem_empty = ((Inr tm, w'), s')"
    by (simp add: release_eq[OF wf(1,2)] io_simps)
  then show ?thesis
    using safe_run[OF keeps_key_preorder(1) release_durable_or_undone[OF wf(1,2), where en = unary_engine and ob = "''a''" and d = "Some 2"], of mem_empty]
    by (auto simp: wf unary_engine_def)
qed

section \<open>Deeds given out\<close>

abbreviation quiet :: "'v event list \<Rightarrow> ('c, 'v) wrk \<Rightarrow> bool" where
  "quiet out w \<equiv> \<exists>es. wk_out w = out @ es \<and> deeds es = []"

lemma deeds_of_refusals [simp]: "deeds (map (\<lambda>(_, resp). TakeReply resp (Inl (g resp))) xs) = []"
  by (simp add: deeds_def List.map_filter_def filter_empty_conv split_beta)

lemma emit_claims [simp]:
  "wk_owned (emit e w) = wk_owned w" "wk_transit (emit e w) = wk_transit w" "wk_transit (emit_all es w) = wk_transit w"
  by (simp_all add: emit_def emit_all_def)

lemma deeds_Cons [simp]: "deeds (TakeReply resp (Inr tm) # es) = (resp, tm) # deeds es" "deeds (TakeReply resp (Inl e) # es) = deeds es"
  by (simp_all add: deeds_def List.map_filter_def)

lemma keep_txns_quiet: "quiet out w \<Longrightarrow> quiet out (snd (keep_txns ob msg q w))"
  by (auto simp: keep_txns_def Let_def emit_all_def)

lemma admit_quiet: "returns (\<lambda>(_, w'). quiet out w \<longrightarrow> quiet out w') (admit en ob tm w)"
  by (rule returns_conseq[OF admit_only_newer']) (auto simp: took_def split: if_splits)

definition deed_given :: "('c, 'v) engine \<Rightarrow> string \<Rightarrow> ('c, 'v) wrk \<Rightarrow> mem \<Rightarrow> ('c, 'v) wrk \<Rightarrow> nat \<Rightarrow> transfer_meta \<Rightarrow> bool" where
  "deed_given en ob w s w' resp tm \<longleftrightarrow> \<not> unshipped w ob \<and> resp \<notin> set (wk_gone w)
     \<and> (\<exists>taker q. map_of (wk_queues w) ob = Some (TakeEntry taker resp # q) \<and> map_of (wk_transit w') ob = Some (taker, tm_generation tm))
     \<and> map_of (wk_owned w') ob = None
     \<and> mem_get s (checkpoint_key (wk_id w)) = Some (en_encode en (my_checkpoint w'))"

definition served :: "('c, 'v) engine \<Rightarrow> string \<Rightarrow> ('c, 'v) wrk \<Rightarrow> nat list \<times> ('c, 'v) wrk \<Rightarrow> mem \<Rightarrow> bool" where
  "served en ob w res s \<longleftrightarrow> (\<exists>es. wk_out (snd res) = wk_out w @ es
      \<and> (deeds es = [] \<or> (\<exists>resp tm. deeds es = [(resp, tm)] \<and> deed_given en ob w s (snd res) resp tm)))"

lemma served_quiet: "quiet (wk_out w) (snd res) \<Longrightarrow> safe F (keeps_key k) (served en ob w) (Done res) s"
  by (auto simp: served_def)

text \<open>What follows a renunciation that went through, and one that did not.\<close>

lemma grant_sent:
  assumes q: "map_of (wk_queues w) ob = Some (TakeEntry taker resp # q)" and ship: "\<not> unshipped w ob"
    and ren: "renounced en ob (Some taker) (w\<lparr>wk_queues := bt_remove ob (wk_queues w)\<rparr>) tm w1" and here: "resp \<notin> set (wk_gone w1)"
    and put: "mem_get t (checkpoint_key (wk_id w)) = Some (en_encode en (my_checkpoint w1))"
  shows "safe F (keeps_key (checkpoint_key (wk_id w))) (served en ob w) (Done (txns_in q,
     emit_all (map (\<lambda>(_, resp). TakeReply resp (Inl (NotMine (Some taker)))) (takes_in q)) (emit (TakeReply resp (Inr tm)) w1))) t"
proof -
  let ?bounced = "map (\<lambda>(_, resp). TakeReply resp (Inl (NotMine (Some taker)))) (takes_in q)"
  let ?w2 = "emit_all ?bounced (emit (TakeReply resp (Inr tm)) w1)"
  obtain es where es: "wk_out w1 = wk_out w @ es" "deeds es = []" using ren by (auto simp: renounced_def)
  let ?es = "es @ [TakeReply resp (Inr tm)] @ ?bounced"
  have out: "wk_out ?w2 = wk_out w @ ?es" "deeds ?es = [(resp, tm)]" using es by (simp_all add: emit_def)
  have cp: "my_checkpoint ?w2 = my_checkpoint w1" "wk_transit ?w2 = wk_transit w1" "wk_owned ?w2 = wk_owned w1"
    by (simp_all add: my_checkpoint_def emit_def emit_all_def)
  have "deed_given en ob w u ?w2 resp tm" if "keeps_key (checkpoint_key (wk_id w)) t u" for u
    using assms that by (auto simp: deed_given_def cp renounced_def keeps_key_def)
  then show ?thesis unfolding safe.simps served_def snd_conv using out by blast
qed

lemma grant_interrupted:
  fixes w w1 :: "('c, 'v) wrk"
  assumes "quiet (wk_out w) w1"
  shows "safe F (keeps_key k) (served en ob w) (io_bind (admit en ob tm w1) (\<lambda>(_, w). Done (keep_txns ob msg q w))) t"
proof (rule safe_bind[OF keeps_key_preorder(1)], rule safe_conseq[OF safe_returns[OF admit_quiet[where out = "wk_out w"]]])
  fix x :: "bool \<times> ('c, 'v) wrk" and u assume "case x of (_, w') \<Rightarrow> quiet (wk_out w) w1 \<longrightarrow> quiet (wk_out w) w'"
  then show "safe F (keeps_key k) (served en ob w) (case x of (_, w) \<Rightarrow> Done (keep_txns ob msg q w)) u"
    using assms by (auto simp only: split_beta intro!: served_quiet keep_txns_quiet)
qed

lemma safe_grant_front:
  assumes "bt_wf (wk_owned w)" "bt_wf (wk_transit w)"
    and q: "map_of (wk_queues w) ob = Some (TakeEntry taker resp # q)" "\<not> unshipped w ob"
  shows "safe F (keeps_key (checkpoint_key (wk_id w))) (served en ob w) (grant_front en ob taker resp q w) s"
proof -
  let ?w = "w\<lparr>wk_queues := bt_remove ob (wk_queues w)\<rparr>" and ?k = "checkpoint_key (wk_id w)"
  have wf: "bt_wf (wk_owned ?w)" "bt_wf (wk_transit ?w)" and id: "wk_id ?w = wk_id w" using assms by simp_all
  have failed: "safe F (keeps_key ?k) (served en ob w) (Done (keep_txns ob msg q (emit (TakeReply resp (Inl e)) ?w))) t" for e msg t
    by (rule served_quiet, rule keep_txns_quiet) (simp add: emit_def)
  have gone: "quiet (wk_out w) w1" if "renounced en ob (Some taker) ?w tm w1" for tm w1 using that by (simp add: renounced_def)
  show ?thesis
    unfolding grant_front_def Let_def
    by (rule safe_bind[OF keeps_key_preorder(1)],
        rule safe_conseq[OF release_facts[OF wf, where en = en and ob = ob and d = "Some taker", unfolded id]])
       (auto simp del: safe.simps simp: grant_sent[OF q] grant_interrupted[OF gone] failed split: sum.splits prod.splits)
qed

text \<open>Serving the head of an object's queue sends at most one deed, to the taker at the head, only when no write of the
  object is still unshipped and the taker still listens, and only when the checkpoint in which this
  worker renounces the object in that taker's favour at the deed's generation is in the store.\<close>

theorem deeds_are_durable:
  assumes "bt_wf (wk_owned w)" "bt_wf (wk_transit w)"
  shows "safe F (keeps_key (checkpoint_key (wk_id w))) (\<lambda>(_, w') s. \<exists>es. wk_out w' = wk_out w @ es
      \<and> (deeds es = [] \<or> (\<exists>resp tm. deeds es = [(resp, tm)] \<and> deed_given en ob w s w' resp tm)))
    (service_front en ob w) s"
proof -
  have "safe F (keeps_key (checkpoint_key (wk_id w))) (served en ob w) (service_front en ob w) s"
    unfolding service_front_def
    by (auto simp del: safe.simps simp: safe_grant_front[OF assms] intro!: served_quiet split: option.split list.split queue_entry.split)
  then show ?thesis by (rule safe_conseq) (auto simp: served_def)
qed

definition asked :: "(bytes, unit) wrk" where
  "asked = idle_wrk\<lparr>wk_owned := [(''a'', 4)], wk_queues := [(''a'', [TakeEntry 2 7])]\<rparr>"

lemma deeds_are_durable_witness:
  "\<exists>w' s' tm. run_io (service_front unary_engine ''a'' asked) mem_empty = (([], w'), s')
     \<and> deeds (wk_out w') = [(7, tm)] \<and> deed_given unary_engine ''a'' asked s' w' 7 tm"
proof -
  have wf: "bt_wf (wk_owned asked)" "bt_wf (wk_transit asked)" "wk_out asked = []" by (simp_all add: asked_def idle_wrk_def bt_wf_def)
  obtain rs w' s' where r: "run_io (service_front unary_engine ''a'' asked) mem_empty = ((rs, w'), s')" by (metis prod.collapse)
  have "rs = [] \<and> deeds (wk_out w') \<noteq> []"
    using r by (auto simp: asked_def idle_wrk_def service_front_def unshipped_def grant_front_def release_def io_simps Let_def
        write_checkpoint_def let_go_def fail_polls_def evict_def emit_def takes_in_def txns_in_def List.map_filter_def bt_remove_def)
  moreover have "deed_given unary_engine ''a'' asked s' w' resp tm \<Longrightarrow> resp = 7" for resp tm
    by (auto simp: deed_given_def asked_def)
  ultimately show ?thesis
    using r wf(3) safe_run[OF keeps_key_preorder(1) deeds_are_durable[OF wf(1,2), where ob = "''a''" and en = unary_engine], of mem_empty] by auto
qed

section \<open>Chasing the owner\<close>

definition reports_once :: "nat \<Rightarrow> string \<Rightarrow> task_msg list \<Rightarrow> bool" where
  "reports_once txn ob msgs \<longleftrightarrow> (\<exists>from r. msgs = [TakenMsg txn ob from r])
     \<or> (\<exists>tm from. msgs = [AdoptMsg ob tm, TakenMsg txn ob from AlreadyLocal])"

lemma take_ask_reports: "take_ask env me txn ob n owner = Inl msgs \<Longrightarrow> reports_once txn ob msgs"
  by (auto simp: take_ask_def reports_once_def split: if_splits sum.splits take_error.splits)

lemma take_attempts_report: "returns (reports_once txn ob) (take_attempts env dec me txn ob m chase err)"
proof (induction m arbitrary: chase err)
  case 0
  then show ?case by (simp add: reports_once_def)
next
  case (Suc m)
  have go: "returns (reports_once txn ob) (case take_ask env me txn ob n owner of
      Inl msgs \<Rightarrow> Done msgs | Inr (chase, err) \<Rightarrow> take_attempts env dec me txn ob m chase err)" for n owner
    using take_ask_reports[of env me txn ob n owner] Suc by (auto split: sum.split)
  have heal: "reports_once txn ob [AdoptMsg ob tm, TakenMsg txn ob from AlreadyLocal]" for tm "from"
    by (simp add: reports_once_def)
  show ?case
    by (auto simp: Let_def go heal intro!: returns_after split: option.split claim.split)
qed

text \<open>The task that fetches an object always answers, and exactly once: whatever the peers, the routing and the store
  say, after at most eight attempts it sends the waiting transaction one verdict, preceded at most by the
  message that restores this worker's own durable claim.\<close>

theorem take_task_reports_once: "returns (reports_once txn ob) (take_task env dec me txn ob)"
  unfolding take_task_def by (rule take_attempts_report)

section \<open>A deed spent twice\<close>

text \<open>Worker 3 got the object at generation 5 from worker 2 and has passed it on to worker 4 at 6; worker 2's
  checkpoint still shows the first step, its own the second. The first deed arrives again.\<close>

definition relay_decode :: "bytes \<Rightarrow> checkpoint result" where
  "relay_decode bs = (if bs = [2] then Inr \<lparr>cp_owned = [], cp_transit = [(''a'', (3, 5))]\<rparr>
     else if bs = [3] then Inr \<lparr>cp_owned = [], cp_transit = [(''a'', (4, 6))]\<rparr> else Inl ''no'')"

definition relay_engine :: "(bytes, unit) engine" where
  "relay_engine = demo_engine\<lparr>en_decode := relay_decode\<rparr>"

definition relay_store :: mem where
  "relay_store = mem_put (checkpoint_key 3) [3] (mem_put (checkpoint_key 2) [2] mem_empty)"

definition relay :: "(bytes, unit) wrk" where
  "relay = idle_wrk\<lparr>wk_id := 3, wk_owned := [], wk_transit := [(''a'', (4, 6))]\<rparr>"

lemma relay_ne [simp]: "checkpoint_key 2 \<noteq> checkpoint_key 3" "checkpoint_key 3 \<noteq> checkpoint_key 2"
  using checkpoint_key_inj[of 2 3] by auto

lemma relay_less: "checkpoint_key 2 < checkpoint_key 3"
  by (simp add: checkpoint_key_def show_nat.simps digit_char_def less_char_def)

lemma relay_keys: "mem_list relay_store ''_worker/'' = [checkpoint_key 2, checkpoint_key 3]"
proof (rule sorted_distinct_set_unique)
  have wf: "mem_wf relay_store" by (simp add: relay_store_def)
  have "sorted_wrt (<) (mem_list relay_store ''_worker/'')" by (rule mem_list_sorted[OF wf])
  then show "sorted (mem_list relay_store ''_worker/'')" "distinct (mem_list relay_store ''_worker/'')"
    by (simp_all add: strict_sorted_iff)
  show "sorted [checkpoint_key 2, checkpoint_key 3]" "distinct [checkpoint_key 2, checkpoint_key 3]"
    using relay_less by simp_all
  have "starts_with (checkpoint_key k) ''_worker/''" for k by (simp add: checkpoint_key_def starts_with_def)
  moreover have "mem_get relay_store k \<noteq> None \<longleftrightarrow> k = checkpoint_key 2 \<or> k = checkpoint_key 3" for k
    by (auto simp: relay_store_def)
  ultimately show "set (mem_list relay_store ''_worker/'') = set [checkpoint_key 2, checkpoint_key 3]"
    unfolding set_mem_list[OF wf] by auto
qed

lemma relay_gets: "mem_get relay_store (checkpoint_key 2) = Some [2]" "mem_get relay_store (checkpoint_key 3) = Some [3]"
  by (simp_all add: relay_store_def)

lemma relay_workers: "key_worker (checkpoint_key 2) = Some 2" "key_worker (checkpoint_key 3) = Some 3"
  by (simp_all add: key_worker_checkpoint)

lemma relay_decodes:
  "relay_decode [2] = Inr \<lparr>cp_owned = [], cp_transit = [(''a'', (3, 5))]\<rparr>"
  "relay_decode [3] = Inr \<lparr>cp_owned = [], cp_transit = [(''a'', (4, 6))]\<rparr>"
  by (simp_all add: relay_decode_def)

lemmas relay_facts = relay_keys relay_gets relay_workers relay_decodes

lemma relay_answers: "run_io (durable_claim relay_decode ''a'') relay_store = (Transit 4 6, relay_store)"
  unfolding run_durable_claim relay_keys
  by (simp add: key_claims_def relay_gets relay_workers relay_decodes claims_of_def weigh_def)

text \<open>With that one read failing, the answer is the older step.\<close>

abbreviation relay_scan :: "key list \<Rightarrow> claim option \<Rightarrow> (claim \<Rightarrow> 'a io) \<Rightarrow> 'a io" where
  "relay_scan keys best K \<equiv> io_bind (durable_scan relay_decode ''a'' keys best) (\<lambda>b. K (case b of Some c \<Rightarrow> c | None \<Rightarrow> Unclaimed))"

lemma relay_list_step:
  "sys_steps F (relay_store, [io_bind (durable_claim relay_decode ''a'') K])
     (relay_store, [relay_scan [checkpoint_key 2, checkpoint_key 3] None K])"
proof -
  let ?f = "\<lambda>r. io_bind (case r of Inl _ \<Rightarrow> Done (Transit usize_max (2 ^ 64 - 1))
    | Inr keys \<Rightarrow> io_bind (durable_scan relay_decode ''a'' keys None) (\<lambda>best. Done (case best of Some c \<Rightarrow> c | None \<Rightarrow> Unclaimed))) K"
  have p: "[io_bind (durable_claim relay_decode ''a'') K] ! 0 = io_bind (io_list ''_worker/'') ?f"
    by (simp add: durable_claim_def io_bind_assoc)
  have r: "run_io (io_list ''_worker/'') relay_store = (Inr [checkpoint_key 2, checkpoint_key 3], relay_store)"
    by (simp add: io_simps relay_keys)
  have "[io_bind (durable_claim relay_decode ''a'') K][0 := ?f (Inr [checkpoint_key 2, checkpoint_key 3])]
    = [relay_scan [checkpoint_key 2, checkpoint_key 3] None K]"
    by (simp only: list_update_code sum.case io_bind_assoc io_bind.simps)
  then show ?thesis using sys_bind[OF _ p r, of F] by simp
qed

lemma relay_read_step:
  "sys_steps F (relay_store, [relay_scan [checkpoint_key 2, checkpoint_key 3] None K])
     (relay_store, [relay_scan [checkpoint_key 3] (Some (Transit 3 5)) K])"
proof -
  let ?f = "\<lambda>r. relay_scan [checkpoint_key 3] (case r of
       Inr (Some bs) \<Rightarrow> (case relay_decode bs of Inr cp \<Rightarrow> weigh_checkpoint ''a'' 2 cp None | Inl _ \<Rightarrow> None) | _ \<Rightarrow> None) K"
  have p: "[relay_scan [checkpoint_key 2, checkpoint_key 3] None K] ! 0 = io_bind (io_get (checkpoint_key 2)) ?f"
    by (simp add: io_bind_assoc relay_workers)
  have r: "run_io (io_get (checkpoint_key 2)) relay_store = (Inr (Some [2]), relay_store)"
    by (simp add: io_simps relay_gets)
  have w: "(case Inr (Some [2]) of Inr (Some bs) \<Rightarrow> (case relay_decode bs of
      Inr cp \<Rightarrow> weigh_checkpoint ''a'' 2 cp None | Inl _ \<Rightarrow> None) | _ \<Rightarrow> None) = Some (Transit 3 5)"
    by (simp add: relay_decodes weigh_checkpoint_def weigh_def)
  have len: "0 < length [relay_scan [checkpoint_key 2, checkpoint_key 3] None K]" by simp
  show ?thesis using sys_bind[OF len p r, of F] unfolding w list_update_code .
qed

lemma relay_failed_step:
  "sys_steps (\<lambda>q. q = GetReq (checkpoint_key 3)) (relay_store, [relay_scan [checkpoint_key 3] (Some c) K]) (relay_store, [K c])"
proof -
  let ?F = "\<lambda>q. q = GetReq (checkpoint_key 3)"
  let ?k = "\<lambda>r. relay_scan [] (case as_blob r of
       Inr (Some bs) \<Rightarrow> (case relay_decode bs of Inr cp \<Rightarrow> weigh_checkpoint ''a'' 3 cp (Some c) | Inl _ \<Rightarrow> Some c) | _ \<Rightarrow> Some c) K"
  have p: "[relay_scan [checkpoint_key 3] (Some c) K] ! 0 = Do (GetReq (checkpoint_key 3)) ?k"
    by (simp add: relay_workers io_get_def)
  have "sys_step ?F (relay_store, [relay_scan [checkpoint_key 3] (Some c) K])
      (relay_store, [relay_scan [checkpoint_key 3] (Some c) K][0 := ?k (ErrResp ''x'')])"
    by (rule sys_step.failed[OF _ p]) simp_all
  moreover have "?k (ErrResp ''x'') = K c" by (simp add: as_blob_def)
  ultimately show ?thesis by (simp del: io_bind.simps durable_scan.simps)
qed

lemma relay_misled:
  "sys_steps (\<lambda>q. q = GetReq (checkpoint_key 3)) (relay_store, [io_bind (durable_claim relay_decode ''a'') K]) (relay_store, [K (Transit 3 5)])"
  using relay_list_step relay_read_step relay_failed_step by (rule rtranclp_trans[OF _ rtranclp_trans])

text \<open>C40: A deed can be spent twice: a worker that has passed an object on refuses the old deed, but when the read of
  its own checkpoint fails while it looks up the durable truth, it accepts the deed again and owns the
  object at generation 5 while another worker holds it at 6.\<close>

theorem failed_read_spends_deed_twice:
  "run_io (admit relay_engine ''a'' (own_deed 3 5) relay) relay_store = ((False, relay), relay_store)
   \<and> (\<exists>s' w'. sys_steps (\<lambda>q. q = GetReq (checkpoint_key 3)) (relay_store, [admit relay_engine ''a'' (own_deed 3 5) relay]) (s', [Done (True, w')])
        \<and> map_of (wk_owned w') ''a'' = Some 5 \<and> known relay ''a'' = Some 6)"
proof -
  let ?F = "\<lambda>q. q = GetReq (checkpoint_key 3)" and ?tm = "own_deed 3 5"
  let ?w = "relay\<lparr>wk_transit := bt_remove ''a'' (wk_transit relay)\<rparr>"
  let ?K = "\<lambda>c. if claim_is c 3 5 then take_over relay_engine ''a'' ?tm ?w else Done (False, relay)"
  have known: "known relay ''a'' = Some 6" by (simp add: relay_def idle_wrk_def known_def)
  have fields: "wk_log_primary relay" "wk_owned relay = []" "wk_id relay = 3" "tm_generation ?tm = 5" "en_decode relay_engine = relay_decode"
    by (simp_all add: relay_def idle_wrk_def own_deed_def relay_engine_def)
  have ad: "admit relay_engine ''a'' ?tm relay = io_bind (durable_claim relay_decode ''a'') ?K"
    using known fields by (simp add: admit_def)
  have "run_io (admit relay_engine ''a'' ?tm relay) relay_store = ((False, relay), relay_store)"
    unfolding ad run_io_bind relay_answers by (simp add: claim_is_def)
  moreover obtain acc w' s' where fin: "run_io (take_over relay_engine ''a'' ?tm ?w) relay_store = ((acc, w'), s')" by (metis prod.collapse)
  moreover have took: "acc \<and> took ''a'' ?tm ?w w'" using returns_run[OF take_over_took[where en = relay_engine and ob = "''a''" and tm = ?tm and w = ?w], of relay_store] fin by simp
  moreover have "sys_steps ?F (relay_store, [admit relay_engine ''a'' ?tm relay]) (relay_store, [take_over relay_engine ''a'' ?tm ?w])"
    unfolding ad using relay_misled[of ?K] by (simp add: claim_is_def)
  moreover have "sys_steps ?F (relay_store, [take_over relay_engine ''a'' ?tm ?w]) (s', [Done (acc, w')])"
    using run_io_steps[of 0 "[take_over relay_engine ''a'' ?tm ?w]" relay_store "(acc, w')" s' ?F] fin by simp
  ultimately show ?thesis using known fields by (auto simp: took_def intro!: exI[of _ s'] exI[of _ w'] elim: rtranclp_trans)
qed

end
