(* ===== verification/Exec.thy ===== *)
theory Exec
  imports Handoff
begin

text \<open>
  Running a transaction, from \<open>src/src/worker.rs\<close>: \<open>apply\<close> runs its operations under local SQLite
  transactions, \<open>run_and_complete\<close> brings the participants up to date, applies, answers or parks the
  poll or puts the answer on the next boat, and releases the queues. SQLite is the \<open>engine\<close>; a
  missing connection is the panic the code has there. Handlers that wait for the store and can panic are
  store programs returning a \<open>rust\<close> value.
\<close>

section \<open>Programs that can panic\<close>

definition rio_bind :: "'a rust io \<Rightarrow> ('a \<Rightarrow> 'b rust io) \<Rightarrow> 'b rust io" where
  "rio_bind p f = io_bind p (\<lambda>x. case x of Panic \<Rightarrow> Done Panic | Ret y \<Rightarrow> f y)"

definition rio :: "'a io \<Rightarrow> 'a rust io" where
  "rio p = io_bind p (\<lambda>x. Done (Ret x))"

section \<open>Applying\<close>

text \<open>One call on the connection of an object, which must be live.\<close>

definition on_conn :: "string \<Rightarrow> ('c \<Rightarrow> 'a \<times> 'c) \<Rightarrow> ('c, 'v) wrk \<Rightarrow> ('a \<times> ('c, 'v) wrk) rust" where
  "on_conn ob f w = (case map_of (wk_live w) ob of
     None \<Rightarrow> Panic
   | Some c \<Rightarrow> (let (x, c) = f c in Ret (x, w\<lparr>wk_live := bt_insert ob c (wk_live w)\<rparr>)))"

definition file_change_counter :: "('c, 'v) engine \<Rightarrow> ('c, 'v) wrk \<Rightarrow> string \<Rightarrow> u32 option" where
  "file_change_counter en w ob = Option.bind (map_of (wk_live w) ob) (\<lambda>c. Option.bind (en_file en ob c) (\<lambda>f.
     if 28 \<le> length f then Some (word_of_nat (of_be [f ! 24, f ! 25, f ! 26, f ! 27])) else None))"

fun read_ops :: "('c, 'v) engine \<Rightarrow> 'v op list \<Rightarrow> ('c, 'v) wrk \<Rightarrow> ((api_error + 'v op_result list) \<times> ('c, 'v) wrk) rust" where
  "read_ops en [] w = Ret (Inr [], w)"
| "read_ops en (p # ops) w = (case map_of (wk_live w) (op_object p) of
     None \<Rightarrow> Panic
   | Some c \<Rightarrow> (case en_readonly en c (op_sql p) of
       Inl e \<Rightarrow> Ret (Inl (bad_request e), w)
     | Inr False \<Rightarrow> Ret (Inl (bad_request ''query must be read-only; use /txn or /objects/{id}/exec for writes''), w)
     | Inr True \<Rightarrow> rust_bind (on_conn (op_object p) (\<lambda>c. en_run en c (op_sql p) (op_params p)) w) (\<lambda>(r, w). case r of
           Inl e \<Rightarrow> Ret (Inl (bad_request e), w)
         | Inr x \<Rightarrow> rust_bind (read_ops en ops w) (\<lambda>(rest, w). Ret (map_sum (\<lambda>e. e) ((#) x) rest, w)))))"

text \<open>The same call on every participant: the authorizers, \<open>ROLLBACK\<close>; \<open>BEGIN\<close> and \<open>COMMIT\<close> stop at the first
  error (with its index).\<close>

fun on_all :: "string list \<Rightarrow> (string \<Rightarrow> 'c \<Rightarrow> 'c) \<Rightarrow> ('c, 'v) wrk \<Rightarrow> ('c, 'v) wrk rust" where
  "on_all [] f w = Ret w"
| "on_all (ob # obs) f w = rust_bind (on_conn ob (\<lambda>c. ((), f ob c)) w) (\<lambda>(_, w). on_all obs f w)"

fun begin_all :: "('c, 'v) engine \<Rightarrow> string list \<Rightarrow> ('c, 'v) wrk \<Rightarrow> (unit result \<times> ('c, 'v) wrk) rust" where
  "begin_all en [] w = Ret (Inr (), w)"
| "begin_all en (ob # obs) w = rust_bind (on_conn ob (en_begin en) w) (\<lambda>(r, w). case r of
     Inl e \<Rightarrow> Ret (Inl e, w) | Inr _ \<Rightarrow> begin_all en obs w)"

fun commit_all :: "('c, 'v) engine \<Rightarrow> nat \<Rightarrow> string list \<Rightarrow> ('c, 'v) wrk \<Rightarrow> ((nat \<times> string) option \<times> ('c, 'v) wrk) rust" where
  "commit_all en i [] w = Ret (None, w)"
| "commit_all en i (ob # obs) w = rust_bind (on_conn ob (en_commit en) w) (\<lambda>(r, w). case r of
     Inl e \<Rightarrow> Ret (Some (i, e), w) | Inr _ \<Rightarrow> commit_all en (i + 1) obs w)"

fun write_ops :: "('c, 'v) engine \<Rightarrow> 'v op list \<Rightarrow> ('c, 'v) wrk \<Rightarrow> ((string + 'v op_result list) \<times> ('c, 'v) wrk) rust" where
  "write_ops en [] w = Ret (Inr [], w)"
| "write_ops en (p # ops) w =
     rust_bind (on_conn (op_object p) (\<lambda>c. en_run en c (op_sql p) (op_params p)) w) (\<lambda>(r, w). case r of
       Inl e \<Rightarrow> Ret (Inl e, w)
     | Inr x \<Rightarrow> rust_bind (write_ops en ops w) (\<lambda>(rest, w). Ret (map_sum (\<lambda>e. e) ((#) x) rest, w)))"

definition gate_all :: "('c, 'v) engine \<Rightarrow> capability option \<Rightarrow> string list \<Rightarrow> ('c, 'v) wrk \<Rightarrow> ('c, 'v) wrk rust" where
  "gate_all en cap obs w = (case cap of None \<Rightarrow> Ret w
   | Some cap \<Rightarrow> on_all obs (\<lambda>ob. en_authorize en (Some (cap_gate cap ob))) w)"

definition ungate_all :: "('c, 'v) engine \<Rightarrow> capability option \<Rightarrow> string list \<Rightarrow> ('c, 'v) wrk \<Rightarrow> ('c, 'v) wrk rust" where
  "ungate_all en cap obs w = (case cap of None \<Rightarrow> Ret w | Some _ \<Rightarrow> on_all obs (\<lambda>_. en_authorize en None) w)"

definition commit_phase :: "('c, 'v) engine \<Rightarrow> string list \<Rightarrow> (string \<times> u32 option) list \<Rightarrow> 'v op_result list \<Rightarrow> ('c, 'v) wrk
    \<Rightarrow> ((api_error + 'v op_result list \<times> string list) \<times> ('c, 'v) wrk) rust" where
  "commit_phase en obs before results w = rust_bind (commit_all en 0 obs w) (\<lambda>(err, w). case err of
     Some (at, e) \<Rightarrow> rust_bind (on_all (drop at obs) (\<lambda>_. en_rollback en) w) (\<lambda>w.
       Ret (Inl (internal (''local commit failed: '' @ e)), revert_closure (take at obs) w))
   | None \<Rightarrow>
       let changed = map fst (filter (\<lambda>(ob, b). file_change_counter en w ob \<noteq> b \<or> file_change_counter en w ob = None) before)
       in Ret (Inr (results, changed), w))"

definition apply_txn :: "('c, 'v) engine \<Rightarrow> string list \<Rightarrow> 'v op list \<Rightarrow> bool \<Rightarrow> capability option \<Rightarrow> ('c, 'v) wrk
    \<Rightarrow> ((api_error + 'v op_result list \<times> string list) \<times> ('c, 'v) wrk) rust" where
  "apply_txn en obs ops read_only cap w =
     (case List.find (\<lambda>ob. map_of (wk_live w) ob = None) obs of
       Some missing \<Rightarrow> Ret (Inl (internal (''participant '' @ missing @ '' reverted before execution; retry'')), w)
     | None \<Rightarrow>
         if read_only then rust_bind (read_ops en ops w) (\<lambda>(r, w). Ret (map_sum (\<lambda>e. e) (\<lambda>rs. (rs, [])) r, w))
         else
           (let before = map (\<lambda>ob. (ob, file_change_counter en w ob)) obs
            in rust_bind (gate_all en cap obs w) (\<lambda>w. rust_bind (begin_all en obs w) (\<lambda>(r, w). case r of
                 Inl e \<Rightarrow> rust_bind (ungate_all en cap obs w) (\<lambda>w. Ret (Inl (internal e), w))
               | Inr _ \<Rightarrow> rust_bind (write_ops en ops w) (\<lambda>(r, w). case r of
                   Inl msg \<Rightarrow> rust_bind (on_all obs (\<lambda>_. en_rollback en) w) (\<lambda>w. rust_bind (ungate_all en cap obs w) (\<lambda>w.
                     Ret (Inl (bad_request (''op failed, transaction rolled back: '' @ msg)), w)))
                 | Inr results \<Rightarrow> rust_bind (ungate_all en cap obs w) (\<lambda>w. commit_phase en obs before results w))))))"

section \<open>Bringing a participant up to date\<close>

definition log_seq_of :: "('c, 'v) wrk \<Rightarrow> string \<Rightarrow> u64" where
  "log_seq_of w ob = (case map_of (wk_log_seq w) ob of Some q \<Rightarrow> q | None \<Rightarrow> 0)"

definition rebuild :: "('c, 'v) engine \<Rightarrow> string \<Rightarrow> bytes \<Rightarrow> u64 \<Rightarrow> ('c, 'v) wrk \<Rightarrow> bool \<times> ('c, 'v) wrk" where
  "rebuild en ob img seq w = (case materialize en ob img w of
     Inr w \<Rightarrow> (True, w\<lparr>wk_log_seq := bt_insert ob seq (wk_log_seq w)\<rparr>) | Inl _ \<Rightarrow> (False, w))"

definition refresh_if_stale :: "('c, 'v) engine \<Rightarrow> string \<Rightarrow> ('c, 'v) wrk \<Rightarrow> (bool \<times> ('c, 'v) wrk) io" where
  "refresh_if_stale en ob w =
     (if unshipped w ob then Done (False, w)
      else io_bind (fold_committed ob) (\<lambda>r. Done (case r of
          Inl _ \<Rightarrow> (False, w)
        | Inr (img, seq) \<Rightarrow> if seq \<le> log_seq_of w ob then (False, w) else rebuild en ob img seq w)))"

definition refold_clean_base :: "('c, 'v) engine \<Rightarrow> string \<Rightarrow> ('c, 'v) wrk \<Rightarrow> ('c, 'v) wrk io" where
  "refold_clean_base en ob w =
     (if starts_with ob ''_'' then Done w
      else if unshipped w ob \<or> map_of (wk_live w) ob = None then Done w
      else io_bind (fold_committed ob) (\<lambda>r. Done (case r of
          Inl _ \<Rightarrow> w | Inr (img, seq) \<Rightarrow> snd (rebuild en ob img seq w))))"

definition refresh_stale_poll :: "('c, 'v) engine \<Rightarrow> string \<Rightarrow> poll_opts \<Rightarrow> 'v op \<Rightarrow> ('c, 'v) wrk
    \<Rightarrow> ('v txn_response option \<times> ('c, 'v) wrk) io" where
  "refresh_stale_poll en ob po p w = io_bind (refresh_if_stale en ob w) (\<lambda>(fresh, w). Done (
     if \<not> fresh then (None, w)
     else case map_of (wk_live w) ob of
         None \<Rightarrow> (None, w)
       | Some c \<Rightarrow>
           (let (r, c) = en_run en c (op_sql p) (op_params p); w = w\<lparr>wk_live := bt_insert ob c (wk_live w)\<rparr>
            in case r of
                Inl _ \<Rightarrow> (None, w)
              | Inr x \<Rightarrow>
                  let h = poll_hash en [x]
                  in (if poll_ready (po_baseline po) [x] h
                      then Some \<lparr>tr_txn_id = ''w'' @ show_nat (wk_id w) @ ''-poll-refresh'', tr_results = [x], tr_hash = Some h\<rparr> else None, w))))"

fun freshen :: "('c, 'v) engine \<Rightarrow> bool \<Rightarrow> string list \<Rightarrow> ('c, 'v) wrk \<Rightarrow> ('c, 'v) wrk io" where
  "freshen en read_only [] w = Done w"
| "freshen en read_only (ob # obs) w =
     io_bind (if read_only then io_bind (refresh_if_stale en ob w) (\<lambda>(_, w). Done w) else refold_clean_base en ob w)
       (\<lambda>w. freshen en read_only obs w)"

section \<open>Running and completing\<close>

definition settle_in :: "string list \<Rightarrow> ('c, 'v) wrk \<Rightarrow> ('c, 'v) wrk" where
  "settle_in obs w = foldl (\<lambda>w ob. if map_of (wk_meta w) ob = None
     then w\<lparr>wk_meta := bt_insert ob \<lparr>me_arrived_at = wk_clock w, me_return_to = None, me_visit = None\<rparr> (wk_meta w)\<rparr> else w) w obs"

fun fire_written :: "('c, 'v) engine \<Rightarrow> string list \<Rightarrow> ('c, 'v) wrk \<Rightarrow> ('c, 'v) wrk" where
  "fire_written en [] w = w"
| "fire_written en (ob # obs) w = (let (fired, w) = take_fired_polls en ob False w in fire_written en obs (answer fired w))"

definition mark_dirty :: "('c, 'v) engine \<Rightarrow> string \<Rightarrow> ('c, 'v) wrk \<Rightarrow> ('c, 'v) wrk" where
  "mark_dirty en ob w =
     (if map_of (wk_dirty w) ob \<noteq> None then w
      else let n = live_size en w ob
           in w\<lparr>wk_dirty := bt_insert ob n (wk_dirty w), wk_dirty_bytes := wk_dirty_bytes w + n,
                wk_disk := ledger_touch (live_path w ob) n (wk_disk w)\<rparr>)"

definition park_poll :: "string \<Rightarrow> poll_opts \<Rightarrow> 'v op \<Rightarrow> nat \<Rightarrow> ('c, 'v) wrk \<Rightarrow> ('c, 'v) wrk" where
  "park_poll ob po p resp w = w\<lparr>wk_polls := bt_insert ob ((case map_of (wk_polls w) ob of Some ps \<Rightarrow> ps | None \<Rightarrow> [])
     @ [\<lparr>pp_conn = po_conn po, pp_frame = po_frame po, pp_sql = op_sql p, pp_params = op_params p,
         pp_durable = po_durable po, pp_baseline = po_baseline po, pp_resp = resp\<rparr>]) (wk_polls w)\<rparr>"

definition complete_read :: "('c, 'v) engine \<Rightarrow> 'v parked \<Rightarrow> 'v txn_response \<Rightarrow> ('c, 'v) wrk \<Rightarrow> ('c, 'v) wrk rust io" where
  "complete_read en p response w = (case pk_poll p of
     None \<Rightarrow> Done (Ret (answer [(pk_resp p, response)] w))
   | Some po \<Rightarrow>
       (case pk_participants p of [] \<Rightarrow> Done Panic
        | ob # _ \<Rightarrow>
          (let h = poll_hash en (tr_results response)
           in if \<not> (po_durable po \<and> unshipped w ob) \<and> poll_ready (po_baseline po) (tr_results response) h
              then Done (Ret (answer [(pk_resp p, response\<lparr>tr_hash := Some h\<rparr>)] w))
              else (case pk_ops p of
                  [] \<Rightarrow> Done Panic
                | q # _ \<Rightarrow>
                    io_bind (if po_durable po \<and> wk_log_primary w \<and> \<not> unshipped w ob
                             then refresh_stale_poll en ob po q w else Done (None, w)) (\<lambda>(refreshed, w). Done (Ret (
                      case refreshed of
                        Some r \<Rightarrow> answer [(pk_resp p, r)] w
                      | None \<Rightarrow> park_poll ob po q (pk_resp p) w)))))))"

definition complete_write :: "('c, 'v) engine \<Rightarrow> 'v parked \<Rightarrow> 'v txn_response \<Rightarrow> string list \<Rightarrow> ('c, 'v) wrk \<Rightarrow> ('c, 'v) wrk" where
  "complete_write en p response changed w =
     (if changed = [] then fire_written en (pk_participants p) (answer [(pk_resp p, response)] w)
      else
        (let w = foldl (\<lambda>w ob. mark_dirty en ob w) w changed;
             now = pk_optimistic p \<and> wk_dirty_bytes w \<le> wk_max_unshipped w;
             w = (if now then answer [(pk_resp p, response)] w else w);
             w = w\<lparr>wk_pending := wk_pending w @ [\<lparr>at_participants = changed,
                    at_waiter = (if now then None else Some (pk_resp p, response))\<rparr>]\<rparr>
         in fire_written en (pk_participants p) w))"

definition complete :: "('c, 'v) engine \<Rightarrow> nat \<Rightarrow> 'v parked \<Rightarrow> (api_error + 'v op_result list \<times> string list) \<Rightarrow> ('c, 'v) wrk
    \<Rightarrow> ('c, 'v) wrk rust io" where
  "complete en txn p res w = (case res of
     Inl e \<Rightarrow> Done (Ret (emit (Reply (pk_resp p) (Inl e)) w))
   | Inr (results, changed) \<Rightarrow>
       (let response = \<lparr>tr_txn_id = ''w'' @ show_nat (wk_id w) @ ''-'' @ show_nat txn, tr_results = results, tr_hash = None\<rparr>
        in if pk_read_only p then complete_read en p response w
           else Done (Ret (complete_write en p response changed w))))"

text \<open>Releasing the heads (the check that the popped entry is ours is for debug builds only and left out): an emptied queue lets the object go home, another head is served.\<close>

fun release_heads :: "('c, 'v) engine \<Rightarrow> string list \<Rightarrow> ('c, 'v) wrk \<Rightarrow> (nat list \<times> ('c, 'v) wrk) io" where
  "release_heads en [] w = Done ([], w)"
| "release_heads en (ob # obs) w = (case map_of (wk_queues w) ob of
     None \<Rightarrow> release_heads en obs w
   | Some q \<Rightarrow>
       io_bind (if tl q = []
                then io_bind (maybe_return_home en ob (w\<lparr>wk_queues := bt_remove ob (wk_queues w)\<rparr>)) (\<lambda>w. Done ([], w))
                else service_front en ob (w\<lparr>wk_queues := bt_insert ob (tl q) (wk_queues w)\<rparr>)) (\<lambda>(ready, w).
       io_bind (release_heads en obs w) (\<lambda>(more, w). Done (ready @ more, w))))"

text \<open>The assertion on the participants acquired is taken as live, as in the simulator.\<close>

definition run_and_complete :: "('c, 'v) engine \<Rightarrow> nat \<Rightarrow> ('c, 'v) wrk \<Rightarrow> (nat list \<times> ('c, 'v) wrk) rust io" where
  "run_and_complete en txn w = (case map_of (wk_parked w) txn of
     None \<Rightarrow> Done Panic
   | Some p \<Rightarrow>
       if pk_acquired p \<noteq> length (pk_participants p) then Done Panic
       else (let obs = pk_participants p;
            w = settle_in obs (w\<lparr>wk_parked := bt_remove txn (wk_parked w), wk_executed := wk_executed w + 1\<rparr>)
        in io_bind (if wk_log_primary w then freshen en (pk_read_only p) obs w else Done w) (\<lambda>w.
           case apply_txn en obs (pk_ops p) (pk_read_only p) (pk_cap p) w of
             Panic \<Rightarrow> Done Panic
           | Ret (res, w) \<Rightarrow>
               rio_bind (complete en txn p res w) (\<lambda>w.
               io_bind (release_heads en obs w) (\<lambda>(ready, w).
               case maybe_launch en w of Panic \<Rightarrow> Done Panic | Ret w \<Rightarrow> Done (Ret (ready, w)))))))"

section \<open>A failed acquisition\<close>

fun leave_queues :: "('c, 'v) engine \<Rightarrow> nat \<Rightarrow> string list \<Rightarrow> ('c, 'v) wrk \<Rightarrow> (nat list \<times> ('c, 'v) wrk) io" where
  "leave_queues en txn [] w = Done ([], w)"
| "leave_queues en txn (ob # obs) w = (case map_of (wk_queues w) ob of
     None \<Rightarrow> leave_queues en txn obs w
   | Some q \<Rightarrow>
       (let q = filter (\<lambda>e. e \<noteq> TxnEntry txn) q
        in io_bind (if q = [] then Done ([], w\<lparr>wk_queues := bt_remove ob (wk_queues w)\<rparr>)
                    else service_front en ob (w\<lparr>wk_queues := bt_insert ob q (wk_queues w)\<rparr>)) (\<lambda>(ready, w).
           io_bind (leave_queues en txn obs w) (\<lambda>(more, w). Done (ready @ more, w)))))"

definition fail_txn :: "('c, 'v) engine \<Rightarrow> nat \<Rightarrow> string \<Rightarrow> ('c, 'v) wrk \<Rightarrow> (nat list \<times> ('c, 'v) wrk) io" where
  "fail_txn en txn msg w = (case map_of (wk_parked w) txn of
     None \<Rightarrow> Done ([], w)
   | Some p \<Rightarrow>
       io_bind (leave_queues en txn (pk_participants p) (w\<lparr>wk_parked := bt_remove txn (wk_parked w)\<rparr>)) (\<lambda>(ready, w).
         Done (ready, emit (Reply (pk_resp p) (Inl (internal (''acquisition failed: '' @ msg)))) w)))"

end
