(* ===== verification/Image.thy ===== *)
theory Image
  imports Ship
begin

text \<open>
  Fetching an object's durable image, from \<open>src/src/object.rs\<close>: the committed fold when the log is
  primary; otherwise the base with the deltas newer than it, starting from the file a former stay left
  behind when that file lies on the durable chain (its counter between the base's and the newest
  delta's). The file is an argument.
\<close>

definition base_counter :: "bytes option \<Rightarrow> u32 option" where
  "base_counter r = (case r of Some bs \<Rightarrow> if length bs = 4 then Some (word_of_nat (of_be bs)) else None | None \<Rightarrow> None)"

definition max_durable :: "string \<Rightarrow> u32 \<Rightarrow> key list \<Rightarrow> u32" where
  "max_durable ob base keys = foldl (\<lambda>m key. case parse_delta_counter key ob of
     Some c \<Rightarrow> if base < c then max m c else m | None \<Rightarrow> m) base keys"

definition usable_cache :: "u32 \<Rightarrow> u32 \<Rightarrow> bytes option \<Rightarrow> bytes option" where
  "usable_cache base durable live = (case live of
     Some f \<Rightarrow> if 100 \<le> length f \<and> base \<le> change_counter f \<and> change_counter f \<le> durable then Some f else None
   | None \<Rightarrow> None)"

fun apply_chain :: "string \<Rightarrow> u32 \<Rightarrow> u32 \<Rightarrow> key list \<Rightarrow> bytes \<Rightarrow> u32 \<Rightarrow> (bytes \<times> u32) result io" where
  "apply_chain ob base have [] img n = ok (img, n)"
| "apply_chain ob base have (key # keys) img n = (case parse_delta_counter key ob of
     None \<Rightarrow> apply_chain ob base have keys img n
   | Some c \<Rightarrow>
       if c \<le> base then apply_chain ob base have keys img n
       else if c \<le> have then apply_chain ob base have keys img (n + 1)
       else io_try (io_get key) (\<lambda>r. case r of
           None \<Rightarrow> fail (''delta '' @ key @ '' vanished mid-activation (compaction race); retry'')
         | Some bs \<Rightarrow> (case decode_delta bs of
             Inl e \<Rightarrow> fail e
           | Inr d \<Rightarrow> apply_chain ob base have keys (apply_delta img d) (n + 1))))"

definition start_image :: "string \<Rightarrow> bytes option \<Rightarrow> bytes result io" where
  "start_image ob cache = (case cache of
     Some f \<Rightarrow> ok f
   | None \<Rightarrow> io_try (io_get (object_key ob)) (\<lambda>r. ok (case r of Some bs \<Rightarrow> bs | None \<Rightarrow> [])))"

definition fetch_image :: "bool \<Rightarrow> string \<Rightarrow> bytes option \<Rightarrow> (bytes \<times> u32) result io" where
  "fetch_image log_primary ob live =
     (if log_primary then io_try (fold_committed ob) (\<lambda>(img, seq). ok (img, ucast seq))
      else io_try (io_get_range (object_key ob) 24 4) (\<lambda>r. case base_counter r of
          None \<Rightarrow> ok ([], 0)
        | Some base \<Rightarrow> io_try (io_list (delta_prefix ob)) (\<lambda>keys.
            io_try (start_image ob (usable_cache base (max_durable ob base keys) live)) (\<lambda>img.
              apply_chain ob base (change_counter img) keys img 0))))"

end
