(* ===== verification/Worker_Loop.thy ===== *)
theory Worker_Loop
  imports Exec Image
begin

text \<open>
  The message loop of a worker, from \<open>src/src/worker.rs\<close>: admission of a transaction participant by
  participant (\<open>advance\<close>), the loop that drives transactions (\<open>pump\<close>, with fuel; \<open>Loop_Props\<close> shows that some
  fuel is always enough), and the handler of every message. Tasks the handlers spawn are events of the
  outbox; the activation task is here too. \<open>Dump\<close>, which only formats the state, is left out.
\<close>

section \<open>Messages\<close>

datatype 'v msg =
    Submit "string list" "'v op list" bool "poll_opts option" "capability option" bool nat
  | Take string nat nat
  | Adopt string transfer_meta
  | CancelPoll string nat nat
  | Shed
  | RecheckPolls
  | Taken nat string nat taken_result
  | ShipDone "string list" bool "string list" "string option"
  | Activated nat string "(bytes \<times> u32) result"
  | Shutdown nat
  | Stats nat

section \<open>Admission\<close>

definition upd_parked :: "nat \<Rightarrow> ('v parked \<Rightarrow> 'v parked) \<Rightarrow> ('c, 'v) wrk \<Rightarrow> ('c, 'v) wrk" where
  "upd_parked txn f w = (case map_of (wk_parked w) txn of
     Some p \<Rightarrow> w\<lparr>wk_parked := bt_insert txn (f p) (wk_parked w)\<rparr> | None \<Rightarrow> w)"

definition queue_of :: "('c, 'v) wrk \<Rightarrow> string \<Rightarrow> queue_entry list" where
  "queue_of w ob = (case map_of (wk_queues w) ob of Some q \<Rightarrow> q | None \<Rightarrow> [])"

text \<open>Routing is a hint; what the worker owns is the truth.\<close>

definition reconcile_owner :: "string \<Rightarrow> ('c, 'v) wrk \<Rightarrow> bool \<times> ('c, 'v) wrk" where
  "reconcile_owner ob w =
     (if map_of (wk_owned w) ob \<noteq> None then
        (True, if owner_of (wk_routing w) ob \<noteq> wk_id w
               then w\<lparr>wk_routing := (wk_routing w)\<lparr>rt_exceptions := bt_insert ob (wk_id w) (rt_exceptions (wk_routing w))\<rparr>\<rparr> else w)
      else if map_of (rt_exceptions (wk_routing w)) ob = Some (wk_id w) then
        (let r = (wk_routing w)\<lparr>rt_exceptions := bt_remove ob (rt_exceptions (wk_routing w))\<rparr>
         in (owner_of r ob = wk_id w, w\<lparr>wk_routing := r\<rparr>))
      else (owner_of (wk_routing w) ob = wk_id w, w))"

definition start_activation :: "nat \<Rightarrow> string \<Rightarrow> ('c, 'v) wrk \<Rightarrow> ('c, 'v) wrk" where
  "start_activation txn ob w = (case map_of (wk_parked w) txn of
     Some p \<Rightarrow> if pk_activating p then w
       else emit (SpawnActivation txn ob (map_of (wk_owned w) ob = None)) (upd_parked txn (\<lambda>p. p\<lparr>pk_activating := True\<rparr>) w)
   | None \<Rightarrow> w)"

definition start_take :: "nat \<Rightarrow> string \<Rightarrow> ('c, 'v) wrk \<Rightarrow> ('c, 'v) wrk" where
  "start_take txn ob w = (case map_of (wk_parked w) txn of
     Some p \<Rightarrow> if pk_taking p then w
       else emit (SpawnTake txn ob) (upd_parked txn (\<lambda>p. p\<lparr>pk_taking := True, pk_crossed := True\<rparr>) w)
   | None \<Rightarrow> w)"

text \<open>The participants still to acquire, in order.\<close>

fun acquire :: "nat \<Rightarrow> string list \<Rightarrow> ('c, 'v) wrk \<Rightarrow> bool \<times> ('c, 'v) wrk" where
  "acquire txn [] w = (True, w)"
| "acquire txn (ob # obs) w =
     (let (mine, w) = reconcile_owner ob w
      in if mine then
           (let q = queue_of w ob;
                q = (if TxnEntry txn \<in> set q then q else q @ [TxnEntry txn]);
                w = w\<lparr>wk_queues := bt_insert ob q (wk_queues w)\<rparr>
            in if hd q \<noteq> TxnEntry txn then (False, w)
               else if map_of (wk_live w) ob = None then (False, start_activation txn ob w)
               else acquire txn obs (upd_parked txn (\<lambda>p. p\<lparr>pk_acquired := pk_acquired p + 1\<rparr>) w))
         else (False, start_take txn ob w))"

definition advance :: "nat \<Rightarrow> ('c, 'v) wrk \<Rightarrow> bool \<times> ('c, 'v) wrk" where
  "advance txn w = (case map_of (wk_parked w) txn of
     None \<Rightarrow> (False, w)
   | Some p \<Rightarrow> acquire txn (drop (pk_acquired p) (pk_participants p)) w)"

section \<open>Driving transactions\<close>

fun serve_all :: "('c, 'v) engine \<Rightarrow> string list \<Rightarrow> ('c, 'v) wrk \<Rightarrow> (nat list \<times> ('c, 'v) wrk) io" where
  "serve_all en [] w = Done ([], w)"
| "serve_all en (ob # obs) w = io_bind (service_front en ob w) (\<lambda>(ready, w).
     io_bind (serve_all en obs w) (\<lambda>(more, w). Done (ready @ more, w)))"

text \<open>\<open>None\<close>: out of fuel.\<close>

fun pump :: "('c, 'v) engine \<Rightarrow> nat \<Rightarrow> nat list \<Rightarrow> ('c, 'v) wrk \<Rightarrow> ('c, 'v) wrk rust option io" where
  "pump en 0 ready w = Done None"
| "pump en (Suc n) ready w =
     (let flagged = remdups (sort (wk_needs_service w))
      in io_bind (serve_all en flagged (w\<lparr>wk_needs_service := []\<rparr>)) (\<lambda>(more, w).
         let ready = ready @ more
         in if ready = [] then (if wk_needs_service w = [] then Done (Some (Ret w)) else pump en n [] w)
            else let txn = last ready; ready = butlast ready; (go, w) = advance txn w
                 in if go then io_bind (run_and_complete en txn w) (\<lambda>r. case r of
                        Panic \<Rightarrow> Done (Some Panic)
                      | Ret (unblocked, w) \<Rightarrow> pump en n (ready @ unblocked) w)
                    else pump en n ready w))"

section \<open>Activation\<close>

text \<open>The spawned fetch: the new owner to route to, if any, and the result.\<close>

definition activation :: "(bytes \<Rightarrow> checkpoint result) \<Rightarrow> (bytes \<Rightarrow> txn_record option) \<Rightarrow> bool \<Rightarrow> nat \<Rightarrow> bool \<Rightarrow> string
    \<Rightarrow> bytes option \<Rightarrow> (nat option \<times> (bytes \<times> u32) result) io" where
  "activation dec_cp dec_rec log_primary me check ob live =
     (let fetch = io_bind (io_try (recover_records_touching log_primary dec_rec ob) (\<lambda>_. fetch_image log_primary ob live)) (\<lambda>r. Done (None, r));
          elsewhere = (\<lambda>w. Done (if w \<noteq> usize_max then Some w else None,
             Inl (''object is durably claimed by w'' @ show_nat w @ ''; rerouted'')))
      in if check then io_bind (durable_claim dec_cp ob) (\<lambda>c. case c of
             Owned w _ \<Rightarrow> if w \<noteq> me then elsewhere w else fetch
           | Transit w _ \<Rightarrow> if w \<noteq> me then elsewhere w else fetch
           | Unclaimed \<Rightarrow> fetch)
         else fetch)"

definition activate :: "('c, 'v) engine \<Rightarrow> string \<Rightarrow> bytes \<Rightarrow> u32 \<Rightarrow> ('c, 'v) wrk \<Rightarrow> ('c, 'v) wrk result" where
  "activate en ob img chain w =
     (if owns w ob \<and> map_of (wk_live w) ob = None then
        res_bind (materialize en ob img w) (\<lambda>w.
          let w = (if wk_log_primary w then w\<lparr>wk_log_seq := bt_insert ob (ucast chain) (wk_log_seq w)\<rparr>
                   else if delta_min_bytes \<le> length img
                   then w\<lparr>wk_manifests := bt_insert ob (manifest_of (en_page_hash en) img chain) (wk_manifests w)\<rparr>
                   else w);
              w = w\<lparr>wk_disk := set_live (live_path w ob) (length img) (wk_id w) (wk_disk w)\<rparr>
          in Inr (enforce_disk w))
      else Inr w)"

definition on_activated :: "('c, 'v) engine \<Rightarrow> nat \<Rightarrow> nat \<Rightarrow> string \<Rightarrow> (bytes \<times> u32) result \<Rightarrow> ('c, 'v) wrk \<Rightarrow> ('c, 'v) wrk rust option io" where
  "on_activated en n txn ob result w =
     (let w = upd_parked txn (\<lambda>p. p\<lparr>pk_activating := False\<rparr>) w
      in case res_bind result (\<lambda>(img, chain). activate en ob img chain w) of
           Inr w \<Rightarrow> pump en n [txn] w
         | Inl e \<Rightarrow> io_bind (fail_txn en txn (''activation failed: '' @ e) w) (\<lambda>(ready, w). pump en n ready w))"

section \<open>A take that came back\<close>

definition on_taken :: "('c, 'v) engine \<Rightarrow> nat \<Rightarrow> nat \<Rightarrow> string \<Rightarrow> nat \<Rightarrow> taken_result \<Rightarrow> ('c, 'v) wrk \<Rightarrow> ('c, 'v) wrk rust option io" where
  "on_taken en n txn ob sender result w = (case map_of (wk_parked w) txn of
     None \<Rightarrow> Done (Some (Ret w))
   | Some _ \<Rightarrow>
       (let w = upd_parked txn (\<lambda>p. p\<lparr>pk_taking := False\<rparr>) w
        in case result of
             Got tm \<Rightarrow>
               io_bind (if map_of (wk_owned w) ob \<noteq> None then Done (True, w) else admit en ob tm w) (\<lambda>(mine, w).
                 if mine then
                   pump en n [txn] (if map_of (wk_queues w) ob = None then w\<lparr>wk_queues := bt_insert ob [TxnEntry txn] (wk_queues w)\<rparr> else w)
                 else io_bind (fail_txn en txn (''deed for '' @ ob @ '' superseded by a later grant; retry'') w) (\<lambda>(ready, w). pump en n ready w))
           | AlreadyLocal \<Rightarrow> pump en n [txn] w
           | TakenFailed e \<Rightarrow> io_bind (fail_txn en txn e w) (\<lambda>(ready, w). pump en n ready w)))"

section \<open>A boat that came back\<close>

definition relinquish_to :: "nat \<Rightarrow> string \<Rightarrow> ('c, 'v) wrk \<Rightarrow> ('c, 'v) wrk" where
  "relinquish_to k ob w =
     (let w = w\<lparr>wk_owned := bt_remove ob (wk_owned w), wk_log_seq := bt_remove ob (wk_log_seq w),
                wk_meta := bt_remove ob (wk_meta w), wk_manifests := bt_remove ob (wk_manifests w)\<rparr>;
          w = fail_polls ob ''object claimed elsewhere; re-poll'' (purge ob (undirty ob w))
      in w\<lparr>wk_routing := (wk_routing w)\<lparr>rt_exceptions := bt_insert ob k (rt_exceptions (wk_routing w))\<rparr>\<rparr>)"

definition relinquish :: "('c, 'v) engine \<Rightarrow> string option \<Rightarrow> ('c, 'v) wrk \<Rightarrow> ('c, 'v) wrk io" where
  "relinquish en rebased w = (case rebased of
     None \<Rightarrow> Done w
   | Some ob \<Rightarrow>
       (let mine = (case map_of (wk_owned w) ob of Some g \<Rightarrow> g | None \<Rightarrow> 0);
            yield = (\<lambda>k g. if k \<noteq> wk_id w \<and> k \<noteq> usize_max \<and> mine \<le> g then relinquish_to k ob w else w)
        in io_bind (durable_claim (en_decode en) ob) (\<lambda>c. Done (case c of
             Owned k g \<Rightarrow> yield k g | Transit k g \<Rightarrow> yield k g | Unclaimed \<Rightarrow> w))))"

definition redirty :: "('c, 'v) engine \<Rightarrow> string \<Rightarrow> ('c, 'v) wrk \<Rightarrow> ('c, 'v) wrk" where
  "redirty en ob w =
     (let w = w\<lparr>wk_manifests := bt_remove ob (wk_manifests w)\<rparr>
      in if map_of (wk_dirty w) ob \<noteq> None then w
         else let n = live_size en w ob in w\<lparr>wk_dirty := bt_insert ob n (wk_dirty w), wk_dirty_bytes := wk_dirty_bytes w + n\<rparr>)"

fun fire_shipped :: "('c, 'v) engine \<Rightarrow> string list \<Rightarrow> ('c, 'v) wrk \<Rightarrow> ('c, 'v) wrk" where
  "fire_shipped en [] w = w"
| "fire_shipped en (ob # obs) w =
     (if map_of (wk_dirty w) ob = None
      then let (fired, w) = take_fired_polls en ob True w in fire_shipped en obs (answer fired w)
      else fire_shipped en obs w)"

definition shipped :: "('c, 'v) engine \<Rightarrow> string list \<Rightarrow> string list \<Rightarrow> ('c, 'v) wrk \<Rightarrow> ('c, 'v) wrk" where
  "shipped en obs unpromoted w =
     (let w = (if wk_log_primary w
               then w\<lparr>wk_log_seq := foldl (\<lambda>m ob. case map_of m ob of Some q \<Rightarrow> bt_insert ob (q + 1) m | None \<Rightarrow> m) (wk_log_seq w) obs\<rparr>
               else w);
          w = (if unpromoted = [] then w
               else let w = foldl (\<lambda>w ob. redirty en ob w) w unpromoted
                    in w\<lparr>wk_pending := wk_pending w @ [\<lparr>at_participants = unpromoted, at_waiter = None\<rparr>]\<rparr>)
      in fire_shipped en obs w)"

fun after_boat :: "('c, 'v) engine \<Rightarrow> string list \<Rightarrow> ('c, 'v) wrk \<Rightarrow> (nat list \<times> ('c, 'v) wrk) io" where
  "after_boat en [] w = Done ([], w)"
| "after_boat en (ob # obs) w =
     io_bind (if map_of (wk_queues w) ob \<noteq> None then service_front en ob w
              else if map_of (wk_dirty w) ob = None then io_bind (maybe_return_home en ob w) (\<lambda>w. Done ([], w))
              else Done ([], w)) (\<lambda>(ready, w).
     io_bind (after_boat en obs w) (\<lambda>(more, w). Done (ready @ more, w)))"

definition maybe_finish_closing :: "('c, 'v) wrk \<Rightarrow> ('c, 'v) wrk" where
  "maybe_finish_closing w =
     (if wk_inflight w = None \<and> wk_pending w = [] then
        (case wk_closing w of
           Some resp \<Rightarrow>
             (let w = w\<lparr>wk_closing := None\<rparr>;
                  w = foldl (\<lambda>w ob. fail_polls ob ''worker shutting down; re-poll'' w) w (map fst (wk_polls w))
              in (emit (FlushedReply resp) w)\<lparr>wk_done := True\<rparr>)
         | None \<Rightarrow> w)
      else w)"

definition on_ship_done :: "('c, 'v) engine \<Rightarrow> nat \<Rightarrow> string list \<Rightarrow> bool \<Rightarrow> string list \<Rightarrow> string option \<Rightarrow> ('c, 'v) wrk
    \<Rightarrow> ('c, 'v) wrk rust option io" where
  "on_ship_done en n obs landed unpromoted rebased w =
     io_bind (relinquish en rebased (w\<lparr>wk_inflight := None\<rparr>)) (\<lambda>w.
       let w = (if landed then shipped en obs unpromoted w else revert_closure obs w);
           w = enforce_disk w
       in case maybe_launch en w of
            Panic \<Rightarrow> Done (Some Panic)
          | Ret w \<Rightarrow> io_bind (after_boat en obs w) (\<lambda>(ready, w). pump en n ready (maybe_finish_closing w)))"

section \<open>The other messages\<close>

definition submit_txn :: "string list \<Rightarrow> 'v op list \<Rightarrow> bool \<Rightarrow> poll_opts option \<Rightarrow> capability option \<Rightarrow> bool \<Rightarrow> nat \<Rightarrow> ('c, 'v) wrk \<Rightarrow> ('c, 'v) wrk" where
  "submit_txn obs ops read_only poll cap optimistic resp w =
     w\<lparr>wk_parked := bt_insert (wk_next_txn w) \<lparr>pk_participants = obs, pk_ops = ops, pk_read_only = read_only,
          pk_optimistic = optimistic, pk_poll = poll, pk_cap = cap, pk_resp = resp, pk_acquired = 0, pk_taking = False,
          pk_activating = False, pk_crossed = False\<rparr> (wk_parked w),
       wk_next_txn := wk_next_txn w + 1\<rparr>"

definition sheddable :: "('c, 'v) wrk \<Rightarrow> string list" where
  "sheddable w = filter (\<lambda>ob. \<not> unshipped w ob \<and> map_of (wk_queues w) ob = None) (map fst (wk_live w))"

definition shed_one :: "('c, 'v) engine \<Rightarrow> string \<Rightarrow> ('c, 'v) wrk \<Rightarrow> ('c, 'v) wrk" where
  "shed_one en ob w = (evict ob w)\<lparr>wk_manifests := bt_remove ob (wk_manifests w),
     wk_disk := set_cache (live_path w ob) (en_disk en (live_path w ob)) (wk_id w) (wk_disk w)\<rparr>"

definition shed :: "('c, 'v) engine \<Rightarrow> ('c, 'v) wrk \<Rightarrow> ('c, 'v) wrk" where
  "shed en w = (if sheddable w = [] then w else enforce_disk (foldl (\<lambda>w ob. shed_one en ob w) w (sheddable w)))"

fun recheck_polls :: "('c, 'v) engine \<Rightarrow> string list \<Rightarrow> ('c, 'v) wrk \<Rightarrow> ('c, 'v) wrk io" where
  "recheck_polls en [] w = Done w"
| "recheck_polls en (ob # obs) w =
     (if unshipped w ob then recheck_polls en obs w
      else io_bind (committed_seq ob) (\<lambda>r.
        io_bind (if log_seq_of w ob < (case r of Inr q \<Rightarrow> q | Inl _ \<Rightarrow> 0)
                 then io_bind (fold_committed ob) (\<lambda>r. Done (case r of Inr (img, seq) \<Rightarrow> snd (rebuild en ob img seq w) | Inl _ \<Rightarrow> w))
                 else Done w) (\<lambda>w.
          let (fired, w) = take_fired_polls en ob True w; w = answer fired w;
              (fired, w) = take_fired_polls en ob False w; w = answer fired w
          in recheck_polls en obs w)))"

definition cancel_poll :: "string \<Rightarrow> nat \<Rightarrow> nat \<Rightarrow> ('c, 'v) wrk \<Rightarrow> ('c, 'v) wrk" where
  "cancel_poll ob conn frame w = (case map_of (wk_polls w) ob of
     None \<Rightarrow> w
   | Some ps \<Rightarrow>
       (let ps = filter (\<lambda>p. \<not> (pp_conn p = conn \<and> pp_frame p = frame)) ps
        in w\<lparr>wk_polls := (if ps = [] then bt_remove ob (wk_polls w) else bt_insert ob ps (wk_polls w))\<rparr>))"

definition stats :: "nat \<Rightarrow> ('c, 'v) wrk \<Rightarrow> ('c, 'v) wrk" where
  "stats resp w = emit (StatsReply resp (wk_executed w) (length (wk_owned w)) (sum_list (map (length \<circ> snd) (wk_polls w)))) w"

section \<open>The handler\<close>

definition handle :: "('c, 'v) engine \<Rightarrow> nat \<Rightarrow> 'v msg \<Rightarrow> ('c, 'v) wrk \<Rightarrow> ('c, 'v) wrk rust option io" where
  "handle en n m w = (case m of
     Submit obs ops read_only poll cap optimistic resp \<Rightarrow>
       pump en n [wk_next_txn w] (submit_txn obs ops read_only poll cap optimistic resp w)
   | Take ob taker resp \<Rightarrow> io_bind (handle_take en ob taker resp w) (\<lambda>(ready, w). case ready of
         Some ready \<Rightarrow> pump en n ready w | None \<Rightarrow> Done (Some (Ret w)))
   | Adopt ob tm \<Rightarrow> io_bind (handle_adopt en ob tm w) (\<lambda>w. Done (Some (Ret w)))
   | CancelPoll ob conn frame \<Rightarrow> Done (Some (Ret (cancel_poll ob conn frame w)))
   | Shed \<Rightarrow> Done (Some (Ret (shed en w)))
   | RecheckPolls \<Rightarrow> io_bind (recheck_polls en (map fst (wk_polls w)) w) (\<lambda>w. Done (Some (Ret w)))
   | Taken txn ob sender result \<Rightarrow> on_taken en n txn ob sender result w
   | ShipDone obs landed unpromoted rebased \<Rightarrow> on_ship_done en n obs landed unpromoted rebased w
   | Activated txn ob result \<Rightarrow> on_activated en n txn ob result w
   | Shutdown resp \<Rightarrow> Done (Some (case maybe_launch en (w\<lparr>wk_closing := Some resp\<rparr>) of
       Panic \<Rightarrow> Panic | Ret w \<Rightarrow> Ret (maybe_finish_closing w)))
   | Stats resp \<Rightarrow> Done (Some (Ret (stats resp w))))"

section \<open>The worker task\<close>

text \<open>The state \<open>spawn\<close> starts from: what the boot found this worker to own, and the node around it.\<close>

record node_ctx =
  nd_routing :: routing
  nd_disk :: ledger
  nd_clock :: nat
  nd_hysteresis :: nat
  nd_log_primary :: bool
  nd_max_boat :: nat
  nd_max_unshipped :: nat

definition worker_new :: "node_ctx \<Rightarrow> nat \<Rightarrow> string \<Rightarrow> (string \<times> nat) list \<Rightarrow> (string \<times> (nat \<times> nat)) list \<Rightarrow> ('c, 'v) wrk" where
  "worker_new nd me dir owned transit = \<lparr>wk_id = me, wk_dir = dir, wk_owned = owned, wk_transit = transit, wk_live = [], wk_meta = [],
     wk_queues = [], wk_parked = [], wk_next_txn = 0, wk_executed = 0, wk_dirty = [], wk_dirty_bytes = 0, wk_pending = [],
     wk_manifests = [], wk_log_seq = [], wk_inflight = None, wk_polls = [], wk_needs_service = [], wk_closing = None, wk_done = False,
     wk_routing = nd_routing nd, wk_disk = nd_disk nd, wk_clock = nd_clock nd, wk_hysteresis = nd_hysteresis nd,
     wk_log_primary = nd_log_primary nd, wk_max_boat = nd_max_boat nd, wk_max_unshipped = nd_max_unshipped nd, wk_gone = [], wk_out = []\<rparr>"

text \<open>The task: messages one after the other until the worker is done.\<close>

fun worker_loop :: "('c, 'v) engine \<Rightarrow> nat \<Rightarrow> 'v msg list \<Rightarrow> ('c, 'v) wrk \<Rightarrow> ('c, 'v) wrk rust option io" where
  "worker_loop en n [] w = Done (Some (Ret w))"
| "worker_loop en n (m # rest) w = io_bind (handle en n m w) (\<lambda>r. case r of
     Some (Ret w) \<Rightarrow> if wk_done w then Done (Some (Ret w)) else worker_loop en n rest w
   | _ \<Rightarrow> Done r)"

end
