(* ===== verification/Loop_Frames.thy ===== *)
theory Loop_Frames
  imports Worker_Loop Handoff_Props "HOL-Library.Multiset"
begin

text \<open>
  What the operations of a worker leave alone. \<open>toks\<close> counts the reply channels of clients wherever they
  are (answered, parked, on a boat, in a poll) among those still listening; \<open>held\<close> is holding the head of
  an object's queue; \<open>calm\<close> collects what every ownership operation keeps.
\<close>

section \<open>Reply channels\<close>

fun ev_resps :: "'v event \<Rightarrow> nat list" where
  "ev_resps (Reply resp _) = [resp]"
| "ev_resps (LaunchShip _ ws) = map fst ws"
| "ev_resps _ = []"

definition out_resps :: "'v event list \<Rightarrow> nat list" where
  "out_resps es = concat (map ev_resps es)"

definition waiting :: "'v applied_txn list \<Rightarrow> nat list" where
  "waiting ts = map fst (List.map_filter at_waiter ts)"

definition polling :: "(string \<times> 'v pending_poll list) list \<Rightarrow> nat list" where
  "polling m = map pp_resp (concat (map snd m))"

definition all_toks :: "('c, 'v) wrk \<Rightarrow> nat multiset" where
  "all_toks w = mset (out_resps (wk_out w)) + mset (map (\<lambda>x. pk_resp (snd x)) (wk_parked w))
     + mset (waiting (wk_pending w)) + mset (polling (wk_polls w))"

definition toks :: "('c, 'v) wrk \<Rightarrow> nat multiset" where
  "toks w = filter_mset (\<lambda>r. r \<notin> set (wk_gone w)) (all_toks w)"

lemma out_resps_simps [simp]:
  "out_resps [] = []" "out_resps (es @ es') = out_resps es @ out_resps es'" "out_resps (e # es) = ev_resps e @ out_resps es"
  by (simp_all add: out_resps_def)

lemma out_resps_map [simp]:
  "out_resps (map (\<lambda>x. Reply (f x) (g x)) xs) = map f xs" "out_resps (map (\<lambda>x. TakeReply (f' x) (g' x)) ys) = []"
  by (induction xs; simp) (induction ys; simp)

lemma out_resps_pairs [simp]:
  "out_resps (map (\<lambda>(_, r). TakeReply r (h r)) zs) = []" "out_resps (map (\<lambda>(r, x). Reply r (k x)) us) = map fst us"
  "out_resps (map (\<lambda>(r, _). Reply r y) us) = map fst us"
  using out_resps_map(1)[of "\<lambda>x. fst x" "\<lambda>x. k (snd x)" us] out_resps_map(1)[of "\<lambda>x. fst x" "\<lambda>x. y" us]
    out_resps_map(2)[of "\<lambda>x. snd x" "\<lambda>x. h (snd x)" zs] by (simp_all add: case_prod_unfold)

lemma waiting_append [simp]: "waiting (ts @ ts') = waiting ts @ waiting ts'" "waiting [] = []"
  by (simp_all add: waiting_def List.map_filter_def)

text \<open>Maps as multisets of their bindings.\<close>

lemma mset_bt_insert: "bt_wf m \<Longrightarrow> mset (bt_insert k v m) = add_mset (k, v) (mset (bt_remove k m))"
proof (induction m)
  case (Cons x m)
  obtain k' v' where x: "x = (k', v')" by force
  have wf: "bt_wf m" and gt: "\<forall>y \<in> fst ` set m. k' < y" using Cons.prems x by (auto simp: bt_wf_def)
  have same: "k \<le> k' \<Longrightarrow> bt_remove k m = m" using gt by (force simp: bt_remove_def filter_id_conv)
  show ?case using Cons.IH[OF wf] x same by (auto simp: bt_remove_def less_imp_le simp del: mset_filter)
qed (simp add: bt_remove_def)

lemma mset_bt_lookup: "bt_wf m \<Longrightarrow> map_of m k = Some v \<Longrightarrow> mset m = add_mset (k, v) (mset (bt_remove k m))"
proof (induction m)
  case (Cons x m)
  obtain k' v' where x: "x = (k', v')" by force
  have wf: "bt_wf m" and gt: "\<forall>y \<in> fst ` set m. k' < y" using Cons.prems(1) x by (auto simp: bt_wf_def)
  have same: "k = k' \<Longrightarrow> bt_remove k m = m" using gt by (force simp: bt_remove_def filter_id_conv)
  show ?case using Cons.IH[OF wf] Cons.prems(2) x same by (auto simp: bt_remove_def simp del: mset_filter split: if_splits)
qed simp

lemma bt_remove_none: "map_of m k = None \<Longrightarrow> bt_remove k m = m"
  by (rule bt_remove_absent)

text \<open>The channels in a map, through a function of the bindings.\<close>

lemma mset_map_insert:
  assumes "bt_wf m"
  shows "mset (map f (bt_insert k v m)) = add_mset (f (k, v)) (mset (map f (bt_remove k m)))"
  using arg_cong[OF mset_bt_insert[OF assms, of k v], of "image_mset f"] by simp

lemma mset_map_lookup:
  assumes "bt_wf m" "map_of m k = Some v"
  shows "mset (map f m) = add_mset (f (k, v)) (mset (map f (bt_remove k m)))"
  using arg_cong[OF mset_bt_lookup[OF assms], of "image_mset f"] by simp

lemma mset_polling: "mset (polling m) = (\<Sum>x\<in>#mset m. mset (map pp_resp (snd x)))"
  by (induction m) (auto simp: polling_def)

lemma polling_insert:
  assumes "bt_wf m"
  shows "mset (polling (bt_insert ob ps m)) = mset (map pp_resp ps) + mset (polling (bt_remove ob m))"
  unfolding mset_polling mset_bt_insert[OF assms] by simp

lemma polling_lookup:
  assumes "bt_wf m" "map_of m ob = Some ps"
  shows "mset (polling m) = mset (map pp_resp ps) + mset (polling (bt_remove ob m))"
  unfolding mset_polling[of m] mset_bt_lookup[OF assms] unfolding mset_polling by simp

section \<open>Holding a queue\<close>

definition held :: "('c, 'v) wrk \<Rightarrow> string \<Rightarrow> nat \<Rightarrow> bool" where
  "held w ob t \<longleftrightarrow> (\<exists>q. map_of (wk_queues w) ob = Some (TxnEntry t # q))"

lemma held_unique: "held w ob t \<Longrightarrow> held w ob t' \<Longrightarrow> t = t'"
  by (auto simp: held_def)

section \<open>Calm operations\<close>

definition calm :: "nat set \<Rightarrow> ('c, 'v) wrk \<Rightarrow> ('c, 'v) wrk \<Rightarrow> bool" where
  "calm E w w' \<longleftrightarrow> wk_parked w' = wk_parked w \<and> wk_needs_service w' = wk_needs_service w \<and> wk_dirty w' = wk_dirty w
     \<and> wk_dirty_bytes w' = wk_dirty_bytes w \<and> wk_pending w' = wk_pending w \<and> wk_inflight w' = wk_inflight w
     \<and> wk_next_txn w' = wk_next_txn w \<and> wk_id w' = wk_id w \<and> wk_gone w' = wk_gone w \<and> wk_log_primary w' = wk_log_primary w
     \<and> (\<forall>ob. map_of (wk_dirty w) ob \<noteq> None \<longrightarrow> map_of (wk_live w) ob \<noteq> None \<longrightarrow> map_of (wk_live w') ob \<noteq> None)
     \<and> set (wk_manifests w') \<subseteq> set (wk_manifests w)
     \<and> (\<forall>ob t. t \<notin> E \<longrightarrow> held w ob t \<longrightarrow> held w' ob t)
     \<and> (bt_wf (wk_polls w) \<longrightarrow> bt_wf (wk_polls w') \<and> toks w' = toks w)"

lemma calm_refl [simp]: "calm E w w"
  by (simp add: calm_def)

lemma calm_trans: "calm E u v \<Longrightarrow> calm E v w \<Longrightarrow> calm E u w"
  by (auto simp: calm_def)

lemma calm_mono: "calm E u v \<Longrightarrow> E \<subseteq> E' \<Longrightarrow> calm E' u v"
  unfolding calm_def by blast

lemma calm_fields: "calm E w w' \<Longrightarrow> wk_parked w' = wk_parked w \<and> wk_needs_service w' = wk_needs_service w \<and> wk_dirty w' = wk_dirty w
    \<and> wk_dirty_bytes w' = wk_dirty_bytes w \<and> wk_pending w' = wk_pending w \<and> wk_inflight w' = wk_inflight w
    \<and> wk_next_txn w' = wk_next_txn w \<and> wk_id w' = wk_id w \<and> wk_gone w' = wk_gone w \<and> wk_log_primary w' = wk_log_primary w"
  by (simp add: calm_def)

text \<open>Updates of fields the relation does not look at, and of the outbox by what is not a client's reply.\<close>

lemma calm_updates [simp]:
  "calm E w (w\<lparr>wk_owned := x1\<rparr>)" "calm E w (w\<lparr>wk_transit := x2\<rparr>)" "calm E w (w\<lparr>wk_meta := x3\<rparr>)" "calm E w (w\<lparr>wk_routing := x4\<rparr>)"
  "calm E w (w\<lparr>wk_disk := x5\<rparr>)" "calm E w (w\<lparr>wk_log_seq := x6\<rparr>)" "calm E w (w\<lparr>wk_closing := x7\<rparr>)" "calm E w (w\<lparr>wk_done := x8\<rparr>)"
  "calm E w (w\<lparr>wk_owned := x1, wk_transit := x2\<rparr>)" "calm E w (w\<lparr>wk_meta := x3, wk_owned := x1\<rparr>)" "calm E w (w\<lparr>wk_transit := x2, wk_routing := x4\<rparr>)"
  by (simp_all add: calm_def held_def toks_def all_toks_def)

lemma calm_emit: "ev_resps e = [] \<Longrightarrow> calm E w (emit e w)"
  by (simp add: calm_def held_def toks_def all_toks_def emit_def)

lemma calm_emit_takes [simp]: "calm E w (emit_all (map (\<lambda>(_, r). TakeReply r (f r)) xs) w)"
  by (simp add: calm_def held_def toks_def all_toks_def emit_all_def)

lemma calm_manifests: "set m \<subseteq> set (wk_manifests w) \<Longrightarrow> calm E w (w\<lparr>wk_manifests := m\<rparr>)"
  by (simp add: calm_def held_def toks_def all_toks_def)

lemma calm_live: "(\<And>ob. map_of (wk_dirty w) ob \<noteq> None \<Longrightarrow> map_of (wk_live w) ob \<noteq> None \<Longrightarrow> map_of m ob \<noteq> None) \<Longrightarrow> calm E w (w\<lparr>wk_live := m\<rparr>)"
  by (simp add: calm_def held_def toks_def all_toks_def)

lemma calm_queues: "(\<And>ob t. t \<notin> E \<Longrightarrow> held w ob t \<Longrightarrow> held (w\<lparr>wk_queues := m\<rparr>) ob t) \<Longrightarrow> calm E w (w\<lparr>wk_queues := m\<rparr>)"
  by (simp add: calm_def toks_def all_toks_def)

lemma calm_fail_polls [simp]: "calm E w (fail_polls ob reason w)"
proof (cases "map_of (wk_polls w) ob")
  case (Some ps)
  have "toks (fail_polls ob reason w) = toks w" if "bt_wf (wk_polls w)"
    using Some polling_lookup[OF that Some] by (simp add: fail_polls_def toks_def all_toks_def emit_all_def del: mset_map)
  then show ?thesis using Some by (simp add: fail_polls_def calm_def emit_all_def held_def)
qed (simp add: fail_polls_def)

lemma calm_evict: "map_of (wk_dirty w) ob = None \<Longrightarrow> calm E w (evict ob w)" "map_of (wk_dirty w) ob = None \<Longrightarrow> calm E w (purge ob w)"
  unfolding evict_def purge_def by (rule calm_live; auto)+


section \<open>Programs that keep calm\<close>

lemma returns_seq: "returns P p \<Longrightarrow> (\<And>x. P x \<Longrightarrow> returns Q (f x)) \<Longrightarrow> returns Q (io_bind p f)"
  by (rule returns_bind, erule returns_conseq) blast

lemma returns_conj: "returns P p \<Longrightarrow> returns Q p \<Longrightarrow> returns (\<lambda>x. P x \<and> Q x) p"
  by (induction p) auto

lemma release_queues: "returns (\<lambda>(r, w'). wk_queues w' = wk_queues w) (release en ob d w)"
  unfolding release_def Let_def by (rule returns_after) (auto split: sum.split)

abbreviation keeps_calm :: "nat set \<Rightarrow> ('c, 'v) wrk \<Rightarrow> ('a \<times> ('c, 'v) wrk) io \<Rightarrow> bool" where
  "keeps_calm E w p \<equiv> returns (\<lambda>(_, w'). calm E w w') p"

lemma let_go_calm: "map_of (wk_dirty w) ob = None \<Longrightarrow> calm E w (let_go en ob d w)"
proof -
  assume nd: "map_of (wk_dirty w) ob = None"
  let ?w1 = "fail_polls ob ''object migrated; re-poll'' w"
  let ?w2 = "evict ob ?w1"
  let ?w3 = "?w2\<lparr>wk_manifests := bt_remove ob (wk_manifests ?w2)\<rparr>"
  have 1: "calm E w ?w1" by simp
  have 2: "calm E ?w1 ?w2" using nd by (intro calm_evict) simp
  have 3: "calm E ?w2 ?w3" by (rule calm_manifests) auto
  have 4: "calm E ?w3 (let_go en ob d w)"
    by (auto simp: let_go_def Let_def calm_def held_def toks_def all_toks_def split: option.split)
  show ?thesis using calm_trans[OF calm_trans[OF calm_trans[OF 1 2] 3] 4] .
qed

lemma release_calm: "map_of (wk_dirty w) ob = None \<Longrightarrow> keeps_calm E w (release en ob d w)"
  unfolding release_def Let_def
  by (rule returns_after) (auto split: sum.split intro: calm_trans[OF _ let_go_calm])

lemma rebase_clean_calm: "returns (\<lambda>w'. calm E w w') (rebase_clean ob w)"
proof -
  have "calm E w ((purge ob w)\<lparr>wk_log_seq := m\<rparr>)" if "map_of (wk_dirty w) ob = None" for m
    using calm_trans[OF calm_evict(2)[OF that] calm_updates(6)] .
  then show ?thesis unfolding rebase_clean_def by (auto intro!: returns_after)
qed

lemma take_over_calm: "keeps_calm E w (take_over en ob tm w)"
  unfolding take_over_def Let_def
  by (rule returns_seq[OF rebase_clean_calm], rule returns_after)
     (auto intro: calm_trans[OF calm_trans[OF calm_updates(10)] calm_updates(11)])

lemma keeps_calm_after: "calm E w w1 \<Longrightarrow> keeps_calm E w1 p \<Longrightarrow> keeps_calm E w p"
  by (rule returns_conseq[where P = "\<lambda>(_, w'). calm E w1 w'"]) (auto elim: calm_trans)

lemma admit_calm: "keeps_calm E w (admit en ob tm w)"
proof -
  have "keeps_calm E w (take_over en ob tm (w\<lparr>wk_transit := bt_remove ob (wk_transit w)\<rparr>))"
    by (rule keeps_calm_after[OF calm_updates(2) take_over_calm])
  then show ?thesis
    unfolding admit_def by (auto simp: take_over_calm intro!: returns_after split: option.split)
qed

text \<open>Nobody holds a queue whose head is a take; what is kept of such a queue can only add a holder.\<close>

lemma keep_txns_calm:
  assumes "map_of (wk_queues w) ob = None"
  shows "calm E w (snd (keep_txns ob msg q w))"
proof -
  let ?w1 = "emit_all (map (\<lambda>(_, resp). TakeReply resp (Inl (TakeFailed msg))) (takes_in q)) w"
  have "calm E w (?w1\<lparr>wk_queues := bt_insert ob ts (wk_queues w)\<rparr>)" for ts
    by (rule calm_trans[OF calm_emit_takes], rule calm_queues) (use assms in \<open>auto simp: held_def\<close>)
  then show ?thesis by (auto simp: keep_txns_def Let_def)
qed

lemma grant_front_calm:
  assumes q: "map_of (wk_queues w) ob = Some (TakeEntry taker resp # q)" and ship: "\<not> unshipped w ob"
  shows "keeps_calm E w (grant_front en ob taker resp q w)"
proof -
  let ?w = "w\<lparr>wk_queues := bt_remove ob (wk_queues w)\<rparr>"
  have gone: "calm E w ?w" by (rule calm_queues) (use q in \<open>auto simp: held_def\<close>)
  have nd: "map_of (wk_dirty ?w) ob = None" using ship by (simp add: unshipped_def)
  have rel: "returns (\<lambda>(r, w'). calm E w w' \<and> map_of (wk_queues w') ob = None) (release en ob (Some taker) ?w)"
  proof -
    have "returns (\<lambda>(r, w'). wk_queues w' = wk_queues ?w) (release en ob (Some taker) ?w)"
      by (rule release_queues)
    from returns_conj[OF this release_calm[OF nd, of E]] show ?thesis
      by (rule returns_conseq) (auto intro: calm_trans[OF gone])
  qed
  have keep: "calm E w (snd (keep_txns ob msg q' w'))" if "calm E w w'" "map_of (wk_queues w') ob = None" for msg q' w'
    using calm_trans[OF that(1) keep_txns_calm[OF that(2)]] .
  have emits: "calm E w (emit (TakeReply resp r) w')" if "calm E w w'" for r w'
    using calm_trans[OF that calm_emit] by simp
  have lost: "returns (\<lambda>(_, w'). calm E w w' \<and> map_of (wk_queues w') ob = None) (admit en ob tm w')"
    if "calm E w w'" "map_of (wk_queues w') ob = None" for tm w'
  proof -
    have "returns (\<lambda>(acc, w''). wk_queues w'' = wk_queues w') (admit en ob tm w')"
      by (rule returns_conseq[OF admit_only_newer']) (auto simp: took_def split: if_splits)
    from returns_conj[OF this admit_calm[of E]] show ?thesis
      by (rule returns_conseq) (use that calm_trans[OF that(1)] in auto)
  qed
  show ?thesis
    unfolding grant_front_def Let_def
  proof (rule returns_seq[OF rel], clarify)
    fix r w1 assume c: "calm E w w1" and n: "map_of (wk_queues w1) ob = None"
    have f: "keeps_calm E w (Done (keep_txns ob msg q (emit (TakeReply resp (Inl e)) w1)))" for msg e
      using keep[OF emits[OF c]] n by (simp add: split_beta emit_def)
    have l: "keeps_calm E w (io_bind (admit en ob tm w1) (\<lambda>(_, w). Done (keep_txns ob msg q w)))" for tm msg
      by (rule returns_seq[OF lost[OF c n]]) (auto simp: split_beta intro!: keep)
    have s: "calm E w (emit_all (map (\<lambda>(_, r). TakeReply r (g r)) xs) (emit (TakeReply resp (Inr tm)) w1))" for g xs tm
      using calm_trans[OF emits[OF c] calm_emit_takes] .
    show "keeps_calm E w (case r of
           Inl e \<Rightarrow> Done (keep_txns ob ''transfer aborted: checkpoint unavailable'' q (emit (TakeReply resp (Inl (TakeFailed (''transfer aborted: '' @ e)))) w1))
         | Inr tm \<Rightarrow> if resp \<in> set (wk_gone w1) then
               io_bind (admit en ob (tm\<lparr>tm_generation := tm_generation tm + 1\<rparr>) w1) (\<lambda>(_, w). Done (keep_txns ob ''grant interrupted; retry'' q w))
             else Done (txns_in q, emit_all (map (\<lambda>(_, resp). TakeReply resp (Inl (NotMine (Some taker)))) (takes_in q)) (emit (TakeReply resp (Inr tm)) w1)))"
      using f l s by (auto split: sum.split)
  qed
qed

lemma service_front_calm: "keeps_calm E w (service_front en ob w)"
  unfolding service_front_def
  by (auto simp: grant_front_calm split: option.split list.split queue_entry.split)

lemma maybe_return_home_calm: "returns (\<lambda>w'. calm E w w') (maybe_return_home en ob w)"
proof (cases "unshipped w ob")
  case False
  then have nd: "map_of (wk_dirty w) ob = None" by (simp add: unshipped_def)
  have "calm E w (emit (SpawnAdopt h ob tm) w')" if "calm E w w'" for h tm w'
    using calm_trans[OF that calm_emit] by simp
  then show ?thesis
    unfolding maybe_return_home_def
    by (auto split: option.split sum.split intro!: returns_seq[OF release_calm[OF nd]])
qed (simp add: maybe_return_home_def)

lemma serve_all_calm: "keeps_calm E w (serve_all en obs w)"
proof (induction obs arbitrary: w)
  case (Cons ob obs)
  show ?case
    by (auto intro!: returns_seq[OF service_front_calm] returns_seq[OF Cons.IH] elim: calm_trans)
qed simp

lemma after_boat_calm: "keeps_calm E w (after_boat en obs w)"
proof (induction obs arbitrary: w)
  case (Cons ob obs)
  have "keeps_calm E w (if map_of (wk_queues w) ob \<noteq> None then service_front en ob w
              else if map_of (wk_dirty w) ob = None then io_bind (maybe_return_home en ob w) (\<lambda>w. Done ([], w))
              else Done ([], w))"
    by (auto simp: service_front_calm intro!: returns_seq[OF maybe_return_home_calm])
  then show ?case
    unfolding after_boat.simps by (rule returns_seq) (auto intro!: returns_seq[OF Cons.IH] elim: calm_trans)
qed simp

end
