(* ===== verification/Loop_Inv.thy ===== *)
theory Loop_Inv
  imports Loop_Frames
begin

text \<open>
  Operations that move work around a worker: they keep the parked transactions and the queues, and account
  for every client's reply channel (\<open>steady A B\<close>: as many were added as \<open>A\<close> over \<open>B\<close>). With this, what
  running a transaction does to the invariants of the loop.
\<close>

section \<open>Accounting\<close>

definition lv :: "('c, 'v) wrk \<Rightarrow> nat list \<Rightarrow> nat multiset" where
  "lv w rs = filter_mset (\<lambda>r. r \<notin> set (wk_gone w)) (mset rs)"

lemma lv_simps [simp]: "lv w [] = {#}" "lv w (rs @ rs') = lv w rs + lv w rs'"
  by (simp_all add: lv_def)

lemma toks_lv: "toks w = lv w (out_resps (wk_out w)) + lv w (map (\<lambda>x. pk_resp (snd x)) (wk_parked w))
    + lv w (waiting (wk_pending w)) + lv w (polling (wk_polls w))"
  by (simp add: toks_def all_toks_def lv_def)

lemma lv_gone: "wk_gone w' = wk_gone w \<Longrightarrow> lv w' = lv w"
  by (simp add: lv_def fun_eq_iff)

definition steady :: "nat multiset \<Rightarrow> nat multiset \<Rightarrow> ('c, 'v) wrk \<Rightarrow> ('c, 'v) wrk \<Rightarrow> bool" where
  "steady A B w w' \<longleftrightarrow> wk_parked w' = wk_parked w \<and> wk_next_txn w' = wk_next_txn w \<and> wk_gone w' = wk_gone w \<and> wk_queues w' = wk_queues w
     \<and> wk_id w' = wk_id w \<and> wk_log_primary w' = wk_log_primary w \<and> wk_closing w' = wk_closing w
     \<and> (bt_wf (wk_polls w) \<longrightarrow> bt_wf (wk_polls w') \<and> toks w + A = toks w' + B)"

abbreviation "still \<equiv> steady {#} {#}"

lemma still_refl [simp]: "still w w"
  by (simp add: steady_def)

lemma multiset_chain: "a + A = b + B \<Longrightarrow> b + C = c + D \<Longrightarrow> a + (A + C) = c + (B + D)" for a :: "nat multiset"
proof -
  assume 1: "a + A = b + B" and 2: "b + C = c + D"
  have "a + (A + C) = (b + B) + C" using 1 by (simp add: add.assoc[symmetric])
  also have "... = (b + C) + B" by (simp add: ac_simps)
  also have "... = c + (B + D)" using 2 by (simp add: ac_simps)
  finally show ?thesis .
qed

lemma steady_trans: "steady A B u v \<Longrightarrow> steady C D v w \<Longrightarrow> steady (A + C) (B + D) u w"
  unfolding steady_def using multiset_chain[of "toks u" A "toks v" B C "toks w" D] by simp

lemma still_trans: "still u v \<Longrightarrow> steady A B v w \<Longrightarrow> steady A B u w"
  using steady_trans[of "{#}" "{#}" u v A B w] by simp

lemma trans_still: "steady A B u v \<Longrightarrow> still v w \<Longrightarrow> steady A B u w"
  using steady_trans[of A B u v "{#}" "{#}" w] by simp

lemma steady_cancel: "steady (A + C) (B + C) u v \<longleftrightarrow> steady A B u v"
  by (simp add: steady_def add.assoc[symmetric])

lemma steady_back: "steady A B u v \<Longrightarrow> steady B A v w \<Longrightarrow> still u w"
  using steady_trans[of A B u v B A w] steady_cancel[of "{#}" "A + B" "{#}" u w] by (simp add: add.commute)

lemma steady_lv: "steady A B w w' \<Longrightarrow> lv w' = lv w"
  by (rule lv_gone) (simp add: steady_def)

lemma still_updates [simp]:
  "still w (w\<lparr>wk_meta := x1\<rparr>)" "still w (w\<lparr>wk_live := x2\<rparr>)" "still w (w\<lparr>wk_disk := x3\<rparr>)" "still w (w\<lparr>wk_log_seq := x4\<rparr>)"
  "still w (w\<lparr>wk_manifests := x5\<rparr>)" "still w (w\<lparr>wk_dirty := x6, wk_dirty_bytes := x7\<rparr>)" "still w (w\<lparr>wk_needs_service := x8\<rparr>)"
  "still w (w\<lparr>wk_dirty := x6, wk_dirty_bytes := x7, wk_disk := x3\<rparr>)" "still w (w\<lparr>wk_inflight := x9\<rparr>)"
  "still w (w\<lparr>wk_meta := x1, wk_manifests := x5\<rparr>)" "still w (w\<lparr>wk_meta := x1, wk_manifests := x5, wk_log_seq := x4\<rparr>)"
  by (simp_all add: steady_def toks_def all_toks_def)

lemma still_emit: "ev_resps e = [] \<Longrightarrow> still w (emit e w)"
  by (simp add: steady_def toks_def all_toks_def emit_def)

lemma steady_reply: "steady (lv w [resp]) {#} w (emit (Reply resp x) w)"
  by (simp add: steady_def toks_lv emit_def lv_def)

lemma steady_emit_all: "steady (lv w (out_resps es)) {#} w (emit_all es w)"
  by (simp add: steady_def toks_lv emit_all_def lv_def)

lemma steady_answer: "steady (lv w (map fst ws)) {#} w (answer ws w)"
  using steady_emit_all[of w "map (\<lambda>(resp, r). Reply resp (Inr r)) ws"] by (simp add: answer_def)

lemma steady_refuse: "steady (lv w (map fst ws)) {#} w (refuse msg ws w)"
  using steady_emit_all[of w "map (\<lambda>(resp, _). Reply resp (Inl (internal msg))) ws"] by (simp add: refuse_def)

lemma steady_pending: "steady (lv w (waiting ts)) (lv w (waiting (wk_pending w))) w (w\<lparr>wk_pending := ts\<rparr>)"
  by (simp add: steady_def toks_lv lv_def ac_simps)

lemma still_fail_polls [simp]: "still w (fail_polls ob reason w)"
  using calm_fail_polls[of "{}" w ob reason]
  by (auto simp: steady_def calm_def) (auto simp: fail_polls_def emit_all_def split: option.split)

lemma still_undirty [simp]: "still w (undirty ob w)"
  by (simp add: undirty_def split: option.split)

lemma still_purge [simp]: "still w (purge ob w)" "still w (evict ob w)"
  by (simp_all add: purge_def evict_def)

lemma still_enforce_disk [simp]: "still w (enforce_disk w)"
  by (auto simp: enforce_disk_def split_beta Let_def intro: still_trans[OF still_updates(3) still_emit] split: option.split)

section \<open>Polls\<close>

lemma fire_polls_resps:
  "fire_polls en gone k d i ps c = (fired, keep, c', es) \<Longrightarrow>
    filter_mset (\<lambda>r. r \<notin> set gone) (mset (map pp_resp ps)) =
    filter_mset (\<lambda>r. r \<notin> set gone) (mset (map fst fired) + mset (map pp_resp keep) + mset (out_resps es))"
proof (induction en gone k d i ps c arbitrary: fired keep c' es rule: fire_polls.induct)
  case (2 en gone k d i p ps c)
  show ?case
  proof (cases "pp_resp p \<in> set gone")
    case True
    then show ?thesis using 2 by simp
  next
    case listening: False
    show ?thesis
    proof (cases "pp_durable p \<noteq> d")
      case True
      then show ?thesis using 2(2)[OF listening True] 2(5) listening by (auto split: prod.splits)
    next
      case False
      obtain r c1 where run: "en_run en c (pp_sql p) (pp_params p) = (r, c1)" by force
      obtain f1 k1 c2 e1 where rest: "fire_polls en gone k d (i + 1) ps c1 = (f1, k1, c2, e1)" by (metis prod_cases4)
      show ?thesis
      proof (cases r)
        case (Inl e)
        then show ?thesis using 2(3)[OF listening False run[symmetric] Inl rest] 2(5) run rest listening False by (auto simp: Let_def)
      next
        case (Inr x)
        then show ?thesis using 2(4)[OF listening False run[symmetric] Inr refl rest] 2(5) run rest listening False
          by (auto simp: Let_def split: if_splits)
      qed
    qed
  qed
qed simp

lemma take_fired_steady: "take_fired_polls en ob d w = (fired, w') \<Longrightarrow> steady {#} (lv w (map fst fired)) w w'"
proof (cases "map_of (wk_polls w) ob"; cases "map_of (wk_live w) ob")
  fix ps c assume t: "take_fired_polls en ob d w = (fired, w')" and ps: "map_of (wk_polls w) ob = Some ps" and live: "map_of (wk_live w) ob = Some c"
  then obtain f keep c' es where f: "fire_polls en (wk_gone w) (wk_id w) d 0 ps c = (f, keep, c', es)" and fired: "fired = f"
    and w': "w' = emit_all es (w\<lparr>wk_live := bt_insert ob c' (wk_live w),
        wk_polls := (if keep = [] then bt_remove ob (wk_polls w) else bt_insert ob keep (wk_polls w))\<rparr>)"
    by (auto simp: take_fired_polls_def split: prod.splits)
  have "toks w = toks w' + lv w (map fst fired)" if wf: "bt_wf (wk_polls w)"
  proof -
    have "lv w (polling (wk_polls w)) = lv w (map pp_resp ps) + lv w (polling (bt_remove ob (wk_polls w)))"
      unfolding lv_def polling_lookup[OF wf ps] by simp
    moreover have "lv w (polling (if keep = [] then bt_remove ob (wk_polls w) else bt_insert ob keep (wk_polls w)))
        = lv w (map pp_resp keep) + lv w (polling (bt_remove ob (wk_polls w)))"
      unfolding lv_def using polling_insert[OF wf, of ob keep] by simp
    moreover have "lv w (map pp_resp ps) = lv w (map fst fired) + lv w (map pp_resp keep) + lv w (out_resps es)"
      using fire_polls_resps[OF f] by (simp add: lv_def fired)
    ultimately show ?thesis unfolding toks_lv w' by (simp add: emit_all_def lv_def)
  qed
  then show "steady {#} (lv w (map fst fired)) w w'" using t live ps by (auto simp: steady_def w' emit_all_def)
qed (auto simp: take_fired_polls_def)

lemma take_fired_answer: "take_fired_polls en ob d w = (fired, w') \<Longrightarrow> still w (answer fired w')"
  using steady_back[OF take_fired_steady] steady_answer[of w' fired] steady_lv[OF take_fired_steady] by (metis add.commute)

lemma fire_written_still: "still w (fire_written en obs w)"
proof (induction obs arbitrary: w)
  case (Cons ob obs)
  obtain fired w1 where "take_fired_polls en ob False w = (fired, w1)" by force
  then show ?case using still_trans[OF take_fired_answer Cons.IH] by simp
qed simp

lemma fire_shipped_still: "still w (fire_shipped en obs w)"
proof (induction obs arbitrary: w)
  case (Cons ob obs)
  obtain fired w1 where "take_fired_polls en ob True w = (fired, w1)" by force
  then show ?case using still_trans[OF take_fired_answer Cons.IH] Cons.IH by simp
qed simp

lemma fire_durable_steady: "fire_durable en obs w = (fired, w') \<Longrightarrow> steady {#} (lv w (map fst fired)) w w'"
proof (induction obs arbitrary: w fired w')
  case (Cons ob obs)
  obtain f1 w1 where 1: "take_fired_polls en ob True w = (f1, w1)" by force
  obtain f2 w2 where 2: "fire_durable en obs w1 = (f2, w2)" by force
  show ?case
    using Cons.prems 1 2 steady_trans[OF take_fired_steady[OF 1] Cons.IH[OF 2]] steady_lv[OF take_fired_steady[OF 1]] by auto
qed simp


section \<open>Reverting and launching\<close>

lemma revert_one_still: "still w (revert_one ob w)"
proof -
  let ?w1 = "purge ob (fail_polls ob ''state reverted; re-poll'' w)"
  let ?w2 = "?w1\<lparr>wk_meta := bt_remove ob (wk_meta ?w1), wk_manifests := bt_remove ob (wk_manifests ?w1), wk_log_seq := bt_remove ob (wk_log_seq ?w1)\<rparr>"
  let ?w3 = "undirty ob ?w2"
  let ?w4 = "?w3\<lparr>wk_disk := ledger_remove (live_path ?w3 ob) (wk_disk ?w3)\<rparr>"
  have "still w ?w1" by (rule still_trans[OF still_fail_polls still_purge(1)])
  then have "still w ?w2" by (rule trans_still) (rule still_updates)
  then have "still w ?w3" by (rule trans_still) (rule still_undirty)
  then have 4: "still w ?w4" by (rule trans_still) (rule still_updates)
  then have "still w (?w4\<lparr>wk_needs_service := wk_needs_service ?w4 @ [ob]\<rparr>)" by (rule trans_still) (rule still_updates)
  then show ?thesis using 4 unfolding revert_one_def Let_def by (simp only: split: if_split) blast
qed

lemma snapshot_failed_still: "still w (snapshot_failed ob w)"
proof -
  let ?w1 = "if map_of (wk_queues w) ob \<noteq> None then w\<lparr>wk_needs_service := wk_needs_service w @ [ob]\<rparr> else w"
  let ?w2 = "purge ob (fail_polls ob ''state reverted; re-poll'' ?w1)"
  let ?w3 = "?w2\<lparr>wk_disk := ledger_remove (live_path ?w2 ob) (wk_disk ?w2)\<rparr>"
  have "still w ?w1" by simp
  then have "still w ?w2" by (rule trans_still) (rule still_trans[OF still_fail_polls still_purge(1)])
  then have "still w ?w3" by (rule trans_still) (rule still_updates)
  then have "still w (?w3\<lparr>wk_meta := bt_remove ob (wk_meta ?w3), wk_manifests := bt_remove ob (wk_manifests ?w3)\<rparr>)"
    by (rule trans_still) (rule still_updates)
  then show ?thesis unfolding snapshot_failed_def Let_def .
qed

lemma fold_still: "(\<And>w ob. still w (f w ob)) \<Longrightarrow> still w (foldl f w obs)"
  by (induction obs arbitrary: w) (auto intro: still_trans)

lemma waiting_Cons [simp]: "waiting (t # ts) = (case at_waiter t of Some x \<Rightarrow> [fst x] | None \<Rightarrow> []) @ waiting ts"
  by (simp add: waiting_def List.map_filter_def split: option.split)

lemma waiting_split: "mset (waiting ts) = mset (waiting (filter P ts)) + mset (waiting (filter (\<lambda>t. \<not> P t) ts))"
  by (induction ts) (auto split: option.split)

lemma revert_closure_still: "still w (revert_closure seed w)"
proof -
  let ?R = "reverted seed w" and ?ts = "wk_pending w"
  let ?sunk = "filter (\<lambda>t. touches (at_participants t) ?R) ?ts"
  let ?w1 = "w\<lparr>wk_pending := filter (\<lambda>t. \<not> touches (at_participants t) ?R) ?ts\<rparr>"
  let ?w2 = "refuse ''state reverted; retry'' (List.map_filter at_waiter ?sunk) ?w1"
  have "lv w (waiting ?ts) = lv w (waiting ?sunk) + lv w (waiting (wk_pending ?w1))"
    unfolding lv_def by (subst waiting_split[of ?ts "\<lambda>t. touches (at_participants t) ?R"]) simp
  then have 1: "steady {#} (lv w (waiting ?sunk)) w ?w1"
    using steady_pending[of w "wk_pending ?w1"] steady_cancel[of "{#}" "lv w (waiting (wk_pending ?w1))" "lv w (waiting ?sunk)" w ?w1] by simp
  have 2: "steady (lv w (waiting ?sunk)) {#} ?w1 ?w2"
    using steady_refuse[of ?w1 "List.map_filter at_waiter ?sunk"] steady_lv[OF 1] by (simp add: waiting_def)
  have 3: "still ?w2 (foldl (\<lambda>w ob. revert_one ob w) ?w2 (sort ?R))" by (rule fold_still) (rule revert_one_still)
  show ?thesis using trans_still[OF steady_back[OF 1 2] 3] by (simp add: revert_closure_def Let_def)
qed

lemma load_items_frame: "load_items en obs w = Ret (items, w') \<Longrightarrow> \<exists>ms. w' = w\<lparr>wk_manifests := ms\<rparr>"
proof (induction obs arbitrary: w items w')
  case Nil
  then have "w' = w\<lparr>wk_manifests := wk_manifests w\<rparr>" by simp
  then show ?case ..
next
  case (Cons ob obs)
  have payload: "ship_payload en ob bs w = Ret (p, w1) \<Longrightarrow> \<exists>ms. w1 = w\<lparr>wk_manifests := ms\<rparr>" for bs p w1
    by (auto simp: ship_payload_def Let_def split: if_splits option.splits prod.splits intro: exI[of _ "wk_manifests w"])
  have own: "owns w ob" using Cons.prems by (auto split: if_splits)
  show ?case
  proof (cases "map_of (wk_live w) ob")
    case (Some c)
    show ?thesis
    proof (cases "en_file en ob c")
      case None
      then have "w' = w\<lparr>wk_manifests := wk_manifests w\<rparr>" using Cons.prems Some own by simp
      then show ?thesis ..
    next
      case (Some bs)
      obtain p w1 its w2 where 1: "ship_payload en ob bs w = Ret (p, w1)" and 2: "load_items en obs w1 = Ret (its, w2)" and "w' = w2"
        using Cons.prems Some own \<open>map_of (wk_live w) ob = Some c\<close> by (auto split: prod.splits)
      then show ?thesis using payload[OF 1] Cons.IH[OF 2] by auto
    qed
  qed (use Cons own in simp)
qed

lemma mset_waiting: "mset (waiting ts) = (\<Sum>t\<in>#mset ts. mset (case at_waiter t of Some x \<Rightarrow> [fst x] | None \<Rightarrow> []))"
  by (induction ts) auto

lemma mset_waiting_map:
  assumes "mset is + mset js = mset ks"
  shows "mset (waiting (map f is)) + mset (waiting (map f js)) = mset (waiting (map f ks))"
proof -
  have eq: "mset (map f ks) = mset (map f is) + mset (map f js)" using arg_cong[OF assms, of "image_mset f"] by simp
  show ?thesis unfolding mset_waiting eq by simp
qed

lemma launch_still:
  assumes "boats_wf w" "launch en w = Ret w'"
  shows "still w w'"
proof -
  let ?ct = "cut_boat (wk_max_boat w) (wk_pending w) (wk_dirty w)" and ?ts = "wk_pending w"
  have ne: "\<forall>t \<in> set ?ts. at_participants t \<noteq> []" using assms(1) by (simp add: boats_wf_def)
  note W = cut_boat_whole[OF ne, where limit = "wk_max_boat w" and dirty = "wk_dirty w"]
  let ?ws = "List.map_filter at_waiter (map ((!) ?ts) (ct_selected ?ct))"
  let ?w1 = "w\<lparr>wk_pending := map ((!) ?ts) (sort (ct_leftover ?ct))\<rparr>"
  let ?w2 = "foldl (\<lambda>w ob. undirty ob w) ?w1 (sort (ct_objects ?ct))"
  have parts: "mset (ct_selected ?ct) + mset (sort (ct_leftover ?ct)) = mset [0..<length ?ts]"
  proof -
    have "mset (ct_selected ?ct) = mset (filter (\<lambda>i. i \<in> set (ct_selected ?ct)) [0..<length ?ts])"
      using W(1,2) by (intro set_eq_iff_mset_eq_distinct[THEN iffD1]) auto
    then show ?thesis unfolding W(6) by (metis multiset_partition mset_filter)
  qed
  have "mset (waiting ?ts) = mset (waiting (map ((!) ?ts) [0..<length ?ts]))" by (simp add: map_nth)
  also have "... = mset (map fst ?ws) + mset (waiting (wk_pending ?w1))"
    using mset_waiting_map[where f = "(!) ?ts", OF parts] by (simp add: waiting_def[symmetric])
  finally have "lv w (waiting ?ts) = lv w (map fst ?ws) + lv w (waiting (wk_pending ?w1))" by (simp add: lv_def)
  then have 1: "steady {#} (lv w (map fst ?ws)) w ?w1"
    using steady_pending[of w "wk_pending ?w1"] steady_cancel[of "{#}" "lv w (waiting (wk_pending ?w1))" "lv w (map fst ?ws)" w ?w1] by simp
  have 2: "steady {#} (lv w (map fst ?ws)) w ?w2" by (rule trans_still[OF 1 fold_still]) (rule still_undirty)
  let ?fin = "\<lambda>items v. case items of
        None \<Rightarrow> Ret (refuse ''snapshot failed; state reverted'' ?ws (foldl (\<lambda>w ob. snapshot_failed ob w) v (sort (ct_objects ?ct))))
      | Some items \<Rightarrow> (case fire_durable en (sort (ct_objects ?ct)) v of
          (fired, w) \<Rightarrow> Ret (emit (LaunchShip items (?ws @ fired)) (w\<lparr>wk_inflight := Some (sort (ct_objects ?ct))\<rparr>)))"
  have "launch en w = rust_bind (load_items en (sort (ct_objects ?ct)) ?w2) (\<lambda>(items, v). ?fin items v)"
    unfolding launch_def Let_def by (rule refl)
  then obtain items v where l: "load_items en (sort (ct_objects ?ct)) ?w2 = Ret (items, v)" and fin: "?fin items v = Ret w'"
    using assms(2) by (cases "load_items en (sort (ct_objects ?ct)) ?w2") auto
  obtain ms where v: "v = ?w2\<lparr>wk_manifests := ms\<rparr>" using load_items_frame[OF l] ..
  let ?w3 = "?w2\<lparr>wk_manifests := ms\<rparr>"
  have 3: "steady {#} (lv w (map fst ?ws)) w ?w3" by (rule trans_still[OF 2 still_updates(5)])
  show ?thesis
  proof (cases items)
    case None
    let ?w4 = "foldl (\<lambda>w ob. snapshot_failed ob w) ?w3 (sort (ct_objects ?ct))"
    have 4: "steady {#} (lv w (map fst ?ws)) w ?w4" by (rule trans_still[OF 3 fold_still]) (rule snapshot_failed_still)
    have 5: "steady (lv w (map fst ?ws)) {#} ?w4 (refuse msg ?ws ?w4)" for msg
      using steady_refuse[where w = ?w4 and ws = ?ws and msg = msg] unfolding steady_lv[OF 4] .
    have "w' = refuse ''snapshot failed; state reverted'' ?ws ?w4" using fin None v by simp
    then show ?thesis using steady_back[OF 4 5] by simp
  next
    case (Some its)
    obtain fired w4 where f: "fire_durable en (sort (ct_objects ?ct)) ?w3 = (fired, w4)" by force
    let ?w5 = "w4\<lparr>wk_inflight := Some (sort (ct_objects ?ct))\<rparr>"
    have "steady {#} (lv w (map fst ?ws) + lv w (map fst fired)) w w4"
      using steady_trans[OF 3 fire_durable_steady[OF f]] steady_lv[OF 3] by simp
    then have 5: "steady {#} (lv w (map fst (?ws @ fired))) w ?w5" using trans_still[OF _ still_updates(9)] by simp
    have "steady (lv ?w5 (map fst (?ws @ fired))) {#} ?w5 (emit (LaunchShip its (?ws @ fired)) ?w5)"
      by (simp add: steady_def toks_lv emit_def lv_def)
    then have 6: "steady (lv w (map fst (?ws @ fired))) {#} ?w5 (emit (LaunchShip its (?ws @ fired)) ?w5)" unfolding steady_lv[OF 5] .
    have "w' = emit (LaunchShip its (?ws @ fired)) ?w5" using fin Some f v by simp
    then show ?thesis using steady_back[OF 5 6] by simp
  qed
qed

lemma maybe_launch_good:
  assumes "boats_wf w"
  shows "\<exists>w'. maybe_launch en w = Ret w' \<and> boats_wf w' \<and> still w w'"
proof -
  have s: "still w (sailing w)" by (simp add: sailing_def revert_closure_still)
  obtain w' where w': "launch en (sailing w) = Ret w'" "boats_wf w'" using launch_sailing[OF assms] by blast
  have "still w w'" by (rule still_trans[OF s launch_still[OF sailing_wf[OF assms] w'(1)]])
  then show ?thesis using w' s sailing_wf[OF assms] launch_guards[OF assms] by (auto simp: maybe_launch_def Let_def)
qed

end
