(* ===== verification/Loop_Run.thy ===== *)
theory Loop_Run
  imports Loop_Inv
begin

text \<open>
  Running one transaction: under the invariant \<open>good\<close> of the loop (the boat invariant, every parked
  transaction holds the head of each queue it has acquired, maps in order) it cannot panic, keeps the
  invariant and answers or keeps its client.
\<close>

section \<open>The invariant\<close>

definition request_ok :: "'v parked \<Rightarrow> bool" where
  "request_ok p \<longleftrightarrow> distinct (pk_participants p) \<and> pk_participants p \<noteq> [] \<and> (\<forall>x \<in> set (pk_ops p). op_object x \<in> set (pk_participants p))
     \<and> (pk_poll p \<noteq> None \<longrightarrow> pk_ops p \<noteq> [])"

definition holds :: "('c, 'v) wrk \<Rightarrow> nat \<Rightarrow> 'v parked \<Rightarrow> bool" where
  "holds w t p \<longleftrightarrow> pk_acquired p \<le> length (pk_participants p) \<and> (\<forall>ob \<in> set (take (pk_acquired p) (pk_participants p)). held w ob t)"

definition locks :: "('c, 'v) wrk \<Rightarrow> bool" where
  "locks w \<longleftrightarrow> bt_wf (wk_parked w) \<and> (\<forall>t p. map_of (wk_parked w) t = Some p \<longrightarrow> t < wk_next_txn w \<and> request_ok p \<and> holds w t p)"

definition good :: "('c, 'v) wrk \<Rightarrow> bool" where
  "good w \<longleftrightarrow> boats_wf w \<and> locks w \<and> bt_wf (wk_polls w)"

text \<open>What keeps the boat invariant and the accounts.\<close>

definition kept :: "nat multiset \<Rightarrow> nat multiset \<Rightarrow> ('c, 'v) wrk \<Rightarrow> ('c, 'v) wrk \<Rightarrow> bool" where
  "kept A B w w' \<longleftrightarrow> steady A B w w' \<and> (boats_wf w \<longrightarrow> boats_wf w')"

abbreviation "fine \<equiv> kept {#} {#}"

lemma fine_refl [simp]: "fine w w"
  by (simp add: kept_def)

lemma fine_trans: "fine u v \<Longrightarrow> kept A B v w \<Longrightarrow> kept A B u w"
  unfolding kept_def using still_trans by blast

lemma kept_trans_fine: "kept A B u v \<Longrightarrow> fine v w \<Longrightarrow> kept A B u w"
  unfolding kept_def using trans_still by blast

lemma boats_wf_same:
  assumes "boats_wf w" "wk_pending w' = wk_pending w" "wk_dirty w' = wk_dirty w" "wk_dirty_bytes w' = wk_dirty_bytes w"
    "set (wk_manifests w') \<subseteq> set (wk_manifests w)" "\<And>ob. map_of (wk_dirty w) ob \<noteq> None \<Longrightarrow> map_of (wk_live w) ob \<noteq> None \<Longrightarrow> map_of (wk_live w') ob \<noteq> None"
  shows "boats_wf w'"
proof -
  have "fst ` set (wk_dirty w) \<subseteq> fst ` set (wk_live w')"
  proof
    fix x assume x: "x \<in> fst ` set (wk_dirty w)"
    moreover have "x \<in> fst ` set (wk_live w)" using x assms(1) unfolding boats_wf_def by blast
    ultimately have "map_of (wk_dirty w) x \<noteq> None" "map_of (wk_live w) x \<noteq> None" by (simp_all only: map_of_eq_None_iff not_not simp_thms)
    then show "x \<in> fst ` set (wk_live w')" using assms(6)[of x] by (simp only: map_of_eq_None_iff) blast
  qed
  then show ?thesis using assms by (auto simp: boats_wf_def pending_objects_def counted_def)
qed

lemma holdings_kept: "(\<And>ob. held w ob t \<Longrightarrow> held w' ob t) \<Longrightarrow> holds w t p \<Longrightarrow> holds w' t p"
  by (auto simp: holds_def)

lemma steady_held: "steady A B w w' \<Longrightarrow> held w' = held w"
  by (auto simp: steady_def held_def fun_eq_iff)

lemma steady_locks: "locks w \<Longrightarrow> steady A B w w' \<Longrightarrow> locks w'"
  using steady_held[of A B w w'] unfolding locks_def holds_def steady_def by simp

lemma kept_good: "good w \<Longrightarrow> kept A B w w' \<Longrightarrow> good w' \<and> toks w + A = toks w' + B"
  unfolding good_def kept_def using steady_locks[of w A B w'] by (auto simp: steady_def)

lemma calm_good:
  assumes "good w" "calm E w w'" "\<And>t. t \<in> E \<Longrightarrow> map_of (wk_parked w) t = None"
  shows "good w' \<and> toks w' = toks w"
proof -
  have c: "wk_parked w' = wk_parked w" "wk_next_txn w' = wk_next_txn w" "\<And>ob t. t \<notin> E \<Longrightarrow> held w ob t \<Longrightarrow> held w' ob t"
    "bt_wf (wk_polls w) \<Longrightarrow> bt_wf (wk_polls w') \<and> toks w' = toks w"
    using assms(2) by (simp_all add: calm_def)
  have "boats_wf w'"
    by (rule boats_wf_same[of w]) (use assms(1,2) in \<open>auto simp: good_def calm_def\<close>)
  moreover have "locks w'"
    unfolding locks_def c(1,2)
  proof (intro conjI allI impI)
    show "bt_wf (wk_parked w)" using assms(1) by (simp add: good_def locks_def)
    fix t p assume p: "map_of (wk_parked w) t = Some p"
    then have "t \<notin> E" using assms(3) by auto
    then show "t < wk_next_txn w" "request_ok p" "holds w' t p"
      using assms(1) p holdings_kept[of w t w' p] c(3) by (auto simp: good_def locks_def)
  qed
  ultimately show ?thesis using assms(1) c(4) by (simp add: good_def)
qed

section \<open>Small steps\<close>

lemma fine_same:
  assumes "still w w'" "wk_pending w' = wk_pending w" "wk_dirty w' = wk_dirty w" "wk_dirty_bytes w' = wk_dirty_bytes w"
    "wk_manifests w' = wk_manifests w" "\<And>ob. map_of (wk_live w) ob \<noteq> None \<Longrightarrow> map_of (wk_live w') ob \<noteq> None"
  shows "fine w w'"
  using assms boats_wf_same[of w w'] by (auto simp: kept_def)

lemma kept_emit: "kept (lv w [resp]) {#} w (emit (Reply resp x) w)" "ev_resps e = [] \<Longrightarrow> fine w (emit e w)"
  using steady_reply[of w resp x] still_emit[of e w] boats_wf_same[of w "emit e w" for e]
  by (auto simp: kept_def emit_def)

lemma kept_answer: "kept (lv w (map fst ws)) {#} w (answer ws w)"
  using steady_answer[of w ws] boats_wf_same[of w "answer ws w"] by (auto simp: kept_def answer_def)

lemma fine_enforce_disk [simp]: "fine w (enforce_disk w)"
proof (rule fine_same[OF still_enforce_disk])
qed (auto simp: enforce_disk_def emit_def split_beta Let_def split: option.split)

lemma fine_fail_polls [simp]: "fine w (fail_polls ob reason w)"
proof (rule fine_same[OF still_fail_polls])
qed (auto simp: fail_polls_def emit_all_def split: option.split)

lemma boats_wf_boat_same: "boats_wf w \<Longrightarrow> boat_same w w' \<Longrightarrow> boats_wf w'"
  by (auto simp: boats_wf_def boat_same_def counted_def pending_objects_def)

lemma fine_take_fired: "take_fired_polls en ob d w = (fired, w') \<Longrightarrow> fine w (answer fired w')"
  using take_fired_answer[of en ob d w fired w'] boats_wf_boat_same[of w w'] take_fired_frame[of en ob d w fired w'] kept_answer[of w' fired]
  unfolding kept_def by blast

lemma fine_fire_written: "fine w (fire_written en obs w)"
proof (induction obs arbitrary: w)
  case (Cons ob obs)
  obtain fired w1 where "take_fired_polls en ob False w = (fired, w1)" by force
  then show ?case using fine_trans[OF fine_take_fired Cons.IH] by simp
qed simp

lemma fine_fire_shipped: "fine w (fire_shipped en obs w)"
proof (induction obs arbitrary: w)
  case (Cons ob obs)
  obtain fired w1 where "take_fired_polls en ob True w = (fired, w1)" by force
  then show ?case using fine_trans[OF fine_take_fired Cons.IH] Cons.IH by simp
qed simp

lemma fine_revert_closure: "fine w (revert_closure seed w)"
  by (simp add: kept_def revert_closure_still boats_wf_revert)

lemma fine_rebuild: "rebuild en ob img seq w = (done, w') \<Longrightarrow> fine w w'"
proof (cases "en_open en img")
  case (Inr c)
  let ?w1 = "w\<lparr>wk_live := bt_insert ob c (wk_live w)\<rparr>"
  have 1: "still w (?w1\<lparr>wk_log_seq := bt_insert ob seq (wk_log_seq w)\<rparr>)"
    using still_trans[OF still_updates(2)[of w "bt_insert ob c (wk_live w)"] still_updates(4)[of ?w1 "bt_insert ob seq (wk_log_seq w)"]] .
  assume "rebuild en ob img seq w = (done, w')"
  then have w': "w' = ?w1\<lparr>wk_log_seq := bt_insert ob seq (wk_log_seq w)\<rparr>" using Inr by (simp add: rebuild_def materialize_def)
  show ?thesis unfolding w' by (rule fine_same[OF 1]) auto
qed (simp add: rebuild_def materialize_def)

lemma fine_settle_in: "fine w (settle_in obs w)"
proof -
  have m: "fine w (w\<lparr>wk_meta := m\<rparr>)" for m and w :: "('a, 'b) wrk"
    by (rule fine_same[OF still_updates(1)]) auto
  show ?thesis
    unfolding settle_in_def by (induction obs arbitrary: w) (auto intro: fine_trans[OF m])
qed

section \<open>Applying\<close>

definition conn_same :: "('c, 'v) wrk \<Rightarrow> ('c, 'v) wrk \<Rightarrow> bool" where
  "conn_same w w' \<longleftrightarrow> (\<exists>m. w' = w\<lparr>wk_live := m\<rparr>) \<and> (\<forall>ob. map_of (wk_live w') ob = None \<longleftrightarrow> map_of (wk_live w) ob = None)"

definition live_all :: "string set \<Rightarrow> ('c, 'v) wrk \<Rightarrow> bool" where
  "live_all obs w \<longleftrightarrow> (\<forall>ob \<in> obs. map_of (wk_live w) ob \<noteq> None)"

lemma conn_same_refl [simp]: "conn_same w w"
  by (auto simp: conn_same_def intro: exI[of _ "wk_live w"])

lemma conn_same_trans: "conn_same u v \<Longrightarrow> conn_same v w \<Longrightarrow> conn_same u w"
  unfolding conn_same_def by (elim conjE exE) (simp, blast)

lemma conn_same_live: "conn_same w w' \<Longrightarrow> live_all obs w \<Longrightarrow> live_all obs w'"
  by (simp add: conn_same_def live_all_def)

lemma live_all_mono: "live_all obs w \<Longrightarrow> xs \<subseteq> obs \<Longrightarrow> live_all xs w"
  by (auto simp: live_all_def)

lemma live_all_insert: "live_all (insert x B) w \<longleftrightarrow> live_all {x} w \<and> live_all B w"
  by (simp add: live_all_def)

lemma live_cons: "live_all (set (x # xs)) w \<Longrightarrow> live_all {x} w \<and> live_all (set xs) w"
  "live_all (f ` set (y # ys)) w \<Longrightarrow> live_all {f y} w \<and> live_all (f ` set ys) w"
  by (simp_all add: live_all_def)

lemma conn_same_fine: "conn_same w w' \<Longrightarrow> fine w w'"
proof -
  assume c: "conn_same w w'"
  then obtain m where m: "w' = w\<lparr>wk_live := m\<rparr>" by (auto simp: conn_same_def)
  have "still w w'" unfolding m by (rule still_updates)
  then show ?thesis by (rule fine_same) (use c m in \<open>simp_all add: conn_same_def\<close>)
qed

lemma on_conn_same:
  assumes "live_all {ob} w"
  shows "\<exists>x w'. on_conn ob f w = Ret (x, w') \<and> conn_same w w'"
proof -
  obtain c where c: "map_of (wk_live w) ob = Some c" using assms by (auto simp: live_all_def)
  obtain x d where "f c = (x, d)" by force
  then have "on_conn ob f w = Ret (x, w\<lparr>wk_live := bt_insert ob d (wk_live w)\<rparr>)" using c by (simp add: on_conn_def)
  moreover have "conn_same w (w\<lparr>wk_live := bt_insert ob d (wk_live w)\<rparr>)" using c by (auto simp: conn_same_def)
  ultimately show ?thesis by blast
qed

lemma on_all_same: "live_all (set obs) w \<Longrightarrow> \<exists>w'. on_all obs f w = Ret w' \<and> conn_same w w'"
proof (induction obs arbitrary: w)
  case (Cons ob obs)
  obtain x w1 where 1: "on_conn ob (\<lambda>c. ((), f ob c)) w = Ret (x, w1)" "conn_same w w1" using on_conn_same[OF conjunct1[OF live_cons(1)[OF Cons.prems]], of "\<lambda>c. ((), f ob c)"] by auto
  obtain w2 where 2: "on_all obs f w1 = Ret w2" "conn_same w1 w2" using Cons.IH[OF conn_same_live[OF 1(2) conjunct2[OF live_cons(1)[OF Cons.prems]]]] by blast
  show ?case using 1 2 conn_same_trans[OF 1(2) 2(2)] by simp
qed simp

lemma begin_all_same: "live_all (set obs) w \<Longrightarrow> \<exists>r w'. begin_all en obs w = Ret (r, w') \<and> conn_same w w'"
proof (induction obs arbitrary: w)
  case (Cons ob obs)
  obtain r w1 where 1: "on_conn ob (en_begin en) w = Ret (r, w1)" "conn_same w w1" using on_conn_same[OF conjunct1[OF live_cons(1)[OF Cons.prems]]] by force
  obtain r2 w2 where 2: "begin_all en obs w1 = Ret (r2, w2)" "conn_same w1 w2" using Cons.IH[OF conn_same_live[OF 1(2) conjunct2[OF live_cons(1)[OF Cons.prems]]]] by blast
  show ?case using 1 2 conn_same_trans[OF 1(2) 2(2)] by (cases r) auto
qed simp

lemma commit_all_same: "live_all (set obs) w \<Longrightarrow> \<exists>r w'. commit_all en i obs w = Ret (r, w') \<and> conn_same w w'"
proof (induction obs arbitrary: w i)
  case (Cons ob obs)
  obtain r w1 where 1: "on_conn ob (en_commit en) w = Ret (r, w1)" "conn_same w w1" using on_conn_same[OF conjunct1[OF live_cons(1)[OF Cons.prems]]] by force
  obtain r2 w2 where 2: "commit_all en (i + 1) obs w1 = Ret (r2, w2)" "conn_same w1 w2"
    using Cons.IH[OF conn_same_live[OF 1(2) conjunct2[OF live_cons(1)[OF Cons.prems]]]] by blast
  show ?case using 1 2 conn_same_trans[OF 1(2) 2(2)] by (cases r) auto
qed simp

lemma write_ops_same: "live_all (op_object ` set ops) w \<Longrightarrow> \<exists>r w'. write_ops en ops w = Ret (r, w') \<and> conn_same w w'"
proof (induction ops arbitrary: w)
  case (Cons p ops)
  obtain r w1 where 1: "on_conn (op_object p) (\<lambda>c. en_run en c (op_sql p) (op_params p)) w = Ret (r, w1)" "conn_same w w1"
    using on_conn_same[OF conjunct1[OF live_cons(2)[OF Cons.prems]]] by force
  obtain r2 w2 where 2: "write_ops en ops w1 = Ret (r2, w2)" "conn_same w1 w2"
    using Cons.IH[OF conn_same_live[OF 1(2) conjunct2[OF live_cons(2)[OF Cons.prems]]]] by blast
  show ?case using 1 2 conn_same_trans[OF 1(2) 2(2)] by (cases r) auto
qed simp

lemma read_ops_same: "live_all (op_object ` set ops) w \<Longrightarrow> \<exists>r w'. read_ops en ops w = Ret (r, w') \<and> conn_same w w'"
proof (induction ops arbitrary: w)
  case (Cons p ops)
  obtain c where c: "map_of (wk_live w) (op_object p) = Some c"
    using Cons.prems by (auto simp: live_all_def)
  obtain r w1 where 1: "on_conn (op_object p) (\<lambda>c. en_run en c (op_sql p) (op_params p)) w = Ret (r, w1)" "conn_same w w1"
    using on_conn_same[OF conjunct1[OF live_cons(2)[OF Cons.prems]]] by force
  obtain r2 w2 where 2: "read_ops en ops w1 = Ret (r2, w2)" "conn_same w1 w2"
    using Cons.IH[OF conn_same_live[OF 1(2) conjunct2[OF live_cons(2)[OF Cons.prems]]]] by blast
  show ?case using c 1 2 conn_same_trans[OF 1(2) 2(2)] by (auto split: sum.split bool.split)
qed simp

lemma gates_same:
  "live_all (set obs) w \<Longrightarrow> \<exists>w'. gate_all en cap obs w = Ret w' \<and> conn_same w w'"
  "live_all (set obs) w \<Longrightarrow> \<exists>w'. ungate_all en cap obs w = Ret w' \<and> conn_same w w'"
  by (cases cap; auto simp: gate_all_def ungate_all_def on_all_same)+

text \<open>An outcome of \<open>apply\<close>: no panic, the accounts kept; after a success the participants are live and what
  changed is among them.\<close>

definition applied_ok :: "string list \<Rightarrow> ('c, 'v) wrk \<Rightarrow> ((api_error + 'v op_result list \<times> string list) \<times> ('c, 'v) wrk) rust \<Rightarrow> bool" where
  "applied_ok obs w r \<longleftrightarrow> (\<exists>res w'. r = Ret (res, w') \<and> fine w w'
     \<and> (\<forall>rs changed. res = Inr (rs, changed) \<longrightarrow> live_all (set obs) w' \<and> set changed \<subseteq> set obs))"

lemma commit_phase_ok:
  assumes "live_all (set obs) w" "set (map fst before) \<subseteq> set obs"
  shows "applied_ok obs w (commit_phase en obs before results w)"
proof -
  obtain r w1 where 1: "commit_all en 0 obs w = Ret (r, w1)" "conn_same w w1" using commit_all_same[OF assms(1)] by blast
  show ?thesis
  proof (cases r)
    case None
    then show ?thesis
      using 1 conn_same_fine[OF 1(2)] conn_same_live[OF 1(2) assms(1)] assms(2)
      by (auto simp: commit_phase_def applied_ok_def Let_def)
  next
    case (Some f)
    obtain at e where f: "f = (at, e)" by force
    have "live_all (set (drop at obs)) w1" by (rule live_all_mono[OF conn_same_live[OF 1(2) assms(1)] set_drop_subset])
    then obtain w2 where 2: "on_all (drop at obs) (\<lambda>_. en_rollback en) w1 = Ret w2" "conn_same w1 w2" using on_all_same by blast
    have "fine w (revert_closure (take at obs) w2)"
      using fine_trans[OF conn_same_fine[OF conn_same_trans[OF 1(2) 2(2)]] fine_revert_closure] .
    then show ?thesis using 1 2 Some f by (simp add: commit_phase_def applied_ok_def)
  qed
qed

lemma applied_after: "conn_same w w1 \<Longrightarrow> applied_ok obs w1 r \<Longrightarrow> applied_ok obs w r"
  unfolding applied_ok_def using fine_trans[OF conn_same_fine] by blast

lemma applied_error: "conn_same w w' \<Longrightarrow> applied_ok obs w (Ret (Inl e, w'))"
  by (simp add: applied_ok_def conn_same_fine)

lemma apply_ok:
  assumes "op_object ` set ops \<subseteq> set obs"
  shows "applied_ok obs w (apply_txn en obs ops read_only cap w)"
proof (cases "List.find (\<lambda>ob. map_of (wk_live w) ob = None) obs")
  case (Some ob)
  then show ?thesis by (simp add: apply_txn_def applied_error)
next
  case None
  then have live: "live_all (set obs) w" by (auto simp: find_None_iff live_all_def)
  have ops: "live_all (op_object ` set ops) w" using live_all_mono[OF live assms] .
  show ?thesis
  proof (cases read_only)
    case True
    obtain r w1 where 1: "read_ops en ops w = Ret (r, w1)" "conn_same w w1" using read_ops_same[OF ops] by blast
    then show ?thesis
      using None True conn_same_fine[OF 1(2)] conn_same_live[OF 1(2) live]
      by (cases r) (auto simp: apply_txn_def applied_ok_def)
  next
    case False
    let ?before = "map (\<lambda>ob. (ob, file_change_counter en w ob)) obs"
    obtain w1 where 1: "gate_all en cap obs w = Ret w1" "conn_same w w1" using gates_same(1)[OF live] by blast
    note live1 = conn_same_live[OF 1(2) live]
    obtain r2 w2 where 2: "begin_all en obs w1 = Ret (r2, w2)" "conn_same w1 w2" using begin_all_same[OF live1] by blast
    note s2 = conn_same_trans[OF 1(2) 2(2)] and live2 = conn_same_live[OF conn_same_trans[OF 1(2) 2(2)] live]
    show ?thesis
    proof (cases r2)
      case (Inl e)
      obtain w3 where 3: "ungate_all en cap obs w2 = Ret w3" "conn_same w2 w3" using gates_same(2)[OF live2] by blast
      then show ?thesis
        using None False 1(1) 2(1) Inl applied_error[OF conn_same_trans[OF s2 3(2)]] by (simp add: apply_txn_def Let_def)
    next
      case (Inr u)
      have "live_all (op_object ` set ops) w2" by (rule conn_same_live[OF s2 ops])
      then obtain r3 w3 where 3: "write_ops en ops w2 = Ret (r3, w3)" "conn_same w2 w3" using write_ops_same by blast
      note s3 = conn_same_trans[OF s2 3(2)] and live3 = conn_same_live[OF conn_same_trans[OF s2 3(2)] live]
      show ?thesis
      proof (cases r3)
        case (Inl msg)
        obtain w4 where 4: "on_all obs (\<lambda>_. en_rollback en) w3 = Ret w4" "conn_same w3 w4" using on_all_same[OF live3] by blast
        note s4 = conn_same_trans[OF s3 4(2)] and live4 = conn_same_live[OF conn_same_trans[OF s3 4(2)] live]
        obtain w5 where 5: "ungate_all en cap obs w4 = Ret w5" "conn_same w4 w5" using gates_same(2)[OF live4] by blast
        show ?thesis
          using None False 1(1) 2(1) 3(1) 4(1) 5(1) \<open>r2 = Inr u\<close> Inl applied_error[OF conn_same_trans[OF s4 5(2)]]
          by (simp add: apply_txn_def Let_def)
      next
        case (Inr results)
        obtain w4 where 4: "ungate_all en cap obs w3 = Ret w4" "conn_same w3 w4" using gates_same(2)[OF live3] by blast
        note s4 = conn_same_trans[OF s3 4(2)] and live4 = conn_same_live[OF conn_same_trans[OF s3 4(2)] live]
        have "applied_ok obs w4 (commit_phase en obs ?before results w4)" by (rule commit_phase_ok[OF live4]) simp
        then show ?thesis
          using None False 1(1) 2(1) 3(1) 4(1) \<open>r2 = Inr u\<close> Inr applied_after[OF s4] by (simp add: apply_txn_def Let_def o_def)
      qed
    qed
  qed
qed

end
