(* ===== verification/Loop_Step.thy ===== *)
theory Loop_Step
  imports Loop_Run
begin

text \<open>
  The steps of the loop under its invariant: freshening, completing and releasing after a transaction has run,
  a failed acquisition, and admission. Each keeps \<open>good\<close>, says what becomes of the replies, and none panics.
\<close>

section \<open>Bringing up to date\<close>

lemma refresh_fine: "returns (\<lambda>(_, w'). fine w w') (refresh_if_stale en ob w)"
proof -
  have "fine w (snd (rebuild en ob img seq w))" for img seq
    by (metis fine_rebuild prod.collapse)
  then show ?thesis
    unfolding refresh_if_stale_def
    by (auto simp: case_prod_beta intro!: returns_after split: sum.split)
qed

lemma refold_fine: "returns (fine w) (refold_clean_base en ob w)"
proof -
  have "fine w (snd (rebuild en ob img seq w))" for img seq
    by (metis fine_rebuild prod.collapse)
  then show ?thesis
    unfolding refold_clean_base_def by (auto intro!: returns_after split: sum.split)
qed

lemma freshen_fine: "returns (fine w) (freshen en ro obs w)"
proof (induction obs arbitrary: w)
  case (Cons ob obs)
  have one: "returns (fine w) (if ro then io_bind (refresh_if_stale en ob w) (\<lambda>(_, w). Done w) else refold_clean_base en ob w)"
    by (auto simp: refold_fine intro!: returns_seq[OF refresh_fine])
  have "returns (fine w) (freshen en ro obs w1)" if "fine w w1" for w1
    by (rule returns_conseq[OF Cons.IH]) (rule fine_trans[OF that])
  then show ?case unfolding freshen.simps by (rule returns_seq[OF one])
qed simp

lemma refresh_poll_fine: "returns (\<lambda>(_, w'). fine w w') (refresh_stale_poll en ob po p w)"
proof -
  have run: "fine w (w'\<lparr>wk_live := bt_insert ob c (wk_live w')\<rparr>)" if "fine w w'" for w' and c
    by (rule fine_trans[OF that fine_same[OF still_updates(2)]]) auto
  show ?thesis
    unfolding refresh_stale_poll_def
    by (rule returns_seq[OF refresh_fine]) (auto simp: run split_beta Let_def split: option.split sum.split)
qed

section \<open>Completing\<close>

lemma kept_park_poll: "kept (lv w [resp]) {#} w (park_poll ob po p resp w)"
proof -
  let ?ps = "case map_of (wk_polls w) ob of Some ps \<Rightarrow> ps | None \<Rightarrow> []"
  let ?w' = "park_poll ob po p resp w"
  have "toks w + lv w [resp] = toks ?w'" if wf: "bt_wf (wk_polls w)"
  proof -
    have old: "mset (polling (wk_polls w)) = mset (map pp_resp ?ps) + mset (polling (bt_remove ob (wk_polls w)))"
      using polling_lookup[OF wf, of ob] by (cases "map_of (wk_polls w) ob") (simp_all add: bt_remove_absent)
    have "mset (polling (wk_polls ?w')) = mset (polling (wk_polls w)) + {#resp#}"
      unfolding old by (simp add: park_poll_def polling_insert[OF wf])
    then show ?thesis by (simp add: toks_lv lv_def) (simp add: park_poll_def)
  qed
  then show ?thesis
    using boats_wf_same[of w ?w'] by (simp add: kept_def steady_def) (simp add: park_poll_def)
qed

lemma complete_read_kept:
  fixes w :: "('c, 'v) wrk"
  assumes "request_ok p"
  shows "returns (\<lambda>r. \<exists>w'. r = Ret w' \<and> kept (lv w [pk_resp p]) {#} w w') (complete_read en p resp w)"
proof -
  obtain ob obs where obs: "pk_participants p = ob # obs" using assms by (cases "pk_participants p") (auto simp: request_ok_def)
  have ans: "kept (lv w [pk_resp p]) {#} w (answer [(pk_resp p, x)] w)" for x and w :: "('c, 'v) wrk"
    using kept_answer[of w "[(pk_resp p, x)]"] by simp
  have after: "kept (lv w [pk_resp p]) {#} w w2" if "fine w w1" "kept (lv w1 [pk_resp p]) {#} w1 w2" for w1 w2
    using fine_trans[OF that(1)] that(2) steady_lv[of "{#}" "{#}" w w1] that(1) by (simp add: kept_def)
  show ?thesis
  proof (cases "pk_poll p")
    case (Some po)
    then obtain q qs where ops: "pk_ops p = q # qs" using assms by (cases "pk_ops p") (auto simp: request_ok_def)
    show ?thesis
      unfolding complete_read_def Let_def Some obs ops option.case list.case
      by (auto simp: ans kept_park_poll intro!: returns_seq[OF refresh_poll_fine] after[OF _ ans] after[OF _ kept_park_poll] split: option.split)
  qed (simp add: complete_read_def ans)
qed

text \<open>What a write and a repair do: some objects become dirty and one transaction covering them joins the boat.\<close>

lemma boats_wf_joined:
  assumes "boats_wf w" "counted w'" "fst ` set (wk_dirty w') = fst ` set (wk_dirty w) \<union> set obs" "obs \<noteq> []"
    "wk_pending w' = wk_pending w @ [t]" "at_participants t = obs" "set (wk_manifests w') \<subseteq> set (wk_manifests w)"
    "fst ` set (wk_live w) \<subseteq> fst ` set (wk_live w')" "set obs \<subseteq> fst ` set (wk_live w')"
  shows "boats_wf w'"
proof -
  have "pending_objects w' = pending_objects w \<union> set obs" using assms(5,6) by (auto simp: pending_objects_def)
  moreover have "fst ` set (wk_dirty w) \<union> set obs \<subseteq> fst ` set (wk_live w')" using assms(1,8,9) unfolding boats_wf_def by blast
  ultimately show ?thesis using assms(1-7) unfolding boats_wf_def by auto
qed

definition dirtied :: "string list \<Rightarrow> ('c, 'v) wrk \<Rightarrow> ('c, 'v) wrk \<Rightarrow> bool" where
  "dirtied obs w w' \<longleftrightarrow> still w w' \<and> wk_pending w' = wk_pending w \<and> wk_live w' = wk_live w \<and> set (wk_manifests w') \<subseteq> set (wk_manifests w)
     \<and> fst ` set (wk_dirty w') = fst ` set (wk_dirty w) \<union> set obs \<and> (counted w \<longrightarrow> counted w')"

lemma counted_insert:
  assumes "counted w" "map_of (wk_dirty w) ob = None"
  shows "counted (w\<lparr>wk_dirty := bt_insert ob n (wk_dirty w), wk_dirty_bytes := wk_dirty_bytes w + n\<rparr>)"
proof -
  have wf: "bt_wf (wk_dirty w)" using assms by (simp add: counted_def)
  have "sum_mset (image_mset snd (mset (bt_insert ob n (wk_dirty w)))) = n + sum_mset (image_mset snd (mset (wk_dirty w)))"
    unfolding mset_bt_insert[OF wf] bt_remove_absent[OF assms(2)] by simp
  then have "sum_list (map snd (bt_insert ob n (wk_dirty w))) = n + sum_list (map snd (wk_dirty w))"
    by (simp add: sum_mset_sum_list flip: mset_map)
  then show ?thesis using assms wf by (simp add: counted_def)
qed

lemma dirtied_trans: "dirtied [ob] u v \<Longrightarrow> dirtied obs v w \<Longrightarrow> dirtied (ob # obs) u w"
  unfolding dirtied_def by (auto intro: still_trans)

lemma dirtied_fold:
  assumes "\<And>w ob. dirtied [ob] w (f w ob)"
  shows "dirtied obs w (foldl f w obs)"
proof (induction obs arbitrary: w)
  case (Cons ob obs)
  show ?case unfolding foldl.simps by (rule dirtied_trans[OF assms Cons.IH])
qed (simp add: dirtied_def)

lemma known_dirty: "map_of m ob \<noteq> None \<Longrightarrow> fst ` set m \<union> {ob} = fst ` set m"
  by (simp add: map_of_eq_None_iff insert_absorb)

lemma mark_dirty_dirtied: "dirtied [ob] w (mark_dirty en ob w)"
proof (cases "map_of (wk_dirty w) ob")
  case None
  let ?w = "w\<lparr>wk_dirty := bt_insert ob (live_size en w ob) (wk_dirty w), wk_dirty_bytes := wk_dirty_bytes w + live_size en w ob\<rparr>"
  have "counted w \<Longrightarrow> counted ?w" by (rule counted_insert[OF _ None])
  then show ?thesis using None by (simp add: mark_dirty_def dirtied_def Let_def counted_def set_bt_insert)
qed (simp add: mark_dirty_def dirtied_def insert_absorb, metis known_dirty Un_insert_right Un_empty_right option.distinct(1))

lemma redirty_dirtied: "dirtied [ob] w (redirty en ob w)"
proof -
  let ?v = "w\<lparr>wk_manifests := bt_remove ob (wk_manifests w)\<rparr>"
  have 0: "dirtied [] w ?v" by (auto simp: dirtied_def counted_def)
  show ?thesis
  proof (cases "map_of (wk_dirty w) ob")
    case None
    let ?n = "live_size en ?v ob"
    let ?w = "w\<lparr>wk_dirty := bt_insert ob ?n (wk_dirty w), wk_dirty_bytes := wk_dirty_bytes w + ?n\<rparr>"
    have c: "counted w \<Longrightarrow> counted ?w" by (rule counted_insert[OF _ None])
    have "still w (?v\<lparr>wk_dirty := x, wk_dirty_bytes := y\<rparr>)" for x y
      by (simp add: steady_def toks_def all_toks_def)
    then show ?thesis using None c by (auto simp del: still_updates simp: redirty_def dirtied_def Let_def counted_def set_bt_insert)
  next
    case (Some n)
    then have "fst ` set (wk_dirty w) \<union> {ob} = fst ` set (wk_dirty w)" by (intro known_dirty) simp
    then show ?thesis using Some 0 by (simp add: redirty_def dirtied_def)
  qed
qed

lemma join_boat_kept:
  assumes "dirtied obs w w1" "obs \<noteq> []" "live_all (set obs) w"
  shows "kept (lv w (case wt of Some x \<Rightarrow> [fst x] | None \<Rightarrow> [])) {#} w
    (w1\<lparr>wk_pending := wk_pending w1 @ [\<lparr>at_participants = obs, at_waiter = wt\<rparr>]\<rparr>)"
proof -
  let ?t = "\<lparr>at_participants = obs, at_waiter = wt\<rparr>" and ?A = "lv w (case wt of Some x \<Rightarrow> [fst x] | None \<Rightarrow> [])"
  let ?w2 = "w1\<lparr>wk_pending := wk_pending w1 @ [?t]\<rparr>"
  have l: "lv w1 = lv w" using assms(1) by (auto simp: dirtied_def steady_lv)
  have "steady (lv w (waiting (wk_pending w1)) + ?A) (lv w (waiting (wk_pending w1))) w1 ?w2"
    using steady_pending[of w1 "wk_pending w1 @ [?t]"] by (simp add: l)
  then have "steady ?A {#} w1 ?w2" using steady_cancel[of ?A "lv w (waiting (wk_pending w1))" "{#}" w1 ?w2] by (simp add: add.commute)
  then have 1: "steady ?A {#} w ?w2" using assms(1) still_trans by (auto simp: dirtied_def)
  have sub: "set obs \<subseteq> fst ` set (wk_live w)" using assms(3) by (force simp: live_all_def map_of_eq_None_iff)
  have "boats_wf ?w2" if "boats_wf w"
  proof (rule boats_wf_joined[OF that, where obs = obs and t = ?t])
    show "counted ?w2" using assms(1) that by (simp add: dirtied_def boats_wf_def counted_def)
  qed (use assms sub in \<open>simp_all add: dirtied_def\<close>)
  then show ?thesis using 1 by (simp add: kept_def)
qed

lemma kept_seq: "kept A B u v \<Longrightarrow> kept C D v w \<Longrightarrow> kept (A + C) (B + D) u w"
  unfolding kept_def using steady_trans by blast

lemma kept_lv: "kept A B u v \<Longrightarrow> lv v = lv u"
  unfolding kept_def using steady_lv by blast

lemma complete_write_kept:
  fixes w :: "('c, 'v) wrk"
  assumes "live_all (set changed) w"
  shows "kept (lv w [pk_resp p]) {#} w (complete_write en p resp changed w)"
proof -
  have ans: "kept (lv w [pk_resp p]) {#} w (answer [(pk_resp p, x)] w)" for x and w :: "('c, 'v) wrk"
    using kept_answer[of w "[(pk_resp p, x)]"] by simp
  show ?thesis
  proof (cases "changed = []")
    case True
    then show ?thesis using kept_trans_fine[OF ans fine_fire_written] by (simp add: complete_write_def)
  next
    case False
    let ?w1 = "foldl (\<lambda>w ob. mark_dirty en ob w) w changed"
    let ?now = "pk_optimistic p \<and> wk_dirty_bytes ?w1 \<le> wk_max_unshipped ?w1"
    have d: "dirtied changed w ?w1" by (rule dirtied_fold) (rule mark_dirty_dirtied)
    have l: "lv ?w1 = lv w" using d by (auto simp: dirtied_def steady_lv)
    show ?thesis
    proof (cases ?now)
      case True
      let ?w2 = "answer [(pk_resp p, resp)] ?w1"
      let ?w3 = "?w1\<lparr>wk_pending := wk_pending ?w1 @ [\<lparr>at_participants = changed, at_waiter = None\<rparr>]\<rparr>"
      have 3: "fine w ?w3" using join_boat_kept[OF d False assms, of None] by simp
      have eq: "?w2\<lparr>wk_pending := wk_pending ?w2 @ [\<lparr>at_participants = changed, at_waiter = None\<rparr>]\<rparr> = answer [(pk_resp p, resp)] ?w3"
        by (simp add: answer_def emit_all_def)
      have "kept (lv w [pk_resp p]) {#} w (answer [(pk_resp p, resp)] ?w3)"
        using fine_trans[OF 3 ans[of ?w3 resp]] kept_lv[OF 3] by simp
      then show ?thesis 
        unfolding complete_write_def Let_def if_not_P[OF False] if_P[OF True] eq by (rule kept_trans_fine) (rule fine_fire_written)
    next
      case later: False
      have "kept (lv w [pk_resp p]) {#} w (?w1\<lparr>wk_pending := wk_pending ?w1 @ [\<lparr>at_participants = changed, at_waiter = Some (pk_resp p, resp)\<rparr>]\<rparr>)"
        using join_boat_kept[OF d False assms, of "Some (pk_resp p, resp)"] by simp
      then show ?thesis
        unfolding complete_write_def Let_def if_not_P[OF False] if_not_P[OF later] by (rule kept_trans_fine) (rule fine_fire_written)
    qed
  qed
qed

lemma complete_kept:
  assumes "request_ok p" "\<And>rs changed. res = Inr (rs, changed) \<Longrightarrow> live_all (set changed) w"
  shows "returns (\<lambda>r. \<exists>w'. r = Ret w' \<and> kept (lv w [pk_resp p]) {#} w w') (complete en t p res w)"
proof (cases res)
  case (Inl e)
  then show ?thesis by (simp add: complete_def kept_emit)
next
  case (Inr x)
  then show ?thesis
    using assms by (cases x) (auto simp: complete_def Let_def complete_read_kept complete_write_kept)
qed

end
