(* ===== verification/Loop_Turn.thy ===== *)
theory Loop_Turn
  imports Loop_Step
begin

text \<open>
  One turn of the loop: releasing the queues of a transaction that has run or failed, running it whole, and
  admitting it participant by participant.
\<close>

section \<open>Releasing\<close>

text \<open>A queue that changes at one object, whose new head is a former holder or nobody loses it but \<open>E\<close>.\<close>

lemma calm_requeue:
  assumes "\<And>t. t \<notin> E \<Longrightarrow> held w ob t \<Longrightarrow> \<exists>q'. q = TxnEntry t # q'"
  shows "calm E w (w\<lparr>wk_queues := bt_insert ob q (wk_queues w)\<rparr>)"
  by (rule calm_queues) (use assms in \<open>auto simp: held_def\<close>)

lemma calm_unqueue:
  assumes "\<And>t. t \<notin> E \<Longrightarrow> \<not> held w ob t"
  shows "calm E w (w\<lparr>wk_queues := bt_remove ob (wk_queues w)\<rparr>)"
  by (rule calm_queues) (use assms in \<open>auto simp: held_def\<close>)

lemma held_other: "ob' \<noteq> ob \<Longrightarrow> held (w\<lparr>wk_queues := bt_insert ob q (wk_queues w)\<rparr>) ob' t = held w ob' t"
  "ob' \<noteq> ob \<Longrightarrow> held (w\<lparr>wk_queues := bt_remove ob (wk_queues w)\<rparr>) ob' t = held w ob' t"
  by (simp_all add: held_def)

lemma calm_held: "calm {} w w' \<Longrightarrow> held w ob t \<Longrightarrow> held w' ob t"
  by (simp add: calm_def)

lemma calm_any: "calm {} w w' \<Longrightarrow> calm E w w'"
  by (rule calm_mono) auto

text \<open>The heads a transaction holds can be released one after the other.\<close>

lemma release_heads_calm:
  "distinct obs \<Longrightarrow> (\<And>ob. ob \<in> set obs \<Longrightarrow> held w ob txn) \<Longrightarrow> keeps_calm {txn} w (release_heads en obs w)"
proof (induction obs arbitrary: w)
  case (Cons ob obs)
  have "held w ob txn" using Cons.prems(2) by simp
  then obtain q where q: "map_of (wk_queues w) ob = Some (TxnEntry txn # q)" by (auto simp: held_def)
  have only: "t = txn" if "held w ob t" for t using held_unique[OF that \<open>held w ob txn\<close>] .
  have rest: "ob' \<in> set obs \<Longrightarrow> ob' \<noteq> ob \<and> held w ob' txn" for ob' using Cons.prems by auto
  have after: "keeps_calm {txn} w (release_heads en obs w2)"
    if c: "calm {txn} w w1" and h: "\<And>ob'. ob' \<noteq> ob \<Longrightarrow> held w1 ob' txn = held w ob' txn" and c2: "calm {} w1 w2" for w1 w2
  proof (rule keeps_calm_after[OF calm_trans[OF c calm_any[OF c2]] Cons.IH])
    show "held w2 ob' txn" if "ob' \<in> set obs" for ob' using calm_held[OF c2] h rest[OF that] by blast
  qed (use Cons.prems in simp)
  let ?r = "w\<lparr>wk_queues := bt_remove ob (wk_queues w)\<rparr>" and ?i = "w\<lparr>wk_queues := bt_insert ob q (wk_queues w)\<rparr>"
  have cr: "calm {txn} w ?r" by (rule calm_unqueue) (use only in auto)
  have ci: "calm {txn} w ?i" by (rule calm_requeue) (use only in auto)
  have r: "keeps_calm {txn} w (io_bind (io_bind (maybe_return_home en ob ?r) (\<lambda>w. Done ([], w)))
     (\<lambda>(ready, w). io_bind (release_heads en obs w) (\<lambda>(more, w). Done (ready @ more, w))))"
    by (auto simp: io_bind_assoc intro!: returns_seq[OF maybe_return_home_calm[of "{}"]] after[OF cr held_other(2)])
  have i: "keeps_calm {txn} w (io_bind (service_front en ob ?i)
     (\<lambda>(ready, w). io_bind (release_heads en obs w) (\<lambda>(more, w). Done (ready @ more, w))))"
    by (rule returns_seq[OF service_front_calm[of "{}"]]) (auto intro!: returns_seq[OF after[OF ci held_other(1)]])
  show ?case using r i q by simp
qed simp

lemma filter_head: "q \<noteq> [] \<Longrightarrow> hd q = TxnEntry t \<Longrightarrow> t \<noteq> txn \<Longrightarrow> \<exists>q'. filter (\<lambda>e. e \<noteq> TxnEntry txn) q = TxnEntry t # q'"
  by (cases q) auto

lemma leave_queues_calm: "keeps_calm {txn} w (leave_queues en txn obs w)"
proof (induction obs arbitrary: w)
  case (Cons ob obs)
  show ?case
  proof (cases "map_of (wk_queues w) ob")
    case (Some q)
    let ?q = "filter (\<lambda>e. e \<noteq> TxnEntry txn) q"
    have keep: "\<exists>q'. ?q = TxnEntry t # q'" if "t \<notin> {txn}" "held w ob t" for t
      using that Some by (auto simp: held_def)
    have rem: "calm {txn} w (w\<lparr>wk_queues := bt_remove ob (wk_queues w)\<rparr>)" if "?q = []"
      by (rule calm_unqueue) (use keep that in auto)
    have ins: "calm {txn} w (w\<lparr>wk_queues := bt_insert ob ?q (wk_queues w)\<rparr>)" by (rule calm_requeue) (rule keep)
    have "keeps_calm {txn} w (if ?q = [] then Done ([], w\<lparr>wk_queues := bt_remove ob (wk_queues w)\<rparr>)
        else service_front en ob (w\<lparr>wk_queues := bt_insert ob ?q (wk_queues w)\<rparr>))"
      using rem keeps_calm_after[OF ins service_front_calm[of "{txn}" _ en ob]] by auto
    then have "keeps_calm {txn} w (io_bind (if ?q = [] then Done ([], w\<lparr>wk_queues := bt_remove ob (wk_queues w)\<rparr>)
        else service_front en ob (w\<lparr>wk_queues := bt_insert ob ?q (wk_queues w)\<rparr>))
        (\<lambda>(ready, w). io_bind (leave_queues en txn obs w) (\<lambda>(more, w). Done (ready @ more, w))))"
      by (rule returns_seq) (auto intro!: returns_seq[OF Cons.IH] elim: calm_trans)
    then show ?thesis using Some by (simp add: Let_def)
  qed (use Cons.IH in simp)
qed simp

section \<open>Parked transactions leave\<close>

lemma toks_same: "wk_out w' = wk_out w \<Longrightarrow> wk_parked w' = wk_parked w \<Longrightarrow> wk_pending w' = wk_pending w \<Longrightarrow> wk_polls w' = wk_polls w
    \<Longrightarrow> wk_gone w' = wk_gone w \<Longrightarrow> toks w' = toks w"
  by (simp add: toks_def all_toks_def)

lemma unpark_good:
  assumes "good w" "map_of (wk_parked w) txn = Some p"
  shows "good (w\<lparr>wk_parked := bt_remove txn (wk_parked w), wk_executed := n\<rparr>)"
    "toks w = toks (w\<lparr>wk_parked := bt_remove txn (wk_parked w), wk_executed := n\<rparr>) + lv w [pk_resp p]"
proof -
  let ?w = "w\<lparr>wk_parked := bt_remove txn (wk_parked w), wk_executed := n\<rparr>"
  have "boats_wf ?w" by (rule boats_wf_same[of w]) (use assms(1) in \<open>simp_all add: good_def\<close>)
  moreover have "held ?w = held w" by (simp add: held_def fun_eq_iff)
  then have "locks ?w" using assms(1) by (auto simp: good_def locks_def holds_def)
  ultimately show "good ?w" using assms(1) by (simp add: good_def)
  have wf: "bt_wf (wk_parked w)" using assms(1) by (simp add: good_def locks_def)
  show "toks w = toks ?w + lv w [pk_resp p]"
    using mset_map_lookup[OF wf assms(2), of "\<lambda>x. pk_resp (snd x)"] by (simp add: toks_lv lv_def)
qed

lemma unpark_good':
  assumes "good w" "map_of (wk_parked w) txn = Some p"
  shows "good (w\<lparr>wk_parked := bt_remove txn (wk_parked w)\<rparr>)"
    "toks w = toks (w\<lparr>wk_parked := bt_remove txn (wk_parked w)\<rparr>) + lv w [pk_resp p]"
  using unpark_good[OF assms, of "wk_executed w"] by simp_all

text \<open>What running and failing leave: the invariant, every reply, and the parked transactions but one.\<close>

definition left :: "nat \<Rightarrow> ('c, 'v) wrk \<Rightarrow> ('c, 'v) wrk \<Rightarrow> bool" where
  "left txn w w' \<longleftrightarrow> good w' \<and> toks w' = toks w \<and> wk_gone w' = wk_gone w \<and> wk_parked w' = bt_remove txn (wk_parked w)"

lemma fail_txn_left:
  assumes "good w" "map_of (wk_parked w) txn = Some p"
  shows "returns (\<lambda>(_, w'). left txn w w') (fail_txn en txn msg w)"
proof -
  let ?w = "w\<lparr>wk_parked := bt_remove txn (wk_parked w)\<rparr>"
  note u = unpark_good'[OF assms]
  have "left txn w (emit (Reply (pk_resp p) x) w')" if c: "calm {txn} ?w w'" for w' x
  proof -
    have g: "good w'" "toks w' = toks ?w" using calm_good[OF u(1) c] by simp_all
    have k: "kept (lv w' [pk_resp p]) {#} w' (emit (Reply (pk_resp p) x) w')" by (rule kept_emit)
    have "lv w' = lv w" using calm_fields[OF c] by (simp add: lv_def fun_eq_iff)
    then show ?thesis using kept_good[OF g(1) k] g(2) u(2) calm_fields[OF c] by (simp add: left_def emit_def)
  qed
  then show ?thesis using assms(2) by (auto simp: fail_txn_def intro!: returns_seq[OF leave_queues_calm])
qed

section \<open>Running whole\<close>

text \<open>A step that ends well: no panic and its postcondition.\<close>

abbreviation ends :: "('a \<Rightarrow> bool) \<Rightarrow> 'a rust io \<Rightarrow> bool" where
  "ends P p \<equiv> returns (\<lambda>r. \<exists>x. r = Ret x \<and> P x) p"

lemma ends_bind: "ends P p \<Longrightarrow> (\<And>x. P x \<Longrightarrow> ends Q (f x)) \<Longrightarrow> ends Q (rio_bind p f)"
  unfolding rio_bind_def by (erule returns_seq) auto

lemma maybe_launch_fine: "good w \<Longrightarrow> \<exists>w'. maybe_launch en w = Ret w' \<and> fine w w'"
  using maybe_launch_good[of w en] by (auto simp: good_def kept_def)

lemma finish_turn:
  assumes g: "good w0" "map_of (wk_parked w0) txn = None" and p: "distinct obs" "\<And>ob. ob \<in> set obs \<Longrightarrow> held w0 ob txn"
    and k: "kept A {#} w0 w"
  shows "ends (\<lambda>(_, w'). good w' \<and> toks w' = toks w0 + A \<and> wk_gone w' = wk_gone w0 \<and> wk_parked w' = wk_parked w0)
    (io_bind (release_heads en obs w) (\<lambda>(ready, w). case maybe_launch en w of Panic \<Rightarrow> Done Panic | Ret w \<Rightarrow> Done (Ret (ready, w))))"
proof -
  have k': "good w" "toks w = toks w0 + A" using kept_good[OF g(1) k] by simp_all
  have park: "wk_parked w = wk_parked w0" "wk_gone w = wk_gone w0" using k by (simp_all add: kept_def steady_def)
  have held: "held w ob txn" if "ob \<in> set obs" for ob
    using p(2)[OF that] steady_held[of A "{#}" w0 w] k by (simp add: kept_def)
  have last: "\<exists>w''. maybe_launch en w' = Ret w'' \<and> good w'' \<and> toks w'' = toks w0 + A \<and> wk_gone w'' = wk_gone w0 \<and> wk_parked w'' = wk_parked w0"
    if c: "calm {txn} w w'" for w'
  proof -
    have c': "good w'" "toks w' = toks w" using calm_good[OF k'(1) c] g(2) park by simp_all
    obtain w'' where l: "maybe_launch en w' = Ret w''" "fine w' w''" using maybe_launch_fine[OF c'(1)] by blast
    have "wk_parked w'' = wk_parked w'" "wk_gone w'' = wk_gone w'" using l(2) by (simp_all add: kept_def steady_def)
    then show ?thesis using l(1) kept_good[OF c'(1) l(2)] c'(2) k'(2) park calm_fields[OF c] by simp
  qed
  show ?thesis
    by (rule returns_seq[OF release_heads_calm[OF p(1) held]]) (auto dest!: last)
qed

lemma run_and_complete_left:
  assumes "good w" "map_of (wk_parked w) txn = Some p" "pk_acquired p = length (pk_participants p)"
  shows "ends (\<lambda>(_, w'). left txn w w') (run_and_complete en txn w)"
proof -
  let ?obs = "pk_participants p"
  let ?w0 = "w\<lparr>wk_parked := bt_remove txn (wk_parked w), wk_executed := wk_executed w + 1\<rparr>"
  note u = unpark_good[OF assms(1,2), of "wk_executed w + 1"]
  have req: "request_ok p" and held: "\<forall>ob \<in> set ?obs. held w ob txn"
    using assms by (auto simp: good_def locks_def holds_def)
  have held0: "held ?w0 ob txn" if "ob \<in> set ?obs" for ob using held that by (simp add: held_def)
  have lv0: "lv (w\<lparr>wk_parked := x, wk_executed := y\<rparr>) = lv w" for x y by (simp add: lv_def fun_eq_iff)
  have fr: "returns (fine ?w0) (if wk_log_primary (settle_in ?obs ?w0) then freshen en (pk_read_only p) ?obs (settle_in ?obs ?w0) else Done (settle_in ?obs ?w0))"
    using returns_conseq[OF freshen_fine fine_trans[OF fine_settle_in]] by (auto simp: fine_settle_in)
  have run: "ends (\<lambda>(_, w'). left txn w w') (case apply_txn en ?obs (pk_ops p) (pk_read_only p) (pk_cap p) w1 of
             Panic \<Rightarrow> Done Panic
           | Ret (res, w) \<Rightarrow>
               rio_bind (complete en txn p res w) (\<lambda>w.
               io_bind (release_heads en ?obs w) (\<lambda>(ready, w).
               case maybe_launch en w of Panic \<Rightarrow> Done Panic | Ret w \<Rightarrow> Done (Ret (ready, w)))))" if f: "fine ?w0 w1" for w1
  proof -
    have "applied_ok ?obs w1 (apply_txn en ?obs (pk_ops p) (pk_read_only p) (pk_cap p) w1)"
      by (rule apply_ok) (use req in \<open>auto simp: request_ok_def\<close>)
    then obtain res w2 where a: "apply_txn en ?obs (pk_ops p) (pk_read_only p) (pk_cap p) w1 = Ret (res, w2)" "fine w1 w2"
      and ch': "\<forall>rs changed. res = Inr (rs, changed) \<longrightarrow> live_all (set ?obs) w2 \<and> set changed \<subseteq> set ?obs"
      unfolding applied_ok_def by blast
    have ch: "live_all (set changed) w2" if "res = Inr (rs, changed)" for rs changed
      by (rule live_all_mono[of "set ?obs"]) (simp_all add: ch'[rule_format, OF that])
    have f2: "fine ?w0 w2" by (rule fine_trans[OF f a(2)])
    have c: "ends (kept (lv ?w0 [pk_resp p]) {#} ?w0) (complete en txn p res w2)"
    proof (rule returns_conseq)
      show "ends (kept (lv ?w0 [pk_resp p]) {#} w2) (complete en txn p res w2)"
        using complete_kept[OF req ch, of res] unfolding kept_lv[OF f2] .
    qed (use fine_trans[OF f2] in blast)
    have fin: "ends (\<lambda>(_, w'). left txn w w') (io_bind (release_heads en ?obs w3) (\<lambda>(ready, w).
               case maybe_launch en w of Panic \<Rightarrow> Done Panic | Ret w \<Rightarrow> Done (Ret (ready, w))))"
      if "kept (lv ?w0 [pk_resp p]) {#} ?w0 w3" for w3
      by (rule returns_conseq[OF finish_turn[OF u(1) _ _ held0 that]]) (use req u(2) in \<open>auto simp: left_def lv0 request_ok_def\<close>)
    show ?thesis unfolding a(1) using ends_bind[OF c fin] by simp
  qed
  have ne: "\<not> pk_acquired p \<noteq> length (pk_participants p)" using assms(3) by simp
  show ?thesis
    unfolding run_and_complete_def assms(2) option.case Let_def if_not_P[OF ne] by (rule returns_seq[OF fr run])
qed

section \<open>Admission\<close>

lemma upd_parked_good:
  assumes "good w" "map_of (wk_parked w) txn = Some p" "request_ok (f p)" "holds w txn (f p)" "pk_resp (f p) = pk_resp p"
  shows "good (upd_parked txn f w)" "toks (upd_parked txn f w) = toks w"
proof -
  let ?w = "w\<lparr>wk_parked := bt_insert txn (f p) (wk_parked w)\<rparr>"
  have u: "upd_parked txn f w = ?w" using assms(2) by (simp add: upd_parked_def)
  have wf: "bt_wf (wk_parked w)" using assms(1) by (simp add: good_def locks_def)
  have "boats_wf ?w" by (rule boats_wf_same[of w]) (use assms(1) in \<open>simp_all add: good_def\<close>)
  moreover have "held ?w = held w" by (simp add: held_def fun_eq_iff)
  then have "locks ?w" using assms wf by (auto simp: good_def locks_def holds_def)
  ultimately show "good (upd_parked txn f w)" using assms(1) u by (simp add: good_def)
  have "mset (map (\<lambda>x. pk_resp (snd x)) (wk_parked ?w)) = mset (map (\<lambda>x. pk_resp (snd x)) (wk_parked w))"
    using mset_map_insert[OF wf, of "\<lambda>x. pk_resp (snd x)"] mset_map_lookup[OF wf assms(2), of "\<lambda>x. pk_resp (snd x)"] assms(5) by simp
  then show "toks (upd_parked txn f w) = toks w" unfolding u toks_def all_toks_def by simp
qed

text \<open>What admission keeps: everything but the marks of its own transaction.\<close>

definition admits :: "('c, 'v) wrk \<Rightarrow> ('c, 'v) wrk \<Rightarrow> bool" where
  "admits w w' \<longleftrightarrow> good w' \<and> toks w' = toks w \<and> wk_gone w' = wk_gone w \<and> wk_needs_service w' = wk_needs_service w \<and> map fst (wk_parked w') = map fst (wk_parked w)"

lemma admits_trans: "admits u v \<Longrightarrow> admits v w \<Longrightarrow> admits u w"
  by (simp add: admits_def)

lemma calm_admits: "good w \<Longrightarrow> calm {} w w' \<Longrightarrow> admits w w'"
  using calm_good[of w "{}" w'] calm_fields[of "{}" w w'] by (simp add: admits_def)

lemma keys_same: "bt_wf m \<Longrightarrow> map_of m k = Some x \<Longrightarrow> map fst (bt_insert k v m) = map fst m"
proof (induction m)
  case (Cons y m)
  obtain k' v' where y: "y = (k', v')" by force
  have wf: "bt_wf m" and lt: "\<forall>z \<in> fst ` set m. k' < z" using Cons.prems(1) y by (auto simp: bt_wf_def)
  show ?case
  proof (cases "k = k'")
    case False
    then have x: "map_of m k = Some x" using Cons.prems(2) y by simp
    then have "k \<in> fst ` set m" by (metis map_of_eq_None_iff option.distinct(1))
    then have "k' < k" using lt by blast
    then show ?thesis using Cons.IH[OF wf x] y by (auto dest: less_asym)
  qed (simp add: y)
qed simp

lemma upd_parked_admits:
  assumes "good w" "map_of (wk_parked w) txn = Some p" "request_ok (f p)" "holds w txn (f p)" "pk_resp (f p) = pk_resp p"
  shows "admits w (upd_parked txn f w)"
proof -
  have "bt_wf (wk_parked w)" using assms(1) by (simp add: good_def locks_def)
  then show ?thesis
    using upd_parked_good[of w txn p f, OF assms] keys_same[of "wk_parked w" txn p "f p"] assms(2) by (simp add: admits_def upd_parked_def)
qed

lemma parked_ok: "good w \<Longrightarrow> map_of (wk_parked w) txn = Some p \<Longrightarrow> request_ok p \<and> holds w txn p"
  by (auto simp: good_def locks_def)

lemma spawn_admits:
  assumes "good w" "map_of (wk_parked w) txn = Some p" "request_ok (f p)" "holds w txn (f p)" "pk_resp (f p) = pk_resp p" "ev_resps e = []"
  shows "admits w (emit e (upd_parked txn f w))"
  using upd_parked_admits[of w txn p f, OF assms(1-5)] calm_admits[OF _ calm_emit[OF assms(6)]] admits_trans by (auto simp: admits_def)

lemma start_admits:
  assumes "good w" "map_of (wk_parked w) txn = Some p"
  shows "admits w (start_activation txn ob w)" "admits w (start_take txn ob w)"
proof -
  have r: "admits w w" using assms(1) by (simp add: admits_def)
  have q: "request_ok (p\<lparr>pk_activating := b\<rparr>)" "holds w txn (p\<lparr>pk_activating := b\<rparr>)"
     "request_ok (p\<lparr>pk_taking := b, pk_crossed := b\<rparr>)" "holds w txn (p\<lparr>pk_taking := b, pk_crossed := b\<rparr>)" for b
    using parked_ok[OF assms] by (simp_all add: request_ok_def holds_def)
  show "admits w (start_activation txn ob w)" "admits w (start_take txn ob w)"
    using assms(2) r spawn_admits[of w txn p "\<lambda>p. p\<lparr>pk_activating := True\<rparr>", OF assms q(1,2)]
      spawn_admits[of w txn p "\<lambda>p. p\<lparr>pk_taking := True, pk_crossed := True\<rparr>", OF assms q(3,4)]
    by (simp_all add: start_activation_def start_take_def)
qed

lemma reconcile_calm: "calm E w (snd (reconcile_owner ob w))"
  by (simp add: reconcile_owner_def Let_def)

lemma reconcile_parked: "wk_parked (snd (reconcile_owner ob w)) = wk_parked w"
  by (simp add: reconcile_owner_def Let_def)

text \<open>Joining a queue: whoever is at its head stays there.\<close>

lemma enqueue_calm: "calm E w (w\<lparr>wk_queues := bt_insert ob (if TxnEntry t \<in> set (queue_of w ob) then queue_of w ob else queue_of w ob @ [TxnEntry t]) (wk_queues w)\<rparr>)"
  by (rule calm_requeue) (auto simp: held_def queue_of_def)

lemma acquire_admits:
  assumes "good w" "map_of (wk_parked w) txn = Some p" "drop (pk_acquired p) (pk_participants p) = obs" "acquire txn obs w = (go, w')"
  shows "admits w w' \<and> (go \<longrightarrow> (\<exists>p'. map_of (wk_parked w') txn = Some p' \<and> pk_acquired p' = length (pk_participants p')))"
  using assms
proof (induction obs arbitrary: w p)
  case Nil
  then have "pk_acquired p = length (pk_participants p)" using parked_ok[OF Nil.prems(1,2)] by (simp add: holds_def)
  then show ?case using Nil by (simp add: admits_def)
next
  case (Cons ob obs)
  obtain mine w1 where 1: "reconcile_owner ob w = (mine, w1)" by force
  have a1: "admits w w1" using calm_admits[OF Cons.prems(1) reconcile_calm, of ob] 1 by simp
  have p1: "map_of (wk_parked w1) txn = Some p" using reconcile_parked[of ob w] 1 Cons.prems(2) by simp
  have g1: "good w1" using a1 by (simp add: admits_def)
  show ?case
  proof (cases mine)
    case False
    then show ?thesis using Cons.prems(4) 1 admits_trans[OF a1 start_admits(2)[OF g1 p1]] by auto
  next
    case True
    let ?q = "if TxnEntry txn \<in> set (queue_of w1 ob) then queue_of w1 ob else queue_of w1 ob @ [TxnEntry txn]"
    let ?w2 = "w1\<lparr>wk_queues := bt_insert ob ?q (wk_queues w1)\<rparr>"
    have a2: "admits w ?w2" by (rule admits_trans[OF a1 calm_admits[OF g1 enqueue_calm]])
    have p2: "map_of (wk_parked ?w2) txn = Some p" using p1 by simp
    have g2: "good ?w2" using a2 by (simp add: admits_def)
    consider (wait) "hd ?q \<noteq> TxnEntry txn" | (cold) "hd ?q = TxnEntry txn" "map_of (wk_live ?w2) ob = None"
      | (on) "hd ?q = TxnEntry txn" "map_of (wk_live ?w2) ob \<noteq> None" by blast
    then show ?thesis
    proof cases
      case wait
      then show ?thesis using Cons.prems(4) 1 True a2 by (auto simp: Let_def)
    next
      case cold
      then show ?thesis using Cons.prems(4) 1 True admits_trans[OF a2 start_admits(1)[OF g2 p2]] by (auto simp: Let_def)
    next
      case on
      let ?f = "\<lambda>p. p\<lparr>pk_acquired := pk_acquired p + 1\<rparr>"
      have n: "pk_acquired p < length (pk_participants p)" "pk_participants p ! pk_acquired p = ob"
        using Cons.prems(3) by (metis drop_all list.distinct(1) not_le, rule nth_via_drop)
      have "?q \<noteq> []" by auto
      then have h: "held ?w2 ob txn" using on(1) by (cases ?q) (simp_all add: held_def)
      have f: "request_ok (?f p)" "holds ?w2 txn (?f p)"
        using parked_ok[OF g2 p2] n h by (auto simp: request_ok_def holds_def take_Suc_conv_app_nth)
      have a3: "admits w (upd_parked txn ?f ?w2)" by (rule admits_trans[OF a2 upd_parked_admits[of _ txn p ?f, OF g2 p2 f]]) simp
      have p3: "map_of (wk_parked (upd_parked txn ?f ?w2)) txn = Some (?f p)" using p2 by (simp add: upd_parked_def)
      have d: "drop (pk_acquired (?f p)) (pk_participants (?f p)) = obs"
        using Cons.prems(3) by (simp add: drop_Suc) (metis drop_tl list.sel(3) tl_drop)
      have run: "acquire txn obs (upd_parked txn ?f ?w2) = (go, w')"
        using Cons.prems(4) unfolding acquire.simps 1 Let_def prod.case if_P[OF True] on(1) simp_thms(6) if_False not_True_eq_False if_not_P[OF on(2)] .
      show ?thesis using Cons.IH[OF _ p3 d run] a3 admits_trans[OF a3] by (auto simp: admits_def)
    qed
  qed
qed

lemma advance_admits:
  assumes "good w" "advance txn w = (go, w')"
  shows "admits w w'" "go \<Longrightarrow> \<exists>p'. map_of (wk_parked w') txn = Some p' \<and> pk_acquired p' = length (pk_participants p')"
proof -
  have "admits w w' \<and> (go \<longrightarrow> (\<exists>p'. map_of (wk_parked w') txn = Some p' \<and> pk_acquired p' = length (pk_participants p')))"
  proof (cases "map_of (wk_parked w) txn")
    case None
    then show ?thesis using assms by (simp add: advance_def admits_def)
  next
    case (Some p)
    have "acquire txn (drop (pk_acquired p) (pk_participants p)) w = (go, w')" using assms(2) Some by (simp add: advance_def)
    then show ?thesis by (rule acquire_admits[OF assms(1) Some refl])
  qed
  then show "admits w w'" "go \<Longrightarrow> \<exists>p'. map_of (wk_parked w') txn = Some p' \<and> pk_acquired p' = length (pk_participants p')" by auto
qed

end
