(* ===== verification/Loop_Pump.thy ===== *)
theory Loop_Pump
  imports Loop_Turn
begin

text \<open>
  The pump under the invariant of the loop: with any fuel and any answers of the store it does not panic, keeps
  the invariant and every reply; against any store, some fuel is enough.
\<close>

section \<open>Safety\<close>

text \<open>A result within fuel: no panic, and the postcondition of the state.\<close>

definition sound :: "(('c, 'v) wrk \<Rightarrow> bool) \<Rightarrow> ('c, 'v) wrk rust option \<Rightarrow> bool" where
  "sound P r \<longleftrightarrow> (case r of None \<Rightarrow> True | Some Panic \<Rightarrow> False | Some (Ret w) \<Rightarrow> P w)"

lemma sound_simps [simp]: "sound P None" "\<not> sound P (Some Panic)" "sound P (Some (Ret w)) = P w"
  by (simp_all add: sound_def)

definition kept_all :: "('c, 'v) wrk \<Rightarrow> ('c, 'v) wrk \<Rightarrow> bool" where
  "kept_all w w' \<longleftrightarrow> good w' \<and> toks w' = toks w \<and> wk_gone w' = wk_gone w"

lemma kept_all_refl: "good w \<Longrightarrow> kept_all w w"
  by (simp add: kept_all_def)

lemma kept_all_trans: "kept_all u v \<Longrightarrow> kept_all v w \<Longrightarrow> kept_all u w"
  by (simp add: kept_all_def)

lemma kept_all_good: "kept_all w w' \<Longrightarrow> good w'"
  by (simp add: kept_all_def)

lemma admits_kept: "admits w w' \<Longrightarrow> kept_all w w'"
  by (simp add: admits_def kept_all_def)

lemma left_kept: "left txn w w' \<Longrightarrow> kept_all w w'"
  by (simp add: left_def kept_all_def)

lemma fine_kept: "good w \<Longrightarrow> fine w w' \<Longrightarrow> kept_all w w'"
  using kept_good[of w "{#}" "{#}" w'] by (simp add: kept_all_def kept_def steady_def)

lemma calm_kept: "good w \<Longrightarrow> calm {} w w' \<Longrightarrow> kept_all w w'"
  using calm_good[of w "{}" w'] calm_fields[of "{}" w w'] by (simp add: kept_all_def)

lemma fine_needs_service: "fine w (w\<lparr>wk_needs_service := x\<rparr>)"
  by (rule fine_same[OF still_updates(7)]) auto

text \<open>What one round of the pump sees after serving the flagged objects.\<close>

definition round_start :: "('c, 'v) wrk \<Rightarrow> ('c, 'v) wrk \<Rightarrow> bool" where
  "round_start w w' \<longleftrightarrow> kept_all w w' \<and> wk_needs_service w' = [] \<and> wk_parked w' = wk_parked w"

lemma serve_flagged:
  assumes "good w"
  shows "returns (\<lambda>(more, w'). round_start w w' \<and> (wk_needs_service w = [] \<longrightarrow> more = []))
    (serve_all en (remdups (sort (wk_needs_service w))) (w\<lparr>wk_needs_service := []\<rparr>))"
proof (cases "wk_needs_service w = []")
  case True
  then show ?thesis
    using fine_kept[OF assms fine_needs_service[of w "[]"]] by (simp add: round_start_def)
next
  case False
  let ?w = "w\<lparr>wk_needs_service := []\<rparr>"
  have k: "kept_all w ?w" by (rule fine_kept[OF assms fine_needs_service])
  have "round_start w w'" if c: "calm {} ?w w'" for w'
    using kept_all_trans[OF k calm_kept[OF kept_all_good[OF k] c]] calm_fields[OF c] by (simp add: round_start_def)
  then show ?thesis using False by (auto intro!: returns_conseq[OF serve_all_calm[of "{}"]])
qed

lemma pump_sound: "good w \<Longrightarrow> returns (sound (kept_all w)) (pump en n ready w)"
proof (induction n arbitrary: ready w)
  case (Suc n)
  have again: "returns (sound (kept_all w)) (pump en n r w')" if "kept_all w w'" for r w'
    by (rule returns_conseq[OF Suc.IH[OF kept_all_good[OF that]]])
       (use kept_all_trans[OF that] in \<open>auto simp: sound_def split: option.splits rust.splits\<close>)
  show ?case
    unfolding pump.simps Let_def
  proof (rule returns_seq[OF serve_flagged[OF Suc.prems]], clarify)
    fix more w1 assume r: "round_start w w1"
    then have k1: "kept_all w w1" by (simp add: round_start_def)
    show "returns (sound (kept_all w)) (if ready @ more = [] then if wk_needs_service w1 = [] then Done (Some (Ret w1)) else pump en n [] w1
       else case advance (last (ready @ more)) w1 of (go, w) \<Rightarrow>
         if go then io_bind (run_and_complete en (last (ready @ more)) w) (\<lambda>r. case r of Panic \<Rightarrow> Done (Some Panic)
             | Ret (unblocked, w) \<Rightarrow> pump en n (butlast (ready @ more) @ unblocked) w)
         else pump en n (butlast (ready @ more)) w)"
    proof (cases "ready @ more = []")
      case True
      then show ?thesis using k1 again[OF k1] by simp
    next
      case False
      obtain go w2 where a: "advance (last (ready @ more)) w1 = (go, w2)" by force
      note ad = advance_admits[OF kept_all_good[OF k1] a]
      have k2: "kept_all w w2" by (rule kept_all_trans[OF k1 admits_kept[OF ad(1)]])
      have go: "returns (sound (kept_all w)) (io_bind (run_and_complete en (last (ready @ more)) w2) (\<lambda>r. case r of Panic \<Rightarrow> Done (Some Panic)
             | Ret (unblocked, w) \<Rightarrow> pump en n (butlast (ready @ more) @ unblocked) w))" if g: go
      proof -
        obtain p where p: "map_of (wk_parked w2) (last (ready @ more)) = Some p" "pk_acquired p = length (pk_participants p)"
          using ad(2)[OF g] by blast
        show ?thesis
          by (rule returns_seq[OF run_and_complete_left[OF kept_all_good[OF k2] p]])
             (auto intro!: again kept_all_trans[OF k2 left_kept])
      qed
      show ?thesis unfolding if_not_P[OF False] a prod.case using go again[OF k2] by simp
    qed
  qed
qed simp

section \<open>Termination\<close>

text \<open>A program run against any answers: \<open>f t\<close> is what the store says to the request made at time \<open>t\<close>.\<close>

primrec served :: "(nat \<Rightarrow> req \<Rightarrow> resp) \<Rightarrow> 'a io \<Rightarrow> nat \<Rightarrow> 'a \<times> nat" where
  "served f (Done x) = (\<lambda>s. (x, s))"
| "served f (Do q c) = (\<lambda>s. served f (c (f s q)) (Suc s))"

lemma served_bind: "served f (io_bind p g) s = served f (g (fst (served f p s))) (snd (served f p s))"
  by (induction p arbitrary: s) auto

lemma returns_served: "returns P p \<Longrightarrow> P (fst (served f p s))"
  by (induction p arbitrary: s) auto

lemma served_cong: "(\<And>t. s \<le> t \<Longrightarrow> f t = g t) \<Longrightarrow> served f p s = served g p s"
proof (induction p arbitrary: s)
  case (Do q c)
  have "served f (c r) (Suc s) = served g (c r) (Suc s)" for r using Do by auto
  then show ?case using Do.prems[of s] by simp
qed simp

text \<open>In particular the answers of the in-memory store.\<close>

lemma served_run: "\<exists>f. fst (served f p t) = fst (run_io p s)"
proof (induction p arbitrary: s t)
  case (Do q c)
  let ?r = "fst (serve q s)"
  obtain f where f: "fst (served f (c ?r) (Suc t)) = fst (run_io (c ?r) (snd (serve q s)))" using Do by blast
  have "served (f(t := \<lambda>_. ?r)) (c ?r) (Suc t) = served f (c ?r) (Suc t)" by (rule served_cong) simp
  then have "fst (served (f(t := \<lambda>_. ?r)) (Do q c) t) = fst (run_io (Do q c) s)" using f by simp
  then show ?case by blast
qed simp

text \<open>Each round runs a transaction, or empties the flagged objects, or drops a ready transaction.\<close>

lemma pump_answers: "good w \<Longrightarrow> \<exists>n. fst (served f (pump en n ready w) s) \<noteq> None"
proof (induction "(length (wk_parked w), length (wk_needs_service w), length ready)" arbitrary: w ready s
    rule: wf_induct_rule[OF wf_lex_prod[OF wf_less_than wf_lex_prod[OF wf_less_than wf_less_than]]])
  case (1 w ready s)
  let ?p = "serve_all en (remdups (sort (wk_needs_service w))) (w\<lparr>wk_needs_service := []\<rparr>)"
  obtain more w1 s1 where srv: "served f ?p s = ((more, w1), s1)" by (cases "served f ?p s") auto
  have r: "round_start w w1" and m: "wk_needs_service w = [] \<Longrightarrow> more = []"
    using returns_served[where f = f and s = s, OF serve_flagged[OF 1(2), of en]] srv by auto
  have k1: "kept_all w w1" and ns: "wk_needs_service w1 = []" and pk: "wk_parked w1 = wk_parked w"
    using r by (simp_all add: round_start_def)
  show ?case
  proof (cases "ready @ more = []")
    case True
    have "fst (served f (pump en (Suc 0) ready w) s) \<noteq> None"
      using True ns by (simp add: served_bind srv Let_def)
    then show ?thesis by blast
  next
    case False
    let ?t = "last (ready @ more)" and ?r = "butlast (ready @ more)"
    obtain go w2 where a: "advance ?t w1 = (go, w2)" by force
    note ad = advance_admits[OF kept_all_good[OF k1] a]
    have g2: "good w2" and ns2: "wk_needs_service w2 = []" using ad(1) ns by (simp_all add: admits_def)
    have len: "length (wk_parked w2) = length (wk_parked w)"
      using ad(1) pk by (metis admits_def length_map)
    show ?thesis
    proof (cases go)
      case no: False
      have "\<exists>n. fst (served f (pump en n ?r w2) s1) \<noteq> None"
      proof (rule 1(1)[OF _ g2])
        show "((length (wk_parked w2), length (wk_needs_service w2), length ?r), length (wk_parked w), length (wk_needs_service w), length ready)
            \<in> less_than <*lex*> less_than <*lex*> less_than"
          using len ns2 False m by (cases "wk_needs_service w = []") (auto simp: length_greater_0_conv[symmetric] simp del: length_greater_0_conv)
      qed
      then obtain n where "fst (served f (pump en n ?r w2) s1) \<noteq> None" ..
      then have "fst (served f (pump en (Suc n) ready w) s) \<noteq> None"
        unfolding pump.simps Let_def served_bind srv fst_conv snd_conv prod.case if_not_P[OF False] a using no by simp
      then show ?thesis by blast
    next
      case True
      obtain p where p: "map_of (wk_parked w2) ?t = Some p" "pk_acquired p = length (pk_participants p)" using ad(2)[OF True] by blast
      obtain r s2 where run: "served f (run_and_complete en ?t w2) s1 = (r, s2)" by force
      obtain un w3 where r: "r = Ret (un, w3)" and l: "left ?t w2 w3"
        using returns_served[where f = f and s = s1, OF run_and_complete_left[OF g2 p, of en]] run by auto
      have "length (wk_parked w3) < length (wk_parked w2)"
        using l p(1) unfolding left_def bt_remove_def by (auto intro!: length_filter_less dest!: map_of_SomeD)
      then have "\<exists>n. fst (served f (pump en n (?r @ un) w3) s2) \<noteq> None"
        using l len by (intro 1(1)) (auto simp: left_def)
      then obtain n where "fst (served f (pump en n (?r @ un) w3) s2) \<noteq> None" ..
      then have "fst (served f (pump en (Suc n) ready w) s) \<noteq> None"
        unfolding pump.simps Let_def served_bind srv fst_conv snd_conv prod.case if_not_P[OF False] a if_P[OF True] run r rust.case .
      then show ?thesis by blast
    qed
  qed
qed

end
