(* ===== verification/Loop_Handle.thy ===== *)
theory Loop_Handle
  imports Loop_Pump
begin

text \<open>
  Every message of the worker under the invariant of the loop. A message is well formed when the rest of the
  program can have sent it: a submission is what the router builds, and a boat's report what the shipping task
  returns when the log is primary.
\<close>

section \<open>Messages and what they bring\<close>

definition msg_ok :: "'v msg \<Rightarrow> bool" where
  "msg_ok m \<longleftrightarrow> (case m of
     Submit obs ops read_only poll cap optimistic resp \<Rightarrow>
       distinct obs \<and> obs \<noteq> [] \<and> op_object ` set ops \<subseteq> set obs \<and> (poll \<noteq> None \<longrightarrow> ops \<noteq> [])
   | ShipDone obs landed unpromoted rebased \<Rightarrow>
       unpromoted = [] \<and> (case rebased of Some ob \<Rightarrow> \<not> landed \<and> ob \<in> set obs | None \<Rightarrow> True)
   | _ \<Rightarrow> True)"

definition submitted :: "'v msg \<Rightarrow> nat list" where
  "submitted m = (case m of Submit obs ops read_only poll cap optimistic resp \<Rightarrow> [resp] | _ \<Rightarrow> [])"

definition cancelled :: "('c, 'v) wrk \<Rightarrow> 'v msg \<Rightarrow> nat list" where
  "cancelled w m = (case m of CancelPoll ob conn frame \<Rightarrow>
       (case map_of (wk_polls w) ob of
          Some ps \<Rightarrow> map pp_resp (filter (\<lambda>p. pp_conn p = conn \<and> pp_frame p = frame) ps) | None \<Rightarrow> [])
     | _ \<Rightarrow> [])"

text \<open>After a message: the invariant, and every channel accounted for.\<close>

definition handled :: "'v msg \<Rightarrow> ('c, 'v) wrk \<Rightarrow> ('c, 'v) wrk \<Rightarrow> bool" where
  "handled m w w' \<longleftrightarrow> good w' \<and> wk_gone w' = wk_gone w \<and> toks w' + lv w (cancelled w m) = toks w + lv w (submitted m)"

lemma kept_handled: "kept_all w w' \<Longrightarrow> submitted m = [] \<Longrightarrow> cancelled w m = [] \<Longrightarrow> handled m w w'"
  by (simp add: kept_all_def handled_def)

text \<open>A handler that ends in the pump, or without it: safe, and with enough fuel it answers.\<close>

definition settles :: "(('c, 'v) wrk \<Rightarrow> bool) \<Rightarrow> (nat \<Rightarrow> ('c, 'v) wrk rust option io) \<Rightarrow> bool" where
  "settles P h \<longleftrightarrow> (\<forall>n. returns (sound P) (h n)) \<and> (\<forall>f s. \<exists>n. fst (served f (h n) s) \<noteq> None)"

lemma settles_done: "P w \<Longrightarrow> settles P (\<lambda>n. Done (Some (Ret w)))"
  by (simp add: settles_def)

lemma settles_conseq: "settles P h \<Longrightarrow> (\<And>w. P w \<Longrightarrow> Q w) \<Longrightarrow> settles Q h"
proof -
  assume h: "settles P h" and PQ: "\<And>w. P w \<Longrightarrow> Q w"
  have "sound P r \<Longrightarrow> sound Q r" for r using PQ by (auto simp: sound_def split: option.splits rust.splits)
  then show ?thesis using h unfolding settles_def by (blast intro: returns_conseq)
qed

lemma settles_pump: "good w \<Longrightarrow> settles (kept_all w) (\<lambda>n. pump en n ready w)"
  unfolding settles_def using pump_sound pump_answers by blast

lemma settles_bind: "returns P p \<Longrightarrow> (\<And>x. P x \<Longrightarrow> settles Q (\<lambda>n. h x n)) \<Longrightarrow> settles Q (\<lambda>n. io_bind p (\<lambda>x. h x n))"
proof -
  assume p: "returns P p" and h: "\<And>x. P x \<Longrightarrow> settles Q (\<lambda>n. h x n)"
  have "\<exists>n. fst (served f (io_bind p (\<lambda>x. h x n)) s) \<noteq> None" for f s
    using h[OF returns_served[where f = f and s = s, OF p]] by (simp add: settles_def served_bind)
  moreover have "returns (sound Q) (io_bind p (\<lambda>x. h x n))" for n
    by (rule returns_seq[OF p]) (use h in \<open>simp add: settles_def\<close>)
  ultimately show ?thesis by (simp add: settles_def)
qed

lemma settles_after: "kept_all w w1 \<Longrightarrow> settles (kept_all w1) h \<Longrightarrow> settles (kept_all w) h"
  by (erule settles_conseq) (rule kept_all_trans)

lemma pump_after: "kept_all w w1 \<Longrightarrow> settles (kept_all w) (\<lambda>n. pump en n ready w1)"
  by (rule settles_after, assumption) (rule settles_pump, erule kept_all_good)

section \<open>Submission\<close>

lemma submit_good:
  assumes "good w" "msg_ok (Submit obs ops read_only poll cap optimistic resp)"
  shows "good (submit_txn obs ops read_only poll cap optimistic resp w)"
    "toks (submit_txn obs ops read_only poll cap optimistic resp w) = toks w + lv w [resp]"
proof -
  let ?t = "wk_next_txn w" and ?w = "submit_txn obs ops read_only poll cap optimistic resp w"
  have wf: "bt_wf (wk_parked w)" using assms(1) by (simp add: good_def locks_def)
  have fresh: "map_of (wk_parked w) ?t = None"
    using assms(1) by (cases "map_of (wk_parked w) ?t") (auto simp: good_def locks_def)
  have "boats_wf ?w" by (rule boats_wf_same[of w]) (use assms(1) in \<open>simp_all add: good_def submit_txn_def\<close>)
  moreover have "held ?w = held w" by (simp add: held_def fun_eq_iff submit_txn_def)
  then have "locks ?w"
    using assms wf fresh by (auto simp: good_def locks_def holds_def submit_txn_def request_ok_def msg_ok_def less_Suc_eq)
  ultimately show "good ?w" using assms(1) by (simp add: good_def submit_txn_def)
  show "toks ?w = toks w + lv w [resp]"
    using mset_map_insert[OF wf, of "\<lambda>x. pk_resp (snd x)" ?t] bt_remove_absent[OF fresh] by (simp add: toks_lv lv_def submit_txn_def)
qed

section \<open>Takes and deeds\<close>

lemma enqueue_take_calm:
  "keeps_calm {} w (enqueue_take en ob taker resp w)"
proof -
  let ?q = "queue_of w ob @ [TakeEntry taker resp]"
  have q: "(case map_of (wk_queues w) ob of Some q \<Rightarrow> q | None \<Rightarrow> []) @ [TakeEntry taker resp] = ?q" by (simp add: queue_of_def)
  have c: "calm {} w (w\<lparr>wk_queues := bt_insert ob ?q (wk_queues w)\<rparr>)"
    by (rule calm_requeue) (auto simp: held_def queue_of_def)
  have "keeps_calm {} w (service_front en ob (w\<lparr>wk_queues := bt_insert ob ?q (wk_queues w)\<rparr>))"
    by (rule keeps_calm_after[OF c service_front_calm])
  then have "keeps_calm {} w (io_bind (service_front en ob (w\<lparr>wk_queues := bt_insert ob ?q (wk_queues w)\<rparr>)) (\<lambda>(ready, w). Done (Some ready, w)))"
    by (rule returns_seq) auto
  then show ?thesis unfolding enqueue_take_def Let_def q using c by (simp only: split: if_split) simp
qed

lemma long_here_calm: "calm E w (long_here ob w)"
  by (simp add: long_here_def split: option.split)

lemma handle_take_calm: "keeps_calm {} w (handle_take en ob taker resp w)"
proof -
  have heal: "keeps_calm {} w (case g of
            Some g \<Rightarrow> io_bind (admit en ob (own_deed (wk_id w) g) w) (\<lambda>(acc, w). Done (acc, if acc \<and> t then long_here ob w else w))
          | None \<Rightarrow> Done (False, w))" for g t
    by (auto intro!: returns_seq[OF admit_calm] calm_trans[OF _ long_here_calm] split: option.split)
  have rest: "keeps_calm {} w (if adopted then enqueue_take en ob taker resp w1 else Done (None, emit (TakeReply resp x) w1))"
    if "calm {} w w1" for w1 adopted x
    using keeps_calm_after[OF that enqueue_take_calm] calm_trans[OF that calm_emit] by simp
  show ?thesis
    unfolding handle_take_def
    by (auto simp: enqueue_take_calm calm_emit intro!: returns_after returns_seq[OF heal] rest)
qed

lemma handle_adopt_calm: "returns (\<lambda>w'. calm {} w w') (handle_adopt en ob tm w)"
  unfolding handle_adopt_def by (rule returns_seq[OF admit_calm]) auto

section \<open>Answers to the tasks\<close>

lemma flag_good:
  assumes "good w" "map_of (wk_parked w) txn = Some p"
  shows "kept_all w (upd_parked txn (\<lambda>p. p\<lparr>pk_activating := b\<rparr>) w)" "kept_all w (upd_parked txn (\<lambda>p. p\<lparr>pk_taking := b\<rparr>) w)"
proof -
  have q: "request_ok (p\<lparr>pk_activating := b\<rparr>)" "holds w txn (p\<lparr>pk_activating := b\<rparr>)"
     "request_ok (p\<lparr>pk_taking := b\<rparr>)" "holds w txn (p\<lparr>pk_taking := b\<rparr>)"
    using parked_ok[OF assms] by (simp_all add: request_ok_def holds_def)
  show "kept_all w (upd_parked txn (\<lambda>p. p\<lparr>pk_activating := b\<rparr>) w)" "kept_all w (upd_parked txn (\<lambda>p. p\<lparr>pk_taking := b\<rparr>) w)"
    using admits_kept[OF upd_parked_admits[of w txn p "\<lambda>p. p\<lparr>pk_activating := b\<rparr>", OF assms q(1,2)]]
      admits_kept[OF upd_parked_admits[of w txn p "\<lambda>p. p\<lparr>pk_taking := b\<rparr>", OF assms q(3,4)]] by simp_all
qed

lemma fail_txn_kept: "good w \<Longrightarrow> returns (\<lambda>(_, w'). kept_all w w') (fail_txn en txn msg w)"
proof (cases "map_of (wk_parked w) txn")
  case (Some p)
  then show "good w \<Longrightarrow> ?thesis"
    by (intro returns_conseq[OF fail_txn_left]) (auto intro: left_kept)
qed (simp add: fail_txn_def kept_all_refl)

lemma fail_then_pump: "kept_all w w1 \<Longrightarrow> settles (kept_all w) (\<lambda>n. io_bind (fail_txn en txn msg w1) (\<lambda>(ready, w). pump en n ready w))"
proof -
  assume k: "kept_all w w1"
  have "settles (kept_all w1) (\<lambda>n. io_bind (fail_txn en txn msg w1) (\<lambda>x. case x of (ready, w) \<Rightarrow> pump en n ready w))"
    by (rule settles_bind[OF fail_txn_kept[OF kept_all_good[OF k]]]) (auto intro: pump_after)
  then show ?thesis using settles_after[OF k] by simp
qed

lemma set_insert_sub: "set (bt_insert k v m) \<subseteq> insert (k, v) (set m)"
  by (induction m rule: bt_insert.induct) auto

lemma boats_wf_manifest:
  assumes "boats_wf w" "0 < m_page_size m"
  shows "boats_wf (w\<lparr>wk_manifests := bt_insert ob m (wk_manifests w)\<rparr>)"
proof -
  let ?w = "w\<lparr>wk_manifests := bt_insert ob m (wk_manifests w)\<rparr>"
  have "\<forall>x \<in> set (bt_insert ob m (wk_manifests w)). 0 < m_page_size (snd x)"
    using assms set_insert_sub[of ob m "wk_manifests w"] by (auto simp: boats_wf_def)
  moreover have "counted ?w = counted w" "pending_objects ?w = pending_objects w" by (simp_all add: counted_def pending_objects_def)
  ultimately show ?thesis using assms(1) unfolding boats_wf_def by (elim conjE, intro conjI) simp_all
qed

text \<open>An image that arrives becomes a connection and a baseline.\<close>

lemma fine_field:
  "fine w (w\<lparr>wk_live := bt_insert ob c (wk_live w)\<rparr>)" "fine w (w\<lparr>wk_log_seq := x\<rparr>)" "fine w (w\<lparr>wk_disk := d\<rparr>)"
  "0 < m_page_size m \<Longrightarrow> fine w (w\<lparr>wk_manifests := bt_insert ob m (wk_manifests w)\<rparr>)" "fine w (w\<lparr>wk_inflight := b\<rparr>)"
  "set mm \<subseteq> set (wk_manifests w) \<Longrightarrow> fine w (w\<lparr>wk_manifests := mm\<rparr>)"
proof -
  show "fine w (w\<lparr>wk_live := bt_insert ob c (wk_live w)\<rparr>)" by (rule fine_same[OF still_updates(2)]) auto
  show "fine w (w\<lparr>wk_log_seq := x\<rparr>)" by (rule fine_same[OF still_updates(4)]) auto
  show "fine w (w\<lparr>wk_disk := d\<rparr>)" by (rule fine_same[OF still_updates(3)]) auto
  show "fine w (w\<lparr>wk_inflight := b\<rparr>)" by (rule fine_same[OF still_updates(9)]) auto
  show "0 < m_page_size m \<Longrightarrow> fine w (w\<lparr>wk_manifests := bt_insert ob m (wk_manifests w)\<rparr>)"
    using still_updates(5)[of w] boats_wf_manifest[of w m ob] by (simp add: kept_def)
  show "set mm \<subseteq> set (wk_manifests w) \<Longrightarrow> fine w (w\<lparr>wk_manifests := mm\<rparr>)"
    using still_updates(5)[of w mm] boats_wf_same[of w "w\<lparr>wk_manifests := mm\<rparr>"] by (simp add: kept_def)
qed

lemma activate_fine:
  assumes "activate en ob img chain w = Inr w'"
  shows "fine w w'"
proof (cases "owns w ob \<and> map_of (wk_live w) ob = None")
  case True
  then obtain c where c: "en_open en img = Inr c" using assms by (cases "en_open en img") (auto simp: activate_def materialize_def)
  let ?w1 = "w\<lparr>wk_live := bt_insert ob c (wk_live w)\<rparr>"
  let ?w2 = "if wk_log_primary ?w1 then ?w1\<lparr>wk_log_seq := bt_insert ob (ucast chain) (wk_log_seq ?w1)\<rparr>
       else if delta_min_bytes \<le> length img then ?w1\<lparr>wk_manifests := bt_insert ob (manifest_of (en_page_hash en) img chain) (wk_manifests ?w1)\<rparr> else ?w1"
  let ?w3 = "?w2\<lparr>wk_disk := set_live (live_path ?w2 ob) (length img) (wk_id ?w2) (wk_disk ?w2)\<rparr>"
  have "w' = enforce_disk ?w3" using assms True c by (simp add: activate_def materialize_def Let_def)
  moreover have "0 < m_page_size (manifest_of (en_page_hash en) img chain)" by (simp add: manifest_of_def Let_def)
  then have "fine ?w1 ?w2" using fine_field(2)[of ?w1] fine_field(4)[of _ ?w1] by (simp only: split: if_split) simp
  ultimately show ?thesis using fine_trans[OF fine_field(1) fine_trans[OF _ fine_trans[OF fine_field(3) fine_enforce_disk]]] by metis
qed (use assms in \<open>auto simp: activate_def\<close>)

lemma on_activated_settles:
  assumes "good w"
  shows "settles (kept_all w) (\<lambda>n. on_activated en n txn ob result w)"
proof -
  let ?w = "upd_parked txn (\<lambda>p. p\<lparr>pk_activating := False\<rparr>) w"
  have k: "kept_all w ?w"
    using flag_good(1)[OF assms, of txn _ False] kept_all_refl[OF assms] by (cases "map_of (wk_parked w) txn") (auto simp: upd_parked_def)
  show ?thesis
  proof (cases "res_bind result (\<lambda>(img, chain). activate en ob img chain ?w)")
    case (Inl e)
    show ?thesis unfolding on_activated_def Let_def Inl sum.case by (rule fail_then_pump[OF k])
  next
    case (Inr w1)
    then obtain img chain where "activate en ob img chain ?w = Inr w1" by auto
    then have "kept_all w w1" by (rule kept_all_trans[OF k fine_kept[OF kept_all_good[OF k] activate_fine]])
    then show ?thesis unfolding on_activated_def Let_def Inr sum.case by (rule pump_after)
  qed
qed

lemma on_taken_settles:
  assumes "good w"
  shows "settles (kept_all w) (\<lambda>n. on_taken en n txn ob sender result w)"
proof (cases "map_of (wk_parked w) txn")
  case None
  then show ?thesis by (simp add: on_taken_def settles_done kept_all_refl[OF assms])
next
  case (Some p)
  let ?w = "upd_parked txn (\<lambda>p. p\<lparr>pk_taking := False\<rparr>) w"
  have k: "kept_all w ?w" by (rule flag_good(2)[OF assms Some])
  note g = kept_all_good[OF k]
  show ?thesis
  proof (cases result)
    case (Got tm)
    have adm: "returns (\<lambda>(_, w'). kept_all w w') (if map_of (wk_owned ?w) ob \<noteq> None then Done (True, ?w) else admit en ob tm ?w)"
      using k by (auto intro!: returns_conseq[OF admit_calm[of "{}"]] elim: kept_all_trans[OF k calm_kept[OF g]])
    have q: "kept_all w (if map_of (wk_queues w1) ob = None then w1\<lparr>wk_queues := bt_insert ob [TxnEntry txn] (wk_queues w1)\<rparr> else w1)"
      if "kept_all w w1" for w1
    proof -
      have "calm {} w1 (w1\<lparr>wk_queues := bt_insert ob [TxnEntry txn] (wk_queues w1)\<rparr>)" if "map_of (wk_queues w1) ob = None"
        by (rule calm_requeue) (use that in \<open>simp add: held_def\<close>)
      then show ?thesis using that kept_all_trans[OF that calm_kept[OF kept_all_good[OF that]]] by simp
    qed
    have "settles (kept_all w) (\<lambda>n. io_bind (if map_of (wk_owned ?w) ob \<noteq> None then Done (True, ?w) else admit en ob tm ?w) (\<lambda>x. case x of (mine, w) \<Rightarrow>
                 if mine then pump en n [txn] (if map_of (wk_queues w) ob = None then w\<lparr>wk_queues := bt_insert ob [TxnEntry txn] (wk_queues w)\<rparr> else w)
                 else io_bind (fail_txn en txn (''deed for '' @ ob @ '' superseded by a later grant; retry'') w) (\<lambda>(ready, w). pump en n ready w)))"
    proof (rule settles_bind[OF adm], clarify)
      fix mine w1 assume k1: "kept_all w w1"
      show "settles (kept_all w) (\<lambda>n. if mine then pump en n [txn] (if map_of (wk_queues w1) ob = None then w1\<lparr>wk_queues := bt_insert ob [TxnEntry txn] (wk_queues w1)\<rparr> else w1)
                 else io_bind (fail_txn en txn (''deed for '' @ ob @ '' superseded by a later grant; retry'') w1) (\<lambda>(ready, w). pump en n ready w))"
        by (cases mine) (simp_all only: if_True if_False pump_after[OF q[OF k1]] fail_then_pump[OF k1])
    qed
    then show ?thesis unfolding on_taken_def Some option.case Let_def Got taken_result.case .
  next
    case AlreadyLocal
    then show ?thesis unfolding on_taken_def Some option.case Let_def AlreadyLocal taken_result.case by (intro pump_after[OF k])
  next
    case (TakenFailed e)
    then show ?thesis unfolding on_taken_def Some option.case Let_def TakenFailed taken_result.case by (intro fail_then_pump[OF k])
  qed
qed

section \<open>A boat that came back\<close>

text \<open>Giving up the forked object leaves the boat invariant but for that object; the revert restores it.\<close>

lemma boats_wf_revert_but:
  assumes "counted w" "fst ` set (wk_dirty w) \<union> X = pending_objects w \<union> X" "X \<subseteq> set seed"
    "fst ` set (wk_dirty w) \<subseteq> fst ` set (wk_live w)" "\<forall>t \<in> set (wk_pending w). at_participants t \<noteq> []"
    "\<forall>x \<in> set (wk_manifests w). 0 < m_page_size (snd x)"
  shows "boats_wf (revert_closure seed w)"
proof -
  let ?R = "sunk_from w seed"
  have p: "pending_objects (revert_closure seed w) = pending_objects w - ?R"
    using sunk_closed[of _ w seed] by (auto simp: pending_objects_def revert_closure_fields)
  have d: "fst ` set (wk_dirty (revert_closure seed w)) = fst ` set (wk_dirty w) - ?R"
    by (auto simp: revert_closure_fields image_iff)
  have l: "fst ` set (wk_live (revert_closure seed w)) = fst ` set (wk_live w) - ?R"
    by (auto simp: revert_closure_fields image_iff)
  have "X \<subseteq> ?R" using assms(3) seed_sunk[of seed w] by blast
  then have "fst ` set (wk_dirty w) - ?R = pending_objects w - ?R" using assms(2) by blast
  moreover have "fst ` set (wk_dirty w) - ?R \<subseteq> fst ` set (wk_live w) - ?R" using assms(4) by blast
  ultimately show ?thesis
    unfolding boats_wf_def d l p using assms(1,5,6) revert_closure_fields(10)[of w seed] by (auto simp: revert_closure_fields)
qed

lemma relinquish_still: "still w (relinquish_to k ob w)"
proof -
  let ?w1 = "w\<lparr>wk_owned := bt_remove ob (wk_owned w), wk_log_seq := bt_remove ob (wk_log_seq w), wk_meta := bt_remove ob (wk_meta w), wk_manifests := bt_remove ob (wk_manifests w)\<rparr>"
  let ?w2 = "fail_polls ob ''object claimed elsewhere; re-poll'' (purge ob (undirty ob ?w1))"
  have "still w ?w1" by (simp add: steady_def toks_def all_toks_def)
  then have "still w ?w2" by (rule trans_still) (rule still_trans[OF still_undirty still_trans[OF still_purge(1) still_fail_polls]])
  moreover have "still ?w2 (?w2\<lparr>wk_routing := r\<rparr>)" for r by (simp add: steady_def toks_def all_toks_def)
  ultimately show ?thesis unfolding relinquish_to_def Let_def by (rule trans_still)
qed

lemma relinquish_revert_wf:
  assumes "boats_wf w" "ob \<in> set obs"
  shows "boats_wf (revert_closure obs (relinquish_to k ob w))"
proof -
  let ?w = "relinquish_to k ob w"
  have f: "wk_pending ?w = wk_pending w" "wk_live ?w = bt_remove ob (wk_live w)" "wk_manifests ?w = bt_remove ob (wk_manifests w)"
    "wk_dirty ?w = bt_remove ob (wk_dirty w)"
    by (auto simp: relinquish_to_def Let_def fail_polls_def emit_all_def purge_def undirty_def bt_remove_absent split: option.split)
  have c: "counted ?w"
    using assms(1) undirty_counted[of w ob] by (auto simp: boats_wf_def counted_def relinquish_to_def Let_def fail_polls_def emit_all_def purge_def undirty_def split: option.split)
  have p: "pending_objects ?w = pending_objects w" by (simp add: pending_objects_def f)
  have d: "fst ` set (wk_dirty ?w) = fst ` set (wk_dirty w) - {ob}" "fst ` set (wk_live ?w) = fst ` set (wk_live w) - {ob}"
    by (auto simp: f image_iff)
  show ?thesis
    by (rule boats_wf_revert_but[OF c, where X = "{ob}"]) (use assms in \<open>auto simp: boats_wf_def p d f(1,3)\<close>)
qed

lemma relinquish_cases:
  "returns (\<lambda>w'. w' = w \<or> (\<exists>ob k. rebased = Some ob \<and> w' = relinquish_to k ob w)) (relinquish en rebased w)"
  unfolding relinquish_def by (auto simp: Let_def intro!: returns_after split: option.split claim.split)

lemma ship_outcome:
  assumes "good w" "msg_ok (ShipDone obs landed unpromoted rebased)" "w1 = w \<or> (\<exists>ob k. rebased = Some ob \<and> w1 = relinquish_to k ob w)"
  shows "kept_all w (enforce_disk (if landed then shipped en obs unpromoted w1 else revert_closure obs w1))"
proof -
  have un: "unpromoted = []" using assms(2) by (simp add: msg_ok_def)
  have "fine w (if landed then shipped en obs unpromoted w1 else revert_closure obs w1)"
  proof (cases landed)
    case True
    then have "w1 = w" using assms(2,3) by (auto simp: msg_ok_def)
    then have "shipped en obs unpromoted w1 = fire_shipped en obs (if wk_log_primary w
         then w\<lparr>wk_log_seq := foldl (\<lambda>m ob. case map_of m ob of Some q \<Rightarrow> bt_insert ob (q + 1) m | None \<Rightarrow> m) (wk_log_seq w) obs\<rparr> else w)"
      by (simp add: shipped_def un Let_def)
    then show ?thesis using True fine_fire_shipped[of w en obs] fine_trans[OF fine_field(2) fine_fire_shipped] by (simp only: if_True split: if_split) blast
  next
    case False
    then have "fine w (revert_closure obs w1)"
    proof (cases "w1 = w")
      case True
      then show ?thesis by (simp add: fine_revert_closure)
    next
      case moved: False
      then obtain ob k where w1: "rebased = Some ob" "w1 = relinquish_to k ob w" using assms(3) by blast
      then have "ob \<in> set obs" using assms(2) by (simp add: msg_ok_def)
      then show ?thesis
        using still_trans[OF relinquish_still revert_closure_still] relinquish_revert_wf[of w ob obs k] unfolding w1(2) by (simp add: kept_def)
    qed
    then show ?thesis using False by simp
  qed
  then show ?thesis by (rule fine_kept[OF assms(1) fine_trans[OF _ fine_enforce_disk]])
qed

lemma finish_closing_kept:
  assumes "good w"
  shows "kept_all w (maybe_finish_closing w)"
proof -
  have polls: "calm {} w (foldl (\<lambda>w ob. fail_polls ob m w) w obs)" for obs m and w :: "('c, 'v) wrk"
    by (induction obs arbitrary: w) (auto intro: calm_trans[OF calm_fail_polls])
  have "calm {} w ((emit (FlushedReply r) (foldl (\<lambda>w ob. fail_polls ob m w) (w\<lparr>wk_closing := None\<rparr>) obs))\<lparr>wk_done := True\<rparr>)" for r m obs
    by (rule calm_trans[OF calm_updates(7) calm_trans[OF polls calm_trans[OF calm_emit calm_updates(8)]]]) simp
  then show ?thesis
    using calm_kept[OF assms] kept_all_refl[OF assms] by (auto simp: maybe_finish_closing_def Let_def split: option.split)
qed

lemma on_ship_done_settles:
  assumes "good w" "msg_ok (ShipDone obs landed unpromoted rebased)"
  shows "settles (kept_all w) (\<lambda>n. on_ship_done en n obs landed unpromoted rebased w)"
  unfolding on_ship_done_def Let_def
proof (rule settles_bind[OF relinquish_cases])
  let ?w = "w\<lparr>wk_inflight := None\<rparr>"
  have k0: "kept_all w ?w" by (rule fine_kept[OF assms(1) fine_field(5)])
  fix w1 assume w1: "w1 = ?w \<or> (\<exists>ob k. rebased = Some ob \<and> w1 = relinquish_to k ob ?w)"
  let ?w2 = "enforce_disk (if landed then shipped en obs unpromoted w1 else revert_closure obs w1)"
  have k2: "kept_all w ?w2" by (rule kept_all_trans[OF k0 ship_outcome[OF kept_all_good[OF k0] assms(2) w1]])
  obtain w3 where l: "maybe_launch en ?w2 = Ret w3" "fine ?w2 w3" using maybe_launch_fine[OF kept_all_good[OF k2]] by blast
  have k3: "kept_all w w3" by (rule kept_all_trans[OF k2 fine_kept[OF kept_all_good[OF k2] l(2)]])
  have "settles (kept_all w) (\<lambda>n. io_bind (after_boat en obs w3) (\<lambda>x. case x of (ready, w) \<Rightarrow> pump en n ready (maybe_finish_closing w)))"
  proof (rule settles_bind[OF after_boat_calm[of "{}"]], clarify)
    fix ready w4 assume "calm {} w3 w4"
    then have "kept_all w w4" by (rule kept_all_trans[OF k3 calm_kept[OF kept_all_good[OF k3]]])
    then show "settles (kept_all w) (\<lambda>n. pump en n ready (maybe_finish_closing w4))"
      using pump_after[OF kept_all_trans[OF _ finish_closing_kept[OF kept_all_good]]] by blast
  qed
  then show "settles (kept_all w) (\<lambda>n. case maybe_launch en ?w2 of Panic \<Rightarrow> Done (Some Panic)
      | Ret w \<Rightarrow> io_bind (after_boat en obs w) (\<lambda>(ready, w). pump en n ready (maybe_finish_closing w)))"
    unfolding l(1) rust.case .
qed

section \<open>The other messages\<close>

lemma fired_fine:
  assumes "take_fired_polls en ob d w = (fired, w1)"
  shows "fine w (answer fired w1)"
  by (rule fine_take_fired[OF assms])

lemma recheck_fine: "returns (fine w) (recheck_polls en obs w)"
proof (induction obs arbitrary: w)
  case (Cons ob obs)
  have again: "fine w w1 \<Longrightarrow> returns (fine w) (recheck_polls en obs w1)" for w1
    by (rule returns_conseq[OF Cons.IH]) (rule fine_trans)
  have reb: "fine w (snd (rebuild en ob img seq w))" for img seq
    by (metis fine_rebuild prod.collapse)
  have refold: "returns (fine w) (if b then io_bind (fold_committed ob) (\<lambda>r. Done (case r of Inr (img, seq) \<Rightarrow> snd (rebuild en ob img seq w) | Inl _ \<Rightarrow> w)) else Done w)" for b
    by (auto simp: reb intro!: returns_after split: sum.split)
  have fire: "fine w (case take_fired_polls en ob d w1 of (fired, w) \<Rightarrow> answer fired w)" if "fine w w1" for w1 d
    using fine_trans[OF that fired_fine[of en ob d w1]] by (auto split: prod.split)
  have rest: "returns (fine w) (let (fired, w) = take_fired_polls en ob True w1; w = answer fired w;
              (fired, w) = take_fired_polls en ob False w; w = answer fired w in recheck_polls en obs w)" if f: "fine w w1" for w1
  proof -
    obtain f2 w2 where 2: "take_fired_polls en ob True w1 = (f2, w2)" by force
    obtain f3 w3 where 3: "take_fired_polls en ob False (answer f2 w2) = (f3, w3)" by force
    have "fine w (answer f3 w3)" by (rule fine_trans[OF fine_trans[OF f fired_fine[OF 2]] fired_fine[OF 3]])
    then show ?thesis using 2 3 again by (simp add: Let_def)
  qed
  have "returns (fine w) (io_bind (committed_seq ob) (\<lambda>r. io_bind (if log_seq_of w ob < (case r of Inr q \<Rightarrow> q | Inl _ \<Rightarrow> 0)
                 then io_bind (fold_committed ob) (\<lambda>r. Done (case r of Inr (img, seq) \<Rightarrow> snd (rebuild en ob img seq w) | Inl _ \<Rightarrow> w))
                 else Done w) (\<lambda>w. let (fired, w) = take_fired_polls en ob True w; w = answer fired w;
              (fired, w) = take_fired_polls en ob False w; w = answer fired w in recheck_polls en obs w)))"
    by (rule returns_after, rule returns_seq[OF refold rest])
  then show ?case unfolding recheck_polls.simps using again[OF fine_refl] by (simp only: split: if_split) blast
qed simp

lemma shed_fine:
  fixes w :: "('c, 'v) wrk"
  shows "fine w (shed en w)"
proof -
  have "boats_wf w' \<and> still w w'" if "boats_wf w" "set obs \<inter> fst ` set (wk_dirty w) = {}" "w' = foldl (\<lambda>w ob. shed_one en ob w) w obs" for obs and w w' :: "('c, 'v) wrk"
    using that
  proof (induction obs arbitrary: w)
    case (Cons ob obs)
    let ?w1 = "shed_one en ob w"
    have nd: "ob \<notin> fst ` set (wk_dirty w)" using Cons.prems(2) by auto
    have f: "wk_pending ?w1 = wk_pending w" "wk_dirty ?w1 = wk_dirty w" "wk_dirty_bytes ?w1 = wk_dirty_bytes w"
      "wk_manifests ?w1 = bt_remove ob (wk_manifests w)" "wk_live ?w1 = bt_remove ob (wk_live w)"
      by (simp_all add: shed_one_def evict_def)
    have wf: "boats_wf ?w1"
    proof (rule boats_wf_same[OF Cons.prems(1) f(1-3)])
      fix ob' assume "map_of (wk_dirty w) ob' \<noteq> None" and l: "map_of (wk_live w) ob' \<noteq> None"
      then have "ob' \<noteq> ob" using nd by (metis map_of_eq_None_iff)
      then show "map_of (wk_live ?w1) ob' \<noteq> None" using l by (simp add: f)
    qed (auto simp: f)
    have "still w ?w1" by (simp add: shed_one_def evict_def steady_def toks_def all_toks_def)
    moreover have "boats_wf w' \<and> still ?w1 w'"
      by (rule Cons.IH[OF wf]) (use Cons.prems(2,3) f(2) in auto)
    ultimately show ?case using still_trans by blast
  qed simp
  moreover have "still w (foldl (\<lambda>w ob. shed_one en ob w) w obs)" for obs
    by (rule fold_still) (simp add: shed_one_def evict_def steady_def toks_def all_toks_def)
  moreover have "set (sheddable w) \<inter> fst ` set (wk_dirty w) = {}"
    by (auto simp: sheddable_def unshipped_def map_of_eq_None_iff)
  ultimately have "fine w (foldl (\<lambda>w ob. shed_one en ob w) w (sheddable w))" by (simp add: kept_def)
  then show ?thesis by (auto simp: shed_def intro: fine_trans)
qed

lemma cancel_poll_handled:
  assumes "good w"
  shows "handled (CancelPoll ob conn frame) w (cancel_poll ob conn frame w)"
proof (cases "map_of (wk_polls w) ob")
  case None
  then show ?thesis using assms by (simp add: handled_def cancel_poll_def cancelled_def submitted_def)
next
  case (Some ps)
  let ?P = "\<lambda>p. pp_conn p = conn \<and> pp_frame p = frame"
  let ?ps = "filter (\<lambda>p. \<not> ?P p) ps"
  let ?m = "if ?ps = [] then bt_remove ob (wk_polls w) else bt_insert ob ?ps (wk_polls w)"
  have w': "cancel_poll ob conn frame w = w\<lparr>wk_polls := ?m\<rparr>" using Some by (simp add: cancel_poll_def Let_def)
  have wf: "bt_wf (wk_polls w)" using assms by (simp add: good_def)
  have "mset (polling ?m) = mset (map pp_resp ?ps) + mset (polling (bt_remove ob (wk_polls w)))"
    by (cases "?ps = []") (simp_all only: simp_thms if_True if_False polling_insert[OF wf] list.map mset.simps add_0)
  moreover have "mset (map pp_resp ps) = mset (map pp_resp ?ps) + mset (map pp_resp (filter ?P ps))"
    by (induction ps) auto
  ultimately have pol: "lv w (polling ?m) + lv w (map pp_resp (filter ?P ps)) = lv w (polling (wk_polls w))"
    using polling_lookup[OF wf Some] by (simp add: lv_def)
  have "boats_wf (w\<lparr>wk_polls := ?m\<rparr>)" by (rule boats_wf_same[of w]) (use assms in \<open>simp_all add: good_def\<close>)
  moreover have "held (w\<lparr>wk_polls := ?m\<rparr>) = held w" by (simp add: held_def fun_eq_iff)
  then have "locks (w\<lparr>wk_polls := ?m\<rparr>)" using assms by (simp add: good_def locks_def holds_def)
  ultimately have "good (w\<lparr>wk_polls := ?m\<rparr>)" using wf by (simp add: good_def)
  moreover have "toks (w\<lparr>wk_polls := ?m\<rparr>) + lv w (map pp_resp (filter ?P ps)) = toks w"
    unfolding toks_lv using pol by (simp add: lv_def ac_simps)
  ultimately show ?thesis unfolding w' using Some by (simp add: handled_def cancelled_def submitted_def)
qed

section \<open>The handler\<close>

lemma settles_fine: "good w \<Longrightarrow> returns (fine w) p \<Longrightarrow> settles (kept_all w) (\<lambda>n. io_bind p (\<lambda>w. Done (Some (Ret w))))"
  by (rule settles_bind[where P = "fine w" and h = "\<lambda>w n. Done (Some (Ret w))"]) (auto intro: settles_done fine_kept)

lemma settles_calm: "good w \<Longrightarrow> returns (\<lambda>w'. calm {} w w') p \<Longrightarrow> settles (kept_all w) (\<lambda>n. io_bind p (\<lambda>w. Done (Some (Ret w))))"
  by (rule settles_bind[where P = "\<lambda>w'. calm {} w w'" and h = "\<lambda>w n. Done (Some (Ret w))"]) (auto intro: settles_done calm_kept)

lemma settles_handled: "settles (kept_all w) h \<Longrightarrow> submitted m = [] \<Longrightarrow> cancelled w m = [] \<Longrightarrow> settles (handled m w) h"
  by (erule settles_conseq) (rule kept_handled)

lemmas quiet = submitted_def cancelled_def

theorem handle_settles:
  assumes "good w" "msg_ok m"
  shows "settles (handled m w) (\<lambda>n. handle en n m w)"
proof (cases m)
  case (Submit obs ops read_only poll cap optimistic resp)
  let ?w = "submit_txn obs ops read_only poll cap optimistic resp w"
  note s = submit_good[OF assms(1) assms(2)[unfolded Submit]]
  have g: "wk_gone ?w = wk_gone w" by (simp add: submit_txn_def)
  have "settles (kept_all ?w) (\<lambda>n. pump en n [wk_next_txn w] ?w)" by (rule settles_pump[OF s(1)])
  then have "settles (handled m w) (\<lambda>n. pump en n [wk_next_txn w] ?w)"
    by (rule settles_conseq) (simp add: kept_all_def handled_def s(2) g Submit quiet)
  then show ?thesis by (simp add: handle_def Submit)
next
  case (Take ob taker resp)
  have "settles (kept_all w) (\<lambda>n. io_bind (handle_take en ob taker resp w) (\<lambda>x. case x of (ready, w) \<Rightarrow>
      (case ready of Some ready \<Rightarrow> pump en n ready w | None \<Rightarrow> Done (Some (Ret w)))))"
  proof (rule settles_bind[OF handle_take_calm], clarify)
    fix ready w1 assume "calm {} w w1"
    then have "kept_all w w1" by (rule calm_kept[OF assms(1)])
    then show "settles (kept_all w) (\<lambda>n. case ready of Some ready \<Rightarrow> pump en n ready w1 | None \<Rightarrow> Done (Some (Ret w1)))"
      by (cases ready) (auto intro: settles_done pump_after)
  qed
  then show ?thesis unfolding Take handle_def msg.case by (rule settles_handled) (simp_all add: quiet)
next
  case (Adopt ob tm)
  show ?thesis unfolding Adopt handle_def msg.case
    by (rule settles_handled[OF settles_calm[OF assms(1) handle_adopt_calm]]) (simp_all add: quiet)
next
  case (CancelPoll ob conn frame)
  then show ?thesis using cancel_poll_handled[OF assms(1)] by (simp add: handle_def settles_done)
next
  case Shed
  show ?thesis unfolding Shed handle_def msg.case
    by (rule settles_handled[OF settles_done[of "kept_all w"]]) (simp_all add: quiet fine_kept[OF assms(1) shed_fine])
next
  case RecheckPolls
  show ?thesis unfolding RecheckPolls handle_def msg.case
    by (rule settles_handled[OF settles_fine[OF assms(1) recheck_fine]]) (simp_all add: quiet)
next
  case (Taken txn ob sender result)
  show ?thesis unfolding Taken handle_def msg.case
    by (rule settles_handled[OF on_taken_settles[OF assms(1)]]) (simp_all add: quiet)
next
  case (ShipDone obs landed unpromoted rebased)
  show ?thesis unfolding ShipDone handle_def msg.case
    by (rule settles_handled[OF on_ship_done_settles[OF assms(1) assms(2)[unfolded ShipDone]]]) (simp_all add: quiet)
next
  case (Activated txn ob result)
  show ?thesis unfolding Activated handle_def msg.case
    by (rule settles_handled[OF on_activated_settles[OF assms(1)]]) (simp_all add: quiet)
next
  case (Shutdown resp)
  let ?w = "w\<lparr>wk_closing := Some resp\<rparr>"
  have k: "kept_all w ?w" by (rule calm_kept[OF assms(1) calm_updates(7)])
  obtain w1 where l: "maybe_launch en ?w = Ret w1" "fine ?w w1" using maybe_launch_fine[OF kept_all_good[OF k]] by blast
  have k1: "kept_all w w1" by (rule kept_all_trans[OF k fine_kept[OF kept_all_good[OF k] l(2)]])
  have "kept_all w (maybe_finish_closing w1)" by (rule kept_all_trans[OF k1 finish_closing_kept[OF kept_all_good[OF k1]]])
  then show ?thesis unfolding Shutdown handle_def msg.case l(1) rust.case
    by (intro settles_handled[OF settles_done[of "kept_all w"]]) (simp_all add: quiet)
next
  case (Stats resp)
  have "kept_all w (stats resp w)" unfolding stats_def by (rule calm_kept[OF assms(1) calm_emit]) simp
  then show ?thesis unfolding Stats handle_def msg.case
    by (intro settles_handled[OF settles_done[of "kept_all w"]]) (simp_all add: quiet)
qed

end
