(* ===== verification/Exec_Props.thy ===== *)
theory Exec_Props
  imports Loop_Run
begin

text \<open>
  What \<open>apply\<close> guarantees of the connections it runs on, given what SQLite documents of transactions: all of a
  transaction's writes or none. Statements that control transactions themselves are outside the guarantee, and two
  theorems show what they do.
\<close>

section \<open>SQLite\<close>

text \<open>
  \<open>base c\<close> is the committed content of the database, \<open>opn c\<close> whether a transaction is open and \<open>work c\<close> the content
  it sees; \<open>ctl sql\<close> says whether a statement controls transactions, and \<open>eff p r s s'\<close> that the statement of \<open>p\<close>
  answers \<open>r\<close> on content \<open>s\<close> and leaves \<open>s'\<close>. A transaction starts from the committed content. A statement in it
  leaves the committed content, and the transaction open unless it fails (which may roll back). \<open>COMMIT\<close> makes the
  transaction's content the committed one; a failed one leaves the transaction open.
\<close>

definition sqlite_like :: "('c, 'v) engine \<Rightarrow> ('c \<Rightarrow> 's) \<Rightarrow> ('c \<Rightarrow> 's) \<Rightarrow> ('c \<Rightarrow> bool) \<Rightarrow> (string \<Rightarrow> bool)
    \<Rightarrow> ('v op \<Rightarrow> 'v op_result \<Rightarrow> 's \<Rightarrow> 's \<Rightarrow> bool) \<Rightarrow> bool" where
  "sqlite_like en base work opn ctl eff \<longleftrightarrow>
     (\<forall>c. \<not> opn c \<longrightarrow> (case en_begin en c of
        (Inl e, c') \<Rightarrow> base c' = base c \<and> \<not> opn c' | (Inr _, c') \<Rightarrow> base c' = base c \<and> work c' = base c \<and> opn c'))
     \<and> (\<forall>c p. opn c \<longrightarrow> \<not> ctl (op_sql p) \<longrightarrow> (case en_run en c (op_sql p) (op_params p) of
        (Inl e, c') \<Rightarrow> base c' = base c | (Inr r, c') \<Rightarrow> base c' = base c \<and> opn c' \<and> eff p r (work c) (work c')))
     \<and> (\<forall>c. base (en_rollback en c) = base c \<and> \<not> opn (en_rollback en c))
     \<and> (\<forall>c. opn c \<longrightarrow> (case en_commit en c of (Inl e, c') \<Rightarrow> base c' = base c | (Inr _, c') \<Rightarrow> base c' = work c \<and> \<not> opn c'))
     \<and> (\<forall>c a. base (en_authorize en a c) = base c \<and> work (en_authorize en a c) = work c \<and> opn (en_authorize en a c) = opn c)"

lemmas sqlite_begin = conjunct1[OF iffD1[OF sqlite_like_def], rule_format]
lemmas sqlite_run = conjunct1[OF conjunct2[OF iffD1[OF sqlite_like_def]], rule_format]
lemmas sqlite_rollback = conjunct1[OF conjunct2[OF conjunct2[OF iffD1[OF sqlite_like_def]]], rule_format]
lemmas sqlite_commit = conjunct1[OF conjunct2[OF conjunct2[OF conjunct2[OF iffD1[OF sqlite_like_def]]]], rule_format]
lemmas sqlite_authorize = conjunct2[OF conjunct2[OF conjunct2[OF conjunct2[OF iffD1[OF sqlite_like_def]]]], rule_format]

text \<open>What a sequence of statements, with their answers, does to the content of one object.\<close>

primrec effects :: "('v op \<Rightarrow> 'v op_result \<Rightarrow> 's \<Rightarrow> 's \<Rightarrow> bool) \<Rightarrow> ('v op \<times> 'v op_result) list \<Rightarrow> 's \<Rightarrow> 's \<Rightarrow> bool" where
  "effects eff [] s s' \<longleftrightarrow> s' = s"
| "effects eff (pr # prs) s s' \<longleftrightarrow> (\<exists>t. eff (fst pr) (snd pr) s t \<and> effects eff prs t s')"

definition on_object :: "string \<Rightarrow> ('v op \<times> 'v op_result) list \<Rightarrow> ('v op \<times> 'v op_result) list" where
  "on_object ob prs = filter (\<lambda>pr. op_object (fst pr) = ob) prs"

text \<open>One object from before to after a transaction that succeeded.\<close>

definition carried :: "('c \<Rightarrow> 's) \<Rightarrow> ('c \<Rightarrow> bool) \<Rightarrow> ('v op \<Rightarrow> 'v op_result \<Rightarrow> 's \<Rightarrow> 's \<Rightarrow> bool) \<Rightarrow> string list
    \<Rightarrow> ('v op \<times> 'v op_result) list \<Rightarrow> string \<Rightarrow> 'c \<Rightarrow> 'c \<Rightarrow> bool" where
  "carried base opn eff obs prs ob c c' \<longleftrightarrow> \<not> opn c'
     \<and> (if ob \<in> set obs then effects eff (on_object ob prs) (base c) (base c') else base c' = base c)"

section \<open>Connections under a predicate\<close>

definition conns :: "(string \<Rightarrow> 'c \<Rightarrow> bool) \<Rightarrow> ('c, 'v) wrk \<Rightarrow> bool" where
  "conns Q w \<longleftrightarrow> (\<forall>ob c. map_of (wk_live w) ob = Some c \<longrightarrow> Q ob c)"

lemma conns_mono: "conns Q w \<Longrightarrow> (\<And>ob c. Q ob c \<Longrightarrow> Q' ob c) \<Longrightarrow> conns Q' w"
  by (auto simp: conns_def)

lemma conns_on:
  assumes "on_conn ob f w = Ret (x, w')" "conns Q w" "\<And>c c'. Q ob c \<Longrightarrow> f c = (x, c') \<Longrightarrow> Q' ob c'" "\<And>ob' c. ob' \<noteq> ob \<Longrightarrow> Q ob' c \<Longrightarrow> Q' ob' c"
  shows "conns Q' w'"
proof -
  obtain c c' where c: "map_of (wk_live w) ob = Some c" "f c = (x, c')" and w': "w' = w\<lparr>wk_live := bt_insert ob c' (wk_live w)\<rparr>"
    using assms(1) by (auto simp: on_conn_def split: option.splits prod.splits)
  have "Q ob c" using assms(2) c(1) by (simp add: conns_def)
  then have "Q' ob c'" using assms(3) c(2) by blast
  then show ?thesis using assms(2,4) unfolding conns_def w' by auto
qed

lemma bind_ret: "rust_bind m f = Ret y \<longleftrightarrow> (\<exists>x. m = Ret x \<and> f x = Ret y)"
  by (cases m) auto

lemma conns_on_all:
  assumes "on_all obs f w = Ret w'" "conns P w" "\<And>ob c. P ob c \<Longrightarrow> P ob (f ob c) \<and> Q ob (f ob c)"
  shows "conns (\<lambda>ob c. P ob c \<and> (ob \<in> set obs \<longrightarrow> Q ob c)) w'"
proof -
  have "conns (\<lambda>ob c. P ob c \<and> (ob \<in> D \<union> set obs \<longrightarrow> Q ob c)) w'"
    if "on_all obs f w = Ret w'" "conns (\<lambda>ob c. P ob c \<and> (ob \<in> D \<longrightarrow> Q ob c)) w" for D obs w
    using that
  proof (induction obs arbitrary: w D)
    case (Cons ob obs)
    obtain w1 where 1: "on_conn ob (\<lambda>c. ((), f ob c)) w = Ret ((), w1)" "on_all obs f w1 = Ret w'"
      using Cons.prems(1) by (auto simp: bind_ret)
    have "conns (\<lambda>ob' c. P ob' c \<and> (ob' \<in> insert ob D \<longrightarrow> Q ob' c)) w1"
      by (rule conns_on[OF 1(1) Cons.prems(2)]) (use assms(3) in auto)
    moreover have "insert ob D \<union> set obs = D \<union> set (ob # obs)" by auto
    ultimately show ?case using Cons.IH[OF 1(2), of "insert ob D"] by simp
  qed simp
  from this[OF assms(1), of "{}"] show ?thesis using assms(2) by simp
qed

section \<open>The phases\<close>

text \<open>Every connection has the committed content \<open>b0\<close>, and those in \<open>D\<close> have a transaction open, whose content
  satisfies \<open>fin\<close>; then the weaker forms.\<close>

definition begun :: "('c \<Rightarrow> 's) \<Rightarrow> ('c \<Rightarrow> 's) \<Rightarrow> ('c \<Rightarrow> bool) \<Rightarrow> (string \<Rightarrow> 's) \<Rightarrow> (string \<Rightarrow> 's \<Rightarrow> bool) \<Rightarrow> string set \<Rightarrow> string \<Rightarrow> 'c \<Rightarrow> bool" where
  "begun base work opn b0 fin D ob c \<longleftrightarrow> base c = b0 ob \<and> (opn c \<longleftrightarrow> ob \<in> D) \<and> (ob \<in> D \<longrightarrow> fin ob (work c))"

definition closed_at :: "('c \<Rightarrow> 's) \<Rightarrow> ('c \<Rightarrow> bool) \<Rightarrow> (string \<Rightarrow> 's) \<Rightarrow> (string \<Rightarrow> 's \<Rightarrow> bool) \<Rightarrow> string set \<Rightarrow> string \<Rightarrow> 'c \<Rightarrow> bool" where
  "closed_at base opn b0 fin K ob c \<longleftrightarrow> \<not> opn c \<and> (if ob \<in> K then fin ob (base c) else base c = b0 ob)"

definition kept_base :: "('c \<Rightarrow> 's) \<Rightarrow> ('c \<Rightarrow> bool) \<Rightarrow> (string \<Rightarrow> 's) \<Rightarrow> string set \<Rightarrow> string set \<Rightarrow> string \<Rightarrow> 'c \<Rightarrow> bool" where
  "kept_base base opn b0 K D ob c \<longleftrightarrow> (ob \<notin> K \<longrightarrow> base c = b0 ob) \<and> (opn c \<longrightarrow> ob \<in> D)"

lemma begin_phase:
  assumes "sqlite_like en base work opn ctl eff" "begin_all en obs w = Ret (r, w')" "distinct obs" "set obs \<inter> D = {}" "conns (begun base work opn b0 (\<lambda>ob s. s = b0 ob) D) w"
  shows "case r of Inr _ \<Rightarrow> conns (begun base work opn b0 (\<lambda>ob s. s = b0 ob) (D \<union> set obs)) w' | Inl _ \<Rightarrow> conns (kept_base base opn b0 {} (D \<union> set obs)) w' \<and> \<not> (\<forall>c. \<not> opn c \<longrightarrow> fst (en_begin en c) = Inr ())"
  using assms(2-)
proof (induction obs arbitrary: w D)
  case (Cons ob obs)
  obtain r1 w1 where 1: "on_conn ob (en_begin en) w = Ret (r1, w1)"
    and 2: "(case r1 of Inl e \<Rightarrow> Ret (Inl e, w1) | Inr _ \<Rightarrow> begin_all en obs w1) = Ret (r, w')"
    using Cons.prems(1) by (auto simp: bind_ret)
  have b: "case r1 of Inl e \<Rightarrow> base c' = base c \<and> \<not> opn c' | Inr _ \<Rightarrow> base c' = base c \<and> work c' = base c \<and> opn c'" if "\<not> opn c" "en_begin en c = (r1, c')" for c c'
  proof -
    have "case en_begin en c of (Inl e, c') \<Rightarrow> base c' = base c \<and> \<not> opn c' | (Inr _, c') \<Rightarrow> base c' = base c \<and> work c' = base c \<and> opn c'"
      by (rule sqlite_begin[OF assms(1) that(1)])
    then show ?thesis unfolding that(2) by (cases r1) simp_all
  qed
  show ?case
  proof (cases r1)
    case (Inl e)
    have "conns (kept_base base opn b0 {} (D \<union> set (ob # obs))) w1"
    proof (rule conns_on[OF 1 Cons.prems(4)])
      fix c c' assume c: "begun base work opn b0 (\<lambda>ob s. s = b0 ob) D ob c" "en_begin en c = (r1, c')"
      then have "base c' = base c \<and> \<not> opn c'" using b[of c c'] Inl Cons.prems(3) by (simp add: begun_def)
      then show "kept_base base opn b0 {} (D \<union> set (ob # obs)) ob c'" using c(1) by (simp add: begun_def kept_base_def)
    qed (simp add: begun_def kept_base_def)
    moreover obtain c c' where "\<not> opn c" "en_begin en c = (r1, c')"
      using 1 Cons.prems(3,4) by (auto simp: on_conn_def conns_def begun_def split: option.splits prod.splits)
    then have "\<not> (\<forall>c. \<not> opn c \<longrightarrow> fst (en_begin en c) = Inr ())" using Inl by (metis fst_conv sum.distinct(1))
    ultimately show ?thesis using 2 Inl by auto
  next
    case (Inr u)
    have "conns (begun base work opn b0 (\<lambda>ob s. s = b0 ob) (insert ob D)) w1"
    proof (rule conns_on[OF 1 Cons.prems(4)])
      fix c c' assume c: "begun base work opn b0 (\<lambda>ob s. s = b0 ob) D ob c" "en_begin en c = (r1, c')"
      then have "base c' = base c \<and> work c' = base c \<and> opn c'" using b[of c c'] Inr Cons.prems(3) by (simp add: begun_def)
      then show "begun base work opn b0 (\<lambda>ob s. s = b0 ob) (insert ob D) ob c'" using c(1) by (simp add: begun_def)
    qed (simp add: begun_def)
    moreover have "begin_all en obs w1 = Ret (r, w')" using 2 Inr by simp
    ultimately have ih: "case r of Inr _ \<Rightarrow> conns (begun base work opn b0 (\<lambda>ob s. s = b0 ob) (insert ob D \<union> set obs)) w'
       | Inl _ \<Rightarrow> conns (kept_base base opn b0 {} (insert ob D \<union> set obs)) w' \<and> \<not> (\<forall>c. \<not> opn c \<longrightarrow> fst (en_begin en c) = Inr ())"
      using Cons.IH[of w1 "insert ob D"] Cons.prems(2,3) by simp
    have eq: "insert ob D \<union> set obs = D \<union> set (ob # obs)" by auto
    show ?thesis using ih unfolding eq .
  qed
qed auto

text \<open>What a statement adds to what the content of its object satisfies.\<close>

definition after :: "('v op \<Rightarrow> 'v op_result \<Rightarrow> 's \<Rightarrow> 's \<Rightarrow> bool) \<Rightarrow> ('v op \<times> 'v op_result) list \<Rightarrow> (string \<Rightarrow> 's \<Rightarrow> bool) \<Rightarrow> string \<Rightarrow> 's \<Rightarrow> bool" where
  "after eff prs fin ob s \<longleftrightarrow> (\<exists>t. fin ob t \<and> effects eff (on_object ob prs) t s)"

lemma after_nil [simp]: "after eff [] fin = fin"
  by (auto simp: after_def on_object_def fun_eq_iff)

lemma after_cons: "after eff (pr # prs) fin = after eff prs (after eff [pr] fin)"
  by (intro ext) (auto simp: after_def on_object_def)

lemma begun_step:
  assumes "begun base work opn b0 fin D (op_object p) c" "op_object p \<in> D" "base c' = base c" "opn c'" "eff p x (work c) (work c')"
  shows "begun base work opn b0 (after eff [(p, x)] fin) D (op_object p) c'"
  using assms by (auto simp: begun_def after_def on_object_def)

lemma begun_skip: "ob \<noteq> op_object p \<Longrightarrow> begun base work opn b0 fin D ob c \<Longrightarrow> begun base work opn b0 (after eff [(p, x)] fin) D ob c"
  by (auto simp: begun_def after_def on_object_def)

lemma write_phase:
  assumes "sqlite_like en base work opn ctl eff" "write_ops en ops w = Ret (r, w')" "op_object ` set ops \<subseteq> D" "\<forall>p \<in> set ops. \<not> ctl (op_sql p)"
    "conns (begun base work opn b0 fin D) w"
  shows "case r of Inr rs \<Rightarrow> length rs = length ops \<and> conns (begun base work opn b0 (after eff (zip ops rs) fin) D) w'
    | Inl _ \<Rightarrow> conns (kept_base base opn b0 {} D) w'"
  using assms(2-)
proof (induction ops arbitrary: w r fin)
  case (Cons p ops)
  obtain r1 w1 where 1: "on_conn (op_object p) (\<lambda>c. en_run en c (op_sql p) (op_params p)) w = Ret (r1, w1)"
    and 2: "(case r1 of Inl e \<Rightarrow> Ret (Inl e, w1)
     | Inr x \<Rightarrow> rust_bind (write_ops en ops w1) (\<lambda>(rest, w). Ret (map_sum (\<lambda>e. e) ((#) x) rest, w))) = Ret (r, w')"
    using Cons.prems(1) by (auto simp: bind_ret)
  have b: "case r1 of Inl e \<Rightarrow> base c' = base c | Inr x \<Rightarrow> base c' = base c \<and> opn c' \<and> eff p x (work c) (work c')"
    if "opn c" "en_run en c (op_sql p) (op_params p) = (r1, c')" for c c'
  proof -
    have "case en_run en c (op_sql p) (op_params p) of
       (Inl e, c') \<Rightarrow> base c' = base c | (Inr x, c') \<Rightarrow> base c' = base c \<and> opn c' \<and> eff p x (work c) (work c')"
      by (rule sqlite_run[OF assms(1) that(1)]) (use Cons.prems(3) in simp)
    then show ?thesis unfolding that(2) by (cases r1) simp_all
  qed
  have D: "op_object p \<in> D" using Cons.prems(2) by simp
  show ?case
  proof (cases r1)
    case (Inl e)
    have "conns (kept_base base opn b0 {} D) w1"
    proof (rule conns_on[OF 1 Cons.prems(4)])
      fix c c' assume c: "begun base work opn b0 fin D (op_object p) c" "en_run en c (op_sql p) (op_params p) = (r1, c')"
      then have "base c' = base c" using b[of c c'] Inl D by (simp add: begun_def)
      then show "kept_base base opn b0 {} D (op_object p) c'" using c(1) D by (simp add: begun_def kept_base_def)
    qed (simp add: begun_def kept_base_def)
    then show ?thesis using 2 Inl by auto
  next
    case (Inr x)
    have c1: "conns (begun base work opn b0 (after eff [(p, x)] fin) D) w1"
    proof (rule conns_on[OF 1 Cons.prems(4)])
      fix c c' assume c: "begun base work opn b0 fin D (op_object p) c" "en_run en c (op_sql p) (op_params p) = (r1, c')"
      then have "base c' = base c \<and> opn c' \<and> eff p x (work c) (work c')" using b[of c c'] Inr D by (simp add: begun_def)
      then show "begun base work opn b0 (after eff [(p, x)] fin) D (op_object p) c'" using begun_step[OF c(1) D] by blast
    qed (rule begun_skip)
    obtain rest where rest: "write_ops en ops w1 = Ret (rest, w')" "r = map_sum (\<lambda>e. e) ((#) x) rest"
      using 2 Inr by (auto simp: bind_ret)
    have "case rest of Inr rs \<Rightarrow> length rs = length ops \<and> conns (begun base work opn b0 (after eff (zip ops rs) (after eff [(p, x)] fin)) D) w'
      | Inl _ \<Rightarrow> conns (kept_base base opn b0 {} D) w'"
      by (rule Cons.IH[OF rest(1) _ _ c1]) (use Cons.prems(2,3) in auto)
    moreover have "after eff (zip (p # ops) (x # rs)) fin = after eff (zip ops rs) (after eff [(p, x)] fin)" for rs
      unfolding zip_Cons_Cons by (rule after_cons)
    ultimately show ?thesis unfolding rest(2) by (cases rest) simp_all
  qed
qed simp

text \<open>Between the commits: \<open>K\<close> is committed, \<open>D\<close> still open.\<close>

definition committing :: "('c \<Rightarrow> 's) \<Rightarrow> ('c \<Rightarrow> 's) \<Rightarrow> ('c \<Rightarrow> bool) \<Rightarrow> (string \<Rightarrow> 's) \<Rightarrow> (string \<Rightarrow> 's \<Rightarrow> bool) \<Rightarrow> string set \<Rightarrow> string set
    \<Rightarrow> string \<Rightarrow> 'c \<Rightarrow> bool" where
  "committing base work opn b0 fin K D ob c \<longleftrightarrow> (if ob \<in> K then fin ob (base c) else base c = b0 ob)
     \<and> (opn c \<longleftrightarrow> ob \<in> D) \<and> (ob \<in> D \<longrightarrow> fin ob (work c))"

lemma commit_phase_conns:
  assumes "sqlite_like en base work opn ctl eff" "commit_all en i obs w = Ret (r, w')" "distinct obs" "set obs \<inter> K = {}"
    "conns (committing base work opn b0 fin K (set obs)) w"
  shows "case r of None \<Rightarrow> conns (closed_at base opn b0 fin (K \<union> set obs)) w'
     | Some (k, e) \<Rightarrow> i \<le> k \<and> conns (kept_base base opn b0 (K \<union> set (take (k - i) obs)) (set (drop (k - i) obs))) w'"
  using assms(2-)
proof (induction obs arbitrary: w i K)
  case Nil
  then show ?case by (auto simp: closed_at_def committing_def elim!: conns_mono)
next
  case (Cons ob obs)
  obtain r1 w1 where 1: "on_conn ob (en_commit en) w = Ret (r1, w1)"
    and 2: "(case r1 of Inl e \<Rightarrow> Ret (Some (i, e), w1) | Inr _ \<Rightarrow> commit_all en (i + 1) obs w1) = Ret (r, w')"
    using Cons.prems(1) by (auto simp: bind_ret)
  have b: "case r1 of Inl e \<Rightarrow> base c' = base c | Inr _ \<Rightarrow> base c' = work c \<and> \<not> opn c'" if "opn c" "en_commit en c = (r1, c')" for c c'
  proof -
    have "case en_commit en c of (Inl e, c') \<Rightarrow> base c' = base c | (Inr _, c') \<Rightarrow> base c' = work c \<and> \<not> opn c'"
      by (rule sqlite_commit[OF assms(1) that(1)])
    then show ?thesis unfolding that(2) by (cases r1) simp_all
  qed
  show ?case
  proof (cases r1)
    case (Inl e)
    have "conns (kept_base base opn b0 K (set (ob # obs))) w1"
    proof (rule conns_on[OF 1 Cons.prems(4)])
      fix c c' assume c: "committing base work opn b0 fin K (set (ob # obs)) ob c" "en_commit en c = (r1, c')"
      then have "base c' = base c" using b[of c c'] Inl by (simp add: committing_def)
      then show "kept_base base opn b0 K (set (ob # obs)) ob c'" using c(1) by (simp add: kept_base_def committing_def)
    qed (simp add: kept_base_def committing_def)
    then show ?thesis using 2 Inl by auto
  next
    case (Inr u)
    have "conns (committing base work opn b0 fin (insert ob K) (set obs)) w1"
    proof (rule conns_on[OF 1 Cons.prems(4)])
      fix c c' assume c: "committing base work opn b0 fin K (set (ob # obs)) ob c" "en_commit en c = (r1, c')"
      then have "base c' = work c \<and> \<not> opn c'" using b[of c c'] Inr by (simp add: committing_def)
      then show "committing base work opn b0 fin (insert ob K) (set obs) ob c'" using c(1) Cons.prems(2) by (simp add: committing_def)
    qed (simp add: committing_def)
    moreover have "commit_all en (i + 1) obs w1 = Ret (r, w')" using 2 Inr by simp
    ultimately have ih: "case r of None \<Rightarrow> conns (closed_at base opn b0 fin (insert ob K \<union> set obs)) w'
     | Some (k, e) \<Rightarrow> i + 1 \<le> k \<and> conns (kept_base base opn b0 (insert ob K \<union> set (take (k - (i + 1)) obs)) (set (drop (k - (i + 1)) obs))) w'"
      using Cons.IH[of "i + 1" w1 "insert ob K"] Cons.prems(2,3) by simp
    show ?thesis
    proof (cases r)
      case None
      then show ?thesis using ih by simp
    next
      case (Some x)
      obtain k e where x: "x = (k, e)" by force
      then have "k - i = Suc (k - (i + 1))" using ih Some by auto
      then show ?thesis using ih Some x by simp
    qed
  qed
qed

lemma gates_conns:
  assumes "\<And>ob c a. P ob c \<Longrightarrow> P ob (en_authorize en a c)" "conns P w"
  shows "gate_all en cap obs w = Ret w' \<Longrightarrow> conns P w'" "ungate_all en cap obs w = Ret w' \<Longrightarrow> conns P w'"
proof -
  have all: "on_all obs (\<lambda>ob. en_authorize en (g ob)) w = Ret w' \<Longrightarrow> conns P w'" for g
    using conns_on_all[of obs "\<lambda>ob. en_authorize en (g ob)" w w' P "\<lambda>_ _. True"] assms by simp
  show "gate_all en cap obs w = Ret w' \<Longrightarrow> conns P w'" "ungate_all en cap obs w = Ret w' \<Longrightarrow> conns P w'"
    using all assms(2) by (auto simp: gate_all_def ungate_all_def split: option.splits)
qed

lemma authorize_stable:
  assumes "sqlite_like en base work opn ctl eff"
  shows "begun base work opn b0 fin D ob c \<Longrightarrow> begun base work opn b0 fin D ob (en_authorize en a c)"
    "kept_base base opn b0 K D ob c \<Longrightarrow> kept_base base opn b0 K D ob (en_authorize en a c)"
  using sqlite_authorize[OF assms, of a c] by (simp_all add: begun_def kept_base_def)

lemma gates_stable:
  assumes "sqlite_like en base work opn ctl eff"
  shows "gate_all en cap obs w = Ret w' \<Longrightarrow> conns (begun base work opn b0 fin D) w \<Longrightarrow> conns (begun base work opn b0 fin D) w'"
    "ungate_all en cap obs w = Ret w' \<Longrightarrow> conns (begun base work opn b0 fin D) w \<Longrightarrow> conns (begun base work opn b0 fin D) w'"
    "ungate_all en cap obs w = Ret w' \<Longrightarrow> conns (kept_base base opn b0 K D) w \<Longrightarrow> conns (kept_base base opn b0 K D) w'"
proof -
  show "gate_all en cap obs w = Ret w' \<Longrightarrow> conns (begun base work opn b0 fin D) w \<Longrightarrow> conns (begun base work opn b0 fin D) w'"
    by (rule gates_conns(1)[where P = "begun base work opn b0 fin D" and en = en]) (rule authorize_stable[OF assms])
  show "ungate_all en cap obs w = Ret w' \<Longrightarrow> conns (begun base work opn b0 fin D) w \<Longrightarrow> conns (begun base work opn b0 fin D) w'"
    by (rule gates_conns(2)[where P = "begun base work opn b0 fin D" and en = en]) (rule authorize_stable[OF assms])
  show "ungate_all en cap obs w = Ret w' \<Longrightarrow> conns (kept_base base opn b0 K D) w \<Longrightarrow> conns (kept_base base opn b0 K D) w'"
    by (rule gates_conns(2)[where P = "kept_base base opn b0 K D" and en = en]) (rule authorize_stable[OF assms])
qed

lemma rollback_conns:
  assumes "sqlite_like en base work opn ctl eff" "on_all obs (\<lambda>_. en_rollback en) w = Ret w'" "conns (kept_base base opn b0 K (set obs)) w"
  shows "conns (kept_base base opn b0 K {}) w'"
proof -
  have "kept_base base opn b0 K (set obs) ob (en_rollback en c) \<and> \<not> opn (en_rollback en c)" if "kept_base base opn b0 K (set obs) ob c" for ob c
    using that sqlite_rollback[OF assms(1), of c] by (simp add: kept_base_def)
  from conns_on_all[OF assms(2,3) this] show ?thesis
    by (rule conns_mono) (auto simp: kept_base_def)
qed

text \<open>What a failed and what a successful run leave.\<close>

definition undone :: "('c \<Rightarrow> 's) \<Rightarrow> ('c, 'v) wrk \<Rightarrow> ('c, 'v) wrk \<Rightarrow> bool" where
  "undone base w w' \<longleftrightarrow> (\<forall>ob c'. map_of (wk_live w') ob = Some c' \<longrightarrow> (\<exists>c. map_of (wk_live w) ob = Some c \<and> base c' = base c))"

definition content :: "('c \<Rightarrow> 's) \<Rightarrow> ('c, 'v) wrk \<Rightarrow> string \<Rightarrow> 's" where
  "content base w ob = base (the (map_of (wk_live w) ob))"

lemma undone_kept: "conn_same w w1 \<Longrightarrow> conns (kept_base base opn (content base w) {} D) w1 \<Longrightarrow> undone base w w1"
  unfolding undone_def conns_def kept_base_def content_def conn_same_def by (metis empty_iff option.collapse option.distinct(1) option.sel)

lemma carried_closed:
  assumes "conn_same w w'" "conns (closed_at base opn (content base w) (after eff prs (\<lambda>ob s. s = content base w ob)) (set obs)) w'"
  shows "rel_option (carried base opn eff obs prs ob) (map_of (wk_live w) ob) (map_of (wk_live w') ob)"
proof (cases "map_of (wk_live w) ob")
  case None
  then show ?thesis using assms(1) by (simp add: conn_same_def)
next
  case (Some c)
  then obtain c' where c': "map_of (wk_live w') ob = Some c'" using assms(1) unfolding conn_same_def by (metis option.distinct(1) option.exhaust)
  then have "closed_at base opn (content base w) (after eff prs (\<lambda>ob s. s = content base w ob)) (set obs) ob c'"
    using assms(2) by (simp add: conns_def)
  then show ?thesis using Some c' by (auto simp: closed_at_def carried_def after_def content_def split: if_splits)
qed

lemma undone_refl: "undone base w w"
  by (simp add: undone_def)

lemma commit_phase_outcome:
  assumes "sqlite_like en base work opn ctl eff" "commit_phase en obs before results v = Ret (res, w')" "distinct obs" "live_all (set obs) v" "conn_same w v"
    and start: "conns (begun base work opn (content base w) fin (set obs)) v"
  shows "case res of Inl _ \<Rightarrow> undone base w w' \<and> conns (\<lambda>ob c. \<not> opn c) w'
     | Inr x \<Rightarrow> fst x = results \<and> conn_same w w' \<and> conns (closed_at base opn (content base w) fin (set obs)) w'"
proof -
  obtain r v1 where 1: "commit_all en 0 obs v = Ret (r, v1)" "conn_same v v1" using commit_all_same[OF assms(4)] by blast
  have c: "case r of None \<Rightarrow> conns (closed_at base opn (content base w) fin ({} \<union> set obs)) v1
     | Some (k, e) \<Rightarrow> 0 \<le> k \<and> conns (kept_base base opn (content base w) ({} \<union> set (take (k - 0) obs)) (set (drop (k - 0) obs))) v1"
    by (rule commit_phase_conns[OF assms(1) 1(1) assms(3)]) (use start in \<open>auto simp: begun_def committing_def conns_def\<close>)
  have s1: "conn_same w v1" by (rule conn_same_trans[OF assms(5) 1(2)])
  show ?thesis
  proof (cases r)
    case None
    then show ?thesis using assms(2) 1(1) c s1 by (auto simp: commit_phase_def Let_def)
  next
    case (Some x)
    obtain k e where x: "x = (k, e)" by force
    have "live_all (set (drop k obs)) v1"
      by (rule live_all_mono[OF conn_same_live[OF 1(2) assms(4)] set_drop_subset])
    then obtain v2 where 2: "on_all (drop k obs) (\<lambda>_. en_rollback en) v1 = Ret v2" "conn_same v1 v2" using on_all_same by blast
    have "conns (kept_base base opn (content base w) (set (take k obs)) (set (drop k obs))) v1" using c Some x by simp
    then have k2: "conns (kept_base base opn (content base w) (set (take k obs)) {}) v2" by (rule rollback_conns[OF assms(1) 2(1)])
    have res: "res = Inl (internal (''local commit failed: '' @ e))" "w' = revert_closure (take k obs) v2"
      using assms(2) 1(1) 2(1) Some x by (auto simp: commit_phase_def)
    have s2: "conn_same w v2" by (rule conn_same_trans[OF s1 2(2)])
    have live: "map_of (wk_live w') ob = Some c \<Longrightarrow> ob \<notin> set (take k obs) \<and> map_of (wk_live v2) ob = Some c" for ob c
      using seed_sunk[of "take k obs" v2] unfolding res(2) revert_closure_fields by (auto split: if_splits)
    have "undone base w w'"
      unfolding undone_def
    proof (intro allI impI)
      fix ob c' assume "map_of (wk_live w') ob = Some c'"
      then have l: "ob \<notin> set (take k obs)" "map_of (wk_live v2) ob = Some c'" using live by blast+
      then have "base c' = content base w ob" using k2 by (auto simp: conns_def kept_base_def)
      moreover have "map_of (wk_live w) ob \<noteq> None" using s2 l(2) unfolding conn_same_def by (metis option.distinct(1))
      ultimately show "\<exists>c. map_of (wk_live w) ob = Some c \<and> base c' = base c" by (auto simp: content_def)
    qed
    moreover have "conns (\<lambda>ob c. \<not> opn c) w'" using k2 live unfolding conns_def kept_base_def by blast
    ultimately show ?thesis using res(1) by simp
  qed
qed

section \<open>Properties\<close>

text \<open>C5: On an engine that behaves as SQLite documents a transaction is applied whole or not at all, when its statements do not themselves control transactions (C6
  shows what a \<open>COMMIT\<close> among them does), touch only the participants, and no connection has a transaction open.
  When it succeeds, the committed content of every participant is what its own statements, in their order and with the
  answers given, make of the content before; other objects keep theirs, and no transaction is left open. When it
  fails, every object still live has the committed content it had before (the others were reverted with it), and no
  transaction is left open, provided \<open>BEGIN\<close> succeeds on a connection that has none.\<close>

theorem apply_all_or_nothing:
  assumes "sqlite_like en base work opn ctl eff" "distinct obs" "op_object ` set ops \<subseteq> set obs" "\<forall>p \<in> set ops. \<not> ctl (op_sql p)"
    "\<forall>ob c. map_of (wk_live w) ob = Some c \<longrightarrow> \<not> opn c" "apply_txn en obs ops False cap w = Ret (res, w')"
  shows "case res of
      Inl e \<Rightarrow> (\<forall>ob c'. map_of (wk_live w') ob = Some c' \<longrightarrow> (\<exists>c. map_of (wk_live w) ob = Some c \<and> base c' = base c))
        \<and> ((\<forall>c. \<not> opn c \<longrightarrow> fst (en_begin en c) = Inr ()) \<longrightarrow> (\<forall>ob c'. map_of (wk_live w') ob = Some c' \<longrightarrow> \<not> opn c'))
    | Inr x \<Rightarrow> length (fst x) = length ops
        \<and> (\<forall>ob. rel_option (carried base opn eff obs (zip ops (fst x)) ob) (map_of (wk_live w) ob) (map_of (wk_live w') ob))"
proof (cases "List.find (\<lambda>ob. map_of (wk_live w) ob = None) obs")
  case (Some ob)
  then show ?thesis using assms(5,6) by (auto simp: apply_txn_def)
next
  case None
  let ?b0 = "content base w" and ?init = "\<lambda>ob s. s = content base w ob"
  have live: "live_all (set obs) w" using None by (auto simp: find_None_iff live_all_def)
  note ops = live_all_mono[OF live assms(3)]
  obtain w1 where 1: "gate_all en cap obs w = Ret w1" "conn_same w w1" using gates_same(1)[OF live] by blast
  obtain r2 w2 where 2: "begin_all en obs w1 = Ret (r2, w2)" "conn_same w1 w2" using begin_all_same[OF conn_same_live[OF 1(2) live]] by blast
  have s2: "conn_same w w2" by (rule conn_same_trans[OF 1(2) 2(2)])
  have "conns (begun base work opn ?b0 ?init {}) w" using assms(5) by (auto simp: conns_def begun_def content_def)
  then have c1: "conns (begun base work opn ?b0 ?init {}) w1" by (rule gates_stable(1)[OF assms(1) 1(1)])
  have c2: "case r2 of Inr _ \<Rightarrow> conns (begun base work opn ?b0 ?init (set obs)) w2
     | Inl _ \<Rightarrow> conns (kept_base base opn ?b0 {} (set obs)) w2 \<and> \<not> (\<forall>c. \<not> opn c \<longrightarrow> fst (en_begin en c) = Inr ())"
    using begin_phase[OF assms(1) 2(1) assms(2) Int_empty_right c1] unfolding Un_empty_left .
  have wrong: ?thesis if "res = Inl e" "undone base w w'" "(\<forall>c. \<not> opn c \<longrightarrow> fst (en_begin en c) = Inr ()) \<longrightarrow> conns (\<lambda>ob c. \<not> opn c) w'" for e
    using that by (simp add: undone_def conns_def)
  show ?thesis
  proof (cases r2)
    case (Inl e)
    obtain w3 where 3: "ungate_all en cap obs w2 = Ret w3" "conn_same w2 w3" using gates_same(2)[OF conn_same_live[OF s2 live]] by blast
    have res: "res = Inl (internal e)" "w' = w3" using assms(6) None 1(1) 2(1) 3(1) Inl by (simp_all add: apply_txn_def Let_def)
    have "conns (kept_base base opn ?b0 {} (set obs)) w2" using c2 Inl by simp
    then have "conns (kept_base base opn ?b0 {} (set obs)) w3" by (rule gates_stable(3)[OF assms(1) 3(1)])
    then have "undone base w w'" unfolding res(2) by (rule undone_kept[OF conn_same_trans[OF s2 3(2)]])
    moreover have "\<not> (\<forall>c. \<not> opn c \<longrightarrow> fst (en_begin en c) = Inr ())" using c2 unfolding Inl by simp
    ultimately show ?thesis using wrong[OF res(1)] by blast
  next
    case (Inr u)
    have c2': "conns (begun base work opn ?b0 ?init (set obs)) w2" using c2 Inr by simp
    obtain r3 w3 where 3: "write_ops en ops w2 = Ret (r3, w3)" "conn_same w2 w3" using write_ops_same[OF conn_same_live[OF s2 ops]] by blast
    have s3: "conn_same w w3" by (rule conn_same_trans[OF s2 3(2)])
    have c3: "case r3 of Inr rs \<Rightarrow> length rs = length ops \<and> conns (begun base work opn ?b0 (after eff (zip ops rs) ?init) (set obs)) w3
       | Inl _ \<Rightarrow> conns (kept_base base opn ?b0 {} (set obs)) w3"
      by (rule write_phase[OF assms(1) 3(1) assms(3,4) c2'])
    show ?thesis
    proof (cases r3)
      case (Inl msg)
      obtain w4 where 4: "on_all obs (\<lambda>_. en_rollback en) w3 = Ret w4" "conn_same w3 w4" using on_all_same[OF conn_same_live[OF s3 live]] by blast
      note s4 = conn_same_trans[OF s3 4(2)]
      obtain w5 where 5: "ungate_all en cap obs w4 = Ret w5" "conn_same w4 w5" using gates_same(2)[OF conn_same_live[OF s4 live]] by blast
      have res: "res = Inl (bad_request (''op failed, transaction rolled back: '' @ msg))" "w' = w5"
        using assms(6) None 1(1) 2(1) 3(1) 4(1) 5(1) \<open>r2 = Inr u\<close> Inl by (simp_all add: apply_txn_def Let_def)
      have "conns (kept_base base opn ?b0 {} (set obs)) w3" using c3 Inl by simp
      then have "conns (kept_base base opn ?b0 {} {}) w4" by (rule rollback_conns[OF assms(1) 4(1)])
      then have c5: "conns (kept_base base opn ?b0 {} {}) w5" by (rule gates_stable(3)[OF assms(1) 5(1)])
      have "undone base w w'" unfolding res(2) by (rule undone_kept[OF conn_same_trans[OF s4 5(2)] c5])
      moreover have "conns (\<lambda>ob c. \<not> opn c) w'" unfolding res(2) by (rule conns_mono[OF c5]) (simp add: kept_base_def)
      ultimately show ?thesis using wrong[OF res(1)] by blast
    next
      case (Inr results)
      let ?fin = "after eff (zip ops results) ?init"
      obtain w4 where 4: "ungate_all en cap obs w3 = Ret w4" "conn_same w3 w4" using gates_same(2)[OF conn_same_live[OF s3 live]] by blast
      have s4: "conn_same w w4" by (rule conn_same_trans[OF s3 4(2)])
      have "conns (begun base work opn ?b0 ?fin (set obs)) w3" using c3 Inr by simp
      then have c4: "conns (begun base work opn ?b0 ?fin (set obs)) w4" by (rule gates_stable(2)[OF assms(1) 4(1)])
      have run: "commit_phase en obs (map (\<lambda>ob. (ob, file_change_counter en w ob)) obs) results w4 = Ret (res, w')"
        using assms(6) None 1(1) 2(1) 3(1) 4(1) \<open>r2 = Inr u\<close> Inr by (simp add: apply_txn_def Let_def o_def)
      have fin: "case res of Inl _ \<Rightarrow> undone base w w' \<and> conns (\<lambda>ob c. \<not> opn c) w'
         | Inr x \<Rightarrow> fst x = results \<and> conn_same w w' \<and> conns (closed_at base opn ?b0 ?fin (set obs)) w'"
        by (rule commit_phase_outcome[OF assms(1) run assms(2) conn_same_live[OF s4 live] s4 c4])
      show ?thesis
      proof (cases res)
        case (Inl e)
        then show ?thesis using wrong[OF Inl] fin by simp
      next
        case (Inr x)
        then have "fst x = results" "conn_same w w'" "conns (closed_at base opn ?b0 ?fin (set obs)) w'" using fin by simp_all
        then show ?thesis using carried_closed[of w w' base opn eff "zip ops results" obs] c3 \<open>r3 = Inr results\<close> Inr by simp
      qed
    qed
  qed
qed

section \<open>A small database\<close>

text \<open>
  A database of strings with SQLite's transactions: a statement inserts its text, \<open>bad\<close> is an error, \<open>COMMIT\<close> refuses a
  row \<open>deferred\<close>, and the statements that control transactions count as read-only, as SQLite documents.
\<close>

record mini = mini_rows :: "string list" mini_work :: "string list option"

definition mini_ctl :: "string \<Rightarrow> bool" where
  "mini_ctl sql \<longleftrightarrow> sql \<in> {''BEGIN'', ''COMMIT'', ''ROLLBACK''}"

definition mini_begin :: "mini \<Rightarrow> unit result \<times> mini" where
  "mini_begin c = (case mini_work c of None \<Rightarrow> (Inr (), c\<lparr>mini_work := Some (mini_rows c)\<rparr>)
   | Some _ \<Rightarrow> (Inl ''cannot start a transaction within a transaction'', c))"

definition mini_commit :: "mini \<Rightarrow> unit result \<times> mini" where
  "mini_commit c = (case mini_work c of None \<Rightarrow> (Inl ''cannot commit - no transaction is active'', c)
   | Some rows \<Rightarrow> if ''deferred'' \<in> set rows then (Inl ''FOREIGN KEY constraint failed'', c) else (Inr (), \<lparr>mini_rows = rows, mini_work = None\<rparr>))"

definition mini_run :: "mini \<Rightarrow> string \<Rightarrow> unit list \<Rightarrow> (string + unit op_result) \<times> mini" where
  "mini_run c sql ps =
     (if sql = ''BEGIN'' then (case mini_begin c of (Inr _, c') \<Rightarrow> (Inr (Affected 0), c') | (Inl e, c') \<Rightarrow> (Inl e, c'))
      else if sql = ''COMMIT'' then (case mini_commit c of (Inr _, c') \<Rightarrow> (Inr (Affected 0), c') | (Inl e, c') \<Rightarrow> (Inl e, c'))
      else if sql = ''ROLLBACK'' then (Inr (Affected 0), c\<lparr>mini_work := None\<rparr>)
      else if sql = ''bad'' then (Inl ''syntax error'', c)
      else (Inr (Affected 1), case mini_work c of None \<Rightarrow> c\<lparr>mini_rows := mini_rows c @ [sql]\<rparr> | Some rows \<Rightarrow> c\<lparr>mini_work := Some (rows @ [sql])\<rparr>))"

definition mini_sql :: "(mini, unit) engine" where
  "mini_sql = \<lparr>en_open = \<lambda>_. Inr \<lparr>mini_rows = [], mini_work = None\<rparr>, en_file = \<lambda>_ c. Some (replicate 27 0 @ [of_nat (length (mini_rows c))]),
     en_run = mini_run, en_readonly = \<lambda>_ sql. Inr (mini_ctl sql), en_begin = mini_begin, en_commit = mini_commit,
     en_rollback = \<lambda>c. c\<lparr>mini_work := None\<rparr>, en_authorize = \<lambda>_ c. c, en_json = \<lambda>_. [], en_page_hash = \<lambda>_. 0, en_encode = \<lambda>_. [],
     en_decode = \<lambda>_. Inl ''no'', en_disk = \<lambda>_. None\<rparr>"

definition mini_seen :: "mini \<Rightarrow> string list" where
  "mini_seen c = (case mini_work c of None \<Rightarrow> mini_rows c | Some rows \<Rightarrow> rows)"

definition mini_eff :: "unit op \<Rightarrow> unit op_result \<Rightarrow> string list \<Rightarrow> string list \<Rightarrow> bool" where
  "mini_eff p r s s' \<longleftrightarrow> r = Affected 1 \<and> s' = s @ [op_sql p]"

lemma mini_sqlite: "sqlite_like mini_sql mini_rows mini_seen (\<lambda>c. mini_work c \<noteq> None) mini_ctl mini_eff"
  by (auto simp: sqlite_like_def mini_seen_def mini_eff_def mini_sql_def mini_begin_def mini_commit_def mini_run_def mini_ctl_def split: option.splits)

definition idle_with :: "(string \<times> 'c) list \<Rightarrow> ('c, unit) wrk" where
  "idle_with live = \<lparr>wk_id = 1, wk_dir = ''live'', wk_owned = [], wk_transit = [], wk_live = live, wk_meta = [], wk_queues = [],
     wk_parked = [], wk_next_txn = 0, wk_executed = 0, wk_dirty = [], wk_dirty_bytes = 0, wk_pending = [], wk_manifests = [],
     wk_log_seq = [], wk_inflight = None, wk_polls = [], wk_needs_service = [], wk_closing = None, wk_done = False,
     wk_routing = \<lparr>rt_logical = 4, rt_blocks = 2, rt_exceptions = [(''a'', 1), (''b'', 1)], rt_addrs = []\<rparr>,
     wk_disk = ledger_new 1000, wk_clock = 0, wk_hysteresis = 0, wk_log_primary = True, wk_max_boat = 35, wk_max_unshipped = 100,
     wk_gone = [], wk_out = []\<rparr>"

definition two_wrk :: "(mini, unit) wrk" where
  "two_wrk = idle_with [(''a'', \<lparr>mini_rows = [''x''], mini_work = None\<rparr>), (''b'', \<lparr>mini_rows = [], mini_work = None\<rparr>)]"

definition mini_op :: "string \<Rightarrow> string \<Rightarrow> unit op" where
  "mini_op ob sql = \<lparr>op_object = ob, op_sql = sql, op_params = []\<rparr>"

text \<open>The second object's deferred constraint fails at its \<open>COMMIT\<close>: the first, already committed, is reverted.\<close>

lemma two_applied: "case apply_txn mini_sql [''a'', ''b''] [mini_op ''a'' ''y'', mini_op ''b'' ''deferred''] False None two_wrk of
    Ret (Inl e, w') \<Rightarrow> map fst (wk_live w') = [''b''] | _ \<Rightarrow> False"
  by code_simp

lemma failed_shape: "(case x of Ret (Inl e, w') \<Rightarrow> P e w' | _ \<Rightarrow> False) \<Longrightarrow> \<exists>e w'. x = Ret (Inl e, w') \<and> P e w'"
  by (auto split: rust.splits prod.splits sum.splits)

text \<open>Without the constraint both succeed.\<close>

lemma two_done: "case apply_txn mini_sql [''a'', ''b''] [mini_op ''a'' ''y'', mini_op ''b'' ''z''] False None two_wrk of
    Ret (Inr x, w') \<Rightarrow> fst x = [Affected 1, Affected 1] | _ \<Rightarrow> False"
  by code_simp

lemma done_shape: "(case x of Ret (Inr y, w') \<Rightarrow> P y w' | _ \<Rightarrow> False) \<Longrightarrow> \<exists>y w'. x = Ret (Inr y, w') \<and> P y w'"
  by (auto split: rust.splits prod.splits sum.splits)

lemma apply_all_or_nothing_witness:
  "(\<exists>e w' c'. apply_txn mini_sql [''a'', ''b''] [mini_op ''a'' ''y'', mini_op ''b'' ''deferred''] False None two_wrk = Ret (Inl e, w')
     \<and> wk_live w' = [(''b'', c')] \<and> mini_rows c' = [] \<and> mini_work c' = None)
   \<and> (\<exists>x w' c'. apply_txn mini_sql [''a'', ''b''] [mini_op ''a'' ''y'', mini_op ''b'' ''z''] False None two_wrk = Ret (Inr x, w')
     \<and> map_of (wk_live w') ''a'' = Some c' \<and> mini_rows c' = [''x'', ''y''] \<and> mini_work c' = None)"
proof
  let ?idle = "\<lambda>w. \<forall>ob c. map_of (wk_live w) ob = Some c \<longrightarrow> \<not> mini_work c \<noteq> None"
  have idle: "?idle two_wrk" by (auto simp: two_wrk_def idle_with_def split: if_splits)
  obtain e w' where r: "apply_txn mini_sql [''a'', ''b''] [mini_op ''a'' ''y'', mini_op ''b'' ''deferred''] False None two_wrk = Ret (Inl e, w')"
    "map fst (wk_live w') = [''b'']" using failed_shape[OF two_applied] by (elim exE conjE) (rule that)
  then obtain c' where c': "wk_live w' = [(''b'', c')]" by auto
  have f: "(\<forall>ob c'. map_of (wk_live w') ob = Some c' \<longrightarrow> (\<exists>c. map_of (wk_live two_wrk) ob = Some c \<and> mini_rows c' = mini_rows c))
     \<and> ((\<forall>c. \<not> mini_work c \<noteq> None \<longrightarrow> fst (en_begin mini_sql c) = Inr ()) \<longrightarrow> ?idle w')"
    using apply_all_or_nothing[OF mini_sqlite _ _ _ idle r(1)] by (simp add: mini_op_def mini_ctl_def)
  moreover have "\<forall>c. \<not> mini_work c \<noteq> None \<longrightarrow> fst (en_begin mini_sql c) = Inr ()" by (simp add: mini_sql_def mini_begin_def)
  ultimately have "?idle w'" by blast
  then have "mini_work c' = None" using c' by simp
  moreover have "mini_rows c' = []" using conjunct1[OF f, rule_format, of "''b''" c'] c' by (simp add: two_wrk_def idle_with_def)
  ultimately show "\<exists>e w' c'. apply_txn mini_sql [''a'', ''b''] [mini_op ''a'' ''y'', mini_op ''b'' ''deferred''] False None two_wrk = Ret (Inl e, w')
     \<and> wk_live w' = [(''b'', c')] \<and> mini_rows c' = [] \<and> mini_work c' = None"
    using r(1) c' by blast
  obtain x w2 where d: "apply_txn mini_sql [''a'', ''b''] [mini_op ''a'' ''y'', mini_op ''b'' ''z''] False None two_wrk = Ret (Inr x, w2)"
    "fst x = [Affected 1, Affected 1]" using done_shape[OF two_done] by (elim exE conjE) (rule that)
  have "rel_option (carried mini_rows (\<lambda>c. mini_work c \<noteq> None) mini_eff [''a'', ''b''] (zip [mini_op ''a'' ''y'', mini_op ''b'' ''z''] (fst x)) ''a'')
     (map_of (wk_live two_wrk) ''a'') (map_of (wk_live w2) ''a'')"
    using apply_all_or_nothing[OF mini_sqlite _ _ _ idle d(1)] by (simp add: mini_op_def mini_ctl_def)
  then show "\<exists>x w' c'. apply_txn mini_sql [''a'', ''b''] [mini_op ''a'' ''y'', mini_op ''b'' ''z''] False None two_wrk = Ret (Inr x, w')
     \<and> map_of (wk_live w') ''a'' = Some c' \<and> mini_rows c' = [''x'', ''y''] \<and> mini_work c' = None"
    using d by (auto simp: two_wrk_def idle_with_def option_rel_Some1 carried_def on_object_def mini_op_def mini_eff_def)
qed



section \<open>A transaction that ends itself\<close>

text \<open>The statements of one connection up to the first error.\<close>

primrec stmts :: "('c, 'v) engine \<Rightarrow> 'v op list \<Rightarrow> 'c \<Rightarrow> 'c option" where
  "stmts en [] c = Some c"
| "stmts en (p # ps) c = (case en_run en c (op_sql p) (op_params p) of (Inl _, _) \<Rightarrow> None | (Inr _, c') \<Rightarrow> stmts en ps c')"

lemma write_ops_stmts:
  assumes "\<forall>p \<in> set pre. op_object p = ob" "map_of (wk_live w) ob = Some c" "stmts en pre c = Some c'" "op_object bad = ob"
    "en_run en c' (op_sql bad) (op_params bad) = (Inl e, c'')"
  shows "\<exists>m. write_ops en (pre @ bad # post) w = Ret (Inl e, w\<lparr>wk_live := m\<rparr>) \<and> map_of m ob = Some c''"
  using assms
proof (induction pre arbitrary: w c)
  case Nil
  then show ?case by (auto simp: on_conn_def intro!: exI[of _ "bt_insert ob c'' (wk_live w)"])
next
  case (Cons p pre)
  obtain x c1 where x: "en_run en c (op_sql p) (op_params p) = (Inr x, c1)" "stmts en pre c1 = Some c'"
    using Cons.prems(3) by (auto split: prod.splits sum.splits)
  obtain m where "write_ops en (pre @ bad # post) (w\<lparr>wk_live := bt_insert ob c1 (wk_live w)\<rparr>) = Ret (Inl e, w\<lparr>wk_live := m\<rparr>)"
      "map_of m ob = Some c''"
    using Cons.IH[of "w\<lparr>wk_live := bt_insert ob c1 (wk_live w)\<rparr>" c1] Cons.prems x(2) by auto
  then show ?case using Cons.prems(1,2) x(1) by (auto simp: on_conn_def)
qed

lemma stmts_work:
  assumes "sqlite_like en base work opn ctl eff" "opn c" "\<forall>p \<in> set ps. \<not> ctl (op_sql p)" "stmts en ps c = Some c'"
  shows "opn c' \<and> base c' = base c \<and> (\<exists>rs. length rs = length ps \<and> effects eff (zip ps rs) (work c) (work c'))"
  using assms(2-)
proof (induction ps arbitrary: c)
  case (Cons p ps)
  obtain x c1 where x: "en_run en c (op_sql p) (op_params p) = (Inr x, c1)" "stmts en ps c1 = Some c'"
    using Cons.prems(3) by (auto split: prod.splits sum.splits)
  have 1: "base c1 = base c \<and> opn c1 \<and> eff p x (work c) (work c1)"
    using sqlite_run[OF assms(1) Cons.prems(1), of p] Cons.prems(2) x(1) by simp
  then obtain rs where "opn c'" "base c' = base c1" "length rs = length ps" "effects eff (zip ps rs) (work c1) (work c')"
    using Cons.IH[of c1] Cons.prems(2) x(2) by auto
  then show ?case using 1 by (auto intro!: exI[of _ "x # rs"])
qed simp

lemma stmts_append: "stmts en (ps @ qs) c = Option.bind (stmts en ps c) (stmts en qs)"
  by (induction ps arbitrary: c) (auto split: prod.splits sum.splits)

text \<open>C6: A write can escape its transaction, over any database that behaves as SQLite documents and whose \<open>COMMIT\<close> statement does what
  \<open>apply\<close>'s own commit does. Take a transaction on an object whose statements succeed up to and including a \<open>COMMIT\<close>
  among them, and whose next statement fails without changing the committed content: it answers that it was rolled back,
  while the effects of all the statements before the \<open>COMMIT\<close> are the live object's committed content, and the object
  is not marked dirty by it.\<close>

theorem commit_statement_escapes:
  assumes "sqlite_like en base work opn ctl eff"
    and "\<forall>c. map_prod (map_sum id (\<lambda>_. ())) id (en_run en c ''COMMIT'' []) = en_commit en c"
    and "map_of (wk_live w) ob = Some c" "\<not> opn c" "en_begin en c = (Inr (), c1)"
    and "\<forall>p \<in> set pre. op_object p = ob \<and> \<not> ctl (op_sql p)" "stmts en pre c1 = Some c2" "en_commit en c2 = (Inr (), c3)"
    and "op_object bad = ob" "en_run en c3 (op_sql bad) (op_params bad) = (Inl e, c4)" "base c4 = base c3"
  shows "\<exists>w' c'. apply_txn en [ob] (pre @ \<lparr>op_object = ob, op_sql = ''COMMIT'', op_params = []\<rparr> # bad # post) False None w
        = Ret (Inl (bad_request (''op failed, transaction rolled back: '' @ e)), w')
     \<and> wk_dirty w' = wk_dirty w \<and> map_of (wk_live w') ob = Some c'
     \<and> (\<exists>rs. length rs = length pre \<and> effects eff (zip pre rs) (base c) (base c'))"
proof -
  let ?com = "\<lparr>op_object = ob, op_sql = ''COMMIT'', op_params = []\<rparr>" and ?v = "w\<lparr>wk_live := bt_insert ob c1 (wk_live w)\<rparr>"
  have b: "base c1 = base c" "work c1 = base c" "opn c1" using sqlite_begin[OF assms(1,4)] assms(5) by simp_all
  obtain rs where pre: "opn c2" "length rs = length pre" "effects eff (zip pre rs) (work c1) (work c2)"
    using stmts_work[OF assms(1) b(3) _ assms(7)] assms(6) by auto
  have "base c3 = work c2" using sqlite_commit[OF assms(1) pre(1)] assms(8) by simp
  then have ef: "effects eff (zip pre rs) (base c) (base (en_rollback en c4))"
    using pre(3) b(2) assms(11) sqlite_rollback[OF assms(1), of c4] by simp
  obtain r where "en_run en c2 ''COMMIT'' [] = (Inr r, c3)"
    using assms(2)[rule_format, of c2] assms(8) by (cases "en_run en c2 ''COMMIT'' []"; cases "fst (en_run en c2 ''COMMIT'' [])") auto
  then have "stmts en (pre @ [?com]) c1 = Some c3" using assms(7) by (simp add: stmts_append)
  then obtain m where m: "write_ops en ((pre @ [?com]) @ bad # post) ?v = Ret (Inl e, ?v\<lparr>wk_live := m\<rparr>)" "map_of m ob = Some c4"
    using write_ops_stmts[of "pre @ [?com]" ob ?v c1 en c3 bad e c4 post] assms(6,9,10) by auto
  have "apply_txn en [ob] (pre @ ?com # bad # post) False None w
      = Ret (Inl (bad_request (''op failed, transaction rolled back: '' @ e)), w\<lparr>wk_live := bt_insert ob (en_rollback en c4) m\<rparr>)"
    using assms(3,5) m by (simp add: apply_txn_def gate_all_def ungate_all_def on_conn_def Let_def)
  then show ?thesis using ef pre(2) by auto
qed

lemma commit_statement_escapes_witness:
  "\<exists>w' c'. apply_txn mini_sql [''a''] [mini_op ''a'' ''y'', mini_op ''a'' ''COMMIT'', mini_op ''a'' ''bad''] False None two_wrk
       = Ret (Inl (bad_request ''op failed, transaction rolled back: syntax error''), w')
     \<and> wk_dirty w' = [] \<and> map_of (wk_live two_wrk) ''a'' = Some \<lparr>mini_rows = [''x''], mini_work = None\<rparr>
     \<and> map_of (wk_live w') ''a'' = Some c' \<and> mini_rows c' = [''x'', ''y'']"
proof -
  let ?x = "\<lparr>mini_rows = [''x''], mini_work = None\<rparr>" and ?xy = "\<lparr>mini_rows = [''x'', ''y''], mini_work = None\<rparr>"
  have com: "\<forall>c. map_prod (map_sum id (\<lambda>_. ())) id (en_run mini_sql c ''COMMIT'' []) = en_commit mini_sql c"
    by (auto simp: mini_sql_def mini_run_def mini_commit_def split: option.splits)
  have "\<exists>w' c'. apply_txn mini_sql [''a''] ([mini_op ''a'' ''y''] @ \<lparr>op_object = ''a'', op_sql = ''COMMIT'', op_params = []\<rparr> # mini_op ''a'' ''bad'' # []) False None two_wrk
        = Ret (Inl (bad_request (''op failed, transaction rolled back: '' @ ''syntax error'')), w')
     \<and> wk_dirty w' = wk_dirty two_wrk \<and> map_of (wk_live w') ''a'' = Some c'
     \<and> (\<exists>rs. length rs = length [mini_op ''a'' ''y''] \<and> effects mini_eff (zip [mini_op ''a'' ''y''] rs) (mini_rows ?x) (mini_rows c'))"
    by (rule commit_statement_escapes[OF mini_sqlite com, where ?c1.0 = "\<lparr>mini_rows = [''x''], mini_work = Some [''x'']\<rparr>" and ?c2.0 = "\<lparr>mini_rows = [''x''], mini_work = Some [''x'', ''y'']\<rparr>" and ?c3.0 = ?xy and ?c4.0 = ?xy])
       (simp_all add: two_wrk_def idle_with_def mini_sql_def mini_run_def mini_begin_def mini_commit_def mini_ctl_def mini_op_def)
  then show ?thesis by (auto simp: mini_op_def mini_eff_def two_wrk_def idle_with_def length_Suc_conv)
qed

end
