(* ===== verification/Loop_Props.thy ===== *)
theory Loop_Props
  imports Loop_Handle Exec_Props Ship_Props
begin

text \<open>
  The properties of the worker's message loop, over everything it can go through from its start: messages in
  any order with any answers of the store, while other tasks of the node change the routing, the clock
  and the disk ledger and clients go away.
\<close>

section \<open>Lives of a worker\<close>

inductive worker_run :: "('c, 'v) engine \<Rightarrow> ('c, 'v) wrk \<Rightarrow> nat list \<Rightarrow> nat list \<Rightarrow> ('c, 'v) wrk \<Rightarrow> bool" for en w0 where
  start: "worker_run en w0 [] [] w0"
| node: "worker_run en w0 subs cans w \<Longrightarrow> set (wk_gone w) \<subseteq> set gone \<Longrightarrow>
    worker_run en w0 subs cans (w\<lparr>wk_routing := rt, wk_disk := d, wk_clock := t, wk_gone := gone\<rparr>)"
| message: "worker_run en w0 subs cans w \<Longrightarrow> \<not> wk_done w \<Longrightarrow> msg_ok m \<Longrightarrow> fst (served f (handle en n m w) t) = Some (Ret w') \<Longrightarrow>
    worker_run en w0 (subs @ submitted m) (cans @ cancelled w m) w'"

inductive_cases message_last: "worker_run en w0 subs cans w"

lemma good_new: "good (worker_new nd me dir owned transit)"
  by (simp add: good_def boats_wf_def counted_def pending_objects_def locks_def worker_new_def)

lemma good_node: "good w \<Longrightarrow> good (w\<lparr>wk_routing := rt, wk_disk := d, wk_clock := t, wk_gone := gone\<rparr>)"
proof -
  let ?w = "w\<lparr>wk_routing := rt, wk_disk := d, wk_clock := t, wk_gone := gone\<rparr>"
  assume g: "good w"
  have "boats_wf ?w" by (rule boats_wf_same[of w]) (use g in \<open>simp_all add: good_def\<close>)
  moreover have "held ?w = held w" by (simp add: held_def fun_eq_iff)
  then have "locks ?w" using g by (simp add: good_def locks_def holds_def)
  ultimately show ?thesis using g by (simp add: good_def)
qed

lemma handle_sound:
  assumes "good w" "msg_ok m"
  shows "returns (sound (handled m w)) (handle en n m w)"
  using handle_settles[OF assms] by (simp add: settles_def)

lemma handle_result:
  assumes "good w" "msg_ok m" "fst (served f (handle en n m w) t) = Some (Ret w')"
  shows "handled m w w'"
  using returns_served[where f = f and s = t, OF handle_sound[OF assms(1,2), of en n]] assms(3) by simp

lemma count_lv: "r \<notin> set (wk_gone w) \<Longrightarrow> count (lv w rs) r = count (mset rs) r" "r \<notin> set (wk_gone w) \<Longrightarrow> count (toks w) r = count (all_toks w) r"
  by (simp_all add: lv_def toks_def)

lemma handled_counts:
  assumes "handled m w w'" "r \<notin> set (wk_gone w')"
  shows "count (all_toks w') r + count (mset (cancelled w m)) r = count (all_toks w) r + count (mset (submitted m)) r"
proof -
  have g: "r \<notin> set (wk_gone w)" using assms by (simp add: handled_def)
  have "count (toks w' + lv w (cancelled w m)) r = count (toks w + lv w (submitted m)) r" using assms(1) by (simp add: handled_def)
  then show ?thesis using count_lv(1)[OF g] count_lv(2)[OF g] count_lv(2)[OF assms(2)] by simp
qed

lemma all_toks_node: "all_toks (w\<lparr>wk_routing := rt, wk_disk := d, wk_clock := t, wk_gone := gone\<rparr>) = all_toks w"
  by (simp add: all_toks_def)

lemma run_invariant:
  assumes "worker_run en (worker_new nd me dir owned transit) subs cans w"
  shows "good w \<and> (\<forall>r. r \<notin> set (wk_gone w) \<longrightarrow> count (all_toks w) r + count (mset cans) r = count (mset subs) r)"
  using assms
proof induction
  case start
  then show ?case using good_new by (auto simp: all_toks_def worker_new_def polling_def)
next
  case node
  then show ?case using good_node by (auto simp: all_toks_node)
next
  case (message subs cans w m f n t w')
  then have h: "handled m w w'" using handle_result by blast
  then have g: "good w'" "wk_gone w' = wk_gone w" by (simp_all add: handled_def)
  have "count (all_toks w') r + count (mset (cans @ cancelled w m)) r = count (mset (subs @ submitted m)) r" if "r \<notin> set (wk_gone w')" for r
    using message.IH handled_counts[OF h that] that g(2) by auto
  then show ?case using g by simp
qed

lemma run_good: "worker_run en (worker_new nd me dir owned transit) subs cans w \<Longrightarrow> good w"
  using run_invariant by blast

section \<open>Properties\<close>

text \<open>C1: A worker whose messages are those its tasks send (\<open>msg_ok\<close>) handles every such message to its end, whatever came
  before: with some fuel the handler returns a state, whatever the store answers, and with no fuel does it panic; so
  none of the code's assertions, those of the ledger of dirty bytes among them, ever fires. \<open>msg_ok\<close> asks of a
  submission that it names distinct objects, at least one, those of its statements included, and has statements if it
  polls; of a boat's report that it leaves no object unpromoted and names a forked object only of a boat that carried
  it and sank. With the log as the engine no boat reports otherwise (\<open>ship_report_is_message\<close>); in the older mode one
  can report objects unpromoted, and C8 is a run that panics on it.\<close>

theorem every_message_handled:
  assumes "worker_run en (worker_new nd me dir owned transit) subs cans w" "msg_ok m"
  shows "(\<exists>n w'. fst (served f (handle en n m w) t) = Some (Ret w')) \<and> (\<forall>n. fst (served f (handle en n m w) t) \<noteq> Some Panic)"
proof -
  have s: "settles (handled m w) (\<lambda>n. handle en n m w)" by (rule handle_settles[OF run_good[OF assms(1)] assms(2)])
  have safe: "fst (served f (handle en n m w) t) \<noteq> Some Panic" for n
    using returns_served[where f = f and s = t, of "sound (handled m w)" "handle en n m w"] s by (auto simp: settles_def)
  obtain n x where "fst (served f (handle en n m w) t) = Some x" using s unfolding settles_def by blast
  then show ?thesis using safe by (cases x) auto
qed

text \<open>C2: No reply is lost or sent twice: the channel of a client still listening is in as many places (answered, with a
  boat's waiters, parked, pending or in a poll) as it was submitted, but for polls it cancelled.\<close>

theorem replies_conserved:
  assumes "worker_run en (worker_new nd me dir owned transit) subs cans w" "r \<notin> set (wk_gone w)"
  shows "count (mset (out_resps (wk_out w))) r + count (mset (map (\<lambda>x. pk_resp (snd x)) (wk_parked w))) r
     + count (mset (waiting (wk_pending w))) r + count (mset (polling (wk_polls w))) r + count (mset cans) r = count (mset subs) r"
  using run_invariant[OF assms(1)] assms(2) by (simp add: all_toks_def)

text \<open>C3: An object is held by one transaction at a time: a transaction that has acquired an object is at the head of its
  queue, and no other has acquired it.\<close>

theorem holders_are_exclusive:
  assumes "worker_run en (worker_new nd me dir owned transit) subs cans w"
    and "map_of (wk_parked w) t = Some p" "ob \<in> set (take (pk_acquired p) (pk_participants p))"
  shows "(\<exists>q. map_of (wk_queues w) ob = Some (TxnEntry t # q))
     \<and> (\<forall>t' p'. map_of (wk_parked w) t' = Some p' \<and> ob \<in> set (take (pk_acquired p') (pk_participants p')) \<longrightarrow> t' = t)"
proof -
  have h: "held w ob t'" if "map_of (wk_parked w) t' = Some p'" "ob \<in> set (take (pk_acquired p') (pk_participants p'))" for t' p'
    using parked_ok[OF run_good[OF assms(1)] that(1)] that(2) by (simp add: holds_def)
  then show ?thesis using h[OF assms(2,3)] held_unique by (auto simp: held_def)
qed

text \<open>C4: The books of a worker whose messages are those its tasks send (\<open>msg_ok\<close>; no boat reports an object unpromoted,
  which with the log as the engine none does, and without which C8's run breaks this) stay in order: every dirty object is live, belongs to a transaction still to be shipped and is
  counted once in the dirty bytes, every transaction to be shipped has objects and all of them are dirty, and no
  parked transaction has acquired more than its participants or bears a number still to be given.\<close>

theorem books_in_order:
  assumes "worker_run en (worker_new nd me dir owned transit) subs cans w"
  shows "boats_wf w \<and> bt_wf (wk_polls w) \<and> bt_wf (wk_parked w)
     \<and> (\<forall>(t, p) \<in> set (wk_parked w). t < wk_next_txn w \<and> request_ok p \<and> pk_acquired p \<le> length (pk_participants p))"
proof -
  have g: "good w" by (rule run_good[OF assms])
  have "t < wk_next_txn w \<and> request_ok p \<and> pk_acquired p \<le> length (pk_participants p)" if "(t, p) \<in> set (wk_parked w)" for t p
  proof -
    have "map_of (wk_parked w) t = Some p" using that g by (auto simp: good_def locks_def intro: map_of_is_SomeI bt_wf_distinct)
    then show ?thesis using g by (auto simp: good_def locks_def holds_def)
  qed
  then show ?thesis using g by (auto simp: good_def locks_def)
qed

text \<open>What the shipping task reports is a message the worker can take: when the log is primary no object is left unpromoted,
  and an object is reported forked only by a boat that sank and carried it.\<close>

theorem ship_report_is_message:
  assumes "sx_log_primary cx"
  shows "returns (\<lambda>(es, report, f'). msg_ok (ShipDone (sd_objects report) (sd_ok report) (sd_unpromoted report) (sd_rebased report)))
    (ship_task cx sid items waiters f)"
proof -
  let ?ok = "\<lambda>b. \<forall>ob. bo_rebased b = Some ob \<longrightarrow> bo_err b \<noteq> None \<and> ob \<in> si_object ` set items"
  have pre: "returns ?ok (prewrite_items cx sid its b)" if "?ok b" "set its \<subseteq> set items" "bo_err b = None" for its b
    using that
  proof (induction its arbitrary: b)
    case (Cons it its)
    have "bo_rebased b = None" using Cons.prems by (cases "bo_rebased b") auto
    then show ?case
      using Cons by (auto simp: Let_def intro!: returns_after split: sum.split option.split)
  qed simp
  have boat: "returns ?ok (prewrite_boat cx sid items b)" if "?ok b" "bo_rebased b = None" for b
    unfolding prewrite_boat_def using pre[of b "sort_key si_object items"] that by auto
  have switch: "returns ?ok (commit_switch cx sid inline items b)" if "?ok b" for b inline
    unfolding commit_switch_def using that by (auto simp: Let_def intro!: returns_after split: sum.split)
  have commit: "returns (\<lambda>(b, f). ?ok b) (ship_commit cx sid items f)"
    unfolding ship_commit_def Let_def
    by (rule returns_after, rule returns_after) (auto simp: no_boat_def intro!: returns_seq[OF boat] returns_seq[OF switch])
  have land: "returns (\<lambda>(report, f). sd_ok report \<and> sd_unpromoted report = [] \<and> sd_rebased report = None) (ship_landed cx sid items f)" for f
    unfolding ship_landed_def Let_def using assms by (auto intro!: returns_after)
  have lost: "returns (\<lambda>report. report = \<lparr>sd_objects = map si_object items, sd_ok = False, sd_unpromoted = [], sd_rebased = bo_rebased b\<rparr>) (ship_lost sid items b)" for b
    unfolding ship_lost_def by (auto intro!: returns_after)
  show ?thesis
    unfolding ship_task_def
    by (rule returns_seq[OF commit]) (auto simp: msg_ok_def intro!: returns_seq[OF land] returns_seq[OF lost] split: option.split)
qed

section \<open>Witnesses\<close>

definition demo_node :: node_ctx where
  "demo_node = \<lparr>nd_routing = \<lparr>rt_logical = 4, rt_blocks = 2, rt_exceptions = [(''a'', 1), (''b'', 1)], rt_addrs = []\<rparr>, nd_disk = ledger_new 1000, nd_clock = 0,
     nd_hysteresis = 0, nd_log_primary = True, nd_max_boat = 35, nd_max_unshipped = 100\<rparr>"

definition new_wrk :: "(bytes, unit) wrk" where
  "new_wrk = worker_new demo_node 1 ''live'' [(''a'', 1), (''b'', 1)] []"

definition transfer_msg :: "unit msg" where
  "transfer_msg = Submit [''a'', ''b''] [\<lparr>op_object = ''a'', op_sql = ''x'', op_params = []\<rparr>] False None None True 7"

definition after_msg :: "unit msg \<Rightarrow> (bytes, unit) wrk \<Rightarrow> (bytes, unit) wrk" where
  "after_msg m w = (case fst (served (\<lambda>_ _. UnitResp) (handle demo_engine 9 m w) 0) of Some (Ret w') \<Rightarrow> w' | _ \<Rightarrow> w)"

definition held_wrk :: "(bytes, unit) wrk" where
  "held_wrk = after_msg (Activated 0 ''a'' (Inr ([], 0))) (after_msg transfer_msg new_wrk)"

definition returned :: "unit msg \<Rightarrow> (bytes, unit) wrk \<Rightarrow> bool" where
  "returned m w \<longleftrightarrow> \<not> wk_done w \<and> (case fst (served (\<lambda>_ _. UnitResp) (handle demo_engine 9 m w) 0) of Some (Ret w') \<Rightarrow> True | _ \<Rightarrow> False)"

lemma after_run:
  assumes "worker_run demo_engine w0 subs cans w" "returned m w" "msg_ok m"
  shows "worker_run demo_engine w0 (subs @ submitted m) (cans @ cancelled w m) (after_msg m w)"
proof -
  obtain w' where "fst (served (\<lambda>_ _. UnitResp) (handle demo_engine 9 m w) 0) = Some (Ret w')"
    using assms(2) by (auto simp: returned_def split: option.splits rust.splits)
  then show ?thesis using worker_run.message[OF assms(1) _ assms(3)] assms(2) by (simp add: after_msg_def returned_def)
qed

lemma returned_steps: "returned transfer_msg new_wrk" "returned (Activated 0 ''a'' (Inr ([], 0))) (after_msg transfer_msg new_wrk)"
  by code_simp+

lemma held_run: "worker_run demo_engine (worker_new demo_node 1 ''live'' [(''a'', 1), (''b'', 1)] []) [7] [] held_wrk"
  using after_run[OF after_run[OF worker_run.start returned_steps(1)] returned_steps(2)]
  unfolding held_wrk_def new_wrk_def[symmetric] by (simp add: transfer_msg_def msg_ok_def submitted_def cancelled_def)

lemma held_state: "map_of (wk_parked held_wrk) 0 \<noteq> None \<and> pk_acquired (the (map_of (wk_parked held_wrk) 0)) = 1
    \<and> pk_participants (the (map_of (wk_parked held_wrk) 0)) = [''a'', ''b''] \<and> wk_gone held_wrk = []"
  by code_simp

lemma every_message_handled_witness:
  "(\<exists>n w'. fst (served (\<lambda>_ _. UnitResp) (handle demo_engine n (Activated 0 ''b'' (Inr ([], 0))) held_wrk) 0) = Some (Ret w'))
     \<and> (\<forall>n. fst (served (\<lambda>_ _. UnitResp) (handle demo_engine n (Activated 0 ''b'' (Inr ([], 0))) held_wrk) 0) \<noteq> Some Panic)"
  by (rule every_message_handled[OF held_run]) (simp add: msg_ok_def)

lemma replies_conserved_witness:
  "count (mset (out_resps (wk_out held_wrk))) (7::nat) + count (mset (map (\<lambda>x. pk_resp (snd x)) (wk_parked held_wrk))) 7
     + count (mset (waiting (wk_pending held_wrk))) 7 + count (mset (polling (wk_polls held_wrk))) 7 + count (mset ([]::nat list)) 7 = count (mset [7]) (7::nat)"
  by (rule replies_conserved[OF held_run]) (simp add: held_state)

lemma holders_are_exclusive_witness:
  "(\<exists>q. map_of (wk_queues held_wrk) ''a'' = Some (TxnEntry 0 # q))
     \<and> \<not> (\<exists>t' p'. map_of (wk_parked held_wrk) t' = Some p' \<and> ''a'' \<in> set (take (pk_acquired p') (pk_participants p')) \<and> t' \<noteq> 0)"
proof -
  obtain p where p: "map_of (wk_parked held_wrk) 0 = Some p" using held_state by blast
  then have "''a'' \<in> set (take (pk_acquired p) (pk_participants p))" using held_state by simp
  then show ?thesis using holders_are_exclusive[OF held_run p] by blast
qed

lemma books_in_order_witness:
  "boats_wf held_wrk \<and> bt_wf (wk_polls held_wrk) \<and> bt_wf (wk_parked held_wrk)
     \<and> list_all (\<lambda>(t, p). t < wk_next_txn held_wrk \<and> request_ok p \<and> pk_acquired p \<le> length (pk_participants p)) (wk_parked held_wrk)"
  unfolding list_all_iff by (rule books_in_order[OF held_run])

lemma ship_report_is_message_witness:
  "returns (\<lambda>(es, report, f'). msg_ok (ShipDone (sd_objects report) (sd_ok report) (sd_unpromoted report) (sd_rebased report)))
    (ship_task demo_cx ''s'' demo_items demo_waiters old_holder)"
  by (rule ship_report_is_message) (simp add: demo_cx_def)

end
