(* ===== verification/Loop_Findings.thy ===== *)
theory Loop_Findings
  imports Loop_Props "HOL-Library.Code_Target_Nat"
begin

text \<open>
  A run of the worker's loop in the older storage mode that ends in a panic, evaluated step by step.
\<close>

section \<open>The repair of an object that is gone\<close>

text \<open>
  In the older storage mode: \<open>a\<close> is in flight when a transaction over \<open>a\<close> and \<open>b\<close> fails at the \<open>COMMIT\<close> of \<open>b\<close> and \<open>a\<close>, already
  committed, is reverted; then the boat lands, but the promotion of \<open>a\<close> failed.
\<close>

definition sinking_msgs :: "unit msg list" where
  "sinking_msgs = [Submit [''a''] [mini_op ''a'' ''x''] False None None True 1, Activated 0 ''a'' (Inr ([], 0)),
     Submit [''a'', ''b''] [mini_op ''a'' ''y'', mini_op ''b'' ''deferred''] False None None True 2, Activated 1 ''b'' (Inr ([], 0)),
     ShipDone [''a''] True [''a''] None]"

definition older_wrk :: "(mini, unit) wrk" where
  "older_wrk = worker_new (demo_node\<lparr>nd_log_primary := False\<rparr>) 1 ''live'' [(''a'', 1), (''b'', 1)] []"

text \<open>C8: In the older mode the repair of a failed promotion can kill the worker: it marks the object dirty without looking whether it is
  live, and the next boat, which leaves at once, expects every dirty object to be.\<close>

theorem repair_of_reverted_object_panics:
  "case fst (run_io (worker_loop mini_sql 9 sinking_msgs older_wrk) mem_empty) of Some Panic \<Rightarrow> True | _ \<Rightarrow> False"
  by code_simp

end
