(* ===== verification/R2.thy ===== *)
theory R2
  imports Text Codec "HOL-Library.Signed_Division" "HOL-Library.Product_Lexorder"
begin

text \<open>
  \<open>src/src/r2.rs\<close>: the blob store over an S3 service. Code that talks HTTP is a program (\<open>web\<close>): finished, or
  reading the clock, sleeping, or sending a request and going on with the reply. The digests (SHA-256 and its
  HMAC) are arguments. Strings are their UTF-8 bytes; \<open>to_lowercase\<close> and \<open>trim\<close>, which only ever see header names
  and values the file writes itself, are given on ASCII. The endless loop over the pages of a listing takes fuel.
\<close>

section \<open>Programs over HTTP\<close>

record hreq =
  rq_method :: string
  rq_url :: string
  rq_headers :: "(string \<times> string) list"
  rq_body :: bytes

text \<open>A reply arrives with its status; reading its body can still fail.\<close>

record hreply =
  rp_status :: nat
  rp_body :: "bytes result"

datatype 'a web =
    Page 'a
  | Clock "u64 \<Rightarrow> 'a web"
  | Nap nat "'a web"
  | Send hreq "hreply result \<Rightarrow> 'a web"

primrec web_bind :: "'a web \<Rightarrow> ('a \<Rightarrow> 'b web) \<Rightarrow> 'b web" where
  "web_bind (Page x) f = f x"
| "web_bind (Clock c) f = Clock (\<lambda>t. web_bind (c t) f)"
| "web_bind (Nap ms p) f = Nap ms (web_bind p f)"
| "web_bind (Send q c) f = Send q (\<lambda>r. web_bind (c r) f)"

definition web_try :: "'a result web \<Rightarrow> ('a \<Rightarrow> 'b result web) \<Rightarrow> 'b result web" where
  "web_try p f = web_bind p (\<lambda>r. case r of Inl e \<Rightarrow> Page (Inl e) | Inr x \<Rightarrow> f x)"

section \<open>Dates\<close>

text \<open>\<open>i64\<close>, \<open>u64\<close> and \<open>u32\<close> arithmetic on integers, with the wrap-around of each type.\<close>

definition i64 :: "int \<Rightarrow> int" where "i64 x = (x + 2 ^ 63) mod 2 ^ 64 - 2 ^ 63"
definition u64 :: "int \<Rightarrow> int" where "u64 x = x mod 2 ^ 64"
definition u32 :: "int \<Rightarrow> int" where "u32 x = x mod 2 ^ 32"

definition civil_from_days :: "int \<Rightarrow> int \<times> int \<times> int" where
  "civil_from_days z =
    (let z = i64 (z + 719468);
         era = (if z \<ge> 0 then z else i64 (z - 146096)) sdiv 146097;
         doe = u64 (i64 (z - i64 (era * 146097)));
         yoe = u64 (u64 (u64 (doe - doe div 1460) + doe div 36524) - doe div 146096) div 365;
         y = i64 (i64 yoe + i64 (era * 400));
         doy = u64 (doe - u64 (u64 (u64 (365 * yoe) + yoe div 4) - yoe div 100));
         mp = u64 (u64 (5 * doy) + 2) div 153;
         d = u32 (u64 (u64 (doy - u64 (u64 (153 * mp) + 2) div 5) + 1));
         m = u32 (if mp < 10 then u64 (mp + 3) else u64 (mp - 9))
     in (i64 (y + (if m \<le> 2 then 1 else 0)), m, d))"

text \<open>\<open>{:02}\<close> and \<open>{y:04}\<close>; the sign of a negative year counts in its width.\<close>

definition show_pad :: "nat \<Rightarrow> int \<Rightarrow> string" where
  "show_pad k n = (if n < 0 then ''-'' @ pad0 (k - 1) (show_nat (nat (- n))) else pad0 k (show_nat (nat n)))"

text \<open>\<open>utc_now_stamps\<close>; the seconds since 1970 are what the system clock says.\<close>

definition utc_stamps :: "u64 \<Rightarrow> string \<times> string" where
  "utc_stamps secs =
    (let (y, m, d) = civil_from_days (int (unat secs div 86400));
         rest = unat secs mod 86400
     in (show_pad 4 y @ show_pad 2 m @ show_pad 2 d,
         show_pad 2 (int (rest div 3600)) @ show_pad 2 (int (rest mod 3600 div 60)) @ show_pad 2 (int (rest mod 60))))"

section \<open>Encoding\<close>

definition hex_text :: "bytes \<Rightarrow> string" where
  "hex_text bs = concat (map hex_byte bs)"

definition upper_hex :: "nat \<Rightarrow> char" where
  "upper_hex n = (if n < 10 then char_of (48 + n) else char_of (55 + n))"

definition unreserved :: "char \<Rightarrow> bool" where
  "unreserved c = (let n = of_char c :: nat in
     65 \<le> n \<and> n \<le> 90 \<or> 97 \<le> n \<and> n \<le> 122 \<or> 48 \<le> n \<and> n \<le> 57 \<or> c \<in> set ''-._~'')"

definition encode_byte :: "bool \<Rightarrow> char \<Rightarrow> string" where
  "encode_byte encode_slash c =
    (if unreserved c then [c]
     else if c = CHR ''/'' \<and> \<not> encode_slash then ''/''
     else (let n = of_char c :: nat in [CHR ''%'', upper_hex (n div 16), upper_hex (n mod 16)]))"

definition uri_encode :: "string \<Rightarrow> bool \<Rightarrow> string" where
  "uri_encode s encode_slash = concat (map (encode_byte encode_slash) s)"

text \<open>\<open>pieces.join(sep)\<close>.\<close>

fun join :: "string \<Rightarrow> string list \<Rightarrow> string" where
  "join sep [] = ''''"
| "join sep [s] = s"
| "join sep (s # ss) = s @ sep @ join sep ss"

definition canonical_query :: "(string \<times> string) list \<Rightarrow> string" where
  "canonical_query query = join ''&'' (sort (map (\<lambda>(k, v). uri_encode k True @ ''='' @ uri_encode v True) query))"

section \<open>Signing\<close>

record digests =
  dg_sha :: "bytes \<Rightarrow> bytes"
  dg_mac :: "bytes \<Rightarrow> bytes \<Rightarrow> bytes"

definition lowercase :: "string \<Rightarrow> string" where
  "lowercase s = map (\<lambda>c. let n = of_char c :: nat in if 65 \<le> n \<and> n \<le> 90 then char_of (n + 32) else c) s"

definition sign_request :: "digests \<Rightarrow> string \<Rightarrow> string \<Rightarrow> string \<Rightarrow> string \<Rightarrow> string \<Rightarrow> string
    \<Rightarrow> (string \<times> string) list \<Rightarrow> (string \<times> string) list \<Rightarrow> string \<Rightarrow> string \<Rightarrow> string \<Rightarrow> string \<times> string" where
  "sign_request dg secret access region method host path query extra payload_hash date time =
    (let amz_date = date @ ''T'' @ time @ ''Z'';
         headers = [(''host'', host), (''x-amz-content-sha256'', payload_hash), (''x-amz-date'', amz_date)]
           @ map (\<lambda>(k, v). (lowercase k, trim_text v)) extra;
         headers = sort headers;
         canonical_headers = concat (map (\<lambda>(k, v). k @ '':'' @ v @ [CHR 0x0A]) headers);
         signed_headers = join '';'' (map fst headers);
         canonical_request = method @ [CHR 0x0A] @ path @ [CHR 0x0A] @ canonical_query query @ [CHR 0x0A]
           @ canonical_headers @ [CHR 0x0A] @ signed_headers @ [CHR 0x0A] @ payload_hash;
         scope = date @ ''/'' @ region @ ''/s3/aws4_request'';
         string_to_sign = ''AWS4-HMAC-SHA256'' @ [CHR 0x0A] @ amz_date @ [CHR 0x0A] @ scope @ [CHR 0x0A]
           @ hex_text (dg_sha dg (string_bytes canonical_request));
         key = foldl (\<lambda>key part. dg_mac dg key (string_bytes part))
           (dg_mac dg (string_bytes (''AWS4'' @ secret)) (string_bytes date)) [region, ''s3'', ''aws4_request''];
         signature = hex_text (dg_mac dg key (string_bytes string_to_sign))
     in (''AWS4-HMAC-SHA256 Credential='' @ access @ ''/'' @ scope @ '', SignedHeaders='' @ signed_headers
           @ '', Signature='' @ signature,
         amz_date))"

section \<open>The client\<close>

record r2 =
  r2_endpoint :: string
  r2_host :: string
  r2_bucket :: string
  r2_access_key :: string
  r2_secret_key :: string
  r2_region :: string

text \<open>Building the HTTP client, which the code lets fail too, is left to the library.\<close>

definition r2_new :: "string \<Rightarrow> string \<Rightarrow> string \<Rightarrow> string \<Rightarrow> r2 result" where
  "r2_new endpoint bucket access_key secret_key =
    (let endpoint = rev (dropWhile (\<lambda>c. c = CHR ''/'') (rev endpoint))
     in case (case strip_prefix ''https://'' endpoint of Some h \<Rightarrow> Some h | None \<Rightarrow> strip_prefix ''http://'' endpoint) of
          None \<Rightarrow> Inl ''R2 endpoint must include scheme''
        | Some host \<Rightarrow> Inr \<lparr>r2_endpoint = endpoint, r2_host = host, r2_bucket = bucket,
            r2_access_key = access_key, r2_secret_key = secret_key, r2_region = ''auto''\<rparr>)"

definition path_for :: "r2 \<Rightarrow> key \<Rightarrow> string" where
  "path_for c k = ''/'' @ r2_bucket c @ ''/'' @ uri_encode k False"

definition r2_request :: "digests \<Rightarrow> r2 \<Rightarrow> string \<Rightarrow> string \<Rightarrow> (string \<times> string) list \<Rightarrow> bytes
    \<Rightarrow> (string \<times> string) list \<Rightarrow> hreply result web" where
  "r2_request dg c method path query body extra =
    (let payload_hash = hex_text (dg_sha dg body)
     in Clock (\<lambda>secs.
          let (date, time) = utc_stamps secs;
              (authorization, amz_date) = sign_request dg (r2_secret_key c) (r2_access_key c) (r2_region c) method
                (r2_host c) path query extra payload_hash date time;
              url = r2_endpoint c @ path;
              url = (if query = [] then url else url @ ''?'' @ canonical_query query)
          in Send \<lparr>rq_method = method, rq_url = url,
                   rq_headers = [(''host'', r2_host c), (''x-amz-date'', amz_date),
                     (''x-amz-content-sha256'', payload_hash), (''authorization'', authorization)] @ extra,
                   rq_body = body\<rparr> Page))"

definition retries :: nat where "retries = 3"

fun retry_from :: "nat list \<Rightarrow> string \<Rightarrow> 'a option result web \<Rightarrow> 'a result web" where
  "retry_from [] err op = Page (Inl err)"
| "retry_from (attempt # later) err op =
    (let go = web_bind op (\<lambda>r. case r of
            Inr (Some v) \<Rightarrow> Page (Inr v)
          | Inr None \<Rightarrow> retry_from later ''transient (5xx)'' op
          | Inl e \<Rightarrow> retry_from later e op)
     in if 0 < attempt then Nap (100 * attempt) go else go)"

definition with_retries :: "'a option result web \<Rightarrow> 'a result web" where
  "with_retries op = retry_from [0..<retries] ''no attempts'' op"

section \<open>The store's operations\<close>

text \<open>The last arms of every match on the status: a server error is transient, anything else is told with its body.\<close>

definition other_status :: "string \<Rightarrow> hreply \<Rightarrow> 'a option result" where
  "other_status what r =
    (if 500 \<le> rp_status r then Inr None
     else case rp_body r of Inl e \<Rightarrow> Inl e
       | Inr body \<Rightarrow> Inl (what @ '': '' @ show_nat (rp_status r) @ '': '' @ bytes_string body))"

definition r2_get :: "digests \<Rightarrow> r2 \<Rightarrow> key \<Rightarrow> bytes option result web" where
  "r2_get dg c k = with_retries (web_try (r2_request dg c ''GET'' (path_for c k) [] [] []) (\<lambda>r. Page (
     if rp_status r = 200 then (case rp_body r of Inl e \<Rightarrow> Inl e | Inr b \<Rightarrow> Inr (Some (Some b)))
     else if rp_status r = 404 then Inr (Some None)
     else other_status (''R2 GET '' @ k) r)))"

definition r2_put :: "digests \<Rightarrow> r2 \<Rightarrow> key \<Rightarrow> bytes \<Rightarrow> unit result web" where
  "r2_put dg c k v = with_retries (web_try (r2_request dg c ''PUT'' (path_for c k) [] v []) (\<lambda>r. Page (
     if rp_status r = 200 then Inr (Some ()) else other_status (''R2 PUT '' @ k) r)))"

definition delete_once :: "digests \<Rightarrow> r2 \<Rightarrow> key \<Rightarrow> unit option result web" where
  "delete_once dg c k = web_try (r2_request dg c ''DELETE'' (path_for c k) [] [] []) (\<lambda>r. Page (
     if rp_status r \<in> {200, 204, 404} then Inr (Some ()) else other_status (''R2 DELETE '' @ k) r))"

definition r2_delete :: "digests \<Rightarrow> r2 \<Rightarrow> key \<Rightarrow> unit result web" where
  "r2_delete dg c k = with_retries (delete_once dg c k)"

definition r2_get_range :: "digests \<Rightarrow> r2 \<Rightarrow> key \<Rightarrow> u64 \<Rightarrow> u64 \<Rightarrow> bytes option result web" where
  "r2_get_range dg c k offset len =
    (let range = ''bytes='' @ show_nat (unat offset) @ ''-'' @ show_nat (unat (offset + len - 1))
     in with_retries (web_try (r2_request dg c ''GET'' (path_for c k) [] [] [(''range'', range)]) (\<lambda>r. Page (
          if rp_status r = 200 \<or> rp_status r = 206 then (case rp_body r of Inl e \<Rightarrow> Inl e | Inr b \<Rightarrow> Inr (Some (Some b)))
          else if rp_status r = 404 then Inr (Some None)
          else if rp_status r = 416 then Inr (Some (Some []))
          else other_status (''R2 RANGE '' @ k) r))))"

definition r2_create :: "digests \<Rightarrow> r2 \<Rightarrow> key \<Rightarrow> bytes \<Rightarrow> bool result web" where
  "r2_create dg c k v = with_retries (web_try (r2_request dg c ''PUT'' (path_for c k) [] v [(''if-none-match'', ''*'')]) (\<lambda>r. Page (
     if rp_status r = 200 then Inr (Some True)
     else if rp_status r = 412 \<or> rp_status r = 409 then Inr (Some False)
     else other_status (''R2 CREATE '' @ k) r)))"

section \<open>Listing\<close>

text \<open>\<open>str::find\<close>: what comes before the first occurrence and what after it.\<close>

fun find_text :: "string \<Rightarrow> string \<Rightarrow> (string \<times> string) option" where
  "find_text pat [] = (if pat = [] then Some ([], []) else None)"
| "find_text pat (c # s) =
    (case strip_prefix pat (c # s) of
       Some after \<Rightarrow> Some ([], after)
     | None \<Rightarrow> (case find_text pat s of None \<Rightarrow> None | Some (before, after) \<Rightarrow> Some (c # before, after)))"

lemma find_text_split: "find_text pat s = Some (before, after) \<Longrightarrow> s = before @ pat @ after"
  by (induction pat s arbitrary: before rule: find_text.induct)
     (auto simp: strip_prefix_eq_Some split: option.splits if_splits)

function extract_tags :: "string \<Rightarrow> string \<Rightarrow> string list" where
  "extract_tags xml tag =
    (case find_text (''<'' @ tag @ ''>'') xml of
       None \<Rightarrow> []
     | Some (_, after) \<Rightarrow>
         (case find_text (''</'' @ tag @ ''>'') after of
            None \<Rightarrow> []
          | Some (inner, rest) \<Rightarrow> inner # extract_tags rest tag))"
  by auto
termination
  by (relation "measure (length \<circ> fst)") (auto dest!: find_text_split)

declare extract_tags.simps [simp del]

definition list_page :: "digests \<Rightarrow> r2 \<Rightarrow> string \<Rightarrow> string option \<Rightarrow> string result web" where
  "list_page dg c pre token =
    (let query = [(''list-type'', ''2''), (''prefix'', pre)] @ (case token of None \<Rightarrow> [] | Some t \<Rightarrow> [(''continuation-token'', t)])
     in with_retries (web_try (r2_request dg c ''GET'' (''/'' @ r2_bucket c) query [] []) (\<lambda>r. Page (
          if rp_status r = 200 then (case rp_body r of Inl e \<Rightarrow> Inl e | Inr b \<Rightarrow> Inr (Some (bytes_string b)))
          else other_status (''R2 LIST '' @ pre) r))))"

text \<open>The loop over the pages, with fuel: \<open>None\<close> when there were more pages than that.\<close>

fun list_pages :: "nat \<Rightarrow> digests \<Rightarrow> r2 \<Rightarrow> string \<Rightarrow> string option \<Rightarrow> string list \<Rightarrow> string list result option web" where
  "list_pages 0 dg c pre token acc = Page None"
| "list_pages (Suc n) dg c pre token acc =
    web_bind (list_page dg c pre token) (\<lambda>r. case r of
        Inl e \<Rightarrow> Page (Some (Inl e))
      | Inr xml \<Rightarrow>
          (let acc = acc @ extract_tags xml ''Key''
           in if (case extract_tags xml ''IsTruncated'' of [] \<Rightarrow> False | t # _ \<Rightarrow> t = ''true'')
              then (case extract_tags xml ''NextContinuationToken'' of
                      [] \<Rightarrow> Page (Some (Inr (sort acc)))
                    | t # _ \<Rightarrow> list_pages n dg c pre (Some t) acc)
              else Page (Some (Inr (sort acc)))))"

definition r2_list :: "nat \<Rightarrow> digests \<Rightarrow> r2 \<Rightarrow> string \<Rightarrow> string list result option web" where
  "r2_list n dg c pre = list_pages n dg c pre None []"

end
