(* ===== verification/R2_Encoding.thy ===== *)
theory R2_Encoding
  imports R2 "HOL-Library.Multiset"
begin

text \<open>
  What the encodings of the R2 client keep: \<open>uri_encode\<close> has an inverse (\<open>uri_decode\<close>) and only writes characters a
  URL may hold; the canonical query string determines the parameters, but for their order; tags are found again in
  what was written with them.
\<close>

section \<open>Percent encoding\<close>

definition upper_val :: "char \<Rightarrow> nat" where
  "upper_val c = (let n = of_char c :: nat in if n < 58 then n - 48 else n - 55)"

fun uri_decode :: "string \<Rightarrow> string" where
  "uri_decode [] = []"
| "uri_decode (c # s) = (if c = CHR ''%'' then (case s of
      h # l # s' \<Rightarrow> char_of (16 * upper_val h + upper_val l) # uri_decode s' | _ \<Rightarrow> c # s) else c # uri_decode s)"

lemma upper_val_hex: "n < 16 \<Longrightarrow> upper_val (upper_hex n) = n"
  by (auto simp: upper_val_def upper_hex_def of_char_of Let_def)

lemma encode_byte_decode: "uri_decode (encode_byte b c @ s) = c # uri_decode s"
proof -
  have n: "(of_char c :: nat) < 256" by (rule of_char_bound)
  then have "16 * ((of_char c :: nat) div 16) + of_char c mod 16 = of_char c" "(of_char c :: nat) div 16 < 16" by (simp_all add: div_less_iff_less_mult)
  moreover have "\<not> unreserved (CHR ''%'')" by (simp add: unreserved_def)
  moreover have "char_of (37 :: nat) = CHR ''%''" by code_simp
  ultimately show ?thesis by (auto simp: encode_byte_def Let_def upper_val_hex)
qed

lemma uri_decode_encode: "uri_decode (uri_encode s b) = s"
  unfolding uri_encode_def by (induction s) (simp_all add: encode_byte_decode)

lemma upper_hex_unreserved: "n < 16 \<Longrightarrow> unreserved (upper_hex n)"
  by (auto simp: upper_hex_def unreserved_def of_char_of Let_def)

lemma encode_byte_chars: "d \<in> set (encode_byte b c) \<Longrightarrow> unreserved d \<or> d = CHR ''%'' \<or> d = CHR ''/'' \<and> \<not> b"
  using of_char_bound[of c] upper_hex_unreserved[of "of_char c div 16"] upper_hex_unreserved[of "of_char c mod 16"]
  by (auto simp: encode_byte_def Let_def div_less_iff_less_mult split: if_splits)

lemma uri_encode_chars: "d \<in> set (uri_encode s b) \<Longrightarrow> unreserved d \<or> d = CHR ''%'' \<or> d = CHR ''/'' \<and> \<not> b"
  using encode_byte_chars by (fastforce simp: uri_encode_def)

lemma uri_encode_inj: "uri_encode s b = uri_encode t b \<Longrightarrow> s = t"
  using uri_decode_encode by metis

text \<open>Keys as the program writes them go through unchanged in paths.\<close>

definition plain :: "string \<Rightarrow> bool" where
  "plain k \<longleftrightarrow> (\<forall>c \<in> set k. unreserved c \<or> c = CHR ''/'')"

definition plain_key :: "key \<Rightarrow> bool" where
  "plain_key k \<longleftrightarrow> plain k \<and> k \<noteq> []"

lemma uri_encode_plain: "plain k \<Longrightarrow> uri_encode k False = k"
  by (induction k) (auto simp: uri_encode_def plain_def encode_byte_def)

section \<open>Queries\<close>

lemma join_cons: "join sep (s # ss) = (if ss = [] then s else s @ sep @ join sep ss)"
  by (cases ss) auto

lemma join_inject:
  assumes "\<forall>s \<in> set ss \<union> set ts. s \<noteq> [] \<and> c \<notin> set s" "join [c] ss = join [c] ts"
  shows "ss = ts"
  using assms
proof (induction ss arbitrary: ts)
  case Nil
  then show ?case by (cases ts) (auto simp: join_cons split: if_splits)
next
  case (Cons s ss)
  then obtain t ts' where ts: "ts = t # ts'" by (cases ts) (auto simp: join_cons split: if_splits)
  have c: "c \<notin> set s" "c \<notin> set t" using Cons.prems(1) ts by auto
  have eq: "(if ss = [] then s else s @ c # join [c] ss) = (if ts' = [] then t else t @ c # join [c] ts')"
    using Cons.prems(2) by (simp add: ts join_cons split: if_splits)
  have app: "s = t \<and> x = y" if "s @ c # x = t @ c # y" for x y
  proof -
    have cut: "takeWhile (\<lambda>d. d \<noteq> c) (u @ c # z) = u" if "c \<notin> set u" for u z using that by (induction u) auto
    have "s = t" using cut[OF c(1), of x] cut[OF c(2), of y] unfolding that by simp
    then show ?thesis using that by simp
  qed
  have "s = t \<and> (ss = [] \<longleftrightarrow> ts' = []) \<and> (ss \<noteq> [] \<longrightarrow> join [c] ss = join [c] ts')"
    using eq c app by (cases "ss = []"; cases "ts' = []") auto
  then show ?case using Cons.IH[of ts'] Cons.prems(1) ts by auto
qed

abbreviation query_pair :: "string \<times> string \<Rightarrow> string" where
  "query_pair \<equiv> \<lambda>(k, v). uri_encode k True @ ''='' @ uri_encode v True"

lemma query_pair_chars: "CHR ''&'' \<notin> set (query_pair p)" "CHR ''='' \<notin> set (uri_encode k True)"
  using uri_encode_chars by (fastforce simp: unreserved_def split: prod.splits)+

lemma query_pair_inj: "inj query_pair"
proof (rule injI)
  fix p q :: "string \<times> string"
  assume eq: "query_pair p = query_pair q"
  obtain k v l w where kv: "p = (k, v)" "q = (l, w)" by fastforce
  have "split_once (CHR ''='') (query_pair p) = Some (uri_encode k True, uri_encode v True)"
    "split_once (CHR ''='') (query_pair q) = Some (uri_encode l True, uri_encode w True)"
    using kv query_pair_chars(2) by (simp_all add: split_once_eq_Some)
  then show "p = q" using eq kv uri_encode_inj by (metis option.inject prod.inject)
qed

text \<open>C26: The query that is signed determines the parameters, and nothing but them: two requests have the same canonical query exactly when they
  have the same parameters, each as often, in whatever order.\<close>

theorem signed_query_determines: "canonical_query q = canonical_query q' \<longleftrightarrow> mset q = mset q'"
proof
  assume "mset q = mset q'"
  then have "sort (map query_pair q) = sort (map query_pair q')" by (intro properties_for_sort) simp_all
  then show "canonical_query q = canonical_query q'" by (simp add: canonical_query_def)
next
  assume eq: "canonical_query q = canonical_query q'"
  have "\<forall>s \<in> set (sort (map query_pair q)) \<union> set (sort (map query_pair q')). s \<noteq> [] \<and> CHR ''&'' \<notin> set s"
    using query_pair_chars(1) by auto
  then have "sort (map query_pair q) = sort (map query_pair q')"
    by (rule join_inject) (use eq in \<open>simp add: canonical_query_def\<close>)
  then have "mset (map query_pair q) = mset (map query_pair q')" by (metis mset_sort)
  then show "mset q = mset q'" using multiset.inj_map[OF query_pair_inj] by (simp add: inj_eq)
qed

end
