(* ===== verification/R2_Net.thy ===== *)
theory R2_Net
  imports R2_Encoding Store_IO
begin

text \<open>
  The R2 client on a network. A service answers requests (\<open>s3_service\<close>: what S3 documents of the requests the
  client sends); on the way requests and replies go astray by a script of accidents, among them requests of other
  clients. \<open>r2_do\<close> is the client as the store every other part of the program talks to, with the two methods of
  the trait that \<open>R2BlobStore\<close> does not override.
\<close>

section \<open>Networks\<close>

text \<open>
  What can become of a request: nothing happens to it; it is refused with a status or never arrives; it takes
  effect, but the reply is lost, replaced by a gateway's, or breaks off in its body; another client is served first.
\<close>

datatype accident =
    Fine
  | Refused nat
  | Unreached string
  | Lost string
  | Muffled nat
  | Cut string
  | Other hreq

type_synonym 's service = "hreq \<Rightarrow> 's \<Rightarrow> hreply result \<times> 's"

record 's net =
  net_srv :: 's
  net_script :: "accident list"
  net_ms :: nat

fun deliver :: "'s service \<Rightarrow> hreq \<Rightarrow> accident list \<Rightarrow> 's \<Rightarrow> hreply result \<times> accident list \<times> 's" where
  "deliver h q [] s = (case h q s of (r, s) \<Rightarrow> (r, [], s))"
| "deliver h q (Fine # sc) s = (case h q s of (r, s) \<Rightarrow> (r, sc, s))"
| "deliver h q (Refused st # sc) s = (Inr \<lparr>rp_status = st, rp_body = Inr []\<rparr>, sc, s)"
| "deliver h q (Unreached e # sc) s = (Inl e, sc, s)"
| "deliver h q (Lost e # sc) s = (Inl e, sc, snd (h q s))"
| "deliver h q (Muffled st # sc) s = (Inr \<lparr>rp_status = st, rp_body = Inr []\<rparr>, sc, snd (h q s))"
| "deliver h q (Cut e # sc) s = (case h q s of (r, s) \<Rightarrow> (map_sum id (\<lambda>r. r\<lparr>rp_body := Inl e\<rparr>) r, sc, s))"
| "deliver h q (Other q' # sc) s = deliver h q sc (snd (h q' s))"

primrec run_web :: "'s service \<Rightarrow> 'a web \<Rightarrow> 's net \<Rightarrow> 'a \<times> 's net" where
  "run_web h (Page x) n = (x, n)"
| "run_web h (Clock c) n = run_web h (c (word_of_nat (net_ms n div 1000))) n"
| "run_web h (Nap ms p) n = run_web h p (n\<lparr>net_ms := net_ms n + ms\<rparr>)"
| "run_web h (Send q c) n = (case deliver h q (net_script n) (net_srv n) of
     (r, sc, s) \<Rightarrow> run_web h (c r) (n\<lparr>net_script := sc, net_srv := s\<rparr>))"

lemma run_web_bind: "run_web h (web_bind p f) n = (case run_web h p n of (x, n') \<Rightarrow> run_web h (f x) n')"
  by (induction p arbitrary: n) (auto split: prod.splits)

lemma run_web_try: "run_web h (web_try p f) n =
    (case run_web h p n of (Inl e, n') \<Rightarrow> (Inl e, n') | (Inr x, n') \<Rightarrow> run_web h (f x) n')"
  by (auto simp: web_try_def run_web_bind split: prod.splits sum.splits)

section \<open>The client as a blob store\<close>

text \<open>\<open>version\<close> and \<open>put_cas\<close> are the trait's defaults.\<close>

definition r2_version :: "digests \<Rightarrow> r2 \<Rightarrow> key \<Rightarrow> nat result web" where
  "r2_version dg c k = web_try (r2_get dg c k) (\<lambda>b. Page (Inr (default_version b)))"

definition r2_put_cas :: "digests \<Rightarrow> r2 \<Rightarrow> key \<Rightarrow> nat \<Rightarrow> bytes \<Rightarrow> nat option result web" where
  "r2_put_cas dg c k expected v =
    web_try (r2_version dg c k) (\<lambda>n.
      if n \<noteq> expected then Page (Inr None)
      else web_try (r2_put dg c k v) (\<lambda>_. web_try (r2_version dg c k) (\<lambda>n. Page (Inr (Some n)))))"

definition r2_answer :: "('a \<Rightarrow> resp) \<Rightarrow> 'a result \<Rightarrow> resp option" where
  "r2_answer f r = Some (case r of Inl e \<Rightarrow> ErrResp e | Inr x \<Rightarrow> f x)"

primrec r2_do :: "nat \<Rightarrow> digests \<Rightarrow> r2 \<Rightarrow> req \<Rightarrow> resp option web" where
  "r2_do fuel dg c (GetReq k) = web_bind (r2_get dg c k) (\<lambda>r. Page (r2_answer BlobResp r))"
| "r2_do fuel dg c (PutReq k v) = web_bind (r2_put dg c k v) (\<lambda>r. Page (r2_answer (\<lambda>_. UnitResp) r))"
| "r2_do fuel dg c (DeleteReq k) = web_bind (r2_delete dg c k) (\<lambda>r. Page (r2_answer (\<lambda>_. UnitResp) r))"
| "r2_do fuel dg c (ListReq p) = web_bind (r2_list fuel dg c p) (\<lambda>r. Page (Option.bind r (r2_answer KeysResp)))"
| "r2_do fuel dg c (CreateReq k v) = web_bind (r2_create dg c k v) (\<lambda>r. Page (r2_answer BoolResp r))"
| "r2_do fuel dg c (VersionReq k) = web_bind (r2_version dg c k) (\<lambda>r. Page (r2_answer VersionResp r))"
| "r2_do fuel dg c (CasReq k e v) = web_bind (r2_put_cas dg c k e v) (\<lambda>r. Page (r2_answer CasResp r))"
| "r2_do fuel dg c (RangeReq k off len) =
     web_bind (r2_get_range dg c k (word_of_nat off) (word_of_nat len)) (\<lambda>r. Page (r2_answer BlobResp r))"

text \<open>A program over the store, on the client: \<open>None\<close> when a listing had more pages than the fuel.\<close>

primrec over_r2 :: "nat \<Rightarrow> digests \<Rightarrow> r2 \<Rightarrow> 'a io \<Rightarrow> 'a option web" where
  "over_r2 fuel dg c (Done x) = Page (Some x)"
| "over_r2 fuel dg c (Do q k) = web_bind (r2_do fuel dg c q) (\<lambda>r. case r of None \<Rightarrow> Page None | Some r \<Rightarrow> over_r2 fuel dg c (k r))"

section \<open>What S3 documents\<close>

text \<open>
  \<open>blob\<close> is the content of the bucket, \<open>up\<close> that the service is in order, \<open>base\<close> the bucket's URL, and \<open>keys_after\<close> the
  keys with a prefix a listing has still to report after a continuation token.
\<close>

definition page_of :: "hreply \<Rightarrow> key list \<Rightarrow> bool \<Rightarrow> string \<Rightarrow> bool" where
  "page_of r page truncated token \<longleftrightarrow> (\<exists>xml. rp_status r = 200 \<and> rp_body r = Inr xml \<and> extract_tags (bytes_string xml) ''Key'' = page
     \<and> extract_tags (bytes_string xml) ''IsTruncated'' = [if truncated then ''true'' else ''false'']
     \<and> (truncated \<longrightarrow> extract_tags (bytes_string xml) ''NextContinuationToken'' = [token]))"

definition list_query :: "string \<Rightarrow> string option \<Rightarrow> (string \<times> string) list" where
  "list_query p token = [(''list-type'', ''2''), (''prefix'', p)] @ (case token of None \<Rightarrow> [] | Some t \<Rightarrow> [(''continuation-token'', t)])"

locale s3_service =
  fixes h :: "'s service" and blob :: "'s \<Rightarrow> key \<Rightarrow> bytes option" and up :: "'s \<Rightarrow> bool" and base :: string
    and keys_after :: "'s \<Rightarrow> string \<Rightarrow> string option \<Rightarrow> key list"
  assumes get_law: "up s \<Longrightarrow> plain_key k \<Longrightarrow> rq_method q = ''GET'' \<Longrightarrow> rq_url q = base @ ''/'' @ k
      \<Longrightarrow> map_of (rq_headers q) ''range'' = None
      \<Longrightarrow> \<exists>r s'. h q s = (Inr r, s') \<and> up s' \<and> blob s' = blob s \<and>
        (case blob s k of None \<Rightarrow> rp_status r = 404 | Some v \<Rightarrow> rp_status r = 200 \<and> rp_body r = Inr v)"
    and range_law: "up s \<Longrightarrow> plain_key k \<Longrightarrow> rq_method q = ''GET'' \<Longrightarrow> rq_url q = base @ ''/'' @ k
      \<Longrightarrow> map_of (rq_headers q) ''range'' = Some (''bytes='' @ show_nat a @ ''-'' @ show_nat b) \<Longrightarrow> a \<le> b \<Longrightarrow> b < 2 ^ 64 - 1
      \<Longrightarrow> \<exists>r s'. h q s = (Inr r, s') \<and> up s' \<and> blob s' = blob s \<and>
        (case blob s k of None \<Rightarrow> rp_status r = 404
         | Some v \<Rightarrow> if length v \<le> a then rp_status r = 416 else rp_status r = 206 \<and> rp_body r = Inr (take (b + 1 - a) (drop a v)))"
    and put_law: "up s \<Longrightarrow> plain_key k \<Longrightarrow> rq_method q = ''PUT'' \<Longrightarrow> rq_url q = base @ ''/'' @ k
      \<Longrightarrow> map_of (rq_headers q) ''if-none-match'' = None
      \<Longrightarrow> \<exists>r s'. h q s = (Inr r, s') \<and> up s' \<and> blob s' = (blob s)(k \<mapsto> rq_body q) \<and> rp_status r = 200"
    and create_law: "up s \<Longrightarrow> plain_key k \<Longrightarrow> rq_method q = ''PUT'' \<Longrightarrow> rq_url q = base @ ''/'' @ k
      \<Longrightarrow> map_of (rq_headers q) ''if-none-match'' = Some ''*''
      \<Longrightarrow> \<exists>r s'. h q s = (Inr r, s') \<and> up s' \<and>
        (if blob s k = None then blob s' = (blob s)(k \<mapsto> rq_body q) \<and> rp_status r = 200
         else blob s' = blob s \<and> rp_status r = 412)"
    and delete_law: "up s \<Longrightarrow> plain_key k \<Longrightarrow> rq_method q = ''DELETE'' \<Longrightarrow> rq_url q = base @ ''/'' @ k
      \<Longrightarrow> \<exists>r s'. h q s = (Inr r, s') \<and> up s' \<and> blob s' = (blob s)(k := None) \<and> rp_status r \<in> {200, 204, 404}"
    and list_law: "up s \<Longrightarrow> plain p \<Longrightarrow> rq_method q = ''GET'' \<Longrightarrow> rq_url q = base @ ''?'' @ canonical_query (list_query p token)
      \<Longrightarrow> \<exists>r s' page others t. h q s = (Inr r, s') \<and> up s' \<and> blob s' = blob s \<and> keys_after s p token = page @ others
        \<and> page_of r page (others \<noteq> []) t \<and> (others \<noteq> [] \<longrightarrow> page \<noteq> [] \<and> keys_after s p (Some t) = others)"
    and keys_same: "up s \<Longrightarrow> up s' \<Longrightarrow> blob s' = blob s \<Longrightarrow> keys_after s' p token = keys_after s p token"
    and keys_all: "up s \<Longrightarrow> plain p \<Longrightarrow>
      set (keys_after s p None) = {k. blob s k \<noteq> None \<and> starts_with k p} \<and> sorted_wrt (<) (keys_after s p None)"

section \<open>Requests on a calm network\<close>

text \<open>No other client is served in between, and no status of the service's own is made up on the way.\<close>

definition odd_status :: "nat \<Rightarrow> bool" where
  "odd_status st \<longleftrightarrow> st \<notin> {200, 204, 206, 404, 409, 412, 416}"

definition calm_net :: "accident list \<Rightarrow> bool" where
  "calm_net sc \<longleftrightarrow> list_all (\<lambda>a. case a of Other _ \<Rightarrow> False | Refused st \<Rightarrow> odd_status st | Muffled st \<Rightarrow> odd_status st | _ \<Rightarrow> True) sc"

definition troubles :: "accident list \<Rightarrow> nat" where
  "troubles sc = length (filter (\<lambda>a. a \<noteq> Fine) sc)"

text \<open>An operation that came to \<open>r\<close>: two accidents are not enough to make it fail.\<close>

definition calmer :: "'s net \<Rightarrow> 's net \<Rightarrow> 'a result \<Rightarrow> bool" where
  "calmer n n' r \<longleftrightarrow> troubles (net_script n') \<le> troubles (net_script n) \<and> (troubles (net_script n) < 3 \<longrightarrow> is_ok r)"

lemma deliver_quiet:
  assumes "calm_net sc" "h q s = (Inr r0, s0)" "deliver h q sc s = (r, sc', s')"
  shows "calm_net sc'"
    and "(s' = s \<or> s' = s0) \<and> ((\<exists>e. r = Inl e) \<or> (\<exists>st. r = Inr \<lparr>rp_status = st, rp_body = Inr []\<rparr> \<and> odd_status st))
      \<or> s' = s0 \<and> (r = Inr r0 \<or> (\<exists>e. r = Inr (r0\<lparr>rp_body := Inl e\<rparr>)))"
    and "troubles sc' < troubles sc \<or> s' = s0 \<and> r = Inr r0 \<and> troubles sc' = troubles sc"
  using assms by (cases "(h, q, sc, s)" rule: deliver.cases; force simp: calm_net_def troubles_def)+

text \<open>What the service sees of a request: the client's signature is nothing to the laws.\<close>

definition shaped :: "string \<Rightarrow> string \<Rightarrow> bytes \<Rightarrow> (string \<times> string) list \<Rightarrow> hreq \<Rightarrow> bool" where
  "shaped m url body extra q \<longleftrightarrow> rq_method q = m \<and> rq_url q = url \<and> rq_body q = body
     \<and> map_of (rq_headers q) ''range'' = map_of extra ''range'' \<and> map_of (rq_headers q) ''if-none-match'' = map_of extra ''if-none-match''"

definition full_url :: "r2 \<Rightarrow> string \<Rightarrow> (string \<times> string) list \<Rightarrow> string" where
  "full_url c path query = r2_endpoint c @ path @ (if query = [] then '''' else ''?'' @ canonical_query query)"

lemma request_sent:
  obtains q where "shaped m (full_url c path query) body extra q"
    "run_web h (web_try (r2_request dg c m path query body extra) f) n =
        (case deliver h q (net_script n) (net_srv n) of (r, sc, s) \<Rightarrow>
           (let n' = n\<lparr>net_script := sc, net_srv := s\<rparr> in case r of Inl e \<Rightarrow> (Inl e, n') | Inr r \<Rightarrow> run_web h (f r) n'))"
proof -
  obtain date time where d: "utc_stamps (word_of_nat (net_ms n div 1000)) = (date, time)" by fastforce
  obtain au ad where a: "sign_request dg (r2_secret_key c) (r2_access_key c) (r2_region c) m (r2_host c) path query extra
      (hex_text (dg_sha dg body)) date time = (au, ad)" by fastforce
  show ?thesis
    by (rule that[of "\<lparr>rq_method = m, rq_url = (if query = [] then r2_endpoint c @ path else (r2_endpoint c @ path) @ ''?'' @ canonical_query query),
        rq_headers = [(''host'', r2_host c), (''x-amz-date'', ad), (''x-amz-content-sha256'', hex_text (dg_sha dg body)), (''authorization'', au)] @ extra,
        rq_body = body\<rparr>"])
       (auto simp: shaped_def full_url_def r2_request_def run_web_try d a Let_def split: prod.splits sum.splits)
qed

lemma retry_rule:
  assumes step: "\<And>n r n'. I n \<Longrightarrow> run_web h op n = (r, n') \<Longrightarrow> (case r of Inr (Some v) \<Rightarrow> Q v n' | _ \<Rightarrow> I n')"
    and nap: "\<And>n ms. I n \<Longrightarrow> I (n\<lparr>net_ms := ms\<rparr>)"
    and init: "I n" "run_web h (with_retries op) n = (r, n')"
  shows "case r of Inl e \<Rightarrow> I n' | Inr v \<Rightarrow> Q v n'"
proof -
  have "case r of Inl e \<Rightarrow> I n' | Inr v \<Rightarrow> Q v n'" if "I n" "run_web h (retry_from as err op) n = (r, n')" for as err n
    using that
  proof (induction as arbitrary: err n)
    case (Cons a as)
    let ?n = "if 0 < a then n\<lparr>net_ms := net_ms n + 100 * a\<rparr> else n"
    have i: "I ?n" using nap Cons.prems(1) by simp
    obtain x m where x: "run_web h op ?n = (x, m)" by fastforce
    have "run_web h (case x of Inr (Some v) \<Rightarrow> Page (Inr v) | Inr None \<Rightarrow> retry_from as ''transient (5xx)'' op | Inl e \<Rightarrow> retry_from as e op) m = (r, n')"
      using Cons.prems(2) x by (simp add: Let_def run_web_bind split: if_splits)
    then show ?case using step[OF i x] Cons.IH by (auto split: sum.splits option.splits)
  qed auto
  then show ?thesis using init by (simp add: with_retries_def)
qed

lemma retry_live:
  assumes step: "\<And>n r n'. I n \<Longrightarrow> run_web h op n = (r, n') \<Longrightarrow>
      I n' \<and> (troubles (net_script n') < troubles (net_script n) \<or> (\<exists>v. r = Inr (Some v)) \<and> troubles (net_script n') = troubles (net_script n))"
    and nap: "\<And>n ms. I n \<Longrightarrow> I (n\<lparr>net_ms := ms\<rparr>)"
    and init: "I n" "run_web h (with_retries op) n = (r, n')"
  shows "calmer n n' r"
proof -
  have "troubles (net_script n') \<le> troubles (net_script n) \<and> (troubles (net_script n) < length as \<longrightarrow> is_ok r)"
    if "I n" "run_web h (retry_from as err op) n = (r, n')" for as err n
    using that
  proof (induction as arbitrary: err n)
    case (Cons a as)
    let ?n = "if 0 < a then n\<lparr>net_ms := net_ms n + 100 * a\<rparr> else n"
    have i: "I ?n" using nap Cons.prems(1) by simp
    obtain x m where x: "run_web h op ?n = (x, m)" by fastforce
    have run: "run_web h (case x of Inr (Some v) \<Rightarrow> Page (Inr v) | Inr None \<Rightarrow> retry_from as ''transient (5xx)'' op | Inl e \<Rightarrow> retry_from as e op) m = (r, n')"
      using Cons.prems(2) x by (simp add: Let_def run_web_bind split: if_splits)
    have s: "net_script ?n = net_script n" by simp
    have "I m" "troubles (net_script m) < troubles (net_script n) \<or> (\<exists>v. x = Inr (Some v)) \<and> troubles (net_script m) = troubles (net_script n)"
      using step[OF i x] s by auto
    then show ?case using run Cons.IH[of m] by (cases x; cases "projr x") fastforce+
  qed auto
  from this[OF init(1), of "[0..<retries]"] show ?thesis using init(2) by (simp add: with_retries_def calmer_def retries_def)
qed

text \<open>
  An operation of the client, on a calm network: \<open>I\<close> holds of the service before and after every attempt, whether
  it took effect or not, and \<open>Q\<close> when the service's answer gave a value.
\<close>

lemma retried_request:
  assumes law: "\<And>s q. I s \<Longrightarrow> shaped m (full_url c path query) body extra q \<Longrightarrow>
      \<exists>r s'. h q s = (Inr r, s') \<and> I s' \<and> (\<exists>v. f r = Inr (Some v) \<and> Q v s') \<and> (\<forall>e v. f (r\<lparr>rp_body := Inl e\<rparr>) = Inr (Some v) \<longrightarrow> Q v s')"
    and odd: "\<And>st v. odd_status st \<Longrightarrow> f \<lparr>rp_status = st, rp_body = Inr []\<rparr> \<noteq> Inr (Some v)"
    and init: "calm_net (net_script n)" "I (net_srv n)"
    and run: "run_web h (with_retries (web_try (r2_request dg c m path query body extra) (\<lambda>r. Page (f r)))) n = (x, n')"
  shows "calm_net (net_script n') \<and> I (net_srv n') \<and> (\<forall>v. x = Inr v \<longrightarrow> Q v (net_srv n')) \<and> calmer n n' x"
proof -
  let ?I = "\<lambda>n. calm_net (net_script n) \<and> I (net_srv n)"
  let ?op = "web_try (r2_request dg c m path query body extra) (\<lambda>r. Page (f r))"
  have one: "(case x of Inr (Some v) \<Rightarrow> ?I n' \<and> Q v (net_srv n') | _ \<Rightarrow> ?I n')
      \<and> (troubles (net_script n') < troubles (net_script n) \<or> (\<exists>v. x = Inr (Some v)) \<and> troubles (net_script n') = troubles (net_script n))" if i: "?I n" and run: "run_web h ?op n = (x, n')" for n x n'
  proof -
    obtain q where q: "shaped m (full_url c path query) body extra q"
      "run_web h ?op n = (case deliver h q (net_script n) (net_srv n) of (r, sc, s) \<Rightarrow>
         (let n' = n\<lparr>net_script := sc, net_srv := s\<rparr> in case r of Inl e \<Rightarrow> (Inl e, n') | Inr r \<Rightarrow> run_web h (Page (f r)) n'))"
      by (rule request_sent)
    obtain r0 s0 where r0: "h q (net_srv n) = (Inr r0, s0)" "I s0" "\<exists>v. f r0 = Inr (Some v) \<and> Q v s0"
      "\<forall>e v. f (r0\<lparr>rp_body := Inl e\<rparr>) = Inr (Some v) \<longrightarrow> Q v s0" using law[OF _ q(1)] i by blast
    obtain r sc s where d: "deliver h q (net_script n) (net_srv n) = (r, sc, s)" by (cases "deliver h q (net_script n) (net_srv n)")
    have n': "net_script n' = sc" "net_srv n' = s" "x = (case r of Inl e \<Rightarrow> Inl e | Inr r \<Rightarrow> f r)"
      using run unfolding q(2) d by (auto simp: Let_def split: sum.splits)
    have "calm_net sc" "(s = net_srv n \<or> s = s0) \<and> (\<nexists>v. x = Inr (Some v)) \<or> s = s0 \<and> (x = f r0 \<or> (\<exists>e. x = f (r0\<lparr>rp_body := Inl e\<rparr>)))"
      using deliver_quiet[OF conjunct1[OF i] r0(1) d] odd n'(3) by (auto, metis)
    then have "case x of Inr (Some v) \<Rightarrow> ?I n' \<and> Q v (net_srv n') | _ \<Rightarrow> ?I n'" using n'(1,2) i r0(2-4) by (auto split: sum.split option.split)
    moreover have "troubles sc < troubles (net_script n) \<or> (\<exists>v. x = Inr (Some v)) \<and> troubles sc = troubles (net_script n)"
      using deliver_quiet(3)[OF conjunct1[OF i] r0(1) d] n'(3) r0(3) by auto
    ultimately show ?thesis using n'(1) by simp
  qed
  have kept: "?I n' \<and> (troubles (net_script n') < troubles (net_script n) \<or> (\<exists>v. x = Inr (Some v)) \<and> troubles (net_script n') = troubles (net_script n))"
    if "?I n" "run_web h ?op n = (x, n')" for n x n'
    using one[OF that] by (auto split: sum.splits option.splits)
  have "calmer n n' x" by (rule retry_live[where I = ?I, OF kept _ _ run]) (use init in simp_all)
  moreover have "case x of Inl e \<Rightarrow> ?I n' | Inr v \<Rightarrow> ?I n' \<and> Q v (net_srv n')"
    using retry_rule[where I = ?I and h = h and op = ?op and n = n and r = x and n' = n' and Q = "\<lambda>v n'. ?I n' \<and> Q v (net_srv n')"] init run one
    by (auto split: sum.splits option.splits)
  ultimately show ?thesis by (cases x) auto
qed

section \<open>The client's operations\<close>

locale r2_client = s3_service h blob up base keys_after
  for h :: "'s service" and blob :: "'s \<Rightarrow> key \<Rightarrow> bytes option" and up base keys_after +
  fixes dg :: digests and c :: r2
  assumes base_url: "base = r2_endpoint c @ ''/'' @ r2_bucket c"
begin

text \<open>A calm network before a service with content \<open>B\<close>.\<close>

definition holds_blobs :: "(key \<Rightarrow> bytes option) \<Rightarrow> 's net \<Rightarrow> bool" where
  "holds_blobs B n \<longleftrightarrow> calm_net (net_script n) \<and> up (net_srv n) \<and> blob (net_srv n) = B"

lemma key_url: "plain_key k \<Longrightarrow> full_url c (path_for c k) [] = base @ ''/'' @ k"
  by (simp add: full_url_def base_url path_for_def plain_key_def uri_encode_plain)

lemmas status_simps = other_status_def odd_status_def

lemma run_get:
  assumes "plain_key k" "holds_blobs B n" "run_web h (r2_get dg c k) n = (r, n')"
  shows "holds_blobs B n' \<and> (\<forall>v. r = Inr v \<longrightarrow> v = B k) \<and> calmer n n' r"
proof -
  have "calm_net (net_script n') \<and> (up (net_srv n') \<and> blob (net_srv n') = B) \<and> (\<forall>v. r = Inr v \<longrightarrow> v = B k) \<and> calmer n n' r"
  proof (rule retried_request[where I = "\<lambda>s. up s \<and> blob s = B" and Q = "\<lambda>v s. v = B k", OF _ _ _ _ assms(3)[unfolded r2_get_def]])
    fix s q assume s: "up s \<and> blob s = B" and q: "shaped ''GET'' (full_url c (path_for c k) []) [] [] q"
    then obtain r s' where "h q s = (Inr r, s')" "up s' \<and> blob s' = B"
      "case B k of None \<Rightarrow> rp_status r = 404 | Some v \<Rightarrow> rp_status r = 200 \<and> rp_body r = Inr v"
      using get_law[of s k q] assms(1) by (auto simp: key_url[OF assms(1)] shaped_def)
    then show "\<exists>r s'. h q s = (Inr r, s') \<and> (up s' \<and> blob s' = B) \<and>
        (\<exists>v. (if rp_status r = 200 then (case rp_body r of Inl e \<Rightarrow> Inl e | Inr b \<Rightarrow> Inr (Some (Some b)))
          else if rp_status r = 404 then Inr (Some None) else other_status (''R2 GET '' @ k) r) = Inr (Some v) \<and> v = B k) \<and>
        (\<forall>e v. (if rp_status (r\<lparr>rp_body := Inl e\<rparr>) = 200 then (case rp_body (r\<lparr>rp_body := Inl e\<rparr>) of Inl e \<Rightarrow> Inl e | Inr b \<Rightarrow> Inr (Some (Some b)))
          else if rp_status (r\<lparr>rp_body := Inl e\<rparr>) = 404 then Inr (Some None) else other_status (''R2 GET '' @ k) (r\<lparr>rp_body := Inl e\<rparr>)) = Inr (Some v) \<longrightarrow> v = B k)"
      by (cases "B k") (auto simp: status_simps)
  qed (use assms(2) in \<open>auto simp: holds_blobs_def status_simps\<close>)
  then show ?thesis by (simp add: holds_blobs_def)
qed

lemma run_range:
  assumes "plain_key k" "holds_blobs B n" "run_web h (r2_get_range dg c k offset len) n = (r, n')"
    and "0 < unat len" "unat offset + unat len < 2 ^ 64"
  shows "holds_blobs B n' \<and> (\<forall>v. r = Inr v \<longrightarrow> v = map_option (\<lambda>v. take (unat len) (drop (unat offset) v)) (B k)) \<and> calmer n n' r"
proof -
  let ?w = "map_option (\<lambda>v. take (unat len) (drop (unat offset) v)) (B k)"
  let ?range = "''bytes='' @ show_nat (unat offset) @ ''-'' @ show_nat (unat (offset + len - 1))"
  have w: "unat (offset + len - 1) = unat offset + unat len - 1"
  proof -
    have e: "unat (offset + len) = unat offset + unat len" using assms(5) unat_add_lem[of offset len] by simp
    then have "offset + len \<noteq> 0" using assms(4) by auto
    then show ?thesis using e by (simp add: unat_minus_one)
  qed
  have ends: "unat offset \<le> unat (offset + len - 1)" "unat (offset + len - 1) < 2 ^ 64 - 1" using w assms(4,5) by simp_all
  have "calm_net (net_script n') \<and> (up (net_srv n') \<and> blob (net_srv n') = B) \<and> (\<forall>v. r = Inr v \<longrightarrow> v = ?w) \<and> calmer n n' r"
  proof (rule retried_request[where I = "\<lambda>s. up s \<and> blob s = B" and Q = "\<lambda>v s. v = ?w", OF _ _ _ _ assms(3)[unfolded r2_get_range_def Let_def]])
    fix s q assume s: "up s \<and> blob s = B" and q: "shaped ''GET'' (full_url c (path_for c k) []) [] [(''range'', ?range)] q"
    obtain r s' where r: "h q s = (Inr r, s')" "up s' \<and> blob s' = B"
      "case B k of None \<Rightarrow> rp_status r = 404 | Some v \<Rightarrow> if length v \<le> unat offset then rp_status r = 416
        else rp_status r = 206 \<and> rp_body r = Inr (take (unat (offset + len - 1) + 1 - unat offset) (drop (unat offset) v))"
      using range_law[OF _ assms(1) _ _ _ ends(1,2), of s q] s q by (simp add: key_url[OF assms(1)] shaped_def) blast
    have "unat (offset + len - 1) + 1 - unat offset = unat len" using w assms(4) by simp
    then show "\<exists>r s'. h q s = (Inr r, s') \<and> (up s' \<and> blob s' = B) \<and>
        (\<exists>v. (if rp_status r = 200 \<or> rp_status r = 206 then (case rp_body r of Inl e \<Rightarrow> Inl e | Inr b \<Rightarrow> Inr (Some (Some b)))
          else if rp_status r = 404 then Inr (Some None) else if rp_status r = 416 then Inr (Some (Some []))
          else other_status (''R2 RANGE '' @ k) r) = Inr (Some v) \<and> v = ?w) \<and>
        (\<forall>e v. (if rp_status (r\<lparr>rp_body := Inl e\<rparr>) = 200 \<or> rp_status (r\<lparr>rp_body := Inl e\<rparr>) = 206
          then (case rp_body (r\<lparr>rp_body := Inl e\<rparr>) of Inl e \<Rightarrow> Inl e | Inr b \<Rightarrow> Inr (Some (Some b)))
          else if rp_status (r\<lparr>rp_body := Inl e\<rparr>) = 404 then Inr (Some None) else if rp_status (r\<lparr>rp_body := Inl e\<rparr>) = 416 then Inr (Some (Some []))
          else other_status (''R2 RANGE '' @ k) (r\<lparr>rp_body := Inl e\<rparr>)) = Inr (Some v) \<longrightarrow> v = ?w)"
      using r by (cases "B k") (auto simp: status_simps split: if_splits)
  qed (use assms(2) in \<open>auto simp: holds_blobs_def status_simps\<close>)
  then show ?thesis by (simp add: holds_blobs_def)
qed

lemma run_put:
  assumes "plain_key k" "calm_net (net_script n)" "up (net_srv n)" "blob (net_srv n) = B" "run_web h (r2_put dg c k v) n = (r, n')"
  shows "(holds_blobs B n' \<or> holds_blobs (B(k \<mapsto> v)) n') \<and> (\<forall>u. r = Inr u \<longrightarrow> holds_blobs (B(k \<mapsto> v)) n') \<and> calmer n n' r"
proof -
  have "calm_net (net_script n') \<and> (up (net_srv n') \<and> (blob (net_srv n') = B \<or> blob (net_srv n') = B(k \<mapsto> v)))
      \<and> (\<forall>u. r = Inr u \<longrightarrow> blob (net_srv n') = B(k \<mapsto> v)) \<and> calmer n n' r"
  proof (rule retried_request[where I = "\<lambda>s. up s \<and> (blob s = B \<or> blob s = B(k \<mapsto> v))" and Q = "\<lambda>u s. blob s = B(k \<mapsto> v)", OF _ _ _ _ assms(5)[unfolded r2_put_def]])
    fix s q assume s: "up s \<and> (blob s = B \<or> blob s = B(k \<mapsto> v))" and q: "shaped ''PUT'' (full_url c (path_for c k) []) v [] q"
    then obtain r s' where "h q s = (Inr r, s')" "up s' \<and> blob s' = B(k \<mapsto> v)" "rp_status r = 200"
      using put_law[of s k q] assms(1) by (auto simp: key_url[OF assms(1)] shaped_def)
    then show "\<exists>r s'. h q s = (Inr r, s') \<and> (up s' \<and> (blob s' = B \<or> blob s' = B(k \<mapsto> v))) \<and>
        (\<exists>u. (if rp_status r = 200 then Inr (Some ()) else other_status (''R2 PUT '' @ k) r) = Inr (Some u) \<and> blob s' = B(k \<mapsto> v)) \<and>
        (\<forall>e u. (if rp_status (r\<lparr>rp_body := Inl e\<rparr>) = 200 then Inr (Some ()) else other_status (''R2 PUT '' @ k) (r\<lparr>rp_body := Inl e\<rparr>)) = Inr (Some u)
          \<longrightarrow> blob s' = B(k \<mapsto> v))"
      by auto
  qed (use assms(2-4) in \<open>auto simp: status_simps\<close>)
  then show ?thesis by (auto simp: holds_blobs_def)
qed

lemma run_delete:
  assumes "plain_key k" "calm_net (net_script n)" "up (net_srv n)" "blob (net_srv n) = B" "run_web h (r2_delete dg c k) n = (r, n')"
  shows "(holds_blobs B n' \<or> holds_blobs (B(k := None)) n') \<and> (\<forall>u. r = Inr u \<longrightarrow> holds_blobs (B(k := None)) n') \<and> calmer n n' r"
proof -
  have "calm_net (net_script n') \<and> (up (net_srv n') \<and> (blob (net_srv n') = B \<or> blob (net_srv n') = B(k := None)))
      \<and> (\<forall>u. r = Inr u \<longrightarrow> blob (net_srv n') = B(k := None)) \<and> calmer n n' r"
  proof (rule retried_request[where I = "\<lambda>s. up s \<and> (blob s = B \<or> blob s = B(k := None))" and Q = "\<lambda>u s. blob s = B(k := None)", OF _ _ _ _ assms(5)[unfolded r2_delete_def delete_once_def]])
    fix s q assume s: "up s \<and> (blob s = B \<or> blob s = B(k := None))" and q: "shaped ''DELETE'' (full_url c (path_for c k) []) [] [] q"
    then obtain r s' where "h q s = (Inr r, s')" "up s' \<and> blob s' = B(k := None)" "rp_status r \<in> {200, 204, 404}"
      using delete_law[of s k q] assms(1) by (auto simp: key_url[OF assms(1)] shaped_def)
    then show "\<exists>r s'. h q s = (Inr r, s') \<and> (up s' \<and> (blob s' = B \<or> blob s' = B(k := None))) \<and>
        (\<exists>u. (if rp_status r \<in> {200, 204, 404} then Inr (Some ()) else other_status (''R2 DELETE '' @ k) r) = Inr (Some u) \<and> blob s' = B(k := None)) \<and>
        (\<forall>e u. (if rp_status (r\<lparr>rp_body := Inl e\<rparr>) \<in> {200, 204, 404} then Inr (Some ()) else other_status (''R2 DELETE '' @ k) (r\<lparr>rp_body := Inl e\<rparr>)) = Inr (Some u)
          \<longrightarrow> blob s' = B(k := None))"
      by auto
  qed (use assms(2-4) in \<open>auto simp: status_simps\<close>)
  then show ?thesis by (auto simp: holds_blobs_def)
qed

lemma run_create:
  assumes "plain_key k" "calm_net (net_script n)" "up (net_srv n)" "blob (net_srv n) = B" "run_web h (r2_create dg c k v) n = (r, n')"
  shows "(holds_blobs B n' \<or> B k = None \<and> holds_blobs (B(k \<mapsto> v)) n') \<and> (r = Inr True \<longrightarrow> B k = None \<and> holds_blobs (B(k \<mapsto> v)) n')
    \<and> (r = Inr False \<longrightarrow> (if B k = None then holds_blobs (B(k \<mapsto> v)) n' else holds_blobs B n')) \<and> calmer n n' r"
proof -
  let ?I = "\<lambda>s. up s \<and> (blob s = B \<or> B k = None \<and> blob s = B(k \<mapsto> v))"
  let ?Q = "\<lambda>b s. if b then B k = None \<and> blob s = B(k \<mapsto> v) else if B k = None then blob s = B(k \<mapsto> v) else blob s = B"
  have "calm_net (net_script n') \<and> ?I (net_srv n') \<and> (\<forall>b. r = Inr b \<longrightarrow> ?Q b (net_srv n')) \<and> calmer n n' r"
  proof (rule retried_request[where I = ?I and Q = ?Q, OF _ _ _ _ assms(5)[unfolded r2_create_def]])
    fix s q assume s: "?I s" and q: "shaped ''PUT'' (full_url c (path_for c k) []) v [(''if-none-match'', ''*'')] q"
    then obtain r s' where r: "h q s = (Inr r, s')" and "up s'"
        "if blob s k = None then blob s' = (blob s)(k \<mapsto> v) \<and> rp_status r = 200 else blob s' = blob s \<and> rp_status r = 412"
      using create_law[of s k q] assms(1) by (auto simp: key_url[OF assms(1)] shaped_def)
    then have "?I s'" "?Q (rp_status r = 200) s'" "rp_status r = 200 \<or> rp_status r = 412" using s by (auto split: if_splits)
    with r(1) show "\<exists>r s'. h q s = (Inr r, s') \<and> ?I s' \<and>
        (\<exists>b. (if rp_status r = 200 then Inr (Some True) else if rp_status r = 412 \<or> rp_status r = 409 then Inr (Some False)
          else other_status (''R2 CREATE '' @ k) r) = Inr (Some b) \<and> ?Q b s') \<and>
        (\<forall>e b. (if rp_status (r\<lparr>rp_body := Inl e\<rparr>) = 200 then Inr (Some True)
          else if rp_status (r\<lparr>rp_body := Inl e\<rparr>) = 412 \<or> rp_status (r\<lparr>rp_body := Inl e\<rparr>) = 409 then Inr (Some False)
          else other_status (''R2 CREATE '' @ k) (r\<lparr>rp_body := Inl e\<rparr>)) = Inr (Some b) \<longrightarrow> ?Q b s')"
      by (intro exI[of _ r] exI[of _ s'] conjI exI[of _ "rp_status r = 200"]) (simp_all split: if_splits)
  qed (use assms(2-4) in \<open>auto simp: status_simps\<close>)
  then show ?thesis by (auto simp: holds_blobs_def split: if_splits)
qed

end

end
