(* ===== verification/R2_Store.thy ===== *)
theory R2_Store
  imports R2_Net Lease
begin

text \<open>
  The R2 client is a blob store: on a calm network every operation of the store is answered and takes effect as on
  \<open>MemBlobStore\<close>, or fails, with or without its effect (\<open>r2_outcome\<close>).
\<close>

section \<open>Listing\<close>

context r2_client
begin

lemma run_page:
  assumes "plain p" "holds_blobs B n" "run_web h (list_page dg c p token) n = (r, n')" and K: "\<And>s. up s \<Longrightarrow> blob s = B \<Longrightarrow> keys_after s p = K"
  shows "holds_blobs B n' \<and> calmer n n' r \<and> (\<forall>xml. r = Inr xml \<longrightarrow> (\<exists>page others t. K token = page @ others \<and> extract_tags xml ''Key'' = page
    \<and> extract_tags xml ''IsTruncated'' = [if others \<noteq> [] then ''true'' else ''false'']
    \<and> (others \<noteq> [] \<longrightarrow> page \<noteq> [] \<and> extract_tags xml ''NextContinuationToken'' = [t] \<and> K (Some t) = others)))"
proof -
  let ?Q = "\<lambda>xml. \<exists>page others t. K token = page @ others \<and> extract_tags xml ''Key'' = page
    \<and> extract_tags xml ''IsTruncated'' = [if others \<noteq> [] then ''true'' else ''false'']
    \<and> (others \<noteq> [] \<longrightarrow> page \<noteq> [] \<and> extract_tags xml ''NextContinuationToken'' = [t] \<and> K (Some t) = others)"
  have url: "full_url c (''/'' @ r2_bucket c) (list_query p token) = base @ ''?'' @ canonical_query (list_query p token)"
    by (simp add: full_url_def base_url list_query_def)
  have "calm_net (net_script n') \<and> (up (net_srv n') \<and> blob (net_srv n') = B) \<and> (\<forall>xml. r = Inr xml \<longrightarrow> ?Q xml) \<and> calmer n n' r"
  proof (rule retried_request[where I = "\<lambda>s. up s \<and> blob s = B" and Q = "\<lambda>xml s. ?Q xml", OF _ _ _ _ assms(3)[unfolded list_page_def Let_def list_query_def[symmetric]]])
    fix s q assume s: "up s \<and> blob s = B" and q: "shaped ''GET'' (full_url c (''/'' @ r2_bucket c) (list_query p token)) [] [] q"
    then obtain r s' page others t where l: "h q s = (Inr r, s')" "up s'" "blob s' = blob s" "keys_after s p token = page @ others"
        "page_of r page (others \<noteq> []) t" "others \<noteq> [] \<longrightarrow> page \<noteq> [] \<and> keys_after s p (Some t) = others"
      using list_law[OF _ assms(1), of s q token] q[unfolded url] unfolding shaped_def by blast
    obtain xml where x: "rp_status r = 200" "rp_body r = Inr xml" "?Q (bytes_string xml)"
      using l K s unfolding page_of_def by metis
    then show "\<exists>r s'. h q s = (Inr r, s') \<and> (up s' \<and> blob s' = B) \<and>
        (\<exists>v. (if rp_status r = 200 then (case rp_body r of Inl e \<Rightarrow> Inl e | Inr b \<Rightarrow> Inr (Some (bytes_string b))) else other_status (''R2 LIST '' @ p) r)
          = Inr (Some v) \<and> ?Q v) \<and>
        (\<forall>e v. (if rp_status (r\<lparr>rp_body := Inl e\<rparr>) = 200 then (case rp_body (r\<lparr>rp_body := Inl e\<rparr>) of Inl e \<Rightarrow> Inl e | Inr b \<Rightarrow> Inr (Some (bytes_string b)))
          else other_status (''R2 LIST '' @ p) (r\<lparr>rp_body := Inl e\<rparr>)) = Inr (Some v) \<longrightarrow> ?Q v)"
      using l(1-3) s by (intro exI[of _ r] exI[of _ s']) (simp add: status_simps)
  qed (use assms(2) in \<open>auto simp: holds_blobs_def status_simps\<close>)
  then show ?thesis by (simp add: holds_blobs_def)
qed

lemma run_pages:
  assumes "plain p" and K: "\<And>s. up s \<Longrightarrow> blob s = B \<Longrightarrow> keys_after s p = K"
    and "holds_blobs B n" "run_web h (list_pages fuel dg c p token acc) n = (r, n')" "length (K token) < fuel"
  shows "holds_blobs B n' \<and> (r = Some (Inr (sort (acc @ K token))) \<or> (\<exists>e. r = Some (Inl e)))
    \<and> (troubles (net_script n) < 3 \<longrightarrow> (\<exists>ks. r = Some (Inr ks)))"
  using assms(3-5)
proof (induction fuel arbitrary: token acc n)
  case (Suc fuel)
  obtain x m where x: "run_web h (list_page dg c p token) n = (x, m)" by fastforce
  note pg = run_page[OF assms(1) Suc.prems(1) x K]
  show ?case
  proof (cases x)
    case (Inl e)
    then show ?thesis using Suc.prems(2) x pg by (auto simp: run_web_bind calmer_def)
  next
    case (Inr xml)
    then obtain page others t where k: "K token = page @ others" "extract_tags xml ''Key'' = page"
      "extract_tags xml ''IsTruncated'' = [if others \<noteq> [] then ''true'' else ''false'']"
      "others \<noteq> [] \<longrightarrow> page \<noteq> [] \<and> extract_tags xml ''NextContinuationToken'' = [t] \<and> K (Some t) = others"
      using pg by auto
    show ?thesis
    proof (cases "others = []")
      case True
      then show ?thesis using Suc.prems(2) x pg Inr k by (auto simp: run_web_bind Let_def)
    next
      case False
      then have "run_web h (list_pages fuel dg c p (Some t) (acc @ page)) m = (r, n')" "length (K (Some t)) < fuel"
        using Suc.prems(2,3) x Inr k by (auto simp: run_web_bind Let_def neq_Nil_conv)
      then show ?thesis using Suc.IH[of m "Some t" "acc @ page"] pg False k by (auto simp: calmer_def)
    qed
  qed
qed simp

lemma run_list:
  assumes "plain p" "holds_blobs B n" "run_web h (r2_list fuel dg c p) n = (r, n')" "length (keys_after (net_srv n) p None) < fuel"
  shows "holds_blobs B n' \<and> (r = Some (Inr (keys_after (net_srv n) p None)) \<or> (\<exists>e. r = Some (Inl e)))
    \<and> (troubles (net_script n) < 3 \<longrightarrow> (\<exists>ks. r = Some (Inr ks)))"
proof -
  have K: "keys_after s p = keys_after (net_srv n) p" if "up s" "blob s = B" for s
    using keys_same[of "net_srv n" s] that assms(2) by (auto simp: holds_blobs_def)
  have "sorted (keys_after (net_srv n) p None)" using keys_all[of "net_srv n" p] assms(1,2) by (simp add: holds_blobs_def strict_sorted_iff)
  then show ?thesis using run_pages[OF assms(1) K assms(2) assms(3)[unfolded r2_list_def] assms(4)] by (simp add: sort_key_id_if_sorted)
qed

section \<open>The trait's defaults\<close>

lemma run_version:
  assumes "plain_key k" "holds_blobs B n" "run_web h (r2_version dg c k) n = (r, n')"
  shows "holds_blobs B n' \<and> (\<forall>v. r = Inr v \<longrightarrow> v = (if B k = None then 0 else 1)) \<and> calmer n n' r"
  using assms(3) run_get[OF assms(1,2)] by (auto simp: r2_version_def run_web_try default_version_def calmer_def split: prod.splits sum.splits)

lemma run_cas:
  assumes "plain_key k" "holds_blobs B n" "run_web h (r2_put_cas dg c k e v) n = (r, n')"
  shows "(holds_blobs B n' \<or> holds_blobs (B(k \<mapsto> v)) n')
    \<and> (\<forall>x. r = Inr x \<longrightarrow> (if e = (if B k = None then 0 else 1) then x = Some 1 \<and> holds_blobs (B(k \<mapsto> v)) n' else x = None \<and> holds_blobs B n'))
    \<and> (troubles (net_script n) = 0 \<longrightarrow> is_ok r)"
proof -
  obtain r1 n1 where v: "run_web h (r2_version dg c k) n = (r1, n1)" by fastforce
  obtain r2 n2 where p: "run_web h (r2_put dg c k v) n1 = (r2, n2)" by fastforce
  obtain r3 n3 where w: "run_web h (r2_version dg c k) n2 = (r3, n3)" by fastforce
  note v' = run_version[OF assms(1,2) v]
  have p': "(holds_blobs B n2 \<or> holds_blobs (B(k \<mapsto> v)) n2) \<and> (\<forall>u. r2 = Inr u \<longrightarrow> holds_blobs (B(k \<mapsto> v)) n2) \<and> calmer n1 n2 r2"
    using run_put[OF assms(1) _ _ _ p] v' by (simp add: holds_blobs_def)
  note w' = run_version[OF assms(1) _ w]
  show ?thesis using assms(3) v p w v' p' w'[of "B(k \<mapsto> v)"]
    by (cases r1; cases r2; cases r3) (auto simp: r2_put_cas_def run_web_try calmer_def split: if_splits)
qed

section \<open>All operations\<close>

lemma holds_mem: "holds_blobs (mem_get m) n \<longleftrightarrow> calm_net (net_script n) \<and> up (net_srv n) \<and> blob (net_srv n) = mem_get m"
  by (simp add: holds_blobs_def)

lemma listed:
  assumes "mem_wf m" "holds_blobs (mem_get m) n" "plain p"
  shows "keys_after (net_srv n) p None = mem_list m p"
  using keys_all[of "net_srv n" p] set_mem_list[OF assms(1)] mem_list_sorted[OF assms(1)] assms(2,3)
  by (auto simp: holds_blobs_def strict_sorted_iff intro!: sorted_distinct_set_unique)

end

text \<open>The requests the client answers with requests of its own kind, on names as the program writes them.\<close>

fun native :: "req \<Rightarrow> bool" where
  "native (GetReq k) = plain_key k"
| "native (PutReq k v) = plain_key k"
| "native (DeleteReq k) = plain_key k"
| "native (ListReq p) = plain p"
| "native (CreateReq k v) = plain_key k"
| "native (RangeReq k off len) = (plain_key k \<and> 0 < len \<and> off + len < 2 ^ 64)"
| "native (VersionReq k) = False"
| "native (CasReq k e v) = False"

text \<open>
  The outcomes of a request \<open>q\<close> on contents \<open>m\<close>: as on \<open>MemBlobStore\<close>; an error, with or without the effect; a
  create that took effect and is r2_answer as if the key had been taken.
\<close>

definition r2_outcome :: "req \<Rightarrow> mem \<Rightarrow> resp option \<Rightarrow> (key \<Rightarrow> bytes option) \<Rightarrow> bool" where
  "r2_outcome q m r B \<longleftrightarrow>
     r = Some (fst (serve q m)) \<and> B = mem_get (snd (serve q m))
   \<or> (\<exists>e. r = Some (ErrResp e)) \<and> (B = mem_get m \<or> B = mem_get (snd (serve q m)))
   \<or> (\<exists>k v. q = CreateReq k v) \<and> r = Some (BoolResp False) \<and> fst (serve q m) = BoolResp True \<and> B = mem_get (snd (serve q m))"

lemma mem_get_fun: "mem_get (mem_put k v m) = (mem_get m)(k \<mapsto> v)" "mem_get (mem_delete k m) = (mem_get m)(k := None)"
  by (auto simp: fun_eq_iff)

context r2_client
begin

lemma run_do:
  assumes "native q" "mem_wf m" "holds_blobs (mem_get m) n" "length (blobs m) < fuel" "run_web h (r2_do fuel dg c q) n = (r, n')"
  shows "calm_net (net_script n') \<and> up (net_srv n') \<and> r2_outcome q m r (blob (net_srv n'))
    \<and> (troubles (net_script n) < 3 \<longrightarrow> (\<nexists>e. r = Some (ErrResp e)))"
proof -
  have u: "calm_net (net_script n)" "up (net_srv n)" "blob (net_srv n) = mem_get m" using assms(3) by (simp_all add: holds_blobs_def)
  show ?thesis
  proof (cases q)
    case (GetReq k)
    obtain x m' where x: "run_web h (r2_get dg c k) n = (x, m')" by fastforce
    show ?thesis using assms(1,5) GetReq x run_get[OF _ assms(3) x]
      by (cases x) (auto simp: run_web_bind r2_answer_def calmer_def r2_outcome_def holds_blobs_def)
  next
    case (PutReq k v)
    obtain x m' where x: "run_web h (r2_put dg c k v) n = (x, m')" by fastforce
    show ?thesis using assms(1,5) PutReq x run_put[OF _ u x]
      by (cases x) (auto simp: run_web_bind r2_answer_def calmer_def r2_outcome_def holds_blobs_def mem_get_fun)
  next
    case (DeleteReq k)
    obtain x m' where x: "run_web h (r2_delete dg c k) n = (x, m')" by fastforce
    show ?thesis using assms(1,5) DeleteReq x run_delete[OF _ u x]
      by (cases x) (auto simp: run_web_bind r2_answer_def calmer_def r2_outcome_def holds_blobs_def mem_get_fun)
  next
    case (ListReq p)
    obtain x m' where x: "run_web h (r2_list fuel dg c p) n = (x, m')" by fastforce
    have p: "plain p" using assms(1) ListReq by simp
    have "length (mem_list m p) \<le> length (blobs m)"
      using length_takeWhile_le length_dropWhile_le unfolding mem_list_def by (metis length_map order.trans)
    then show ?thesis using assms(1,4,5) ListReq x run_list[OF p assms(3) x] listed[OF assms(2,3) p]
      by (auto simp: run_web_bind r2_answer_def calmer_def r2_outcome_def holds_blobs_def)
  next
    case (CreateReq k v)
    obtain x m' where x: "run_web h (r2_create dg c k v) n = (x, m')" by fastforce
    show ?thesis using assms(1,5) CreateReq x run_create[OF _ u x] memkv.create_cases[of k v m]
      by (cases x) (auto simp: run_web_bind r2_answer_def calmer_def r2_outcome_def holds_blobs_def mem_get_fun split: if_splits bool.splits)
  next
    case (RangeReq k off len)
    obtain x m' where x: "run_web h (r2_get_range dg c k (word_of_nat off) (word_of_nat len)) n = (x, m')" by fastforce
    have w: "unat (word_of_nat off :: 64 word) = off" "unat (word_of_nat len :: 64 word) = len"
      using assms(1) RangeReq by (simp_all add: unat_of_nat)
    show ?thesis using assms(1,5) RangeReq x run_range[OF _ assms(3) x] w
      by (cases x) (auto simp: run_web_bind r2_answer_def calmer_def r2_outcome_def holds_blobs_def)
  qed (use assms(1) in simp_all)
qed

section \<open>Drawing a boot name\<close>

lemma run_nonce:
  assumes "plain_key (boot_key addr)" "calm_net (net_script n)" "up (net_srv n)" "run_web h (over_r2 fuel dg c (nonce_tries i addr)) n = (r, n')"
  shows "calm_net (net_script n') \<and> up (net_srv n') \<and> r \<in> {Some 0, Some 1} \<and> (0 < i \<and> troubles (net_script n) = 0 \<longrightarrow> r = Some 1)"
  using assms(2-4)
proof (induction i arbitrary: n)
  case (Suc i)
  obtain x m where x: "run_web h (r2_version dg c (boot_key addr)) n = (x, m)" by fastforce
  have hb: "holds_blobs (blob (net_srv n)) n" using Suc.prems by (simp add: holds_blobs_def)
  let ?e = "case as_version (case x of Inl e \<Rightarrow> ErrResp e | Inr v \<Rightarrow> VersionResp v) of Inr v \<Rightarrow> v | Inl _ \<Rightarrow> 0"
  obtain y k where y: "run_web h (r2_put_cas dg c (boot_key addr) ?e (string_bytes addr)) m = (y, k)" by fastforce
  have m: "holds_blobs (blob (net_srv n)) m" using run_version[OF assms(1) hb x] by blast
  have k: "calm_net (net_script k)" "up (net_srv k)" "\<forall>z. y = Inr z \<longrightarrow> z = Some 1 \<or> z = None"
    using run_cas[OF assms(1) m y] by (auto simp: holds_blobs_def split: if_splits)
  have first: "y = Inr (Some 1)" if "troubles (net_script n) = 0"
    using that run_version[OF assms(1) hb x] run_cas[OF assms(1) m y]
    by (cases x; cases y) (auto simp: calmer_def as_version_def split: if_splits)
  have "(r, n') = (if y = Inr (Some 1) then (Some 1, k) else run_web h (over_r2 fuel dg c (nonce_tries i addr)) k)"
    using Suc.prems(3) x y k(3)
    by (auto simp: io_version_def io_put_cas_def run_web_bind r2_answer_def as_cas_def split: sum.splits option.splits prod.splits)
  then show ?case using Suc.IH[OF k(1,2)] k first by (auto split: if_splits)
qed auto

end

end
