(* ===== verification/R2_Fake.thy ===== *)
theory R2_Fake
  imports R2_Store
begin

text \<open>
  The S3 service the client is tested against, from the tests of \<open>src/src/r2.rs\<close>: \<open>FakeS3\<close> with its handlers for
  objects and listings (pages of two keys), its fault injection, and the router. It keeps what S3 documents, so every
  fact about the client on a service holds on it. The decoding of paths is the router library's (\<open>dec\<close>).
\<close>

section \<open>\<open>FakeS3\<close>\<close>

text \<open>A handler that panics while it holds the blobs leaves their lock poisoned.\<close>

record fake_s3 =
  fs_blobs :: "(key \<times> bytes) list"
  fs_poisoned :: bool
  fs_fail_status :: nat
  fs_fail_remaining :: nat
  fs_saw_sigv4 :: bool

definition fake_default :: fake_s3 where
  "fake_default = \<lparr>fs_blobs = [], fs_poisoned = False, fs_fail_status = 0, fs_fail_remaining = 0, fs_saw_sigv4 = False\<rparr>"

definition fail_next :: "nat \<Rightarrow> nat \<Rightarrow> fake_s3 \<Rightarrow> fake_s3" where
  "fail_next status k s = s\<lparr>fs_fail_status := status, fs_fail_remaining := k\<rparr>"

definition injected :: "fake_s3 \<Rightarrow> nat option \<times> fake_s3" where
  "injected s = (if 0 < fs_fail_remaining s
     then (if 100 \<le> fs_fail_status s \<and> fs_fail_status s < 1000 then Some (fs_fail_status s) else None,
           s\<lparr>fs_fail_remaining := fs_fail_remaining s - 1\<rparr>)
     else (None, s))"

definition note_headers :: "(string \<times> string) list \<Rightarrow> fake_s3 \<Rightarrow> fake_s3" where
  "note_headers headers s =
    (let signed = (case map_of headers ''authorization'' of None \<Rightarrow> False
           | Some a \<Rightarrow> starts_with a ''AWS4-HMAC-SHA256 Credential=key/'')
         \<and> map_of headers ''x-amz-date'' \<noteq> None \<and> map_of headers ''x-amz-content-sha256'' \<noteq> None
     in if signed then s\<lparr>fs_saw_sigv4 := True\<rparr> else s)"

section \<open>Handlers\<close>

definition range_ends :: "string \<Rightarrow> (nat \<times> nat) option" where
  "range_ends spec = (case strip_prefix ''bytes='' spec of None \<Rightarrow> None
     | Some r \<Rightarrow> (case split_once (CHR ''-'') r of None \<Rightarrow> None
       | Some (a, b) \<Rightarrow> (case (parse_uint 64 a, parse_uint 64 b) of (Some a, Some b) \<Rightarrow> Some (a, b) | _ \<Rightarrow> None)))"

text \<open>The sum \<open>b + 1\<close> and the slice panic when they go wrong, with the lock held.\<close>

definition object_handler :: "string \<Rightarrow> key \<Rightarrow> (string \<times> string) list \<Rightarrow> bytes \<Rightarrow> fake_s3 \<Rightarrow> (nat \<times> bytes) rust \<times> fake_s3" where
  "object_handler meth k headers body s =
    (let s = note_headers headers s; (inj, s) = injected s
     in case inj of Some status \<Rightarrow> (Ret (status, string_bytes ''injected''), s)
      | None \<Rightarrow>
         if fs_poisoned s then (Panic, s)
         else if meth = ''PUT'' then
           (if map_of headers ''if-none-match'' = Some ''*'' \<and> map_of (fs_blobs s) k \<noteq> None then (Ret (412, []), s)
            else (Ret (200, []), s\<lparr>fs_blobs := bt_insert k body (fs_blobs s)\<rparr>))
         else if meth = ''DELETE'' then
           (Ret (if map_of (fs_blobs s) k \<noteq> None then 204 else 404, []), s\<lparr>fs_blobs := bt_remove k (fs_blobs s)\<rparr>)
         else (case map_of (fs_blobs s) k of None \<Rightarrow> (Ret (404, []), s)
           | Some bytes \<Rightarrow> (case map_of headers ''range'' of None \<Rightarrow> (Ret (200, bytes), s)
             | Some spec \<Rightarrow> (case range_ends spec of None \<Rightarrow> (Panic, s\<lparr>fs_poisoned := True\<rparr>)
               | Some (a, b) \<Rightarrow>
                   if length bytes \<le> a then (Ret (416, []), s)
                   else if 2 ^ 64 \<le> b + 1 \<or> min (b + 1) (length bytes) < a then (Panic, s\<lparr>fs_poisoned := True\<rparr>)
                   else (Ret (206, take (min (b + 1) (length bytes) - a) (drop a bytes)), s)))))"

text \<open>\<open>v.replace("%2F", "/")\<close> and \<open>query.split('&')\<close>.\<close>

function slash_back :: "string \<Rightarrow> string" where
  "slash_back s = (case find_text ''%2F'' s of None \<Rightarrow> s | Some (b, a) \<Rightarrow> b @ ''/'' @ slash_back a)"
  by auto
termination by (relation "measure length") (auto dest!: find_text_split)

declare slash_back.simps [simp del]

definition query_param :: "string \<Rightarrow> string \<Rightarrow> string option" where
  "query_param name query =
    (case List.map_filter (\<lambda>kv. map_option slash_back (strip_prefix (name @ ''='') kv)) (split_on (CHR ''&'') query) of
       [] \<Rightarrow> None | v # _ \<Rightarrow> Some v)"

definition or_empty :: "string option \<Rightarrow> string" where
  "or_empty v = (case v of None \<Rightarrow> '''' | Some v \<Rightarrow> v)"

definition page_xml :: "key list \<Rightarrow> bool \<Rightarrow> string" where
  "page_xml page truncated =
    ''<ListBucketResult>'' @ concat (map (\<lambda>k. ''<Contents><Key>'' @ k @ ''</Key></Contents>'') page)
    @ ''<IsTruncated>'' @ (if truncated then ''true'' else ''false'') @ ''</IsTruncated>''
    @ (if truncated then ''<NextContinuationToken>'' @ last page @ ''</NextContinuationToken>'' else '''')
    @ ''</ListBucketResult>''"

definition list_handler :: "string \<Rightarrow> (string \<times> string) list \<Rightarrow> fake_s3 \<Rightarrow> (nat \<times> string) rust \<times> fake_s3" where
  "list_handler query headers s =
    (let s = note_headers headers s; (inj, s) = injected s
     in case inj of Some status \<Rightarrow> (Ret (status, ''injected''), s)
      | None \<Rightarrow>
         if fs_poisoned s then (Panic, s)
         else (let pre = or_empty (query_param ''prefix'' query);
                   after = or_empty (query_param ''continuation-token'' query);
                   matching = filter (\<lambda>k. starts_with k pre \<and> after < k) (map fst (fs_blobs s));
                   page = take (min (length matching) 2) matching;
                   truncated = (length page < length matching)
               in (Ret (200, page_xml page truncated), s)))"

section \<open>The router\<close>

text \<open>A handler that panics closes the connection.\<close>

definition fake_serve :: "string \<Rightarrow> (string \<Rightarrow> string) \<Rightarrow> fake_s3 service" where
  "fake_serve endpoint dec q s =
    (let reply = (\<lambda>r. case r of Panic \<Rightarrow> Inl ''connection closed'' | Ret (status, body) \<Rightarrow> Inr \<lparr>rp_status = status, rp_body = Inr body\<rparr>)
     in case strip_prefix endpoint (rq_url q) of None \<Rightarrow> (Inl ''no such host'', s)
      | Some rest \<Rightarrow>
         (let (path, query) = (case split_once (CHR ''?'') rest of None \<Rightarrow> (rest, '''') | Some pq \<Rightarrow> pq)
          in if path = ''/bucket'' then
               (if rq_method q = ''GET''
                then map_prod (\<lambda>r. reply (case r of Panic \<Rightarrow> Panic | Ret (st, xml) \<Rightarrow> Ret (st, string_bytes xml))) id (list_handler query (rq_headers q) s)
                else (reply (Ret (405, [])), s))
             else (case strip_prefix ''/bucket/'' path of
                None \<Rightarrow> (reply (Ret (404, [])), s)
              | Some k \<Rightarrow> if k = '''' then (reply (Ret (404, [])), s)
                  else map_prod reply id (object_handler (rq_method q) (dec k) (rq_headers q) (rq_body q) s))))"

definition fake_store :: "string \<Rightarrow> r2 result" where
  "fake_store endpoint = r2_new endpoint ''bucket'' ''key'' ''secret''"

section \<open>Reading what it writes\<close>

lemma find_skip: "p \<noteq> [] \<Longrightarrow> hd p \<notin> set b \<Longrightarrow> find_text p (b @ s) = map_option (\<lambda>(x, y). (b @ x, y)) (find_text p s)"
  by (induction b) (auto simp: strip_prefix_def starts_with_def neq_Nil_conv option.map_comp comp_def option.map_id split: option.splits)

lemma find_here: "find_text p (p @ s) = Some ([], s)"
proof -
  have "find_text p t = (case strip_prefix p t of Some a \<Rightarrow> Some ([], a) | None \<Rightarrow> find_text p t)" for t
    by (cases t; cases p) (auto simp: strip_prefix_def starts_with_def split: option.splits)
  from this[of "p @ s"] show ?thesis by simp
qed

lemma find_miss: "\<not> starts_with (c # s) p \<Longrightarrow> find_text p (c # s) = map_option (\<lambda>(x, y). (c # x, y)) (find_text p s)"
  by (auto simp: strip_prefix_def split: option.splits)

lemma tags_before:
  assumes "find_text (''<'' @ tag @ ''>'') (b @ s) = map_option (\<lambda>(x, y). (b @ x, y)) (find_text (''<'' @ tag @ ''>'') s)"
  shows "extract_tags (b @ s) tag = extract_tags s tag"
  by (subst (1 2) extract_tags.simps) (use assms in \<open>auto split: option.splits\<close>)

text \<open>A text cut before every opening bracket.\<close>

definition cut_text :: "string list \<Rightarrow> string" where
  "cut_text ts = concat (map (\<lambda>t. CHR ''<'' # t) ts)"

lemma cut_text_simps: "cut_text [] = []" "cut_text (t # ts) = CHR ''<'' # t @ cut_text ts" "cut_text (ts @ us) = cut_text ts @ cut_text us"
  by (simp_all add: cut_text_def)

lemma cut_boundary:
  assumes "CHR ''<'' \<notin> set p"
  shows "starts_with (t @ cut_text ts) p \<longleftrightarrow> starts_with t p"
proof -
  have "prefix p (t @ cut_text ts) \<longleftrightarrow> prefix p t"
    using assms by (cases ts) (auto simp: cut_text_def prefix_append prefix_Cons)
  then show ?thesis by (simp add: starts_with_prefix)
qed

lemma tags_cut_nil: "extract_tags (cut_text []) tag = []"
  by (subst extract_tags.simps) (simp add: cut_text_def)

lemma tags_cut_other:
  assumes "CHR ''<'' \<notin> set t" "CHR ''<'' \<notin> set tag" "\<not> starts_with t (tag @ ''>'')"
  shows "extract_tags (cut_text (t # ts)) tag = extract_tags (cut_text ts) tag"
proof -
  have "extract_tags (''<'' @ (t @ cut_text ts)) tag = extract_tags (t @ cut_text ts) tag"
    by (rule tags_before, subst append_Cons, subst append_Nil, subst find_miss)
       (use assms(2,3) cut_boundary[of "tag @ ''>''" t ts] in \<open>auto simp: starts_with_def\<close>)
  moreover have "extract_tags (t @ cut_text ts) tag = extract_tags (cut_text ts) tag"
    by (rule tags_before[OF find_skip]) (use assms(1) in auto)
  ultimately show ?thesis by (simp add: cut_text_simps)
qed

lemma tags_cut_hit:
  assumes "CHR ''<'' \<notin> set v"
  shows "extract_tags (cut_text ((tag @ ''>'' @ v) # (''/'' @ tag @ ''>'') # ts)) tag = v # extract_tags (cut_text ts) tag"
proof -
  have "find_text (''</'' @ tag @ ''>'') (v @ ''</'' @ tag @ ''>'' @ cut_text ts) = Some (v, cut_text ts)"
    using find_skip[of "''</'' @ tag @ ''>''" v "''</'' @ tag @ ''>'' @ cut_text ts"] find_here[of "''</'' @ tag @ ''>''" "cut_text ts"] assms by simp
  moreover have "find_text (''<'' @ tag @ ''>'') (''<'' @ tag @ ''>'' @ v @ ''</'' @ tag @ ''>'' @ cut_text ts) = Some ([], v @ ''</'' @ tag @ ''>'' @ cut_text ts)"
    using find_here[of "''<'' @ tag @ ''>''" "v @ ''</'' @ tag @ ''>'' @ cut_text ts"] by simp
  ultimately show ?thesis by (subst extract_tags.simps) (simp add: cut_text_simps)
qed

lemma plain_text: "plain k \<Longrightarrow> CHR ''<'' \<notin> set k" "plain k \<Longrightarrow> CHR ''%'' \<notin> set k" "plain k \<Longrightarrow> CHR ''?'' \<notin> set k"
  by (auto simp: plain_def unreserved_def)

definition page_cuts :: "key list \<Rightarrow> string list" where
  "page_cuts page = concat (map (\<lambda>k. [''Contents>'', ''Key'' @ ''>'' @ k, ''/'' @ ''Key'' @ ''>'', ''/Contents>'']) page)"

definition end_cuts :: "key list \<Rightarrow> bool \<Rightarrow> string list" where
  "end_cuts page truncated = [''IsTruncated'' @ ''>'' @ (if truncated then ''true'' else ''false''), ''/'' @ ''IsTruncated'' @ ''>'']
     @ (if truncated then [''NextContinuationToken'' @ ''>'' @ last page, ''/'' @ ''NextContinuationToken'' @ ''>''] else []) @ [''/ListBucketResult>'']"

lemma page_cut: "page_xml page truncated = cut_text (''ListBucketResult>'' # page_cuts page @ end_cuts page truncated)"
proof -
  have "concat (map (\<lambda>k. ''<Contents><Key>'' @ k @ ''</Key></Contents>'') page) = cut_text (page_cuts page)"
    unfolding page_cuts_def by (induction page) (simp_all add: cut_text_simps)
  then show ?thesis by (simp add: page_xml_def end_cuts_def cut_text_simps)
qed

lemma page_cuts_key: "\<forall>k \<in> set page. plain k \<Longrightarrow> extract_tags (cut_text (page_cuts page @ ts)) ''Key'' = page @ extract_tags (cut_text ts) ''Key''"
proof (induction page)
  case (Cons k page)
  then have k: "CHR ''<'' \<notin> set k" using plain_text(1) by simp
  have cuts: "page_cuts (k # page) @ ts = ''Contents>'' # (''Key'' @ ''>'' @ k) # (''/'' @ ''Key'' @ ''>'') # ''/Contents>'' # page_cuts page @ ts"
    by (simp add: page_cuts_def)
  have "extract_tags (cut_text (page_cuts (k # page) @ ts)) ''Key''
      = extract_tags (cut_text ((''Key'' @ ''>'' @ k) # (''/'' @ ''Key'' @ ''>'') # ''/Contents>'' # page_cuts page @ ts)) ''Key''"
    unfolding cuts by (rule tags_cut_other) (simp_all add: starts_with_def)
  also have "\<dots> = k # extract_tags (cut_text (''/Contents>'' # page_cuts page @ ts)) ''Key''" by (rule tags_cut_hit[OF k])
  also have "extract_tags (cut_text (''/Contents>'' # page_cuts page @ ts)) ''Key'' = extract_tags (cut_text (page_cuts page @ ts)) ''Key''"
    by (rule tags_cut_other) (simp_all add: starts_with_def)
  finally show ?case using Cons by simp
qed (simp add: page_cuts_def)

lemma page_cuts_other:
  assumes "\<forall>k \<in> set page. plain k" "CHR ''<'' \<notin> set tag" "\<And>k. \<not> starts_with (''Key'' @ ''>'' @ k) (tag @ ''>'')"
    and "\<not> starts_with ''Contents>'' (tag @ ''>'')" "\<not> starts_with ''/Contents>'' (tag @ ''>'')" "\<not> starts_with (''/'' @ ''Key'' @ ''>'') (tag @ ''>'')"
  shows "extract_tags (cut_text (page_cuts page @ ts)) tag = extract_tags (cut_text ts) tag"
  using assms(1)
proof (induction page)
  case (Cons k page)
  have cuts: "page_cuts (k # page) @ ts = ''Contents>'' # (''Key'' @ ''>'' @ k) # (''/'' @ ''Key'' @ ''>'') # ''/Contents>'' # page_cuts page @ ts"
    by (simp add: page_cuts_def)
  have "extract_tags (cut_text (''Contents>'' # (''Key'' @ ''>'' @ k) # (''/'' @ ''Key'' @ ''>'') # ''/Contents>'' # page_cuts page @ ts)) tag
      = extract_tags (cut_text (page_cuts page @ ts)) tag"
    using Cons.prems plain_text(1)[of k] assms(2-6) by (subst tags_cut_other, simp, simp, simp)+ simp
  then show ?case using Cons cuts by simp
qed (simp add: page_cuts_def)

lemma page_found:
  assumes "\<forall>k \<in> set page. plain k" "truncated \<longrightarrow> page \<noteq> []"
  shows "extract_tags (page_xml page truncated) ''Key'' = page"
    and "extract_tags (page_xml page truncated) ''IsTruncated'' = [if truncated then ''true'' else ''false'']"
    and "truncated \<Longrightarrow> extract_tags (page_xml page truncated) ''NextContinuationToken'' = [last page]"
proof -
  have l: "truncated \<Longrightarrow> CHR ''<'' \<notin> set (last page)" using assms plain_text(1) by auto
  note other = tags_cut_other tags_cut_nil
  have head: "extract_tags (page_xml page truncated) tag = extract_tags (cut_text (page_cuts page @ end_cuts page truncated)) tag"
    if "CHR ''<'' \<notin> set tag" "\<not> starts_with ''ListBucketResult>'' (tag @ ''>'')" for tag
    unfolding page_cut by (rule tags_cut_other) (use that in simp_all)
  have "extract_tags (cut_text (end_cuts page truncated)) ''Key'' = []"
    using l unfolding end_cuts_def by (cases truncated) (simp_all add: starts_with_def other)
  then show "extract_tags (page_xml page truncated) ''Key'' = page"
    using head[of "''Key''"] page_cuts_key[OF assms(1)] by (simp add: starts_with_def)
  have "extract_tags (cut_text (end_cuts page truncated)) ''IsTruncated'' = (if truncated then ''true'' else ''false'')
      # extract_tags (cut_text ((if truncated then [''NextContinuationToken'' @ ''>'' @ last page, ''/'' @ ''NextContinuationToken'' @ ''>''] else []) @ [''/ListBucketResult>''])) ''IsTruncated''"
    using tags_cut_hit[of "if truncated then ''true'' else ''false''" "''IsTruncated''"] by (simp add: end_cuts_def)
  also have "extract_tags (cut_text ((if truncated then [''NextContinuationToken'' @ ''>'' @ last page, ''/'' @ ''NextContinuationToken'' @ ''>''] else []) @ [''/ListBucketResult>''])) ''IsTruncated'' = []"
    using l by (cases truncated) (simp_all add: starts_with_def other)
  finally show "extract_tags (page_xml page truncated) ''IsTruncated'' = [if truncated then ''true'' else ''false'']"
    using head[of "''IsTruncated''"] page_cuts_other[OF assms(1), of "''IsTruncated''"] by (simp add: starts_with_def)
  assume t: "truncated"
  have "extract_tags (cut_text (end_cuts page truncated)) ''NextContinuationToken''
      = extract_tags (cut_text ((''NextContinuationToken'' @ ''>'' @ last page) # (''/'' @ ''NextContinuationToken'' @ ''>'') # [''/ListBucketResult>''])) ''NextContinuationToken''"
    using t unfolding end_cuts_def by (simp add: starts_with_def other)
  also have "\<dots> = last page # extract_tags (cut_text [''/ListBucketResult>'']) ''NextContinuationToken''" by (rule tags_cut_hit[OF l[OF t]])
  finally show "extract_tags (page_xml page truncated) ''NextContinuationToken'' = [last page]"
    using head[of "''NextContinuationToken''"] page_cuts_other[OF assms(1), of "''NextContinuationToken''"] by (simp add: starts_with_def other)
qed

section \<open>Queries it reads\<close>

lemma split_on_join: "ss \<noteq> [] \<Longrightarrow> \<forall>s \<in> set ss. c \<notin> set s \<Longrightarrow> split_on c (join [c] ss) = ss"
proof (induction ss)
  case (Cons s ss)
  show ?case
  proof (cases "ss = []")
    case True
    then have "split_once c s = None" using Cons.prems by (simp add: split_once_None)
    then show ?thesis using True by (subst split_on.simps) simp
  next
    case False
    then have "split_once c (s @ [c] @ join [c] ss) = Some (s, join [c] ss)" using Cons.prems by (simp add: split_once_eq_Some)
    then show ?thesis using Cons False by (subst split_on.simps) (simp add: join_cons)
  qed
qed simp

lemma split_canonical: "q \<noteq> [] \<Longrightarrow> split_on (CHR ''&'') (canonical_query q) = sort (map query_pair q)"
  unfolding canonical_query_def by (rule split_on_join) (use query_pair_chars(1) in \<open>auto dest: arg_cong[of "sort _" "[]" length]\<close>)

lemma mset_map_filter: "mset (List.map_filter f xs) = image_mset (\<lambda>x. the (f x)) (filter_mset (\<lambda>x. f x \<noteq> None) (mset xs))"
  by (induction xs) (auto simp: List.map_filter_simps split: option.split)

lemma plain_encode: "uri_encode ''list-type'' True = ''list-type''" "uri_encode ''prefix'' True = ''prefix''"
  "uri_encode ''continuation-token'' True = ''continuation-token''" "uri_encode ''2'' True = ''2''"
  by code_simp+

lemma param_found:
  assumes "List.map_filter (\<lambda>kv. map_option slash_back (strip_prefix (name @ ''='') kv)) (map query_pair q) = ys" "length ys \<le> 1" "q \<noteq> []"
  shows "query_param name (canonical_query q) = (case ys of [] \<Rightarrow> None | v # _ \<Rightarrow> Some v)"
proof -
  let ?f = "\<lambda>kv. map_option slash_back (strip_prefix (name @ ''='') kv)"
  have "mset (List.map_filter ?f (sort (map query_pair q))) = mset ys"
    unfolding assms(1)[symmetric] mset_map_filter by simp
  then have "List.map_filter ?f (sort (map query_pair q)) = ys"
    using assms(2) by (cases ys) auto
  then show ?thesis by (simp add: query_param_def split_canonical[OF assms(3)])
qed

lemma list_params:
  "query_param ''prefix'' (canonical_query (list_query p token)) = Some (slash_back (uri_encode p True))"
  "query_param ''continuation-token'' (canonical_query (list_query p token)) = map_option (\<lambda>t. slash_back (uri_encode t True)) token"
proof -
  have "List.map_filter (\<lambda>kv. map_option slash_back (strip_prefix (''prefix'' @ ''='') kv)) (map query_pair (list_query p token)) = [slash_back (uri_encode p True)]"
    by (simp add: list_query_def plain_encode List.map_filter_simps strip_prefix_def starts_with_def split: option.split)
  from param_found[OF this] show "query_param ''prefix'' (canonical_query (list_query p token)) = Some (slash_back (uri_encode p True))"
    by (simp add: list_query_def)
  have "List.map_filter (\<lambda>kv. map_option slash_back (strip_prefix (''continuation-token'' @ ''='') kv)) (map query_pair (list_query p token))
      = (case token of None \<Rightarrow> [] | Some t \<Rightarrow> [slash_back (uri_encode t True)])"
    by (simp add: list_query_def plain_encode List.map_filter_simps strip_prefix_def starts_with_def split: option.split)
  from param_found[OF this] show "query_param ''continuation-token'' (canonical_query (list_query p token)) = map_option (\<lambda>t. slash_back (uri_encode t True)) token"
    by (cases token) (simp_all add: list_query_def)
qed

lemma slash_back_encode: "plain p \<Longrightarrow> slash_back (uri_encode p True) = p"
proof (induction p)
  case Nil
  then show ?case by (subst slash_back.simps) (simp add: uri_encode_def)
next
  case (Cons c p)
  then have p: "plain p" "slash_back (uri_encode p True) = p" by (simp_all add: plain_def)
  show ?case
  proof (cases "unreserved c")
    case True
    then have "c \<noteq> CHR ''%''" by (auto simp: unreserved_def)
    then have "find_text ''%2F'' (c # s) = map_option (\<lambda>(x, y). (c # x, y)) (find_text ''%2F'' s)" for s
      by (rule_tac find_miss) (simp add: starts_with_def)
    then have "slash_back (c # s) = c # slash_back s" for s by (subst (1 2) slash_back.simps) (auto split: option.splits)
    then show ?thesis using p True by (simp add: uri_encode_def encode_byte_def)
  next
    case False
    then have "c = CHR ''/''" using Cons.prems by (simp add: plain_def)
    moreover have "encode_byte True (CHR ''/'') = ''%2F''" by code_simp
    moreover have "slash_back (''%2F'' @ s) = CHR ''/'' # slash_back s" for s
      by (subst slash_back.simps) (use find_here[of "''%2F''" s] in simp)
    ultimately show ?thesis using p by (simp add: uri_encode_def)
  qed
qed

section \<open>It is an S3 service\<close>

definition fake_up :: "fake_s3 \<Rightarrow> bool" where
  "fake_up s \<longleftrightarrow> \<not> fs_poisoned s \<and> fs_fail_remaining s = 0 \<and> bt_wf (fs_blobs s) \<and> (\<forall>k \<in> set (map fst (fs_blobs s)). plain_key k)"

definition fake_after :: "fake_s3 \<Rightarrow> string \<Rightarrow> string option \<Rightarrow> key list" where
  "fake_after s p token = filter (\<lambda>k. starts_with k (slash_back (uri_encode p True))
     \<and> or_empty (map_option (\<lambda>t. slash_back (uri_encode t True)) token) < k) (map fst (fs_blobs s))"

definition fake_url :: "string \<Rightarrow> string" where
  "fake_url host = ''http://'' @ host"

definition fake_client :: "string \<Rightarrow> r2" where
  "fake_client host = \<lparr>r2_endpoint = fake_url host, r2_host = host, r2_bucket = ''bucket'', r2_access_key = ''key'',
     r2_secret_key = ''secret'', r2_region = ''auto''\<rparr>"

lemma fake_store_client: "host \<noteq> [] \<Longrightarrow> last host \<noteq> CHR ''/'' \<Longrightarrow> fake_store (fake_url host) = Inr (fake_client host)"
proof -
  assume h: "host \<noteq> []" "last host \<noteq> CHR ''/''"
  then obtain us u where u: "host = us @ [u]" "u \<noteq> CHR ''/''" by (metis append_butlast_last_id)
  have "rev (dropWhile (\<lambda>c. c = CHR ''/'') (rev (fake_url host))) = fake_url host" using u by (simp add: fake_url_def)
  then show ?thesis by (simp add: fake_url_def fake_store_def r2_new_def fake_client_def strip_prefix_def starts_with_def)
qed

lemma note_headers_same [simp]: "fs_blobs (note_headers hs s) = fs_blobs s" "fs_poisoned (note_headers hs s) = fs_poisoned s"
  "fs_fail_remaining (note_headers hs s) = fs_fail_remaining s"
  by (simp_all add: note_headers_def Let_def)

lemma not_injected: "fs_fail_remaining s = 0 \<Longrightarrow> injected s = (None, s)"
  by (simp add: injected_def)

lemma fake_object:
  assumes "plain_key k" "rq_url q = (fake_url host @ ''/bucket'') @ ''/'' @ k"
  shows "fake_serve (fake_url host) uri_decode q s =
    map_prod (\<lambda>r. case r of Panic \<Rightarrow> Inl ''connection closed'' | Ret (status, body) \<Rightarrow> Inr \<lparr>rp_status = status, rp_body = Inr body\<rparr>) id
      (object_handler (rq_method q) k (rq_headers q) (rq_body q) s)"
proof -
  have k: "plain k" "k \<noteq> []" using assms(1) by (simp_all add: plain_key_def)
  have "CHR ''?'' \<notin> set (''/bucket/'' @ k)" using plain_text(3)[OF k(1)] by simp
  then have "split_once (CHR ''?'') (''/bucket/'' @ k) = None" by (simp only: split_once_None not_False_eq_True)
  moreover have "uri_decode k = k" using uri_encode_plain[OF k(1)] uri_decode_encode by metis
  ultimately show ?thesis
    using k(2) strip_prefix_append[of "fake_url host" "''/bucket/'' @ k"] strip_prefix_append[of "''/bucket/''" k]
    by (simp add: fake_serve_def assms(2))
qed

lemma bt_keys_remove: "set (map fst (bt_remove k m)) \<subseteq> set (map fst m)"
  by (auto simp: dom_bt_keys simp del: set_map split: if_splits)

lemma plain_insert: "\<forall>x \<in> set m. plain_key (fst x) \<Longrightarrow> plain_key k \<Longrightarrow> \<forall>x \<in> set (bt_insert k v m). plain_key (fst x)"
proof
  fix x assume m: "\<forall>x \<in> set m. plain_key (fst x)" "plain_key k" and "x \<in> set (bt_insert k v m)"
  then have "fst x \<in> insert k (fst ` set m)" using set_bt_insert[of k v m] by (metis imageI)
  then show "plain_key (fst x)" using m by auto
qed

lemma fake_list:
  assumes "rq_method q = ''GET''" "rq_url q = (fake_url host @ ''/bucket'') @ ''?'' @ query"
  shows "fake_serve (fake_url host) uri_decode q s =
    map_prod (\<lambda>r. case r of Panic \<Rightarrow> Inl ''connection closed'' | Ret (st, xml) \<Rightarrow> Inr \<lparr>rp_status = st, rp_body = Inr (string_bytes xml)\<rparr>) id
      (list_handler query (rq_headers q) s)"
proof -
  have "split_once (CHR ''?'') (''/bucket'' @ ''?'' @ query) = Some (''/bucket'', query)" by (simp add: split_once_eq_Some)
  then show ?thesis
    using strip_prefix_append[of "fake_url host" "''/bucket'' @ ''?'' @ query"]
    by (cases "list_handler query (rq_headers q) s") (auto simp: fake_serve_def assms Let_def split: rust.split prod.split)
qed

lemma digit_minus: "digit_val (CHR ''-'') = None"
  by code_simp

lemma range_ends_shown: "a < 2 ^ 64 \<Longrightarrow> b < 2 ^ 64 \<Longrightarrow> range_ends (''bytes='' @ show_nat a @ ''-'' @ show_nat b) = Some (a, b)"
proof -
  assume ab: "a < 2 ^ 64" "b < 2 ^ 64"
  have "CHR ''-'' \<notin> set (show_nat a)"
    using show_nat_digits[of "CHR ''-''" a] digit_val_char by (metis (no_types, lifting) digit_minus option.distinct(1))
  then have "split_once (CHR ''-'') (show_nat a @ ''-'' @ show_nat b) = Some (show_nat a, show_nat b)" by (simp add: split_once_eq_Some)
  then show ?thesis using ab strip_prefix_append[of "''bytes=''" "show_nat a @ ''-'' @ show_nat b"] by (simp add: range_ends_def)
qed

lemma filter_gt_last:
  fixes xs :: "key list"
  assumes "sorted_wrt (<) (xs @ ys)" "xs \<noteq> []"
  shows "filter (\<lambda>k. last xs < k) (xs @ ys) = ys"
proof -
  have "\<forall>x \<in> set xs. \<not> last xs < x"
  proof
    fix x assume "x \<in> set xs"
    then have "x \<le> last xs" using assms sorted_nth_mono[of xs _ "length xs - 1"]
      by (auto simp: sorted_wrt_append strict_sorted_iff in_set_conv_nth last_conv_nth)
    then show "\<not> last xs < x" by simp
  qed
  moreover have "\<forall>y \<in> set ys. last xs < y" using assms by (simp add: sorted_wrt_append)
  ultimately show ?thesis by simp
qed

lemma fake_page:
  assumes "fake_up s" "page = take 2 (fake_after s p token)" "others = drop 2 (fake_after s p token)" "others \<noteq> []"
  shows "page \<noteq> []" "plain (last page)" "fake_after s p (Some (last page)) = others"
proof -
  show p: "page \<noteq> []" using assms(2-4) by auto
  then have "last page \<in> set (fake_after s p token)" using assms(2) by (meson in_set_takeD last_in_set)
  then show l: "plain (last page)" using assms(1) by (auto simp: fake_after_def fake_up_def plain_key_def)
  let ?P = "\<lambda>k. starts_with k (slash_back (uri_encode p True))" and ?a = "or_empty (map_option (\<lambda>t. slash_back (uri_encode t True)) token)"
  have s: "sorted_wrt (<) (fake_after s p token)" using assms(1) by (simp add: fake_after_def fake_up_def bt_wf_def sorted_wrt_filter)
  have cut: "fake_after s p token = page @ others" using assms(2,3) by simp
  have "?a < last page" using \<open>last page \<in> set (fake_after s p token)\<close> unfolding fake_after_def by simp
  then have "fake_after s p (Some (last page)) = filter (\<lambda>k. last page < k) (fake_after s p token)"
    using l by (auto simp: fake_after_def slash_back_encode or_empty_def intro!: filter_cong split: option.split)
  then show "fake_after s p (Some (last page)) = others" using filter_gt_last[of page others] s cut p by simp
qed

interpretation fake: r2_client "fake_serve (fake_url host) uri_decode" "\<lambda>s. map_of (fs_blobs s)" fake_up "fake_url host @ ''/bucket''"
    fake_after dg "fake_client host" for dg host
proof (unfold_locales, goal_cases)
  case (1 s k q)
  then show ?case unfolding fake_object[OF 1(2) 1(4)] object_handler_def
    by (cases "map_of (fs_blobs s) k") (simp_all add: fake_up_def Let_def not_injected)
next
  case (2 s k q a b)
  have r: "range_ends (''bytes='' @ show_nat a @ ''-'' @ show_nat b) = Some (a, b)" using 2 by (intro range_ends_shown) simp_all
  have "take (min (b + 1) (length v) - a) (drop a v) = take (b + 1 - a) (drop a v)" for v :: bytes
    by (simp add: min_def)
  then show ?case unfolding fake_object[OF 2(2) 2(4)] object_handler_def
    using 2(1,3,5-7) r by (cases "map_of (fs_blobs s) k") (auto simp add: fake_up_def Let_def not_injected)
next
  case (3 s k q)
  then show ?case unfolding fake_object[OF 3(2) 3(4)] object_handler_def 3(3)
    using 3(1,5) plain_insert[OF _ 3(2), of "fs_blobs s" "rq_body q"] by (simp add: fake_up_def Let_def not_injected)
next
  case (4 s k q)
  then show ?case unfolding fake_object[OF 4(2) 4(4)] object_handler_def 4(3)
    using 4(1,5) plain_insert[OF _ 4(2), of "fs_blobs s" "rq_body q"] by (cases "map_of (fs_blobs s) k") (simp_all add: fake_up_def Let_def not_injected)
next
  case (5 s k q)
  have "\<forall>x \<in> set (map fst (bt_remove k (fs_blobs s))). plain_key x" using 5(1) bt_keys_remove[of k "fs_blobs s"] unfolding fake_up_def by blast
  then show ?case using 5(1,3) unfolding fake_object[OF 5(2) 5(4)] object_handler_def
    by (simp add: fake_up_def Let_def not_injected)
next
  case (6 s p q token)
  let ?q = "canonical_query (list_query p token)" and ?hs = "rq_headers q"
  let ?page = "take 2 (fake_after s p token)" and ?others = "drop 2 (fake_after s p token)"
  have up: "\<not> fs_poisoned s" "fs_fail_remaining s = 0" using 6(1) by (simp_all add: fake_up_def)
  have m: "filter (\<lambda>k. starts_with k (or_empty (query_param ''prefix'' ?q)) \<and> or_empty (query_param ''continuation-token'' ?q) < k) (map fst (fs_blobs s)) = fake_after s p token"
    by (simp add: list_params fake_after_def or_empty_def)
  have tk: "take (min (length xs) 2) xs = take 2 xs" "length (take 2 xs) < length xs \<longleftrightarrow> drop 2 xs \<noteq> []" for xs :: "key list"
    by (auto simp: min_def)
  have inj: "injected (note_headers ?hs s) = (None, note_headers ?hs s)" using up by (simp add: not_injected)
  have run: "list_handler ?q ?hs s = (Ret (200, page_xml ?page (?others \<noteq> [])), note_headers ?hs s)"
    unfolding list_handler_def Let_def inj prod.case option.case note_headers_same m using up tk by simp
  have pl: "\<forall>k \<in> set ?page. plain k" using 6(1) in_set_takeD by (fastforce simp: fake_after_def fake_up_def plain_key_def)
  let ?r = "\<lparr>rp_status = 200, rp_body = Inr (string_bytes (page_xml ?page (?others \<noteq> [])))\<rparr>"
  have h: "fake_serve (fake_url host) uri_decode q s = (Inr ?r, note_headers ?hs s)"
    using fake_list[of q host ?q s] 6(3,4) run by simp
  have ne: "?others \<noteq> [] \<longrightarrow> ?page \<noteq> []" by auto
  have pg: "page_of ?r ?page (?others \<noteq> []) (last ?page)"
    using page_found[OF pl, of "?others \<noteq> []"] ne by (simp add: page_of_def del: drop_eq_Nil take_eq_Nil)
  have up': "fake_up (note_headers ?hs s)" using 6(1) by (simp add: fake_up_def)
  have cut: "fake_after s p token = ?page @ ?others" by simp
  have more_pages: "?others \<noteq> [] \<longrightarrow> ?page \<noteq> [] \<and> fake_after s p (Some (last ?page)) = ?others"
    using fake_page[OF 6(1) refl refl] by blast
  show ?case
    by (intro exI conjI, rule h, rule up', simp only: note_headers_same, rule cut, rule pg, rule more_pages)
next
  case (7 s s' p token)
  then show ?case using bt_wf_ext[of "fs_blobs s'" "fs_blobs s"] by (simp add: fake_up_def fake_after_def)
next
  case (8 s p)
  have after: "fake_after s p None = filter (\<lambda>k. starts_with k p) (map fst (fs_blobs s))"
  proof -
    have "[] < k" if "k \<in> set (map fst (fs_blobs s))" for k
      using 8(1) that by (cases k) (auto simp: fake_up_def plain_key_def)
    then show ?thesis unfolding fake_after_def using 8(2) by (intro filter_cong) (simp_all add: slash_back_encode or_empty_def del: set_map)
  qed
  show ?case unfolding after using 8(1) by (auto simp: fake_up_def bt_wf_def sorted_wrt_filter dom_bt_keys simp del: set_map filter_map)
next
  case 9
  then show ?case by (simp add: fake_client_def)
qed

end
