(* ===== verification/R2_Dates.thy ===== *)
theory R2_Dates
  imports R2
begin

text \<open>
  The calendar: \<open>civil_from_days\<close> against the Gregorian rules (\<open>next_date\<close>). Years are counted from March within
  eras of 400 years, as the code does; the year and month formulas are checked on the 400 years and 366 days they
  can meet, and monotony gives the days in between.
\<close>

section \<open>The Gregorian calendar\<close>

definition leap :: "int \<Rightarrow> bool" where
  "leap y \<longleftrightarrow> y mod 4 = 0 \<and> (y mod 100 \<noteq> 0 \<or> y mod 400 = 0)"

definition month_days :: "int \<Rightarrow> int \<Rightarrow> int" where
  "month_days y m = (if m = 2 then (if leap y then 29 else 28) else if m \<in> {4, 6, 9, 11} then 30 else 31)"

fun next_date :: "int \<times> int \<times> int \<Rightarrow> int \<times> int \<times> int" where
  "next_date (y, m, d) = (if d < month_days y m then (y, m, d + 1) else if m < 12 then (y, m + 1, 1) else (y + 1, 1, 1))"

lemma leap_era: "leap (y + 400 * e) = leap y"
  unfolding leap_def using mod_mult_self2[of y 4 "100 * e"] mod_mult_self2[of y 100 "4 * e"] by simp

section \<open>Within an era\<close>

text \<open>The first day of a March year, and the formulas of the code without wrap-around.\<close>

definition year_start :: "int \<Rightarrow> int" where
  "year_start y = (if y = 400 then 146097 else 365 * y + y div 4 - y div 100)"

definition year_sum :: "int \<Rightarrow> int" where
  "year_sum n = n - n div 1460 + n div 36524 - n div 146096"

definition month_day :: "int \<Rightarrow> int \<times> int" where
  "month_day doy = (let mp = (5 * doy + 2) div 153 in (if mp < 10 then mp + 3 else mp - 9, doy - (153 * mp + 2) div 5 + 1))"

lemma div_succ: "0 < k \<Longrightarrow> (n + 1) div k = n div k + (if k dvd n + 1 then 1 else 0)" for n :: int
proof -
  assume k: "0 < k"
  have m: "0 \<le> n mod k" "n mod k < k" using k by simp_all
  have n: "n + 1 = n mod k + 1 + n div k * k" by simp
  show ?thesis
  proof (cases "n mod k + 1 = k")
    case True
    then have "n + 1 = (n div k + 1) * k" using n by (simp add: algebra_simps)
    then show ?thesis using k by simp
  next
    case False
    then have r: "0 \<le> n mod k + 1" "n mod k + 1 < k" using m by auto
    have "(n + 1) div k = n div k" by (subst n, subst div_mult_self1) (use r k in simp_all)
    moreover have "(n + 1) mod k = n mod k + 1" by (subst n, subst mod_mult_self1) (use r in simp)
    ultimately show ?thesis using m by (simp add: dvd_eq_mod_eq_0)
  qed
qed

lemma year_sum_Suc: "year_sum n \<le> year_sum (n + 1)"
proof -
  have "(36524 :: int) dvd n + 1" if "(146096 :: int) dvd n + 1"
    by (rule dvd_trans[OF _ that]) simp
  then show ?thesis by (simp add: year_sum_def div_succ)
qed

lemma year_sum_le: "a \<le> b \<Longrightarrow> year_sum a \<le> year_sum b"
proof (induction b rule: int_ge_induct)
  case (step i)
  then show ?case using year_sum_Suc[of i] by simp
qed simp

lemma year_ends:
  "list_all (\<lambda>y. year_sum (year_start y) div 365 = y \<and> year_sum (year_start (y + 1) - 1) div 365 = y
     \<and> year_start (y + 1) = year_start y + (if leap (y + 1) then 366 else 365)) (map int [0..<400])"
  by code_simp

lemma months:
  "list_all (\<lambda>n. let (m, d) = month_day n; (m', d') = month_day (n + 1)
     in 1 \<le> m \<and> m \<le> 12 \<and> 1 \<le> d \<and> d \<le> 31 \<and> (m = 2 \<longleftrightarrow> 337 \<le> n) \<and> (m = 2 \<longrightarrow> d = n - 336)
       \<and> (if m = 2 then m' = 2 \<and> d' = d + 1
          else if d < (if m \<in> {4, 6, 9, 11} then 30 else 31) then m' = m \<and> d' = d + 1
          else m' = (if m = 12 then 1 else m + 1) \<and> d' = 1)) (map int [0..<365])"
  by code_simp


lemma year_end:
  assumes "0 \<le> y" "y < 400"
  shows "year_sum (year_start y) div 365 = y" "year_sum (year_start (y + 1) - 1) div 365 = y"
    "year_start (y + 1) = year_start y + (if leap (y + 1) then 366 else 365)"
proof -
  have "y \<in> set (map int [0..<400])" using assms by (auto simp: image_iff intro!: bexI[of _ "nat y"])
  then show "year_sum (year_start y) div 365 = y" "year_sum (year_start (y + 1) - 1) div 365 = y"
    "year_start (y + 1) = year_start y + (if leap (y + 1) then 366 else 365)"
    using year_ends unfolding list_all_iff by blast+
qed

lemma year_within:
  assumes "0 \<le> y" "y < 400" "year_start y \<le> n" "n < year_start (y + 1)"
  shows "year_sum n div 365 = y"
proof -
  have "year_sum (year_start y) \<le> year_sum n" "year_sum n \<le> year_sum (year_start (y + 1) - 1)"
    using assms by (auto intro!: year_sum_le)
  then have "year_sum (year_start y) div 365 \<le> year_sum n div 365" "year_sum n div 365 \<le> year_sum (year_start (y + 1) - 1) div 365"
    by (simp_all add: zdiv_mono1)
  then show ?thesis using year_end[OF assms(1,2)] by simp
qed

lemma year_found:
  assumes "0 \<le> n" "n < year_start (int k)"
  shows "\<exists>y. 0 \<le> y \<and> y < int k \<and> year_start y \<le> n \<and> n < year_start (y + 1)"
  using assms(2)
proof (induction k)
  case 0
  then show ?case using assms(1) by (simp add: year_start_def)
next
  case (Suc k)
  show ?case
  proof (cases "n < year_start (int k)")
    case True
    then show ?thesis using Suc.IH by force
  next
    case False
    then show ?thesis using Suc.prems by (intro exI[of _ "int k"]) (simp add: add.commute)
  qed
qed

lemma year_of_day:
  assumes "0 \<le> n" "n < 146097"
  obtains y where "0 \<le> y" "y < 400" "year_start y \<le> n" "n < year_start (y + 1)" "year_sum n div 365 = y"
proof -
  have "year_start (int 400) = 146097" by (simp add: year_start_def)
  then obtain y where "0 \<le> y" "y < int 400" "year_start y \<le> n" "n < year_start (y + 1)" using year_found[OF assms(1), of 400] assms(2) by metis
  then show thesis using that[of y] year_within[of y n] by simp
qed

lemma month_step:
  assumes "0 \<le> n" "n < 365"
  obtains m d m' d' where "month_day n = (m, d)" "month_day (n + 1) = (m', d')"
    "1 \<le> m" "m \<le> 12" "1 \<le> d" "d \<le> 31" "m = 2 \<longleftrightarrow> 337 \<le> n" "m = 2 \<longrightarrow> d = n - 336"
    "if m = 2 then m' = 2 \<and> d' = d + 1
     else if d < (if m \<in> {4, 6, 9, 11} then 30 else 31) then m' = m \<and> d' = d + 1
     else m' = (if m = 12 then 1 else m + 1) \<and> d' = 1"
proof -
  have "n \<in> set (map int [0..<365])" using assms by (auto simp: image_iff intro!: bexI[of _ "nat n"])
  then have "let (m, d) = month_day n; (m', d') = month_day (n + 1)
     in 1 \<le> m \<and> m \<le> 12 \<and> 1 \<le> d \<and> d \<le> 31 \<and> (m = 2 \<longleftrightarrow> 337 \<le> n) \<and> (m = 2 \<longrightarrow> d = n - 336)
       \<and> (if m = 2 then m' = 2 \<and> d' = d + 1
          else if d < (if m \<in> {4, 6, 9, 11} then 30 else 31) then m' = m \<and> d' = d + 1
          else m' = (if m = 12 then 1 else m + 1) \<and> d' = 1)"
    using months unfolding list_all_iff by blast
  then show thesis using that unfolding Let_def by (auto split: prod.splits)
qed

section \<open>The code\<close>

lemma fits: "- (2 ^ 63) \<le> x \<Longrightarrow> x < 2 ^ 63 \<Longrightarrow> i64 x = x" "0 \<le> x \<Longrightarrow> x < 2 ^ 64 \<Longrightarrow> u64 x = x" "0 \<le> x \<Longrightarrow> x < 2 ^ 32 \<Longrightarrow> u32 x = x"
  by (simp_all add: i64_def u64_def u32_def)

lemma era_div: "(if z \<ge> 0 then z else z - 146096) sdiv 146097 = z div 146097" for z :: int
proof (cases "z \<ge> 0")
  case True
  then show ?thesis by (simp add: signed_divide_int_def sgn_if)
next
  case False
  then have "(146096 - z) div 146097 = - (z div 146097)"
    by (intro int_div_pos_eq[where r = "146096 - z mod 146097"]) (simp_all, presburger?)
  then show ?thesis using False by (simp add: signed_divide_int_def)
qed

text \<open>The date of day \<open>n\<close> of the era, when it falls in the March year \<open>y\<close>.\<close>

definition era_date :: "int \<Rightarrow> int \<Rightarrow> int \<Rightarrow> int \<times> int \<times> int" where
  "era_date e y n = (let (m, d) = month_day (n - year_start y) in (y + 400 * e + (if m \<le> 2 then 1 else 0), m, d))"

lemma civil_in_era:
  assumes "- (2 ^ 62) \<le> z" "z < 2 ^ 62" "z + 719468 = 146097 * e + n" "0 \<le> n" "n < 146097"
    and "0 \<le> y" "y < 400" "year_start y \<le> n" "n < year_start (y + 1)"
  shows "civil_from_days z = era_date e y n"
proof -
  have e: "(z + 719468) div 146097 = e" using assms(3-5) by simp
  have yoe: "year_sum n div 365 = y" using year_within[OF assms(6-9)] .
  have small: "0 \<le> n - year_start y" "n - year_start y \<le> 365" using assms(8,9) year_end(3)[OF assms(6,7)] by (auto split: if_splits)
  have ye: "year_start y = 365 * y + y div 4 - y div 100" using assms(7) by (simp add: year_start_def)
  obtain m d where md: "month_day (n - year_start y) = (m, d)" by fastforce
  have z1: "i64 (z + 719468) = z + 719468" using assms by (intro fits) auto
  have z2: "z + 719468 < 0 \<Longrightarrow> i64 (z + 719468 - 146096) = z + 719468 - 146096" using assms by (intro fits) auto
  have era: "(if z + 719468 \<ge> 0 then z + 719468 else i64 (z + 719468 - 146096)) sdiv 146097 = e"
    using z2 e era_div[of "z + 719468"] by (cases "z + 719468 \<ge> 0") auto
  have e3: "i64 (e * 146097) = e * 146097" using assms by (intro fits) auto
  have e4: "i64 (e * 400) = e * 400" using assms by (intro fits) auto
  have doe: "u64 (i64 (z + 719468 - e * 146097)) = n" using assms by (simp add: fits)
  have sums: "u64 (u64 (u64 (n - n div 1460) + n div 36524) - n div 146096) = year_sum n"
  proof -
    have "0 \<le> n div 1460" "n div 1460 \<le> n" "0 \<le> n div 36524" "n div 36524 \<le> n" "0 \<le> n div 146096" "n div 146096 \<le> n div 36524"
      using assms(4) zdiv_mono2[of n 36524 146096] zdiv_mono2[of n 1 1460] zdiv_mono2[of n 1 36524] by (auto simp: pos_imp_zdiv_nonneg_iff)
    then show ?thesis using assms(5) by (simp add: fits year_sum_def)
  qed
  have "0 \<le> year_start y" using assms(6,7) by (simp add: ye)
  then have doy: "u64 (n - u64 (u64 (u64 (365 * y) + y div 4) - y div 100)) = n - year_start y"
    using assms ye by (simp add: fits)
  define q mp where "q = n - year_start y" and "mp = (5 * q + 2) div 153"
  have q: "0 \<le> q" "q \<le> 365" using small by (simp_all add: q_def)
  have mp: "0 \<le> mp" "mp \<le> 11" "153 * mp \<le> 5 * q + 2" using q by (auto simp: mp_def)
  then have t: "0 \<le> (153 * mp + 2) div 5" "(153 * mp + 2) div 5 \<le> q" using q by auto
  have mon: "u64 (u64 (5 * q) + 2) div 153 = mp" using q by (simp add: fits mp_def)
  have m: "u32 (if mp < 10 then u64 (mp + 3) else u64 (mp - 9)) = (if mp < 10 then mp + 3 else mp - 9)" using mp by (simp add: fits)
  have d: "u32 (u64 (u64 (q - u64 (u64 (153 * mp) + 2) div 5) + 1)) = q - (153 * mp + 2) div 5 + 1" using mp t q by (simp add: fits)
  have yr: "i64 (i64 (i64 y + e * 400) + (if mm \<le> 2 then 1 else 0)) = y + 400 * e + (if mm \<le> 2 then 1 else 0)" for mm :: int
    using assms by (simp add: fits)
  show ?thesis
    unfolding civil_from_days_def Let_def z1 era e3 doe sums yoe doy e4 q_def[symmetric] mon m d yr
    by (simp add: era_date_def month_day_def Let_def mp_def q_def)
qed

section \<open>One day after the other\<close>

text \<open>The code's dates start at the epoch and follow each other as the calendar says.\<close>

lemma civil_step:
  assumes "- (2 ^ 62) \<le> z" "z + 1 < 2 ^ 62"
  shows "civil_from_days (z + 1) = next_date (civil_from_days z)"
proof -
  define e n where "e = (z + 719468) div 146097" and "n = (z + 719468) mod 146097"
  have n: "z + 719468 = 146097 * e + n" "0 \<le> n" "n < 146097" by (simp_all add: e_def n_def)
  obtain y where y: "0 \<le> y" "y < 400" "year_start y \<le> n" "n < year_start (y + 1)" using year_of_day[OF n(2,3)] by metis
  have now: "civil_from_days z = era_date e y n" using civil_in_era[OF _ _ n y] assms by simp
  have len: "year_start (y + 1) = year_start y + (if leap (y + 1) then 366 else 365)" using year_end(3)[OF y(1,2)] .
  have lp: "leap (y + 400 * e + 1) = leap (y + 1)" using leap_era[of "y + 1" e] by (simp add: algebra_simps)
  show ?thesis
  proof (cases "n + 1 < year_start (y + 1)")
    case True
    define q where "q = n - year_start y"
    have q: "0 \<le> q" "q < 365" "\<not> leap (y + 1) \<Longrightarrow> q < 364" using y True len by (auto simp: q_def split: if_splits)
    have "n + 1 < 146097"
    proof (cases "y = 399")
      case False
      then have "year_start (y + 1) \<le> 146097" using y by (simp add: year_start_def)
      then show ?thesis using True by simp
    qed (use True in \<open>simp add: year_start_def\<close>)
    then have next_day: "civil_from_days (z + 1) = era_date e y (n + 1)"
      using civil_in_era[of "z + 1" e "n + 1" y] n y True assms by simp
    obtain m d m' d' where md: "month_day q = (m, d)" "month_day (q + 1) = (m', d')"
      "1 \<le> m" "m \<le> 12" "1 \<le> d" "d \<le> 31" "m = 2 \<longleftrightarrow> 337 \<le> q" "m = 2 \<longrightarrow> d = q - 336"
      "if m = 2 then m' = 2 \<and> d' = d + 1
       else if d < (if m \<in> {4, 6, 9, 11} then 30 else 31) then m' = m \<and> d' = d + 1
       else m' = (if m = 12 then 1 else m + 1) \<and> d' = 1"
      by (rule month_step[OF q(1,2)])
    have q1: "n - year_start y = q" "n + 1 - year_start y = q + 1" by (simp_all add: q_def)
    have days: "civil_from_days z = (y + 400 * e + (if m \<le> 2 then 1 else 0), m, d)"
      "civil_from_days (z + 1) = (y + 400 * e + (if m' \<le> 2 then 1 else 0), m', d')"
      unfolding now next_day era_date_def q1 using md(1,2) by simp_all
    show ?thesis
    proof (cases "m = 2")
      case True
      then have "d < month_days (y + 400 * e + 1) 2" using md(7,8) q lp by (cases "leap (y + 1)") (simp_all add: month_days_def)
      then show ?thesis using days True md(9) by simp
    next
      case False
      then have "month_days w m = (if m \<in> {4, 6, 9, 11} then 30 else 31)" for w by (simp add: month_days_def)
      then show ?thesis using days False md(3,4,9) by (cases "d < (if m \<in> {4, 6, 9, 11} then 30 else 31)") (simp_all split: if_split)
    qed
  next
    case False
    then have last_day: "n = year_start y + (if leap (y + 1) then 365 else 364)" using y len by (auto split: if_splits)
    have feb: "month_day 365 = (2, 29)" "month_day 364 = (2, 28)" "month_day 0 = (3, 1)" by (simp_all add: month_day_def)
    then have ends: "next_date (civil_from_days z) = (y + 400 * e + 1, 3, 1)"
      unfolding now era_date_def last_day using lp by (simp add: month_days_def)
    show ?thesis
    proof (cases "y = 399")
      case True
      then have "n + 1 = 146097" using False y n by (simp add: year_start_def)
      then have "civil_from_days (z + 1) = era_date (e + 1) 0 0"
        using civil_in_era[of "z + 1" "e + 1" 0 0] n assms by (simp add: year_start_def)
      then show ?thesis using ends feb True by (simp add: era_date_def year_start_def)
    next
      case False
      then have y1: "0 \<le> y + 1" "y + 1 < 400" using y by auto
      have n1: "n + 1 = year_start (y + 1)" using last_day len by (simp split: if_splits)
      have "year_start (y + 1) < year_start (y + 1 + 1)" using year_end(3)[OF y1] by simp
      moreover have "n + 1 < 146097" unfolding n1 using y1 by (simp add: year_start_def)
      ultimately have "civil_from_days (z + 1) = era_date e (y + 1) (n + 1)"
        using civil_in_era[of "z + 1" e "n + 1" "y + 1"] n y1 n1 assms by simp
      then show ?thesis using ends feb n1 by (simp add: era_date_def)
    qed
  qed
qed


lemma civil_epoch: "civil_from_days 0 = (1970, 1, 1)"
  by code_simp

text \<open>C25: The dates of signed requests are right: whatever second the clock of the machine shows, the date computed is the one reached
  from 1 January 1970 by going on day by day in the Gregorian calendar, without overflow on the way.\<close>

theorem stamps_follow_calendar:
  "civil_from_days (int (unat (secs :: u64) div 86400)) = (next_date ^^ (unat secs div 86400)) (1970, 1, 1)"
proof -
  have "civil_from_days (int k) = (next_date ^^ k) (1970, 1, 1)" if "int k < 2 ^ 62" for k
    using that
  proof (induction k)
    case (Suc k)
    then show ?case using civil_step[of "int k"] by (simp add: add.commute)
  qed (simp add: civil_epoch)
  moreover have "unat secs div 86400 < 2 ^ 62" using unat_u64_bound[of secs] by simp
  ultimately show ?thesis by simp
qed

end
