(* ===== verification/R2_Props.thy ===== *)
theory R2_Props
  imports R2_Fake R2_Dates
begin

text \<open>
  The properties of the R2 client, over every service that keeps what S3 documents (\<open>r2_client\<close>); the witnesses run
  it on \<open>FakeS3\<close>.
\<close>

section \<open>A store\<close>

text \<open>C22: On a network with accidents but no other client, the R2 client does what \<open>MemBlobStore\<close> does: an answer is the right one and the bucket
  is as it should be after it; an error leaves the bucket as it was or has taken effect; and a create that took effect
  can be answered as if the key had been taken, never the other way round. Two accidents never make an operation fail.\<close>

theorem r2_is_a_store:
  assumes "r2_client h blob up base keys_after c" "native q" "mem_wf m" "blob (net_srv n) = mem_get m" "up (net_srv n)"
    and "calm_net (net_script n)" "length (blobs m) < fuel" "run_web h (r2_do fuel dg c q) n = (r, n')"
  shows "up (net_srv n') \<and> r2_outcome q m r (blob (net_srv n')) \<and> (troubles (net_script n) < 3 \<longrightarrow> (\<nexists>e. r = Some (ErrResp e)))"
proof -
  have "r2_client.holds_blobs blob up (mem_get m) n" using assms(4-6) r2_client.holds_blobs_def[OF assms(1)] by metis
  then show ?thesis using r2_client.run_do[OF assms(1-3) _ assms(7,8)] by blast
qed

definition no_digests :: digests where
  "no_digests = \<lparr>dg_sha = \<lambda>_. [], dg_mac = \<lambda>_ _. []\<rparr>"

definition fake_net :: "accident list \<Rightarrow> fake_s3 net" where
  "fake_net sc = \<lparr>net_srv = fake_default, net_script = sc, net_ms = 0\<rparr>"

definition fake_run :: "'a web \<Rightarrow> accident list \<Rightarrow> 'a \<times> fake_s3 net" where
  "fake_run p sc = run_web (fake_serve (fake_url ''s3'') uri_decode) p (fake_net sc)"

lemma fake_start: "fake_up (net_srv (fake_net sc))" "map_of (fs_blobs (net_srv (fake_net sc))) = mem_get mem_empty"
  by (simp_all add: fake_net_def fake_up_def fake_default_def mem_get_def mem_empty_def fun_eq_iff)

lemma r2_is_a_store_witness:
  "case fake_run (r2_do 1 no_digests (fake_client ''s3'') (CreateReq ''k'' [1])) [Lost ''reset'', Muffled 502] of
     (r, n') \<Rightarrow> fake_up (net_srv n') \<and> r2_outcome (CreateReq ''k'' [1]) mem_empty r (map_of (fs_blobs (net_srv n'))) \<and> (\<nexists>e. r = Some (ErrResp e))"
proof -
  obtain r n' where r: "fake_run (r2_do 1 no_digests (fake_client ''s3'') (CreateReq ''k'' [1])) [Lost ''reset'', Muffled 502] = (r, n')" by fastforce
  show ?thesis
    using r2_is_a_store[OF fake.r2_client_axioms, where q = "CreateReq ''k'' [1]" and m = mem_empty and n = "fake_net [Lost ''reset'', Muffled 502]"
        and fuel = 1 and dg = no_digests and r = r and n' = n' and host1 = "''s3''"] r fake_start
    by (simp add: fake_run_def fake_net_def calm_net_def odd_status_def troubles_def plain_key_def plain_def unreserved_def mem_empty_def mem_wf_def bt_wf_def)
qed

section \<open>Boot names\<close>

lemma web_bind_assoc: "web_bind (web_bind p f) g = web_bind p (\<lambda>x. web_bind (f x) g)"
  by (induction p) auto

lemma over_r2_bind: "over_r2 fuel dg c (io_bind p f) = web_bind (over_r2 fuel dg c p) (\<lambda>r. case r of None \<Rightarrow> Page None | Some x \<Rightarrow> over_r2 fuel dg c (f x))"
  by (induction p) (auto simp: web_bind_assoc intro!: arg_cong[where f = "web_bind _"] split: option.split)

lemma plain_boot_key: "plain_key (boot_key addr)"
proof -
  have "unreserved (hex_char n)" if "n < 16" for n using that by (auto simp: hex_char_def unreserved_def of_char_of Let_def)
  then have "unreserved c" if "c \<in> set (hex bs)" for c and bs :: bytes
    using that unat_lt2[where 'a = 8] by (auto simp: hex_def hex_byte_def div_less_iff_less_mult)
  then show ?thesis by (auto simp: plain_key_def plain_def boot_key_def addr_hash8_def unreserved_def)
qed

text \<open>C23: On R2 the names of boots repeat: \<open>R2BlobStore\<close> has no versions of its own, so the nonce a boot draws is 1, or 0 when every draw
  failed, and all boots of an address share two names (one, when nothing fails).\<close>

theorem boot_names_repeat_on_r2:
  assumes "r2_client h blob up base keys_after c" "up (net_srv n)" "calm_net (net_script n)"
  shows "fst (run_web h (over_r2 fuel dg c (boot_name addr)) n) \<in> {Some (boot_tag addr 0), Some (boot_tag addr 1)}
    \<and> (net_script n = [] \<longrightarrow> fst (run_web h (over_r2 fuel dg c (boot_name addr)) n) = Some (boot_tag addr 1))"
proof -
  obtain r n' where r: "run_web h (over_r2 fuel dg c (nonce_tries 64 addr)) n = (r, n')" by fastforce
  have "r \<in> {Some 0, Some 1} \<and> (net_script n = [] \<longrightarrow> r = Some 1)"
    using r2_client.run_nonce[OF assms(1) plain_boot_key assms(3,2) r] by (simp add: troubles_def)
  then show ?thesis using r by (auto simp: boot_name_def over_r2_bind run_web_bind simp del: nonce_tries.simps)
qed

lemma boot_names_repeat_on_r2_witness:
  "fst (fake_run (over_r2 1 no_digests (fake_client ''s3'') (boot_name ''n1:80'')) []) = Some (boot_tag ''n1:80'' 1)"
proof -
  have n: "fake_up (net_srv (fake_net []))" "calm_net (net_script (fake_net []))" "net_script (fake_net []) = []"
    by (simp_all add: fake_start) (simp_all add: fake_net_def calm_net_def)
  show ?thesis unfolding fake_run_def
    using boot_names_repeat_on_r2[OF fake.r2_client_axioms n(1,2)] n(3) by blast
qed

section \<open>Retries\<close>

text \<open>C24: A delete retried after its reply was lost can erase what another client created in between. The first attempt reaches
  the service and is told an error, the other client's create reaches the service next and is answered with success, the
  second attempt reaches the service after it and is told that all went well: so the whole delete answers success, and
  the blob the other client was told it created is gone.\<close>

theorem delete_retry_erases:
  assumes "r2_client h blob up base keys_after c" "up s" "plain_key k"
    and "shaped ''PUT'' (full_url c (path_for c k) []) v [(''if-none-match'', ''*'')] q'"
  shows "\<exists>q1 r1 n1 r s2 q2 r2 n2.
      h q1 s = (Inr r1, net_srv n1) \<and> shaped ''DELETE'' (full_url c (path_for c k) []) [] [] q1
    \<and> run_web h (delete_once dg c k) \<lparr>net_srv = s, net_script = [Lost e, Other q'], net_ms = ms\<rparr> = (Inl e, n1)
    \<and> net_script n1 = [Other q'] \<and> h q' (net_srv n1) = (Inr r, s2) \<and> rp_status r = 200 \<and> blob s2 k = Some v
    \<and> h q2 s2 = (Inr r2, net_srv n2) \<and> shaped ''DELETE'' (full_url c (path_for c k) []) [] [] q2
    \<and> run_web h (Nap 100 (delete_once dg c k)) n1 = (Inr (Some ()), n2) \<and> blob (net_srv n2) k = None
    \<and> run_web h (r2_delete dg c k) \<lparr>net_srv = s, net_script = [Lost e, Other q'], net_ms = ms\<rparr> = (Inr (), n2)"
proof -
  note url = r2_client.key_url[OF assms(1,3)]
  have service: "s3_service h blob up base keys_after" using assms(1) by (simp add: r2_client_def)
  have deleted: "\<exists>r s'. h q s = (Inr r, s') \<and> up s' \<and> blob s' = (blob s)(k := None) \<and> rp_status r \<in> {200, 204, 404}"
    if "up s" "shaped ''DELETE'' (full_url c (path_for c k) []) [] [] q" for q s
    using s3_service.delete_law[OF service that(1) assms(3), of q] that(2) url by (simp add: shaped_def)
  let ?n = "\<lparr>net_srv = s, net_script = [Lost e, Other q'], net_ms = ms\<rparr>"
  have sent: thesis if "\<And>q. shaped ''DELETE'' (full_url c (path_for c k) []) [] [] q \<Longrightarrow> run_web h (delete_once dg c k) n
      = (case deliver h q (net_script n) (net_srv n) of (r, sc, s) \<Rightarrow>
       (let n' = n\<lparr>net_script := sc, net_srv := s\<rparr> in case r of Inl e \<Rightarrow> (Inl e, n') | Inr r \<Rightarrow> run_web h (Page (
          if rp_status r \<in> {200, 204, 404} then Inr (Some ()) else other_status (''R2 DELETE '' @ k) r)) n')) \<Longrightarrow> thesis" for n thesis
    unfolding delete_once_def by (rule request_sent) (rule that[unfolded delete_once_def])
  obtain q1 where q1: "shaped ''DELETE'' (full_url c (path_for c k) []) [] [] q1" and run1: "run_web h (delete_once dg c k) ?n
      = (case deliver h q1 (net_script ?n) (net_srv ?n) of (r, sc, s) \<Rightarrow>
       (let n' = ?n\<lparr>net_script := sc, net_srv := s\<rparr> in case r of Inl e \<Rightarrow> (Inl e, n') | Inr r \<Rightarrow> run_web h (Page (
          if rp_status r \<in> {200, 204, 404} then Inr (Some ()) else other_status (''R2 DELETE '' @ k) r)) n'))"
    by (rule sent)
  obtain r1 s1 where s1: "h q1 s = (Inr r1, s1)" "up s1" "blob s1 = (blob s)(k := None)" using deleted[OF assms(2) q1] by blast
  let ?n1 = "\<lparr>net_srv = s1, net_script = [Other q'], net_ms = ms\<rparr>" and ?m = "\<lparr>net_srv = s1, net_script = [Other q'], net_ms = ms + 100\<rparr>"
  have lost: "run_web h (delete_once dg c k) ?n = (Inl e, ?n1)" unfolding run1 using s1 by simp
  obtain q2 where q2: "shaped ''DELETE'' (full_url c (path_for c k) []) [] [] q2" and run2: "run_web h (delete_once dg c k) ?m
      = (case deliver h q2 (net_script ?m) (net_srv ?m) of (r, sc, s) \<Rightarrow>
       (let n' = ?m\<lparr>net_script := sc, net_srv := s\<rparr> in case r of Inl e \<Rightarrow> (Inl e, n') | Inr r \<Rightarrow> run_web h (Page (
          if rp_status r \<in> {200, 204, 404} then Inr (Some ()) else other_status (''R2 DELETE '' @ k) r)) n'))"
    by (rule sent)
  obtain r s2 where s2: "h q' s1 = (Inr r, s2)" "up s2" "rp_status r = 200" "blob s2 = (blob s1)(k \<mapsto> v)"
    using s3_service.create_law[OF service s1(2) assms(3), of q'] assms(4) url s1(3) by (auto simp: shaped_def)
  obtain r3 s3 where s3: "h q2 s2 = (Inr r3, s3)" "blob s3 = (blob s2)(k := None)" "rp_status r3 \<in> {200, 204, 404}"
    using deleted[OF s2(2) q2] by blast
  let ?n2 = "\<lparr>net_srv = s3, net_script = [], net_ms = ms + 100\<rparr>"
  have again: "run_web h (delete_once dg c k) ?m = (Inr (Some ()), ?n2)" unfolding run2 using s2(1) s3 by simp
  have whole: "run_web h (r2_delete dg c k) ?n = (Inr (), ?n2)"
    using lost again by (simp add: r2_delete_def with_retries_def retries_def upt_rec run_web_bind)
  show ?thesis
    by (intro exI[of _ q1] exI[of _ r1] exI[of _ ?n1] exI[of _ r] exI[of _ s2] exI[of _ q2] exI[of _ r3] exI[of _ ?n2])
       (use s1(1) q1 lost s2 s3 q2 again whole in simp)
qed

lemma delete_retry_erases_witness:
  "\<exists>n1 r s2 n2. run_web (fake_serve (fake_url ''s3'') uri_decode) (delete_once no_digests (fake_client ''s3'') ''log/a.1'')
        \<lparr>net_srv = fake_default, net_script = [Lost ''reset'', Other \<lparr>rq_method = ''PUT'', rq_url = full_url (fake_client ''s3'') (path_for (fake_client ''s3'') ''log/a.1'') [],
          rq_headers = [(''if-none-match'', ''*'')], rq_body = [7]\<rparr>], net_ms = 0\<rparr> = (Inl ''reset'', n1)
    \<and> fake_serve (fake_url ''s3'') uri_decode \<lparr>rq_method = ''PUT'', rq_url = full_url (fake_client ''s3'') (path_for (fake_client ''s3'') ''log/a.1'') [],
        rq_headers = [(''if-none-match'', ''*'')], rq_body = [7]\<rparr> (net_srv n1) = (Inr r, s2) \<and> rp_status r = 200 \<and> map_of (fs_blobs s2) ''log/a.1'' = Some [7]
    \<and> run_web (fake_serve (fake_url ''s3'') uri_decode) (r2_delete no_digests (fake_client ''s3'') ''log/a.1'')
        \<lparr>net_srv = fake_default, net_script = [Lost ''reset'', Other \<lparr>rq_method = ''PUT'', rq_url = full_url (fake_client ''s3'') (path_for (fake_client ''s3'') ''log/a.1'') [],
          rq_headers = [(''if-none-match'', ''*'')], rq_body = [7]\<rparr>], net_ms = 0\<rparr> = (Inr (), n2) \<and> map_of (fs_blobs (net_srv n2)) ''log/a.1'' = None"
proof -
  let ?q = "\<lparr>rq_method = ''PUT'', rq_url = full_url (fake_client ''s3'') (path_for (fake_client ''s3'') ''log/a.1'') [],
     rq_headers = [(''if-none-match'', ''*'')], rq_body = [7]\<rparr>"
  have "fake_up fake_default" using fake_start(1)[of "[]"] by (simp add: fake_net_def)
  moreover have "plain_key ''log/a.1''" by (simp add: plain_key_def plain_def unreserved_def)
  moreover have "shaped ''PUT'' (full_url (fake_client ''s3'') (path_for (fake_client ''s3'') ''log/a.1'') []) [7] [(''if-none-match'', ''*'')] ?q"
    by (simp add: shaped_def)
  ultimately show ?thesis
    using delete_retry_erases[OF fake.r2_client_axioms, where s = fake_default and k = "''log/a.1''" and v = "[7]" and q' = ?q and dg = no_digests and e = "''reset''" and ms = 0] by blast
qed

end
