(* ===== verification/Front.thy ===== *)
theory Front
  imports Rpc
begin

text \<open>
  Code at the edge of a node (\<open>src/src/api.rs\<close>, \<open>src/src/wills.rs\<close>) as programs over what it asks of the node: submit a
  transaction or a poll, cancel a poll, read the clock, and touch, in one locked step, the state of its connection.
  A program is run against a node (\<open>edge\<close>: what it answers) under a script of accidents, since a submission can fail before
  it takes effect or lose its answer after it.
\<close>

section \<open>What the code asks for\<close>

text \<open>\<open>CallSystem\<close> is \<open>submit_system\<close> on the object of the wills, the only one the code uses it for.\<close>

datatype 'v call =
    CallTxn "capability option" "string list" "'v op list" bool bool
  | CallSystem "'v op list" bool
  | CallPoll string string "'v list" bool "string option" nat nat

text \<open>
  The state of one connection, and the node's set of sessions with a durable will: the polls parked on it by frame,
  its will.
\<close>

record 'v armed_will =
  aw_objects :: "string list"
  aw_ops :: "'v op list"
  aw_optimistic :: bool
  aw_cap :: "capability option"

record 'v sess =
  se_outstanding :: "(nat \<times> string) list"
  se_will :: "'v armed_will option"
  se_armed :: "string list"

datatype ('v, 'a) act =
    Fin 'a
  | Touch "'v sess \<Rightarrow> 'v sess" "'v sess \<Rightarrow> ('v, 'a) act"
  | Now "nat \<Rightarrow> ('v, 'a) act"
  | Cancel string nat nat "('v, 'a) act"
  | Call "'v call" "api_error + 'v txn_response \<Rightarrow> ('v, 'a) act"

primrec act_bind :: "('v, 'a) act \<Rightarrow> ('a \<Rightarrow> ('v, 'b) act) \<Rightarrow> ('v, 'b) act" where
  "act_bind (Fin x) f = f x"
| "act_bind (Touch g c) f = Touch g (\<lambda>s. act_bind (c s) f)"
| "act_bind (Now c) f = Now (\<lambda>t. act_bind (c t) f)"
| "act_bind (Cancel ob conn fr p) f = Cancel ob conn fr (act_bind p f)"
| "act_bind (Call q c) f = Call q (\<lambda>r. act_bind (c r) f)"

definition submit :: "'v call \<Rightarrow> ('v, api_error + 'v txn_response) act" where
  "submit q = Call q Fin"

definition update :: "('v sess \<Rightarrow> 'v sess) \<Rightarrow> ('v, unit) act" where
  "update f = Touch f (\<lambda>_. Fin ())"

section \<open>Rules for every run\<close>

text \<open>
  \<open>acts I P Q p\<close>: while the connection's state satisfies \<open>I\<close> whenever the program looks at it (other frames of the connection
  may have changed it), the program keeps \<open>I\<close>, makes only calls in \<open>P\<close> and ends with a result in \<open>Q\<close>.
\<close>

primrec acts :: "('v sess \<Rightarrow> bool) \<Rightarrow> ('v call \<Rightarrow> bool) \<Rightarrow> ('a \<Rightarrow> bool) \<Rightarrow> ('v, 'a) act \<Rightarrow> bool" where
  "acts I P Q (Fin x) \<longleftrightarrow> Q x"
| "acts I P Q (Touch g c) \<longleftrightarrow> (\<forall>s. I s \<longrightarrow> I (g s) \<and> acts I P Q (c s))"
| "acts I P Q (Now c) \<longleftrightarrow> (\<forall>t. acts I P Q (c t))"
| "acts I P Q (Cancel ob conn fr p) \<longleftrightarrow> acts I P Q p"
| "acts I P Q (Call q c) \<longleftrightarrow> P q \<and> (\<forall>r. acts I P Q (c r))"

lemma acts_bind [simp]: "acts I P Q (act_bind p f) \<longleftrightarrow> acts I P (\<lambda>x. acts I P Q (f x)) p"
  by (induction p) auto

lemma acts_submit [simp]: "acts I P Q (submit q) \<longleftrightarrow> P q \<and> (\<forall>r. Q r)"
  by (simp add: submit_def)

lemma acts_update [simp]: "acts I P Q (update g) \<longleftrightarrow> (\<forall>s. I s \<longrightarrow> I (g s) \<and> Q ())"
  by (simp add: update_def)

lemma acts_mono: "acts I P Q p \<Longrightarrow> (\<And>q. P q \<Longrightarrow> P' q) \<Longrightarrow> (\<And>x. Q x \<Longrightarrow> Q' x) \<Longrightarrow> acts I P' Q' p"
  by (induction p) auto

section \<open>Running\<close>

text \<open>
  What becomes of a submission, by turns: it is served, fails before it takes effect, or loses its answer; and what the rest
  of the cluster, or another frame of the connection, does before it. After the script everything is served.
\<close>

datatype ('v, 'w) turn =
    Served
  | Failed api_error
  | Unanswered api_error
  | Meanwhile "'w \<times> 'v sess \<Rightarrow> 'w \<times> 'v sess"

type_synonym ('v, 'w) edge = "'v call \<Rightarrow> 'w \<Rightarrow> (api_error + 'v txn_response) \<times> 'w"

record ('v, 'w) edge_run =
  er_world :: 'w
  er_sess :: "'v sess"
  er_ms :: nat
  er_script :: "('v, 'w) turn list"
  er_calls :: "('v call \<times> (api_error + 'v txn_response)) list"

text \<open>\<open>er_calls\<close> collects the submissions that took effect, in order, with the node's answer to each.\<close>

definition take_effect :: "('v, 'w) edge \<Rightarrow> 'v call \<Rightarrow> ('v, 'w) edge_run \<Rightarrow> (api_error + 'v txn_response) \<times> ('v, 'w) edge_run" where
  "take_effect N q n =
    (let (r, w) = N q (er_world n) in (r, n\<lparr>er_world := w, er_calls := er_calls n @ [(q, r)]\<rparr>))"

primrec serve_turns :: "('v, 'w) edge \<Rightarrow> 'v call \<Rightarrow> ('v, 'w) turn list \<Rightarrow> ('v, 'w) edge_run
    \<Rightarrow> (api_error + 'v txn_response) \<times> ('v, 'w) edge_run" where
  "serve_turns N q [] n = take_effect N q (n\<lparr>er_script := []\<rparr>)"
| "serve_turns N q (t # sc) n = (case t of
      Served \<Rightarrow> take_effect N q (n\<lparr>er_script := sc\<rparr>)
    | Failed e \<Rightarrow> (Inl e, n\<lparr>er_script := sc\<rparr>)
    | Unanswered e \<Rightarrow> (Inl e, snd (take_effect N q (n\<lparr>er_script := sc\<rparr>)))
    | Meanwhile f \<Rightarrow> (let (w, s) = f (er_world n, er_sess n) in serve_turns N q sc (n\<lparr>er_world := w, er_sess := s\<rparr>)))"

definition serve_call :: "('v, 'w) edge \<Rightarrow> 'v call \<Rightarrow> ('v, 'w) edge_run \<Rightarrow> (api_error + 'v txn_response) \<times> ('v, 'w) edge_run" where
  "serve_call N q n = serve_turns N q (er_script n) n"

primrec run_act :: "('v, 'w) edge \<Rightarrow> ('v, 'a) act \<Rightarrow> ('v, 'w) edge_run \<Rightarrow> 'a \<times> ('v, 'w) edge_run" where
  "run_act N (Fin x) n = (x, n)"
| "run_act N (Touch g c) n = run_act N (c (er_sess n)) (n\<lparr>er_sess := g (er_sess n)\<rparr>)"
| "run_act N (Now c) n = run_act N (c (er_ms n)) n"
| "run_act N (Cancel ob conn fr p) n = run_act N p n"
| "run_act N (Call q c) n = (case serve_call N q n of (r, n) \<Rightarrow> run_act N (c r) n)"

text \<open>A whole run of another program, as it appears between two steps of this one.\<close>

definition alone :: "('v, 'w) edge \<Rightarrow> nat \<Rightarrow> ('v, 'a) act \<Rightarrow> 'w \<times> 'v sess \<Rightarrow> 'w \<times> 'v sess" where
  "alone N t p = (\<lambda>(w, s). case run_act N p \<lparr>er_world = w, er_sess = s, er_ms = t, er_script = [], er_calls = []\<rparr> of
     (_, n) \<Rightarrow> (er_world n, er_sess n))"

lemma run_act_bind: "run_act N (act_bind p f) n = (case run_act N p n of (x, n') \<Rightarrow> run_act N (f x) n')"
  by (induction p arbitrary: n) (auto split: prod.splits)

text \<open>Without interference: what a submission may come to.\<close>

primrec calm_turn :: "('v, 'w) turn \<Rightarrow> bool" where
  "calm_turn Served = True"
| "calm_turn (Failed e) = True"
| "calm_turn (Unanswered e) = True"
| "calm_turn (Meanwhile f) = False"

definition undisturbed :: "('v, 'w) turn list \<Rightarrow> bool" where
  "undisturbed sc = list_all calm_turn sc"

text \<open>The clients' transactions among the submissions that took effect.\<close>

primrec is_txn :: "'v call \<Rightarrow> bool" where
  "is_txn (CallTxn cap objects ops ro opt) = True"
| "is_txn (CallSystem ops opt) = False"
| "is_txn (CallPoll ob sql params durable baseline conn fr) = False"

definition txns :: "('v call \<times> 'a) list \<Rightarrow> ('v call \<times> 'a) list" where
  "txns cs = filter (is_txn \<circ> fst) cs"

lemma txns_simps [simp]: "txns [] = []" "txns (cs @ ds) = txns cs @ txns ds"
  "txns ((q, a) # cs) = (if is_txn q then (q, a) # txns cs else txns cs)"
  by (simp_all add: txns_def)

lemma serve_calm:
  assumes "er_script n = []" "serve_call N q n = (r, n')"
  shows "er_script n' = [] \<and> N q (er_world n) = (r, er_world n') \<and> er_calls n' = er_calls n @ [(q, r)]
    \<and> er_sess n' = er_sess n \<and> er_ms n' = er_ms n"
  using assms by (auto simp: serve_call_def take_effect_def split: prod.splits)

lemma serve_undisturbed:
  assumes "undisturbed (er_script n)" "serve_call N q n = (r, n')"
  shows "undisturbed (er_script n') \<and> er_sess n' = er_sess n \<and> er_ms n' = er_ms n \<and>
    ((\<exists>e. r = Inl e) \<and> er_world n' = er_world n \<and> er_calls n' = er_calls n
     \<or> (\<exists>a. N q (er_world n) = (a, er_world n') \<and> er_calls n' = er_calls n @ [(q, a)] \<and> ((\<exists>e. r = Inl e) \<or> r = a)))"
  using assms
  by (cases "er_script n")
    (auto simp: serve_call_def take_effect_def undisturbed_def split: turn.splits prod.splits)

section \<open>The rules hold in every run\<close>

definition keeps_sess :: "('v sess \<Rightarrow> bool) \<Rightarrow> ('v, 'w) turn list \<Rightarrow> bool" where
  "keeps_sess I sc \<longleftrightarrow> (\<forall>f w s. Meanwhile f \<in> set sc \<longrightarrow> I s \<longrightarrow> I (snd (f (w, s))))"

lemma keeps_sess_Nil [simp]: "keeps_sess I []"
  by (simp add: keeps_sess_def)

lemma serve_turns_rule:
  assumes "I (er_sess n)" "keeps_sess I sc" "serve_turns N q sc n = (r, n')"
  shows "I (er_sess n') \<and> keeps_sess I (er_script n') \<and> (\<exists>as. er_calls n' = er_calls n @ map (Pair q) as)"
  using assms
proof (induction sc arbitrary: n)
  case Nil
  then show ?case by (auto simp: take_effect_def split: prod.splits intro: exI[of _ "[r]"])
next
  case (Cons t sc)
  have sc: "keeps_sess I sc" using Cons.prems(2) by (auto simp: keeps_sess_def)
  show ?case
  proof (cases t)
    case (Meanwhile f)
    obtain w s where f: "f (er_world n, er_sess n) = (w, s)" by fastforce
    have "I s" using Cons.prems(1,2) Meanwhile snd_conv[of w s, folded f] by (auto simp: keeps_sess_def)
    then show ?thesis
      using Cons.IH[of "n\<lparr>er_world := w, er_sess := s\<rparr>"] sc Cons.prems(3) Meanwhile f by simp
  qed (use Cons.prems sc in \<open>auto simp: take_effect_def split: prod.splits intro: exI[of _ "[_]"] exI[of _ "[]"]\<close>)
qed

lemma run_asks:
  assumes "acts I P Q p" "I (er_sess n)" "keeps_sess I (er_script n)" "run_act N p n = (x, n')"
  shows "Q x \<and> I (er_sess n') \<and> (\<exists>new. er_calls n' = er_calls n @ new \<and> list_all (P \<circ> fst) new)"
  using assms
proof (induction p arbitrary: n)
  case (Call q c)
  obtain r n1 where r: "serve_call N q n = (r, n1)" by fastforce
  from serve_turns_rule[OF Call.prems(2,3) r[unfolded serve_call_def]]
  obtain as where n1: "I (er_sess n1)" "keeps_sess I (er_script n1)" "er_calls n1 = er_calls n @ map (Pair q) as" by blast
  have "Q x \<and> I (er_sess n') \<and> (\<exists>new. er_calls n' = er_calls n1 @ new \<and> list_all (P \<circ> fst) new)"
    by (rule Call.IH[OF _ _ n1(1,2)]) (use Call.prems(1,4) r in auto)
  then show ?case using n1(3) Call.prems(1) by (auto simp: list_all_iff)
next
  case (Touch g c)
  have "Q x \<and> I (er_sess n') \<and> (\<exists>new. er_calls n' = er_calls (n\<lparr>er_sess := g (er_sess n)\<rparr>) @ new \<and> list_all (P \<circ> fst) new)"
    by (rule Touch.IH) (use Touch.prems in auto)
  then show ?case by (simp add: comp_def)
next
  case (Now c)
  then show ?case using Now.IH[of "c (er_ms n)" n] by auto
qed auto

end
