(* ===== verification/Wills.thy ===== *)
theory Wills
  imports Front
begin

text \<open>
  \<open>src/src/wills.rs\<close>: durable wills, the rows of the system object \<open>_wills\<close>. The JSON of a will and of parameters, and the
  columns of a row, are the library's (\<open>wcodec\<close>; \<open>wc_each\<close> is SQLite's \<open>json_each\<close>). Times are in milliseconds.
\<close>

section \<open>Rows and statements\<close>

record 'v durable_will =
  dw_objects :: "string list"
  dw_ops :: "'v op list"
  dw_optimistic :: bool
  dw_cap :: "capability option"

record 'v wcodec =
  wc_text :: "string \<Rightarrow> 'v"
  wc_num :: "nat \<Rightarrow> 'v"
  wc_texts :: "string list \<Rightarrow> string"
  wc_each :: "string \<Rightarrow> string list"
  wc_will :: "'v durable_will \<Rightarrow> string"
  wc_parse :: "string \<Rightarrow> 'v durable_will option"
  wc_column :: "'v \<Rightarrow> string \<Rightarrow> string option"

definition wills_object :: string where "wills_object = ''_wills''"

definition wills_schema :: string where
  "wills_schema = ''CREATE TABLE IF NOT EXISTS wills (session TEXT PRIMARY KEY, deadline INTEGER NOT NULL, claim_deadline INTEGER NOT NULL DEFAULT 0, payload TEXT NOT NULL)''"

definition insert_sql :: string where
  "insert_sql = ''INSERT INTO wills (session, deadline, claim_deadline, payload) VALUES (?1, ?2, 0, ?3) ON CONFLICT(session) DO UPDATE SET deadline = ?2, claim_deadline = 0, payload = ?3''"

definition delete_sql :: string where
  "delete_sql = ''DELETE FROM wills WHERE session = ?1''"

definition refresh_sql :: string where
  "refresh_sql = ''UPDATE wills SET deadline = ?1 WHERE session IN (SELECT value FROM json_each(?2))''"

definition due_sql :: string where
  "due_sql = ''SELECT session, payload FROM wills WHERE deadline < ?1 AND claim_deadline < ?1 ORDER BY session''"

definition claim_sql :: string where
  "claim_sql = ''UPDATE wills SET claim_deadline = ?1 WHERE session = ?2 AND deadline < ?3 AND claim_deadline < ?3''"

definition wop :: "string \<Rightarrow> 'v list \<Rightarrow> 'v op" where
  "wop sql params = \<lparr>op_object = wills_object, op_sql = sql, op_params = params\<rparr>"

section \<open>Arming, disarming, refreshing\<close>

definition arm :: "'v wcodec \<Rightarrow> string \<Rightarrow> 'v durable_will \<Rightarrow> nat \<Rightarrow> ('v, api_error + unit) act" where
  "arm cd session will deadline =
    act_bind (submit (CallSystem [wop wills_schema [], wop insert_sql [wc_text cd session, wc_num cd deadline, wc_text cd (wc_will cd will)]] False))
      (\<lambda>r. Fin (map_sum id (\<lambda>_. ()) r))"

definition disarm :: "'v wcodec \<Rightarrow> string \<Rightarrow> ('v, unit) act" where
  "disarm cd session =
    act_bind (submit (CallSystem [wop wills_schema [], wop delete_sql [wc_text cd session]] False)) (\<lambda>_. Fin ())"

definition refresh :: "'v wcodec \<Rightarrow> string list \<Rightarrow> nat \<Rightarrow> ('v, unit) act" where
  "refresh cd sessions deadline =
    (if sessions = [] then Fin ()
     else act_bind (submit (CallSystem [wop wills_schema [], wop refresh_sql [wc_num cd deadline, wc_text cd (wc_texts cd sessions)]] True)) (\<lambda>_. Fin ()))"

section \<open>Sweeping\<close>

definition rows_affected :: "'v txn_response \<Rightarrow> nat" where
  "rows_affected resp = (if tr_results resp = [] then 0 else case last (tr_results resp) of Affected n \<Rightarrow> n | _ \<Rightarrow> 0)"

text \<open>The transaction of a will, under the grants frozen when it was armed.\<close>

definition will_txn :: "'v durable_will \<Rightarrow> 'v call" where
  "will_txn w = CallTxn (dw_cap w) (dw_objects w) (dw_ops w) False (dw_optimistic w)"

lemma is_txn_will [simp]: "is_txn (will_txn w)"
  by (simp add: will_txn_def)

text \<open>Log lines are left out.\<close>

definition sweep_row :: "'v wcodec \<Rightarrow> nat \<Rightarrow> nat \<Rightarrow> 'v \<Rightarrow> ('v, unit) act" where
  "sweep_row cd now_ms claim_ttl_ms row =
    (case (wc_column cd row ''session'', wc_column cd row ''payload'') of
       (Some session, Some payload) \<Rightarrow>
         act_bind (submit (CallSystem [wop claim_sql [wc_num cd (now_ms + claim_ttl_ms), wc_text cd session, wc_num cd now_ms]] False)) (\<lambda>claim.
           if (case claim of Inr r \<Rightarrow> rows_affected r = 0 | Inl _ \<Rightarrow> False) then Fin ()
           else (case wc_parse cd payload of
             None \<Rightarrow> act_bind (submit (CallSystem [wop delete_sql [wc_text cd session]] False)) (\<lambda>_. Fin ())
           | Some will \<Rightarrow>
               act_bind (submit (will_txn will)) (\<lambda>fired.
                 case fired of
                   Inr _ \<Rightarrow> act_bind (submit (CallSystem [wop delete_sql [wc_text cd session]] False)) (\<lambda>_. Fin ())
                 | Inl _ \<Rightarrow> Fin ())))
     | _ \<Rightarrow> Fin ())"

fun sweep_rows :: "'v wcodec \<Rightarrow> nat \<Rightarrow> nat \<Rightarrow> 'v list \<Rightarrow> ('v, unit) act" where
  "sweep_rows cd now_ms claim_ttl_ms [] = Fin ()"
| "sweep_rows cd now_ms claim_ttl_ms (row # rows) =
    act_bind (sweep_row cd now_ms claim_ttl_ms row) (\<lambda>_. sweep_rows cd now_ms claim_ttl_ms rows)"

definition sweep :: "'v wcodec \<Rightarrow> nat \<Rightarrow> nat \<Rightarrow> ('v, unit) act" where
  "sweep cd now_ms claim_ttl_ms =
    act_bind (submit (CallSystem [wop due_sql [wc_num cd now_ms]] False)) (\<lambda>listing.
      case listing of
        Inl _ \<Rightarrow> Fin ()
      | Inr resp \<Rightarrow> (case tr_results resp of
            Rows rows # _ \<Rightarrow> sweep_rows cd now_ms claim_ttl_ms rows
          | _ \<Rightarrow> Fin ()))"

section \<open>The node's tasks\<close>

text \<open>One turn of the refresher and of the sweeper; \<open>tick\<close> is how often each runs.\<close>

definition will_tick :: "nat \<Rightarrow> nat" where
  "will_tick will_ttl = max (will_ttl div 3) 50"

definition refresher_turn :: "'v wcodec \<Rightarrow> nat \<Rightarrow> ('v, unit) act" where
  "refresher_turn cd will_ttl = Touch id (\<lambda>s. Now (\<lambda>t. refresh cd (se_armed s) (t + will_ttl)))"

definition sweeper_turn :: "'v wcodec \<Rightarrow> nat \<Rightarrow> ('v, unit) act" where
  "sweeper_turn cd will_ttl = Now (\<lambda>t. sweep cd t will_ttl)"

end
