(* ===== verification/Api.thy ===== *)
theory Api
  imports Wills
begin

text \<open>
  \<open>src/src/api.rs\<close>: who is calling and what they may do, the frames of a connection, the HTTP handlers and the endpoint for other
  nodes. Routing by path, JSON and the socket are the library's: a handler takes its parsed request, a frame arrives parsed
  or with the parser's error, and a reply is its fields. Headers are what \<open>to_str\<close> gives of them. \<open>debug\<close> renders a string
  as \<open>{:?}\<close> does; clocks, the token's authentication code and its JSON are arguments.
\<close>

section \<open>Who is calling\<close>

datatype auth = Root | Cap capability

fun auth_cap :: "auth \<Rightarrow> capability option" where
  "auth_cap Root = None"
| "auth_cap (Cap c) = Some c"

definition forbidden :: "string \<Rightarrow> api_error" where
  "forbidden msg = \<lparr>ae_status = 403, ae_message = msg\<rparr>"

definition unauthorized :: "string \<Rightarrow> api_error" where
  "unauthorized msg = \<lparr>ae_status = 401, ae_message = msg\<rparr>"

fun authorize :: "(string \<Rightarrow> string) \<Rightarrow> auth \<Rightarrow> string list \<Rightarrow> string \<Rightarrow> api_error + unit" where
  "authorize debug Root objects verb = Inr ()"
| "authorize debug (Cap c) objects verb =
    (case List.find (\<lambda>ob. \<not> allows c ob verb) objects of
       Some ob \<Rightarrow> Inl (forbidden (''capability does not grant '' @ debug verb @ '' on '' @ debug ob))
     | None \<Rightarrow> Inr ())"

fun require_root :: "auth \<Rightarrow> api_error + unit" where
  "require_root Root = Inr ()"
| "require_root (Cap c) = Inl (forbidden ''root API token required'')"

text \<open>The checks of a presented token; \<open>keys\<close> holds what verification needs.\<close>

record auth_keys =
  ak_mac :: "string \<Rightarrow> bytes \<Rightarrow> bytes"
  ak_of_json :: "bytes \<Rightarrow> capability option"
  ak_secret :: string
  ak_token :: "string option"

definition resolve_auth :: "auth_keys \<Rightarrow> nat \<Rightarrow> string \<Rightarrow> string \<Rightarrow> auth option rust" where
  "resolve_auth keys now root_token presented =
    (if presented = root_token then Ret (Some Root)
     else rust_bind (verify (ak_mac keys) (ak_of_json keys) now (ak_secret keys) presented) (\<lambda>c. Ret (map_option Cap c)))"

definition bearer_auth :: "auth_keys \<Rightarrow> nat \<Rightarrow> string \<Rightarrow> string option \<Rightarrow> auth option rust" where
  "bearer_auth keys now token authorization =
    (case Option.bind authorization (strip_prefix ''Bearer '') of
       None \<Rightarrow> Ret None
     | Some t \<Rightarrow> resolve_auth keys now token t)"

definition require_api_token :: "auth_keys \<Rightarrow> nat \<Rightarrow> string option \<Rightarrow> (api_error + auth) rust" where
  "require_api_token keys now authorization =
    rust_bind (case ak_token keys of None \<Rightarrow> Ret (Some Root) | Some token \<Rightarrow> bearer_auth keys now token authorization)
      (\<lambda>a. Ret (case a of Some a \<Rightarrow> Inr a | None \<Rightarrow> Inl (unauthorized ''missing or invalid bearer token'')))"

fun find_auth :: "(string \<Rightarrow> auth option rust) \<Rightarrow> string list \<Rightarrow> auth option rust" where
  "find_auth f [] = Ret None"
| "find_auth f (t # ts) = rust_bind (f t) (\<lambda>a. case a of Some a \<Rightarrow> Ret (Some a) | None \<Rightarrow> find_auth f ts)"

definition subprotocol_tokens :: "string option \<Rightarrow> string list" where
  "subprotocol_tokens protos =
    (case protos of None \<Rightarrow> []
     | Some p \<Rightarrow> List.map_filter (strip_prefix ''fafo-token.'') (map trim_text (split_on (CHR '','') p)))"

definition ws_handler :: "auth_keys \<Rightarrow> nat \<Rightarrow> string option \<Rightarrow> string option \<Rightarrow> (api_error + auth) rust" where
  "ws_handler keys now authorization protos =
    rust_bind
      (case ak_token keys of None \<Rightarrow> Ret (Some Root)
       | Some token \<Rightarrow> rust_bind (bearer_auth keys now token authorization) (\<lambda>a.
           case a of Some a \<Rightarrow> Ret (Some a)
           | None \<Rightarrow> find_auth (resolve_auth keys now token) (subprotocol_tokens protos)))
      (\<lambda>a. Ret (case a of Some a \<Rightarrow> Inr a
         | None \<Rightarrow> Inl (unauthorized ''authenticate via Authorization: Bearer or the fafo-token.<TOKEN> subprotocol'')))"

section \<open>Frames\<close>

record 'v will_body =
  wb_objects :: "string list"
  wb_ops :: "'v op list"
  wb_optimistic :: bool

record 'v poll_body =
  pb_object :: string
  pb_sql :: string
  pb_params :: "'v list"
  pb_durable :: bool
  pb_baseline :: "string option"

record 'v ws_frame =
  wf_id :: nat
  wf_objects :: "string list"
  wf_ops :: "'v op list"
  wf_read_only :: bool
  wf_optimistic :: bool
  wf_poll :: "'v poll_body option"
  wf_cancel :: bool
  wf_will :: "'v will_body option"

datatype 'v ws_reply =
    BadFrame string
  | ErrorReply nat string nat
  | WillReply nat string
  | ResultReply nat "'v txn_response"

record edge_node =
  en_tag :: "string option"
  en_durable_wills :: bool
  en_will_ttl :: nat

definition will_session_id :: "string option \<Rightarrow> nat \<Rightarrow> string" where
  "will_session_id tag conn = (case tag of Some t \<Rightarrow> t | None \<Rightarrow> ''boot'') @ ''-'' @ show_nat conn"

definition session_open :: "string list \<Rightarrow> 'v sess" where
  "session_open armed = \<lparr>se_outstanding = [], se_will = None, se_armed = armed\<rparr>"

definition deny :: "nat \<Rightarrow> api_error \<Rightarrow> 'v ws_reply" where
  "deny i e = ErrorReply i (ae_message e) (ae_status e)"

definition answer_frame :: "nat \<Rightarrow> api_error + 'v txn_response \<Rightarrow> 'v ws_reply" where
  "answer_frame i r = (case r of Inr x \<Rightarrow> ResultReply i x | Inl e \<Rightarrow> deny i e)"

definition declared :: "string list \<Rightarrow> 'v op list \<Rightarrow> string list" where
  "declared objects ops = (if objects = [] then map op_object ops else objects)"

definition cancel_frame :: "nat \<Rightarrow> nat \<Rightarrow> ('v, 'v ws_reply option) act" where
  "cancel_frame conn i =
    Touch (\<lambda>s. s\<lparr>se_outstanding := bt_remove i (se_outstanding s)\<rparr>) (\<lambda>s.
      case map_of (se_outstanding s) i of
        Some ob \<Rightarrow> Cancel ob conn i (Fin None)
      | None \<Rightarrow> Fin None)"

definition disarm_frame :: "'v wcodec \<Rightarrow> string \<Rightarrow> nat \<Rightarrow> ('v, 'v ws_reply) act" where
  "disarm_frame cd session i =
    act_bind (update (\<lambda>s. s\<lparr>se_will := None\<rparr>)) (\<lambda>_.
    act_bind (update (\<lambda>s. s\<lparr>se_armed := removeAll session (se_armed s)\<rparr>)) (\<lambda>_.
    act_bind (disarm cd session) (\<lambda>_. Fin (WillReply i ''disarmed''))))"

definition persist_will :: "'v wcodec \<Rightarrow> edge_node \<Rightarrow> auth \<Rightarrow> string \<Rightarrow> string list \<Rightarrow> 'v will_body \<Rightarrow> ('v, api_error + unit) act" where
  "persist_will cd en auth session ids w =
    (if en_durable_wills en then
       Now (\<lambda>t. act_bind (arm cd session \<lparr>dw_objects = ids, dw_ops = wb_ops w, dw_optimistic = wb_optimistic w, dw_cap = auth_cap auth\<rparr>
           (t + en_will_ttl en)) (\<lambda>r.
         case r of
           Inl e \<Rightarrow> Fin (Inl (internal (''could not persist will: '' @ ae_message e)))
         | Inr _ \<Rightarrow> act_bind (update (\<lambda>s. s\<lparr>se_armed := List.insert session (se_armed s)\<rparr>)) (\<lambda>_. Fin (Inr ()))))
     else Fin (Inr ()))"

definition arm_frame :: "'v wcodec \<Rightarrow> (string \<Rightarrow> string) \<Rightarrow> edge_node \<Rightarrow> auth \<Rightarrow> string \<Rightarrow> nat \<Rightarrow> 'v will_body
    \<Rightarrow> ('v, 'v ws_reply) act" where
  "arm_frame cd debug en auth session i w =
    (case validate_txn (declared (wb_objects w) (wb_ops w)) (wb_ops w) of
       Inl e \<Rightarrow> Fin (deny i (txn_error_response debug e))
     | Inr ids \<Rightarrow> (case authorize debug auth ids ''write'' of
         Inl e \<Rightarrow> Fin (deny i e)
       | Inr _ \<Rightarrow> act_bind (persist_will cd en auth session ids w) (\<lambda>r. case r of
           Inl e \<Rightarrow> Fin (deny i e)
         | Inr _ \<Rightarrow>
             act_bind (update (\<lambda>s. s\<lparr>se_will := Some \<lparr>aw_objects = ids, aw_ops = wb_ops w, aw_optimistic = wb_optimistic w,
                 aw_cap = auth_cap auth\<rparr>\<rparr>)) (\<lambda>_. Fin (WillReply i ''armed'')))))"

definition poll_frame :: "(string \<Rightarrow> string) \<Rightarrow> auth \<Rightarrow> nat \<Rightarrow> nat \<Rightarrow> 'v poll_body \<Rightarrow> ('v, 'v ws_reply) act" where
  "poll_frame debug auth conn i p =
    (case authorize debug auth [pb_object p] ''poll'' of
       Inl e \<Rightarrow> Fin (deny i e)
     | Inr _ \<Rightarrow>
         act_bind (update (\<lambda>s. s\<lparr>se_outstanding := bt_insert i (pb_object p) (se_outstanding s)\<rparr>)) (\<lambda>_.
         act_bind (submit (CallPoll (pb_object p) (pb_sql p) (pb_params p) (pb_durable p) (pb_baseline p) conn i)) (\<lambda>out.
         act_bind (update (\<lambda>s. s\<lparr>se_outstanding := bt_remove i (se_outstanding s)\<rparr>)) (\<lambda>_. Fin (answer_frame i out)))))"

definition txn_frame :: "(string \<Rightarrow> string) \<Rightarrow> auth \<Rightarrow> 'v ws_frame \<Rightarrow> ('v, 'v ws_reply) act" where
  "txn_frame debug auth f =
    (let objects = declared (wf_objects f) (wf_ops f) in
     case authorize debug auth objects (if wf_read_only f then ''read'' else ''write'') of
       Inl e \<Rightarrow> Fin (deny (wf_id f) e)
     | Inr _ \<Rightarrow> act_bind (submit (CallTxn (auth_cap auth) objects (wf_ops f) (wf_read_only f) (wf_optimistic f)))
         (\<lambda>r. Fin (answer_frame (wf_id f) r)))"

definition handle_ws_frame :: "'v wcodec \<Rightarrow> (string \<Rightarrow> string) \<Rightarrow> edge_node \<Rightarrow> auth \<Rightarrow> nat \<Rightarrow> string + 'v ws_frame
    \<Rightarrow> ('v, 'v ws_reply option) act" where
  "handle_ws_frame cd debug en auth conn text =
    (case text of
       Inl e \<Rightarrow> Fin (Some (BadFrame (''bad frame: '' @ e)))
     | Inr f \<Rightarrow>
         if wf_cancel f then cancel_frame conn (wf_id f)
         else (case wf_will f of
           Some w \<Rightarrow>
             (let session = will_session_id (en_tag en) conn
              in if wb_ops w = [] then act_bind (disarm_frame cd session (wf_id f)) (\<lambda>r. Fin (Some r))
                 else act_bind (arm_frame cd debug en auth session (wf_id f) w) (\<lambda>r. Fin (Some r)))
         | None \<Rightarrow> (case wf_poll f of
             Some p \<Rightarrow> act_bind (poll_frame debug auth conn (wf_id f) p) (\<lambda>r. Fin (Some r))
           | None \<Rightarrow> act_bind (txn_frame debug auth f) (\<lambda>r. Fin (Some r)))))"

text \<open>Closing: the map of parked polls is drained in an unspecified order, here by frame; log lines are left out.\<close>

definition run_will :: "'v armed_will \<Rightarrow> 'v call" where
  "run_will w = CallTxn (aw_cap w) (aw_objects w) (aw_ops w) False (aw_optimistic w)"

definition sweep_polls :: "nat \<Rightarrow> (nat \<times> string) list \<Rightarrow> ('v, unit) act" where
  "sweep_polls conn ps = foldr (\<lambda>(i, ob) p. Cancel ob conn i p) ps (Fin ())"

definition close_session :: "'v wcodec \<Rightarrow> edge_node \<Rightarrow> nat \<Rightarrow> ('v, unit) act" where
  "close_session cd en conn =
    Touch (\<lambda>s. s\<lparr>se_will := None\<rparr>) (\<lambda>s0.
      act_bind
        (case se_will s0 of
           None \<Rightarrow> Fin ()
         | Some w \<Rightarrow>
             (let session = will_session_id (en_tag en) conn in
              act_bind (submit (run_will w)) (\<lambda>_.
              act_bind (update (\<lambda>s. s\<lparr>se_armed := removeAll session (se_armed s)\<rparr>)) (\<lambda>_. disarm cd session))))
        (\<lambda>_. Touch (\<lambda>s. s\<lparr>se_outstanding := []\<rparr>) (\<lambda>s1. sweep_polls conn (se_outstanding s1))))"

text \<open>A connection: its frames one after another, then its close.\<close>

fun conn_life :: "'v wcodec \<Rightarrow> (string \<Rightarrow> string) \<Rightarrow> edge_node \<Rightarrow> auth \<Rightarrow> nat \<Rightarrow> (string + 'v ws_frame) list
    \<Rightarrow> ('v, 'v ws_reply option list) act" where
  "conn_life cd debug en auth conn [] = act_bind (close_session cd en conn) (\<lambda>_. Fin [])"
| "conn_life cd debug en auth conn (t # ts) =
    act_bind (handle_ws_frame cd debug en auth conn t) (\<lambda>r.
    act_bind (conn_life cd debug en auth conn ts) (\<lambda>rs. Fin (r # rs)))"

section \<open>HTTP handlers\<close>

definition txn_handler :: "(string \<Rightarrow> string) \<Rightarrow> auth \<Rightarrow> string list \<Rightarrow> 'v op list \<Rightarrow> bool \<Rightarrow> ('v, api_error + 'v txn_response) act" where
  "txn_handler debug auth objects ops optimistic =
    (case authorize debug auth objects ''write'' of
       Inl e \<Rightarrow> Fin (Inl e)
     | Inr _ \<Rightarrow> submit (CallTxn (auth_cap auth) objects ops False optimistic))"

record 'v statement =
  st_sql :: string
  st_params :: "'v list"

datatype 'v exec_body = Many "'v statement list" bool | Single "'v statement"

definition statement_op :: "string \<Rightarrow> 'v statement \<Rightarrow> 'v op" where
  "statement_op i s = \<lparr>op_object = i, op_sql = st_sql s, op_params = st_params s\<rparr>"

definition exec_handler :: "(string \<Rightarrow> string) \<Rightarrow> auth \<Rightarrow> string \<Rightarrow> 'v exec_body \<Rightarrow> ('v, api_error + 'v txn_response) act" where
  "exec_handler debug auth i body =
    (case authorize debug auth [i] ''write'' of
       Inl e \<Rightarrow> Fin (Inl e)
     | Inr _ \<Rightarrow>
         (let (stmts, optimistic) = (case body of Single s \<Rightarrow> ([s], False) | Many ops optimistic \<Rightarrow> (ops, optimistic))
          in submit (CallTxn (auth_cap auth) [i] (map (statement_op i) stmts) False optimistic)))"

definition last_result :: "'v txn_response \<Rightarrow> api_error + 'v op_result" where
  "last_result r = (if tr_results r = [] then Inl (internal ''no result'') else Inr (last (tr_results r)))"

definition query_handler :: "(string \<Rightarrow> string) \<Rightarrow> auth \<Rightarrow> string \<Rightarrow> 'v statement \<Rightarrow> ('v, api_error + 'v op_result) act" where
  "query_handler debug auth i s =
    (case authorize debug auth [i] ''read'' of
       Inl e \<Rightarrow> Fin (Inl e)
     | Inr _ \<Rightarrow> act_bind (submit (CallTxn (auth_cap auth) [i] [statement_op i s] True False))
         (\<lambda>r. Fin (res_bind r last_result)))"

text \<open>The answer to a poll: its last result, with the hash to wait on next.\<close>

definition poll_handler :: "(string \<Rightarrow> string) \<Rightarrow> auth \<Rightarrow> nat \<Rightarrow> 'v poll_body \<Rightarrow> ('v, api_error + 'v op_result \<times> string option) act" where
  "poll_handler debug auth conn p =
    (case authorize debug auth [pb_object p] ''poll'' of
       Inl e \<Rightarrow> Fin (Inl e)
     | Inr _ \<Rightarrow> act_bind (submit (CallPoll (pb_object p) (pb_sql p) (pb_params p) (pb_durable p) (pb_baseline p) conn 0))
         (\<lambda>r. Fin (res_bind r (\<lambda>x. res_bind (last_result x) (\<lambda>v. Inr (v, tr_hash x))))))"

definition stats_handler :: "auth \<Rightarrow> 's \<Rightarrow> api_error + 's" where
  "stats_handler auth snapshot = res_bind (require_root auth) (\<lambda>_. Inr snapshot)"

definition grantable :: "string \<Rightarrow> bool" where
  "grantable v \<longleftrightarrow> v \<in> set [''read'', ''insert'', ''update'', ''delete'', ''ddl'', ''write'', ''poll'']"

definition unknown_verb :: "(string \<Rightarrow> string) \<Rightarrow> string \<Rightarrow> api_error" where
  "unknown_verb debug v = bad_request (''unknown verb '' @ debug v @ '' (read, insert, update, delete, ddl, poll; write = shorthand for the four write verbs)'')"

text \<open>The sum of two 64-bit numbers of seconds wraps around.\<close>

definition grant_handler :: "(capability \<Rightarrow> bytes) \<Rightarrow> (string \<Rightarrow> string) \<Rightarrow> auth_keys \<Rightarrow> auth \<Rightarrow> u64 \<Rightarrow> grant list \<Rightarrow> u64 \<Rightarrow> string option
    \<Rightarrow> api_error + string \<times> u64" where
  "grant_handler to_json debug keys auth now grants ttl_secs sub =
    res_bind (require_root auth) (\<lambda>_.
      if grants = [] then Inl (bad_request ''grant at least one capability'')
      else (case List.find (\<lambda>v. \<not> grantable v) (concat (map g_verbs grants)) of
        Some v \<Rightarrow> Inl (unknown_verb debug v)
      | None \<Rightarrow>
          (let expiry = now + ttl_secs;
               cap = \<lparr>cap_grants = grants, cap_exp = unat expiry, cap_sub = sub\<rparr>
           in Inr (mint (ak_mac keys) to_json (ak_secret keys) cap, expiry))))"

definition list_objects :: "auth \<Rightarrow> string + string list \<Rightarrow> api_error + string list" where
  "list_objects auth listing =
    res_bind (require_root auth) (\<lambda>_. case listing of
      Inl e \<Rightarrow> Inl (internal e)
    | Inr keys \<Rightarrow> Inr (List.map_filter (\<lambda>k. Option.bind (strip_prefix ''objects/'' k) (strip_suffix ''.db'')) keys))"

section \<open>The endpoint for other nodes\<close>

text \<open>What asking a local worker for an object comes to: none hosts it, it is gone, or its answer.\<close>

datatype take_reply = NoWorker | WorkerGone | Took "take_error + transfer_meta"

definition handle_rpc :: "'v world \<Rightarrow> nat list \<Rightarrow> routing \<Rightarrow> (nat \<Rightarrow> string \<Rightarrow> nat \<Rightarrow> take_reply) \<Rightarrow> (nat \<Rightarrow> string \<Rightarrow> transfer_meta \<Rightarrow> bool)
    \<Rightarrow> 'v request \<Rightarrow> 'v response rust" where
  "handle_rpc w epoch_blocks r take_at adopt_at req =
    (case req of
       TxnRq objects ops read_only optimistic cap \<Rightarrow>
         rust_bind (submit_received w epoch_blocks r objects) (\<lambda>x. Ret (TxnRs (map_sum to_wire id x)))
     | TakeRq worker ob taker \<Rightarrow>
         Ret (case take_at worker ob taker of
           NoWorker \<Rightarrow> TakeRs (Inl (NotMine None))
         | WorkerGone \<Rightarrow> ErrRs ''worker is gone''
         | Took x \<Rightarrow> TakeRs x)
     | AdoptRq worker ob meta \<Rightarrow> Ret (if adopt_at worker ob meta then OkRs else ErrRs ''worker is gone''))"

definition rpc_handler :: "string \<Rightarrow> string option \<Rightarrow> 'v response rust \<Rightarrow> (api_error + 'v response) rust" where
  "rpc_handler secret header answer =
    (if header = Some secret then rust_bind answer (\<lambda>x. Ret (Inr x))
     else Ret (Inl (unauthorized ''bad cluster secret'')))"


section \<open>The routes\<close>

text \<open>The requests behind the check of the token, and those beside it: liveness, the endpoint for other nodes (with its secret
  header) and the upgrade to a connection.\<close>

datatype 'v http_request =
    PostTxn "string list" "'v op list" bool
  | GetObjects
  | PostExec string "'v exec_body"
  | PostQuery string "'v statement"
  | PostPoll "'v poll_body"
  | PostGrant "grant list" u64 "string option"
  | GetStats

datatype 'v node_request =
    Gated "string option" "'v http_request"
  | GetHealthz
  | PostRpc "string option" "'v request"
  | GetWs "string option" "string option"

datatype ('v, 's) http_reply =
    HttpError api_error
  | HttpTxn "'v txn_response"
  | HttpResult "'v op_result" "string option"
  | HttpObjects "string list"
  | HttpMinted string u64
  | HttpStats 's
  | HttpHealth nat string string
  | HttpRpc "'v response"
  | HttpUpgraded auth

text \<open>What the handlers take from the node: its keys, what its store lists, a snapshot of its counters, the workers it has
  claimed, the environment, and its answer to another node (\<open>handle_rpc\<close> on its workers).\<close>

record ('v, 's) api_node =
  an_keys :: auth_keys
  an_to_json :: "capability \<Rightarrow> bytes"
  an_listing :: "string + string list"
  an_stats :: 's
  an_claimed :: nat
  an_env :: "string \<Rightarrow> string option"
  an_rpc :: "'v request \<Rightarrow> 'v response rust"

definition healthz :: "nat \<Rightarrow> (string \<Rightarrow> string option) \<Rightarrow> ('v, 's) http_reply" where
  "healthz workers env =
    (let var = (\<lambda>k. case env k of Some v \<Rightarrow> v | None \<Rightarrow> [])
     in HttpHealth workers (var ''CLOUDFLARE_LOCATION'') (var ''CLOUDFLARE_REGION''))"

definition http_answer :: "('a \<Rightarrow> ('v, 's) http_reply) \<Rightarrow> api_error + 'a \<Rightarrow> ('v, 's) http_reply" where
  "http_answer f r = (case r of Inl e \<Rightarrow> HttpError e | Inr x \<Rightarrow> f x)"

definition http_route :: "('v, 's) api_node \<Rightarrow> nat \<Rightarrow> (string \<Rightarrow> string) \<Rightarrow> auth \<Rightarrow> nat \<Rightarrow> 'v http_request
    \<Rightarrow> ('v, ('v, 's) http_reply) act" where
  "http_route nd now debug auth conn req =
    (case req of
       PostTxn objects ops optimistic \<Rightarrow> act_bind (txn_handler debug auth objects ops optimistic) (\<lambda>r. Fin (http_answer HttpTxn r))
     | GetObjects \<Rightarrow> Fin (http_answer HttpObjects (list_objects auth (an_listing nd)))
     | PostExec i body \<Rightarrow> act_bind (exec_handler debug auth i body) (\<lambda>r. Fin (http_answer HttpTxn r))
     | PostQuery i st \<Rightarrow> act_bind (query_handler debug auth i st) (\<lambda>r. Fin (http_answer (\<lambda>x. HttpResult x None) r))
     | PostPoll p \<Rightarrow> act_bind (poll_handler debug auth conn p) (\<lambda>r. Fin (http_answer (\<lambda>(x, h). HttpResult x h) r))
     | PostGrant grants ttl_secs sub \<Rightarrow>
         Fin (http_answer (\<lambda>(t, expiry). HttpMinted t expiry)
           (grant_handler (an_to_json nd) debug (an_keys nd) auth (word_of_nat now) grants ttl_secs sub))
     | GetStats \<Rightarrow> Fin (http_answer HttpStats (stats_handler auth (an_stats nd))))"

definition router :: "('v, 's) api_node \<Rightarrow> nat \<Rightarrow> (string \<Rightarrow> string) \<Rightarrow> nat \<Rightarrow> 'v node_request \<Rightarrow> ('v, ('v, 's) http_reply) act rust" where
  "router nd now debug conn req =
    (case req of
       Gated authorization req \<Rightarrow>
         rust_bind (require_api_token (an_keys nd) now authorization) (\<lambda>a. Ret (case a of
           Inl e \<Rightarrow> Fin (HttpError e)
         | Inr auth \<Rightarrow> http_route nd now debug auth conn req))
     | GetHealthz \<Rightarrow> Ret (Fin (healthz (an_claimed nd) (an_env nd)))
     | PostRpc header req \<Rightarrow>
         rust_bind (rpc_handler (ak_secret (an_keys nd)) header (an_rpc nd req)) (\<lambda>r. Ret (Fin (http_answer HttpRpc r)))
     | GetWs authorization protos \<Rightarrow>
         rust_bind (ws_handler (an_keys nd) now authorization protos) (\<lambda>r. Ret (Fin (http_answer HttpUpgraded r))))"

end
