(* ===== verification/Wills_Table.thy ===== *)
theory Wills_Table
  imports Wills
begin

text \<open>
  What the statements of \<open>src/src/wills.rs\<close> do to the table of wills: rows by session (the primary key), each with its deadline,
  its claim and its payload. The locale \<open>wills_node\<close> is what the code relies on of the node that executes them; it is
  interpreted on a node that keeps the table and executes the statements by their text, next to anything it may keep
  for its users.
\<close>

section \<open>The table\<close>

type_synonym will_row = "nat \<times> nat \<times> string"
type_synonym wills_table = "(string \<times> will_row) list"

definition is_due :: "nat \<Rightarrow> will_row \<Rightarrow> bool" where
  "is_due now = (\<lambda>(deadline, claimed, payload). deadline < now \<and> claimed < now)"

definition put_row :: "string \<Rightarrow> nat \<Rightarrow> string \<Rightarrow> wills_table \<Rightarrow> wills_table" where
  "put_row session deadline payload t = bt_insert session (deadline, 0, payload) t"

definition push_deadlines :: "string list \<Rightarrow> nat \<Rightarrow> wills_table \<Rightarrow> wills_table" where
  "push_deadlines sessions deadline t =
    map (\<lambda>(s, d, c, p). (s, if s \<in> set sessions then deadline else d, c, p)) t"

definition due_rows :: "nat \<Rightarrow> wills_table \<Rightarrow> wills_table" where
  "due_rows now t = filter (\<lambda>(s, r). is_due now r) t"

definition claim_row :: "nat \<Rightarrow> string \<Rightarrow> nat \<Rightarrow> wills_table \<Rightarrow> wills_table" where
  "claim_row until session now t =
    map (\<lambda>(s, d, c, p). (s, d, if s = session \<and> is_due now (d, c, p) then until else c, p)) t"

definition due_in :: "nat \<Rightarrow> string \<Rightarrow> wills_table \<Rightarrow> bool" where
  "due_in now session t = (case map_of t session of Some r \<Rightarrow> is_due now r | None \<Rightarrow> False)"

definition rows_of :: "wills_table option \<Rightarrow> wills_table" where
  "rows_of t = (case t of None \<Rightarrow> [] | Some t \<Rightarrow> t)"

named_theorems row_simps \<open>what the statements leave in each row\<close>

lemma map_of_put_row [row_simps]: "map_of (put_row s d p t) s' = (if s' = s then Some (d, 0, p) else map_of t s')"
  by (simp add: put_row_def)

lemma map_of_push [row_simps]:
  "map_of (push_deadlines ss d t) s = map_option (\<lambda>(d0, c, p). (if s \<in> set ss then d else d0, c, p)) (map_of t s)"
  by (induction t) (auto simp: push_deadlines_def)

lemma map_of_claim [row_simps]:
  "map_of (claim_row u s now t) s' =
    map_option (\<lambda>(d, c, p). (d, if s' = s \<and> is_due now (d, c, p) then u else c, p)) (map_of t s')"
  by (induction t) (auto simp: claim_row_def)

lemma fst_push: "map fst (push_deadlines ss d t) = map fst t"
  by (simp add: push_deadlines_def comp_def case_prod_unfold)

lemma fst_claim: "map fst (claim_row u s now t) = map fst t"
  by (simp add: claim_row_def comp_def case_prod_unfold)

lemma bt_wf_rows [row_simps]:
  "bt_wf t \<Longrightarrow> bt_wf (put_row s d p t)"
  "bt_wf t \<Longrightarrow> bt_wf (push_deadlines ss d t)"
  "bt_wf t \<Longrightarrow> bt_wf (claim_row u s now t)"
  by (simp add: put_row_def) (simp_all only: bt_wf_def fst_push fst_claim)

lemma due_rows_iff: "bt_wf t \<Longrightarrow> (s, r) \<in> set (due_rows now t) \<longleftrightarrow> map_of t s = Some r \<and> is_due now r"
  using bt_wf_distinct[of t] by (auto simp: due_rows_def)

lemma distinct_due_rows: "bt_wf t \<Longrightarrow> distinct (map fst (due_rows now t))"
  using bt_wf_distinct[of t] by (simp add: due_rows_def distinct_map_filter)

section \<open>What a sweep does to the rows\<close>

text \<open>The wills of a list of rows, in order.\<close>

definition wills_of :: "'v wcodec \<Rightarrow> wills_table \<Rightarrow> 'v call list" where
  "wills_of cd ps = map will_txn (List.map_filter (\<lambda>(s, d, c, p). wc_parse cd p) ps)"

text \<open>What a sweep may leave of a row it has listed, when it fired \<open>f\<close>.\<close>

definition settled :: "'v wcodec \<Rightarrow> nat \<Rightarrow> wills_table \<Rightarrow> ('v call \<times> (api_error + 'v txn_response)) list \<Rightarrow> string \<times> will_row \<Rightarrow> bool" where
  "settled cd until t f = (\<lambda>(s, d, c, p). map_of t s \<in> {Some (d, c, p), Some (d, until, p)}
     \<or> map_of t s = None \<and> (\<forall>w. wc_parse cd p = Some w \<longrightarrow> (\<exists>y. (will_txn w, Inr y) \<in> set f)))"

text \<open>On a calm node every due will is fired once; its row is consumed when it ran, and stays claimed when it was refused.\<close>

definition fired_row :: "'v wcodec \<Rightarrow> nat \<Rightarrow> wills_table \<Rightarrow> string \<times> will_row \<Rightarrow> 'v call \<times> (api_error + 'v txn_response) \<Rightarrow> bool" where
  "fired_row cd until t = (\<lambda>(s, d, c, p) (q, a). (\<exists>w. wc_parse cd p = Some w \<and> q = will_txn w)
     \<and> map_of t s = (if is_ok a then None else Some (d, until, p)))"

definition readable :: "'v wcodec \<Rightarrow> string \<times> will_row \<Rightarrow> bool" where
  "readable cd = (\<lambda>(s, d, c, p). wc_parse cd p \<noteq> None)"

section \<open>What the code relies on\<close>

locale wills_node =
  fixes N :: "('v, 'w) edge"
    and cd :: "'v wcodec"
    and T :: "'w \<Rightarrow> wills_table option"
    and row :: "string \<Rightarrow> string \<Rightarrow> 'v"
  assumes arm_law: "N (CallSystem [wop wills_schema [], wop insert_sql [wc_text cd s, wc_num cd d, wc_text cd p]] b) w = (r, w')
      \<Longrightarrow> (\<exists>x. r = Inr x) \<and> T w' = Some (put_row s d p (rows_of (T w)))"
    and disarm_law: "N (CallSystem [wop wills_schema [], wop delete_sql [wc_text cd s]] b) w = (r, w')
      \<Longrightarrow> (\<exists>x. r = Inr x) \<and> T w' = Some (bt_remove s (rows_of (T w)))"
    and refresh_law: "N (CallSystem [wop wills_schema [], wop refresh_sql [wc_num cd d, wc_text cd js]] b) w = (r, w')
      \<Longrightarrow> (\<exists>x. r = Inr x) \<and> T w' = Some (push_deadlines (wc_each cd js) d (rows_of (T w)))"
    and due_law: "N (CallSystem [wop due_sql [wc_num cd now]] b) w = (r, w')
      \<Longrightarrow> T w' = T w \<and> (case T w of None \<Rightarrow> \<exists>e. r = Inl e
            | Some t \<Rightarrow> \<exists>x. r = Inr x \<and> tr_results x = [Rows (map (\<lambda>(s, d, c, p). row s p) (due_rows now t))])"
    and claim_law: "N (CallSystem [wop claim_sql [wc_num cd u, wc_text cd s, wc_num cd now]] b) w = (r, w')
      \<Longrightarrow> (case T w of None \<Rightarrow> T w' = None \<and> (\<exists>e. r = Inl e)
            | Some t \<Rightarrow> T w' = Some (claim_row u s now t)
                \<and> (\<exists>x. r = Inr x \<and> tr_results x = [Affected (if due_in now s t then 1 else 0)]))"
    and delete_law: "N (CallSystem [wop delete_sql [wc_text cd s]] b) w = (r, w')
      \<Longrightarrow> T w' = map_option (bt_remove s) (T w)"
    and txn_law: "N (CallTxn cap objects ops ro opt) w = (r, w') \<Longrightarrow> T w' = T w"
    and column_law: "wc_column cd (row s p) ''session'' = Some s" "wc_column cd (row s p) ''payload'' = Some p"
begin

lemma delete_outcome:
  assumes "undisturbed (er_script n)"
    "run_act N (act_bind (submit (CallSystem [wop delete_sql [wc_text cd s]] b)) (\<lambda>_. Fin ())) n = (u, n')"
  shows "undisturbed (er_script n') \<and> txns (er_calls n') = txns (er_calls n) \<and>
    T (er_world n') \<in> {T (er_world n), map_option (bt_remove s) (T (er_world n))}"
proof -
  obtain r where "serve_call N (CallSystem [wop delete_sql [wc_text cd s]] b) n = (r, n')"
    using assms(2) by (auto simp: submit_def split: prod.splits)
  from serve_undisturbed[OF assms(1) this] show ?thesis by (auto dest!: delete_law)
qed

lemma sweep_row_outcome:
  assumes "undisturbed (er_script n)" "T (er_world n) = Some t" "bt_wf t" "map_of t s = Some (d, c, p)"
    "run_act N (sweep_row cd now ttl (row s p)) n = (x, n')"
  shows "undisturbed (er_script n') \<and> (\<exists>t' f. T (er_world n') = Some t' \<and> bt_wf t' \<and> (\<forall>s'. s' \<noteq> s \<longrightarrow> map_of t' s' = map_of t s')
    \<and> txns (er_calls n') = txns (er_calls n) @ f
    \<and> (f = [] \<or> (\<exists>w a. wc_parse cd p = Some w \<and> f = [(will_txn w, a)]))
    \<and> (map_of t' s \<in> {Some (d, c, p), Some (d, now + ttl, p)}
       \<or> map_of t' s = None \<and> (\<forall>w. wc_parse cd p = Some w \<longrightarrow> (\<exists>y. f = [(will_txn w, Inr y)]))))"
proof -
  let ?claim = "CallSystem [wop claim_sql [wc_num cd (now + ttl), wc_text cd s, wc_num cd now]] False"
  let ?del = "act_bind (submit (CallSystem [wop delete_sql [wc_text cd s]] False)) (\<lambda>_. Fin ())"
  obtain r1 n1 where c1: "serve_call N ?claim n = (r1, n1)" by fastforce
  obtain t1 where t1: "undisturbed (er_script n1)" "T (er_world n1) = Some t1" "bt_wf t1" "\<forall>s'. s' \<noteq> s \<longrightarrow> map_of t1 s' = map_of t s'"
      "txns (er_calls n1) = txns (er_calls n)" "map_of t1 s \<in> {Some (d, c, p), Some (d, now + ttl, p)}"
    using serve_undisturbed[OF assms(1) c1] assms(2,3,4)
    by (auto dest!: claim_law simp: row_simps map_option_idI)
  show ?thesis
  proof (cases "(case r1 of Inr r \<Rightarrow> rows_affected r = 0 | Inl _ \<Rightarrow> False)")
    case True
    then have "n' = n1" using assms(5) c1 by (simp add: sweep_row_def column_law submit_def)
    then show ?thesis using t1 by auto
  next
    case False
    have rest: "run_act N (case wc_parse cd p of None \<Rightarrow> ?del | Some will \<Rightarrow> act_bind (submit (will_txn will)) (\<lambda>fired.
        case fired of Inr _ \<Rightarrow> ?del | Inl _ \<Rightarrow> Fin ())) n1 = (x, n')"
      using assms(5) c1 False by (simp add: sweep_row_def column_law submit_def)
    show ?thesis
    proof (cases "wc_parse cd p")
      case None
      then show ?thesis using delete_outcome[OF t1(1), of s False x n'] rest t1 by auto
    next
      case (Some w)
      obtain r2 n2 where c2: "serve_call N (will_txn w) n1 = (r2, n2)" by fastforce
      have same: "\<And>q a w'. N (will_txn w) q = (a, w') \<Longrightarrow> T w' = T q"
        unfolding will_txn_def by (rule txn_law)
      obtain f where n2: "undisturbed (er_script n2)" "T (er_world n2) = Some t1" "txns (er_calls n2) = txns (er_calls n1) @ f"
          "f = [] \<or> (\<exists>a. f = [(will_txn w, a)])" "\<And>y. r2 = Inr y \<Longrightarrow> f = [(will_txn w, Inr y)]"
        using serve_undisturbed[OF t1(1) c2] t1(2) by (fastforce dest!: same)
      show ?thesis
      proof (cases r2)
        case (Inl e)
        then have "n' = n2" using rest Some c2 by (simp add: submit_def)
        then show ?thesis using n2(1-4) t1 Some by auto
      next
        case (Inr y)
        have "run_act N ?del n2 = (x, n')" using rest Some c2 Inr by (simp add: submit_def)
        from delete_outcome[OF n2(1) this] show ?thesis using n2 t1 Some Inr by auto
      qed
    qed
  qed
qed

definition row_values :: "wills_table \<Rightarrow> 'v list" where
  "row_values ps = map (\<lambda>(s, d, c, p). row s p) ps"

lemma settled_more: "settled cd u t f x \<Longrightarrow> map_of t' (fst x) = map_of t (fst x) \<Longrightarrow> set f \<subseteq> set f' \<Longrightarrow> settled cd u t' f' x"
  by (auto simp: settled_def split: prod.splits) blast

lemma sweep_rows_outcome:
  assumes "undisturbed (er_script n)" "T (er_world n) = Some t" "bt_wf t"
    "distinct (map fst ps)" "\<forall>(s, r) \<in> set ps. map_of t s = Some r"
    "run_act N (sweep_rows cd now ttl (row_values ps)) n = (x, n')"
  shows "undisturbed (er_script n') \<and> (\<exists>t' f. T (er_world n') = Some t' \<and> bt_wf t'
    \<and> (\<forall>s. s \<notin> fst ` set ps \<longrightarrow> map_of t' s = map_of t s)
    \<and> txns (er_calls n') = txns (er_calls n) @ f \<and> subseq (map fst f) (wills_of cd ps)
    \<and> (\<forall>r \<in> set ps. settled cd (now + ttl) t' f r))"
  using assms
proof (induction ps arbitrary: n t)
  case Nil
  then show ?case by (simp add: row_values_def wills_of_def List.map_filter_simps)
next
  case (Cons r0 ps)
  obtain s d c p where r0: "r0 = (s, d, c, p)" by (metis prod_cases4)
  obtain u n1 where one: "run_act N (sweep_row cd now ttl (row s p)) n = (u, n1)"
    using prod.exhaust by blast
  then have rest: "run_act N (sweep_rows cd now ttl (row_values ps)) n1 = (x, n')"
    using Cons.prems(6) by (simp add: r0 row_values_def run_act_bind)
  have here: "map_of t s = Some (d, c, p)" using Cons.prems(5) r0 by auto
  obtain t1 f1 where t1: "undisturbed (er_script n1)" "T (er_world n1) = Some t1" "bt_wf t1"
      "\<forall>s'. s' \<noteq> s \<longrightarrow> map_of t1 s' = map_of t s'" "txns (er_calls n1) = txns (er_calls n) @ f1"
      "f1 = [] \<or> (\<exists>w a. wc_parse cd p = Some w \<and> f1 = [(will_txn w, a)])" "settled cd (now + ttl) t1 f1 r0"
    using sweep_row_outcome[OF Cons.prems(1-3) here one] unfolding settled_def r0 by fastforce
  have others: "s \<notin> fst ` set ps" using Cons.prems(4) r0 by auto
  have "\<forall>(s, r) \<in> set ps. map_of t1 s = Some r"
    using Cons.prems(5) t1(4) others by (auto simp: image_iff split: prod.splits)
  then obtain t' f where t': "undisturbed (er_script n')" "T (er_world n') = Some t'" "bt_wf t'"
      "\<forall>s. s \<notin> fst ` set ps \<longrightarrow> map_of t' s = map_of t1 s" "txns (er_calls n') = txns (er_calls n1) @ f"
      "subseq (map fst f) (wills_of cd ps)" "\<forall>r \<in> set ps. settled cd (now + ttl) t' f r"
    using Cons.IH[OF t1(1-3) _ _ rest] Cons.prems(4) by auto
  have "subseq (map fst (f1 @ f)) (wills_of cd (r0 # ps))"
    using t1(6) t'(6) by (auto simp: wills_of_def r0 List.map_filter_simps split: option.splits)
  moreover have "settled cd (now + ttl) t' (f1 @ f) r0"
    by (rule settled_more[OF t1(7)]) (use t'(4) others r0 in auto)
  moreover have "\<forall>r \<in> set ps. settled cd (now + ttl) t' (f1 @ f) r"
    using t'(7) by (auto intro: settled_more)
  ultimately show ?case
    using t' t1 r0 by (intro conjI exI[where x = t'] exI[where x = "f1 @ f"]) auto
qed

lemma sweep_outcome:
  assumes "undisturbed (er_script n)" "T (er_world n) = Some t" "bt_wf t"
    "run_act N (sweep cd now ttl) n = (x, n')"
  shows "undisturbed (er_script n') \<and> (\<exists>t' f. T (er_world n') = Some t' \<and> bt_wf t'
    \<and> (\<forall>s. \<not> due_in now s t \<longrightarrow> map_of t' s = map_of t s)
    \<and> txns (er_calls n') = txns (er_calls n) @ f \<and> subseq (map fst f) (wills_of cd (due_rows now t))
    \<and> (\<forall>r \<in> set (due_rows now t). settled cd (now + ttl) t' f r))"
proof -
  let ?q = "CallSystem [wop due_sql [wc_num cd now]] False"
  obtain r1 n1 where c1: "serve_call N ?q n = (r1, n1)" by fastforce
  have n1: "undisturbed (er_script n1)" "T (er_world n1) = Some t" "txns (er_calls n1) = txns (er_calls n)"
      "\<And>y. r1 = Inr y \<Longrightarrow> tr_results y = [Rows (row_values (due_rows now t))]"
    using serve_undisturbed[OF assms(1) c1] assms(2) by (auto dest!: due_law simp: row_values_def)
  show ?thesis
  proof (cases r1)
    case (Inl e)
    then have "n' = n1" using assms(4) c1 by (simp add: sweep_def submit_def)
    then show ?thesis using n1 assms(3)
      by (auto simp: settled_def due_rows_iff intro!: exI[where x = t] exI[where x = "[]"])
  next
    case (Inr y)
    have "run_act N (sweep_rows cd now ttl (row_values (due_rows now t))) n1 = (x, n')"
      using assms(4) c1 Inr n1(4)[OF Inr] by (simp add: sweep_def submit_def)
    moreover have "\<forall>(s, r) \<in> set (due_rows now t). map_of t s = Some r"
      using due_rows_iff[OF assms(3)] by auto
    ultimately obtain t' f where *: "undisturbed (er_script n')" "T (er_world n') = Some t'" "bt_wf t'"
      "\<forall>s. s \<notin> fst ` set (due_rows now t) \<longrightarrow> map_of t' s = map_of t s" "txns (er_calls n') = txns (er_calls n1) @ f"
      "subseq (map fst f) (wills_of cd (due_rows now t))" "\<forall>r \<in> set (due_rows now t). settled cd (now + ttl) t' f r"
      using sweep_rows_outcome[OF n1(1,2) assms(3) distinct_due_rows[OF assms(3)]] by blast
    have "\<forall>s. \<not> due_in now s t \<longrightarrow> s \<notin> fst ` set (due_rows now t)"
      using due_rows_iff[OF assms(3), of _ _ now] by (auto simp: due_in_def split: option.splits)
    then show ?thesis using * n1(3) by (auto intro!: exI[where x = t'] exI[where x = f])
  qed
qed

lemma calm_delete:
  assumes "er_script n = []"
    "run_act N (act_bind (submit (CallSystem [wop delete_sql [wc_text cd s]] b)) (\<lambda>_. Fin ())) n = (u, n')"
  shows "er_script n' = [] \<and> txns (er_calls n') = txns (er_calls n) \<and> T (er_world n') = map_option (bt_remove s) (T (er_world n))"
proof -
  obtain r where "serve_call N (CallSystem [wop delete_sql [wc_text cd s]] b) n = (r, n')"
    using assms(2) by (auto simp: submit_def split: prod.splits)
  from serve_calm[OF assms(1) this] show ?thesis by (auto dest!: delete_law)
qed

lemma calm_row:
  assumes "er_script n = []" "T (er_world n) = Some t" "bt_wf t" "map_of t s = Some (d, c, p)" "is_due now (d, c, p)"
    "run_act N (sweep_row cd now ttl (row s p)) n = (x, n')"
  shows "er_script n' = [] \<and> (\<exists>t' f. T (er_world n') = Some t' \<and> bt_wf t' \<and> (\<forall>s'. s' \<noteq> s \<longrightarrow> map_of t' s' = map_of t s')
    \<and> txns (er_calls n') = txns (er_calls n) @ f
    \<and> (case wc_parse cd p of None \<Rightarrow> f = [] \<and> map_of t' s = None
       | Some w \<Rightarrow> \<exists>a. f = [(will_txn w, a)] \<and> fired_row cd (now + ttl) t' (s, d, c, p) (will_txn w, a)))"
proof -
  let ?claim = "CallSystem [wop claim_sql [wc_num cd (now + ttl), wc_text cd s, wc_num cd now]] False"
  let ?del = "act_bind (submit (CallSystem [wop delete_sql [wc_text cd s]] False)) (\<lambda>_. Fin ())"
  obtain r1 n1 where c1: "serve_call N ?claim n = (r1, n1)" by fastforce
  obtain t1 where t1: "er_script n1 = []" "T (er_world n1) = Some t1" "bt_wf t1" "\<forall>s'. s' \<noteq> s \<longrightarrow> map_of t1 s' = map_of t s'"
      "txns (er_calls n1) = txns (er_calls n)" "map_of t1 s = Some (d, now + ttl, p)"
      "\<not> (case r1 of Inr r \<Rightarrow> rows_affected r = 0 | Inl _ \<Rightarrow> False)"
    using serve_calm[OF assms(1) c1] assms(2-5)
    by (auto dest!: claim_law simp: row_simps map_option_idI due_in_def rows_affected_def)
  have rest: "run_act N (case wc_parse cd p of None \<Rightarrow> ?del | Some will \<Rightarrow> act_bind (submit (will_txn will)) (\<lambda>fired.
      case fired of Inr _ \<Rightarrow> ?del | Inl _ \<Rightarrow> Fin ())) n1 = (x, n')"
    using assms(6) c1 t1(7) by (simp add: sweep_row_def column_law submit_def)
  show ?thesis
  proof (cases "wc_parse cd p")
    case None
    then show ?thesis using calm_delete[OF t1(1), of s False x n'] rest t1 by auto
  next
    case (Some w)
    obtain r2 n2 where c2: "serve_call N (will_txn w) n1 = (r2, n2)" by fastforce
    have "N (will_txn w) (er_world n1) = (r2, er_world n2)" using serve_calm[OF t1(1) c2] by simp
    then have n2: "er_script n2 = []" "T (er_world n2) = Some t1" "txns (er_calls n2) = txns (er_calls n1) @ [(will_txn w, r2)]"
      using serve_calm[OF t1(1) c2] t1(2) unfolding will_txn_def by (auto dest: txn_law)
    show ?thesis
    proof (cases r2)
      case (Inl e)
      then have "n' = n2" using rest Some c2 by (simp add: submit_def)
      then show ?thesis using n2 t1 Some Inl by (simp add: fired_row_def)
    next
      case (Inr y)
      have "run_act N ?del n2 = (x, n')" using rest Some c2 Inr by (simp add: submit_def)
      from calm_delete[OF n2(1) this] show ?thesis using n2 t1 Some Inr by (simp add: fired_row_def)
    qed
  qed
qed

lemma fired_row_other: "fired_row cd u t x y \<Longrightarrow> map_of t' (fst x) = map_of t (fst x) \<Longrightarrow> fired_row cd u t' x y"
  by (auto simp: fired_row_def split: prod.splits)

lemma calm_rows:
  assumes "er_script n = []" "T (er_world n) = Some t" "bt_wf t"
    "distinct (map fst ps)" "\<forall>(s, r) \<in> set ps. map_of t s = Some r \<and> is_due now r"
    "run_act N (sweep_rows cd now ttl (row_values ps)) n = (x, n')"
  shows "er_script n' = [] \<and> (\<exists>t' f. T (er_world n') = Some t' \<and> bt_wf t'
    \<and> (\<forall>s. s \<notin> fst ` set ps \<longrightarrow> map_of t' s = map_of t s)
    \<and> txns (er_calls n') = txns (er_calls n) @ f \<and> list_all2 (fired_row cd (now + ttl) t') (filter (readable cd) ps) f
    \<and> (\<forall>r \<in> set ps. \<not> readable cd r \<longrightarrow> map_of t' (fst r) = None))"
  using assms
proof (induction ps arbitrary: n t)
  case Nil
  then show ?case by (simp add: row_values_def)
next
  case (Cons r0 ps)
  obtain s d c p where r0: "r0 = (s, d, c, p)" by (metis prod_cases4)
  obtain u n1 where one: "run_act N (sweep_row cd now ttl (row s p)) n = (u, n1)"
    using prod.exhaust by blast
  then have rest: "run_act N (sweep_rows cd now ttl (row_values ps)) n1 = (x, n')"
    using Cons.prems(6) by (simp add: r0 row_values_def run_act_bind)
  have here: "map_of t s = Some (d, c, p)" "is_due now (d, c, p)" using Cons.prems(5) r0 by auto
  obtain t1 f1 where t1: "er_script n1 = []" "T (er_world n1) = Some t1" "bt_wf t1"
      "\<forall>s'. s' \<noteq> s \<longrightarrow> map_of t1 s' = map_of t s'" "txns (er_calls n1) = txns (er_calls n) @ f1"
      "case wc_parse cd p of None \<Rightarrow> f1 = [] \<and> map_of t1 s = None
       | Some w \<Rightarrow> \<exists>a. f1 = [(will_txn w, a)] \<and> fired_row cd (now + ttl) t1 r0 (will_txn w, a)"
    using calm_row[OF Cons.prems(1-3) here one] unfolding r0 by blast
  have others: "s \<notin> fst ` set ps" using Cons.prems(4) r0 by auto
  have "\<forall>(s, r) \<in> set ps. map_of t1 s = Some r \<and> is_due now r"
  proof (clarify, intro conjI)
    fix s' d' c' p' assume m: "(s', d', c', p') \<in> set ps"
    then have "s' \<noteq> s" using others by (metis fst_conv image_eqI)
    then show "map_of t1 s' = Some (d', c', p')" using m Cons.prems(5) t1(4) by auto
    show "is_due now (d', c', p')" using m Cons.prems(5) by auto
  qed
  then obtain t' f where t': "er_script n' = []" "T (er_world n') = Some t'" "bt_wf t'"
      "\<forall>s. s \<notin> fst ` set ps \<longrightarrow> map_of t' s = map_of t1 s" "txns (er_calls n') = txns (er_calls n1) @ f"
      "list_all2 (fired_row cd (now + ttl) t') (filter (readable cd) ps) f" "\<forall>r \<in> set ps. \<not> readable cd r \<longrightarrow> map_of t' (fst r) = None"
    using Cons.IH[OF t1(1-3) _ _ rest] Cons.prems(4) by auto
  have same: "map_of t' (fst r0) = map_of t1 (fst r0)" using t'(4) others r0 by simp
  have "list_all2 (fired_row cd (now + ttl) t') (filter (readable cd) (r0 # ps)) (f1 @ f)"
    using t1(6) t'(6) fired_row_other[OF _ same] by (auto simp: readable_def r0 split: option.splits)
  moreover have "\<not> readable cd r0 \<Longrightarrow> map_of t' (fst r0) = None"
    using t1(6) same by (auto simp: readable_def r0 split: option.splits)
  ultimately show ?case
    using t' t1 r0 by (intro conjI exI[where x = t'] exI[where x = "f1 @ f"]) auto
qed

lemma calm_sweep:
  assumes "er_script n = []" "T (er_world n) = Some t" "bt_wf t"
    "run_act N (sweep cd now ttl) n = (x, n')"
  shows "\<exists>t' f. T (er_world n') = Some t' \<and> (\<forall>s. \<not> due_in now s t \<longrightarrow> map_of t' s = map_of t s)
    \<and> txns (er_calls n') = txns (er_calls n) @ f \<and> list_all2 (fired_row cd (now + ttl) t') (filter (readable cd) (due_rows now t)) f
    \<and> (\<forall>r \<in> set (due_rows now t). \<not> readable cd r \<longrightarrow> map_of t' (fst r) = None)"
proof -
  let ?q = "CallSystem [wop due_sql [wc_num cd now]] False"
  obtain r1 n1 where c1: "serve_call N ?q n = (r1, n1)" by fastforce
  obtain y where n1: "er_script n1 = []" "T (er_world n1) = Some t" "txns (er_calls n1) = txns (er_calls n)"
      "r1 = Inr y" "tr_results y = [Rows (row_values (due_rows now t))]"
    using serve_calm[OF assms(1) c1] assms(2) by (auto dest!: due_law simp: row_values_def)
  have run: "run_act N (sweep_rows cd now ttl (row_values (due_rows now t))) n1 = (x, n')"
    using assms(4) c1 n1(4,5) by (simp add: sweep_def submit_def)
  have "\<forall>(s, r) \<in> set (due_rows now t). map_of t s = Some r \<and> is_due now r"
    using due_rows_iff[OF assms(3)] by auto
  from calm_rows[OF n1(1,2) assms(3) distinct_due_rows[OF assms(3)] this run]
  obtain t' f where *: "T (er_world n') = Some t'"
    "\<forall>s. s \<notin> fst ` set (due_rows now t) \<longrightarrow> map_of t' s = map_of t s" "txns (er_calls n') = txns (er_calls n1) @ f"
    "list_all2 (fired_row cd (now + ttl) t') (filter (readable cd) (due_rows now t)) f"
    "\<forall>r \<in> set (due_rows now t). \<not> readable cd r \<longrightarrow> map_of t' (fst r) = None"
    by blast
  have "\<forall>s. \<not> due_in now s t \<longrightarrow> s \<notin> fst ` set (due_rows now t)"
    using due_rows_iff[OF assms(3), of _ _ now] by (auto simp: due_in_def split: option.splits)
  then show ?thesis using * n1(3) by (auto intro!: exI[where x = t'] exI[where x = f])
qed

end

end
