(* ===== verification/Wills_Node.thy ===== *)
theory Wills_Node
  imports Wills_Table
begin

text \<open>
  A node that keeps the table of wills: the statements of \<open>src/src/wills.rs\<close> executed by their text, all or none. What the node does
  with its users' calls (\<open>users\<close>) and the JSON of wills and of lists (\<open>will_json\<close>) stay arguments.
\<close>

section \<open>Executing the statements\<close>

text \<open>The values the statements take and give: texts, numbers, and a row of the listing (session and payload).\<close>

datatype sqlv = TextV string | NumV nat | RowV string string

record will_json =
  wj_texts :: "string list \<Rightarrow> string"
  wj_each :: "string \<Rightarrow> string list"
  wj_will :: "sqlv durable_will \<Rightarrow> string"
  wj_parse :: "string \<Rightarrow> sqlv durable_will option"

definition sql_codec :: "will_json \<Rightarrow> sqlv wcodec" where
  "sql_codec J = \<lparr>wc_text = TextV, wc_num = NumV, wc_texts = wj_texts J, wc_each = wj_each J, wc_will = wj_will J,
     wc_parse = wj_parse J,
     wc_column = (\<lambda>v c. case v of RowV s p \<Rightarrow> if c = ''session'' then Some s else if c = ''payload'' then Some p else None
                             | _ \<Rightarrow> None)\<rparr>"

definition exec_will :: "will_json \<Rightarrow> sqlv op \<Rightarrow> wills_table option \<Rightarrow> (sqlv op_result \<times> wills_table option) option" where
  "exec_will J q tbl =
    (if op_sql q = wills_schema then Some (Affected 0, Some (rows_of tbl))
     else case tbl of None \<Rightarrow> None | Some t \<Rightarrow>
       (case op_params q of
          [TextV s, NumV d, TextV p] \<Rightarrow> if op_sql q = insert_sql then Some (Affected 1, Some (put_row s d p t)) else None
        | [TextV s] \<Rightarrow> if op_sql q = delete_sql then Some (Affected (length t - length (bt_remove s t)), Some (bt_remove s t)) else None
        | [NumV d, TextV ss] \<Rightarrow>
            if op_sql q = refresh_sql
            then Some (Affected (length (filter (\<lambda>(s, r). s \<in> set (wj_each J ss)) t)), Some (push_deadlines (wj_each J ss) d t))
            else None
        | [NumV now] \<Rightarrow>
            if op_sql q = due_sql then Some (Rows (map (\<lambda>(s, d, c, p). RowV s p) (due_rows now t)), Some t) else None
        | [NumV u, TextV s, NumV now] \<Rightarrow>
            if op_sql q = claim_sql then Some (Affected (if due_in now s t then 1 else 0), Some (claim_row u s now t)) else None
        | _ \<Rightarrow> None))"

fun exec_wills :: "will_json \<Rightarrow> sqlv op list \<Rightarrow> wills_table option \<Rightarrow> (sqlv op_result list \<times> wills_table option) option" where
  "exec_wills J [] tbl = Some ([], tbl)"
| "exec_wills J (q # qs) tbl =
    (case exec_will J q tbl of None \<Rightarrow> None
     | Some (r, tbl) \<Rightarrow> (case exec_wills J qs tbl of None \<Rightarrow> None | Some (rs, tbl) \<Rightarrow> Some (r # rs, tbl)))"

definition sql_node :: "will_json \<Rightarrow> (sqlv, 'u) edge \<Rightarrow> (sqlv, wills_table option \<times> 'u) edge" where
  "sql_node J users q w =
    (case q of
       CallSystem ops opt \<Rightarrow>
         (case exec_wills J ops (fst w) of
            None \<Rightarrow> (Inl (bad_request ''SQL error''), w)
          | Some (rs, tbl) \<Rightarrow> (Inr \<lparr>tr_txn_id = ''txn'', tr_results = rs, tr_hash = None\<rparr>, tbl, snd w))
     | _ \<Rightarrow> (let (r, u) = users q (snd w) in (r, fst w, u)))"

text \<open>The five statements and the schema are different texts.\<close>

lemma statements_differ [simp]:
  "insert_sql \<noteq> wills_schema" "delete_sql \<noteq> wills_schema" "refresh_sql \<noteq> wills_schema" "due_sql \<noteq> wills_schema"
  "claim_sql \<noteq> wills_schema"
  by (simp_all add: wills_schema_def insert_sql_def delete_sql_def refresh_sql_def due_sql_def claim_sql_def)

interpretation wn: wills_node "sql_node J users" "sql_codec J" fst RowV
  for J and users :: "(sqlv, 'u) edge"
  by unfold_locales
    (auto simp: sql_node_def sql_codec_def wop_def exec_will_def rows_of_def split: option.splits prod.splits)

text \<open>What each submission comes to, for runs that are computed.\<close>

definition sql_ok :: "sqlv op_result list \<Rightarrow> sqlv txn_response" where
  "sql_ok rs = \<lparr>tr_txn_id = ''txn'', tr_results = rs, tr_hash = None\<rparr>"

lemma rows_of_Some [simp]: "rows_of (Some t) = t"
  by (simp add: rows_of_def)

lemma sql_runs:
  "sql_node J users (CallSystem [wop wills_schema [], wop insert_sql [TextV s, NumV d, TextV p]] b) w =
     (Inr (sql_ok [Affected 0, Affected 1]), Some (put_row s d p (rows_of (fst w))), snd w)"
  "\<exists>k. sql_node J users (CallSystem [wop wills_schema [], wop delete_sql [TextV s]] b) w =
     (Inr (sql_ok [Affected 0, Affected k]), Some (bt_remove s (rows_of (fst w))), snd w)"
  "\<exists>k. sql_node J users (CallSystem [wop wills_schema [], wop refresh_sql [NumV d, TextV js]] b) w =
     (Inr (sql_ok [Affected 0, Affected k]), Some (push_deadlines (wj_each J js) d (rows_of (fst w))), snd w)"
  "sql_node J users (CallSystem [wop due_sql [NumV now]] b) (Some t, u) =
     (Inr (sql_ok [Rows (map (\<lambda>(s, d, c, p). RowV s p) (due_rows now t))]), Some t, u)"
  "sql_node J users (CallSystem [wop claim_sql [NumV l, TextV s, NumV now]] b) (Some t, u) =
     (Inr (sql_ok [Affected (if due_in now s t then 1 else 0)]), Some (claim_row l s now t), u)"
  "\<exists>k. sql_node J users (CallSystem [wop delete_sql [TextV s]] b) (Some t, u) =
     (Inr (sql_ok [Affected k]), Some (bt_remove s t), u)"
  "sql_node J users (will_txn w') w = (let (r, u) = users (will_txn w') (snd w) in (r, fst w, u))"
  by (auto simp: sql_node_def wop_def exec_will_def sql_ok_def will_txn_def split: option.splits)

lemma sql_codec_fields [simp]:
  "wc_text (sql_codec J) = TextV" "wc_num (sql_codec J) = NumV" "wc_texts (sql_codec J) = wj_texts J" "wc_each (sql_codec J) = wj_each J"
  "wc_will (sql_codec J) = wj_will J" "wc_parse (sql_codec J) = wj_parse J"
  "wc_column (sql_codec J) (RowV s p) ''session'' = Some s" "wc_column (sql_codec J) (RowV s p) ''payload'' = Some p"
  by (simp_all add: sql_codec_def)

end
