(* ===== verification/Api_Props.thy ===== *)
theory Api_Props
  imports Api Wills_Node
begin

text \<open>
  Properties of the edge of a node: what a caller with a capability can make the node do, and how long; how wills are kept, fired
  and lost.
\<close>

section \<open>Confinement\<close>

definition granted :: "capability \<Rightarrow> string \<Rightarrow> string list \<Rightarrow> bool" where
  "granted c verb objects = list_all (\<lambda>ob. allows c ob verb) objects"

text \<open>What the node may be asked on behalf of a capability: transactions under it on objects it grants, polls of objects it
  grants, and the row of the connection's own will, holding such a transaction.\<close>

definition own_will :: "'v wcodec \<Rightarrow> string \<Rightarrow> capability \<Rightarrow> 'v op list \<Rightarrow> bool" where
  "own_will cd session c ops \<longleftrightarrow>
     ops = [wop wills_schema [], wop delete_sql [wc_text cd session]]
     \<or> (\<exists>d w. ops = [wop wills_schema [], wop insert_sql [wc_text cd session, wc_num cd d, wc_text cd (wc_will cd w)]]
          \<and> dw_cap w = Some c \<and> granted c ''write'' (dw_objects w))"

definition data_call :: "capability \<Rightarrow> 'v call \<Rightarrow> bool" where
  "data_call c q =
    (case q of
       CallTxn cap objects ops ro opt \<Rightarrow> cap = Some c \<and> granted c (if ro then ''read'' else ''write'') objects
     | CallPoll ob sql params durable baseline conn fr \<Rightarrow> allows c ob ''poll''
     | CallSystem ops opt \<Rightarrow> False)"

definition confined :: "'v wcodec \<Rightarrow> string \<Rightarrow> capability \<Rightarrow> 'v call \<Rightarrow> bool" where
  "confined cd session c q \<longleftrightarrow> data_call c q \<or> (\<exists>ops opt. q = CallSystem ops opt \<and> own_will cd session c ops)"

definition will_confined :: "capability \<Rightarrow> 'v sess \<Rightarrow> bool" where
  "will_confined c s = (case se_will s of None \<Rightarrow> True | Some w \<Rightarrow> aw_cap w = Some c \<and> granted c ''write'' (aw_objects w))"

lemma authorize_granted: "authorize debug (Cap c) objects verb = Inr u \<longleftrightarrow> granted c verb objects"
  by (auto simp: granted_def list_all_iff find_None_iff find_Some_iff split: option.splits)

lemma will_confined_simps [simp]:
  "will_confined c (s\<lparr>se_outstanding := x\<rparr>) = will_confined c s"
  "will_confined c (s\<lparr>se_armed := y\<rparr>) = will_confined c s"
  "will_confined c (s\<lparr>se_will := None\<rparr>)"
  "will_confined c (s\<lparr>se_will := Some w\<rparr>) \<longleftrightarrow> aw_cap w = Some c \<and> granted c ''write'' (aw_objects w)"
  by (simp_all add: will_confined_def)

lemma asks_sweep_polls [simp]: "acts I P Q (sweep_polls conn ps) \<longleftrightarrow> Q ()"
  by (induction ps) (auto simp: sweep_polls_def)

lemma own_will_rows [simp]:
  "own_will cd session c [wop wills_schema [], wop delete_sql [wc_text cd session]]"
  "dw_cap w = Some c \<Longrightarrow> granted c ''write'' (dw_objects w)
    \<Longrightarrow> own_will cd session c [wop wills_schema [], wop insert_sql [wc_text cd session, wc_num cd d, wc_text cd (wc_will cd w)]]"
  by (auto simp: own_will_def)

lemma confined_simps [simp]:
  "confined cd session c (CallTxn cap objects ops ro opt) \<longleftrightarrow> cap = Some c \<and> granted c (if ro then ''read'' else ''write'') objects"
  "confined cd session c (CallPoll ob sql params durable baseline conn fr) \<longleftrightarrow> granted c ''poll'' [ob]"
  "confined cd session c (CallSystem ops' opt) \<longleftrightarrow> own_will cd session c ops'"
  by (simp_all add: confined_def data_call_def granted_def)

lemma data_call_simps [simp]:
  "data_call c (CallTxn cap objects ops ro opt) \<longleftrightarrow> cap = Some c \<and> granted c (if ro then ''read'' else ''write'') objects"
  "data_call c (CallPoll ob sql params durable baseline conn fr) \<longleftrightarrow> granted c ''poll'' [ob]"
  by (simp_all add: data_call_def granted_def)

lemma asks_arm_frame: "acts (will_confined c) (confined cd session c) (\<lambda>_. True) (arm_frame cd debug en (Cap c) session i w)"
  by (auto simp: arm_frame_def persist_will_def arm_def authorize_granted simp del: authorize.simps split: sum.split)

lemma asks_disarm_frame: "acts (will_confined c) (confined cd session c) (\<lambda>_. True) (disarm_frame cd session i)"
  by (simp add: disarm_frame_def disarm_def)

lemma acts_frame:
  "acts (will_confined c) (confined cd (will_session_id (en_tag en) conn) c) (\<lambda>_. True) (handle_ws_frame cd debug en (Cap c) conn text)"
  unfolding handle_ws_frame_def cancel_frame_def poll_frame_def txn_frame_def Let_def
  by (auto simp: authorize_granted asks_arm_frame asks_disarm_frame simp del: authorize.simps split: sum.split option.split)

lemma acts_close:
  "acts (will_confined c) (confined cd (will_session_id (en_tag en) conn) c) (\<lambda>_. True) (close_session cd en conn)"
  by (auto simp: close_session_def disarm_def run_will_def will_confined_def Let_def split: option.split)

lemma acts_life:
  "acts (will_confined c) (confined cd (will_session_id (en_tag en) conn) c) (\<lambda>_. True) (conn_life cd debug en (Cap c) conn ts)"
proof (induction ts)
  case Nil
  then show ?case by (simp add: acts_close)
next
  case (Cons t ts)
  then show ?case by (auto intro!: acts_mono[OF acts_frame] acts_mono[OF Cons.IH])
qed

text \<open>Replies that only the holder of the root token or of the cluster secret may get.\<close>

definition root_reply :: "('v, 's) http_reply \<Rightarrow> bool" where
  "root_reply r \<longleftrightarrow> (case r of HttpObjects _ \<Rightarrow> True | HttpMinted _ _ \<Rightarrow> True | HttpStats _ \<Rightarrow> True | HttpRpc _ \<Rightarrow> True
     | HttpUpgraded a \<Rightarrow> a = Root | _ \<Rightarrow> False)"

lemma plain_replies [simp]: "\<not> root_reply (HttpError e)" "\<not> root_reply (http_answer HttpTxn x)"
    "\<not> root_reply (http_answer (\<lambda>x. HttpResult x None) y)" "\<not> root_reply (http_answer (\<lambda>(x, h). HttpResult x h) z)"
    "\<not> root_reply (HttpHealth k l m)" "http_answer f (Inl e) = HttpError e"
  by (auto simp: root_reply_def http_answer_def split: sum.split)

lemma acts_route: "acts I (data_call c) (\<lambda>r. \<not> root_reply r) (http_route nd now debug (Cap c) conn req)"
  by (auto simp: http_route_def txn_handler_def exec_handler_def query_handler_def poll_handler_def grant_handler_def list_objects_def
      stats_handler_def authorize_granted simp del: authorize.simps split: sum.split exec_body.split http_request.split)

text \<open>C13: A connection whose caller holds a capability never makes the node act beyond it, whatever frames it sends, at whatever
  moment submissions fail or lose their answers, and whatever its concurrent frames do in between: every transaction runs under the
  capability and only on objects it may read or write, every poll on an object it may poll, and of the wills it reaches only the
  row of its own session, for a will that is confined in the same way. That holds to the will run at the close.\<close>

theorem connections_stay_confined:
  assumes "run_act N (conn_life cd debug en (Cap c) conn texts) n = (x, n')"
    and "er_sess n = session_open armed" "er_calls n = []" "keeps_sess (will_confined c) (er_script n)"
  shows "list_all (\<lambda>(q, a). confined cd (will_session_id (en_tag en) conn) c q) (er_calls n')"
proof -
  have "will_confined c (er_sess n)" using assms(2) by (simp add: session_open_def will_confined_def)
  from run_asks[OF acts_life this assms(4,1)] show ?thesis using assms(3) by (auto simp: list_all_iff)
qed

text \<open>A client that may read and insert, and an echoing node.\<close>

definition read_frame :: "string \<Rightarrow> nat ws_frame" where
  "read_frame ob = \<lparr>wf_id = 1, wf_objects = [ob], wf_ops = [\<lparr>op_object = ob, op_sql = ''SELECT 1'', op_params = []\<rparr>],
     wf_read_only = True, wf_optimistic = False, wf_poll = None, wf_cancel = False, wf_will = None\<rparr>"

definition echo_node :: "(nat, nat) edge" where
  "echo_node q k = (Inr \<lparr>tr_txn_id = ''txn'', tr_results = [Affected k], tr_hash = None\<rparr>, k + 1)"

definition echo_run :: "nat \<Rightarrow> (nat, nat) turn list \<Rightarrow> (nat, nat) edge_run" where
  "echo_run t sc = \<lparr>er_world = 0, er_sess = session_open [], er_ms = t, er_script = sc, er_calls = []\<rparr>"

lemma echo_run_fields [simp]: "er_script (echo_run t sc) = sc" "er_calls (echo_run t sc) = []" "er_sess (echo_run t sc) = session_open []"
  "er_ms (echo_run t sc) = t"
  by (simp_all add: echo_run_def)

definition echo_codec :: "nat wcodec" where
  "echo_codec = \<lparr>wc_text = length, wc_num = (\<lambda>n. n), wc_texts = concat, wc_each = (\<lambda>s. [s]), wc_will = (\<lambda>w. []), wc_parse = (\<lambda>p. None),
     wc_column = (\<lambda>v c. None)\<rparr>"

lemma connections_stay_confined_witness:
  "list_all (\<lambda>(q, a). confined echo_codec (will_session_id (Some ''a'') 1) demo_cap q)
     (er_calls (snd (run_act echo_node (conn_life echo_codec id \<lparr>en_tag = Some ''a'', en_durable_wills = True, en_will_ttl = 60\<rparr> (Cap demo_cap) 1
       [Inr (read_frame ''user-7-x''), Inr (read_frame ''other'')]) (echo_run 0 [Unanswered (internal ''lost''), Served]))))"
proof -
  let ?en = "\<lparr>en_tag = Some ''a'', en_durable_wills = True, en_will_ttl = 60\<rparr>"
  let ?n = "echo_run 0 [Unanswered (internal ''lost''), Served]"
  obtain x n' where r: "run_act echo_node (conn_life echo_codec id ?en (Cap demo_cap) 1 [Inr (read_frame ''user-7-x''), Inr (read_frame ''other'')]) ?n = (x, n')"
    by fastforce
  from connections_stay_confined[OF r] show ?thesis unfolding r by (simp add: keeps_sess_def)
qed

definition demo_keys :: auth_keys where
  "demo_keys = \<lparr>ak_mac = (\<lambda>k p. rev p), ak_of_json = (\<lambda>p. if p = [1, 2] then Some demo_cap else None), ak_secret = ''k'', ak_token = Some ''root''\<rparr>"

definition demo_token :: string where
  "demo_token = mint (\<lambda>k p. rev p) (\<lambda>c. [1, 2]) ''k'' demo_cap"

lemma demo_verifies: "verify (ak_mac demo_keys) (ak_of_json demo_keys) now (ak_secret demo_keys) demo_token = Ret (if now < 100 then Some demo_cap else None)"
  unfolding demo_token_def demo_keys_def auth_keys.simps by (subst verify_mint) (simp_all add: demo_cap_def)

lemma demo_token_text: "is_ascii (''Bearer '' @ demo_token) \<and> demo_token \<noteq> ''root''"
  unfolding demo_token_def by code_simp

lemma verify_no_panic:
  assumes "is_ascii t"
  shows "verify mac of_json now secret t \<noteq> Panic"
proof (cases "Option.bind (strip_prefix token_prefix t) (split_once (CHR ''.''))")
  case None
  then show ?thesis by (simp add: verify_def)
next
  case (Some ps)
  obtain p s where ps: "ps = (p, s)" by fastforce
  have "t = token_prefix @ p @ ''.'' @ s"
    using Some ps by (auto simp: bind_eq_Some_conv strip_prefix_eq_Some split_once_eq_Some)
  then have "is_ascii p" "is_ascii s" using assms by (auto simp: is_ascii_def)
  then obtain a b where "unhex p = Ret a" "unhex s = Ret b"
    by (metis rust.exhaust unhex_ascii_no_panic)
  then show ?thesis using Some ps by (auto simp: verify_def split: option.split)
qed

lemma trim_text_set: "set (trim_text s) \<subseteq> set s"
proof
  fix x assume "x \<in> set (trim_text s)"
  then show "x \<in> set s" by (auto simp: trim_text_def dest!: set_dropWhileD)
qed

lemma split_on_set: "t \<in> set (split_on c s) \<Longrightarrow> set t \<subseteq> set s"
proof (induction c s arbitrary: t rule: split_on.induct)
  case (1 c s)
  show ?case
  proof (cases "split_once c s")
    case None
    then show ?thesis using 1(2) by (simp add: split_on.simps[of c s])
  next
    case (Some ab)
    obtain a b where ab: "ab = (a, b)" by fastforce
    have "t = a \<or> t \<in> set (split_on c b)" using 1(2) Some ab by (simp add: split_on.simps[of c s])
    then show ?thesis using 1(1)[OF Some ab[symmetric]] Some ab by (auto simp: split_once_eq_Some)
  qed
qed

lemma subprotocol_ascii:
  assumes "case protos of None \<Rightarrow> True | Some p \<Rightarrow> is_ascii p" "t \<in> set (subprotocol_tokens protos)"
  shows "is_ascii t"
proof -
  obtain p u where p: "protos = Some p" "u \<in> set (split_on (CHR '','') p)" "strip_prefix ''fafo-token.'' (trim_text u) = Some t"
    using assms(2) by (auto simp: subprotocol_tokens_def map_filter_def split: option.splits)
  have "set t \<subseteq> set (trim_text u)" using p(3) by (auto simp: strip_prefix_eq_Some)
  then have "set t \<subseteq> set p" using trim_text_set[of u] split_on_set[OF p(2)] by blast
  then show ?thesis using assms(1) p(1) by (auto simp: is_ascii_def list_all_iff)
qed

text \<open>Any token but the root token resolves to what it verifies to.\<close>

lemma resolves:
  assumes "is_ascii t" "t \<noteq> root"
  shows "\<exists>v. verify (ak_mac keys) (ak_of_json keys) now (ak_secret keys) t = Ret v \<and> resolve_auth keys now root t = Ret (map_option Cap v)"
proof -
  obtain v where "verify (ak_mac keys) (ak_of_json keys) now (ak_secret keys) t = Ret v" by (metis rust.exhaust verify_no_panic[OF assms(1)])
  then show ?thesis using assms(2) by (simp add: resolve_auth_def)
qed

lemma find_never_root:
  assumes "\<forall>t \<in> set ts. is_ascii t \<and> t \<noteq> root"
  shows "\<exists>a. find_auth (resolve_auth keys now root) ts = Ret a \<and> a \<noteq> Some Root"
  using assms
proof (induction ts)
  case (Cons t ts)
  obtain v where v: "resolve_auth keys now root t = Ret (map_option Cap v)" using resolves[of t root keys now] Cons.prems by auto
  then show ?case using Cons.IH Cons.prems by (cases v) auto
qed simp

lemma bearer_never_root:
  assumes "h \<noteq> Some (''Bearer '' @ root)" "case h of None \<Rightarrow> True | Some h \<Rightarrow> is_ascii h"
  shows "\<exists>a. bearer_auth keys now root h = Ret a \<and> (case a of None \<Rightarrow> True | Some Root \<Rightarrow> False
     | Some (Cap c) \<Rightarrow> \<exists>t. h = Some (''Bearer '' @ t) \<and> verify (ak_mac keys) (ak_of_json keys) now (ak_secret keys) t = Ret (Some c))"
proof (cases "Option.bind h (strip_prefix ''Bearer '')")
  case None
  then show ?thesis by (simp add: bearer_auth_def)
next
  case (Some t)
  then have t: "h = Some (''Bearer '' @ t)" by (auto simp: bind_eq_Some_conv strip_prefix_eq_Some)
  then have "is_ascii t" "t \<noteq> root" using assms by (auto simp: is_ascii_def)
  then obtain v where v: "verify (ak_mac keys) (ak_of_json keys) now (ak_secret keys) t = Ret v" "resolve_auth keys now root t = Ret (map_option Cap v)"
    using resolves by blast
  then show ?thesis using Some t by (cases v) (auto simp: bearer_auth_def)
qed

text \<open>A request that bears neither the root token nor the cluster secret, with headers of ASCII text (which is what a header is).\<close>

definition unprivileged :: "string \<Rightarrow> string \<Rightarrow> 'v node_request \<Rightarrow> bool" where
  "unprivileged root secret req \<longleftrightarrow>
     (case req of
        Gated h q \<Rightarrow> h \<noteq> Some (''Bearer '' @ root) \<and> (case h of None \<Rightarrow> True | Some h \<Rightarrow> is_ascii h)
      | GetHealthz \<Rightarrow> True
      | PostRpc h q \<Rightarrow> h \<noteq> Some secret
      | GetWs h protos \<Rightarrow> h \<noteq> Some (''Bearer '' @ root) \<and> (case h of None \<Rightarrow> True | Some h \<Rightarrow> is_ascii h)
          \<and> root \<notin> set (subprotocol_tokens protos) \<and> (case protos of None \<Rightarrow> True | Some p \<Rightarrow> is_ascii p))"

lemma upgrade_never_root:
  assumes "unprivileged root (ak_secret keys) (GetWs h protos)" "ak_token keys = Some root"
  shows "\<exists>a. ws_handler keys now h protos = Ret a \<and> a \<noteq> Inr Root"
proof -
  have "\<forall>t \<in> set (subprotocol_tokens protos). is_ascii t \<and> t \<noteq> root"
    using assms(1) subprotocol_ascii[of protos] by (auto simp: unprivileged_def)
  from find_never_root[OF this] obtain f where f: "find_auth (resolve_auth keys now root) (subprotocol_tokens protos) = Ret f" "f \<noteq> Some Root" by blast
  obtain a where a: "bearer_auth keys now root h = Ret a" "a \<noteq> Some Root"
    using bearer_never_root[of h root keys now] assms(1) by (force simp: unprivileged_def)
  show ?thesis using assms(2) a f by (auto simp: ws_handler_def split: option.splits)
qed

text \<open>C14: On every route of a node with a root token, a request whose headers are ASCII text (all that \<open>to_str\<close> lets through) and that
  bears neither that token nor the cluster secret makes the node do only what the capability allows that its bearer token verifies to, and nothing without one; and it is never
  answered with the list of objects, the counters, a minted token, an answer meant for another node or a connection with the
  root's powers; and no check of a token panics.\<close>

theorem requests_need_their_token:
  assumes "ak_token (an_keys nd) = Some token" "unprivileged token (ak_secret (an_keys nd)) req"
  shows "\<exists>p. router nd now debug conn req = Ret p \<and>
    (\<forall>N n r n'. run_act N p n = (r, n') \<longrightarrow> er_calls n = [] \<longrightarrow> \<not> root_reply r \<and>
       (er_calls n' = [] \<or> (\<exists>q c t. req = Gated (Some (''Bearer '' @ t)) q
          \<and> verify (ak_mac (an_keys nd)) (ak_of_json (an_keys nd)) now (ak_secret (an_keys nd)) t = Ret (Some c)
          \<and> list_all (\<lambda>(q, a). data_call c q) (er_calls n'))))"
proof -
  have plain: ?thesis if "router nd now debug conn req = Ret (Fin x)" "\<not> root_reply x" for x
    using that by simp
  show ?thesis
  proof (cases req)
    case (Gated h q)
    obtain a where a: "bearer_auth (an_keys nd) now token h = Ret a" "case a of None \<Rightarrow> True | Some Root \<Rightarrow> False
       | Some (Cap c) \<Rightarrow> \<exists>t. h = Some (''Bearer '' @ t) \<and> verify (ak_mac (an_keys nd)) (ak_of_json (an_keys nd)) now (ak_secret (an_keys nd)) t = Ret (Some c)"
      using bearer_never_root[of h token "an_keys nd" now] assms(2) Gated by (auto simp: unprivileged_def)
    consider "a = None" | c where "a = Some (Cap c)" using a(2) by (cases a; cases "the a") auto
    then show ?thesis
    proof cases
      case 1
      then show ?thesis using plain assms(1) a(1) Gated by (simp add: router_def require_api_token_def)
    next
      case (2 c)
      then obtain t where t: "h = Some (''Bearer '' @ t)"
          "verify (ak_mac (an_keys nd)) (ak_of_json (an_keys nd)) now (ak_secret (an_keys nd)) t = Ret (Some c)" using a(2) by auto
      have "router nd now debug conn req = Ret (http_route nd now debug (Cap c) conn q)"
        using assms(1) a(1) 2 Gated by (simp add: router_def require_api_token_def)
      moreover have "\<not> root_reply r \<and> list_all (\<lambda>(q, a). data_call c q) (er_calls n')"
        if "run_act N (http_route nd now debug (Cap c) conn q) n = (r, n')" "er_calls n = []" for N n r n'
        using run_asks[OF acts_route[of "\<lambda>_. True"] _ _ that(1)] that(2) by (auto simp: list_all_iff keeps_sess_def)
      ultimately show ?thesis using t Gated by blast
    qed
  next
    case (GetWs h protos)
    then obtain a where "ws_handler (an_keys nd) now h protos = Ret a" "a \<noteq> Inr Root"
      using upgrade_never_root[of token "an_keys nd" h protos now] assms by auto
    then show ?thesis using plain GetWs by (cases a) (auto simp: router_def http_answer_def root_reply_def)
  qed (use plain assms(2) in \<open>simp_all add: router_def healthz_def rpc_handler_def unprivileged_def Let_def\<close>)
qed

definition demo_api :: "(nat, nat) api_node" where
  "demo_api = \<lparr>an_keys = demo_keys, an_to_json = (\<lambda>c. [1, 2]), an_listing = Inr [''objects/x.db''], an_stats = 3, an_claimed = 4,
     an_env = (\<lambda>_. None), an_rpc = (\<lambda>_. Ret OkRs)\<rparr>"

lemma requests_need_their_token_witness:
  "\<exists>p p'. router demo_api 50 id 1 (Gated (Some (''Bearer '' @ demo_token)) (PostQuery ''user-7-x'' \<lparr>st_sql = ''SELECT 1'', st_params = []\<rparr>)) = Ret p
     \<and> list_all (\<lambda>(q, a). data_call demo_cap q) (er_calls (snd (run_act echo_node p (echo_run 0 []))))
     \<and> router demo_api 50 id 1 (Gated (Some (''Bearer '' @ demo_token)) (PostGrant [\<lparr>g_objects = ''*'', g_verbs = [''write'']\<rparr>] 60 None)) = Ret p'
     \<and> \<not> root_reply (fst (run_act echo_node p' (echo_run 0 [])))"
proof -
  have t: "ak_token (an_keys demo_api) = Some ''root''" by (simp add: demo_api_def demo_keys_def)
  have u: "unprivileged ''root'' (ak_secret (an_keys demo_api)) (Gated (Some (''Bearer '' @ demo_token)) q)" for q :: "nat http_request"
    using demo_token_text by (simp add: unprivileged_def)
  let ?q = "Gated (Some (''Bearer '' @ demo_token)) (PostQuery ''user-7-x'' \<lparr>st_sql = ''SELECT 1'', st_params = [] :: nat list\<rparr>)"
  let ?g = "Gated (Some (''Bearer '' @ demo_token)) (PostGrant [\<lparr>g_objects = ''*'', g_verbs = [''write'']\<rparr>] 60 None) :: nat node_request"
  have v: "verify (ak_mac (an_keys demo_api)) (ak_of_json (an_keys demo_api)) 50 (ak_secret (an_keys demo_api)) demo_token = Ret (Some demo_cap)"
    by (simp add: demo_api_def demo_verifies)
  obtain p where p: "router demo_api 50 id 1 ?q = Ret p"
    "\<forall>(N :: (nat, nat) edge) n r n'. run_act N p n = (r, n') \<longrightarrow> er_calls n = [] \<longrightarrow> \<not> root_reply r \<and>
       (er_calls n' = [] \<or> (\<exists>q c t. ?q = Gated (Some (''Bearer '' @ t)) q
          \<and> verify (ak_mac (an_keys demo_api)) (ak_of_json (an_keys demo_api)) 50 (ak_secret (an_keys demo_api)) t = Ret (Some c)
          \<and> list_all (\<lambda>(q, a). data_call c q) (er_calls n')))"
    using requests_need_their_token[OF t u, of 50 id 1] by blast
  obtain p' where p': "router demo_api 50 id 1 ?g = Ret p'"
    "\<forall>(N :: (nat, nat) edge) n r n'. run_act N p' n = (r, n') \<longrightarrow> er_calls n = [] \<longrightarrow> \<not> root_reply r \<and>
       (er_calls n' = [] \<or> (\<exists>q c t. ?g = Gated (Some (''Bearer '' @ t)) q
          \<and> verify (ak_mac (an_keys demo_api)) (ak_of_json (an_keys demo_api)) 50 (ak_secret (an_keys demo_api)) t = Ret (Some c)
          \<and> list_all (\<lambda>(q, a). data_call c q) (er_calls n')))"
    using requests_need_their_token[OF t u, of 50 id 1] by blast
  obtain r n1 r' n2 where r: "run_act echo_node p (echo_run 0 []) = (r, n1)" "run_act echo_node p' (echo_run 0 []) = (r', n2)" by fastforce
  have "list_all (\<lambda>(q, a). data_call demo_cap q) (er_calls n1)"
    using p(2)[rule_format, OF r(1)] v by auto
  moreover have "\<not> root_reply r'" using p'(2)[rule_format, OF r(2)] by simp
  ultimately show ?thesis using p(1) p'(1) r by auto
qed

section \<open>Minting and forwarding\<close>

text \<open>A token minted by the handler is honoured on the data routes until it expires: the request runs under just the grants asked for.\<close>

lemma granted_token_honoured:
  assumes "grant_handler to_json debug keys Root now grants ttl sub = Inr (token, expiry)"
    and "\<And>c. of_json (to_json c) = Some c" "ak_of_json keys = of_json" "ak_token keys = Some root" "token \<noteq> root" "later < unat expiry"
    and "an_keys nd = keys"
  shows "router nd later debug conn (Gated (Some (''Bearer '' @ token)) req)
    = Ret (http_route nd later debug (Cap \<lparr>cap_grants = grants, cap_exp = unat (now + ttl), cap_sub = sub\<rparr>) conn req)"
proof -
  let ?c = "\<lparr>cap_grants = grants, cap_exp = unat (now + ttl), cap_sub = sub\<rparr>"
  have t: "token = mint (ak_mac keys) to_json (ak_secret keys) ?c" "expiry = now + ttl"
    using assms(1) by (auto simp: grant_handler_def Let_def split: if_splits option.splits)
  have bind: "Option.bind (Some (''Bearer '' @ token)) (strip_prefix ''Bearer '') = Some token"
    by (simp only: Option.bind.simps strip_prefix_append)
  have "verify (ak_mac keys) (ak_of_json keys) later (ak_secret keys) token = Ret (Some ?c)"
    unfolding t(1) by (subst verify_mint) (use assms(2,3,6) t(2) in auto)
  then show ?thesis
    using assms(4,5,7) unfolding router_def require_api_token_def bearer_auth_def by (simp only: node_request.case bind assms(7)) (simp add: resolve_auth_def)
qed

text \<open>A transaction sent to another node comes back as that node's own answer to it, errors included.\<close>

lemma forwarded_is_received:
  assumes "submit_received w eb r ids = Ret x" "\<And>e. x = Inl e \<Longrightarrow> from_u16 (ae_status e) = Some (ae_status e)"
  shows "\<exists>y. rpc_handler secret (Some secret) (handle_rpc w eb r take_at adopt_at (TxnRq ids ops ro opt cap)) = Ret (Inr y)
    \<and> forward_txn from_u16 (\<lambda>_ _. Inr y) base cap ids ops ro opt = x"
  using assms by (cases x) (auto simp: rpc_handler_def handle_rpc_def forward_txn_def from_wire_def to_wire_def)

end
