(* ===== verification/Will_Props.thy ===== *)
theory Will_Props
  imports Api_Props
begin

text \<open>
  Properties of durable wills on a node that keeps their table: what a sweep fires and what it leaves, what an acknowledged will is
  worth, and the ways one is fired against its owner's word or lost.
\<close>

section \<open>Sweeps\<close>

text \<open>C15: A sweep loses no will by itself: whatever submissions fail or lose their answers, as long as nothing else changes the table
  while it runs (C19 is what can happen then), a row that was not due is left as it was; a due row is left,
  or left claimed until the time-to-live from now, or removed, and removed only after its will ran with success, unless its payload cannot be
  read. What is fired are wills of due rows, each at most once, in the order of the sessions, under the grants frozen in them.\<close>

theorem sweep_keeps_wills:
  assumes "run_act (sql_node J users) (sweep (sql_codec J) now ttl) n = (x, n')"
    and "undisturbed (er_script n)" "fst (er_world n) = Some t" "bt_wf t"
  shows "\<exists>t' fired. fst (er_world n') = Some t' \<and> bt_wf t' \<and> txns (er_calls n') = txns (er_calls n) @ fired
    \<and> (\<forall>s. \<not> due_in now s t \<longrightarrow> map_of t' s = map_of t s)
    \<and> (\<forall>r \<in> set (due_rows now t). settled (sql_codec J) (now + ttl) t' fired r)
    \<and> subseq (map fst fired) (wills_of (sql_codec J) (due_rows now t))"
  using wn.sweep_outcome[OF assms(2,3,4,1)] by blast

text \<open>C16: On a calm node a sweep fires every due will, once, in the order of the sessions; the row of one that ran is gone, the row of one that was
  refused stays and is claimed, so that a later sweep tries again, and a row that cannot be read is dropped.\<close>

theorem calm_sweep_fires_every_will:
  assumes "run_act (sql_node J users) (sweep (sql_codec J) now ttl) n = (x, n')"
    and "er_script n = []" "fst (er_world n) = Some t" "bt_wf t"
  shows "\<exists>t' fired. fst (er_world n') = Some t' \<and> txns (er_calls n') = txns (er_calls n) @ fired
    \<and> (\<forall>s. \<not> due_in now s t \<longrightarrow> map_of t' s = map_of t s)
    \<and> list_all2 (fired_row (sql_codec J) (now + ttl) t') (filter (readable (sql_codec J)) (due_rows now t)) fired
    \<and> (\<forall>r \<in> set (due_rows now t). \<not> readable (sql_codec J) r \<longrightarrow> map_of t' (fst r) = None)"
  using wn.calm_sweep[OF assms(2,3,4,1)] by blast

section \<open>A will armed for the witnesses\<close>

definition farewell :: "sqlv durable_will" where
  "farewell = \<lparr>dw_objects = [''chat''], dw_ops = [\<lparr>op_object = ''chat'', op_sql = ''DELETE FROM members'', op_params = []\<rparr>],
     dw_optimistic = False, dw_cap = None\<rparr>"

definition demo_json :: will_json where
  "demo_json = \<lparr>wj_texts = concat, wj_each = (\<lambda>s. [s]), wj_will = (\<lambda>w. ''farewell''),
     wj_parse = (\<lambda>p. if p = ''farewell'' then Some farewell else None)\<rparr>"

text \<open>Users' calls are counted, and accepted or refused.\<close>

definition demo_users :: "bool \<Rightarrow> (sqlv, nat) edge" where
  "demo_users good q k = (if good then Inr \<lparr>tr_txn_id = ''txn'', tr_results = [], tr_hash = None\<rparr> else Inl (internal ''refused''), k + 1)"

definition demo_rows :: wills_table where
  "demo_rows = [(''a-1'', 100, 0, ''farewell''), (''b-7'', 900, 0, ''farewell''), (''c-2'', 50, 80, ''?'')]"

definition demo_run :: "(sqlv, wills_table option \<times> nat) turn list \<Rightarrow> (sqlv, wills_table option \<times> nat) edge_run" where
  "demo_run sc = \<lparr>er_world = (Some demo_rows, 0), er_sess = session_open [], er_ms = 500, er_script = sc, er_calls = []\<rparr>"

lemmas demo_defs = demo_run_def demo_users_def demo_json_def

lemma demo_rows_wf: "bt_wf demo_rows"
  by (simp add: demo_rows_def bt_wf_def)

text \<open>A sweep whose claim is lost on the way still fires; its delete never arrives, so the will stays.\<close>

lemma sweep_keeps_wills_witness:
  "\<exists>t'. let n' = snd (run_act (sql_node demo_json (demo_users True)) (sweep (sql_codec demo_json) 500 30)
       (demo_run [Served, Failed (internal ''down''), Served, Failed (internal ''down'')]))
     in fst (er_world n') = Some t' \<and> map_of t' ''b-7'' = Some (900, 0, ''farewell'')
        \<and> subseq (map fst (txns (er_calls n'))) (wills_of (sql_codec demo_json) (due_rows 500 demo_rows))"
proof -
  let ?n = "demo_run [Served, Failed (internal ''down''), Served, Failed (internal ''down'')]"
  obtain x n' where r: "run_act (sql_node demo_json (demo_users True)) (sweep (sql_codec demo_json) 500 30) ?n = (x, n')" using prod.exhaust by blast
  have start: "undisturbed (er_script ?n)" "fst (er_world ?n) = Some demo_rows" by (simp_all add: demo_run_def undisturbed_def)
  have none: "txns (er_calls ?n) = []" by (simp add: demo_run_def)
  have later: "\<not> due_in 500 ''b-7'' demo_rows" "map_of demo_rows ''b-7'' = Some (900, 0, ''farewell'')"
    by (simp_all add: demo_rows_def due_in_def is_due_def)
  from sweep_keeps_wills[OF r start demo_rows_wf, unfolded none append_Nil]
  obtain t' where *: "fst (er_world n') = Some t'" "\<forall>s. \<not> due_in 500 s demo_rows \<longrightarrow> map_of t' s = map_of demo_rows s"
    "subseq (map fst (txns (er_calls n'))) (wills_of (sql_codec demo_json) (due_rows 500 demo_rows))" by blast
  have "map_of t' ''b-7'' = Some (900, 0, ''farewell'')" using *(2) later by metis
  then show ?thesis unfolding r snd_conv Let_def using * by blast
qed

lemma calm_sweep_fires_every_will_witness:
  "\<exists>t'. fst (er_world (snd (run_act (sql_node demo_json (demo_users True)) (sweep (sql_codec demo_json) 500 30) (demo_run [])))) = Some t'
    \<and> map_of t' ''c-2'' = None \<and> map_of t' ''a-1'' \<in> {None, Some (100, 530, ''farewell'')}"
proof -
  obtain x n' where r: "run_act (sql_node demo_json (demo_users True)) (sweep (sql_codec demo_json) 500 30) (demo_run []) = (x, n')" using prod.exhaust by blast
  have due: "due_rows 500 demo_rows = [(''a-1'', 100, 0, ''farewell''), (''c-2'', 50, 80, ''?'')]"
    by (simp add: due_rows_def demo_rows_def is_due_def)
  have rd: "readable (sql_codec demo_json) (''a-1'', 100, 0, ''farewell'')" "\<not> readable (sql_codec demo_json) (''c-2'', 50, 80, ''?'')"
    by (simp_all add: readable_def sql_codec_def demo_json_def)
  have "er_script (demo_run []) = []" "fst (er_world (demo_run [])) = Some demo_rows" by (simp_all add: demo_run_def)
  from calm_sweep_fires_every_will[OF r this demo_rows_wf]
  obtain t' fired where "fst (er_world n') = Some t'" "map_of t' ''c-2'' = None"
    "list_all2 (fired_row (sql_codec demo_json) 530 t') [(''a-1'', 100, 0, ''farewell'')] fired"
    by (auto simp: due rd)
  then have "map_of t' ''a-1'' \<in> {None, Some (100, 530, ''farewell'')}" by (cases "is_ok (snd (hd fired))") (auto simp: fired_row_def list_all2_Cons1)
  then show ?thesis unfolding r snd_conv using \<open>fst (er_world n') = Some t'\<close> \<open>map_of t' ''c-2'' = None\<close> by blast
qed

section \<open>What arming leaves\<close>

text \<open>The will a frame would make durable.\<close>

definition durable_of :: "auth \<Rightarrow> string list \<Rightarrow> 'v will_body \<Rightarrow> 'v durable_will" where
  "durable_of auth ids w = \<lparr>dw_objects = ids, dw_ops = wb_ops w, dw_optimistic = wb_optimistic w, dw_cap = auth_cap auth\<rparr>"

definition arms :: "'v ws_frame \<Rightarrow> 'v will_body \<Rightarrow> bool" where
  "arms f w \<longleftrightarrow> \<not> wf_cancel f \<and> wf_will f = Some w \<and> wb_ops w \<noteq> []"

lemma list_all2_partner: "list_all2 P xs ys \<Longrightarrow> x \<in> set xs \<Longrightarrow> \<exists>y \<in> set ys. P x y"
  by (induction rule: list_all2_induct) auto

context wills_node
begin

lemma arming_outcome:
  assumes "undisturbed (er_script n)" "en_durable_wills en"
    "run_act N (arm_frame cd debug en auth session i w) n = (WillReply i' m, n')"
  shows "\<exists>ids. validate_txn (declared (wb_objects w) (wb_ops w)) (wb_ops w) = Inr ids
    \<and> T (er_world n') = Some (put_row session (er_ms n + en_will_ttl en) (wc_will cd (durable_of auth ids w)) (rows_of (T (er_world n))))"
proof -
  obtain ids where ids: "validate_txn (declared (wb_objects w) (wb_ops w)) (wb_ops w) = Inr ids"
    "\<exists>u. authorize debug auth ids ''write'' = Inr u"
    using assms(3) by (auto simp: arm_frame_def deny_def simp del: authorize.simps split: sum.splits)
  let ?q = "CallSystem [wop wills_schema [], wop insert_sql [wc_text cd session, wc_num cd (er_ms n + en_will_ttl en),
    wc_text cd (wc_will cd (durable_of auth ids w))]] False"
  obtain r n1 where c: "serve_call N ?q n = (r, n1)" by fastforce
  obtain x where x: "r = Inr x" "er_world n' = er_world n1"
    using assms(2,3) ids(2) c[unfolded durable_of_def]
    by (cases r) (auto simp: ids(1) arm_frame_def persist_will_def arm_def submit_def update_def deny_def simp del: authorize.simps)
  then show ?thesis using serve_undisturbed[OF assms(1) c] ids(1) by (auto dest!: arm_law)
qed

lemma calm_sweep_fires:
  assumes "er_script n = []" "T (er_world n) = Some t" "bt_wf t" "map_of t s = Some (d, c, p)" "d < now" "c < now"
    "wc_parse cd p = Some w" "run_act N (sweep cd now ttl) n = (x, n')"
  shows "will_txn w \<in> fst ` set (er_calls n')"
proof -
  obtain t' f where f: "txns (er_calls n') = txns (er_calls n) @ f"
    "list_all2 (fired_row cd (now + ttl) t') (filter (readable cd) (due_rows now t)) f"
    using calm_sweep[OF assms(1-3,8)] by blast
  have "(s, d, c, p) \<in> set (filter (readable cd) (due_rows now t))"
    using assms(3-7) by (simp add: due_rows_iff is_due_def readable_def)
  then obtain y where "y \<in> set f" "fst y = will_txn w"
    using list_all2_partner[OF f(2)] assms(7) by (fastforce simp: fired_row_def)
  then have "y \<in> set (txns (er_calls n'))" "fst y = will_txn w" by (simp_all add: f(1))
  then show ?thesis by (force simp: txns_def)
qed

end

text \<open>Reading a frame that arms or disarms.\<close>

lemma frame_arms:
  "arms f w \<Longrightarrow> run_act N (handle_ws_frame cd debug en auth conn (Inr f)) n =
    (case run_act N (arm_frame cd debug en auth (will_session_id (en_tag en) conn) (wf_id f) w) n of (r, n') \<Rightarrow> (Some r, n'))"
  by (simp add: arms_def handle_ws_frame_def Let_def run_act_bind)

lemma rows_wf: "(case tbl of None \<Rightarrow> True | Some t \<Rightarrow> bt_wf t) \<Longrightarrow> bt_wf (rows_of tbl)"
  by (cases tbl) (simp_all add: rows_of_def)

text \<open>C17: A will that was acknowledged as armed survives its node. Take any sweep by any node, its own or another, that finds the session's
  row with the payload it had after the acknowledgement, its deadline and claim passed; deadlines may have been pushed, the row claimed
  before, and every other row changed. The row is there, with the frame's operations and objects and the caller's grants; and
  whatever submissions of the sweep fail or lose their answers, either the will ran with success or the row is still there,
  unclaimed or claimed until the time-to-live from now, for a later sweep. A sweep whose submissions are all served runs
  the will. (Submissions of the arming frame may fail too; nothing else acts on the table while the frame or the sweep runs.)\<close>

theorem armed_will_survives_its_node:
  assumes "run_act (sql_node J users) (handle_ws_frame (sql_codec J) debug en auth conn (Inr f)) n = (Some (WillReply i ''armed''), n')"
    and "arms f w" "en_durable_wills en" "undisturbed (er_script n)" "case fst (er_world n) of None \<Rightarrow> True | Some t \<Rightarrow> bt_wf t"
    and "validate_txn (declared (wb_objects w) (wb_ops w)) (wb_ops w) = Inr ids"
    and "wj_parse J (wj_will J (durable_of auth ids w)) = Some (durable_of auth ids w)"
    and "run_act (sql_node J users') (sweep (sql_codec J) now ttl) m = (x, m')" "undisturbed (er_script m)" "er_calls m = []"
    and "fst (er_world m) = Some t" "bt_wf t" "s = will_session_id (en_tag en) conn"
    and "map_option (snd \<circ> snd) (map_of t s) = map_option (snd \<circ> snd) (map_of (rows_of (fst (er_world n'))) s)"
    and "\<forall>d c p. map_of t s = Some (d, c, p) \<longrightarrow> d < now \<and> c < now"
  shows "\<exists>d c p. map_of t s = Some (d, c, p) \<and> p = wj_will J (durable_of auth ids w)
      \<and> (map_of (rows_of (fst (er_world m'))) s \<in> {Some (d, c, p), Some (d, now + ttl, p)}
         \<or> (\<exists>y. (CallTxn (auth_cap auth) ids (wb_ops w) False (wb_optimistic w), Inr y) \<in> set (er_calls m')))
      \<and> (er_script m = [] \<longrightarrow> CallTxn (auth_cap auth) ids (wb_ops w) False (wb_optimistic w) \<in> fst ` set (er_calls m'))"
proof -
  let ?v = "durable_of auth ids w" and ?p = "wj_will J (durable_of auth ids w)"
  have q: "will_txn ?v = CallTxn (auth_cap auth) ids (wb_ops w) False (wb_optimistic w)" by (simp add: will_txn_def durable_of_def)
  have "run_act (sql_node J users) (arm_frame (sql_codec J) debug en auth s (wf_id f) w) n = (WillReply i ''armed'', n')"
    using assms(1) unfolding frame_arms[OF assms(2)] assms(13) by (auto split: prod.splits)
  from wn.arming_outcome[OF assms(4,3) this]
  have "map_of (rows_of (fst (er_world n'))) s = Some (er_ms n + en_will_ttl en, 0, ?p)"
    using assms(6) by (auto simp: row_simps rows_of_def)
  then obtain d c where row: "map_of t s = Some (d, c, ?p)" using assms(14) by (cases "map_of t s") auto
  then have due: "(s, d, c, ?p) \<in> set (due_rows now t)" "d < now" "c < now"
    using assms(12,15) by (simp_all add: due_rows_iff is_due_def)
  obtain t' fired where f: "fst (er_world m') = Some t'" "txns (er_calls m') = fired" "settled (sql_codec J) (now + ttl) t' fired (s, d, c, ?p)"
    using wn.sweep_outcome[OF assms(9,11,12,8)] due(1) assms(10) by auto
  have ran: "y \<in> set (er_calls m')" if "y \<in> set fired" for y using that f(2) by (auto simp: txns_def)
  have "map_of t' s \<in> {Some (d, c, ?p), Some (d, now + ttl, ?p)} \<or> (\<exists>y. (will_txn ?v, Inr y) \<in> set (er_calls m'))"
    using f(3) assms(7) ran by (auto simp: settled_def)
  moreover have "will_txn ?v \<in> fst ` set (er_calls m')" if "er_script m = []"
    by (rule wn.calm_sweep_fires[OF that assms(11,12) row due(2,3) _ assms(8)]) (use assms(7) in simp)
  ultimately show ?thesis using row f(1) unfolding q by (auto simp: rows_of_def)
qed

definition demo_edge :: edge_node where
  "demo_edge = \<lparr>en_tag = Some ''a'', en_durable_wills = True, en_will_ttl = 60\<rparr>"

definition demo_body :: "sqlv will_body" where
  "demo_body = \<lparr>wb_objects = [], wb_ops = dw_ops farewell, wb_optimistic = False\<rparr>"

definition will_frame :: "'v will_body \<Rightarrow> 'v ws_frame" where
  "will_frame w = \<lparr>wf_id = 7, wf_objects = [], wf_ops = [], wf_read_only = False, wf_optimistic = False, wf_poll = None,
     wf_cancel = False, wf_will = Some w\<rparr>"

lemma demo_ids: "validate_txn (declared (wb_objects demo_body) (wb_ops demo_body)) (wb_ops demo_body) = Inr [''chat'']"
  by (subst validate_accepts) (auto simp: demo_body_def farewell_def declared_def valid_id_def ascii_alnum_def)

lemma demo_durable: "durable_of Root [''chat''] demo_body = farewell"
  by (simp add: durable_of_def demo_body_def farewell_def)

lemma demo_arms: "arms (will_frame demo_body) demo_body"
  by (simp add: arms_def will_frame_def demo_body_def farewell_def)

lemma demo_armed:
  "\<exists>n'. run_act (sql_node demo_json users) (handle_ws_frame (sql_codec demo_json) debug demo_edge Root 3 (Inr (will_frame demo_body)))
     (demo_run []) = (Some (WillReply 7 ''armed''), n')
     \<and> fst (er_world n') = Some (put_row (will_session_id (Some ''a'') 3) 560 ''farewell'' demo_rows)"
  unfolding frame_arms[OF demo_arms]
  by (simp add: arm_frame_def demo_ids persist_will_def demo_edge_def arm_def submit_def update_def serve_call_def
      take_effect_def sql_runs demo_run_def will_frame_def rows_of_def demo_json_def)

text \<open>The node refreshes once more, dies, and another node's sweep finds the row as all that is left.\<close>

lemma armed_will_survives_its_node_witness:
  "CallTxn None [''chat''] (dw_ops farewell) False False \<in> fst ` set (er_calls (snd (run_act (sql_node demo_json (demo_users False))
        (sweep (sql_codec demo_json) 1000 30)
        \<lparr>er_world = (Some [(will_session_id (Some ''a'') 3, 700, 40, ''farewell'')], 0), er_sess = session_open [], er_ms = 1000, er_script = [], er_calls = []\<rparr>)))"
proof -
  obtain n' where r: "run_act (sql_node demo_json (demo_users True)) (handle_ws_frame (sql_codec demo_json) id demo_edge Root 3
      (Inr (will_frame demo_body))) (demo_run []) = (Some (WillReply 7 ''armed''), n')"
    "fst (er_world n') = Some (put_row (will_session_id (Some ''a'') 3) 560 ''farewell'' demo_rows)"
    using demo_armed by blast
  let ?t = "[(will_session_id (Some ''a'') 3, 700, 40, ''farewell'')] :: wills_table"
  let ?m = "\<lparr>er_world = (Some ?t, 0), er_sess = session_open [], er_ms = 1000, er_script = [], er_calls = []\<rparr> :: (sqlv, wills_table option \<times> nat) edge_run"
  obtain x m' where s: "run_act (sql_node demo_json (demo_users False)) (sweep (sql_codec demo_json) 1000 30) ?m = (x, m')"
    using prod.exhaust by blast
  have "\<exists>d c p. map_of ?t (will_session_id (Some ''a'') 3) = Some (d, c, p) \<and> p = wj_will demo_json (durable_of Root [''chat''] demo_body)
      \<and> (map_of (rows_of (fst (er_world m'))) (will_session_id (Some ''a'') 3) \<in> {Some (d, c, p), Some (d, 1000 + 30, p)}
         \<or> (\<exists>y. (CallTxn (auth_cap Root) [''chat''] (wb_ops demo_body) False (wb_optimistic demo_body), Inr y) \<in> set (er_calls m')))
      \<and> (er_script ?m = [] \<longrightarrow> CallTxn (auth_cap Root) [''chat''] (wb_ops demo_body) False (wb_optimistic demo_body) \<in> fst ` set (er_calls m'))"
    by (rule armed_will_survives_its_node[OF r(1) demo_arms _ _ _ demo_ids _ s, where t = ?t and s = "will_session_id (Some ''a'') 3"])
      (use demo_rows_wf in \<open>simp_all add: r(2) demo_durable demo_edge_def demo_run_def undisturbed_def demo_json_def bt_wf_def rows_of_def row_simps\<close>)
  then show ?thesis using s by (simp add: demo_body_def)
qed

text \<open>C18: A client that is told its will is disarmed may see it run: if the deletion of the durable copy fails, the answer is the same, and a
  later sweep fires the will.\<close>

theorem disarmed_will_fires:
  assumes "wf_will f = Some w" "wb_ops w = []" "\<not> wf_cancel f"
    and "map_of t (will_session_id (en_tag en) conn) = Some (d, c, p)" "bt_wf t" "wj_parse J p = Some v"
    and "er_world n = (Some t, u)" "er_script n = [Failed e]"
    and "run_act (sql_node J users') (sweep (sql_codec J) now ttl) m = (x, m')" "er_script m = []" "fst (er_world m) = Some t"
    and "d < now" "c < now"
  shows "\<exists>n'. run_act (sql_node J users) (handle_ws_frame (sql_codec J) debug en auth conn (Inr f)) n = (Some (WillReply (wf_id f) ''disarmed''), n')
    \<and> se_will (er_sess n') = None \<and> er_world n' = er_world n \<and> will_txn v \<in> fst ` set (er_calls m')"
proof -
  let ?s = "will_session_id (en_tag en) conn"
  let ?n' = "n\<lparr>er_script := [], er_sess := (er_sess n)\<lparr>se_will := None, se_armed := removeAll ?s (se_armed (er_sess n))\<rparr>\<rparr>"
  have run: "run_act (sql_node J users) (handle_ws_frame (sql_codec J) debug en auth conn (Inr f)) n = (Some (WillReply (wf_id f) ''disarmed''), ?n')"
    using assms(1-3,8)
    by (simp add: handle_ws_frame_def Let_def disarm_frame_def disarm_def update_def submit_def serve_call_def)
  have "will_txn v \<in> fst ` set (er_calls m')"
    by (rule wn.calm_sweep_fires[where s = ?s, OF assms(10,11,5,4,12,13) _ assms(9)]) (simp add: assms(6))
  then show ?thesis using run by auto
qed

lemma disarmed_will_fires_witness:
  "\<exists>n'. run_act (sql_node demo_json (demo_users True)) (handle_ws_frame (sql_codec demo_json) id demo_edge Root 1
      (Inr (will_frame \<lparr>wb_objects = [], wb_ops = [], wb_optimistic = False\<rparr>))) (demo_run [Failed (internal ''store'')])
      = (Some (WillReply 7 ''disarmed''), n')
    \<and> will_txn farewell \<in> fst ` set (er_calls (snd (run_act (sql_node demo_json (demo_users True)) (sweep (sql_codec demo_json) 500 30) (demo_run []))))"
proof -
  let ?w = "\<lparr>wb_objects = [], wb_ops = [], wb_optimistic = False\<rparr> :: sqlv will_body"
  obtain x m' where s: "run_act (sql_node demo_json (demo_users True)) (sweep (sql_codec demo_json) 500 30) (demo_run []) = (x, m')"
    using prod.exhaust by blast
  have a: "wf_will (will_frame ?w) = Some ?w" "wb_ops ?w = []" "\<not> wf_cancel (will_frame ?w)" by (simp_all add: will_frame_def)
  have one: "show_nat (Suc 0) = ''1''" by code_simp
  have b: "map_of demo_rows (will_session_id (en_tag demo_edge) 1) = Some (100, 0, ''farewell'')" "wj_parse demo_json ''farewell'' = Some farewell"
    by (simp_all add: demo_rows_def will_session_id_def demo_edge_def demo_json_def one)
  have c: "er_world (demo_run sc) = (Some demo_rows, 0)" "er_script (demo_run sc) = sc" for sc by (simp_all add: demo_run_def)
  have d: "wf_id (will_frame ?w) = 7" by (simp add: will_frame_def)
  show ?thesis
    unfolding s snd_conv
    using disarmed_will_fires[OF a b(1) demo_rows_wf b(2) c(1,2) s c(2), of "demo_users True" id Root "internal ''store''", unfolded d] c(1)
    by auto
qed

end
