(* ===== verification/Will_Races.thy ===== *)
theory Will_Races
  imports Will_Props
begin

text \<open>
  Interleavings at the edge of a node in which a will is lost or never runs, and a connection that outlives its token.
\<close>

lemma act_bind_submit: "act_bind (submit q) f = Call q f"
  by (simp add: submit_def)

section \<open>A sweep and a frame that arms again\<close>

text \<open>C19: A sweep can erase a will that was acknowledged meanwhile: it listed and claimed the session's lapsed will; before it fires it the session's
  connection arms another one, which is stored and acknowledged; the sweep runs the old will and then deletes the row, which is now the new one's.\<close>

theorem sweep_erases_rearmed_will:
  assumes "due_rows now t = [(s, d, c, p)]" "bt_wf t" "wj_parse J p = Some v" "\<And>k. \<exists>y k'. users (will_txn v) k = (Inr y, k')"
    and "arms f w" "s = will_session_id (en_tag en) conn" "en_durable_wills en"
    and "validate_txn (declared (wb_objects w) (wb_ops w)) (wb_ops w) = Inr ids" "authorize debug auth ids ''write'' = Inr ()"
    and "er_world n = (Some t, u)"
    and "er_script n = [Served, Served, Meanwhile (alone (sql_node J users) ms (handle_ws_frame (sql_codec J) debug en auth conn (Inr f)))]"
    and "run_act (sql_node J users) (sweep (sql_codec J) now ttl) n = (x, n')"
  shows "(\<exists>m. run_act (sql_node J users) (handle_ws_frame (sql_codec J) debug en auth conn (Inr f))
        \<lparr>er_world = (Some (claim_row (now + ttl) s now t), u), er_sess = er_sess n, er_ms = ms, er_script = [], er_calls = []\<rparr>
        = (Some (WillReply (wf_id f) ''armed''), m)
      \<and> map_of (rows_of (fst (er_world m))) s = Some (ms + en_will_ttl en, 0, wj_will J (durable_of auth ids w)))
    \<and> map_of (rows_of (fst (er_world n'))) s = None
    \<and> map fst (txns (er_calls n')) = map fst (txns (er_calls n)) @ [will_txn v]"
proof -
  let ?N = "sql_node J users"
  let ?frame = "handle_ws_frame (sql_codec J) debug en auth conn (Inr f)"
  let ?q = "put_row s (ms + en_will_ttl en) (wj_will J (durable_of auth ids w)) (claim_row (now + ttl) s now t)"
  let ?c = "\<lparr>er_world = (Some (claim_row (now + ttl) s now t), u), er_sess = er_sess n, er_ms = ms, er_script = [], er_calls = []\<rparr>"
  have due: "due_in now s t" using due_rows_iff[OF assms(2), of s "(d, c, p)" now] assms(1) by (simp add: due_in_def)
  obtain m where m: "run_act ?N ?frame ?c = (Some (WillReply (wf_id f) ''armed''), m)" "er_world m = (Some ?q, u)"
    unfolding frame_arms[OF assms(5)] durable_of_def
    by (simp add: arm_frame_def assms(7,8,9) persist_will_def arm_def submit_def update_def serve_call_def take_effect_def sql_runs assms(6)
        del: authorize.simps)
  obtain y u' where y: "users (will_txn v) u = (Inr y, u')" using assms(4) by blast
  have meanwhile: "alone ?N ms ?frame ((Some (claim_row (now + ttl) s now t), u), er_sess n) = ((Some ?q, u), er_sess m)"
    using m by (simp add: alone_def)
  obtain k where del: "?N (CallSystem [wop delete_sql [TextV s]] False) (Some ?q, u') = (Inr (sql_ok [Affected k]), Some (bt_remove s ?q), u')"
    using sql_runs(6)[of J users s False ?q u'] by (elim exE)
  have "er_world n' = (Some (bt_remove s ?q), u') \<and> map fst (txns (er_calls n')) = map fst (txns (er_calls n)) @ [will_txn v]"
    using assms(12) unfolding sweep_def act_bind_submit
    by (simp add: serve_call_def take_effect_def sql_runs assms(1,3,10,11) sql_ok_def[of "[Rows _]"] sql_ok_def[of "[Affected _]"] sweep_row_def submit_def due
        rows_affected_def meanwhile y del split: prod.splits) auto
  then show ?thesis using m by (auto simp: row_simps)
qed

definition plain_users :: "(sqlv, nat) edge" where
  "plain_users q k = (Inr (sql_ok []), k + 1)"

definition lapsed_rows :: wills_table where
  "lapsed_rows = [(''a-3'', 100, 0, ''farewell'')]"

lemma demo_session: "will_session_id (en_tag demo_edge) 3 = ''a-3''"
proof -
  have "show_nat 3 = ''3''" by code_simp
  then show ?thesis by (simp add: will_session_id_def demo_edge_def)
qed

lemma demo_edge_fields [simp]: "en_durable_wills demo_edge" "en_will_ttl demo_edge = 60"
  by (simp_all add: demo_edge_def)

lemma sweep_erases_rearmed_will_witness:
  "map_of (rows_of (fst (er_world (snd (run_act (sql_node demo_json plain_users) (sweep (sql_codec demo_json) 500 30)
     \<lparr>er_world = (Some lapsed_rows, 0), er_sess = session_open [], er_ms = 500,
      er_script = [Served, Served, Meanwhile (alone (sql_node demo_json plain_users) 510
        (handle_ws_frame (sql_codec demo_json) id demo_edge Root 3 (Inr (will_frame demo_body))))], er_calls = []\<rparr>))))) ''a-3'' = None"
proof -
  let ?n = "\<lparr>er_world = (Some lapsed_rows, 0), er_sess = session_open [], er_ms = 500,
      er_script = [Served, Served, Meanwhile (alone (sql_node demo_json plain_users) 510
        (handle_ws_frame (sql_codec demo_json) id demo_edge Root 3 (Inr (will_frame demo_body))))], er_calls = []\<rparr>"
  obtain x n' where r: "run_act (sql_node demo_json plain_users) (sweep (sql_codec demo_json) 500 30) ?n = (x, n')"
    using prod.exhaust by blast
  have row: "due_rows 500 lapsed_rows = [(''a-3'', 100, 0, ''farewell'')]" "bt_wf lapsed_rows" "wj_parse demo_json ''farewell'' = Some farewell"
    by (simp_all add: due_rows_def lapsed_rows_def is_due_def bt_wf_def demo_json_def)
  have "map_of (rows_of (fst (er_world n'))) ''a-3'' = None"
    using sweep_erases_rearmed_will[OF row _ demo_arms demo_session[symmetric] _ demo_ids _ _ _ r, where debug = id and auth = Root and ms = 510 and u = 0] by (simp add: plain_users_def)
  then show ?thesis using r by simp
qed

section \<open>A frame in flight when its connection closes\<close>

text \<open>Turns of the node's refresher (\<open>True\<close>) and of a sweeper, its own or another node's, each at a time; the time of the last refresh; and
  sweeps that come no later than the time-to-live after the refresh before them.\<close>

definition will_turn :: "('v, 'w) edge \<Rightarrow> 'v wcodec \<Rightarrow> nat \<Rightarrow> ('v, 'w) edge_run \<Rightarrow> bool \<times> nat \<Rightarrow> ('v, 'w) edge_run" where
  "will_turn N cd ttl n tn =
    snd (run_act N (if fst tn then refresher_turn cd ttl else sweeper_turn cd ttl) (n\<lparr>er_ms := snd tn\<rparr>))"

fun last_refresh :: "nat \<Rightarrow> (bool \<times> nat) list \<Rightarrow> nat" where
  "last_refresh t [] = t"
| "last_refresh t ((refreshing, t') # tns) = last_refresh (if refreshing then t' else t) tns"

fun timely :: "nat \<Rightarrow> nat \<Rightarrow> (bool \<times> nat) list \<Rightarrow> bool" where
  "timely ttl t [] \<longleftrightarrow> True"
| "timely ttl t ((refreshing, t') # tns) \<longleftrightarrow> (if refreshing then timely ttl t' tns else t' \<le> t + ttl \<and> timely ttl t tns)"

text \<open>No other row holds a will with the transaction \<open>q\<close>.\<close>

definition only_here :: "'v wcodec \<Rightarrow> string \<Rightarrow> 'v call \<Rightarrow> wills_table \<Rightarrow> bool" where
  "only_here cd s q t \<longleftrightarrow> (\<forall>s' d c p v. s' \<noteq> s \<longrightarrow> map_of t s' = Some (d, c, p) \<longrightarrow> wc_parse cd p = Some v \<longrightarrow> will_txn v \<noteq> q)"

lemma acts_sweep: "acts I (\<lambda>_. True) (\<lambda>_. True) (sweep cd now ttl)"
proof -
  have row: "acts I (\<lambda>_. True) Q (sweep_row cd now ttl r)" if "Q ()" for r Q
    using that by (auto simp: sweep_row_def split: option.split sum.split)
  have "acts I (\<lambda>_. True) (\<lambda>_. True) (sweep_rows cd now ttl rows)" for rows by (induction rows) (simp_all add: row)
  then show ?thesis by (auto simp: sweep_def split: sum.split list.split op_result.split)
qed

lemma subseq_subset: "subseq xs ys \<Longrightarrow> set xs \<subseteq> set ys"
  by (induction rule: list_emb.induct) auto

lemma run_calm: "er_script n = [] \<Longrightarrow> run_act N p n = (x, n') \<Longrightarrow> er_script n' = []"
proof (induction p arbitrary: n)
  case (Call q c)
  obtain r n1 where r: "serve_call N q n = (r, n1)" by fastforce
  have "er_script n1 = []" using serve_calm[OF Call.prems(1) r] by simp
  then show ?case using Call.IH[of "c r" n1] Call.prems(2) r by auto
next
  case (Touch g c)
  then show ?case using Touch.IH[of "c (er_sess n)" "n\<lparr>er_sess := g (er_sess n)\<rparr>"] by simp
next
  case (Now c)
  then show ?case using Now.IH[of "c (er_ms n)" n] by simp
qed auto

context wills_node
begin

text \<open>A session's row while its node lives: the session is among those refreshed, and its row is pushed by each refresh.\<close>

definition tended :: "string \<Rightarrow> string \<Rightarrow> 'v call \<Rightarrow> nat \<Rightarrow> ('v, 'w) edge_run \<Rightarrow> bool" where
  "tended s p q deadline n \<longleftrightarrow> er_script n = [] \<and> s \<in> set (se_armed (er_sess n))
     \<and> wc_each cd (wc_texts cd (se_armed (er_sess n))) = se_armed (er_sess n)
     \<and> (\<exists>t. T (er_world n) = Some t \<and> bt_wf t \<and> map_of t s = Some (deadline, 0, p) \<and> only_here cd s q t)
     \<and> q \<notin> fst ` set (txns (er_calls n))"

lemma tended_refresh:
  assumes "tended s p q deadline n"
  shows "tended s p q (t' + ttl) (will_turn N cd ttl n (True, t'))"
proof -
  obtain t where t: "T (er_world n) = Some t" "bt_wf t" "map_of t s = Some (deadline, 0, p)" "only_here cd s q t"
    using assms by (auto simp: tended_def)
  let ?q = "CallSystem [wop wills_schema [], wop refresh_sql [wc_num cd (t' + ttl), wc_text cd (wc_texts cd (se_armed (er_sess n)))]] True"
  let ?m = "n\<lparr>er_ms := t'\<rparr>"
  obtain r m where c: "serve_call N ?q ?m = (r, m)" by fastforce
  have some: "se_armed (er_sess n) \<noteq> []" using assms by (auto simp: tended_def)
  have m: "will_turn N cd ttl n (True, t') = m"
    using c some by (simp add: will_turn_def refresher_turn_def refresh_def submit_def)
  have s: "er_script m = []" "N ?q (er_world n) = (r, er_world m)" "er_calls m = er_calls n @ [(?q, r)]" "er_sess m = er_sess n"
    using serve_calm[OF _ c] assms by (simp_all add: tended_def)
  have w: "T (er_world m) = Some (push_deadlines (se_armed (er_sess n)) (t' + ttl) t)"
    using refresh_law[OF s(2)] assms t(1) by (simp add: tended_def rows_of_def)
  have "only_here cd s q (push_deadlines (se_armed (er_sess n)) (t' + ttl) t)"
    using t(4) by (auto simp: only_here_def row_simps split: if_splits option.splits)
  then show ?thesis
    using assms t w s unfolding m tended_def by (auto simp: row_simps)
qed

lemma tended_sweep:
  assumes "tended s p q deadline n" "t' \<le> deadline"
  shows "tended s p q deadline (will_turn N cd ttl n (False, t'))"
proof -
  let ?m = "n\<lparr>er_ms := t'\<rparr>"
  obtain t where t: "T (er_world n) = Some t" "bt_wf t" "map_of t s = Some (deadline, 0, p)" "only_here cd s q t"
    using assms by (auto simp: tended_def)
  obtain x m where r: "run_act N (sweep cd t' ttl) ?m = (x, m)" using prod.exhaust by blast
  have m: "will_turn N cd ttl n (False, t') = m" using r by (simp add: will_turn_def sweeper_turn_def)
  have calm: "er_script ?m = []" using assms(1) by (simp add: tended_def)
  have sess: "er_sess m = er_sess n"
    using run_asks[OF acts_sweep[of "\<lambda>u. u = er_sess n"] _ _ r] calm by simp
  obtain t2 f where t2: "T (er_world m) = Some t2" "bt_wf t2" "\<forall>s. \<not> due_in t' s t \<longrightarrow> map_of t2 s = map_of t s"
      "txns (er_calls m) = txns (er_calls n) @ f" "subseq (map fst f) (wills_of cd (due_rows t' t))"
      "\<forall>r \<in> set (due_rows t' t). settled cd (t' + ttl) t2 f r"
    using sweep_outcome[OF _ _ t(2) r] calm t(1) by (auto simp: undisturbed_def)
  have here: "\<not> due_in t' s t" using t(3) assms(2) by (simp add: due_in_def is_due_def)
  have other: "s' \<noteq> s \<and> map_of t s' = Some (d, c, p')" if "(s', d, c, p') \<in> set (due_rows t' t)" for s' d c p'
    using that here due_rows_iff[OF t(2)] by (auto simp: due_in_def)
  have "q \<notin> set (wills_of cd (due_rows t' t))"
  proof
    assume "q \<in> set (wills_of cd (due_rows t' t))"
    then obtain s' d c p' v where "(s', d, c, p') \<in> set (due_rows t' t)" "wc_parse cd p' = Some v" "q = will_txn v"
      by (auto simp: wills_of_def map_filter_def)
    then show False using other t(4) unfolding only_here_def by blast
  qed
  then have "q \<notin> fst ` set f" using subseq_subset[OF t2(5)] by auto
  moreover have "only_here cd s q t2"
    unfolding only_here_def
  proof (intro allI impI)
    fix s' d c p' v assume a: "s' \<noteq> s" "map_of t2 s' = Some (d, c, p')" "wc_parse cd p' = Some v"
    show "will_txn v \<noteq> q"
    proof (cases "due_in t' s' t")
      case False
      then show ?thesis using a t2(3) t(4) by (simp add: only_here_def)
    next
      case True
      then obtain d0 c0 p0 where 0: "map_of t s' = Some (d0, c0, p0)" "is_due t' (d0, c0, p0)"
        by (auto simp: due_in_def split: option.splits)
      then have "settled cd (t' + ttl) t2 f (s', d0, c0, p0)" using t2(6) due_rows_iff[OF t(2)] by simp
      then have "p' = p0" using a(2) by (auto simp: settled_def)
      then show ?thesis using 0(1) a t(4) by (simp add: only_here_def)
    qed
  qed
  moreover have "map_of t2 s = Some (deadline, 0, p)" using t2(3) here t(3) by simp
  ultimately show ?thesis
    using assms(1) t2(1,2,4) sess run_calm[OF calm r] unfolding m tended_def by auto
qed

lemma tended_turns:
  "tended s p q (t0 + ttl) n \<Longrightarrow> timely ttl t0 tns \<Longrightarrow> tended s p q (last_refresh t0 tns + ttl) (foldl (will_turn N cd ttl) n tns)"
proof (induction ttl t0 tns arbitrary: n rule: timely.induct)
  case (2 ttl t refreshing t' tns)
  show ?case
  proof (cases refreshing)
    case True
    then show ?thesis using 2(1)[OF True tended_refresh[OF 2(3)]] 2(4) by simp
  next
    case False
    then show ?thesis using 2(2)[OF False tended_sweep[OF 2(3)]] 2(4) by simp
  qed
qed simp

end

text \<open>C20: Frames run on when their connection closes. A will whose frame is still being made durable when the session closes is armed afterwards, and
  acknowledged: the close saw no will to run or to disarm. The node goes on refreshing the row for the connection that is gone: through any
  sequence of its refreshes and of sweeps by it or other nodes, all submissions served and every sweep within the
  time-to-live after the refresh before it, the row stays, pushed by every refresh, and the will does not run (unless
  another row holds the same transaction).\<close>

theorem late_will_outlives_its_connection:
  assumes "arms f w" "en_durable_wills en" "validate_txn (declared (wb_objects w) (wb_ops w)) (wb_ops w) = Inr ids"
    and "authorize debug auth ids ''write'' = Inr ()" "er_sess n = session_open armed" "er_calls n = []"
    and "er_script n = [Meanwhile (alone (sql_node J users) ms (close_session (sql_codec J) en conn))]"
    and "run_act (sql_node J users) (handle_ws_frame (sql_codec J) debug en auth conn (Inr f)) n = (r, n')"
    and "s = will_session_id (en_tag en) conn" "wj_each J (wj_texts J (List.insert s armed)) = List.insert s armed"
    and "bt_wf (rows_of (fst (er_world n)))" "only_here (sql_codec J) s (will_txn (durable_of auth ids w)) (rows_of (fst (er_world n)))"
    and "timely (en_will_ttl en) (er_ms n) tns" "n2 = foldl (will_turn (sql_node J users) (sql_codec J) (en_will_ttl en)) n' tns"
  shows "r = Some (WillReply (wf_id f) ''armed'') \<and> se_will (er_sess n') \<noteq> None
    \<and> map_of (rows_of (fst (er_world n2))) s
      = Some (last_refresh (er_ms n) tns + en_will_ttl en, 0, wj_will J (durable_of auth ids w))
    \<and> will_txn (durable_of auth ids w) \<notin> fst ` set (er_calls n2)"
proof -
  let ?N = "sql_node J users" and ?q = "will_txn (durable_of auth ids w)" and ?p = "wj_will J (durable_of auth ids w)"
  let ?t = "put_row s (er_ms n + en_will_ttl en) ?p (rows_of (fst (er_world n)))"
  have closed: "alone ?N ms (close_session (sql_codec J) en conn) (er_world n, session_open armed) = (er_world n, session_open armed)"
    by (simp add: alone_def close_session_def session_open_def sweep_polls_def)
  have opened: "se_armed (session_open armed) = armed" by (simp add: session_open_def)
  have n': "r = Some (WillReply (wf_id f) ''armed'')" "txns (er_calls n') = []" "se_will (er_sess n') \<noteq> None" "er_script n' = []"
      "se_armed (er_sess n') = List.insert s armed" "er_world n' = (Some ?t, snd (er_world n))"
    using assms(8) unfolding frame_arms[OF assms(1)] durable_of_def
    by (auto simp add: arm_frame_def assms(2-7,9) persist_will_def arm_def submit_def update_def serve_call_def take_effect_def sql_runs
        closed durable_of_def opened split: prod.splits simp del: authorize.simps)
  have "only_here (sql_codec J) s ?q ?t" using assms(12) by (auto simp: only_here_def row_simps)
  moreover have "bt_wf ?t" using assms(11) by (simp add: row_simps)
  ultimately have "wn.tended J s ?p ?q (er_ms n + en_will_ttl en) n'"
    using n' assms(10) by (simp add: wn.tended_def row_simps)
  from wn.tended_turns[OF this assms(13), where users = users]
  have "wn.tended J s ?p ?q (last_refresh (er_ms n) tns + en_will_ttl en) n2" unfolding assms(14) .
  then obtain t2 where "fst (er_world n2) = Some t2" "map_of t2 s = Some (last_refresh (er_ms n) tns + en_will_ttl en, 0, ?p)"
    "?q \<notin> fst ` set (txns (er_calls n2))" by (auto simp: wn.tended_def)
  moreover from this have "?q \<notin> fst ` set (er_calls n2)" by (force simp: txns_def)
  ultimately show ?thesis using n' by (simp add: rows_of_def)
qed

lemma late_will_outlives_its_connection_witness:
  "\<exists>n'. run_act (sql_node demo_json plain_users) (handle_ws_frame (sql_codec demo_json) id demo_edge Root 3 (Inr (will_frame demo_body)))
       \<lparr>er_world = (None, 0), er_sess = session_open [], er_ms = 500,
        er_script = [Meanwhile (alone (sql_node demo_json plain_users) 500 (close_session (sql_codec demo_json) demo_edge 3))], er_calls = []\<rparr>
       = (Some (WillReply 7 ''armed''), n')
     \<and> map_of (rows_of (fst (er_world (foldl (will_turn (sql_node demo_json plain_users) (sql_codec demo_json) 60) n'
          [(True, 520), (False, 570), (True, 9000), (False, 9050)])))) ''a-3'' = Some (9060, 0, ''farewell'')"
proof -
  let ?n = "\<lparr>er_world = (None, 0), er_sess = session_open [], er_ms = 500,
        er_script = [Meanwhile (alone (sql_node demo_json plain_users) 500 (close_session (sql_codec demo_json) demo_edge 3))], er_calls = []\<rparr>"
  let ?tns = "[(True, 520), (False, 570), (True, 9000), (False, 9050)]"
  obtain r n' where r: "run_act (sql_node demo_json plain_users) (handle_ws_frame (sql_codec demo_json) id demo_edge Root 3
      (Inr (will_frame demo_body))) ?n = (r, n')" by fastforce
  have seven: "wf_id (will_frame demo_body) = 7" "wj_will demo_json v = ''farewell''" for v by (simp_all add: will_frame_def demo_json_def)
  have one: "wj_each demo_json (wj_texts demo_json (List.insert ''a-3'' [])) = List.insert ''a-3'' []"
    by (simp add: demo_json_def)
  have "r = Some (WillReply (wf_id (will_frame demo_body)) ''armed'') \<and> se_will (er_sess n') \<noteq> None
    \<and> map_of (rows_of (fst (er_world (foldl (will_turn (sql_node demo_json plain_users) (sql_codec demo_json) (en_will_ttl demo_edge)) n' ?tns)))) ''a-3''
      = Some (last_refresh (er_ms ?n) ?tns + en_will_ttl demo_edge, 0, wj_will demo_json (durable_of Root [''chat''] demo_body))
    \<and> will_txn (durable_of Root [''chat''] demo_body)
        \<notin> fst ` set (er_calls (foldl (will_turn (sql_node demo_json plain_users) (sql_codec demo_json) (en_will_ttl demo_edge)) n' ?tns))"
    by (rule late_will_outlives_its_connection[OF demo_arms _ demo_ids _ _ _ _ r demo_session[symmetric] one _ _ _ refl])
       (simp_all add: rows_of_def bt_wf_def only_here_def)
  then show ?thesis using r by (simp add: seven)
qed

section \<open>A connection that outlives its token\<close>

lemma verify_expired:
  assumes "verify mac of_json now secret t = Ret (Some c)" "cap_exp c \<le> later"
  shows "verify mac of_json later secret t = Ret None"
proof (cases "Option.bind (strip_prefix token_prefix t) (split_once (CHR ''.''))")
  case None
  then show ?thesis by (simp add: verify_def)
next
  case (Some ps)
  obtain p s where ps: "ps = (p, s)" by fastforce
  obtain payload where p: "unhex p = Ret (Some payload)"
    using assms(1) Some ps by (auto simp: verify_def split: option.splits)
  obtain sig where sig: "unhex s = Ret (Some sig)" "mac secret payload = sig"
    using assms(1) Some ps p by (auto simp: verify_def split: option.splits if_splits)
  have "of_json payload = Some c"
    using assms(1) Some ps p sig by (auto simp: verify_def split: option.splits if_splits)
  then show ?thesis using Some ps p sig assms(2) by (simp add: verify_def)
qed

text \<open>C21: An open connection keeps the rights of an expired token: the token that opened it is refused on every HTTP route that takes a token from its expiry on, yet a
  frame of the connection is still submitted under its capability, at any later time.\<close>

theorem connection_outlives_its_token:
  assumes "ak_token (an_keys nd) = Some root" "t \<noteq> root"
    and "ws_handler (an_keys nd) opened (Some (''Bearer '' @ t)) None = Ret (Inr (Cap c))" "cap_exp c \<le> now"
    and "granted c (if wf_read_only f then ''read'' else ''write'') (wf_objects f)" "wf_objects f \<noteq> []"
    and "\<not> wf_cancel f" "wf_will f = None" "wf_poll f = None"
    and "er_script n = []" "er_ms n = 1000 * now"
    and "run_act N (handle_ws_frame cd debug en (Cap c) conn (Inr f)) n = (r, n')"
  shows "router nd now debug conn' (Gated (Some (''Bearer '' @ t)) req) = Ret (Fin (HttpError (unauthorized ''missing or invalid bearer token'')))
    \<and> (\<exists>a. er_calls n' = er_calls n @ [(CallTxn (Some c) (wf_objects f) (wf_ops f) (wf_read_only f) (wf_optimistic f), a)]
         \<and> r = Some (answer_frame (wf_id f) a))"
proof -
  let ?v = "\<lambda>at. verify (ak_mac (an_keys nd)) (ak_of_json (an_keys nd)) at (ak_secret (an_keys nd)) t"
  have bind: "Option.bind (Some (''Bearer '' @ t)) (strip_prefix ''Bearer '') = Some t"
    by (simp only: Option.bind.simps strip_prefix_append)
  have "?v opened = Ret (Some c)"
    using assms(1-3) unfolding ws_handler_def bearer_auth_def bind resolve_auth_def subprotocol_tokens_def
    by (auto split: option.splits)
  then have "?v now = Ret None" by (rule verify_expired) (rule assms(4))
  then have "require_api_token (an_keys nd) now (Some (''Bearer '' @ t)) = Ret (Inl (unauthorized ''missing or invalid bearer token''))"
    using assms(1,2) unfolding require_api_token_def bearer_auth_def bind resolve_auth_def by simp
  moreover have "authorize debug (Cap c) (wf_objects f) (if wf_read_only f then ''read'' else ''write'') = Inr ()"
    using authorize_granted[of debug c _ _ "()"] assms(5) by blast
  ultimately show ?thesis
    using assms(6-10,12)
    by (auto simp: router_def handle_ws_frame_def txn_frame_def declared_def submit_def serve_call_def take_effect_def
        simp del: authorize.simps split: prod.splits)
qed

lemma connection_outlives_its_token_witness:
  "\<exists>n' a. run_act echo_node (handle_ws_frame echo_codec id \<lparr>en_tag = Some ''a'', en_durable_wills = True, en_will_ttl = 60\<rparr> (Cap demo_cap) 1
        (Inr (read_frame ''user-7-x''))) (echo_run 500000 []) = (Some (answer_frame 1 a), n')
     \<and> router demo_api 500 id 2 (Gated (Some (''Bearer '' @ demo_token)) (PostQuery ''user-7-x'' \<lparr>st_sql = ''SELECT 1'', st_params = []\<rparr>))
       = Ret (Fin (HttpError (unauthorized ''missing or invalid bearer token'')))"
proof -
  let ?en = "\<lparr>en_tag = Some ''a'', en_durable_wills = True, en_will_ttl = 60\<rparr>"
  obtain r n' where r: "run_act echo_node (handle_ws_frame echo_codec id ?en (Cap demo_cap) 1 (Inr (read_frame ''user-7-x''))) (echo_run 500000 []) = (r, n')"
    by fastforce
  have t: "ak_token (an_keys demo_api) = Some ''root''" "demo_token \<noteq> ''root''"
    using demo_token_text by (simp_all add: demo_api_def demo_keys_def)
  have "Option.bind (Some (''Bearer '' @ demo_token)) (strip_prefix ''Bearer '') = Some demo_token"
    by (simp only: Option.bind.simps strip_prefix_append)
  then have w: "ws_handler (an_keys demo_api) 5 (Some (''Bearer '' @ demo_token)) None = Ret (Inr (Cap demo_cap))"
    unfolding ws_handler_def t(1) bearer_auth_def by (simp add: resolve_auth_def demo_verifies demo_api_def t(2))
  have g: "granted demo_cap (if wf_read_only (read_frame ''user-7-x'') then ''read'' else ''write'') (wf_objects (read_frame ''user-7-x''))"
    by (simp add: granted_def read_frame_def allows_def demo_cap_def verb_covered_def pattern_matches_def strip_suffix_def starts_with_def)
  have f: "wf_objects (read_frame ''user-7-x'') \<noteq> []" "\<not> wf_cancel (read_frame ''user-7-x'')" "wf_will (read_frame ''user-7-x'') = None"
    "wf_poll (read_frame ''user-7-x'') = None" "cap_exp demo_cap \<le> 500" "wf_id (read_frame ''user-7-x'') = 1" by (simp_all add: read_frame_def demo_cap_def)
  from connection_outlives_its_token[OF t w f(5) g f(1-4) _ _ r, where conn' = 2] r f(6)
  show ?thesis by auto
qed

end
