(* ===== verification/Spec2Isabelle.thy ===== *)
theory Spec2Isabelle
  imports Log_Props Proto_Run Rpc Limits Fence Boat_Props Recovery_Props Handoff_Props Loop_Findings R2_Props
    Will_Races
begin

text \<open>
  A verification development for fafo, a server that keeps one small SQLite database per object in
  a blob store and runs transactions over several objects on a cluster of nodes.

  The parts and how they meet. An object's durable state is an append-only log of entries in the
  blob store (\<open>objlog.rs\<close>, with page deltas from \<open>delta.rs\<close>); a transaction is committed by creating
  one outcome blob. Each object belongs to one logical worker (\<open>worker.rs\<close>); where it belongs is a
  hash with exceptions, and blocks of workers are leased by nodes (\<open>cluster.rs\<close>). A worker applies
  transactions locally and ships what they changed in boats; a boat passes the fencing gate
  before it commits. Clients come in through \<open>api.rs\<close> with capability tokens (\<open>grants.rs\<close>), nodes talk
  through \<open>rpc.rs\<close>, and \<open>limits.rs\<close> keeps memory and disk within budget.

  Theories, from the bottom up:

  \<^item> \<open>Prelude\<close>, \<open>Text\<close>, \<open>Codec\<close>: results, panics, sorted association lists for maps; decimal and
    hexadecimal text as Rust parses it; big- and little-endian numbers.
  \<^item> \<open>Blob_Store\<close> (\<open>store.rs\<close>): the store interface as locales (get/put/list/create/compare-and-swap), the
    in-memory store interpreting them, the file store's key handling, the trait's default methods.
  \<^item> \<open>Store_IO\<close> (\<open>store.rs\<close>, \<open>sim.rs\<close>): async code as programs over store requests, run alone (\<open>run_io\<close>) or
    interleaved with other tasks under failures and lost answers (\<open>sys_step\<close>); the calculus \<open>safe\<close> for
    one program among others.
  \<^item> \<open>Delta\<close> (\<open>delta.rs\<close>): page manifests, diff and apply, the delta format, names of delta blobs.
  \<^item> \<open>Objlog\<close>, \<open>Log_Spec\<close>, \<open>Log_Safety\<close>, \<open>Log_Race\<close>, \<open>Log_Props\<close> (\<open>objlog.rs\<close>): the log's code; its abstract view
    (the committed prefix of a store) which every reader and writer refines; safety under every
    interleaving; the race of the rollback; the properties.
  \<^item> \<open>Protosim\<close>, \<open>Proto_Safety\<close>, \<open>Proto_Run\<close> (\<open>bin/protosim.rs\<close>): the commit-protocol simulator, its invariant
    that money is conserved in every state, and the theorem that every seed of the sweep reports
    no violation. Its schedule runs at most 2,000,001 steps as in the code.
  \<^item> \<open>Routing\<close> (\<open>cluster.rs\<close>, \<open>object.rs\<close>): placement, blocks, claims, validation, plurality. \<open>Grants\<close>: tokens.
    \<open>Rpc\<close> (\<open>rpc.rs\<close>, \<open>api.rs\<close>, \<open>cluster.rs\<close>): errors and messages between nodes, the way of a submission.
    \<open>Limits\<close> (\<open>limits.rs\<close>): budgets and the disk ledger.
  \<^item> \<open>Lease\<close>, \<open>Lease_Props\<close>, \<open>Fence\<close> (\<open>cluster.rs\<close>): lease blobs, boot claims, boot names, re-adoption,
    shutdown; the node clock, the lease guard and the commit gate.
  \<^item> \<open>Checkpoints\<close> (\<open>cluster.rs\<close>): what workers durably claim, the durable truth about an object, boot.
  \<^item> \<open>Worker_State\<close>, \<open>Components\<close>, \<open>Boats\<close>, \<open>Boat_Props\<close> (\<open>worker.rs\<close>): the worker's state and polls, grouping by
    union-find, cutting and launching boats, reverting.
  \<^item> \<open>Ship\<close>, \<open>Ship_Props\<close>, \<open>Recovery_Props\<close> (\<open>worker.rs\<close>): the task that ships a boat, in both storage modes, and
    recovery; what an answer to the client guarantees, all or nothing, and recovery's monotonicity.
  \<^item> \<open>Handoff\<close>, \<open>Handoff_Props\<close> (\<open>worker.rs\<close>): how an object moves between workers by deeds with generations:
    renouncing, accepting, serving the queue's head, chasing the owner.
  \<^item> \<open>Exec\<close>, \<open>Worker_Loop\<close> (\<open>worker.rs\<close>), \<open>Image\<close> (\<open>object.rs\<close>): running a transaction on the participants'
    connections and completing it; admission, the pump and the handler of every message; fetching the
    image of an object that is not live.
  \<^item> \<open>Exec_Props\<close>: on an engine that behaves as SQLite documents (\<open>sqlite_like\<close>), a transaction's statements take
    effect at all participants, as their own effects in their order, or at none; and which statements escape that.
  \<^item> \<open>Loop_Frames\<close>, \<open>Loop_Inv\<close>, \<open>Loop_Run\<close>, \<open>Loop_Step\<close>, \<open>Loop_Turn\<close>, \<open>Loop_Pump\<close>, \<open>Loop_Handle\<close>, \<open>Loop_Props\<close>: the
    loop's invariant \<open>good\<close> and the conservation of replies, carried from the operations up to the handler of
    every message and to every life of a worker (\<open>worker_run\<close>) over messages as its tasks send them (\<open>msg_ok\<close>).
    The code's assertions are panics of the model, which the invariant excludes. \<open>Loop_Findings\<close>: a run in the older
    mode, outside \<open>msg_ok\<close>, that panics.
  \<^item> \<open>R2\<close>, \<open>R2_Encoding\<close>, \<open>R2_Dates\<close>, \<open>R2_Net\<close>, \<open>R2_Store\<close>, \<open>R2_Fake\<close>, \<open>R2_Props\<close> (\<open>r2.rs\<close>): the client of the production
    store as programs over HTTP; its encodings and its calendar; networks that lose, refuse and mangle; the client as a
    store that refines \<open>MemBlobStore\<close>, over any service with the laws S3 documents (locale \<open>s3_service\<close>), interpreted on
    the \<open>FakeS3\<close> of the tests; what the client breaks (boot names, retried deletes).
  \<^item> \<open>Front\<close>: code at the edge of a node as programs over what it asks of the node, run under scripts of failures, lost answers and
    interference; the calculus \<open>acts\<close> for what a program may ask for. \<open>Wills\<close> (\<open>wills.rs\<close>, \<open>cluster.rs\<close>): durable wills;
    \<open>Wills_Table\<close>: what their SQL does to the table, and the locale \<open>wills_node\<close> of what the code relies on, under which a sweep is followed;
    \<open>Wills_Node\<close>: a node that executes the statements, on which it is interpreted. \<open>Api\<close> (\<open>api.rs\<close>): authentication,
    the frames and the close of a connection, the HTTP handlers, the endpoint for other nodes, the routes. \<open>Api_Props\<close>: what a
    capability confines, on a connection and on every route;
    \<open>Will_Props\<close>, \<open>Will_Races\<close>: what sweeps keep and fire, and the interleavings in which a will is lost or never runs.

  Bounds and fuel. \<open>fold_committed\<close> and \<open>committed_seq\<close> retry 16 times and \<open>prewrite\<close> 64 times as the code
  does, and answer with the code's error when they run out; \<open>boot_name\<close> tries 64 times. The worker's
  \<open>pump\<close> takes fuel for a loop the code leaves unbounded; \<open>every_message_handled\<close> shows that for any answers of
  the store some fuel is enough. No other
  recursion is fuelled: \<open>uf_find\<close> is partial and proved to answer, the rest terminates by measures.
  The loop of \<open>r2_list\<close> over the pages of a listing takes fuel, and one more than the number of keys is enough.

  An accident script (\<open>er_script\<close>, \<open>net_script\<close>) is any finite list; after it everything is served.

  Machine integers are words where the code's arithmetic can wrap (dates, ranges, expiries, log numbers, change counters);
  epochs, generations and versions of the store, which only count up from small values, and counts of workers and
  blocks are natural numbers.

  Not modelled: SQLite, the HTTP server and client libraries, JSON, HMAC and the page hash are
  arguments with their laws as hypotheses where used; printing and statistics are left out.
\<close>

end
